(* ===== verification/Prelude.thy ===== *)
theory Prelude
  imports Main "HOL-Library.Word" "HOL-Library.Char_ord" "HOL-Library.List_Lexorder"
    "HOL-Library.Monad_Syntax" "HOL-Library.Multiset"
begin

text \<open>
  Shared vocabulary of the development: Rust's fixed-width integers (\<open>i64\<close> as a
  bounded \<open>int\<close> with wrap-around and saturation written out, \<open>u64\<close> as a
  \<open>64 word\<close>), the slice and vector operations the crates use (\<open>position\<close>,
  \<open>swap_remove\<close>, \<open>min_by_key\<close>), \<open>BTreeMap\<close> as an association list
  kept sorted by key, and the fact collections the component theories fill.

  A result of type \<open>'a option\<close> in a model function stands for Rust's control
  flow: \<open>None\<close> is a panic (the release profile of the workspace aborts on
  panic), unless the text of the function says that it is the \<open>Option\<close> the
  source returns.
\<close>

named_theorems row_laws \<open>how the row operations act on lookup\<close>
named_theorems wf_intros \<open>operations keep the well-formedness invariants\<close>
named_theorems codec_simps \<open>lengths and projections of encoded records\<close>

section \<open>Machine integers\<close>

type_synonym u8 = "8 word"
type_synonym u16 = "16 word"
type_synonym u32 = "32 word"
type_synonym u64 = "64 word"

abbreviation i64_min :: int where "i64_min \<equiv> - (2 ^ 63)"
abbreviation i64_max :: int where "i64_max \<equiv> 2 ^ 63 - 1"

definition is_i64 :: "int \<Rightarrow> bool" where
  "is_i64 x \<longleftrightarrow> i64_min \<le> x \<and> x \<le> i64_max"

text \<open>Two's complement reading of an arbitrary integer: the value of Rust's plain
  \<open>+\<close>, \<open>-\<close>, \<open>*\<close> and of \<open>as i64\<close> in the release profile.\<close>

definition i64_wrap :: "int \<Rightarrow> int" where
  "i64_wrap x = (x + 2 ^ 63) mod 2 ^ 64 - 2 ^ 63"

text \<open>The saturating operations clamp the exact result.\<close>

definition i64_clamp :: "int \<Rightarrow> int" where
  "i64_clamp x = max i64_min (min i64_max x)"

definition i64_saturating_add :: "int \<Rightarrow> int \<Rightarrow> int" where
  "i64_saturating_add a b = i64_clamp (a + b)"

definition i64_saturating_sub :: "int \<Rightarrow> int \<Rightarrow> int" where
  "i64_saturating_sub a b = i64_clamp (a - b)"

definition i64_saturating_mul :: "int \<Rightarrow> int \<Rightarrow> int" where
  "i64_saturating_mul a b = i64_clamp (a * b)"

definition trunc_div :: "int \<Rightarrow> int \<Rightarrow> int" where
  "trunc_div a b = sgn a * sgn b * (\<bar>a\<bar> div \<bar>b\<bar>)"

text \<open>\<open>a / b\<close>: truncates towards zero, panics on a zero divisor and on
  \<open>i64::MIN / -1\<close> in every build profile.\<close>

definition i64_div :: "int \<Rightarrow> int \<Rightarrow> int option" where
  "i64_div a b =
     (if b = 0 then None
      else if a = i64_min \<and> b = - 1 then None
      else Some (trunc_div a b))"

text \<open>\<open>i64::div_euclid\<close>: the quotient with a non-negative remainder.\<close>

definition i64_div_euclid :: "int \<Rightarrow> int \<Rightarrow> int option" where
  "i64_div_euclid a b =
     (if b = 0 then None
      else if a = i64_min \<and> b = - 1 then None
      else Some (if 0 < b then a div b else - (a div (- b))))"

definition u64_as_i64 :: "u64 \<Rightarrow> int" where
  "u64_as_i64 w = sint w"

definition usize_as_i64 :: "nat \<Rightarrow> int" where
  "usize_as_i64 n = i64_wrap (int n)"

definition u64_saturating_add :: "u64 \<Rightarrow> u64 \<Rightarrow> u64" where
  "u64_saturating_add a b = (if unat a + unat b < 2 ^ 64 then a + b else - 1)"

definition u64_saturating_sub :: "u64 \<Rightarrow> u64 \<Rightarrow> u64" where
  "u64_saturating_sub a b = (if b \<le> a then a - b else 0)"

lemma is_i64_clamp [simp, intro]: "is_i64 (i64_clamp x)"
  by (simp add: is_i64_def i64_clamp_def)

lemma i64_clamp_id [simp]: "is_i64 x \<Longrightarrow> i64_clamp x = x"
  by (simp add: is_i64_def i64_clamp_def)

lemma is_i64_wrap [simp, intro]: "is_i64 (i64_wrap x)"
proof -
  have "0 \<le> (x + 2 ^ 63) mod 2 ^ 64" "(x + 2 ^ 63) mod 2 ^ 64 < (2 ^ 64 :: int)"
    by simp_all
  then show ?thesis by (simp add: is_i64_def i64_wrap_def)
qed

lemma is_i64_simps [simp]: "is_i64 0" "is_i64 1"
  by (simp_all add: is_i64_def)

lemma i64_wrap_id [simp]: "is_i64 x \<Longrightarrow> i64_wrap x = x"
  by (simp add: is_i64_def i64_wrap_def)

lemma sint_u64_is_i64 [simp]: "is_i64 (sint (w :: u64))"
  using sint_greater_eq [of w] sint_lt [of w] by (simp add: is_i64_def)

lemma sint_of_nat_u64:
  assumes "n < 2 ^ 63"
  shows "sint (of_nat n :: u64) = int n"
  using assms by (simp add: sint_uint unsigned_of_nat signed_take_bit_int_eq_self take_bit_nat_eq_self)

lemma u64_saturating_add_unat:
  "unat (u64_saturating_add a b) = min (unat a + unat b) (2 ^ 64 - 1)"
proof (cases "unat a + unat b < 2 ^ 64")
  case True
  then show ?thesis by (simp add: u64_saturating_add_def unat_word_ariths)
next
  case False
  then show ?thesis by (simp add: u64_saturating_add_def unsigned_minus_1_eq_mask mask_eq_exp_minus_1)
qed

lemma unat_of_nat_u64: "n < 2 ^ 64 \<Longrightarrow> unat (of_nat n :: u64) = n"
  by (simp add: unat_of_nat take_bit_nat_eq_self)

lemma of_nat_u64_eq_0: "n < 2 ^ 64 \<Longrightarrow> (of_nat n :: u64) = 0 \<longleftrightarrow> n = 0"
  using unat_of_nat_u64 [of n] unat_eq_zero [of "of_nat n :: u64"] by auto

section \<open>Slices and vectors\<close>

text \<open>\<open>iter().position(p)\<close>.\<close>

fun position :: "('a \<Rightarrow> bool) \<Rightarrow> 'a list \<Rightarrow> nat option" where
  "position p [] = None"
| "position p (x # xs) = (if p x then Some 0 else map_option Suc (position p xs))"

lemma position_Some_iff:
  "position p xs = Some i \<longleftrightarrow> i < length xs \<and> p (xs ! i) \<and> (\<forall>j < i. \<not> p (xs ! j))"
proof (induction xs arbitrary: i)
  case Nil
  then show ?case by simp
next
  case (Cons x xs)
  show ?case
  proof (cases i)
    case 0
    then show ?thesis by auto
  next
    case (Suc k)
    then show ?thesis using Cons.IH [of k] by (auto simp: less_Suc_eq_0_disj)
  qed
qed

lemma position_None_iff: "position p xs = None \<longleftrightarrow> (\<forall>x \<in> set xs. \<not> p x)"
  by (induction xs) auto

lemma position_SomeD:
  assumes "position p xs = Some i"
  shows "i < length xs" and "p (xs ! i)"
  using assms by (simp_all add: position_Some_iff)

text \<open>\<open>Vec::swap_remove(i)\<close>: the last element takes the place of the removed one.
  Every caller in the source passes an index in range.\<close>

definition swap_remove :: "nat \<Rightarrow> 'a list \<Rightarrow> 'a list" where
  "swap_remove i xs = butlast (xs[i := last xs])"

lemma length_swap_remove [simp]: "length (swap_remove i xs) = length xs - 1"
  by (simp add: swap_remove_def)

lemma mset_swap_remove:
  assumes "i < length xs"
  shows "mset (swap_remove i xs) = mset xs - {# xs ! i #}"
proof -
  from assms obtain ys z where xs: "xs = ys @ [z]" by (cases xs rule: rev_cases) auto
  show ?thesis
  proof (cases "i < length ys")
    case True
    then have "mset (ys[i := z]) = add_mset z (mset ys - {# ys ! i #})"
      by (simp add: mset_update)
    with True show ?thesis
      by (simp add: swap_remove_def xs list_update_append1 nth_append)
  next
    case False
    with assms xs have "i = length ys" by simp
    then show ?thesis by (simp add: swap_remove_def xs)
  qed
qed

lemma set_swap_remove_distinct:
  assumes "i < length xs" and "distinct xs"
  shows "set (swap_remove i xs) = set xs - {xs ! i}"
proof -
  have "mset (swap_remove i xs) = mset (remove1 (xs ! i) xs)"
    by (simp add: mset_swap_remove [OF assms(1)])
  then have "set (swap_remove i xs) = set (remove1 (xs ! i) xs)"
    by (metis set_mset_mset)
  with assms(2) show ?thesis by simp
qed

lemma distinct_swap_remove:
  assumes "i < length xs" and "distinct xs"
  shows "distinct (swap_remove i xs)"
proof -
  have "card (set (swap_remove i xs)) = length (swap_remove i xs)"
    using assms by (simp add: set_swap_remove_distinct distinct_card)
  then show ?thesis by (rule card_distinct)
qed

text \<open>\<open>enumerate().min_by_key(f).map(|(i, _)| i)\<close>: the first index whose key is
  least.\<close>

fun min_index_by :: "('a \<Rightarrow> 'k :: linorder) \<Rightarrow> 'a list \<Rightarrow> nat option" where
  "min_index_by f [] = None"
| "min_index_by f (x # xs) =
     (case min_index_by f xs of
        None \<Rightarrow> Some 0
      | Some j \<Rightarrow> (if f x \<le> f (xs ! j) then Some 0 else Some (Suc j)))"

lemma min_index_by_None [simp]: "min_index_by f xs = None \<longleftrightarrow> xs = []"
  by (cases xs) (auto split: option.splits)

lemma min_index_by_Some:
  assumes "min_index_by f xs = Some i"
  shows "i < length xs \<and> (\<forall>x \<in> set xs. f (xs ! i) \<le> f x)"
  using assms
proof (induction xs arbitrary: i)
  case Nil
  then show ?case by simp
next
  case (Cons x xs)
  then show ?case by (fastforce split: option.splits if_splits)
qed

section \<open>\<open>BTreeMap\<close> as a sorted association list\<close>

abbreviation keys :: "('k \<times> 'v) list \<Rightarrow> 'k list" where
  "keys m \<equiv> map fst m"

definition btree_wf :: "('k :: linorder \<times> 'v) list \<Rightarrow> bool" where
  "btree_wf m \<longleftrightarrow> sorted_wrt (<) (keys m)"

text \<open>\<open>entry(k).and_modify(f).or_insert(d)\<close>.\<close>

fun btree_upsert :: "'k :: linorder \<Rightarrow> ('v \<Rightarrow> 'v) \<Rightarrow> 'v \<Rightarrow> ('k \<times> 'v) list \<Rightarrow> ('k \<times> 'v) list" where
  "btree_upsert k f d [] = [(k, d)]"
| "btree_upsert k f d ((a, b) # m) =
     (if k < a then (k, d) # (a, b) # m
      else if k = a then (a, f b) # m
      else (a, b) # btree_upsert k f d m)"

abbreviation btree_insert :: "'k :: linorder \<Rightarrow> 'v \<Rightarrow> ('k \<times> 'v) list \<Rightarrow> ('k \<times> 'v) list" where
  "btree_insert k v \<equiv> btree_upsert k (\<lambda>_. v) v"

lemma fst_set_btree_upsert [simp]: "fst ` set (btree_upsert k f d m) = insert k (fst ` set m)"
  by (induction k f d m rule: btree_upsert.induct) (auto simp: insert_commute)

lemma btree_wf_Nil [simp]: "btree_wf []"
  by (simp add: btree_wf_def)

lemma btree_wf_Cons: "btree_wf ((a, b) # m) \<longleftrightarrow> (\<forall>k \<in> fst ` set m. a < k) \<and> btree_wf m"
  by (simp add: btree_wf_def)

lemma btree_wf_upsert [wf_intros]: "btree_wf m \<Longrightarrow> btree_wf (btree_upsert k f d m)"
  by (induction k f d m rule: btree_upsert.induct) (auto simp: btree_wf_Cons)

lemma btree_wf_distinct: "btree_wf m \<Longrightarrow> distinct (keys m)"
  by (simp add: btree_wf_def strict_sorted_iff)

lemma map_of_btree_upsert:
  assumes "btree_wf m"
  shows "map_of (btree_upsert k f d m) =
    (map_of m)(k \<mapsto> (case map_of m k of None \<Rightarrow> d | Some v \<Rightarrow> f v))"
  using assms
proof (induction m)
  case Nil
  then show ?case by simp
next
  case (Cons p m)
  obtain a b where p: "p = (a, b)" by (cases p)
  have none: "map_of m k = None" if "k < a"
    using Cons.prems that by (auto simp: p btree_wf_Cons map_of_eq_None_iff)
  show ?case
  proof (cases k a rule: linorder_cases)
    case less
    then show ?thesis using none by (auto simp: p fun_eq_iff)
  next
    case equal
    then show ?thesis by (auto simp: p fun_eq_iff)
  next
    case greater
    then show ?thesis using Cons by (auto simp: p btree_wf_Cons fun_eq_iff)
  qed
qed

lemma length_btree_upsert:
  assumes "btree_wf m"
  shows "length (btree_upsert k f d m) =
    (if k \<in> fst ` set m then length m else Suc (length m))"
proof -
  have len: "length m' = card (fst ` set m')" if "btree_wf m'" for m' :: "('a \<times> 'b) list"
    using distinct_card [OF btree_wf_distinct [OF that]] by simp
  show ?thesis
    using assms by (simp add: len btree_wf_upsert card_insert_if)
qed

lemma btree_wf_map_eqI:
  assumes "btree_wf m" and "btree_wf m'" and "map_of m = map_of m'"
  shows "m = m'"
proof -
  have d: "distinct (keys m)" "distinct (keys m')"
    using assms by (auto intro: btree_wf_distinct)
  have s: "sorted (keys m)" "sorted (keys m')"
    using assms(1,2) by (simp_all add: btree_wf_def strict_sorted_iff)
  have "set m = set m'"
    using d assms(3) map_of_inject_set by blast
  then have "keys m = keys m'"
    using d s by (metis list.set_map sorted_distinct_set_unique)
  moreover have "snd (m ! i) = snd (m' ! i)" if "i < length m" for i
  proof -
    from that \<open>keys m = keys m'\<close> have i': "i < length m'" and k: "fst (m ! i) = fst (m' ! i)"
      by (metis length_map, metis length_map nth_map)
    from that d(1) have "map_of m (fst (m ! i)) = Some (snd (m ! i))"
      by (simp add: map_of_is_SomeI)
    moreover from i' d(2) have "map_of m' (fst (m' ! i)) = Some (snd (m' ! i))"
      by (simp add: map_of_is_SomeI)
    ultimately show ?thesis using k assms(3) by simp
  qed
  ultimately show ?thesis
    by (metis length_map nth_equalityI nth_map prod_eq_iff)
qed

section \<open>Folding a step that may panic\<close>

fun fold_opt :: "('a \<Rightarrow> 's \<Rightarrow> 's option) \<Rightarrow> 'a list \<Rightarrow> 's \<Rightarrow> 's option" where
  "fold_opt f [] s = Some s"
| "fold_opt f (x # xs) s = (case f x s of None \<Rightarrow> None | Some s' \<Rightarrow> fold_opt f xs s')"

lemma fold_opt_append:
  "fold_opt f (xs @ ys) s = (case fold_opt f xs s of None \<Rightarrow> None | Some s' \<Rightarrow> fold_opt f ys s')"
  by (induction xs arbitrary: s) (auto split: option.splits)

lemma fold_opt_Some: "fold_opt (\<lambda>x s. Some (f x s)) xs s = Some (fold f xs s)"
  by (induction xs arbitrary: s) auto

lemma fold_opt_invariant:
  assumes "\<And>x s. x \<in> set xs \<Longrightarrow> P s \<Longrightarrow> \<exists>s'. f x s = Some s' \<and> P s'" and "P s"
  shows "\<exists>s'. fold_opt f xs s = Some s' \<and> P s'"
  using assms
proof (induction xs arbitrary: s)
  case Nil
  then show ?case by simp
next
  case (Cons x xs)
  from Cons.prems obtain s' where s': "f x s = Some s'" "P s'" by (meson list.set_intros(1))
  have "\<exists>s''. fold_opt f xs s' = Some s'' \<and> P s''"
    by (rule Cons.IH [OF _ s'(2)]) (simp add: Cons.prems(1))
  with s'(1) show ?case by simp
qed

end
