(* ===== verification/Bytes.thy ===== *)
theory Bytes
  imports Prelude "HOL-Library.Sublist"
begin

text \<open>
  Byte strings: the fixed-width big- and little-endian encodings of the standard library,
  UTF-8 validity (\<open>std::str::from_utf8\<close>), and the interface of a stream of
  self-delimiting records as the locale \<open>frame_codec\<close>, whose client lemma says what a reader
  finds in any prefix of a written stream.
\<close>

section \<open>Fixed-width integers\<close>

fun to_le :: "nat \<Rightarrow> nat \<Rightarrow> u8 list" where
  "to_le 0 n = []"
| "to_le (Suc k) n = of_nat (n mod 256) # to_le k (n div 256)"

fun from_le :: "u8 list \<Rightarrow> nat" where
  "from_le [] = 0"
| "from_le (b # bs) = unat b + 256 * from_le bs"

definition to_be :: "nat \<Rightarrow> nat \<Rightarrow> u8 list" where
  "to_be k n = rev (to_le k n)"

definition from_be :: "u8 list \<Rightarrow> nat" where
  "from_be bs = from_le (rev bs)"

lemma length_to_le [simp, codec_simps]: "length (to_le k n) = k"
  by (induction k arbitrary: n) auto

lemma length_to_be [simp, codec_simps]: "length (to_be k n) = k"
  by (simp add: to_be_def)

lemma from_le_to_le: "from_le (to_le k n) = n mod 256 ^ k"
proof (induction k arbitrary: n)
  case (Suc k)
  have "unat (of_nat (n mod 256) :: u8) = n mod 256" by (simp add: unat_of_nat take_bit_eq_mod)
  then show ?case using Suc [of "n div 256"] by (simp add: mod_mult2_eq)
qed simp

lemma from_be_to_be: "from_be (to_be k n) = n mod 256 ^ k"
  by (simp add: from_be_def to_be_def from_le_to_le)

lemma from_le_bound: "from_le bs < 256 ^ length bs"
proof (induction bs)
  case (Cons b bs)
  have "unat b < 256" using unsigned_less [of b] by simp
  then show ?case using Cons by simp
qed simp

text \<open>\<open>to_be_bytes\<close>, \<open>to_le_bytes\<close> and their inverses at the widths in use.\<close>

lemma word_bytes [simp]:
  "of_nat (from_be (to_be 8 (unat (a :: u64)))) = a"
  "of_nat (from_be (to_be 4 (unat (b :: u32)))) = b"
  "of_nat (from_be (to_be 2 (unat (c :: u16)))) = c"
  "of_nat (from_le (to_le 8 (unat a))) = a"
  "of_nat (from_le (to_le 4 (unat b))) = b"
  "of_nat (from_le (to_le 2 (unat c))) = c"
proof -
  have "unat a < 18446744073709551616" "unat b < 4294967296" "unat c < 65536"
    using unsigned_less [of a] unsigned_less [of b] unsigned_less [of c] by simp_all
  then show "of_nat (from_be (to_be 8 (unat a))) = a" "of_nat (from_be (to_be 4 (unat b))) = b" "of_nat (from_be (to_be 2 (unat c))) = c"
    "of_nat (from_le (to_le 8 (unat a))) = a" "of_nat (from_le (to_le 4 (unat b))) = b" "of_nat (from_le (to_le 2 (unat c))) = c"
    by (simp_all add: from_be_to_be from_le_to_le)
qed

lemma nat_bytes [simp]:
  "n < 2 ^ 32 \<Longrightarrow> from_be (to_be 4 n) = n"
  "n < 2 ^ 16 \<Longrightarrow> from_be (to_be 2 n) = n"
  "n < 2 ^ 32 \<Longrightarrow> from_le (to_le 4 n) = n"
  by (simp_all add: from_be_to_be from_le_to_le)

lemma sint_word_of_int_i64: "is_i64 x \<Longrightarrow> sint (word_of_int x :: u64) = x"
  by (simp add: is_i64_def sint_sbintrunc' signed_take_bit_int_eq_self)

section \<open>UTF-8\<close>

definition cont_byte :: "u8 \<Rightarrow> bool" where
  "cont_byte b \<longleftrightarrow> 128 \<le> b \<and> b \<le> 191"

text \<open>The well-formed sequences: shortest form, no surrogates, at most U+10FFFF.\<close>

fun utf8_valid :: "u8 list \<Rightarrow> bool" where
  "utf8_valid [] = True"
| "utf8_valid (a # bs) =
     (if a < 128 then utf8_valid bs
      else case bs of
             [] \<Rightarrow> False
           | b # bs2 \<Rightarrow>
               if 194 \<le> a \<and> a \<le> 223 then cont_byte b \<and> utf8_valid bs2
               else case bs2 of
                      [] \<Rightarrow> False
                    | c # bs3 \<Rightarrow>
                        if 224 \<le> a \<and> a \<le> 239 then
                          cont_byte b \<and> cont_byte c \<and> (a = 224 \<longrightarrow> 160 \<le> b) \<and> (a = 237 \<longrightarrow> b \<le> 159) \<and> utf8_valid bs3
                        else case bs3 of
                               [] \<Rightarrow> False
                             | d # bs4 \<Rightarrow>
                                 240 \<le> a \<and> a \<le> 244 \<and> cont_byte b \<and> cont_byte c \<and> cont_byte d \<and>
                                 (a = 240 \<longrightarrow> 144 \<le> b) \<and> (a = 244 \<longrightarrow> b \<le> 143) \<and> utf8_valid bs4)"

lemma utf8_ascii: "\<forall>b \<in> set bs. b < 128 \<Longrightarrow> utf8_valid bs"
  by (induction bs) auto

definition str_bytes :: "string \<Rightarrow> u8 list" where
  "str_bytes s = map (\<lambda>c. of_nat (of_char c)) s"

definition bytes_str :: "u8 list \<Rightarrow> string" where
  "bytes_str bs = map (\<lambda>b. char_of (unat b)) bs"

lemma length_str_bytes [simp]: "length (str_bytes s) = length s"
  by (simp add: str_bytes_def)

lemma bytes_str_bytes [simp]: "bytes_str (str_bytes s) = s"
proof -
  have "char_of (unat (of_nat (of_char c) :: u8)) = c" for c
  proof -
    have "(of_char c :: nat) < 256" by simp
    then have "unat (of_nat (of_char c) :: u8) = (of_char c :: nat)" by (simp add: unat_of_nat take_bit_nat_eq_self)
    then show ?thesis by simp
  qed
  then show ?thesis by (induction s) (simp_all add: bytes_str_def str_bytes_def)
qed

section \<open>Streams of self-delimiting records\<close>

lemma concat_take_mono: "j \<le> k \<Longrightarrow> length (concat (map f (take j rs))) \<le> length (concat (map f (take k rs)))"
proof -
  assume "j \<le> k"
  then have "take k rs = take j rs @ take (k - j) (drop j rs)" by (metis le_add_diff_inverse take_add)
  then show ?thesis by simp
qed

text \<open>
  A writer appends encoded records; a reader decodes one record after the other, with a state
  of its own (an offset), until the input ends or an error stops it. The decoder undoes
  the encoder in front of anything, and takes every proper prefix of a record, also the
  empty one, for the end of the stream.
\<close>

locale frame_codec =
  fixes enc :: "'r \<Rightarrow> u8 list"
    and dec :: "'s \<Rightarrow> u8 list \<Rightarrow> 'e + ('r \<times> 's \<times> u8 list) option"
    and reads :: "'s \<Rightarrow> u8 list \<Rightarrow> 'e + 'r list"
    and ok :: "'r \<Rightarrow> bool"
  assumes dec_enc: "ok r \<Longrightarrow> \<exists>s'. dec s (enc r @ rest) = Inr (Some (r, s', rest))"
    and dec_torn: "ok r \<Longrightarrow> enc r = p @ q \<Longrightarrow> q \<noteq> [] \<Longrightarrow> dec s p = Inr None"
    and dec_nil: "dec s [] = Inr None"
    and reads_unfold: "reads s bs =
      (case dec s bs of Inl e \<Rightarrow> Inl e | Inr None \<Rightarrow> Inr [] | Inr (Some (r, s', rest)) \<Rightarrow> map_sum id ((#) r) (reads s' rest))"
begin

definition torn :: "u8 list \<Rightarrow> bool" where
  "torn t \<longleftrightarrow> t = [] \<or> (\<exists>r q. ok r \<and> enc r = t @ q \<and> q \<noteq> [])"

lemma reads_stream:
  assumes "\<forall>r \<in> set rs. ok r" and "torn t"
  shows "reads s (concat (map enc rs) @ t) = Inr rs"
  using assms
proof (induction rs arbitrary: s)
  case Nil
  then have "dec s t = Inr None" using dec_torn dec_nil by (auto simp: torn_def)
  then show ?case by (simp add: reads_unfold [of s t])
next
  case (Cons r rs)
  obtain s' where "dec s (enc r @ concat (map enc rs) @ t) = Inr (Some (r, s', concat (map enc rs) @ t))"
    using dec_enc [of r s "concat (map enc rs) @ t"] Cons.prems(1) by auto
  then show ?case using Cons.IH [of s'] Cons.prems by (simp add: reads_unfold [of s "enc r @ concat (map enc rs) @ t"])
qed

text \<open>Whatever prefix of a stream is left, the reader finds the records that are complete in it,
  without an error.\<close>

lemma reads_prefix:
  assumes "\<forall>r \<in> set rs. ok r" and "prefix bs (concat (map enc rs))"
  shows "\<exists>k t. k \<le> length rs \<and> bs = concat (map enc (take k rs)) @ t \<and> reads s bs = Inr (take k rs) \<and>
    (k < length rs \<longrightarrow> (\<exists>q. enc (rs ! k) = t @ q \<and> q \<noteq> [])) \<and> (k = length rs \<longrightarrow> t = [])"
  using assms
proof (induction rs arbitrary: bs s)
  case Nil
  then show ?case by (simp add: reads_unfold [of s "[]"] dec_nil)
next
  case (Cons r rs)
  show ?case
  proof (cases "length bs < length (enc r)")
    case True
    with Cons.prems(2) have "prefix bs (enc r)" using prefix_length_prefix [of bs "enc r @ concat (map enc rs)" "enc r"] by simp
    then obtain q where q: "enc r = bs @ q" by (auto elim: prefixE)
    with True have "q \<noteq> []" by auto
    with q have "dec s bs = Inr None" using dec_torn [of r bs q s] Cons.prems(1) by simp
    with q \<open>q \<noteq> []\<close> show ?thesis by (intro exI [of _ 0] exI [of _ bs]) (simp add: reads_unfold [of s bs])
  next
    case False
    with Cons.prems(2) have "prefix (enc r) bs" using prefix_length_prefix [of "enc r" "enc r @ concat (map enc rs)" bs] by simp
    then obtain cs where cs: "bs = enc r @ cs" by (auto elim: prefixE)
    with Cons.prems(2) have "prefix cs (concat (map enc rs))" by simp
    obtain s' where dec: "dec s bs = Inr (Some (r, s', cs))" using dec_enc [of r s cs] Cons.prems(1) cs by auto
    obtain k t where k: "k \<le> length rs" "cs = concat (map enc (take k rs)) @ t" "reads s' cs = Inr (take k rs)"
        "k < length rs \<longrightarrow> (\<exists>q. enc (rs ! k) = t @ q \<and> q \<noteq> [])" "k = length rs \<longrightarrow> t = []"
      using Cons.IH [of cs s'] Cons.prems(1) \<open>prefix cs _\<close> by auto
    then have "reads s bs = Inr (take (Suc k) (r # rs))" using dec by (simp add: reads_unfold [of s bs])
    with k cs show ?thesis by (intro exI [of _ "Suc k"] exI [of _ t]) simp
  qed
qed

end

end
