(* ===== verification/WalRing.thy ===== *)
theory WalRing
  imports Bytes
begin

text \<open>
  The in-memory log buffers (\<open>crates/beava-runtime-core/src/wal_buffer.rs\<close>), the sequence
  number watermarks (\<open>wal_lsn.rs\<close>) and the writer thread's loop (\<open>wal_writer.rs\<close>), as a
  state machine of two threads. The apply thread appends records to the active buffer; the
  writer thread seals, writes and frees buffers. An \<open>action\<close> is what one thread does between
  two points where the other can run, and \<open>exec\<close> its effect, \<open>None\<close> where it is not
  enabled. The writer sleeps, seals the active buffer when its timer fires, and drains the queue
  until it finds it empty; a write can fail after some bytes, a sync can fail. A buffer's bytes up
  to its position are the list \<open>buf_data\<close>; sequence numbers count bytes and do not reach 2^64. The compaction of
  the log behind a snapshot is not an action here: \<open>WalFile\<close> has it.

  The lemmas show that the log is what was acknowledged, in order, and that the synced
  watermark is right, on every run in which no write fails and the writer seals the active buffer only
  while it is active and no append is under way. Three runs show that none of these conditions can be
  dropped, and the code enforces none.
\<close>

section \<open>Buffers\<close>

datatype buf_state = BUF_STATE_ACTIVE | BUF_STATE_SEALED | BUF_STATE_FLUSHING | BUF_STATE_FREE

record WalBuffer =
  buf_data :: "u8 list"
  buf_capacity :: nat
  lsn_lo :: nat
  lsn_hi :: nat
  buf_state :: buf_state

definition buffer_new :: "nat \<Rightarrow> WalBuffer" where
  "buffer_new capacity = \<lparr>buf_data = [], buf_capacity = capacity, lsn_lo = 0, lsn_hi = 0, buf_state = BUF_STATE_FREE\<rparr>"

definition activate :: "nat \<Rightarrow> WalBuffer \<Rightarrow> WalBuffer" where
  "activate lsn b = b\<lparr>buf_data := [], lsn_lo := lsn, lsn_hi := 0, buf_state := BUF_STATE_ACTIVE\<rparr>"

definition try_append :: "u8 list \<Rightarrow> WalBuffer \<Rightarrow> WalBuffer option" where
  "try_append data b =
     (if length (buf_data b) + length data > buf_capacity b then None else Some (b\<lparr>buf_data := buf_data b @ data\<rparr>))"

definition seal :: "nat \<Rightarrow> WalBuffer \<Rightarrow> WalBuffer" where
  "seal lsn b = b\<lparr>lsn_hi := lsn, buf_state := BUF_STATE_SEALED\<rparr>"

definition mark_flushing :: "WalBuffer \<Rightarrow> WalBuffer" where
  "mark_flushing b = b\<lparr>buf_state := BUF_STATE_FLUSHING\<rparr>"

definition mark_free :: "WalBuffer \<Rightarrow> WalBuffer" where
  "mark_free b = b\<lparr>buf_data := [], buf_state := BUF_STATE_FREE\<rparr>"

section \<open>Watermarks\<close>

record WalLsn =
  committed :: nat
  written :: nat
  synced :: nat

definition lsn_new_at :: "nat \<Rightarrow> WalLsn" where
  "lsn_new_at lsn = \<lparr>committed = lsn, written = lsn, synced = lsn\<rparr>"

definition lsn_record :: "nat \<Rightarrow> WalLsn \<Rightarrow> WalLsn" where
  "lsn_record n l = l\<lparr>committed := committed l + n\<rparr>"

definition mark_committed_at_least :: "nat \<Rightarrow> WalLsn \<Rightarrow> WalLsn" where
  "mark_committed_at_least lsn l = l\<lparr>committed := max (committed l) lsn\<rparr>"

definition mark_written :: "nat \<Rightarrow> WalLsn \<Rightarrow> WalLsn" where
  "mark_written lsn l = (if written l < lsn then l\<lparr>written := lsn\<rparr> else l)"

definition mark_synced :: "nat \<Rightarrow> WalLsn \<Rightarrow> WalLsn" where
  "mark_synced lsn l = (if synced l < lsn then l\<lparr>synced := lsn\<rparr> else l)"

section \<open>The ring\<close>

record WalBufferRing =
  ring_buffers :: "WalBuffer list"
  active_idx :: nat
  sealed_queue :: "nat list"
  ring_lsn :: WalLsn

text \<open>The assertion of \<open>WalBufferRing::new\<close> is a panic.\<close>

definition ring_new :: "nat \<Rightarrow> nat \<Rightarrow> WalLsn \<Rightarrow> WalBufferRing option" where
  "ring_new buf_count buf_bytes l =
     (if buf_count < 2 then None
      else Some \<lparr>ring_buffers = (replicate buf_count (buffer_new buf_bytes))[0 := activate (committed l) (buffer_new buf_bytes)],
                 active_idx = 0, sealed_queue = [], ring_lsn = l\<rparr>)"

abbreviation buf :: "WalBufferRing \<Rightarrow> nat \<Rightarrow> WalBuffer" where
  "buf r i \<equiv> ring_buffers r ! i"

definition set_buf :: "nat \<Rightarrow> (WalBuffer \<Rightarrow> WalBuffer) \<Rightarrow> WalBufferRing \<Rightarrow> WalBufferRing" where
  "set_buf i f r = r\<lparr>ring_buffers := (ring_buffers r)[i := f (buf r i)]\<rparr>"

definition find_free_buffer :: "WalBufferRing \<Rightarrow> nat option" where
  "find_free_buffer r = position (\<lambda>b. buf_state b = BUF_STATE_FREE) (ring_buffers r)"

text \<open>Seal a buffer with the committed watermark and put it into the queue.\<close>

definition seal_enqueue :: "nat \<Rightarrow> WalBufferRing \<Rightarrow> WalBufferRing" where
  "seal_enqueue i r = (set_buf i (seal (committed (ring_lsn r))) r)\<lparr>sealed_queue := sealed_queue r @ [i]\<rparr>"

definition activate_buffer :: "nat \<Rightarrow> nat \<Rightarrow> WalBufferRing \<Rightarrow> WalBufferRing" where
  "activate_buffer i lsn r = (set_buf i (activate lsn) r)\<lparr>active_idx := i\<rparr>"

definition seal_active :: "WalBufferRing \<Rightarrow> WalBufferRing" where
  "seal_active r =
     (let idx = active_idx r in
      if buf_data (buf r idx) = [] then r
      else case find_free_buffer r of
             Some new_idx \<Rightarrow> activate_buffer new_idx (committed (ring_lsn r)) (seal_enqueue idx r)
           | None \<Rightarrow> seal_enqueue idx r)"

definition pop_sealed :: "WalBufferRing \<Rightarrow> (nat \<times> WalBufferRing) option" where
  "pop_sealed r =
     (case sealed_queue r of [] \<Rightarrow> None | i # q \<Rightarrow> Some (i, (set_buf i mark_flushing r)\<lparr>sealed_queue := q\<rparr>))"

definition return_to_free :: "nat \<Rightarrow> WalBufferRing \<Rightarrow> WalBufferRing" where
  "return_to_free i r = set_buf i mark_free r"

section \<open>Two threads\<close>

text \<open>Where the apply thread is in \<open>append\<close>: at the top of its loop, behind the check of
  the buffer's state, or waiting for a free buffer with the sequence number it will open.\<close>

datatype apply_pc = PIdle | PLoop "u8 list" | PChecked nat "u8 list" | PWait nat "u8 list"

text \<open>Where the writer thread is in \<open>run_writer_loop\<close>: asleep until its next tick, in \<open>flush_sealed_buffers\<close> about to
  take a buffer, or there with a buffer still to be written or to be freed.\<close>

datatype writer_pc = WSleep | WDrain | WPopped nat | WWritten nat

text \<open>The state of both threads, the log file, and the acknowledged records with their
  sequence numbers. The records in the file and in each buffer are ghost state, read by no
  action.\<close>

record wal_sys =
  sys_ring :: WalBufferRing
  sys_apply :: apply_pc
  sys_writer :: writer_pc
  sys_file :: "u8 list"
  sys_acked :: "(nat \<times> u8 list) list"
  ghost_file :: "(nat \<times> u8 list) list"
  ghost_buf :: "nat \<Rightarrow> (nat \<times> u8 list) list"

datatype action =
    AStart "u8 list"
  | ARaise nat
  | ACheck
  | ACopy
  | AFree
  | WTick
  | WPop
  | WWrite
  | WWriteFail nat
  | WSyncFail
  | WFree

fun exec :: "action \<Rightarrow> wal_sys \<Rightarrow> wal_sys option" where
  "exec (AStart data) s = (if sys_apply s = PIdle then Some (s\<lparr>sys_apply := PLoop data\<rparr>) else None)"
| "exec (ARaise lsn) s =
     (if sys_apply s = PIdle
      then Some (s\<lparr>sys_ring := (sys_ring s)\<lparr>ring_lsn := mark_committed_at_least lsn (ring_lsn (sys_ring s))\<rparr>\<rparr>) else None)"
| "exec ACheck s =
     (let r = sys_ring s in
      case sys_apply s of
        PLoop data \<Rightarrow>
          Some (s\<lparr>sys_apply := (if buf_state (buf r (active_idx r)) \<noteq> BUF_STATE_ACTIVE then PWait (committed (ring_lsn r)) data
                               else PChecked (active_idx r) data)\<rparr>)
      | _ \<Rightarrow> None)"
| "exec ACopy s =
     (let r = sys_ring s in
      case sys_apply s of
        PChecked idx data \<Rightarrow>
          (case try_append data (buf r idx) of
             Some b \<Rightarrow>
               (let l = lsn_record (length data) (ring_lsn r); ack = (committed l, data) in
                Some (s\<lparr>sys_ring := (set_buf idx (\<lambda>_. b) r)\<lparr>ring_lsn := l\<rparr>, sys_apply := PIdle,
                       sys_acked := sys_acked s @ [ack], ghost_buf := (ghost_buf s)(idx := ghost_buf s idx @ [ack])\<rparr>))
           | None \<Rightarrow> Some (s\<lparr>sys_ring := seal_enqueue idx r, sys_apply := PWait (committed (ring_lsn r)) data\<rparr>))
      | _ \<Rightarrow> None)"
| "exec AFree s =
     (case (sys_apply s, find_free_buffer (sys_ring s)) of
        (PWait lsn data, Some i) \<Rightarrow>
          Some (s\<lparr>sys_ring := activate_buffer i lsn (sys_ring s), sys_apply := PLoop data, ghost_buf := (ghost_buf s)(i := [])\<rparr>)
      | _ \<Rightarrow> None)"
| "exec WTick s =
     (if sys_writer s = WSleep
      then Some (s\<lparr>sys_ring := seal_active (sys_ring s), sys_writer := WDrain,
                   ghost_buf := (case (buf_data (buf (sys_ring s) (active_idx (sys_ring s))) = [], find_free_buffer (sys_ring s)) of
                                   (False, Some i) \<Rightarrow> (ghost_buf s)(i := []) | _ \<Rightarrow> ghost_buf s)\<rparr>)
      else None)"
| "exec WPop s =
     (case sys_writer s of
        WDrain \<Rightarrow>
          (case pop_sealed (sys_ring s) of
             Some (i, r) \<Rightarrow> Some (s\<lparr>sys_ring := r, sys_writer := WPopped i\<rparr>)
           | None \<Rightarrow> Some (s\<lparr>sys_writer := WSleep\<rparr>))
      | _ \<Rightarrow> None)"
| "exec WWrite s =
     (let r = sys_ring s in
      case sys_writer s of
        WPopped i \<Rightarrow>
          (if buf_data (buf r i) = [] then Some (s\<lparr>sys_writer := WWritten i\<rparr>)
           else Some (s\<lparr>sys_file := sys_file s @ buf_data (buf r i), ghost_file := ghost_file s @ ghost_buf s i,
                        sys_ring := r\<lparr>ring_lsn := mark_synced (lsn_hi (buf r i)) (mark_written (lsn_hi (buf r i)) (ring_lsn r))\<rparr>,
                        sys_writer := WWritten i\<rparr>))
      | _ \<Rightarrow> None)"
| "exec (WWriteFail k) s =
     (case sys_writer s of
        WPopped i \<Rightarrow>
          (let bytes = buf_data (buf (sys_ring s) i) in
           if k < length bytes then Some (s\<lparr>sys_file := sys_file s @ take k bytes, sys_writer := WWritten i\<rparr>) else None)
      | _ \<Rightarrow> None)"
| "exec WSyncFail s =
     (let r = sys_ring s in
      case sys_writer s of
        WPopped i \<Rightarrow>
          (if buf_data (buf r i) = [] then None
           else Some (s\<lparr>sys_file := sys_file s @ buf_data (buf r i), ghost_file := ghost_file s @ ghost_buf s i,
                        sys_ring := r\<lparr>ring_lsn := mark_written (lsn_hi (buf r i)) (ring_lsn r)\<rparr>, sys_writer := WWritten i\<rparr>))
      | _ \<Rightarrow> None)"
| "exec WFree s =
     (case sys_writer s of
        WWritten i \<Rightarrow> Some (s\<lparr>sys_ring := return_to_free i (sys_ring s), sys_writer := WDrain\<rparr>)
      | _ \<Rightarrow> None)"

fun run :: "action list \<Rightarrow> wal_sys \<Rightarrow> wal_sys option" where
  "run [] s = Some s"
| "run (a # as) s = (case exec a s of None \<Rightarrow> None | Some s' \<Rightarrow> run as s')"

definition sys_init :: "WalBufferRing \<Rightarrow> wal_sys" where
  "sys_init r = \<lparr>sys_ring = r, sys_apply = PIdle, sys_writer = WSleep, sys_file = [], sys_acked = [], ghost_file = [], ghost_buf = (\<lambda>_. [])\<rparr>"

text \<open>The reachable states of a scheduler.\<close>

inductive reachable :: "(action \<Rightarrow> wal_sys \<Rightarrow> bool) \<Rightarrow> wal_sys \<Rightarrow> wal_sys \<Rightarrow> bool" for allowed s0 where
  start: "reachable allowed s0 s0"
| step: "reachable allowed s0 s \<Longrightarrow> allowed a s \<Longrightarrow> exec a s = Some s' \<Longrightarrow> reachable allowed s0 s'"

text \<open>The scheduling discipline: records are not empty, no write fails, and the writer seals only an active buffer
  and only while no append is between its check and its copy.\<close>

definition disciplined :: "action \<Rightarrow> wal_sys \<Rightarrow> bool" where
  "disciplined a s =
     (case a of
        AStart data \<Rightarrow> data \<noteq> []
      | WTick \<Rightarrow> buf_state (buf (sys_ring s) (active_idx (sys_ring s))) = BUF_STATE_ACTIVE \<and>
          (case sys_apply s of PChecked _ _ \<Rightarrow> False | _ \<Rightarrow> True)
      | WWriteFail _ \<Rightarrow> False
      | _ \<Rightarrow> True)"

section \<open>Three schedules that lose the order or a record\<close>

definition small_ring :: WalBufferRing where
  "small_ring = \<lparr>ring_buffers = [activate 0 (buffer_new 1), buffer_new 1], active_idx = 0, sealed_queue = [], ring_lsn = lsn_new_at 0\<rparr>"

lemma small_ring_new: "ring_new 2 1 (lsn_new_at 0) = Some small_ring"
  by code_simp

definition append_now :: "u8 list \<Rightarrow> action list" where
  "append_now data = [AStart data, ACheck, ACopy]"

definition race :: "action list" where
  "race = append_now [1] @ [AStart [2], ACheck, WTick, WPop, WWrite, ACopy, WFree]"

definition reseal :: "action list" where
  "reseal = append_now [1] @ append_now [2] @ [AFree, ACheck, ACopy] @ append_now [3] @ [WTick, WPop, WWrite, WFree, AFree, ACheck, ACopy] @
     append_now [4] @ [WPop, WWrite, WFree, AFree, ACheck, ACopy, WPop, WWrite, WFree]"

definition lost_write :: "action list" where
  "lost_write = append_now [1] @ [WTick, WPop, WWriteFail 0, WFree, WPop] @ append_now [2] @ [WTick, WPop, WWrite, WFree]"

section \<open>The invariant of disciplined schedules\<close>

definition live :: "WalBufferRing \<Rightarrow> nat list" where
  "live r = (if buf_state (buf r (active_idx r)) = BUF_STATE_ACTIVE then [active_idx r] else [])"

definition popped :: "wal_sys \<Rightarrow> nat list" where
  "popped s = (case sys_writer s of WPopped i \<Rightarrow> [i] | _ \<Rightarrow> [])"

definition flushed :: "wal_sys \<Rightarrow> nat list" where
  "flushed s = (case sys_writer s of WWritten i \<Rightarrow> [i] | _ \<Rightarrow> [])"

text \<open>The buffers whose contents are still to be written, in the order of the log.\<close>

definition pending :: "wal_sys \<Rightarrow> nat list" where
  "pending s = popped s @ sealed_queue (sys_ring s) @ live (sys_ring s)"

definition ctl_inv :: "wal_sys \<Rightarrow> bool" where
  "ctl_inv s \<longleftrightarrow>
     (let r = sys_ring s; n = length (ring_buffers r) in
      active_idx r < n \<and> distinct (flushed s @ pending s) \<and> set (flushed s @ pending s) \<subseteq> {..<n} \<and>
      (\<forall>i \<in> set (sealed_queue r). buf_state (buf r i) = BUF_STATE_SEALED) \<and>
      (\<forall>i \<in> set (flushed s @ popped s). buf_state (buf r i) = BUF_STATE_FLUSHING) \<and>
      (\<forall>i < n. buf_state (buf r i) = BUF_STATE_ACTIVE \<longrightarrow> i = active_idx r))"

definition pc_inv :: "wal_sys \<Rightarrow> bool" where
  "pc_inv s \<longleftrightarrow>
     (case sys_apply s of
        PIdle \<Rightarrow> True
      | PLoop data \<Rightarrow> data \<noteq> []
      | PChecked idx data \<Rightarrow> data \<noteq> [] \<and> live (sys_ring s) = [idx]
      | PWait lsn data \<Rightarrow> data \<noteq> [] \<and> live (sys_ring s) = [])"

definition data_inv :: "wal_sys \<Rightarrow> bool" where
  "data_inv s \<longleftrightarrow>
     sys_acked s = ghost_file s @ concat (map (ghost_buf s) (pending s)) \<and>
     sys_file s = concat (map snd (ghost_file s)) \<and>
     (\<forall>i \<in> set (pending s). buf_data (buf (sys_ring s) i) = concat (map snd (ghost_buf s i))) \<and>
     (\<forall>e \<in> set (sys_acked s). snd e \<noteq> [])"

definition lsn_inv :: "wal_sys \<Rightarrow> bool" where
  "lsn_inv s \<longleftrightarrow>
     (let r = sys_ring s; c = committed (ring_lsn r) in
      synced (ring_lsn r) \<le> c \<and> sorted_wrt (<) (map fst (sys_acked s)) \<and> (\<forall>e \<in> set (sys_acked s). fst e \<le> c) \<and>
      (\<forall>i \<in> set (pending s). lsn_hi (buf r i) \<le> c \<and> (\<forall>e \<in> set (ghost_buf s i). synced (ring_lsn r) < fst e)) \<and>
      sorted_wrt (\<lambda>i j. \<forall>e \<in> set (ghost_buf s j). lsn_hi (buf r i) < fst e) (pending s))"

definition wal_inv :: "wal_sys \<Rightarrow> bool" where
  "wal_inv s \<longleftrightarrow> ctl_inv s \<and> pc_inv s \<and> data_inv s \<and> lsn_inv s"

lemma set_buf_simps [simp]:
  "length (ring_buffers (set_buf i f r)) = length (ring_buffers r)"
  "active_idx (set_buf i f r) = active_idx r"
  "sealed_queue (set_buf i f r) = sealed_queue r"
  "ring_lsn (set_buf i f r) = ring_lsn r"
  "i < length (ring_buffers r) \<Longrightarrow> buf (set_buf i f r) j = (if j = i then f (buf r i) else buf r j)"
  by (auto simp: set_buf_def)

lemma find_free_SomeD:
  assumes "find_free_buffer r = Some i"
  shows "i < length (ring_buffers r)" "buf_state (buf r i) = BUF_STATE_FREE"
  using assms position_SomeD unfolding find_free_buffer_def by blast+

lemma ctl_invD:
  assumes "ctl_inv s"
  shows "active_idx (sys_ring s) < length (ring_buffers (sys_ring s))"
    and "distinct (flushed s @ pending s)"
    and "i \<in> set (flushed s @ pending s) \<Longrightarrow> i < length (ring_buffers (sys_ring s))"
    and "i \<in> set (sealed_queue (sys_ring s)) \<Longrightarrow> buf_state (buf (sys_ring s) i) = BUF_STATE_SEALED"
    and "i \<in> set (flushed s @ popped s) \<Longrightarrow> buf_state (buf (sys_ring s) i) = BUF_STATE_FLUSHING"
    and "i < length (ring_buffers (sys_ring s)) \<Longrightarrow> buf_state (buf (sys_ring s) i) = BUF_STATE_ACTIVE \<Longrightarrow> i = active_idx (sys_ring s)"
  using assms unfolding ctl_inv_def Let_def by auto

lemma ctl_inv_free: "ctl_inv s \<Longrightarrow> buf_state (buf (sys_ring s) i) = BUF_STATE_FREE \<Longrightarrow> i \<notin> set (flushed s @ pending s)"
  using ctl_invD(4,5) [of s i] unfolding pending_def live_def by (auto split: if_splits)

lemma frame_pc [simp]:
  "pending (s\<lparr>sys_apply := p\<rparr>) = pending s" "flushed (s\<lparr>sys_apply := p\<rparr>) = flushed s" "popped (s\<lparr>sys_apply := p\<rparr>) = popped s"
  "ctl_inv (s\<lparr>sys_apply := p\<rparr>) = ctl_inv s" "data_inv (s\<lparr>sys_apply := p\<rparr>) = data_inv s" "lsn_inv (s\<lparr>sys_apply := p\<rparr>) = lsn_inv s"
  by (simp_all add: pending_def flushed_def popped_def ctl_inv_def data_inv_def lsn_inv_def)

lemma live_lsn [simp]: "live (r\<lparr>ring_lsn := l\<rparr>) = live r" "live (r\<lparr>sealed_queue := q\<rparr>) = live r"
  by (simp_all add: live_def)

text \<open>Actions that change the control point or the committed watermark only.\<close>

lemma inv_start: "wal_inv s \<Longrightarrow> data \<noteq> [] \<Longrightarrow> exec (AStart data) s = Some s' \<Longrightarrow> wal_inv s'"
  by (auto simp: wal_inv_def pc_inv_def split: if_splits)

lemma inv_check: "wal_inv s \<Longrightarrow> exec ACheck s = Some s' \<Longrightarrow> wal_inv s'"
  by (auto simp: wal_inv_def pc_inv_def live_def Let_def split: if_splits apply_pc.splits)

lemma inv_raise:
  assumes "wal_inv s" and "exec (ARaise l) s = Some s'"
  shows "wal_inv s'"
proof -
  let ?l = "mark_committed_at_least l (ring_lsn (sys_ring s))"
  have s': "s' = s\<lparr>sys_ring := (sys_ring s)\<lparr>ring_lsn := ?l\<rparr>\<rparr>" "sys_apply s = PIdle" using assms(2) by (auto split: if_splits)
  have same: "pending s' = pending s" "flushed s' = flushed s" "popped s' = popped s" by (simp_all add: s'(1) pending_def popped_def flushed_def)
  have "ctl_inv s'" "data_inv s'" "pc_inv s'" using assms(1) same unfolding wal_inv_def ctl_inv_def data_inv_def pc_inv_def Let_def by (simp_all add: s')
  moreover have "lsn_inv s'"
    using assms(1) unfolding wal_inv_def lsn_inv_def same Let_def by (auto simp: s'(1) mark_committed_at_least_def intro: order_trans)
  ultimately show ?thesis by (simp add: wal_inv_def)
qed

text \<open>A record is copied into the active buffer.\<close>

lemma inv_copied:
  assumes inv: "wal_inv s" and pc: "sys_apply s = PChecked idx data" and b: "try_append data (buf (sys_ring s) idx) = Some b"
    and s': "s' = s\<lparr>sys_ring := (set_buf idx (\<lambda>_. b) (sys_ring s))\<lparr>ring_lsn := lsn_record (length data) (ring_lsn (sys_ring s))\<rparr>, sys_apply := PIdle,
       sys_acked := sys_acked s @ [ack], ghost_buf := (ghost_buf s)(idx := ghost_buf s idx @ [ack])\<rparr>"
    and ack: "ack = (committed (ring_lsn (sys_ring s)) + length data, data)"
  shows "wal_inv s'"
proof -
  let ?r = "sys_ring s"
  from inv have I: "ctl_inv s" "pc_inv s" "data_inv s" "lsn_inv s" by (simp_all add: wal_inv_def)
  from I(2) pc have ne: "data \<noteq> []" and live: "live ?r = [idx]" by (simp_all add: pc_inv_def)
  then have act: "active_idx ?r = idx" "buf_state (buf ?r idx) = BUF_STATE_ACTIVE" by (auto simp: live_def split: if_splits)
  have n: "idx < length (ring_buffers ?r)" using ctl_invD(1) [OF I(1)] act(1) by simp
  have bb: "b = (buf ?r idx)\<lparr>buf_data := buf_data (buf ?r idx) @ data\<rparr>" using b by (auto simp: try_append_def split: if_splits)
  define ps where "ps = popped s @ sealed_queue ?r"
  have pend: "pending s = ps @ [idx]" by (simp add: pending_def live ps_def)
  have live': "live (sys_ring s') = [idx]" using n act by (simp add: s' live_def bb)
  have pend': "pending s' = ps @ [idx]" "flushed s' = flushed s" "popped s' = popped s"
    using live' by (simp_all add: pending_def ps_def) (simp_all add: s' popped_def flushed_def)
  have new: "idx \<notin> set ps" using ctl_invD(2) [OF I(1)] by (simp add: pend)
  have st: "buf_state (buf (sys_ring s') i) = buf_state (buf ?r i)" for i using n by (simp add: s' bb)
  have "ctl_inv s'"
    using I(1) unfolding ctl_inv_def Let_def pend' pend st by (simp add: s')
  moreover have "pc_inv s'" by (simp add: pc_inv_def s')
  moreover have "data_inv s'"
    using I(3) new n ne unfolding data_inv_def pend' pend by (auto simp: s' bb ack)
  moreover have "lsn_inv s'"
  proof -
    have hi: "lsn_hi (buf (sys_ring s') i) = lsn_hi (buf ?r i)" for i using n by (simp add: s' bb)
    show ?thesis
      using I(4) new ne unfolding lsn_inv_def Let_def pend' pend hi
      by (auto simp: s' ack lsn_record_def sorted_wrt_append intro: trans_le_add1 order.strict_trans1 elim!: sorted_wrt_mono_rel [rotated])
  qed
  ultimately show ?thesis by (simp add: wal_inv_def)
qed

text \<open>Sealing the active buffer moves it from the end of the pending list to the end of the queue.\<close>

lemma inv_sealed:
  assumes inv: "wal_inv s" and live: "live (sys_ring s) = [idx]"
    and s': "s' = s\<lparr>sys_ring := seal_enqueue idx (sys_ring s), sys_apply := p\<rparr>" and pc: "pc_inv s'"
  shows "wal_inv s'"
proof -
  let ?r = "sys_ring s" and ?c = "committed (ring_lsn (sys_ring s))"
  from inv have I: "ctl_inv s" "data_inv s" "lsn_inv s" by (simp_all add: wal_inv_def)
  from live have act: "active_idx ?r = idx" "buf_state (buf ?r idx) = BUF_STATE_ACTIVE" by (auto simp: live_def split: if_splits)
  have n: "idx < length (ring_buffers ?r)" using ctl_invD(1) [OF I(1)] act(1) by simp
  have r': "sys_ring s' = (set_buf idx (seal ?c) ?r)\<lparr>sealed_queue := sealed_queue ?r @ [idx]\<rparr>" by (simp add: s' seal_enqueue_def)
  have buf': "buf (sys_ring s') i = (if i = idx then (buf ?r idx)\<lparr>lsn_hi := ?c, buf_state := BUF_STATE_SEALED\<rparr> else buf ?r i)" for i
    using n by (simp add: r' seal_def)
  have same: "popped s' = popped s" "flushed s' = flushed s" by (simp_all add: s' popped_def flushed_def)
  have live': "live (sys_ring s') = []" unfolding live_def buf' by (simp add: r' act(1))
  have pend: "pending s' = pending s" unfolding pending_def live live' same by (simp add: r')
  define ps where "ps = popped s @ sealed_queue ?r"
  have ps: "pending s = ps @ [idx]" by (simp add: pending_def live ps_def)
  have new: "idx \<notin> set ps" "idx \<notin> set (flushed s)" using ctl_invD(2) [OF I(1)] by (auto simp: ps)
  have "ctl_inv s'"
    using I(1) new act(1) unfolding ctl_inv_def Let_def pend same buf' by (auto simp: r' ps_def)
  moreover have "data_inv s'" using I(2) unfolding data_inv_def pend buf' by (simp add: s')
  moreover have "lsn_inv s'"
    using I(3) new unfolding lsn_inv_def Let_def pend ps buf' by (auto simp: s' seal_enqueue_def sorted_wrt_append elim!: sorted_wrt_mono_rel [rotated])
  ultimately show ?thesis using pc by (simp add: wal_inv_def)
qed

text \<open>Activating a free buffer while none is active.\<close>

lemma inv_activated:
  assumes inv: "wal_inv s" and live: "live (sys_ring s) = []" and free: "find_free_buffer (sys_ring s) = Some i"
    and s': "s' = s\<lparr>sys_ring := activate_buffer i lsn (sys_ring s), sys_apply := p, ghost_buf := (ghost_buf s)(i := [])\<rparr>" and pc: "pc_inv s'"
  shows "wal_inv s'"
proof -
  let ?r = "sys_ring s"
  from inv have I: "ctl_inv s" "data_inv s" "lsn_inv s" by (simp_all add: wal_inv_def)
  note i = find_free_SomeD [OF free]
  have new: "i \<notin> set (pending s)" "i \<notin> set (flushed s)" using ctl_inv_free [OF I(1) i(2)] by auto
  have buf': "buf (sys_ring s') j = (if j = i then activate lsn (buf ?r i) else buf ?r j)" for j using i(1) by (simp add: s' activate_buffer_def)
  have same: "popped s' = popped s" "flushed s' = flushed s" by (simp_all add: s' popped_def flushed_def)
  have live': "live (sys_ring s') = [i]" unfolding live_def buf' by (simp add: s' activate_buffer_def activate_def)
  have pend: "pending s' = pending s @ [i]" unfolding pending_def live live' same by (simp add: s' activate_buffer_def)
  have none: "j < length (ring_buffers ?r) \<Longrightarrow> buf_state (buf ?r j) \<noteq> BUF_STATE_ACTIVE" for j
    using ctl_invD(6) [OF I(1), of j] live by (auto simp: live_def split: if_splits)
  have notin: "i \<notin> set (sealed_queue ?r)" "i \<notin> set (popped s)" using new by (auto simp: pending_def)
  have ring': "length (ring_buffers (sys_ring s')) = length (ring_buffers ?r)" "active_idx (sys_ring s') = i" "sealed_queue (sys_ring s') = sealed_queue ?r"
    by (simp_all add: s' activate_buffer_def)
  have "ctl_inv s'"
    using I(1) new notin none i(1) unfolding ctl_inv_def Let_def pend same buf' ring' by auto
  moreover have "data_inv s'"
    using I(2) new unfolding data_inv_def pend buf' by (auto simp: s' activate_def)
  moreover have "lsn_inv s'"
    using I(3) new unfolding lsn_inv_def Let_def pend buf' by (auto simp: s' activate_buffer_def activate_def sorted_wrt_append elim!: sorted_wrt_mono_rel [rotated])
  ultimately show ?thesis using pc by (simp add: wal_inv_def)
qed

lemma inv_copy:
  assumes "wal_inv s" and "exec ACopy s = Some s'"
  shows "wal_inv s'"
proof -
  obtain idx data where pc: "sys_apply s = PChecked idx data" using assms(2) by (auto simp: Let_def split: apply_pc.splits)
  show ?thesis
  proof (cases "try_append data (buf (sys_ring s) idx)")
    case (Some b)
    then show ?thesis
      using assms pc by (intro inv_copied [OF assms(1) pc Some]) (simp_all add: Let_def lsn_record_def)
  next
    case None
    have live: "live (sys_ring s) = [idx]" "data \<noteq> []" using assms(1) pc by (simp_all add: wal_inv_def pc_inv_def)
    then have act: "active_idx (sys_ring s) = idx" "idx < length (ring_buffers (sys_ring s))"
      using assms(1) ctl_invD(1) [of s] by (auto simp: live_def wal_inv_def split: if_splits)
    have s': "s' = s\<lparr>sys_ring := seal_enqueue idx (sys_ring s), sys_apply := PWait (committed (ring_lsn (sys_ring s))) data\<rparr>"
      using assms(2) pc None by (simp add: Let_def)
    show ?thesis
      using live(2) act by (intro inv_sealed [OF assms(1) live(1) s']) (simp add: s' pc_inv_def live_def seal_enqueue_def seal_def)
  qed
qed

lemma inv_free:
  assumes "wal_inv s" and "exec AFree s = Some s'"
  shows "wal_inv s'"
proof -
  obtain lsn data i where c: "sys_apply s = PWait lsn data" "find_free_buffer (sys_ring s) = Some i"
    "s' = s\<lparr>sys_ring := activate_buffer i lsn (sys_ring s), sys_apply := PLoop data, ghost_buf := (ghost_buf s)(i := [])\<rparr>"
    using assms(2) by (auto split: apply_pc.splits option.splits)
  have "live (sys_ring s) = []" "data \<noteq> []" using assms(1) c(1) by (simp_all add: wal_inv_def pc_inv_def)
  then show ?thesis using inv_activated [OF assms(1) _ c(2,3)] by (simp add: pc_inv_def c(3))
qed

lemma inv_seal_active:
  assumes "wal_inv s" and live: "live (sys_ring s) = [active_idx (sys_ring s)]"
    and pc: "\<And>i d. sys_apply s \<noteq> PChecked i d" "\<And>l d. sys_apply s \<noteq> PWait l d"
    and s'_def: "s' = s\<lparr>sys_ring := seal_active (sys_ring s),
      ghost_buf := (case (buf_data (buf (sys_ring s) (active_idx (sys_ring s))) = [], find_free_buffer (sys_ring s)) of
                      (False, Some i) \<Rightarrow> (ghost_buf s)(i := []) | _ \<Rightarrow> ghost_buf s)\<rparr>"
  shows "wal_inv s'"
proof -
  let ?r = "sys_ring s"
  let ?idx = "active_idx ?r" and ?c = "committed (ring_lsn ?r)"
  have n: "?idx < length (ring_buffers ?r)" using assms(1) ctl_invD(1) by (simp add: wal_inv_def)
  define s1 where "s1 = s\<lparr>sys_ring := seal_enqueue ?idx ?r, sys_apply := sys_apply s\<rparr>"
  have pc1: "pc_inv s1" using assms(1) pc by (auto simp: s1_def wal_inv_def pc_inv_def split: apply_pc.splits)
  have inv1: "wal_inv s1" by (rule inv_sealed [OF assms(1) live s1_def pc1])
  show ?thesis
  proof (cases "buf_data (buf ?r ?idx) = []")
    case True
    then show ?thesis using assms(1) by (simp add: s'_def seal_active_def Let_def)
  next
    case False
    show ?thesis
    proof (cases "find_free_buffer ?r")
      case None
      then have "s' = s1" using False by (cases s) (auto simp: s'_def seal_active_def Let_def s1_def)
      then show ?thesis using inv1 by simp
    next
      case (Some i)
      note i = find_free_SomeD [OF Some]
      have ne: "i \<noteq> ?idx" using i live by (auto simp: live_def split: if_splits)
      have live1: "live (sys_ring s1) = []" using n by (simp add: s1_def live_def seal_enqueue_def seal_def)
      have free1: "find_free_buffer (sys_ring s1) = Some i"
        using Some i ne n unfolding find_free_buffer_def position_Some_iff
        by (auto simp: s1_def seal_enqueue_def seal_def set_buf_def nth_list_update)
      have s': "s' = s1\<lparr>sys_ring := activate_buffer i ?c (sys_ring s1), sys_apply := sys_apply s, ghost_buf := (ghost_buf s1)(i := [])\<rparr>"
        using False Some by (cases s) (auto simp: s'_def seal_active_def Let_def s1_def seal_enqueue_def)
      show ?thesis
        using pc1 pc by (intro inv_activated [OF inv1 live1 free1 s']) (auto simp: s' s1_def pc_inv_def split: apply_pc.splits)
    qed
  qed
qed

text \<open>Sleeping and draining hold no buffer.\<close>

lemma inv_writer:
  assumes "wal_inv s" and "sys_writer s = WSleep \<or> sys_writer s = WDrain" and "wr = WSleep \<or> wr = WDrain"
  shows "wal_inv (s\<lparr>sys_writer := wr\<rparr>)"
proof -
  let ?t = "s\<lparr>sys_writer := wr\<rparr>"
  have same: "popped ?t = popped s" "flushed ?t = flushed s" using assms(2,3) by (auto simp: popped_def flushed_def)
  then have pend: "pending ?t = pending s" by (simp add: pending_def)
  have "ctl_inv ?t = ctl_inv s" unfolding ctl_inv_def same pend by simp
  moreover have "pc_inv ?t = pc_inv s" unfolding pc_inv_def by (simp cong: apply_pc.case_cong)
  moreover have "data_inv ?t = data_inv s" unfolding data_inv_def pend by simp
  moreover have "lsn_inv ?t = lsn_inv s" unfolding lsn_inv_def pend by simp
  ultimately show ?thesis using assms(1) by (simp add: wal_inv_def)
qed

lemma inv_tick:
  assumes "wal_inv s" and "exec WTick s = Some s'" and "disciplined WTick s"
  shows "wal_inv s'"
proof (rule inv_seal_active [of "s\<lparr>sys_writer := WDrain\<rparr>"])
  have w: "sys_writer s = WSleep" using assms(2) by (auto split: if_splits)
  then show "wal_inv (s\<lparr>sys_writer := WDrain\<rparr>)" using inv_writer [OF assms(1)] by simp
  have live: "live (sys_ring s) = [active_idx (sys_ring s)]" using assms(3) by (simp add: disciplined_def live_def)
  then show "live (sys_ring (s\<lparr>sys_writer := WDrain\<rparr>)) = [active_idx (sys_ring (s\<lparr>sys_writer := WDrain\<rparr>))]" by simp
  show "sys_apply (s\<lparr>sys_writer := WDrain\<rparr>) \<noteq> PChecked i d" "sys_apply (s\<lparr>sys_writer := WDrain\<rparr>) \<noteq> PWait l d" for i d l
    using assms(1,3) live by (auto simp: disciplined_def wal_inv_def pc_inv_def split: apply_pc.splits)
qed (use assms(2) in \<open>cases s, auto split: if_splits bool.splits option.splits\<close>)

lemma inv_popped:
  assumes "wal_inv s" and w: "sys_writer s = WDrain" and q: "sealed_queue (sys_ring s) = i # q"
    and s': "s' = s\<lparr>sys_ring := (set_buf i mark_flushing (sys_ring s))\<lparr>sealed_queue := q\<rparr>, sys_writer := WPopped i\<rparr>"
  shows "wal_inv s'"
proof -
  let ?r = "sys_ring s"
  from assms(1) have I: "ctl_inv s" "pc_inv s" "data_inv s" "lsn_inv s" by (simp_all add: wal_inv_def)
  have i: "i < length (ring_buffers ?r)" "buf_state (buf ?r i) = BUF_STATE_SEALED"
    using ctl_invD(3,4) [OF I(1), of i] q by (auto simp: pending_def)
  have buf': "buf (sys_ring s') j = (if j = i then (buf ?r i)\<lparr>buf_state := BUF_STATE_FLUSHING\<rparr> else buf ?r j)" for j
    using i(1) by (simp add: s' mark_flushing_def)
  have ring': "length (ring_buffers (sys_ring s')) = length (ring_buffers ?r)" "active_idx (sys_ring s') = active_idx ?r"
    "sealed_queue (sys_ring s') = q" "ring_lsn (sys_ring s') = ring_lsn ?r" by (simp_all add: s')
  have live': "live (sys_ring s') = live ?r" using i(2) unfolding live_def ring' buf' by auto
  have wr: "popped s = []" "flushed s = []" "popped s' = [i]" "flushed s' = []" by (simp_all add: popped_def flushed_def w s')
  have pend: "pending s' = pending s" unfolding pending_def live' ring' wr q by simp
  have d: "i \<notin> set q" using ctl_invD(2) [OF I(1)] by (simp add: pending_def q)
  have "ctl_inv s'" using I(1) d i(1) unfolding ctl_inv_def Let_def pend wr ring' buf' q by auto
  moreover have "pc_inv s'" using I(2) unfolding pc_inv_def live' by (simp add: s')
  moreover have "data_inv s'" using I(3) unfolding data_inv_def pend buf' by (simp add: s')
  moreover have "lsn_inv s'"
  proof -
    have hi: "lsn_hi (buf (sys_ring s') j) = lsn_hi (buf ?r j)" for j unfolding buf' by simp
    show ?thesis using I(4) unfolding lsn_inv_def Let_def pend ring' hi by (simp add: s')
  qed
  ultimately show ?thesis by (simp add: wal_inv_def)
qed

lemma inv_pop:
  assumes "wal_inv s" and "exec WPop s = Some s'"
  shows "wal_inv s'"
proof -
  have w: "sys_writer s = WDrain" using assms(2) by (auto split: writer_pc.splits)
  show ?thesis
  proof (cases "sealed_queue (sys_ring s)")
    case Nil
    then have "s' = s\<lparr>sys_writer := WSleep\<rparr>" using assms(2) w by (simp add: pop_sealed_def)
    then show ?thesis using inv_writer [OF assms(1)] w by simp
  next
    case (Cons i q)
    then show ?thesis using assms(2) w by (intro inv_popped [OF assms(1) w Cons]) (simp add: pop_sealed_def)
  qed
qed

lemma ghost_empty:
  assumes "data_inv s" and "i \<in> set (pending s)" and "buf_data (buf (sys_ring s) i) = []"
  shows "ghost_buf s i = []"
proof -
  have "\<forall>e \<in> set (ghost_buf s i). snd e \<noteq> []" using assms(1,2) unfolding data_inv_def by auto
  moreover have "concat (map snd (ghost_buf s i)) = []" using assms unfolding data_inv_def by simp
  ultimately show ?thesis by (cases "ghost_buf s i") auto
qed

text \<open>A buffer whose bytes are in the file leaves the pending ones, whether the watermark moved up to it or not.\<close>

lemma inv_written:
  assumes "wal_inv s" and w: "sys_writer s = WPopped i"
    and s': "s' = s\<lparr>sys_file := sys_file s @ buf_data (buf (sys_ring s) i), ghost_file := ghost_file s @ ghost_buf s i,
      sys_ring := (sys_ring s)\<lparr>ring_lsn := l\<rparr>, sys_writer := WWritten i\<rparr>"
    and syn: "synced (ring_lsn (sys_ring s)) \<le> synced l" "synced l \<le> max (synced (ring_lsn (sys_ring s))) (lsn_hi (buf (sys_ring s) i))"
      "committed l = committed (ring_lsn (sys_ring s))"
  shows "wal_inv s'"
proof -
  let ?r = "sys_ring s"
  from assms(1) have I: "ctl_inv s" "pc_inv s" "data_inv s" "lsn_inv s" by (simp_all add: wal_inv_def)
  define ps where "ps = sealed_queue ?r @ live ?r"
  have pend: "pending s = i # ps" "popped s = [i]" "flushed s = []" by (simp_all add: pending_def popped_def flushed_def w ps_def)
  have pend': "pending s' = ps" "popped s' = []" "flushed s' = [i]" by (simp_all add: s' pending_def popped_def flushed_def ps_def)
  have "ctl_inv s'" using I(1) unfolding ctl_inv_def Let_def pend pend' by (simp add: s')
  moreover have "live (sys_ring s') = live ?r" by (simp add: s')
  then have "pc_inv s'" using I(2) unfolding pc_inv_def by (simp add: s' split: apply_pc.splits)
  moreover have "data_inv s'" using I(3) unfolding data_inv_def pend pend' by (simp add: s')
  moreover have "lsn_inv s'"
  proof -
    have gt: "synced l < fst e" if "j \<in> set ps" "e \<in> set (ghost_buf s j)" for j e
      using I(4) that le_less_trans [OF syn(2)] unfolding lsn_inv_def Let_def pend by simp
    have "synced l \<le> committed (ring_lsn ?r)" using I(4) order_trans [OF syn(2)] unfolding lsn_inv_def Let_def pend by simp
    then show ?thesis using I(4) gt syn(3) unfolding lsn_inv_def Let_def pend pend' by (simp add: s')
  qed
  ultimately show ?thesis by (simp add: wal_inv_def)
qed

lemma inv_write:
  assumes "wal_inv s" and "exec WWrite s = Some s'"
  shows "wal_inv s'"
proof -
  obtain i where w: "sys_writer s = WPopped i" using assms(2) by (auto simp: Let_def split: writer_pc.splits)
  let ?b = "buf (sys_ring s) i" and ?l = "ring_lsn (sys_ring s)"
  have "i \<in> set (pending s)" by (simp add: pending_def popped_def w)
  then have empty: "buf_data ?b = [] \<Longrightarrow> ghost_buf s i = []" using ghost_empty assms(1) by (simp add: wal_inv_def)
  show ?thesis
    by (rule inv_written [OF assms(1) w, where l = "if buf_data ?b = [] then ?l else mark_synced (lsn_hi ?b) (mark_written (lsn_hi ?b) ?l)"])
      (use assms(2) w empty in \<open>(cases s, auto simp: Let_def split: if_splits), auto simp: mark_synced_def mark_written_def\<close>)
qed

lemma inv_sync_fail:
  assumes "wal_inv s" and "exec WSyncFail s = Some s'"
  shows "wal_inv s'"
proof -
  obtain i where w: "sys_writer s = WPopped i" using assms(2) by (auto simp: Let_def split: writer_pc.splits)
  show ?thesis
    by (rule inv_written [OF assms(1) w, where l = "mark_written (lsn_hi (buf (sys_ring s) i)) (ring_lsn (sys_ring s))"])
      (use assms(2) w in \<open>auto simp: Let_def mark_written_def split: if_splits\<close>)
qed

lemma inv_release:
  assumes "wal_inv s" and "exec WFree s = Some s'"
  shows "wal_inv s'"
proof -
  let ?r = "sys_ring s"
  from assms(1) have I: "ctl_inv s" "pc_inv s" "data_inv s" "lsn_inv s" by (simp_all add: wal_inv_def)
  obtain i where w: "sys_writer s = WWritten i" and s': "s' = s\<lparr>sys_ring := set_buf i mark_free ?r, sys_writer := WDrain\<rparr>"
    using assms(2) by (auto simp: return_to_free_def split: writer_pc.splits)
  have wr: "popped s = []" "flushed s = [i]" "popped s' = []" "flushed s' = []" by (simp_all add: popped_def flushed_def w s')
  have i: "i < length (ring_buffers ?r)" "buf_state (buf ?r i) = BUF_STATE_FLUSHING" "i \<notin> set (pending s)"
    using ctl_invD(2) [OF I(1)] ctl_invD(3,5) [OF I(1), of i] wr by auto
  have buf': "buf (sys_ring s') j = (if j = i then mark_free (buf ?r i) else buf ?r j)" for j using i(1) by (simp add: s')
  have ring': "length (ring_buffers (sys_ring s')) = length (ring_buffers ?r)" "active_idx (sys_ring s') = active_idx ?r"
    "sealed_queue (sys_ring s') = sealed_queue ?r" "ring_lsn (sys_ring s') = ring_lsn ?r" by (simp_all add: s')
  have live': "live (sys_ring s') = live ?r" using i(2) unfolding live_def ring' buf' by (auto simp: mark_free_def)
  have pend: "pending s' = pending s" unfolding pending_def live' ring' wr by simp
  have nq: "i \<notin> set (sealed_queue ?r)" using i(3) by (simp add: pending_def)
  have "ctl_inv s'" using I(1) nq unfolding ctl_inv_def Let_def pend wr ring' buf' by (auto simp: mark_free_def)
  moreover have "pc_inv s'" using I(2) unfolding pc_inv_def live' by (simp add: s')
  moreover have "data_inv s'" using I(3) i(3) unfolding data_inv_def pend buf' by (auto simp: s')
  moreover have "lsn_inv s'"
  proof -
    have hi: "lsn_hi (buf (sys_ring s') j) = lsn_hi (buf ?r j)" for j unfolding buf' by (simp add: mark_free_def)
    show ?thesis using I(4) unfolding lsn_inv_def Let_def pend ring' hi by (simp add: s')
  qed
  ultimately show ?thesis by (simp add: wal_inv_def)
qed

lemmas inv_actions = inv_start inv_raise inv_check inv_copy inv_free inv_tick inv_pop inv_write inv_sync_fail inv_release

lemma inv_exec: "wal_inv s \<Longrightarrow> disciplined a s \<Longrightarrow> exec a s = Some s' \<Longrightarrow> wal_inv s'"
  by (cases a) (auto intro: inv_actions simp: disciplined_def [of "AStart _"] disciplined_def [of "WWriteFail _"] simp del: exec.simps)

lemma inv_init:
  assumes "ring_new n bytes l = Some r" and "synced l \<le> committed l"
  shows "wal_inv (sys_init r)"
proof -
  have r: "2 \<le> n" "r = \<lparr>ring_buffers = (replicate n (buffer_new bytes))[0 := activate (committed l) (buffer_new bytes)],
      active_idx = 0, sealed_queue = [], ring_lsn = l\<rparr>" using assms by (auto simp: ring_new_def split: if_splits)
  have "buf_state (buf r i) = (if i = 0 then BUF_STATE_ACTIVE else BUF_STATE_FREE)" if "i < n" for i
    using that by (simp add: r(2) activate_def buffer_new_def nth_list_update)
  then have st: "live r = [0]" "i < n \<Longrightarrow> buf_state (buf r i) = BUF_STATE_ACTIVE \<Longrightarrow> i = 0" for i
    using r(1) by (auto simp: live_def r(2) activate_def split: if_splits)
  have p: "pending (sys_init r) = [0]" "flushed (sys_init r) = []" "popped (sys_init r) = []"
    using st(1) by (simp_all add: pending_def popped_def flushed_def sys_init_def r(2))
  show ?thesis
    using r(1) assms(2) st(2) p unfolding wal_inv_def ctl_inv_def data_inv_def lsn_inv_def pc_inv_def Let_def
    by (auto simp: sys_init_def r(2) activate_def)
qed

lemma reachable_inv: "reachable disciplined s0 s \<Longrightarrow> wal_inv s0 \<Longrightarrow> wal_inv s"
  by (induction rule: reachable.induct) (auto intro: inv_exec)

lemma concat_bufs:
  "\<forall>i \<in> set is. f i = concat (map snd (g i)) \<Longrightarrow> concat (map snd (concat (map g is))) = concat (map f is)"
  by (induction "is") simp_all

section \<open>Properties\<close>

text \<open>C5. On every schedule of the two threads in which no write fails and the writer seals the active buffer only while
  it is active and no append is between its check and its copy: the log file followed by the
  buffers still to be written is the sequence of acknowledged records, so nothing is lost,
  repeated or reordered, and every record whose sequence number the synced watermark has
  reached is completely in the file. A sync may fail at any time.\<close>

theorem wal_ring_durable:
  assumes "ring_new n bytes l = Some r" and "synced l \<le> committed l" and "reachable disciplined (sys_init r) s"
  shows "(\<exists>k \<le> length (sys_acked s). sys_file s = concat (map snd (take k (sys_acked s))) \<and>
      (\<forall>j < length (sys_acked s). fst (sys_acked s ! j) \<le> synced (ring_lsn (sys_ring s)) \<longrightarrow> j < k)) \<and>
    concat (map snd (sys_acked s)) = sys_file s @ concat (map (\<lambda>i. buf_data (buf (sys_ring s) i)) (pending s)) \<and>
    sorted_wrt (<) (map fst (sys_acked s))"
proof -
  have "wal_inv s" using reachable_inv [OF assms(3) inv_init [OF assms(1,2)]] .
  then have D: "data_inv s" and L: "lsn_inv s" by (simp_all add: wal_inv_def)
  let ?rest = "concat (map (ghost_buf s) (pending s))"
  have acked: "sys_acked s = ghost_file s @ ?rest" and written: "sys_file s = concat (map snd (ghost_file s))"
    and bufs: "\<forall>i \<in> set (pending s). buf_data (buf (sys_ring s) i) = concat (map snd (ghost_buf s i))"
    using D by (simp_all add: data_inv_def)
  have late: "\<forall>e \<in> set ?rest. synced (ring_lsn (sys_ring s)) < fst e" using L by (auto simp: lsn_inv_def Let_def)
  have "j < length (ghost_file s)" if "j < length (sys_acked s)" "fst (sys_acked s ! j) \<le> synced (ring_lsn (sys_ring s))" for j
  proof (rule ccontr)
    assume "\<not> j < length (ghost_file s)"
    then have "sys_acked s ! j = ?rest ! (j - length (ghost_file s))" "j - length (ghost_file s) < length ?rest"
      using that(1) by (simp_all add: acked nth_append)
    then have "sys_acked s ! j \<in> set ?rest" by (metis nth_mem)
    with late that(2) show False by fastforce
  qed
  moreover have "concat (map snd ?rest) = concat (map (\<lambda>i. buf_data (buf (sys_ring s) i)) (pending s))"
    using concat_bufs [OF bufs] .
  ultimately show ?thesis
    using acked written L by (auto simp: lsn_inv_def Let_def intro!: exI [of _ "length (ghost_file s)"])
qed

lemma run_reachable:
  "run as s = Some s' \<Longrightarrow> reachable allowed s0 s \<Longrightarrow>
   (\<forall>k < length as. \<forall>t. run (take k as) s = Some t \<longrightarrow> allowed (as ! k) t) \<Longrightarrow> reachable allowed s0 s'"
proof (induction as arbitrary: s)
  case (Cons a as)
  obtain t where t: "exec a s = Some t" "run as t = Some s'" using Cons.prems(1) by (auto split: option.splits)
  have "allowed a s" using Cons.prems(3) [rule_format, of 0 s] by simp
  then have "reachable allowed s0 t" using reachable.step [OF Cons.prems(2)] t(1) by blast
  moreover have "allowed (as ! k) u" if "k < length as" "run (take k as) t = Some u" for k u
    using Cons.prems(3) [rule_format, of "Suc k" u] that t(1) by simp
  ultimately show ?case using Cons.IH t(2) by blast
qed simp

lemma checked_run_reachable:
  assumes "run as s0 = Some s"
    and "list_all (\<lambda>k. case run (take k as) s0 of None \<Rightarrow> True | Some t \<Rightarrow> allowed (as ! k) t) [0..<length as]"
  shows "reachable allowed s0 s"
proof (rule run_reachable [OF assms(1) reachable.start], intro allI impI)
  fix k t
  assume "k < length as" and t: "run (take k as) s0 = Some t"
  then have "k \<in> set [0..<length as]" by simp
  from bspec [OF assms(2) [unfolded list_all_iff] this] t show "allowed (as ! k) t" by simp
qed

theorem wal_ring_durable_witness:
  "\<exists>s. reachable disciplined (sys_init small_ring) s \<and> sys_file s = [1] \<and> synced (ring_lsn (sys_ring s)) = 1 \<and>
     concat (map snd (sys_acked s)) = [1] @ concat (map (\<lambda>i. buf_data (buf (sys_ring s) i)) (pending s))"
proof -
  let ?as = "append_now [1] @ [WTick, WPop, WWrite]"
  obtain s where s: "run ?as (sys_init small_ring) = Some s" "sys_file s = [1]" "synced (ring_lsn (sys_ring s)) = 1"
  proof -
    have "map_option (\<lambda>s. (sys_file s, synced (ring_lsn (sys_ring s)))) (run ?as (sys_init small_ring)) = Some ([1], 1)" by code_simp
    then show thesis using that by auto
  qed
  have r: "reachable disciplined (sys_init small_ring) s"
    by (rule checked_run_reachable [OF s(1)]) code_simp
  from wal_ring_durable [OF small_ring_new _ r] s(2,3) r show ?thesis by (auto simp: lsn_new_at_def)
qed

text \<open>C19. The conditions are needed, and nothing in the code ensures them. If the writer seals a buffer
  between the check and the copy of an append, the record is acknowledged, but it is neither in
  the file nor in a buffer. If the writer seals again a buffer that the waiting apply thread
  has sealed, the buffer is in the queue twice, and a later record reaches the file before
  an earlier one. If a write fails, its buffer is freed, and the next buffer moves the synced watermark
  past the acknowledged record that is in no file and no buffer.\<close>

theorem wal_ring_schedules:
  "(\<exists>r s. ring_new 2 2 (lsn_new_at 0) = Some r \<and> run race (sys_init r) = Some s \<and> map snd (sys_acked s) = [[1], [2]] \<and>
      sys_file s = [1] \<and> concat (map buf_data (ring_buffers (sys_ring s))) = []) \<and>
   (\<exists>r s. ring_new 2 1 (lsn_new_at 0) = Some r \<and> run reseal (sys_init r) = Some s \<and> map snd (sys_acked s) = [[1], [2], [3], [4]] \<and>
      sys_file s = [1, 2, 4]) \<and>
   (\<exists>r s. ring_new 2 1 (lsn_new_at 0) = Some r \<and> run lost_write (sys_init r) = Some s \<and> sys_acked s = [(1, [1]), (2, [2])] \<and>
      sys_file s = [2] \<and> synced (ring_lsn (sys_ring s)) = 2 \<and> concat (map buf_data (ring_buffers (sys_ring s))) = [])"
proof (intro conjI)
  have "map_option (\<lambda>s. (map snd (sys_acked s), sys_file s, concat (map buf_data (ring_buffers (sys_ring s)))))
      (Option.bind (ring_new 2 2 (lsn_new_at 0)) (\<lambda>r. run race (sys_init r))) = Some ([[1], [2]], [1], [])" by code_simp
  then show "\<exists>r s. ring_new 2 2 (lsn_new_at 0) = Some r \<and> run race (sys_init r) = Some s \<and> map snd (sys_acked s) = [[1], [2]] \<and>
      sys_file s = [1] \<and> concat (map buf_data (ring_buffers (sys_ring s))) = []"
    by (auto simp: bind_eq_Some_conv simp del: concat_eq_Nil_conv)
  have "map_option (\<lambda>s. (map snd (sys_acked s), sys_file s))
      (Option.bind (ring_new 2 1 (lsn_new_at 0)) (\<lambda>r. run reseal (sys_init r))) = Some ([[1], [2], [3], [4]], [1, 2, 4])" by code_simp
  then show "\<exists>r s. ring_new 2 1 (lsn_new_at 0) = Some r \<and> run reseal (sys_init r) = Some s \<and> map snd (sys_acked s) = [[1], [2], [3], [4]] \<and>
      sys_file s = [1, 2, 4]"
    by (auto simp: bind_eq_Some_conv)
  have "map_option (\<lambda>s. (sys_acked s, sys_file s, synced (ring_lsn (sys_ring s)), concat (map buf_data (ring_buffers (sys_ring s)))))
      (Option.bind (ring_new 2 1 (lsn_new_at 0)) (\<lambda>r. run lost_write (sys_init r))) = Some ([(1, [1]), (2, [2])], [2], 2, [])" by code_simp
  then show "\<exists>r s. ring_new 2 1 (lsn_new_at 0) = Some r \<and> run lost_write (sys_init r) = Some s \<and> sys_acked s = [(1, [1]), (2, [2])] \<and>
      sys_file s = [2] \<and> synced (ring_lsn (sys_ring s)) = 2 \<and> concat (map buf_data (ring_buffers (sys_ring s))) = []"
    by (auto simp: bind_eq_Some_conv simp del: concat_eq_Nil_conv)
qed

end
