(* ===== verification/WalProgress.thy ===== *)
theory WalProgress
  imports WalRing
begin

text \<open>
  Progress of the log buffer ring, on the schedules of \<open>WalRing\<close> that keep its discipline. Until the
  writer's next tick every step of the two threads decreases a measure, so that they come to rest. Then the append that
  was under way has been acknowledged, or the writer sleeps and every buffer is sealed: this takes a writer that
  slept all the time over a ring with at most one buffer left, and the tick that ends it seals a buffer a second time. A record larger than
  a buffer is never acknowledged.
\<close>

section \<open>Every buffer is accounted for\<close>

definition cover_inv :: "nat \<Rightarrow> wal_sys \<Rightarrow> bool" where
  "cover_inv bytes s \<longleftrightarrow>
     (let r = sys_ring s in
      ring_buffers r \<noteq> [] \<and>
      (\<forall>i < length (ring_buffers r).
         buf_capacity (buf r i) = bytes \<and>
         (buf_state (buf r i) = BUF_STATE_SEALED \<longrightarrow> i \<in> set (sealed_queue r)) \<and>
         (buf_state (buf r i) = BUF_STATE_FLUSHING \<longrightarrow> i \<in> set (flushed s @ popped s))))"

lemmas buffer_ops = activate_def seal_def mark_flushing_def mark_free_def

lemma length_set_buf: "ring_buffers (set_buf i f r) = [] \<longleftrightarrow> ring_buffers r = []"
  by (simp add: set_buf_def)

lemma cover_seal_enqueue:
  assumes "cover_inv bytes s" and "i < length (ring_buffers (sys_ring s))" and "sys_ring s' = seal_enqueue i (sys_ring s)" and "sys_writer s' = sys_writer s"
  shows "cover_inv bytes s'"
proof -
  have "flushed s' = flushed s" "popped s' = popped s" by (simp_all add: flushed_def popped_def assms(4))
  then show ?thesis using assms(1,2) unfolding cover_inv_def Let_def assms(3) by (simp add: seal_enqueue_def seal_def length_set_buf)
qed

lemma cover_activate:
  assumes "cover_inv bytes s" and "i < length (ring_buffers (sys_ring s))" and "sys_ring s' = activate_buffer i lsn (sys_ring s)" and "sys_writer s' = sys_writer s"
  shows "cover_inv bytes s'"
proof -
  have "flushed s' = flushed s" "popped s' = popped s" by (simp_all add: flushed_def popped_def assms(4))
  then show ?thesis using assms(1,2) unfolding cover_inv_def Let_def assms(3) by (simp add: activate_buffer_def activate_def length_set_buf)
qed

lemma cover_same:
  assumes "cover_inv bytes s" and "ring_buffers (sys_ring s') = ring_buffers (sys_ring s)" and "sealed_queue (sys_ring s') = sealed_queue (sys_ring s)"
    and "set (flushed s @ popped s) = set (flushed s' @ popped s')"
  shows "cover_inv bytes s'"
  using assms unfolding cover_inv_def Let_def by auto

lemma cover_seal_active:
  assumes "cover_inv bytes s" and "active_idx (sys_ring s) < length (ring_buffers (sys_ring s))"
    and r': "sys_ring s' = seal_active (sys_ring s)" and w: "sys_writer s' = sys_writer s"
  shows "cover_inv bytes s'"
proof -
  let ?r = "sys_ring s"
  define s1 where "s1 = s\<lparr>sys_ring := seal_enqueue (active_idx ?r) ?r\<rparr>"
  have c1: "cover_inv bytes s1" by (rule cover_seal_enqueue [OF assms(1,2)]) (simp_all add: s1_def)
  show ?thesis
  proof (cases "buf_data (buf ?r (active_idx ?r)) = []")
    case True
    then show ?thesis by (intro cover_same [OF assms(1)]) (simp_all add: r' seal_active_def Let_def flushed_def popped_def w)
  next
    case False
    show ?thesis
    proof (cases "find_free_buffer ?r")
      case None
      then show ?thesis using False by (intro cover_same [OF c1]) (simp_all add: r' s1_def seal_active_def Let_def flushed_def popped_def w)
    next
      case (Some i)
      then have "i < length (ring_buffers (sys_ring s1))" using find_free_SomeD(1) [OF Some] by (simp add: s1_def seal_enqueue_def)
      then show ?thesis using False Some by (intro cover_activate [OF c1]) (simp_all add: r' s1_def seal_active_def Let_def w)
    qed
  qed
qed

lemma cover_tick:
  assumes "cover_inv bytes s" and "active_idx (sys_ring s) < length (ring_buffers (sys_ring s))" and "exec WTick s = Some s'"
  shows "cover_inv bytes s'"
proof (rule cover_seal_active [of bytes "s\<lparr>sys_writer := WDrain\<rparr>"])
  have "sys_writer s = WSleep" using assms(3) by (auto split: if_splits)
  then show "cover_inv bytes (s\<lparr>sys_writer := WDrain\<rparr>)" by (intro cover_same [OF assms(1)]) (simp_all add: flushed_def popped_def)
qed (use assms(2,3) in \<open>auto split: if_splits\<close>)

lemma cover_copy:
  assumes "cover_inv bytes s" and "wal_inv s" and "exec ACopy s = Some s'"
  shows "cover_inv bytes s'"
proof -
  let ?r = "sys_ring s"
  obtain idx data where pc: "sys_apply s = PChecked idx data" using assms(3) by (auto simp: Let_def split: apply_pc.splits)
  have live: "live ?r = [idx]" using assms(2) pc by (simp add: wal_inv_def pc_inv_def)
  then have n: "idx < length (ring_buffers ?r)" using assms(2) ctl_invD(1) by (auto simp: live_def wal_inv_def split: if_splits)
  show ?thesis
  proof (cases "try_append data (buf ?r idx)")
    case None
    then show ?thesis using assms(3) pc by (intro cover_seal_enqueue [OF assms(1) n]) (auto simp: Let_def)
  next
    case (Some b)
    then have "sys_ring s' = (set_buf idx (\<lambda>_. b) ?r)\<lparr>ring_lsn := lsn_record (length data) (ring_lsn ?r)\<rparr>" "sys_writer s' = sys_writer s"
      "b = (buf ?r idx)\<lparr>buf_data := buf_data (buf ?r idx) @ data\<rparr>"
      using assms(3) pc by (auto simp: Let_def try_append_def split: if_splits)
    then show ?thesis using assms(1) n unfolding cover_inv_def Let_def flushed_def popped_def by (simp add: length_set_buf)
  qed
qed

lemma cover_free:
  assumes "cover_inv bytes s" and "exec AFree s = Some s'"
  shows "cover_inv bytes s'"
proof -
  obtain lsn data i where c: "find_free_buffer (sys_ring s) = Some i" "sys_ring s' = activate_buffer i lsn (sys_ring s)" "sys_writer s' = sys_writer s"
    using assms(2) by (auto split: apply_pc.splits option.splits)
  show ?thesis by (rule cover_activate [OF assms(1) find_free_SomeD(1) [OF c(1)] c(2,3)])
qed

lemma cover_pop:
  assumes "cover_inv bytes s" and "wal_inv s" and "exec WPop s = Some s'"
  shows "cover_inv bytes s'"
proof (cases "sealed_queue (sys_ring s)")
  case Nil
  then have "sys_writer s = WDrain" "s' = s\<lparr>sys_writer := WSleep\<rparr>"
    using assms(3) by (auto simp: pop_sealed_def split: writer_pc.splits)
  then show ?thesis by (intro cover_same [OF assms(1)]) (simp_all add: flushed_def popped_def)
next
  let ?r = "sys_ring s"
  case q: (Cons i q)
  have w: "sys_writer s = WDrain" and s': "sys_ring s' = (set_buf i mark_flushing ?r)\<lparr>sealed_queue := q\<rparr>" "sys_writer s' = WPopped i"
    using assms(3) q by (auto simp: pop_sealed_def split: writer_pc.splits)
  have n: "i < length (ring_buffers ?r)" using assms(2) ctl_invD(3) [of s i] q by (auto simp: pending_def wal_inv_def)
  have wr: "flushed s = []" "popped s = []" "flushed s' = []" "popped s' = [i]" by (simp_all add: flushed_def popped_def w s')
  show ?thesis using assms(1) n unfolding cover_inv_def Let_def wr s'(1) by (auto simp: mark_flushing_def length_set_buf q)
qed

lemma cover_release:
  assumes "cover_inv bytes s" and "wal_inv s" and "exec WFree s = Some s'"
  shows "cover_inv bytes s'"
proof -
  let ?r = "sys_ring s"
  obtain i where w: "sys_writer s = WWritten i" and s': "sys_ring s' = set_buf i mark_free ?r" "sys_writer s' = WDrain"
    using assms(3) by (auto simp: return_to_free_def split: writer_pc.splits)
  have wr: "flushed s = [i]" "popped s = []" "flushed s' = []" "popped s' = []" by (simp_all add: flushed_def popped_def w s')
  have n: "i < length (ring_buffers ?r)" using assms(2) ctl_invD(3) [of s i] wr by (auto simp: wal_inv_def)
  show ?thesis using assms(1) n unfolding cover_inv_def Let_def wr s'(1) by (auto simp: mark_free_def length_set_buf)
qed

lemma cover_exec:
  assumes "cover_inv bytes s" and "wal_inv s" and "exec a s = Some s'"
  shows "cover_inv bytes s'"
proof (cases a)
  case (AStart data)
  then show ?thesis using assms(3) by (intro cover_same [OF assms(1)]) (auto simp: flushed_def popped_def split: if_splits)
next
  case (ARaise l)
  then show ?thesis using assms(3) by (intro cover_same [OF assms(1)]) (auto simp: flushed_def popped_def split: if_splits)
next
  case ACheck
  then show ?thesis using assms(3) by (intro cover_same [OF assms(1)]) (auto simp: flushed_def popped_def Let_def split: apply_pc.splits)
next
  case WTick
  then show ?thesis using assms cover_tick ctl_invD(1) by (simp add: wal_inv_def del: exec.simps)
next
  case WWrite
  then show ?thesis using assms(3) by (intro cover_same [OF assms(1)]) (auto simp: flushed_def popped_def Let_def split: writer_pc.splits if_splits)
next
  case (WWriteFail k)
  then show ?thesis using assms(3) by (intro cover_same [OF assms(1)]) (auto simp: flushed_def popped_def Let_def split: writer_pc.splits if_splits)
next
  case WSyncFail
  then show ?thesis using assms(3) by (intro cover_same [OF assms(1)]) (auto simp: flushed_def popped_def Let_def split: writer_pc.splits if_splits)
next
  case ACopy
  then show ?thesis using cover_copy assms by blast
next
  case AFree
  then show ?thesis using cover_free assms by blast
next
  case WPop
  then show ?thesis using cover_pop assms by blast
next
  case WFree
  then show ?thesis using cover_release assms by blast
qed

lemma cover_init: "ring_new n bytes l = Some r \<Longrightarrow> cover_inv bytes (sys_init r)"
  by (auto simp: ring_new_def cover_inv_def sys_init_def activate_def buffer_new_def nth_list_update Let_def split: if_splits)

lemma reachable_cover: "reachable disciplined s0 s \<Longrightarrow> wal_inv s0 \<Longrightarrow> cover_inv bytes s0 \<Longrightarrow> cover_inv bytes s"
  by (induction rule: reachable.induct) (auto intro: cover_exec dest: reachable_inv)


section \<open>Progress of an append\<close>

text \<open>The actions of the two threads between the starts of appends and the ticks of the writer.\<close>

definition progress_actions :: "action list" where
  "progress_actions = [ACheck, ACopy, AFree, WPop, WWrite, WSyncFail, WFree]"

fun pc_data :: "apply_pc \<Rightarrow> u8 list option" where
  "pc_data PIdle = None"
| "pc_data (PLoop data) = Some data"
| "pc_data (PChecked _ data) = Some data"
| "pc_data (PWait _ data) = Some data"

definition fits :: "WalBufferRing \<Rightarrow> u8 list \<Rightarrow> bool" where
  "fits r data \<longleftrightarrow> length (buf_data (buf r (active_idx r))) + length data \<le> buf_capacity (buf r (active_idx r))"

fun apply_work :: "WalBufferRing \<Rightarrow> apply_pc \<Rightarrow> nat" where
  "apply_work r PIdle = 0"
| "apply_work r (PLoop data) = (if live r = [] then 4 else if fits r data then 2 else 8)"
| "apply_work r (PChecked _ data) = (if fits r data then 1 else 7)"
| "apply_work r (PWait _ data) = 3"

fun writer_work :: "writer_pc \<Rightarrow> nat" where
  "writer_work WSleep = 0"
| "writer_work WDrain = 1"
| "writer_work (WPopped _) = 3"
| "writer_work (WWritten _) = 2"

definition work :: "wal_sys \<Rightarrow> nat" where
  "work s = 3 * length (sealed_queue (sys_ring s)) + writer_work (sys_writer s) + apply_work (sys_ring s) (sys_apply s)"

definition appending :: "nat \<Rightarrow> u8 list \<Rightarrow> wal_sys \<Rightarrow> bool" where
  "appending bytes data s \<longleftrightarrow>
     wal_inv s \<and> cover_inv bytes s \<and>
     (pc_data (sys_apply s) = Some data \<or> sys_apply s = PIdle \<and> sys_acked s \<noteq> [] \<and> snd (List.last (sys_acked s)) = data)"

lemma live_active: "live r = [] \<or> live r = [active_idx r]"
  by (simp add: live_def)

lemma work_copy:
  assumes "wal_inv s" and "exec ACopy s = Some s'"
  shows "work s' < work s"
proof -
  let ?r = "sys_ring s"
  obtain idx data where pc: "sys_apply s = PChecked idx data" using assms(2) by (auto simp: Let_def split: apply_pc.splits)
  then have idx: "idx = active_idx ?r" using assms(1) live_active [of ?r] by (auto simp: wal_inv_def pc_inv_def)
  show ?thesis
    using assms(2) pc by (auto simp: work_def fits_def idx Let_def try_append_def seal_enqueue_def split: if_splits)
qed

lemma work_free:
  assumes "cover_inv bytes s" and "exec AFree s = Some s'" and "pc_data (sys_apply s) = Some data" and "length data \<le> bytes"
  shows "work s' < work s"
proof -
  let ?r = "sys_ring s"
  obtain lsn i where c: "sys_apply s = PWait lsn data" "find_free_buffer ?r = Some i" "sys_ring s' = activate_buffer i lsn ?r"
    "sys_apply s' = PLoop data" "sys_writer s' = sys_writer s"
    using assms(2,3) by (auto split: apply_pc.splits option.splits)
  have i: "i < length (ring_buffers ?r)" by (rule find_free_SomeD(1) [OF c(2)])
  then have "buf_capacity (buf ?r i) = bytes" using assms(1) by (simp add: cover_inv_def Let_def)
  then show ?thesis using i assms(4) by (simp add: work_def c activate_buffer_def fits_def activate_def live_def)
qed

lemma apply_work_cong:
  assumes "pc_inv s" and "active_idx r = active_idx (sys_ring s)" and "live r = live (sys_ring s)"
    and "live r \<noteq> [] \<Longrightarrow> buf r (active_idx r) = buf (sys_ring s) (active_idx r)"
  shows "apply_work r (sys_apply s) = apply_work (sys_ring s) (sys_apply s)"
  using assms by (cases "sys_apply s") (auto simp: fits_def pc_inv_def)

lemma work_set_buf:
  assumes "wal_inv s" and "i \<notin> set (live (sys_ring s))" and "i < length (ring_buffers (sys_ring s))"
    and "buf_state (f (buf (sys_ring s) i)) \<noteq> BUF_STATE_ACTIVE"
  shows "apply_work (set_buf i f (sys_ring s)) (sys_apply s) = apply_work (sys_ring s) (sys_apply s)"
    and "apply_work ((set_buf i f (sys_ring s))\<lparr>sealed_queue := q\<rparr>) (sys_apply s) = apply_work (sys_ring s) (sys_apply s)"
proof -
  have "live (set_buf i f (sys_ring s)) = live (sys_ring s)" using assms(2,3,4) by (auto simp: live_def split: if_splits)
  moreover have "live (sys_ring s) \<noteq> [] \<Longrightarrow> active_idx (sys_ring s) \<noteq> i" using live_active [of "sys_ring s"] assms(2) by auto
  ultimately show "apply_work (set_buf i f (sys_ring s)) (sys_apply s) = apply_work (sys_ring s) (sys_apply s)"
    "apply_work ((set_buf i f (sys_ring s))\<lparr>sealed_queue := q\<rparr>) (sys_apply s) = apply_work (sys_ring s) (sys_apply s)"
    using assms(1,3) by (auto intro!: apply_work_cong simp: wal_inv_def)
qed

lemma work_pop:
  assumes "wal_inv s" and "exec WPop s = Some s'"
  shows "work s' < work s"
proof (cases "sealed_queue (sys_ring s)")
  case Nil
  then show ?thesis using assms(2) by (auto simp: pop_sealed_def work_def split: writer_pc.splits)
next
  let ?r = "sys_ring s"
  case q: (Cons i q)
  then have c: "sys_writer s = WDrain" "sealed_queue ?r = i # q" "sys_ring s' = (set_buf i mark_flushing ?r)\<lparr>sealed_queue := q\<rparr>"
    "sys_writer s' = WPopped i" "sys_apply s' = sys_apply s"
    using assms(2) by (auto simp: pop_sealed_def split: writer_pc.splits)
  have "i \<notin> set (live ?r)" "i < length (ring_buffers ?r)"
    using assms(1) ctl_invD(2) [of s] ctl_invD(3) [of s i] c(2) by (auto simp: wal_inv_def pending_def)
  from work_set_buf(2) [OF assms(1) this, of mark_flushing q] show ?thesis by (simp add: work_def c mark_flushing_def)
qed

lemma work_write:
  assumes "exec WWrite s = Some s' \<or> exec WSyncFail s = Some s'"
  shows "work s' < work s"
proof -
  obtain i l where c: "sys_writer s = WPopped i" "sys_ring s' = (sys_ring s)\<lparr>ring_lsn := l\<rparr>" "sys_writer s' = WWritten i" "sys_apply s' = sys_apply s"
    using assms by (cases "sys_writer s") (auto simp: Let_def split: if_splits intro: that [of _ "ring_lsn (sys_ring s)"])
  have "apply_work (r\<lparr>ring_lsn := l\<rparr>) p = apply_work r p" for r p by (cases p) (simp_all add: fits_def)
  then show ?thesis by (simp add: work_def c)
qed

lemma work_release:
  assumes "wal_inv s" and "exec WFree s = Some s'"
  shows "work s' < work s"
proof -
  let ?r = "sys_ring s"
  obtain i where c: "sys_writer s = WWritten i" "sys_ring s' = set_buf i mark_free ?r" "sys_writer s' = WDrain" "sys_apply s' = sys_apply s"
    using assms(2) by (auto simp: return_to_free_def split: writer_pc.splits)
  have "i \<notin> set (live ?r)" "i < length (ring_buffers ?r)"
    using assms(1) ctl_invD(2) [of s] ctl_invD(3) [of s i] by (auto simp: wal_inv_def pending_def flushed_def c(1))
  from work_set_buf(1) [OF assms(1) this, of mark_free] show ?thesis by (simp add: work_def c mark_free_def)
qed

text \<open>Without an append under way only the writer's actions are enabled.\<close>

lemma idle_blocks: "sys_apply s = PIdle \<Longrightarrow> exec ACheck s = None \<and> exec ACopy s = None \<and> exec AFree s = None"
  by simp

lemma work_decreases:
  assumes "appending bytes data s" and "length data \<le> bytes" and "a \<in> set progress_actions" and "exec a s = Some s'"
  shows "work s' < work s"
proof -
  have inv: "wal_inv s" "cover_inv bytes s" using assms(1) by (simp_all add: appending_def)
  consider "a = ACheck" | "a = ACopy" | "a = AFree" | "a = WPop" | "a = WWrite \<or> a = WSyncFail" | "a = WFree" using assms(3) by (auto simp: progress_actions_def)
  then show ?thesis
  proof cases
    case 1
    then show ?thesis using assms(4) live_active [of "sys_ring s"]
      by (cases "sys_apply s") (auto simp: Let_def work_def live_def split: if_splits)
  next
    case 3
    have "pc_data (sys_apply s) = Some data" using assms(1,4) idle_blocks [of s] 3 by (auto simp: appending_def)
    then show ?thesis using work_free [OF inv(2)] assms(2,4) 3 by blast
  qed (use work_copy work_pop work_write work_release inv assms(4) in blast)+
qed

lemma appending_exec:
  assumes "appending bytes data s" and "a \<in> set progress_actions" and "exec a s = Some s'"
  shows "appending bytes data s'"
proof -
  have inv: "wal_inv s" "cover_inv bytes s" using assms(1) by (simp_all add: appending_def)
  have dis: "disciplined a s" using assms(2) by (auto simp: progress_actions_def disciplined_def)
  have "pc_data (sys_apply s') = Some data \<or> sys_apply s' = PIdle \<and> sys_acked s' \<noteq> [] \<and> snd (List.last (sys_acked s')) = data"
    using assms unfolding appending_def progress_actions_def
    by (cases "sys_apply s") (auto simp: Let_def split: if_splits option.splits writer_pc.splits)
  then show ?thesis using inv_exec [OF inv(1) dis assms(3)] cover_exec [OF inv(2,1) assms(3)] by (simp add: appending_def)
qed

lemma run_appending:
  "run as s = Some s' \<Longrightarrow> appending bytes data s \<Longrightarrow> length data \<le> bytes \<Longrightarrow> set as \<subseteq> set progress_actions \<Longrightarrow>
   appending bytes data s' \<and> work s' + length as \<le> work s"
proof (induction as arbitrary: s)
  case (Cons a as)
  obtain t where t: "exec a s = Some t" "run as t = Some s'" using Cons.prems(1) by (auto split: option.splits)
  have "appending bytes data t" "work t < work s"
    using appending_exec [OF Cons.prems(2) _ t(1)] work_decreases [OF Cons.prems(2,3) _ t(1)] Cons.prems(4) by auto
  then show ?case using Cons.IH [OF t(2)] Cons.prems(3,4) by fastforce
qed simp

text \<open>When the threads have come to rest before the append is acknowledged, the writer sleeps and all buffers are in its queue.\<close>

lemma append_stuck:
  assumes "appending bytes data s" and "\<forall>a \<in> set progress_actions. exec a s = None" and "sys_apply s \<noteq> PIdle"
  shows "sys_writer s = WSleep" and "\<forall>i < length (ring_buffers (sys_ring s)). buf_state (buf (sys_ring s) i) = BUF_STATE_SEALED"
    and "{..<length (ring_buffers (sys_ring s))} \<subseteq> set (sealed_queue (sys_ring s))"
proof -
  let ?r = "sys_ring s"
  have inv: "wal_inv s" "cover_inv bytes s" using assms(1) by (simp_all add: appending_def)
  have no: "exec ACheck s = None" "exec ACopy s = None" "exec AFree s = None" "exec WPop s = None" "exec WWrite s = None" "exec WFree s = None"
    using assms(2) by (simp_all add: progress_actions_def del: exec.simps)
  obtain lsn d where w: "sys_apply s = PWait lsn d" using no(1,2) assms(3) by (cases "sys_apply s") (auto simp: Let_def split: option.splits)
  then have none: "live ?r = []" "find_free_buffer ?r = None" using inv(1) no(3) by (auto simp: wal_inv_def pc_inv_def split: option.splits)
  show sleep: "sys_writer s = WSleep" using no(4,5,6) by (cases "sys_writer s") (auto simp: Let_def split: if_splits option.splits)
  then have idle: "flushed s = []" "popped s = []" by (simp_all add: flushed_def popped_def)
  show sealed: "\<forall>i < length (ring_buffers ?r). buf_state (buf ?r i) = BUF_STATE_SEALED"
  proof (intro allI impI)
    fix i assume i: "i < length (ring_buffers ?r)"
    have "buf_state (buf ?r i) \<noteq> BUF_STATE_ACTIVE" using none(1) inv(1) ctl_invD(6) [of s i] i by (auto simp: live_def wal_inv_def split: if_splits)
    moreover have "buf_state (buf ?r i) \<noteq> BUF_STATE_FLUSHING" using inv(2) i idle by (auto simp: cover_inv_def Let_def)
    moreover have "buf_state (buf ?r i) \<noteq> BUF_STATE_FREE" using none(2) i by (auto simp: find_free_buffer_def position_None_iff)
    ultimately show "buf_state (buf ?r i) = BUF_STATE_SEALED" by (cases "buf_state (buf ?r i)") auto
  qed
  then show "{..<length (ring_buffers ?r)} \<subseteq> set (sealed_queue ?r)" using inv(2) by (auto simp: cover_inv_def Let_def)
qed

text \<open>While the writer sleeps the append seals one more buffer at most.\<close>

definition to_seal :: "wal_sys \<Rightarrow> nat" where
  "to_seal s = length (sealed_queue (sys_ring s)) + (if 7 \<le> apply_work (sys_ring s) (sys_apply s) then 1 else 0)"

definition room :: "nat \<Rightarrow> wal_sys \<Rightarrow> bool" where
  "room n s \<longleftrightarrow> 2 \<le> n \<and> (sys_writer s = WSleep \<longrightarrow> to_seal s < n)"

lemma room_exec:
  assumes "appending bytes data s" and "length data \<le> bytes" and "a \<in> set progress_actions" and "exec a s = Some s'" and "room n s"
  shows "room n s'"
proof -
  have inv: "wal_inv s" "cover_inv bytes s" using assms(1) by (simp_all add: appending_def)
  consider "a = ACheck" | "a = ACopy" | "a = AFree" | "a = WPop" | "a = WWrite \<or> a = WSyncFail" | "a = WFree" using assms(3) by (auto simp: progress_actions_def)
  then show ?thesis
  proof cases
    case 1
    then show ?thesis using assms(4,5) live_active [of "sys_ring s"]
      by (cases "sys_apply s") (auto simp: Let_def room_def to_seal_def live_def split: if_splits)
  next
    case 2
    then obtain idx d where pc: "sys_apply s = PChecked idx d" using assms(4) by (auto simp: Let_def split: apply_pc.splits)
    then have idx: "idx = active_idx (sys_ring s)" using inv(1) live_active [of "sys_ring s"] by (auto simp: wal_inv_def pc_inv_def)
    show ?thesis using assms(4,5) 2 pc
      by (auto simp: room_def to_seal_def fits_def idx Let_def try_append_def seal_enqueue_def split: if_splits)
  next
    case 3
    have "pc_data (sys_apply s) = Some data" using assms(1,4) idle_blocks [of s] 3 by (auto simp: appending_def)
    then have "work s' < work s" using work_free [OF inv(2)] assms(2,4) 3 by blast
    then show ?thesis using assms(4,5) 3
      by (auto simp: room_def to_seal_def work_def activate_buffer_def split: apply_pc.splits option.splits if_splits)
  next
    case 4
    then show ?thesis using assms(4,5) by (auto simp: room_def to_seal_def pop_sealed_def split: writer_pc.splits list.splits option.splits)
  next
    case 5
    then show ?thesis using assms(4,5) by (auto simp: room_def Let_def split: writer_pc.splits if_splits)
  next
    case 6
    then show ?thesis using assms(4,5) by (auto simp: room_def split: writer_pc.splits)
  qed
qed

lemma run_room:
  "run as s = Some s' \<Longrightarrow> appending bytes data s \<Longrightarrow> length data \<le> bytes \<Longrightarrow> set as \<subseteq> set progress_actions \<Longrightarrow> room n s \<Longrightarrow> room n s'"
proof (induction as arbitrary: s)
  case (Cons a as)
  obtain t where t: "exec a s = Some t" "run as t = Some s'" using Cons.prems(1) by (auto split: option.splits)
  have "appending bytes data t" "room n t"
    using appending_exec [OF Cons.prems(2) _ t(1)] room_exec [OF Cons.prems(2,3) _ t(1) Cons.prems(5)] Cons.prems(4) by auto
  then show ?case using Cons.IH [OF t(2)] Cons.prems(3,4) by simp
qed simp

lemma work_bound:
  assumes "wal_inv s"
  shows "work s \<le> 3 * length (ring_buffers (sys_ring s)) + 9"
proof -
  let ?n = "length (ring_buffers (sys_ring s))" and ?q = "sealed_queue (sys_ring s)"
  have "distinct (flushed s @ pending s)" "set (flushed s @ pending s) \<subseteq> {..<?n}" using assms by (simp_all add: wal_inv_def ctl_inv_def Let_def)
  then have "length (flushed s @ pending s) \<le> ?n" by (metis card_lessThan card_mono distinct_card finite_lessThan)
  then have "length (flushed s) + length (popped s) + length ?q \<le> ?n" by (simp add: pending_def)
  moreover have "writer_work (sys_writer s) \<le> 1 + 2 * (length (flushed s) + length (popped s))" by (cases "sys_writer s") (simp_all add: flushed_def popped_def)
  moreover have "apply_work (sys_ring s) (sys_apply s) \<le> 8" by (cases "sys_apply s") simp_all
  ultimately show ?thesis by (simp add: work_def)
qed

lemma ring_length_exec: "exec a s = Some s' \<Longrightarrow> length (ring_buffers (sys_ring s')) = length (ring_buffers (sys_ring s))"
  by (cases a) (auto simp: Let_def seal_enqueue_def activate_buffer_def return_to_free_def pop_sealed_def seal_active_def
      split: if_splits option.splits apply_pc.splits writer_pc.splits list.splits)

lemma reachable_length: "reachable allowed s0 s \<Longrightarrow> length (ring_buffers (sys_ring s)) = length (ring_buffers (sys_ring s0))"
  by (induction rule: reachable.induct) (auto dest: ring_length_exec)

lemma run_length: "run as s = Some s' \<Longrightarrow> length (ring_buffers (sys_ring s')) = length (ring_buffers (sys_ring s))"
  by (induction as arbitrary: s) (auto split: option.splits dest: ring_length_exec simp del: exec.simps)

text \<open>Only a copy acknowledges, and only a record that fits into a buffer.\<close>

lemma acked_exec:
  assumes "wal_inv s" and "cover_inv bytes s" and "exec a s = Some s'" and "e \<in> set (sys_acked s')"
  shows "e \<in> set (sys_acked s) \<or> length (snd e) \<le> bytes"
proof (cases "a = ACopy")
  case True
  then obtain idx data where pc: "sys_apply s = PChecked idx data" using assms(3) by (auto simp: Let_def split: apply_pc.splits)
  have "live (sys_ring s) = [idx]" using assms(1) pc by (simp add: wal_inv_def pc_inv_def)
  then have "idx < length (ring_buffers (sys_ring s))" using assms(1) ctl_invD(1) by (auto simp: live_def wal_inv_def split: if_splits)
  then have "buf_capacity (buf (sys_ring s) idx) = bytes" using assms(2) by (simp add: cover_inv_def Let_def)
  then show ?thesis using assms(3,4) pc True by (auto simp: Let_def try_append_def split: if_splits)
next
  case False
  then have "sys_acked s' = sys_acked s"
    using assms(3) by (cases a) (auto simp: Let_def split: if_splits option.splits apply_pc.splits writer_pc.splits)
  then show ?thesis using assms(4) by simp
qed

lemma reachable_acked:
  "reachable disciplined s0 s \<Longrightarrow> wal_inv s0 \<Longrightarrow> cover_inv bytes s0 \<Longrightarrow> \<forall>e \<in> set (sys_acked s0). length (snd e) \<le> bytes \<Longrightarrow>
   \<forall>e \<in> set (sys_acked s). length (snd e) \<le> bytes"
  by (induction rule: reachable.induct) (auto dest: acked_exec [rotated 2] reachable_inv reachable_cover)

section \<open>Properties\<close>

text \<open>C16. On the schedules in which records are not empty, no write fails and the writer seals only an active buffer that no append is about to
  fill, an append of a record that fits into a buffer: until the writer's next tick any interleaving of the two threads, failing syncs included, takes at
  most three steps per buffer and nine more, and if no step is left then the record has been acknowledged, unless the writer
  has been asleep from the start with all but at most one of the \<open>n\<close> buffers in its queue. In that case every buffer is sealed, and the
  tick for which both threads wait seals a sealed buffer again, so it is not a tick of these schedules. A record
  that does not fit is never acknowledged.\<close>

theorem wal_append_completes:
  assumes "ring_new n bytes l = Some r" and "synced l \<le> committed l" and "reachable disciplined (sys_init r) s"
    and "pc_data (sys_apply s) = Some data" and "run as s = Some s'" and "set as \<subseteq> set progress_actions"
  shows "(length data \<le> bytes \<longrightarrow>
      length as \<le> 3 * n + 9 \<and>
      (list_all (\<lambda>a. exec a s' = None) progress_actions \<longrightarrow>
         sys_apply s' = PIdle \<and> sys_acked s' \<noteq> [] \<and> snd (List.last (sys_acked s')) = data \<or>
         sys_writer s = WSleep \<and> n \<le> length (sealed_queue (sys_ring s)) + 1 \<and>
         sys_writer s' = WSleep \<and> (\<forall>i < n. buf_state (buf (sys_ring s') i) = BUF_STATE_SEALED) \<and> \<not> disciplined WTick s')) \<and>
    (\<forall>e \<in> set (sys_acked s). length (snd e) \<le> bytes)"
proof (intro conjI impI)
  note init = inv_init [OF assms(1,2)] cover_init [OF assms(1)]
  have inv: "wal_inv s" "cover_inv bytes s" using reachable_inv reachable_cover assms(3) init by blast+
  have n: "length (ring_buffers (sys_ring s)) = n" "2 \<le> n"
    using reachable_length [OF assms(3)] assms(1) by (auto simp: ring_new_def sys_init_def split: if_splits)
  then have n': "length (ring_buffers (sys_ring s')) = n" using run_length [OF assms(5)] by simp
  show "\<forall>e \<in> set (sys_acked s). length (snd e) \<le> bytes"
    by (rule reachable_acked [OF assms(3) init]) (simp add: sys_init_def)
  assume fit: "length data \<le> bytes"
  have app: "appending bytes data s" using inv assms(4) by (simp add: appending_def)
  with fit have run: "appending bytes data s'" "work s' + length as \<le> work s"
    using run_appending [OF assms(5) _ _ assms(6)] by blast+
  then show "length as \<le> 3 * n + 9" using work_bound [OF inv(1)] n by simp
  assume "list_all (\<lambda>a. exec a s' = None) progress_actions"
  then have rest: "\<forall>a \<in> set progress_actions. exec a s' = None" by (simp add: list_all_iff)
  show "sys_apply s' = PIdle \<and> sys_acked s' \<noteq> [] \<and> snd (List.last (sys_acked s')) = data \<or>
      sys_writer s = WSleep \<and> n \<le> length (sealed_queue (sys_ring s)) + 1 \<and>
      sys_writer s' = WSleep \<and> (\<forall>i < n. buf_state (buf (sys_ring s') i) = BUF_STATE_SEALED) \<and> \<not> disciplined WTick s'"
  proof (cases "sys_apply s' = PIdle")
    case True
    then show ?thesis using run(1) by (auto simp: appending_def)
  next
    case False
    note stuck = append_stuck [OF run(1) rest False]
    have "active_idx (sys_ring s') < n" using run(1) ctl_invD(1) [of s'] n' by (simp add: appending_def wal_inv_def)
    then have "\<not> disciplined WTick s'" using stuck(2) n' by (simp add: disciplined_def)
    moreover have "\<not> room n s'" using stuck(1) card_mono [OF _ stuck(3)] card_length [of "sealed_queue (sys_ring s')"] n'
      by (simp add: room_def to_seal_def)
    then have "\<not> room n s" using run_room [OF assms(5) app fit assms(6)] by blast
    then have "sys_writer s = WSleep" "n \<le> length (sealed_queue (sys_ring s)) + 1" using n(2) by (auto simp: room_def to_seal_def split: if_splits)
    ultimately show ?thesis using stuck(1,2) n' by simp
  qed
qed

text \<open>A second record that does not fit any more waits until the first buffer is written.\<close>

definition full_append :: "action list" where
  "full_append = [WTick] @ append_now [1] @ [AStart [2]]"

theorem wal_append_completes_witness:
  "\<exists>s s'. run full_append (sys_init small_ring) = Some s \<and> run [ACheck, ACopy, WPop, AFree, ACheck, WWrite, ACopy, WFree, WPop] s = Some s' \<and>
     sys_apply s' = PIdle \<and> snd (List.last (sys_acked s')) = [2] \<and> (\<forall>e \<in> set (sys_acked s). length (snd e) \<le> 1)"
proof -
  let ?as = "[ACheck, ACopy, WPop, AFree, ACheck, WWrite, ACopy, WFree, WPop]"
  obtain s s' where s: "run full_append (sys_init small_ring) = Some s" "pc_data (sys_apply s) = Some [2]" "run ?as s = Some s'"
    "list_all (\<lambda>a. exec a s' = None) progress_actions" "sys_writer s = WDrain"
  proof -
    have "Option.bind (run full_append (sys_init small_ring)) (\<lambda>s. map_option (\<lambda>s'. (pc_data (sys_apply s),
      list_all (\<lambda>a. Option.is_none (exec a s')) progress_actions, sys_writer s)) (run ?as s)) = Some (Some [2], True, WDrain)" by code_simp
    then show thesis using that by (auto simp: bind_eq_Some_conv Option.is_none_def)
  qed
  have r: "reachable disciplined (sys_init small_ring) s"
    by (rule checked_run_reachable [OF s(1)]) code_simp
  have sub: "set ?as \<subseteq> set progress_actions" by (simp add: progress_actions_def)
  show ?thesis
    using wal_append_completes [OF small_ring_new _ r s(2,3) sub] s by (auto simp: lsn_new_at_def)
qed

end
