(* ===== verification/Wire.thy ===== *)
theory Wire
  imports Bytes
begin

text \<open>
  The wire protocol: frames (\<open>crates/beava-core/src/wire.rs\<close>) and the request parser of the
  TCP listener (\<open>crates/beava-runtime-core/src/tcp_listener.rs\<close>) with its two hand-written
  envelope scanners. A cursor into a buffer is the rest of the buffer behind it, and a slice
  between two cursors is what the second rest lacks of the first. The message texts of
  the JSON scanner's errors are not modelled; decoding a string with escapes by
  serde_json is the parameter \<open>unescape\<close>.

  The frames are a \<open>frame_codec\<close>; however the network cuts a stream into chunks, a
  connection decodes the frames that were sent. What the envelope scanners promise is in
  \<open>Envelope\<close>.
\<close>

section \<open>Opcodes\<close>

definition OP_PING :: u16 where "OP_PING = 0x0000"
definition OP_REGISTER :: u16 where "OP_REGISTER = 0x0001"
definition OP_PUSH :: u16 where "OP_PUSH = 0x0010"
definition OP_PUSH_SYNC :: u16 where "OP_PUSH_SYNC = 0x0011"
definition OP_PUSH_MANY :: u16 where "OP_PUSH_MANY = 0x0012"
definition OP_GET :: u16 where "OP_GET = 0x0020"
definition OP_MGET :: u16 where "OP_MGET = 0x0021"
definition OP_GET_MULTI :: u16 where "OP_GET_MULTI = 0x0022"
definition OP_GET_RESPONSE :: u16 where "OP_GET_RESPONSE = 0x0023"
definition OP_BATCH_GET :: u16 where "OP_BATCH_GET = 0x0024"
definition OP_SET :: u16 where "OP_SET = 0x0030"
definition OP_MSET :: u16 where "OP_MSET = 0x0031"
definition OP_RESET :: u16 where "OP_RESET = 0x0040"
definition OP_ERROR_RESPONSE :: u16 where "OP_ERROR_RESPONSE = 0xFFFF"
definition WIRE_CT_JSON :: u8 where "WIRE_CT_JSON = 0x01"
definition WIRE_CT_MSGPACK :: u8 where "WIRE_CT_MSGPACK = 0x02"

definition opcode_name :: "u16 \<Rightarrow> string option" where
  "opcode_name op = map_of
     [(OP_PING, ''ping''), (OP_REGISTER, ''register''), (OP_PUSH, ''push''), (OP_PUSH_SYNC, ''push_sync''), (OP_PUSH_MANY, ''push_many''),
      (OP_GET, ''get''), (OP_MGET, ''mget''), (OP_GET_MULTI, ''get_multi''), (OP_GET_RESPONSE, ''get_response''), (OP_BATCH_GET, ''batch_get''),
      (OP_SET, ''set''), (OP_MSET, ''mset''), (OP_RESET, ''reset''), (OP_ERROR_RESPONSE, ''error_response'')] op"

definition reserved_phase :: "u16 \<Rightarrow> string option" where
  "reserved_phase op =
     (if op = OP_PUSH_SYNC \<or> op = OP_PUSH_MANY \<or> op = OP_SET \<or> op = OP_MSET then Some ''Phase 12'' else None)"

section \<open>Frames\<close>

record Frame =
  fr_op :: u16
  fr_content_type :: u8
  fr_payload :: "u8 list"

definition LEN_PREFIX_BYTES :: nat where "LEN_PREFIX_BYTES = 4"
definition HEADER_AFTER_LEN_BYTES :: nat where "HEADER_AFTER_LEN_BYTES = 3"

datatype FrameError = TooLarge nat nat | LengthUnderflow nat

definition encode_frame :: "Frame \<Rightarrow> u8 list" where
  "encode_frame frame =
     to_be 4 (length (fr_payload frame) + HEADER_AFTER_LEN_BYTES) @ to_be 2 (unat (fr_op frame)) @ [fr_content_type frame] @ fr_payload frame"

definition decode_frame :: "nat \<Rightarrow> u8 list \<Rightarrow> FrameError + (Frame \<times> u8 list) option" where
  "decode_frame max_frame_bytes buf =
     (if length buf < LEN_PREFIX_BYTES then Inr None
      else
        let declared_len = from_be (take 4 buf);
            limit = min (max_frame_bytes + HEADER_AFTER_LEN_BYTES) (2 ^ 32 - 1) in
        if declared_len < HEADER_AFTER_LEN_BYTES then Inl (LengthUnderflow declared_len)
        else if limit < declared_len then Inl (TooLarge declared_len limit)
        else if length buf < LEN_PREFIX_BYTES + declared_len then Inr None
        else
          let b = drop LEN_PREFIX_BYTES buf in
          Inr (Some (\<lparr>fr_op = of_nat (from_be (take 2 b)), fr_content_type = b ! 2,
                      fr_payload = take (declared_len - HEADER_AFTER_LEN_BYTES) (drop 3 b)\<rparr>,
                     drop declared_len b)))"

section \<open>The MessagePack envelope\<close>

datatype MsgpackEnvelopeError = MpTruncated | EnvelopeShape | MpMissingField string | InvalidUtf8 | UnknownKey | DecodeError

text \<open>What follows a marker: that many bytes of a fixed size, or a length field of that many bytes, some bytes
  more and then the data, or a number of values given by the marker or by a length field.\<close>

datatype mp_layout =
    Skip nat
  | SkipCounted nat nat
  | Values nat
  | ValuesCounted nat nat
  | Reserved

definition mp_layout_of :: "u8 \<Rightarrow> mp_layout" where
  "mp_layout_of marker =
     (if marker \<le> 0x7f then Skip 0
      else if marker \<le> 0x8f then Values (2 * (unat marker mod 16))
      else if marker \<le> 0x9f then Values (unat marker mod 16)
      else if marker \<le> 0xbf then Skip (unat marker mod 32)
      else if marker = 0xc0 then Skip 0
      else if marker = 0xc1 then Reserved
      else if marker = 0xc2 \<or> marker = 0xc3 then Skip 0
      else if marker = 0xc4 then SkipCounted 1 0
      else if marker = 0xc5 then SkipCounted 2 0
      else if marker = 0xc6 then SkipCounted 4 0
      else if marker = 0xc7 then SkipCounted 1 1
      else if marker = 0xc8 then SkipCounted 2 1
      else if marker = 0xc9 then SkipCounted 4 1
      else if marker = 0xca then Skip 4
      else if marker = 0xcb then Skip 8
      else if marker = 0xcc then Skip 1
      else if marker = 0xcd then Skip 2
      else if marker = 0xce then Skip 4
      else if marker = 0xcf then Skip 8
      else if marker = 0xd0 then Skip 1
      else if marker = 0xd1 then Skip 2
      else if marker = 0xd2 then Skip 4
      else if marker = 0xd3 then Skip 8
      else if marker = 0xd4 then Skip 2
      else if marker = 0xd5 then Skip 3
      else if marker = 0xd6 then Skip 5
      else if marker = 0xd7 then Skip 9
      else if marker = 0xd8 then Skip 17
      else if marker = 0xd9 then SkipCounted 1 0
      else if marker = 0xda then SkipCounted 2 0
      else if marker = 0xdb then SkipCounted 4 0
      else if marker = 0xdc then ValuesCounted 2 1
      else if marker = 0xdd then ValuesCounted 4 1
      else if marker = 0xde then ValuesCounted 2 2
      else if marker = 0xdf then ValuesCounted 4 2
      else Skip 0)"

text \<open>One step behind a marker: the number of values that the container holds, and the rest.\<close>

definition mp_step :: "mp_layout \<Rightarrow> u8 list \<Rightarrow> MsgpackEnvelopeError + (nat \<times> u8 list)" where
  "mp_step l p =
     (case l of
        Skip n \<Rightarrow> if length p < n then Inl MpTruncated else Inr (0, drop n p)
      | SkipCounted k extra \<Rightarrow>
          if length p < k + extra then Inl MpTruncated
          else
            let len = from_be (take k p); q = drop (k + extra) p in
            if length q < len then Inl MpTruncated else Inr (0, drop len q)
      | Values n \<Rightarrow> Inr (n, p)
      | ValuesCounted k per \<Rightarrow> if length p < k then Inl MpTruncated else Inr (per * from_be (take k p), drop k p)
      | Reserved \<Rightarrow> Inl DecodeError)"

lemma mp_step_length: "mp_step l p = Inr (k, q) \<Longrightarrow> length q \<le> length p"
  by (auto simp: mp_step_def Let_def split: mp_layout.splits if_splits)

text \<open>The recursion of \<open>skip_msgpack_value\<close>, with the number of values that its pending loops still
  have to skip; \<open>skip_msgpack_values_add\<close> of \<open>Envelope\<close> gives the recursive equations back.\<close>

function skip_msgpack_values :: "nat \<Rightarrow> u8 list \<Rightarrow> MsgpackEnvelopeError + u8 list" where
  "skip_msgpack_values 0 p = Inr p"
| "skip_msgpack_values (Suc n) [] = Inl MpTruncated"
| "skip_msgpack_values (Suc n) (marker # p) =
     (case mp_step (mp_layout_of marker) p of
        Inl e \<Rightarrow> Inl e
      | Inr (k, q) \<Rightarrow> skip_msgpack_values (k + n) q)"
  by pat_completeness auto
termination
  by (relation "measure (\<lambda>(n, p). length p)") (auto dest: mp_step_length)

definition skip_msgpack_value :: "u8 list \<Rightarrow> MsgpackEnvelopeError + u8 list" where
  "skip_msgpack_value p = skip_msgpack_values 1 p"

text \<open>A string header of \<open>k\<close> length bytes.\<close>

definition read_str_counted :: "nat \<Rightarrow> u8 list \<Rightarrow> MsgpackEnvelopeError + (nat \<times> u8 list)" where
  "read_str_counted k p = (if length p < k then Inl MpTruncated else Inr (from_be (take k p), drop k p))"

definition read_msgpack_str :: "u8 list \<Rightarrow> MsgpackEnvelopeError + (u8 list \<times> u8 list)" where
  "read_msgpack_str p0 =
     (case p0 of
        [] \<Rightarrow> Inl MpTruncated
      | marker # p \<Rightarrow>
          (case (if 0xa0 \<le> marker \<and> marker \<le> 0xbf then Inr (unat marker mod 32, p)
                 else if marker = 0xd9 then read_str_counted 1 p
                 else if marker = 0xda then read_str_counted 2 p
                 else if marker = 0xdb then read_str_counted 4 p
                 else Inl EnvelopeShape) of
             Inl e \<Rightarrow> Inl e
           | Inr (len, q) \<Rightarrow> if length q < len then Inl MpTruncated else Inr (take len q, drop len q)))"

text \<open>The slots for the two fields, and one round of the loop over the entries.\<close>

type_synonym mp_fields = "string option \<times> u8 list option"

definition mp_entry :: "u8 list \<times> mp_fields \<Rightarrow> MsgpackEnvelopeError + (u8 list \<times> mp_fields)" where
  "mp_entry s =
     (let (p, event_name, body) = s in
      case read_msgpack_str p of
        Inl e \<Rightarrow> Inl e
      | Inr (key, q) \<Rightarrow>
          if key = str_bytes ''event'' then
            (case read_msgpack_str q of
               Inl e \<Rightarrow> Inl e
             | Inr (event_bytes, r) \<Rightarrow> if utf8_valid event_bytes then Inr (r, Some (bytes_str event_bytes), body) else Inl InvalidUtf8)
          else if key = str_bytes ''body'' then
            (case skip_msgpack_value q of
               Inl e \<Rightarrow> Inl e
             | Inr r \<Rightarrow> Inr (r, event_name, Some (take (length q - length r) q)))
          else Inl UnknownKey)"

definition parse_msgpack_envelope :: "u8 list \<Rightarrow> MsgpackEnvelopeError + (string \<times> u8 list)" where
  "parse_msgpack_envelope payload =
     (case payload of
        [] \<Rightarrow> Inl MpTruncated
      | first # p \<Rightarrow>
          (case (if first = 0x82 then Some p
                 else if first = 0xde \<and> length payload \<ge> 3 \<and> from_be (take 2 p) = 2 then Some (drop 2 p)
                 else if first = 0xdf \<and> length payload \<ge> 5 \<and> from_be (take 4 p) = 2 then Some (drop 4 p)
                 else None) of
             None \<Rightarrow> Inl EnvelopeShape
           | Some q \<Rightarrow>
               (case mp_entry (q, None, None) of
                  Inl e \<Rightarrow> Inl e
                | Inr s \<Rightarrow>
                    (case mp_entry s of
                       Inl e \<Rightarrow> Inl e
                     | Inr (_, None, _) \<Rightarrow> Inl (MpMissingField ''event'')
                     | Inr (_, Some _, None) \<Rightarrow> Inl (MpMissingField ''body'')
                     | Inr (_, Some event_name, Some body) \<Rightarrow> Inr (event_name, body)))))"

section \<open>The JSON envelope\<close>

text \<open>The texts of the decoding errors are left out.\<close>

datatype JsonEnvelopeError = JsonDecode | JsonMissingField string

definition byte :: "char \<Rightarrow> u8" where
  "byte c = of_nat (of_char c)"

definition is_ws :: "u8 \<Rightarrow> bool" where
  "is_ws b \<longleftrightarrow> b = 32 \<or> b = 9 \<or> b = 10 \<or> b = 13"

definition skip_ws :: "u8 list \<Rightarrow> u8 list" where
  "skip_ws p = dropWhile is_ws p"

text \<open>The content of a string up to the closing quote, and the rest from the quote on.\<close>

fun scan_string_end :: "u8 list \<Rightarrow> JsonEnvelopeError + (u8 list \<times> u8 list)" where
  "scan_string_end [] = Inl JsonDecode"
| "scan_string_end (b # p) =
     (if b = 34 then Inr ([], b # p)
      else if b = 92 then
        (case p of
           [] \<Rightarrow> Inl JsonDecode
         | c # q \<Rightarrow> map_sum id (\<lambda>(s, r). (b # c # s, r)) (scan_string_end q))
      else map_sum id (\<lambda>(s, r). (b # s, r)) (scan_string_end p))"

fun scan_balanced :: "u8 \<Rightarrow> u8 \<Rightarrow> int \<Rightarrow> bool \<Rightarrow> u8 list \<Rightarrow> JsonEnvelopeError + u8 list" where
  "scan_balanced opn cls depth in_str [] = Inl JsonDecode"
| "scan_balanced opn cls depth in_str (b # p) =
     (if in_str then
        (if b = 34 then scan_balanced opn cls depth False p
         else if b = 92 then (case p of [] \<Rightarrow> Inl JsonDecode | _ # q \<Rightarrow> scan_balanced opn cls depth True q)
         else scan_balanced opn cls depth True p)
      else if b = 34 then scan_balanced opn cls depth True p
      else if b = opn then scan_balanced opn cls (depth + 1) False p
      else if b = cls then (if depth - 1 = 0 then Inr p else scan_balanced opn cls (depth - 1) False p)
      else scan_balanced opn cls depth False p)"

definition is_alpha :: "u8 \<Rightarrow> bool" where
  "is_alpha b \<longleftrightarrow> 65 \<le> b \<and> b \<le> 90 \<or> 97 \<le> b \<and> b \<le> 122"

definition is_digit :: "u8 \<Rightarrow> bool" where
  "is_digit b \<longleftrightarrow> 48 \<le> b \<and> b \<le> 57"

definition is_num_byte :: "u8 \<Rightarrow> bool" where
  "is_num_byte b \<longleftrightarrow> is_digit b \<or> b = 45 \<or> b = 43 \<or> b = 46 \<or> b = 101 \<or> b = 69"

definition scan_value_end :: "u8 list \<Rightarrow> JsonEnvelopeError + u8 list" where
  "scan_value_end p =
     (case p of
        [] \<Rightarrow> Inl JsonDecode
      | b # q \<Rightarrow>
          if b = 123 then scan_balanced 123 125 0 False p
          else if b = 91 then scan_balanced 91 93 0 False p
          else if b = 34 then map_sum id (\<lambda>(_, r). drop 1 r) (scan_string_end q)
          else if b = 116 \<or> b = 102 \<or> b = 110 then Inr (dropWhile is_alpha p)
          else if b = 45 \<or> is_digit b then Inr (dropWhile is_num_byte p)
          else Inl JsonDecode)"

definition decode_json_string_fragment :: "(u8 list \<Rightarrow> string option) \<Rightarrow> u8 list \<Rightarrow> JsonEnvelopeError + string" where
  "decode_json_string_fragment unescape raw =
     (if \<not> utf8_valid raw then Inl JsonDecode
      else if 92 \<notin> set raw then Inr (bytes_str raw)
      else case unescape ([34] @ raw @ [34]) of None \<Rightarrow> Inl JsonDecode | Some s \<Rightarrow> Inr s)"

text \<open>The value behind a key: what is stored, and the rest.\<close>

definition json_field ::
    "(u8 list \<Rightarrow> string option) \<Rightarrow> u8 list \<Rightarrow> mp_fields \<Rightarrow> u8 list \<Rightarrow> JsonEnvelopeError + (mp_fields \<times> u8 list)" where
  "json_field unescape key slots p =
     (if key = str_bytes ''event'' then
        (case p of
           [] \<Rightarrow> Inl JsonDecode
         | b # q \<Rightarrow>
             if b \<noteq> 34 then Inl JsonDecode
             else case scan_string_end q of
                    Inl e \<Rightarrow> Inl e
                  | Inr (raw, r) \<Rightarrow> map_sum id (\<lambda>name. ((Some name, snd slots), drop 1 r)) (decode_json_string_fragment unescape raw))
      else
        case scan_value_end p of
          Inl e \<Rightarrow> Inl e
        | Inr r \<Rightarrow> Inr (if key = str_bytes ''body'' then (fst slots, Some (take (length p - length r) p)) else slots, r))"

lemma scan_string_end_split: "scan_string_end p = Inr (s, r) \<Longrightarrow> p = s @ r \<and> r \<noteq> []"
proof (induction p arbitrary: s r rule: scan_string_end.induct)
  case (2 b p)
  consider "b = 34" | c q where "b \<noteq> 34" "b = 92" "p = c # q" | "b \<noteq> 34" "b = 92" "p = []" | "b \<noteq> 34" "b \<noteq> 92" by (cases p) auto
  then show ?case
  proof cases
    case (2 c q)
    then obtain s' where "scan_string_end q = Inr (s', r)" "s = b # c # s'" using "2.prems" by (cases "scan_string_end q") auto
    then show ?thesis using "2.IH"(1) [OF 2(1,2,3)] 2 by auto
  next
    case 4
    then obtain s' where "scan_string_end p = Inr (s', r)" "s = b # s'" using "2.prems" by (cases "scan_string_end p") auto
    then show ?thesis using "2.IH"(2) [OF 4] by auto
  qed (use "2.prems" in auto)
qed simp

lemma scan_balanced_shorter: "scan_balanced opn cls depth in_str p = Inr r \<Longrightarrow> length r < length p"
proof (induction "length p" arbitrary: depth in_str p rule: less_induct)
  case less
  note IH = less.hyps
  obtain b q where p: "p = b # q" using less.prems by (cases p) auto
  have q: "scan_balanced opn cls d i q = Inr r \<Longrightarrow> length r < length p" for d i using IH [of q d i] by (simp add: p)
  have q': "scan_balanced opn cls d i q' = Inr r \<Longrightarrow> length r < length p" if "q = c # q'" for d i c q' using IH [of q' d i] that by (simp add: p)
  show ?case
  proof (cases "in_str \<and> b = 92")
    case True
    then show ?thesis using less.prems q' by (cases q) (simp_all add: p)
  next
    case False
    then show ?thesis using less.prems q unfolding p by (cases in_str) (simp_all split: if_splits)
  qed
qed

lemma scan_value_end_shorter: "scan_value_end p = Inr r \<Longrightarrow> length r < length p"
proof -
  assume r: "scan_value_end p = Inr r"
  then obtain b q where p: "p = b # q" by (cases p) (auto simp: scan_value_end_def)
  have "length (dropWhile P p) < length p" if "P b" for P using that length_dropWhile_le [of P q] by (simp add: p)
  moreover have "is_alpha 116" "is_alpha 102" "is_alpha 110" by (simp_all add: is_alpha_def)
  moreover have "is_num_byte b" if "b = 45 \<or> is_digit b" using that by (auto simp: is_num_byte_def)
  moreover have "length (drop 1 t) < length p" if "scan_string_end q = Inr (s, t)" for s t
    using scan_string_end_split [OF that] by (simp add: p)
  moreover have "scan_balanced opn cls 0 False p = Inr r \<Longrightarrow> length r < length p" for opn cls by (rule scan_balanced_shorter)
  ultimately show ?thesis using r unfolding scan_value_end_def p
    by (cases "scan_string_end q") (auto simp del: scan_balanced.simps split: if_splits)
qed

lemma json_field_shorter: "json_field unescape key slots p = Inr (slots', r) \<Longrightarrow> length r < length p"
proof -
  assume r: "json_field unescape key slots p = Inr (slots', r)"
  show ?thesis
  proof (cases "key = str_bytes ''event''")
    case True
    then obtain q where p: "p = 34 # q" using r by (auto simp: json_field_def split: list.splits if_splits)
    obtain raw t where t: "scan_string_end q = Inr (raw, t)" using r True by (cases "scan_string_end q") (auto simp: json_field_def p)
    then have "r = drop 1 t" using r True by (cases "decode_json_string_fragment unescape raw") (auto simp: json_field_def p)
    then show ?thesis using scan_string_end_split [OF t] by (simp add: p)
  next
    case False
    then show ?thesis using r scan_value_end_shorter by (auto simp: json_field_def split: sum.splits if_splits)
  qed
qed

lemma skip_ws_le: "length (skip_ws p) \<le> length p"
  by (simp add: skip_ws_def length_dropWhile_le)

lemma json_round_shorter:
  assumes "skip_ws p = b # q" and "scan_string_end q = Inr (key, r)" and "skip_ws (drop 1 r) = c # r2"
    and "json_field unescape key slots (skip_ws r2) = Inr (slots', r3)" and "skip_ws r3 = d # r4"
  shows "length r4 < length p"
proof -
  have "length (b # q) \<le> length p" "length (c # r2) \<le> length (drop 1 r)" "length (skip_ws r2) \<le> length r2" "length (d # r4) \<le> length r3"
    using skip_ws_le [of p] skip_ws_le [of "drop 1 r"] skip_ws_le [of r2] skip_ws_le [of r3] assms by simp_all
  moreover have "length r \<le> length q" using scan_string_end_split [OF assms(2)] by simp
  moreover have "length r3 < length (skip_ws r2)" by (rule json_field_shorter [OF assms(4)])
  ultimately show ?thesis by simp
qed

text \<open>The loop over the entries of the object, from behind the opening brace.\<close>

function json_entries :: "(u8 list \<Rightarrow> string option) \<Rightarrow> mp_fields \<Rightarrow> u8 list \<Rightarrow> JsonEnvelopeError + mp_fields" where
  "json_entries unescape slots p =
     (case skip_ws p of
        [] \<Rightarrow> Inl JsonDecode
      | b # q \<Rightarrow>
          if b = 125 then Inr slots
          else if b \<noteq> 34 then Inl JsonDecode
          else case scan_string_end q of
                 Inl e \<Rightarrow> Inl e
               | Inr (key, r) \<Rightarrow>
                   (case skip_ws (drop 1 r) of
                      [] \<Rightarrow> Inl JsonDecode
                    | c # r2 \<Rightarrow>
                        if c \<noteq> 58 then Inl JsonDecode
                        else case json_field unescape key slots (skip_ws r2) of
                               Inl e \<Rightarrow> Inl e
                             | Inr (slots', r3) \<Rightarrow>
                                 (case skip_ws r3 of
                                    [] \<Rightarrow> Inl JsonDecode
                                  | d # r4 \<Rightarrow>
                                      if d = 44 then json_entries unescape slots' r4
                                      else if d = 125 then Inr slots'
                                      else Inl JsonDecode)))"
  by pat_completeness auto
termination
  by (relation "measure (\<lambda>(u, s, p). length p)") (auto dest: json_round_shorter)

declare json_entries.simps [simp del]

definition parse_json_envelope :: "(u8 list \<Rightarrow> string option) \<Rightarrow> u8 list \<Rightarrow> JsonEnvelopeError + (string \<times> u8 list)" where
  "parse_json_envelope unescape payload =
     (case skip_ws payload of
        [] \<Rightarrow> Inl JsonDecode
      | b # p \<Rightarrow>
          if b \<noteq> 123 then Inl JsonDecode
          else case json_entries unescape (None, None) p of
                 Inl e \<Rightarrow> Inl e
               | Inr (None, _) \<Rightarrow> Inl (JsonMissingField ''event'')
               | Inr (Some _, None) \<Rightarrow> Inl (JsonMissingField ''body'')
               | Inr (Some event_name, Some body) \<Rightarrow> Inr (event_name, body))"

section \<open>Requests\<close>

text \<open>The requests of the TCP listener. A parse error carries its cause.\<close>

datatype request_reason = UnsupportedContentType u8 | UnsupportedForRegister u8 | JsonEnvelope JsonEnvelopeError | MsgpackEnvelope MsgpackEnvelopeError

datatype WireRequest =
    WPing
  | WRegister "u8 list"
  | WTcpPush string "u8 list" u8
  | WTcpGet "u8 list" u8
  | WTcpMGet "u8 list" u8
  | WTcpGetMulti "u8 list" u8
  | WTcpBatchGet "u8 list" u8
  | WTcpReset "u8 list" u8
  | WParseError request_reason
  | WUnknown u16

definition body_request :: "(u8 list \<Rightarrow> u8 \<Rightarrow> WireRequest) \<Rightarrow> Frame \<Rightarrow> WireRequest" where
  "body_request mk frame =
     (if fr_content_type frame = WIRE_CT_JSON \<or> fr_content_type frame = WIRE_CT_MSGPACK then mk (fr_payload frame) (fr_content_type frame)
      else WParseError (UnsupportedContentType (fr_content_type frame)))"

definition frame_request :: "(u8 list \<Rightarrow> string option) \<Rightarrow> Frame \<Rightarrow> WireRequest" where
  "frame_request unescape frame =
     (let op = fr_op frame; ct = fr_content_type frame; payload = fr_payload frame in
      if op = OP_PING then WPing
      else if op = OP_REGISTER then (if ct = WIRE_CT_JSON then WRegister payload else WParseError (UnsupportedForRegister ct))
      else if op = OP_PUSH then
        (if ct = WIRE_CT_JSON then
           (case parse_json_envelope unescape payload of
              Inr (event_name, body) \<Rightarrow> WTcpPush event_name body WIRE_CT_JSON
            | Inl e \<Rightarrow> WParseError (JsonEnvelope e))
         else if ct = WIRE_CT_MSGPACK then
           (case parse_msgpack_envelope payload of
              Inr (event_name, body) \<Rightarrow> WTcpPush event_name body WIRE_CT_MSGPACK
            | Inl e \<Rightarrow> WParseError (MsgpackEnvelope e))
         else WParseError (UnsupportedContentType ct))
      else if op = OP_GET then body_request WTcpGet frame
      else if op = OP_MGET then body_request WTcpMGet frame
      else if op = OP_GET_MULTI then body_request WTcpGetMulti frame
      else if op = OP_BATCH_GET then body_request WTcpBatchGet frame
      else if op = OP_RESET then body_request WTcpReset frame
      else WUnknown op)"

definition parse_wire_request :: "(u8 list \<Rightarrow> string option) \<Rightarrow> nat \<Rightarrow> u8 list \<Rightarrow> FrameError + (WireRequest \<times> u8 list) option" where
  "parse_wire_request unescape max_frame_bytes buf =
     (case decode_frame max_frame_bytes buf of
        Inl e \<Rightarrow> Inl e
      | Inr None \<Rightarrow> Inr None
      | Inr (Some (frame, rest)) \<Rightarrow> Inr (Some (frame_request unescape frame, rest)))"

section \<open>The worker's read loop\<close>

text \<open>A connection of an I/O worker: the bytes read and not yet parsed, and whether it is closed.
  The row that the worker parses ahead of the apply thread is the parameter \<open>to_row\<close>.\<close>

record WorkerClient =
  read_buf :: "u8 list"
  cl_closed :: bool

datatype ParseErrorKind = TcpFrameTooLarge nat nat | TcpFrame

datatype 'row RingItem = Request WireRequest "'row option" | RParseError ParseErrorKind

definition body_to_row :: "(u8 \<Rightarrow> u8 list \<Rightarrow> 'row option) \<Rightarrow> WireRequest \<Rightarrow> 'row option" where
  "body_to_row to_row req = (case req of WTcpPush _ body body_format \<Rightarrow> to_row body_format body | _ \<Rightarrow> None)"

definition parse_error_kind :: "FrameError \<Rightarrow> ParseErrorKind" where
  "parse_error_kind e = (case e of TooLarge declared_len limit \<Rightarrow> TcpFrameTooLarge declared_len limit | _ \<Rightarrow> TcpFrame)"

lemma decode_frame_shorter: "decode_frame m buf = Inr (Some (f, rest)) \<Longrightarrow> length rest < length buf"
  by (auto simp: decode_frame_def LEN_PREFIX_BYTES_def HEADER_AFTER_LEN_BYTES_def Let_def split: if_splits)

lemma parse_wire_request_shorter: "parse_wire_request u m buf = Inr (Some (req, rest)) \<Longrightarrow> length rest < length buf"
  by (auto simp: parse_wire_request_def dest: decode_frame_shorter split: sum.splits option.splits)

text \<open>The items for the apply thread, the bytes left, and whether a protocol error closed the connection.\<close>

function parse_and_push ::
    "(u8 \<Rightarrow> u8 list \<Rightarrow> 'row option) \<Rightarrow> (u8 list \<Rightarrow> string option) \<Rightarrow> nat \<Rightarrow> u8 list \<Rightarrow> 'row RingItem list \<times> u8 list \<times> bool" where
  "parse_and_push to_row unescape max_frame_bytes buf =
     (case parse_wire_request unescape max_frame_bytes buf of
        Inr (Some (req, rest)) \<Rightarrow>
          (let (items, left, closed) = parse_and_push to_row unescape max_frame_bytes rest
           in (Request req (body_to_row to_row req) # items, left, closed))
      | Inr None \<Rightarrow> ([], buf, False)
      | Inl e \<Rightarrow> ([RParseError (parse_error_kind e)], buf, True))"
  by pat_completeness auto
termination
  by (relation "measure (\<lambda>(t, u, m, b). length b)") (auto dest: parse_wire_request_shorter)

declare parse_and_push.simps [simp del]

text \<open>A readable event that delivers a chunk; an empty read is the end of the connection.\<close>

definition worker_readable ::
    "(u8 \<Rightarrow> u8 list \<Rightarrow> 'row option) \<Rightarrow> (u8 list \<Rightarrow> string option) \<Rightarrow> nat \<Rightarrow> u8 list \<Rightarrow> 'row RingItem list \<times> WorkerClient \<Rightarrow> 'row RingItem list \<times> WorkerClient" where
  "worker_readable to_row unescape max_frame_bytes chunk s =
     (let (sent, client) = s in
      if cl_closed client then s
      else if chunk = [] then (sent, client\<lparr>cl_closed := True\<rparr>)
      else
        let (items, left, closed) = parse_and_push to_row unescape max_frame_bytes (read_buf client @ chunk) in
        (sent @ items, client\<lparr>read_buf := left, cl_closed := closed\<rparr>))"

section \<open>Frames are a codec\<close>

definition frame_ok :: "nat \<Rightarrow> Frame \<Rightarrow> bool" where
  "frame_ok max_frame_bytes f \<longleftrightarrow> length (fr_payload f) \<le> max_frame_bytes \<and> length (fr_payload f) + 3 < 2 ^ 32"

lemmas frame_sizes = LEN_PREFIX_BYTES_def HEADER_AFTER_LEN_BYTES_def

lemma length_encode_frame: "length (encode_frame f) = 7 + length (fr_payload f)"
  by (simp add: encode_frame_def)

lemma decode_encoded_frame:
  assumes "frame_ok m f"
  shows "decode_frame m (encode_frame f @ rest) = Inr (Some (f, rest))"
proof -
  let ?n = "length (fr_payload f) + 3"
  let ?b = "to_be 2 (unat (fr_op f)) @ [fr_content_type f] @ fr_payload f @ rest"
  have enc: "encode_frame f @ rest = to_be 4 ?n @ ?b" by (simp add: encode_frame_def frame_sizes)
  have len: "from_be (take 4 (to_be 4 ?n @ ?b)) = ?n" using assms by (simp add: frame_ok_def)
  have b: "drop 4 (to_be 4 ?n @ ?b) = ?b" "take 2 ?b = to_be 2 (unat (fr_op f))" "?b ! 2 = fr_content_type f"
    "take (length (fr_payload f)) (drop 3 ?b) = fr_payload f" "drop ?n ?b = rest" "\<not> length (to_be 4 ?n @ ?b) < 4" "\<not> length (to_be 4 ?n @ ?b) < 4 + ?n"
    by (simp_all add: nth_append)
  have lim: "\<not> min (m + 3) (2 ^ 32 - 1) < ?n" "\<not> ?n < 3" "?n - 3 = length (fr_payload f)" using assms by (auto simp: frame_ok_def min_def)
  show ?thesis unfolding enc decode_frame_def frame_sizes Let_def len b if_not_P [OF lim(1)] if_not_P [OF lim(2)] lim(3) by simp
qed

lemma decode_torn_frame:
  assumes "frame_ok m f" and "encode_frame f = p @ q" and "q \<noteq> []"
  shows "decode_frame m p = Inr None"
proof (cases "length p < 4")
  case False
  let ?n = "length (fr_payload f) + 3"
  have "take 4 (p @ q) = to_be 4 ?n" using assms(2) [symmetric] by (simp add: encode_frame_def frame_sizes)
  with False have "take 4 p = to_be 4 ?n" by simp
  then have len: "from_be (take 4 p) = ?n" using assms(1) by (simp add: frame_ok_def)
  have "length p < 4 + ?n" using assms(2,3) length_encode_frame [of f] by (cases q) auto
  moreover have "\<not> min (m + 3) (2 ^ 32 - 1) < ?n" using assms(1) by (auto simp: frame_ok_def min_def)
  ultimately show ?thesis using False by (simp add: decode_frame_def frame_sizes Let_def len)
qed (simp add: decode_frame_def frame_sizes)

text \<open>The frames of a buffer, collected.\<close>

function read_frames :: "nat \<Rightarrow> u8 list \<Rightarrow> FrameError + Frame list" where
  "read_frames m buf =
     (case decode_frame m buf of Inl e \<Rightarrow> Inl e | Inr None \<Rightarrow> Inr [] | Inr (Some (f, rest)) \<Rightarrow> map_sum id ((#) f) (read_frames m rest))"
  by pat_completeness auto
termination
  by (relation "measure (\<lambda>(m, b). length b)") (auto dest: decode_frame_shorter)

declare read_frames.simps [simp del]

interpretation frames: frame_codec encode_frame
    "\<lambda>_ bs. map_sum id (map_option (\<lambda>(f, rest). (f, (), rest))) (decode_frame m bs)" "\<lambda>_ :: unit. read_frames m" "frame_ok m" for m
proof (unfold_locales, goal_cases)
  case (1 r s rest)
  then show ?case by (simp add: decode_encoded_frame)
next
  case (2 r p q s)
  then show ?case by (simp add: decode_torn_frame)
next
  case (3 s)
  then show ?case by (simp add: decode_frame_def frame_sizes)
next
  case (4 s bs)
  then show ?case by (simp add: read_frames.simps [of m bs] split: sum.split option.split)
qed

section \<open>Chunks\<close>

context frame_codec
begin

text \<open>Wherever a stream is cut, the front is complete records and a torn one, and the torn one goes
  on with the rest.\<close>

lemma stream_split:
  assumes "\<forall>r \<in> set rs. ok r" and "torn t" and "bs @ v = concat (map enc rs) @ t"
  shows "\<exists>k u. k \<le> length rs \<and> bs = concat (map enc (take k rs)) @ u \<and> torn u \<and> u @ v = concat (map enc (drop k rs)) @ t"
  using assms
proof (induction rs arbitrary: bs)
  case Nil
  then have "t = bs @ v" by simp
  then have "torn bs" using \<open>torn t\<close> unfolding torn_def by auto
  with Nil show ?case by simp
next
  case (Cons r rs)
  show ?case
  proof (cases "length bs < length (enc r)")
    case True
    then obtain q where q: "enc r = bs @ q" "q \<noteq> []"
      using Cons.prems(3) by (metis append_eq_append_conv_if append_take_drop_id concat.simps(2) drop_eq_Nil2 append_assoc leD list.simps(9) order_less_imp_le)
    then have "torn bs" using Cons.prems(1) unfolding torn_def by auto
    then show ?thesis using Cons.prems(3) by (intro exI [of _ 0] exI [of _ bs]) simp
  next
    case False
    define cs where "cs = drop (length (enc r)) bs"
    have "take (length (enc r)) (bs @ v) = enc r" using Cons.prems(3) by simp
    with False have "take (length (enc r)) bs = enc r" by simp
    then have bs: "bs = enc r @ cs" by (metis append_take_drop_id cs_def)
    with Cons.prems(3) have "cs @ v = concat (map enc rs) @ t" by simp
    with Cons.IH [of cs] Cons.prems(1,2) obtain k u where "k \<le> length rs" "cs = concat (map enc (take k rs)) @ u" "torn u"
      "u @ v = concat (map enc (drop k rs)) @ t" by auto
    then show ?thesis using bs by (intro exI [of _ "Suc k"] exI [of _ u]) simp
  qed
qed

end

abbreviation ring_item :: "(u8 \<Rightarrow> u8 list \<Rightarrow> 'row option) \<Rightarrow> (u8 list \<Rightarrow> string option) \<Rightarrow> Frame \<Rightarrow> 'row RingItem" where
  "ring_item to_row unescape f \<equiv> Request (frame_request unescape f) (body_to_row to_row (frame_request unescape f))"

lemma parse_and_push_stream:
  assumes "\<forall>f \<in> set fs. frame_ok m f" and "frames.torn m t"
  shows "parse_and_push to_row unescape m (concat (map encode_frame fs) @ t) = (map (ring_item to_row unescape) fs, t, False)"
  using assms
proof (induction fs)
  case Nil
  have "decode_frame m t = Inr None"
    using Nil.prems(2) decode_torn_frame by (auto simp: frames.torn_def) (simp add: decode_frame_def frame_sizes)
  then show ?case by (simp add: parse_and_push.simps [of to_row unescape m t] parse_wire_request_def)
next
  case (Cons f fs)
  then show ?case
    by (simp add: parse_and_push.simps [of to_row unescape m "encode_frame f @ concat (map encode_frame fs) @ t"] parse_wire_request_def decode_encoded_frame)
qed

lemma read_chunks:
  assumes "\<forall>f \<in> set fs. frame_ok m f" and "frames.torn m t" and "\<forall>c \<in> set chunks. c \<noteq> []"
    and "buf @ concat chunks = concat (map encode_frame fs) @ t" and "frames.torn m buf"
  shows "fold (worker_readable to_row unescape m) chunks (sent, \<lparr>read_buf = buf, cl_closed = False\<rparr>) =
    (sent @ map (ring_item to_row unescape) fs, \<lparr>read_buf = t, cl_closed = False\<rparr>)"
  using assms
proof (induction chunks arbitrary: buf fs sent)
  case Nil
  have "parse_and_push to_row unescape m buf = ([] :: 'a RingItem list, buf, False)" for to_row
    using parse_and_push_stream [of "[]" m buf to_row unescape] Nil.prems(5) by simp
  moreover have "parse_and_push to_row unescape m buf = (map (ring_item to_row unescape) fs, t, False)" for to_row :: "u8 \<Rightarrow> u8 list \<Rightarrow> 'a option"
    using parse_and_push_stream [OF Nil.prems(1,2), of to_row unescape] Nil.prems(4) by simp
  ultimately show ?case by simp
next
  case (Cons c chunks)
  have "(buf @ c) @ concat chunks = concat (map encode_frame fs) @ t" using Cons.prems(4) by simp
  from frames.stream_split [OF Cons.prems(1,2) this] obtain k u where k: "k \<le> length fs" "buf @ c = concat (map encode_frame (take k fs)) @ u"
    "frames.torn m u" "u @ concat chunks = concat (map encode_frame (drop k fs)) @ t" by blast
  have ok: "\<forall>f \<in> set (take k fs). frame_ok m f" "\<forall>f \<in> set (drop k fs). frame_ok m f" using Cons.prems(1) by (meson in_set_takeD in_set_dropD)+
  have step: "worker_readable to_row unescape m c (sent, \<lparr>read_buf = buf, cl_closed = False\<rparr>) =
      (sent @ map (ring_item to_row unescape) (take k fs), \<lparr>read_buf = u, cl_closed = False\<rparr>)"
    using Cons.prems(3) by (simp add: worker_readable_def k(2) parse_and_push_stream [OF ok(1) k(3)])
  have "map (ring_item to_row unescape) fs = map (ring_item to_row unescape) (take k fs) @ map (ring_item to_row unescape) (drop k fs)"
    by (metis append_take_drop_id map_append)
  then show ?case using Cons.IH [OF ok(2) Cons.prems(2) _ k(4,3)] Cons.prems(3) by (simp add: step)
qed

section \<open>Properties of frames\<close>

text \<open>C9. However the network cuts a stream of frames into chunks, a connection hands the apply thread
  exactly the requests of the frames that have arrived in full, in order, keeps the bytes
  of a frame that has not, and stays open. Encoding and decoding a frame is the identity.\<close>

theorem frames_survive_chunking:
  assumes "\<forall>f \<in> set fs. frame_ok m f" and "\<forall>c \<in> set chunks. c \<noteq> []" and "concat chunks = concat (map encode_frame fs) @ t"
    and "t = [] \<or> (\<exists>f q. frame_ok m f \<and> encode_frame f = t @ q \<and> q \<noteq> [])"
  shows "fold (worker_readable to_row unescape m) chunks ([], \<lparr>read_buf = [], cl_closed = False\<rparr>) =
      (map (ring_item to_row unescape) fs, \<lparr>read_buf = t, cl_closed = False\<rparr>) \<and>
    (\<forall>f \<in> set fs. \<forall>rest. decode_frame m (encode_frame f @ rest) = Inr (Some (f, rest)))"
  using read_chunks [OF assms(1) _ assms(2), of t "[]" to_row unescape "[]"] assms(1,3,4) decode_encoded_frame
  by (simp add: frames.torn_def)

theorem frames_survive_chunking_witness:
  "fold (worker_readable (\<lambda>_ _. None :: unit option) (\<lambda>_. None) 100) [[0, 0], [0, 3, 0], [0, 1, 0, 0]] ([], \<lparr>read_buf = [], cl_closed = False\<rparr>) =
     ([Request WPing None], \<lparr>read_buf = [0, 0], cl_closed = False\<rparr>)"
proof -
  let ?f = "\<lparr>fr_op = OP_PING, fr_content_type = 1, fr_payload = []\<rparr>"
  have enc: "encode_frame ?f = [0, 0, 0, 3, 0, 0, 1]" by code_simp
  have t: "\<exists>f q. frame_ok 100 f \<and> encode_frame f = [0, 0] @ q \<and> q \<noteq> []"
    using enc by (intro exI [of _ ?f] exI [of _ "[0, 3, 0, 0, 1]"]) (simp add: frame_ok_def)
  have "fold (worker_readable (\<lambda>_ _. None :: unit option) (\<lambda>_. None) 100) [[0, 0], [0, 3, 0], [0, 1, 0, 0]] ([], \<lparr>read_buf = [], cl_closed = False\<rparr>) =
     (map (ring_item (\<lambda>_ _. None) (\<lambda>_. None)) [?f], \<lparr>read_buf = [0, 0], cl_closed = False\<rparr>)"
    using frames_survive_chunking [of "[?f]" 100 "[[0, 0], [0, 3, 0], [0, 1, 0, 0]]" "[0, 0]" "\<lambda>_ _. None :: unit option" "\<lambda>_. None"] enc t
    by (simp add: frame_ok_def)
  moreover have "frame_request (\<lambda>_. None) ?f = WPing" by (simp add: frame_request_def Let_def)
  ultimately show ?thesis by (simp add: body_to_row_def)
qed

end
