(* ===== verification/Envelope.thy ===== *)
theory Envelope
  imports Wire
begin

text \<open>
  What the two envelope scanners of \<open>Wire\<close> promise. MessagePack values are the datatype
  \<open>mp_value\<close> with the encoder of the format's specification, JSON texts an inductive
  predicate with white space. The scanners find the end of every value, so the body
  handed to the apply thread is exactly the bytes that the client sent.
\<close>

section \<open>MessagePack values\<close>

lemma skip_msgpack_values_add:
  "skip_msgpack_values (m + n) p = (case skip_msgpack_values m p of Inl e \<Rightarrow> Inl e | Inr q \<Rightarrow> skip_msgpack_values n q)"
proof (induction "length p" arbitrary: m p rule: less_induct)
  case less
  show ?case
  proof (cases m; cases p)
    fix m' marker q
    assume mp: "m = Suc m'" "p = marker # q"
    have "skip_msgpack_values (k + m' + n) r = (case skip_msgpack_values (k + m') r of Inl e \<Rightarrow> Inl e | Inr q \<Rightarrow> skip_msgpack_values n q)"
      if "mp_step (mp_layout_of marker) q = Inr (k, r)" for k r
      using less [of r "k + m'"] mp_step_length [OF that] by (simp add: mp(2))
    then show ?thesis by (simp add: mp add.assoc split: sum.split)
  qed simp_all
qed

text \<open>The recursion equations of the source.\<close>

lemma skip_msgpack_value_container:
  assumes "mp_step (mp_layout_of marker) p = Inr (k, q)"
  shows "skip_msgpack_value (marker # p) = skip_msgpack_values k q"
  using assms by (simp add: skip_msgpack_value_def)

lemma skip_msgpack_values_Suc:
  "skip_msgpack_values (Suc n) p = (case skip_msgpack_value p of Inl e \<Rightarrow> Inl e | Inr q \<Rightarrow> skip_msgpack_values n q)"
  using skip_msgpack_values_add [of 1 n p] by (simp add: skip_msgpack_value_def)

datatype mp_value =
    MpNil
  | MpBool bool
  | MpInt int
  | MpFloat u64
  | MpStr "u8 list"
  | MpBin "u8 list"
  | MpExt u8 "u8 list"
  | MpArr "mp_value list"
  | MpMap "(mp_value \<times> mp_value) list"

text \<open>A length behind the tag for its width.\<close>

definition mp_counted :: "u8 \<Rightarrow> u8 \<Rightarrow> u8 \<Rightarrow> nat \<Rightarrow> u8 list" where
  "mp_counted t8 t16 t32 n = (if n < 2 ^ 8 then t8 # to_be 1 n else if n < 2 ^ 16 then t16 # to_be 2 n else t32 # to_be 4 n)"

definition mp_counted16 :: "u8 \<Rightarrow> u8 \<Rightarrow> nat \<Rightarrow> u8 list" where
  "mp_counted16 t16 t32 n = (if n < 2 ^ 16 then t16 # to_be 2 n else t32 # to_be 4 n)"

definition mp_encode_int :: "int \<Rightarrow> u8 list" where
  "mp_encode_int i =
     (if 0 \<le> i then
        (if i < 2 ^ 7 then [of_nat (nat i)]
         else if i < 2 ^ 8 then 0xcc # to_be 1 (nat i)
         else if i < 2 ^ 16 then 0xcd # to_be 2 (nat i)
         else if i < 2 ^ 32 then 0xce # to_be 4 (nat i)
         else 0xcf # to_be 8 (nat i))
      else
        (if - (2 ^ 5) \<le> i then [of_nat (nat (i + 256))]
         else if - (2 ^ 7) \<le> i then 0xd0 # to_be 1 (nat (i mod 2 ^ 8))
         else if - (2 ^ 15) \<le> i then 0xd1 # to_be 2 (nat (i mod 2 ^ 16))
         else if - (2 ^ 31) \<le> i then 0xd2 # to_be 4 (nat (i mod 2 ^ 32))
         else 0xd3 # to_be 8 (nat (i mod 2 ^ 64))))"

definition mp_encode_str :: "u8 list \<Rightarrow> u8 list" where
  "mp_encode_str s = (if length s < 32 then [of_nat (0xa0 + length s)] else mp_counted 0xd9 0xda 0xdb (length s)) @ s"

definition mp_encode_ext :: "u8 \<Rightarrow> u8 list \<Rightarrow> u8 list" where
  "mp_encode_ext t d =
     (if length d = 1 then [0xd4] else if length d = 2 then [0xd5] else if length d = 4 then [0xd6] else if length d = 8 then [0xd7]
      else if length d = 16 then [0xd8] else mp_counted 0xc7 0xc8 0xc9 (length d)) @ t # d"

fun mp_encode :: "mp_value \<Rightarrow> u8 list" where
  "mp_encode MpNil = [0xc0]"
| "mp_encode (MpBool b) = [if b then 0xc3 else 0xc2]"
| "mp_encode (MpInt i) = mp_encode_int i"
| "mp_encode (MpFloat x) = 0xcb # to_be 8 (unat x)"
| "mp_encode (MpStr s) = mp_encode_str s"
| "mp_encode (MpBin d) = mp_counted 0xc4 0xc5 0xc6 (length d) @ d"
| "mp_encode (MpExt t d) = mp_encode_ext t d"
| "mp_encode (MpArr xs) = (if length xs < 16 then [of_nat (0x90 + length xs)] else mp_counted16 0xdc 0xdd (length xs)) @ concat (map mp_encode xs)"
| "mp_encode (MpMap es) =
     (if length es < 16 then [of_nat (0x80 + length es)] else mp_counted16 0xde 0xdf (length es)) @
     concat (map (\<lambda>(k, v). mp_encode k @ mp_encode v) es)"

text \<open>The format's limit on lengths.\<close>

fun mp_ok :: "mp_value \<Rightarrow> bool" where
  "mp_ok (MpStr s) = (length s < 2 ^ 32)"
| "mp_ok (MpBin d) = (length d < 2 ^ 32)"
| "mp_ok (MpExt t d) = (length d < 2 ^ 32)"
| "mp_ok (MpArr xs) = (length xs < 2 ^ 32 \<and> list_all mp_ok xs)"
| "mp_ok (MpMap es) = (length es < 2 ^ 32 \<and> list_all (\<lambda>(k, v). mp_ok k \<and> mp_ok v) es)"
| "mp_ok _ = True"

lemma mp_small_markers:
  "n < 128 \<Longrightarrow> mp_layout_of (of_nat n) = Skip 0"
  "n < 16 \<Longrightarrow> mp_layout_of (of_nat (0x80 + n)) = Values (2 * n)"
  "n < 16 \<Longrightarrow> mp_layout_of (of_nat (0x90 + n)) = Values n"
  "n < 32 \<Longrightarrow> mp_layout_of (of_nat (0xa0 + n)) = Skip n"
  "n < 32 \<Longrightarrow> mp_layout_of (of_nat (0xe0 + n)) = Skip 0"
proof -
  have "list_all (\<lambda>n. mp_layout_of (of_nat n) = Skip 0) [0..<128]"
    "list_all (\<lambda>n. mp_layout_of (of_nat (0x80 + n)) = Values (2 * n)) [0..<16]"
    "list_all (\<lambda>n. mp_layout_of (of_nat (0x90 + n)) = Values n) [0..<16]"
    "list_all (\<lambda>n. mp_layout_of (of_nat (0xa0 + n)) = Skip n) [0..<32]"
    "list_all (\<lambda>n. mp_layout_of (of_nat (0xe0 + n)) = Skip 0) [0..<32]" by code_simp+
  then show "n < 128 \<Longrightarrow> mp_layout_of (of_nat n) = Skip 0"
    "n < 16 \<Longrightarrow> mp_layout_of (of_nat (0x80 + n)) = Values (2 * n)"
    "n < 16 \<Longrightarrow> mp_layout_of (of_nat (0x90 + n)) = Values n"
    "n < 32 \<Longrightarrow> mp_layout_of (of_nat (0xa0 + n)) = Skip n"
    "n < 32 \<Longrightarrow> mp_layout_of (of_nat (0xe0 + n)) = Skip 0"
    unfolding list_all_iff set_upt by (metis atLeastLessThan_iff le0)+
qed

lemma mp_tags [simp]:
  "mp_layout_of 0xc0 = Skip 0" "mp_layout_of 0xc2 = Skip 0" "mp_layout_of 0xc3 = Skip 0"
  "mp_layout_of 0xc4 = SkipCounted 1 0" "mp_layout_of 0xc5 = SkipCounted 2 0" "mp_layout_of 0xc6 = SkipCounted 4 0"
  "mp_layout_of 0xc7 = SkipCounted 1 1" "mp_layout_of 0xc8 = SkipCounted 2 1" "mp_layout_of 0xc9 = SkipCounted 4 1"
  "mp_layout_of 0xcb = Skip 8" "mp_layout_of 0xcc = Skip 1" "mp_layout_of 0xcd = Skip 2" "mp_layout_of 0xce = Skip 4" "mp_layout_of 0xcf = Skip 8"
  "mp_layout_of 0xd0 = Skip 1" "mp_layout_of 0xd1 = Skip 2" "mp_layout_of 0xd2 = Skip 4" "mp_layout_of 0xd3 = Skip 8"
  "mp_layout_of 0xd4 = Skip 2" "mp_layout_of 0xd5 = Skip 3" "mp_layout_of 0xd6 = Skip 5" "mp_layout_of 0xd7 = Skip 9" "mp_layout_of 0xd8 = Skip 17"
  "mp_layout_of 0xd9 = SkipCounted 1 0" "mp_layout_of 0xda = SkipCounted 2 0" "mp_layout_of 0xdb = SkipCounted 4 0"
  "mp_layout_of 0xdc = ValuesCounted 2 1" "mp_layout_of 0xdd = ValuesCounted 4 1"
  "mp_layout_of 0xde = ValuesCounted 2 2" "mp_layout_of 0xdf = ValuesCounted 4 2"
  by (simp_all add: mp_layout_of_def)

lemma from_be_small [simp]: "n < 256 ^ k \<Longrightarrow> from_be (to_be k n) = n"
  by (simp add: from_be_to_be)

lemma mp_step_simps [simp]:
  "length d = n \<Longrightarrow> mp_step (Skip n) (d @ p) = Inr (0, p)"
  "n < 256 ^ k \<Longrightarrow> length d = n \<Longrightarrow> mp_step (SkipCounted k 0) (to_be k n @ d @ p) = Inr (0, p)"
  "n < 256 ^ k \<Longrightarrow> length d = n \<Longrightarrow> mp_step (SkipCounted k (Suc 0)) (to_be k n @ t # d @ p) = Inr (0, p)"
  "mp_step (Values n) p = Inr (n, p)"
  "n < 256 ^ k \<Longrightarrow> mp_step (ValuesCounted k per) (to_be k n @ p) = Inr (per * n, p)"
  by (simp_all add: mp_step_def Let_def)

text \<open>An encoded scalar is one step; a container opens with the number of values in it.\<close>

lemma skip_step: "mp_step (mp_layout_of m) p = Inr (k, q) \<Longrightarrow> skip_msgpack_values (Suc n) (m # p) = skip_msgpack_values (k + n) q"
  by simp

lemma skip_counted:
  assumes "length d < 2 ^ 32"
    and "mp_layout_of t8 = SkipCounted 1 0" "mp_layout_of t16 = SkipCounted 2 0" "mp_layout_of t32 = SkipCounted 4 0"
  shows "skip_msgpack_values (Suc n) (mp_counted t8 t16 t32 (length d) @ d @ rest) = skip_msgpack_values n rest"
  using assms by (simp add: mp_counted_def)

lemma skip_int: "skip_msgpack_values (Suc n) (mp_encode_int i @ rest) = skip_msgpack_values n rest"
proof -
  have small: "mp_layout_of (of_nat (nat i)) = Skip 0" if "0 \<le> i" "i < 2 ^ 7" using mp_small_markers(1) [of "nat i"] that by simp
  have "nat (i + 256) = 0xe0 + nat (i + 32)" "nat (i + 32) < 32" if "i < 0" "- (2 ^ 5) \<le> i" using that by simp_all
  then have neg: "mp_layout_of (of_nat (nat (i + 256))) = Skip 0" if "i < 0" "- (2 ^ 5) \<le> i" using mp_small_markers(5) that by metis
  have one: "mp_step (Skip 0) rest = Inr (0, rest)" using mp_step_simps(1) [of "[]" 0 rest] by simp
  show ?thesis unfolding mp_encode_int_def using small neg by (simp add: one del: of_nat_nat)
qed

lemma skip_str: "length s < 2 ^ 32 \<Longrightarrow> skip_msgpack_values (Suc n) (mp_encode_str s @ rest) = skip_msgpack_values n rest"
  using skip_counted [of s "0xd9" "0xda" "0xdb"] mp_small_markers(4) [of "length s"]
  by (simp add: mp_encode_str_def del: of_nat_add)

lemma skip_ext:
  assumes "length d < 2 ^ 32"
  shows "skip_msgpack_values (Suc n) (mp_encode_ext t d @ rest) = skip_msgpack_values n rest"
proof -
  have step: "mp_step (Skip k) (t # d @ rest) = Inr (0, rest)" if "k = Suc (length d)" for k using mp_step_simps(1) [of "t # d"] that by simp
  have "skip_msgpack_values (Suc n) (mp_counted 0xc7 0xc8 0xc9 (length d) @ t # d @ rest) = skip_msgpack_values n rest"
    using assms by (simp add: mp_counted_def)
  then show ?thesis unfolding mp_encode_ext_def by (simp add: step)
qed

lemma skip_concat:
  "(\<And>x n rest. x \<in> set xs \<Longrightarrow> skip_msgpack_values (k + n) (f x @ rest) = skip_msgpack_values n rest) \<Longrightarrow>
   skip_msgpack_values (k * length xs + n) (concat (map f xs) @ rest) = skip_msgpack_values n rest"
  by (induction xs arbitrary: n) (simp_all add: add.assoc)

lemma skip_encoded: "mp_ok v \<Longrightarrow> skip_msgpack_values (Suc n) (mp_encode v @ rest) = skip_msgpack_values n rest"
proof (induction v arbitrary: n rest)
  case (MpArr xs)
  have "skip_msgpack_values (1 * length xs + n) (concat (map mp_encode xs) @ rest) = skip_msgpack_values n rest"
    using MpArr by (intro skip_concat) (auto simp: list_all_iff)
  then show ?case using MpArr.prems mp_small_markers(3) [of "length xs"] by (simp add: mp_counted16_def del: of_nat_add)
next
  case (MpMap es)
  have "skip_msgpack_values (2 * length es + n) (concat (map (\<lambda>(k, v). mp_encode k @ mp_encode v) es) @ rest) = skip_msgpack_values n rest"
  proof (rule skip_concat)
    fix e n rest
    assume e: "e \<in> set es"
    obtain k v where [simp]: "e = (k, v)" by (cases e)
    have "mp_ok k" "mp_ok v" using MpMap.prems e by (auto simp: list_all_iff)
    then show "skip_msgpack_values (2 + n) ((case e of (k, v) \<Rightarrow> mp_encode k @ mp_encode v) @ rest) = skip_msgpack_values n rest"
      using MpMap.IH e by (fastforce simp: numeral_2_eq_2)
  qed
  then show ?case using MpMap.prems mp_small_markers(2) [of "length es"] by (simp add: mp_counted16_def del: of_nat_add)
qed (simp_all add: skip_int skip_str skip_ext skip_counted del: skip_msgpack_values.simps, simp_all add: mp_step_def)


section \<open>MessagePack envelopes\<close>

lemma mp_str_marker:
  assumes "n < 32"
  shows "0xa0 \<le> (of_nat (0xa0 + n) :: u8)" and "(of_nat (0xa0 + n) :: u8) \<le> 0xbf" and "unat (of_nat (0xa0 + n) :: u8) mod 32 = n"
proof -
  have "list_all (\<lambda>n. 0xa0 \<le> (of_nat (0xa0 + n) :: u8) \<and> (of_nat (0xa0 + n) :: u8) \<le> 0xbf \<and> unat (of_nat (0xa0 + n) :: u8) mod 32 = n) [0..<32]"
    by code_simp
  then show "0xa0 \<le> (of_nat (0xa0 + n) :: u8)" "(of_nat (0xa0 + n) :: u8) \<le> 0xbf" "unat (of_nat (0xa0 + n) :: u8) mod 32 = n"
    using assms unfolding list_all_iff set_upt by auto
qed

lemma read_encoded_str: "length s < 2 ^ 32 \<Longrightarrow> read_msgpack_str (mp_encode_str s @ rest) = Inr (s, rest)"
  using mp_str_marker [of "length s"]
  by (simp add: read_msgpack_str_def mp_encode_str_def mp_counted_def read_str_counted_def del: of_nat_add)

lemma field_names: "str_bytes ''event'' \<noteq> str_bytes ''body''" "length (str_bytes ''event'') < 2 ^ 32" "length (str_bytes ''body'') < 2 ^ 32"
  by (simp_all add: str_bytes_def)

definition mp_pair :: "string \<Rightarrow> mp_value \<Rightarrow> u8 list" where
  "mp_pair key v = mp_encode_str (str_bytes key) @ mp_encode v"

lemma mp_entry_event:
  "length s < 2 ^ 32 \<Longrightarrow>
   mp_entry (mp_pair ''event'' (MpStr s) @ rest, ev, body) = (if utf8_valid s then Inr (rest, Some (bytes_str s), body) else Inl InvalidUtf8)"
  by (simp add: mp_entry_def mp_pair_def read_encoded_str field_names)

lemma mp_entry_body: "mp_ok v \<Longrightarrow> mp_entry (mp_pair ''body'' v @ rest, ev, body) = Inr (rest, ev, Some (mp_encode v))"
  using skip_encoded [of v 0 rest] field_names(1) [symmetric]
  by (simp add: mp_entry_def mp_pair_def read_encoded_str field_names skip_msgpack_value_def)

lemma mp_entry_unknown:
  "str_bytes key \<noteq> str_bytes ''event'' \<Longrightarrow> str_bytes key \<noteq> str_bytes ''body'' \<Longrightarrow> length key < 2 ^ 32 \<Longrightarrow>
   mp_entry (mp_pair key v @ rest, ev, body) = Inl UnknownKey"
  by (simp add: mp_entry_def mp_pair_def read_encoded_str)

definition mp_envelope_heads :: "u8 list list" where
  "mp_envelope_heads = [[0x82], [0xde, 0, 2], [0xdf, 0, 0, 0, 2]]"

lemma parse_envelope_head:
  assumes "h \<in> set mp_envelope_heads"
  shows "parse_msgpack_envelope (h @ p) =
    (case mp_entry (p, None, None) of
       Inl e \<Rightarrow> Inl e
     | Inr s \<Rightarrow>
         (case mp_entry s of
            Inl e \<Rightarrow> Inl e
          | Inr (_, None, _) \<Rightarrow> Inl (MpMissingField ''event'')
          | Inr (_, Some _, None) \<Rightarrow> Inl (MpMissingField ''body'')
          | Inr (_, Some event_name, Some body) \<Rightarrow> Inr (event_name, body)))"
proof -
  have two: "from_be [0, 2] = 2" "from_be [0, 0, 0, 2] = 2" by code_simp+
  consider "h = [0x82]" | "h = [0xde, 0, 2]" | "h = [0xdf, 0, 0, 0, 2]" using assms by (auto simp: mp_envelope_heads_def)
  then show ?thesis by cases (simp_all add: parse_msgpack_envelope_def two)
qed

text \<open>C17. A MessagePack push envelope, with any of the three encodings of a map of two entries, the
  entries in either order, a UTF-8 event name and any encodable body, is parsed to the name and exactly
  the bytes of the body, whatever follows the envelope. A name that is not UTF-8, an unknown
  key and an envelope that repeats one of the keys are errors.\<close>

theorem msgpack_envelope:
  assumes "h \<in> set mp_envelope_heads" and "length (str_bytes name) < 2 ^ 32" and "mp_ok v" and "length key < 2 ^ 32"
  shows "(let event = mp_pair ''event'' (MpStr (str_bytes name)); body = mp_pair ''body'' v in
     (if utf8_valid (str_bytes name) then
        parse_msgpack_envelope (h @ event @ body @ rest) = Inr (name, mp_encode v) \<and>
        parse_msgpack_envelope (h @ body @ event @ rest) = Inr (name, mp_encode v) \<and>
        parse_msgpack_envelope (h @ event @ event @ rest) = Inl (MpMissingField ''body'')
      else parse_msgpack_envelope (h @ event @ rest) = Inl InvalidUtf8) \<and>
     parse_msgpack_envelope (h @ body @ body @ rest) = Inl (MpMissingField ''event'') \<and>
     (str_bytes key \<in> {str_bytes ''event'', str_bytes ''body''} \<or> parse_msgpack_envelope (h @ mp_pair key w @ rest) = Inl UnknownKey))"
  using assms by (cases "str_bytes key \<in> {str_bytes ''event'', str_bytes ''body''}")
    (simp_all add: Let_def parse_envelope_head mp_entry_event mp_entry_body mp_entry_unknown)

theorem msgpack_envelope_witness:
  "parse_msgpack_envelope ([0x82] @ mp_pair ''event'' (MpStr (str_bytes ''tx'')) @ mp_pair ''body'' (MpMap [(MpStr (str_bytes ''a''), MpInt 5)])) =
     Inr (''tx'', [0x81, 0xa1, 97, 5])"
proof -
  let ?v = "MpMap [(MpStr (str_bytes ''a''), MpInt 5)]"
  have enc: "mp_encode ?v = [0x81, 0xa1, 97, 5]" and utf: "utf8_valid (str_bytes ''tx'')" and ok: "mp_ok ?v"
    and len: "length (str_bytes ''tx'') < 2 ^ 32" "length ([] :: string) < 2 ^ 32" and h: "[0x82] \<in> set mp_envelope_heads"
    by (simp add: mp_encode_int_def mp_encode_str_def str_bytes_def, code_simp, simp_all add: mp_envelope_heads_def)
  show ?thesis using msgpack_envelope [OF h len(1) ok len(2), of "[]"] by (simp only: Let_def utf if_True enc append_Nil2)
qed

section \<open>JSON texts\<close>

inductive json_chars :: "u8 list \<Rightarrow> bool" where
  chars_end: "json_chars []"
| chars_plain: "b \<noteq> 34 \<Longrightarrow> b \<noteq> 92 \<Longrightarrow> json_chars cs \<Longrightarrow> json_chars (b # cs)"
| chars_escape: "json_chars cs \<Longrightarrow> json_chars (92 # c # cs)"

lemma plain_chars: "list_all (\<lambda>b. b \<noteq> 34 \<and> b \<noteq> 92) cs \<Longrightarrow> json_chars cs"
  by (induction cs) (auto intro: json_chars.intros)

definition json_ws :: "u8 list \<Rightarrow> bool" where
  "json_ws w \<longleftrightarrow> list_all is_ws w"

definition json_literals :: "u8 list list" where
  "json_literals = map str_bytes [''true'', ''false'', ''null'']"

definition json_number :: "u8 list \<Rightarrow> bool" where
  "json_number v \<longleftrightarrow> v \<noteq> [] \<and> (hd v = 45 \<or> is_digit (hd v)) \<and> list_all is_num_byte v"

inductive json_value :: "u8 list \<Rightarrow> bool" and json_elems :: "u8 list \<Rightarrow> bool" and json_members :: "u8 list \<Rightarrow> bool" where
  value_literal: "v \<in> set json_literals \<Longrightarrow> json_value v"
| value_number: "json_number v \<Longrightarrow> json_value v"
| value_string: "json_chars cs \<Longrightarrow> json_value (34 # cs @ [34])"
| value_empty_array: "json_ws w \<Longrightarrow> json_value (91 # w @ [93])"
| value_array: "json_elems es \<Longrightarrow> json_value (91 # es @ [93])"
| value_empty_object: "json_ws w \<Longrightarrow> json_value (123 # w @ [125])"
| value_object: "json_members ms \<Longrightarrow> json_value (123 # ms @ [125])"
| elems_one: "json_ws w1 \<Longrightarrow> json_value v \<Longrightarrow> json_ws w2 \<Longrightarrow> json_elems (w1 @ v @ w2)"
| elems_more: "json_ws w1 \<Longrightarrow> json_value v \<Longrightarrow> json_ws w2 \<Longrightarrow> json_elems es \<Longrightarrow> json_elems (w1 @ v @ w2 @ [44] @ es)"
| members_one: "json_ws w1 \<Longrightarrow> json_chars k \<Longrightarrow> json_ws w2 \<Longrightarrow> json_elems v \<Longrightarrow> json_members (w1 @ (34 # k @ [34]) @ w2 @ [58] @ v)"
| members_more: "json_ws w1 \<Longrightarrow> json_chars k \<Longrightarrow> json_ws w2 \<Longrightarrow> json_elems v \<Longrightarrow> json_members ms \<Longrightarrow>
    json_members (w1 @ (34 # k @ [34]) @ w2 @ [58] @ v @ [44] @ ms)"

text \<open>A piece of text that the bracket counter passes at any depth inside a container.\<close>

definition passes :: "u8 \<Rightarrow> u8 \<Rightarrow> u8 list \<Rightarrow> bool" where
  "passes opn cls xs \<longleftrightarrow> (\<forall>d \<ge> 1. \<forall>rest. scan_balanced opn cls d False (xs @ rest) = scan_balanced opn cls d False rest)"

lemma passes_Nil: "passes opn cls []"
  by (simp add: passes_def)

lemma passes_append: "passes opn cls xs \<Longrightarrow> passes opn cls ys \<Longrightarrow> passes opn cls (xs @ ys)"
  by (simp add: passes_def)

lemma passes_plain: "list_all (\<lambda>b. b \<notin> {34, opn, cls}) xs \<Longrightarrow> passes opn cls xs"
  by (induction xs) (simp_all add: passes_def)

lemma scan_chars: "json_chars cs \<Longrightarrow> scan_balanced opn cls d True (cs @ 34 # rest) = scan_balanced opn cls d False rest"
  by (induction rule: json_chars.induct) simp_all

lemma passes_string: "json_chars cs \<Longrightarrow> passes opn cls (34 # cs @ [34])"
  by (simp add: passes_def scan_chars)

lemma passes_container:
  assumes "passes opn cls xs" and "o' = opn \<and> c' = cls \<or> o' \<notin> {opn, cls} \<and> c' \<notin> {opn, cls}" and "opn \<noteq> cls" and "34 \<notin> {opn, cls, o', c'}"
  shows "passes opn cls (o' # xs @ [c'])"
  unfolding passes_def
proof (intro allI impI)
  fix d :: int and rest
  assume d: "1 \<le> d"
  show "scan_balanced opn cls d False ((o' # xs @ [c']) @ rest) = scan_balanced opn cls d False rest"
    using assms d by (auto simp: passes_def)
qed

definition brackets :: "(u8 \<times> u8) list" where
  "brackets = [(123, 125), (91, 93)]"

lemma ws_plain: "(opn, cls) \<in> set brackets \<Longrightarrow> json_ws w \<Longrightarrow> passes opn cls w"
  by (rule passes_plain) (auto simp: json_ws_def brackets_def list_all_iff is_ws_def)

lemma literal_plain: "(opn, cls) \<in> set brackets \<Longrightarrow> v \<in> set json_literals \<Longrightarrow> passes opn cls v"
  by (rule passes_plain) (auto simp: json_literals_def brackets_def str_bytes_def)

lemma number_plain: "(opn, cls) \<in> set brackets \<Longrightarrow> json_number v \<Longrightarrow> passes opn cls v"
  by (rule passes_plain) (auto simp: json_number_def brackets_def list_all_iff is_num_byte_def is_digit_def)

lemma separators_plain: "(opn, cls) \<in> set brackets \<Longrightarrow> passes opn cls [44]" "(opn, cls) \<in> set brackets \<Longrightarrow> passes opn cls [58]"
  by (rule passes_plain; auto simp: brackets_def)+

lemma passes_nested:
  assumes "(opn, cls) \<in> set brackets" and "passes opn cls xs"
  shows "passes opn cls (91 # xs @ [93])" and "passes opn cls (123 # xs @ [125])"
  by (rule passes_container [OF assms(2)]; use assms(1) in \<open>auto simp: brackets_def\<close>)+

lemma json_passes:
  assumes "(opn, cls) \<in> set brackets"
  shows "json_value v \<Longrightarrow> passes opn cls v" and "json_elems es \<Longrightarrow> passes opn cls es" and "json_members ms \<Longrightarrow> passes opn cls ms"
  by (induction rule: json_value_json_elems_json_members.inducts)
    (assumption | rule passes_append passes_string passes_nested [OF assms] separators_plain [OF assms]
       ws_plain [OF assms] literal_plain [OF assms] number_plain [OF assms])+

text \<open>Where a value ends: behind it comes no byte that could belong to a number or a literal.\<close>

definition delimited :: "u8 list \<Rightarrow> bool" where
  "delimited rest \<longleftrightarrow> (case rest of [] \<Rightarrow> True | b # _ \<Rightarrow> \<not> is_alpha b \<and> \<not> is_num_byte b)"

lemma dropWhile_delimited:
  "delimited rest \<Longrightarrow> list_all is_num_byte v \<Longrightarrow> dropWhile is_num_byte (v @ rest) = rest"
  "delimited rest \<Longrightarrow> list_all is_alpha v \<Longrightarrow> dropWhile is_alpha (v @ rest) = rest"
  by (cases rest; simp add: delimited_def list_all_iff dropWhile_append2)+

lemma scan_string_end_chars: "json_chars cs \<Longrightarrow> scan_string_end (cs @ 34 # rest) = Inr (cs, 34 # rest)"
  by (induction rule: json_chars.induct) simp_all

lemma scan_container:
  assumes "(opn, cls) \<in> set brackets" and "passes opn cls xs"
  shows "scan_balanced opn cls 0 False (opn # xs @ cls # rest) = Inr rest"
  using assms by (auto simp: brackets_def passes_def)

lemma scan_value_end_value:
  assumes "json_value v" and "delimited rest"
  shows "scan_value_end (v @ rest) = Inr rest"
  using assms(1)
proof cases
  case value_literal
  then have "v \<noteq> []" "hd v = 116 \<or> hd v = 102 \<or> hd v = 110" "list_all is_alpha v"
    by (auto simp: json_literals_def str_bytes_def is_alpha_def)
  then show ?thesis using dropWhile_delimited(2) [OF assms(2)] by (cases v) (auto simp: scan_value_end_def)
next
  case value_number
  then obtain b u where v: "v = b # u" "b = 45 \<or> is_digit b" "list_all is_num_byte v" by (cases v) (auto simp: json_number_def)
  then have "b \<noteq> 123 \<and> b \<noteq> 91 \<and> b \<noteq> 34 \<and> b \<noteq> 116 \<and> b \<noteq> 102 \<and> b \<noteq> 110" by (auto simp: is_digit_def)
  then show ?thesis using dropWhile_delimited(1) [OF assms(2) v(3)] v(1,2) by (simp add: scan_value_end_def del: dropWhile.simps)
next
  case (value_string cs)
  then show ?thesis by (simp add: scan_value_end_def scan_string_end_chars)
next
  case (value_empty_array w)
  then show ?thesis using scan_container [of 91 93 w rest] ws_plain by (simp add: scan_value_end_def brackets_def del: scan_balanced.simps)
next
  case (value_array es)
  then show ?thesis using scan_container [of 91 93 es rest] json_passes by (simp add: scan_value_end_def brackets_def del: scan_balanced.simps)
next
  case (value_empty_object w)
  then show ?thesis using scan_container [of 123 125 w rest] ws_plain by (simp add: scan_value_end_def brackets_def del: scan_balanced.simps)
next
  case (value_object ms)
  then show ?thesis using scan_container [of 123 125 ms rest] json_passes by (simp add: scan_value_end_def brackets_def del: scan_balanced.simps)
qed

section \<open>JSON envelopes\<close>

record json_member =
  jm_before :: "u8 list"
  jm_key :: "u8 list"
  jm_before_colon :: "u8 list"
  jm_after_colon :: "u8 list"
  jm_value :: "u8 list"
  jm_after :: "u8 list"

definition member_text :: "json_member \<Rightarrow> u8 list" where
  "member_text m = jm_before m @ (34 # jm_key m @ [34]) @ jm_before_colon m @ [58] @ jm_after_colon m @ jm_value m @ jm_after m"

fun members_text :: "json_member list \<Rightarrow> u8 list" where
  "members_text [] = []"
| "members_text [m] = member_text m"
| "members_text (m # ms) = member_text m @ [44] @ members_text ms"

text \<open>A member of an envelope: a JSON key and value with white space, and a string without escapes
  as the event's name.\<close>

definition member_ok :: "json_member \<Rightarrow> bool" where
  "member_ok m \<longleftrightarrow>
     list_all json_ws [jm_before m, jm_before_colon m, jm_after_colon m, jm_after m] \<and> json_chars (jm_key m) \<and> json_value (jm_value m) \<and>
     (jm_key m = str_bytes ''event'' \<longrightarrow> (\<exists>raw. jm_value m = 34 # raw @ [34] \<and> json_chars raw \<and> 92 \<notin> set raw \<and> utf8_valid raw))"

definition set_slot :: "json_member \<Rightarrow> mp_fields \<Rightarrow> mp_fields" where
  "set_slot m slots =
     (if jm_key m = str_bytes ''event'' then (Some (bytes_str (butlast (tl (jm_value m)))), snd slots)
      else if jm_key m = str_bytes ''body'' then (fst slots, Some (jm_value m)) else slots)"

lemma skip_ws_app: "json_ws w \<Longrightarrow> b # p = q \<Longrightarrow> \<not> is_ws b \<Longrightarrow> skip_ws (w @ q) = q"
  by (auto simp: skip_ws_def json_ws_def list_all_iff dropWhile_append2)

lemma ws_delimited: "json_ws w \<Longrightarrow> delimited (w @ 44 # p)" "json_ws w \<Longrightarrow> delimited (w @ 125 # p)"
  by (cases w; auto simp: json_ws_def delimited_def is_ws_def is_alpha_def is_num_byte_def is_digit_def)+

lemma value_start: "json_value v \<Longrightarrow> \<exists>b u. v = b # u \<and> \<not> is_ws b"
  by (erule json_value.cases) (auto simp: json_literals_def str_bytes_def json_number_def is_ws_def is_digit_def neq_Nil_conv)

lemma json_field_value:
  assumes "member_ok m" and "delimited rest"
  shows "json_field unescape (jm_key m) slots (jm_value m @ rest) = Inr (set_slot m slots, rest)"
proof (cases "jm_key m = str_bytes ''event''")
  case True
  then obtain raw where "jm_value m = 34 # raw @ [34]" "json_chars raw" "92 \<notin> set raw" "utf8_valid raw" using assms(1) by (auto simp: member_ok_def)
  then show ?thesis using True by (simp add: json_field_def set_slot_def scan_string_end_chars decode_json_string_fragment_def)
next
  case False
  then show ?thesis using assms scan_value_end_value [of "jm_value m" rest]
    by (simp add: json_field_def set_slot_def member_ok_def)
qed

lemma json_entries_member:
  assumes "member_ok m" and "d = 44 \<or> d = 125"
  shows "json_entries unescape slots (member_text m @ d # rest) =
    (if d = 44 then json_entries unescape (set_slot m slots) rest else Inr (set_slot m slots))"
proof -
  let ?v = "jm_value m @ jm_after m @ d # rest"
  have ws: "json_ws (jm_before m)" "json_ws (jm_before_colon m)" "json_ws (jm_after_colon m)" "json_ws (jm_after m)" and k: "json_chars (jm_key m)"
    and jv: "json_value (jm_value m)" using assms(1) by (simp_all add: member_ok_def)
  obtain b u where b: "jm_value m = b # u" "\<not> is_ws b" using value_start [OF jv] by blast
  have 1: "skip_ws (member_text m @ d # rest) = 34 # jm_key m @ 34 # jm_before_colon m @ 58 # jm_after_colon m @ ?v"
    using skip_ws_app [OF ws(1)] by (simp add: member_text_def is_ws_def)
  have 2: "skip_ws (jm_before_colon m @ 58 # jm_after_colon m @ ?v) = 58 # jm_after_colon m @ ?v" using skip_ws_app [OF ws(2)] by (simp add: is_ws_def)
  have 3: "skip_ws (jm_after_colon m @ ?v) = ?v" using skip_ws_app [OF ws(3)] b by simp
  have 4: "skip_ws (jm_after m @ d # rest) = d # rest" using skip_ws_app [OF ws(4)] assms(2) by (auto simp: is_ws_def)
  have 5: "json_field unescape (jm_key m) slots ?v = Inr (set_slot m slots, jm_after m @ d # rest)"
    by (rule json_field_value [OF assms(1)]) (use ws_delimited [OF ws(4)] assms(2) in auto)
  show ?thesis
    using assms(2) by (subst json_entries.simps) (auto simp: 1 2 3 4 5 scan_string_end_chars [OF k])
qed

lemma json_entries_members:
  "ms \<noteq> [] \<Longrightarrow> list_all member_ok ms \<Longrightarrow> json_entries unescape slots (members_text ms @ 125 # rest) = Inr (fold set_slot ms slots)"
proof (induction ms arbitrary: slots rule: members_text.induct)
  case (3 m m' ms)
  then show ?case using json_entries_member [of m 44 unescape slots "members_text (m' # ms) @ 125 # rest"] by simp
qed (simp_all add: json_entries_member)

text \<open>The last value of a key.\<close>

definition last_value :: "string \<Rightarrow> json_member list \<Rightarrow> u8 list option" where
  "last_value key ms = map_of (map (\<lambda>m. (jm_key m, jm_value m)) (rev ms)) (str_bytes key)"

lemma fold_slots:
  "fold set_slot ms (None, None) = (map_option (\<lambda>v. bytes_str (butlast (tl v))) (last_value ''event'' ms), last_value ''body'' ms)"
proof (induction ms rule: rev_induct)
  case (snoc m ms)
  then show ?case using field_names(1) by (auto simp: last_value_def set_slot_def)
qed (simp add: last_value_def)

text \<open>C18. On a non-empty JSON object, with white space anywhere and members in any order and number, in which
  the values of \<open>event\<close> are strings of UTF-8 without escapes, the scanner of the TCP transport
  returns the last event name and exactly the bytes of the last body, and reports the first of the two
  fields that is missing. Brackets and quotes inside strings and nested values do not confuse it. The
  member that holds the fields is named \<open>body\<close>: an object with \<open>event\<close> and \<open>data\<close>, which is how the
  documentation shows the payload, is reported as lacking its body.\<close>

theorem json_envelope:
  assumes "json_ws w" and "ms \<noteq> []" and "list_all member_ok ms"
  shows "parse_json_envelope unescape (w @ 123 # members_text ms @ 125 # rest) =
    (case (last_value ''event'' ms, last_value ''body'' ms) of
       (None, _) \<Rightarrow> Inl (JsonMissingField ''event'')
     | (Some _, None) \<Rightarrow> Inl (JsonMissingField ''body'')
     | (Some name, Some body) \<Rightarrow> Inr (bytes_str (butlast (tl name)), body))"
proof -
  have "skip_ws (w @ 123 # members_text ms @ 125 # rest) = 123 # members_text ms @ 125 # rest"
    using skip_ws_app [OF assms(1)] by (simp add: is_ws_def)
  then show ?thesis using json_entries_members [OF assms(2,3)] by (auto simp: parse_json_envelope_def fold_slots split: option.split)
qed

theorem json_envelope_witness:
  "parse_json_envelope (\<lambda>_. None) (str_bytes '' {\"event\": \"tx\", \"body\":{\"a\": [1, \"}\"]} }'') =
     Inr (''tx'', str_bytes ''{\"a\": [1, \"}\"]}'')"
proof -
  let ?e = "\<lparr>jm_before = [], jm_key = str_bytes ''event'', jm_before_colon = [], jm_after_colon = [32], jm_value = str_bytes ''\"tx\"'', jm_after = []\<rparr>"
  let ?b = "\<lparr>jm_before = [32], jm_key = str_bytes ''body'', jm_before_colon = [], jm_after_colon = [],
      jm_value = str_bytes ''{\"a\": [1, \"}\"]}'', jm_after = [32]\<rparr>"
  have env: "str_bytes '' {\"event\": \"tx\", \"body\":{\"a\": [1, \"}\"]} }'' = [32] @ 123 # members_text [?e, ?b] @ 125 # []"
    by (simp add: str_bytes_def member_text_def)
  have one: "json_elems [49, 44, 32, 34, 125, 34]"
    using elems_more [of "[]" "[49]" "[]" "[32, 34, 125, 34]"] elems_one [of "[32]" "[34, 125, 34]" "[]"] value_string [of "[125]"] value_number [of "[49]"] plain_chars [of "[125]"]
    by (simp add: json_ws_def is_ws_def json_number_def is_num_byte_def is_digit_def)
  have body: "json_value (str_bytes ''{\"a\": [1, \"}\"]}'')"
    using value_object [of "[34, 97, 34, 58, 32, 91, 49, 44, 32, 34, 125, 34, 93]"] members_one [of "[]" "[97]" "[]" "[32, 91, 49, 44, 32, 34, 125, 34, 93]"]
      elems_one [of "[32]" "[91, 49, 44, 32, 34, 125, 34, 93]" "[]"] value_array [OF one] plain_chars [of "[97]"]
    by (simp add: json_ws_def is_ws_def str_bytes_def)
  have event: "\<exists>raw. str_bytes ''\"tx\"'' = 34 # raw @ [34] \<and> json_chars raw \<and> 92 \<notin> set raw \<and> utf8_valid raw"
    by (intro exI [of _ "str_bytes ''tx''"]) (auto simp: str_bytes_def intro: plain_chars)
  have chars: "json_chars (str_bytes ''event'')" "json_chars (str_bytes ''body'')" by (rule plain_chars; simp add: str_bytes_def)+
  have "list_all member_ok [?e, ?b]"
    using event body chars field_names(1) [symmetric] value_string by (auto simp: member_ok_def json_ws_def is_ws_def)
  moreover have name: "bytes_str (butlast (tl (str_bytes ''\"tx\"''))) = ''tx''" by code_simp
  ultimately show ?thesis using json_envelope [of "[32]" "[?e, ?b]" "\<lambda>_. None" "[]"]
    unfolding env using field_names(1) by (simp add: json_ws_def is_ws_def last_value_def name)
qed

end
