(* ===== verification/SketchSpec.thy ===== *)
theory SketchSpec
  imports Prelude
begin

text \<open>
  The interface of the mergeable sketches: a summary is built by adding items one at a time
  and two summaries are merged. The windowed operators answer a query by merging the
  summaries of the live buckets, so what they rely on is that merging runs is running the
  concatenation. A set sketch moreover depends only on the set of its items.
\<close>

locale mergeable_sketch =
  fixes empty :: 's
    and add :: "'a \<Rightarrow> 's \<Rightarrow> 's"
    and merge :: "'s \<Rightarrow> 's \<Rightarrow> 's"
  assumes merge_runs: "merge (fold add xs empty) (fold add ys empty) = fold add (xs @ ys) empty"
begin

lemma merge_empty: "merge (fold add xs empty) empty = fold add xs empty"
  using merge_runs [of xs "[]"] by simp

lemma merge_all:
  "foldl merge (fold add xs empty) (map (\<lambda>ys. fold add ys empty) yss) = fold add (xs @ concat yss) empty"
proof (induction yss arbitrary: xs)
  case Nil
  then show ?case by simp
next
  case (Cons ys yss)
  show ?case using Cons.IH [of "xs @ ys"] merge_runs [of xs ys] by simp
qed

end

locale set_sketch = mergeable_sketch empty add merge
  for empty :: 's
    and add :: "'a \<Rightarrow> 's \<Rightarrow> 's"
    and merge :: "'s \<Rightarrow> 's \<Rightarrow> 's" +
  assumes run_set: "set xs = set ys \<Longrightarrow> fold add xs empty = fold add ys empty"
begin

lemma run_remdups: "fold add (remdups xs) empty = fold add xs empty"
  by (rule run_set) simp

lemma merge_self: "merge (fold add xs empty) (fold add xs empty) = fold add xs empty"
  unfolding merge_runs by (rule run_set) simp

lemma merge_comm: "merge (fold add xs empty) (fold add ys empty) = merge (fold add ys empty) (fold add xs empty)"
  unfolding merge_runs by (rule run_set) auto

end

end
