(* ===== verification/F64.thy ===== *)
theory F64
  imports Complex_Main Prelude
begin

text \<open>
  Rust's \<open>f64\<close>: IEEE-754 binary64 with rounding to nearest, ties to even.
  A finite value is its exact rational, with the negative zero as a constructor of its
  own, so that equal values are equal terms; NaN payloads, which no code of the
  repository reads, are not distinguished. Each arithmetic operation is the exact
  rational operation followed by \<open>f64_round\<close>.

  The theory shows that rounding is the identity on the integers up to \<open>2 ^ 53\<close> in
  magnitude, so that sums of integral values inside that range are exact, which is what
  the aggregation operators rely on for integral event fields.

  The elementary functions (\<open>exp\<close>, \<open>ln\<close>, \<open>log2\<close>, \<open>sin\<close>, \<open>cos\<close>, \<open>asin\<close>)
  have platform-dependent results by their documentation, and the decimal formatting
  and parsing of floats is not modelled: both come as a record of functions, an
  argument of the definitions that call them.
\<close>

section \<open>Values and rounding\<close>

datatype f64 = NaN | Inf bool | NegZero | Fin rat
  \<comment> \<open>\<open>Inf True\<close> is the negative infinity; \<open>Fin 0\<close> is the positive zero\<close>

record libm =
  exp_f :: "f64 \<Rightarrow> f64"
  ln_f :: "f64 \<Rightarrow> f64"
  log2_f :: "f64 \<Rightarrow> f64"
  sin_f :: "f64 \<Rightarrow> f64"
  cos_f :: "f64 \<Rightarrow> f64"
  asin_f :: "f64 \<Rightarrow> f64"
  f64_to_string :: "f64 \<Rightarrow> string"
  f64_debug :: "f64 \<Rightarrow> string"
  f64_parse :: "string \<Rightarrow> f64 option"

text \<open>Length of the binary representation of a non-negative integer.\<close>

function blen :: "int \<Rightarrow> int" where
  "blen n = (if n \<le> 0 then 0 else blen (n div 2) + 1)"
  by pat_completeness auto
termination
  by (relation "measure nat") auto

declare blen.simps [simp del]

lemma blen_nonneg [simp]: "0 \<le> blen n"
proof (induction n rule: blen.induct)
  case (1 n)
  then show ?case by (subst blen.simps) auto
qed

lemma blen_bounds:
  assumes "0 < n"
  shows "2 ^ nat (blen n - 1) \<le> n \<and> n < 2 ^ nat (blen n) \<and> 0 < blen n"
  using assms
proof (induction n rule: blen.induct)
  case (1 n)
  show ?case
  proof (cases "n = 1")
    case True
    then show ?thesis by (simp add: blen.simps [of 1] blen.simps [of 0])
  next
    case False
    with 1 have h: "2 ^ nat (blen (n div 2) - 1) \<le> n div 2" "n div 2 < 2 ^ nat (blen (n div 2))"
      "0 < blen (n div 2)" by auto
    have b: "blen n = blen (n div 2) + 1"
      using 1 by (simp add: blen.simps [of n])
    have "nat (blen n - 1) = Suc (nat (blen (n div 2) - 1))" "nat (blen n) = Suc (nat (blen (n div 2)))"
      using b h(3) by simp_all
    with h b show ?thesis by (simp add: power_Suc) linarith
  qed
qed

text \<open>\<open>floor_log2 r\<close>: the exponent \<open>e\<close> with \<open>2 ^ e \<le> r < 2 ^ (e + 1)\<close>, for
  positive \<open>r\<close>.\<close>

definition pow2 :: "int \<Rightarrow> rat" where
  "pow2 e = (if 0 \<le> e then 2 ^ nat e else 1 / 2 ^ nat (- e))"

definition floor_log2 :: "rat \<Rightarrow> int" where
  "floor_log2 r =
     (let (n, d) = quotient_of r; k = blen n - blen d
      in if pow2 k \<le> r then k else k - 1)"

definition round_half_even :: "rat \<Rightarrow> int" where
  "round_half_even x =
     (let f = \<lfloor>x\<rfloor>; d = x - of_int f
      in if d < 1 / 2 then f else if 1 / 2 < d then f + 1
         else if even f then f else f + 1)"

text \<open>Magnitude of the nearest binary64 value; \<open>None\<close> when it overflows.\<close>

definition round_mag :: "rat \<Rightarrow> rat option" where
  "round_mag r =
     (let q = max (floor_log2 r - 52) (- 1074);
          v = of_int (round_half_even (r / pow2 q)) * pow2 q
      in if 2 ^ 1024 \<le> v then None else Some v)"

text \<open>\<open>f64_round neg r\<close>: the rounded value of the exact result \<open>r\<close>; \<open>neg\<close> is the
  sign a zero result takes.\<close>

definition f64_round :: "bool \<Rightarrow> rat \<Rightarrow> f64" where
  "f64_round neg r =
     (if r = 0 then (if neg then NegZero else Fin 0)
      else case round_mag \<bar>r\<bar> of
             None \<Rightarrow> Inf (r < 0)
           | Some v \<Rightarrow> (if v = 0 then (if r < 0 then NegZero else Fin 0)
                       else Fin (if r < 0 then - v else v)))"

section \<open>Operations\<close>

definition is_nan :: "f64 \<Rightarrow> bool" where
  "is_nan x \<longleftrightarrow> x = NaN"

definition is_finite :: "f64 \<Rightarrow> bool" where
  "is_finite x \<longleftrightarrow> (case x of NaN \<Rightarrow> False | Inf _ \<Rightarrow> False | _ \<Rightarrow> True)"

definition f64_neg_sign :: "f64 \<Rightarrow> bool" where
  "f64_neg_sign x = (case x of NaN \<Rightarrow> False | Inf n \<Rightarrow> n | NegZero \<Rightarrow> True | Fin r \<Rightarrow> r < 0)"

text \<open>The rational of a finite value.\<close>

definition f64_val :: "f64 \<Rightarrow> rat" where
  "f64_val x = (case x of Fin r \<Rightarrow> r | _ \<Rightarrow> 0)"

fun f64_neg :: "f64 \<Rightarrow> f64" where
  "f64_neg NaN = NaN"
| "f64_neg (Inf n) = Inf (\<not> n)"
| "f64_neg NegZero = Fin 0"
| "f64_neg (Fin r) = (if r = 0 then NegZero else Fin (- r))"

definition f64_abs :: "f64 \<Rightarrow> f64" where
  "f64_abs x = (if f64_neg_sign x then f64_neg x else x)"

fun f64_add :: "f64 \<Rightarrow> f64 \<Rightarrow> f64" where
  "f64_add NaN y = NaN"
| "f64_add x NaN = NaN"
| "f64_add (Inf a) (Inf b) = (if a = b then Inf a else NaN)"
| "f64_add (Inf a) y = Inf a"
| "f64_add x (Inf b) = Inf b"
| "f64_add x y = f64_round (f64_neg_sign x \<and> f64_neg_sign y) (f64_val x + f64_val y)"

definition f64_sub :: "f64 \<Rightarrow> f64 \<Rightarrow> f64" where
  "f64_sub x y = f64_add x (f64_neg y)"

definition f64_is_zero :: "f64 \<Rightarrow> bool" where
  "f64_is_zero x \<longleftrightarrow> x = Fin 0 \<or> x = NegZero"

fun f64_mul :: "f64 \<Rightarrow> f64 \<Rightarrow> f64" where
  "f64_mul NaN y = NaN"
| "f64_mul x NaN = NaN"
| "f64_mul (Inf a) y =
     (if f64_is_zero y then NaN else Inf (a \<noteq> f64_neg_sign y))"
| "f64_mul x (Inf b) =
     (if f64_is_zero x then NaN else Inf (f64_neg_sign x \<noteq> b))"
| "f64_mul x y = f64_round (f64_neg_sign x \<noteq> f64_neg_sign y) (f64_val x * f64_val y)"

fun f64_div :: "f64 \<Rightarrow> f64 \<Rightarrow> f64" where
  "f64_div NaN y = NaN"
| "f64_div x NaN = NaN"
| "f64_div (Inf a) (Inf b) = NaN"
| "f64_div (Inf a) y = Inf (a \<noteq> f64_neg_sign y)"
| "f64_div x (Inf b) = (if f64_neg_sign x \<noteq> b then NegZero else Fin 0)"
| "f64_div x y =
     (if f64_is_zero y then (if f64_is_zero x then NaN else Inf (f64_neg_sign x \<noteq> f64_neg_sign y))
      else f64_round (f64_neg_sign x \<noteq> f64_neg_sign y) (f64_val x / f64_val y))"

text \<open>Comparisons; \<open>f64_partial_cmp\<close> is \<open>None\<close> exactly when an operand is NaN.\<close>

datatype ordering = Less | Equal | Greater

definition cmp_of :: "'a :: linorder \<Rightarrow> 'a \<Rightarrow> ordering" where
  "cmp_of a b = (if a < b then Less else if a = b then Equal else Greater)"

fun f64_partial_cmp :: "f64 \<Rightarrow> f64 \<Rightarrow> ordering option" where
  "f64_partial_cmp NaN y = None"
| "f64_partial_cmp x NaN = None"
| "f64_partial_cmp (Inf a) (Inf b) = Some (if a = b then Equal else if a then Less else Greater)"
| "f64_partial_cmp (Inf a) y = Some (if a then Less else Greater)"
| "f64_partial_cmp x (Inf b) = Some (if b then Greater else Less)"
| "f64_partial_cmp x y = Some (cmp_of (f64_val x) (f64_val y))"

definition f64_lt :: "f64 \<Rightarrow> f64 \<Rightarrow> bool" where
  "f64_lt x y \<longleftrightarrow> f64_partial_cmp x y = Some Less"

definition f64_gt :: "f64 \<Rightarrow> f64 \<Rightarrow> bool" where
  "f64_gt x y \<longleftrightarrow> f64_partial_cmp x y = Some Greater"

definition f64_le :: "f64 \<Rightarrow> f64 \<Rightarrow> bool" where
  "f64_le x y \<longleftrightarrow> f64_partial_cmp x y = Some Less \<or> f64_partial_cmp x y = Some Equal"

definition f64_eq :: "f64 \<Rightarrow> f64 \<Rightarrow> bool" where
  "f64_eq x y \<longleftrightarrow> f64_partial_cmp x y = Some Equal"

text \<open>\<open>f64::max\<close> ignores a NaN operand.\<close>

definition f64_max :: "f64 \<Rightarrow> f64 \<Rightarrow> f64" where
  "f64_max x y = (if is_nan x then y else if is_nan y then x else if f64_lt x y then y else x)"

text \<open>\<open>x.clamp(lo, hi)\<close>, for constant non-NaN bounds.\<close>

definition f64_clamp :: "f64 \<Rightarrow> f64 \<Rightarrow> f64 \<Rightarrow> f64" where
  "f64_clamp x lo hi = (if f64_lt x lo then lo else if f64_gt x hi then hi else x)"

text \<open>Conversions: \<open>n as f64\<close> rounds; \<open>x as i64\<close> truncates, saturates, and maps
  NaN to 0.\<close>

definition f64_of_int :: "int \<Rightarrow> f64" where
  "f64_of_int n = f64_round False (of_int n)"

definition f64_of_u64 :: "u64 \<Rightarrow> f64" where
  "f64_of_u64 w = f64_of_int (uint w)"

definition rat_trunc :: "rat \<Rightarrow> int" where
  "rat_trunc r = (if 0 \<le> r then \<lfloor>r\<rfloor> else - \<lfloor>- r\<rfloor>)"

definition f64_to_int_sat :: "int \<Rightarrow> int \<Rightarrow> f64 \<Rightarrow> int" where
  "f64_to_int_sat lo hi x =
     (case x of NaN \<Rightarrow> 0 | Inf n \<Rightarrow> (if n then lo else hi)
      | _ \<Rightarrow> max lo (min hi (rat_trunc (f64_val x))))"

definition f64_as_i64 :: "f64 \<Rightarrow> int" where
  "f64_as_i64 x = f64_to_int_sat i64_min i64_max x"

text \<open>\<open>floor\<close>, \<open>ceil\<close> and \<open>round\<close> (half away from zero) give integral values, exact in
  binary64.\<close>

fun f64_floor :: "f64 \<Rightarrow> f64" where
  "f64_floor (Fin r) = Fin (of_int \<lfloor>r\<rfloor>)"
| "f64_floor x = x"

fun f64_ceil :: "f64 \<Rightarrow> f64" where
  "f64_ceil (Fin r) = (if \<lceil>r\<rceil> = 0 \<and> r < 0 then NegZero else Fin (of_int \<lceil>r\<rceil>))"
| "f64_ceil x = x"

text \<open>Square root, correctly rounded: \<open>isqrt\<close> of the scaled mantissa, then the nearer
  neighbour.\<close>

function isqrt :: "int \<Rightarrow> int" where
  "isqrt n = (if n \<le> 0 then 0
     else let r = 2 * isqrt (n div 4) in if (r + 1) * (r + 1) \<le> n then r + 1 else r)"
  by pat_completeness auto
termination
  by (relation "measure nat") auto

declare isqrt.simps [simp del]

definition rat_sqrt :: "rat \<Rightarrow> rat" where
  "rat_sqrt r =
     (let q = floor_log2 r div 2 - 52;
          x = r / pow2 (2 * q);
          s = isqrt \<lfloor>x\<rfloor>
      in of_int (if of_int (s * s + s) + 1 / 4 < x then s + 1 else s) * pow2 q)"

fun f64_sqrt :: "f64 \<Rightarrow> f64" where
  "f64_sqrt NaN = NaN"
| "f64_sqrt (Inf n) = (if n then NaN else Inf False)"
| "f64_sqrt NegZero = NegZero"
| "f64_sqrt (Fin r) = (if r < 0 then NaN else if r = 0 then Fin 0 else Fin (rat_sqrt r))"

text \<open>The constant \<open>std::f64::consts::LN_2\<close>.\<close>

definition LN_2 :: f64 where
  "LN_2 = Fin (6243314768165359 / 2 ^ 53)"

section \<open>Exactness on integers\<close>

lemma pow2_pos [simp]: "0 < pow2 e"
  by (simp add: pow2_def)

lemma pow2_of_nat: "pow2 (int n) = 2 ^ n"
  by (simp add: pow2_def)

lemma pow2_mono: "a \<le> b \<Longrightarrow> pow2 a \<le> pow2 b"
proof -
  assume "a \<le> b"
  consider "0 \<le> a" | "a < 0" "0 \<le> b" | "b < 0" using \<open>a \<le> b\<close> by linarith
  then show ?thesis
  proof cases
    case 1
    with \<open>a \<le> b\<close> show ?thesis by (simp add: pow2_def power_increasing nat_mono)
  next
    case 2
    then have "pow2 a \<le> 1" "1 \<le> pow2 b" by (simp_all add: pow2_def)
    then show ?thesis by simp
  next
    case 3
    with \<open>a \<le> b\<close> have "(2 :: rat) ^ nat (- b) \<le> 2 ^ nat (- a)"
      by (intro power_increasing) auto
    with 3 \<open>a \<le> b\<close> show ?thesis by (simp add: pow2_def frac_le)
  qed
qed

lemma floor_log2_of_int_le:
  assumes "0 < n"
  shows "pow2 (floor_log2 (of_int n)) \<le> of_int n"
proof -
  have q: "quotient_of (of_int n) = (n, 1)" by simp
  have b1: "blen 1 = 1" by (simp add: blen.simps [of 1] blen.simps [of 0])
  let ?k = "blen n - 1"
  have "pow2 ?k \<le> of_int n"
  proof -
    have "0 < blen n" and le: "2 ^ nat (blen n - 1) \<le> n"
      using blen_bounds [OF assms] by auto
    then have "pow2 ?k = of_int (2 ^ nat (blen n - 1))" by (simp add: pow2_def)
    also have "\<dots> \<le> of_int n" using le by (simp only: of_int_le_iff)
    finally show ?thesis .
  qed
  then show ?thesis by (simp add: floor_log2_def q b1)
qed

lemma round_half_even_of_int [simp]: "round_half_even (of_int n) = n"
  by (simp add: round_half_even_def)

lemma round_mag_of_int:
  assumes "0 < n" and "n < 2 ^ 53"
  shows "round_mag (of_int n) = Some (of_int n)"
proof -
  let ?e = "floor_log2 (of_int n)"
  have "?e \<le> 52"
  proof (rule ccontr)
    assume "\<not> ?e \<le> 52"
    then have "pow2 53 \<le> pow2 ?e" by (intro pow2_mono) simp
    also have "\<dots> \<le> of_int n" using assms(1) by (rule floor_log2_of_int_le)
    finally have "(of_int (2 ^ 53) :: rat) \<le> of_int n" by (simp add: pow2_def)
    then have "2 ^ 53 \<le> n" by (simp only: of_int_le_iff)
    with assms(2) show False by simp
  qed
  define m where "m = nat (- max (?e - 52) (- 1074))"
  have q: "max (?e - 52) (- 1074) = - int m"
    using \<open>?e \<le> 52\<close> by (simp add: m_def)
  have p: "pow2 (- int m) = 1 / 2 ^ m" by (cases "m = 0") (simp_all add: pow2_def)
  have i: "of_int n / pow2 (- int m) = (of_int (n * 2 ^ m) :: rat)" by (simp add: p)
  have small: "\<not> 2 ^ 1024 \<le> (of_int n :: rat)"
  proof -
    have "n < 2 ^ 1024" using assms(2) by simp
    then have "(of_int n :: rat) < of_int (2 ^ 1024)" by (simp only: of_int_less_iff)
    then show ?thesis by simp
  qed
  have "of_int (round_half_even (of_int n / pow2 (- int m))) * pow2 (- int m) = (of_int n :: rat)"
    unfolding i round_half_even_of_int by (simp add: p)
  then show ?thesis using small by (simp add: round_mag_def q)
qed

lemma f64_of_int_exact:
  assumes "\<bar>n\<bar> < 2 ^ 53"
  shows "f64_of_int n = Fin (of_int n)"
proof (cases "n = 0")
  case True
  then show ?thesis by (simp add: f64_of_int_def f64_round_def)
next
  case False
  then have "round_mag (of_int \<bar>n\<bar>) = Some (of_int \<bar>n\<bar>)"
    using assms by (intro round_mag_of_int) auto
  with False show ?thesis by (auto simp: f64_of_int_def f64_round_def)
qed

lemma f64_add_int_exact:
  assumes "\<bar>a + b\<bar> < 2 ^ 53"
  shows "f64_add (Fin (of_int a)) (Fin (of_int b)) = Fin (of_int (a + b))"
proof -
  have "f64_add (Fin (of_int a)) (Fin (of_int b)) = f64_of_int (a + b)"
    by (auto simp: f64_of_int_def f64_val_def f64_neg_sign_def f64_round_def)
  with f64_of_int_exact [OF assms] show ?thesis by simp
qed

lemma isqrt_bounds:
  assumes "0 \<le> n"
  shows "0 \<le> isqrt n \<and> isqrt n * isqrt n \<le> n \<and> n < (isqrt n + 1) * (isqrt n + 1)"
  using assms
proof (induction n rule: isqrt.induct)
  case (1 n)
  show ?case
  proof (cases "n \<le> 0")
    case True
    with 1 show ?thesis by (simp add: isqrt.simps)
  next
    case False
    define s where "s = isqrt (n div 4)"
    from 1 False have s: "0 \<le> s" "s * s \<le> n div 4" "n div 4 < (s + 1) * (s + 1)"
      by (auto simp: s_def)
    have lo: "4 * (s * s) \<le> n" using s(2) by linarith
    have hi: "n < 4 * ((s + 1) * (s + 1))" using s(3) by linarith
    have eq: "isqrt n = (if (2 * s + 1) * (2 * s + 1) \<le> n then 2 * s + 1 else 2 * s)"
      using False by (simp add: isqrt.simps [of n] s_def Let_def)
    show ?thesis using s lo hi unfolding eq by (simp add: algebra_simps)
  qed
qed

end
