(* ===== verification/Hll.thy ===== *)
theory Hll
  imports SketchSpec F64
begin

text \<open>
  HyperLogLog++ with 4096 registers (\<open>crates/beava-core/src/sketches/hll.rs\<close>): the SplitMix64
  finaliser, the split of a hash into register index and rank, insertion, merge and the
  bias-corrected estimate. The register vector always has 4096 entries and the index is
  below 4096 (\<open>hll_wf\<close> and its lemmas), so indexing never panics.

  The lemmas show that a register holds the largest rank of the hashes routed to it, and from
  it that the sketch is a \<open>set_sketch\<close>: order and repetition of the hashes do not matter and
  a merge is the sketch of the union.
\<close>

unbundle bit_operations_syntax

definition HLL_P :: nat where
  "HLL_P = 12"

definition HLL_M :: nat where
  "HLL_M = 4096"

definition f64_lit :: "int \<Rightarrow> f64" where
  "f64_lit n = f64_round False (of_int n / 10000)"

definition HLL_ALPHA :: f64 where
  "HLL_ALPHA = f64_div (f64_lit 7213)
     (f64_add (Fin 1) (f64_div (f64_round False (1079 / 1000)) (f64_of_int (int HLL_M))))"

definition LC_THRESHOLD :: f64 where
  "LC_THRESHOLD = Fin 3100"

definition KNN_K :: nat where
  "KNN_K = 6"

text \<open>The bias tables, in units of \<open>1 / 10000\<close>.\<close>

definition RAW_ESTIMATE_DATA :: "f64 list" where
  "RAW_ESTIMATE_DATA = map f64_lit [
    29540000, 30034782, 30533568, 31043666, 31553240, 32069598, 32596480, 33125390, 33661474,
    34202576, 34748376, 35306076, 35864510, 36433800, 37004104, 37575638, 38159676, 38751930,
    39348380, 39948548, 40550180, 41171742, 41784482, 42411294, 43044776, 43674044, 44318724,
    44963732, 45614304, 46275326, 46939490, 47615532, 48287256, 48976182, 49655186, 50344528,
    51048650, 51747164, 52446828, 53166708, 53878312, 54599036, 55324760, 56048652, 56796718,
    57537570, 58302072, 59052828, 59800434, 60566264, 61343192, 62115746, 62900816, 63671176,
    64479796, 65265576, 66061858, 66869144, 67661142, 68470818, 69279664, 70109096, 70910816,
    71753962, 72603454, 73440180, 74264214, 75113106, 75960686, 76798094, 77658180, 78524248,
    79368340, 80223630, 81095066, 82004554, 82885832, 83733660, 84634808, 85497682, 86420522,
    87283288, 88209528, 89077270, 90010794, 90912522, 91799880, 92698520, 93626394, 94536420,
    95469024, 96406616, 97326622, 98243254, 99177484, 100079392, 101067508, 101962152,
    102898114, 103835494, 104823064, 105768734, 106687872, 107647156, 108620196, 109527930,
    110499748, 111460702, 112414492, 113392772, 114342336, 115307410, 116276136, 117263110,
    118215964, 119188370, 120153724, 121130162, 122130424, 123069804, 124084518, 125048968,
    126045860, 127009332, 127987050, 128985142, 129970488, 130947880, 131984750, 132927764,
    133929698, 134868574, 135901616, 136865838, 137836264, 138872638, 139920978, 140810844,
    141899956, 142800912, 143824956, 144864384, 145881082, 146862392, 147822760, 148880284,
    149851864, 150888596, 151870998, 152850270, 153836694, 154958266, 155913736, 156942008,
    157903246, 158984116, 159974522, 160955014, 161988514, 162917492, 164026424, 164991266,
    166062436, 166977186, 167963946, 169023376, 170057672, 171008140, 172068282, 173058262,
    174160744, 175084092, 176170178, 177154554, 178167580, 179201748, 180129236, 181197984,
    182232248, 183242482, 184266276, 185250932, 186298976, 187332588, 188310466, 189401366,
    190322696, 191317290, 192434864, 193496932, 194428660, 195479448, 196532798, 197544034,
    198540692, 199651224, 200651774, 201582212, 202533530, 203663264, 204632200]"

definition BIAS_DATA :: "f64 list" where
  "BIAS_DATA = map f64_lit [
    29530000, 29004782, 28483568, 27963666, 27453240, 26949598, 26446480, 25955390, 25461474,
    24982576, 24508376, 24036076, 23574510, 23113800, 22664104, 22215638, 21769676, 21341930,
    20908380, 20488548, 20070180, 19661742, 19254482, 18851294, 18464776, 18074044, 17688724,
    17313732, 16934304, 16575326, 16219490, 15865532, 15517256, 15176182, 14835186, 14504528,
    14178650, 13857164, 13526828, 13226708, 12918312, 12609036, 12314760, 12018652, 11736718,
    11457570, 11192072, 10922828, 10650434, 10386264, 10143192, 9885746, 9650816, 9401176,
    9179796, 8945576, 8711858, 8499144, 8271142, 8050818, 7839664, 7639096, 7420816, 7243962,
    7063454, 6880180, 6674214, 6503106, 6330686, 6138094, 5978180, 5814248, 5638340, 5473630,
    5315066, 5204554, 5055832, 4883660, 4764808, 4597682, 4500522, 4343288, 4239528, 4087270,
    3990794, 3872522, 3739880, 3608520, 3516394, 3396420, 3309024, 3226616, 3116622, 3013254,
    2917484, 2799392, 2767508, 2632152, 2548114, 2455494, 2423064, 2348734, 2237872, 2177156,
    2120196, 2007930, 1959748, 1890702, 1824492, 1772772, 1702336, 1647410, 1586136, 1553110,
    1475964, 1428370, 1373724, 1320162, 1300424, 1219804, 1204518, 1148968, 1115860, 1059332,
    1017050, 985142, 950488, 897880, 914750, 837764, 809698, 728574, 731616, 675838, 626264,
    632638, 660978, 520844, 589956, 470912, 464956, 484384, 471082, 432392, 372760, 400284,
    351864, 358596, 320998, 280270, 236694, 338266, 263736, 272008, 213246, 264116, 234522,
    195014, 198514, 107492, 186424, 131266, 182436, 67186, 33946, 63376, 77672, 8140, 38282,
    8262, 80744, - 15908, 50178, 4554, - 2420, 1748, - 90764, - 42016, - 37752, - 47518,
    - 53724, - 89068, - 61024, - 57412, - 99534, - 38634, - 137304, - 162710, - 75136, - 33068,
    - 131340, - 100552, - 67202, - 85966, - 109308, - 18776, - 48226, - 137788, - 216470,
    - 106736, - 157800]"

record Hll =
  registers :: "u8 list"

definition hll_new :: Hll where
  "hll_new = \<lparr>registers = replicate HLL_M 0\<rparr>"

definition mix64 :: "u64 \<Rightarrow> u64" where
  "mix64 z =
     (let z1 = (z XOR drop_bit 30 z) * 0xbf58476d1ce4e5b9;
          z2 = (z1 XOR drop_bit 27 z1) * 0x94d049bb133111eb
      in z2 XOR drop_bit 31 z2)"

definition leading_zeros :: "u64 \<Rightarrow> nat" where
  "leading_zeros w = nat (64 - blen (uint w))"

definition hash_to_register :: "u64 \<Rightarrow> nat \<times> u8" where
  "hash_to_register hash =
     (let h = mix64 hash;
          index = unat (drop_bit (64 - HLL_P) h);
          remaining = push_bit HLL_P h OR push_bit (HLL_P - 1) 1;
          rank = of_nat (leading_zeros remaining) + 1
      in (index, rank))"

definition hll_add_hash :: "u64 \<Rightarrow> Hll \<Rightarrow> Hll" where
  "hll_add_hash hash s =
     (case hash_to_register hash of (idx, rank) \<Rightarrow>
        if registers s ! idx < rank then s\<lparr>registers := (registers s)[idx := rank]\<rparr> else s)"

definition hll_merge :: "Hll \<Rightarrow> Hll \<Rightarrow> Hll" where
  "hll_merge s other = s\<lparr>registers := map2 (\<lambda>a b. if a < b then b else a) (registers s) (registers other)\<rparr>"

text \<open>\<open>f64::round\<close>: half-way cases away from zero; \<open>as u64\<close> truncates and saturates.\<close>

definition round_as_u64 :: "f64 \<Rightarrow> u64" where
  "round_as_u64 x =
     (case x of
        NaN \<Rightarrow> 0
      | Inf neg \<Rightarrow> if neg then 0 else - 1
      | NegZero \<Rightarrow> 0
      | Fin r \<Rightarrow> let n = (if r < 0 then - \<lfloor>- r + 1 / 2\<rfloor> else \<lfloor>r + 1 / 2\<rfloor>) in
                 if n < 0 then 0 else if 2 ^ 64 \<le> n then - 1 else of_int n)"

definition f64_sum :: "f64 list \<Rightarrow> f64" where
  "f64_sum xs = foldl f64_add (Fin 0) xs"

text \<open>The distances are finite, so the comparison of the stable sort never unwraps \<open>None\<close>.\<close>

definition estimate_bias_knn :: "f64 \<Rightarrow> f64" where
  "estimate_bias_knn raw =
     (let distances = map (\<lambda>(i, est). (f64_abs (f64_sub raw est), i)) (List.enumerate 0 RAW_ESTIMATE_DATA);
          sorted = sort_key (\<lambda>(d, i). f64_val d) distances;
          k = min KNN_K (length RAW_ESTIMATE_DATA)
      in f64_div (f64_sum (map (\<lambda>(_, i). BIAS_DATA ! i) (take k sorted))) (f64_of_int (int k)))"

definition hll_estimate :: "libm \<Rightarrow> Hll \<Rightarrow> u64" where
  "hll_estimate lm s =
     (let m = f64_of_int (int HLL_M);
          total = f64_sum (map (\<lambda>r. Fin (pow2 (- int (unat r)))) (registers s));
          raw = f64_div (f64_mul (f64_mul HLL_ALPHA m) m) total;
          zeros = length (filter (\<lambda>r. r = 0) (registers s));
          lc = (if 0 < zeros then f64_mul m (ln_f lm (f64_div m (f64_of_int (int zeros)))) else Fin 0)
      in if f64_le raw LC_THRESHOLD \<and> 0 < zeros then round_as_u64 lc
         else if f64_le raw (RAW_ESTIMATE_DATA ! (length RAW_ESTIMATE_DATA - 1)) then
           (let corrected = f64_max (f64_sub raw (estimate_bias_knn raw)) (Fin 0)
            in if 0 < zeros \<and> f64_lt lc corrected then round_as_u64 lc else round_as_u64 corrected)
         else round_as_u64 raw)"

section \<open>Registers\<close>

definition hll_wf :: "Hll \<Rightarrow> bool" where
  "hll_wf s \<longleftrightarrow> length (registers s) = HLL_M"

lemma hll_index_lt: "hash_to_register h = (i, r) \<Longrightarrow> i < HLL_M"
proof -
  have "unat (drop_bit 52 w) < 4096" for w :: u64
  proof -
    have "unat w < 2 ^ LENGTH(64)" by (rule unsigned_less)
    moreover have "unat (drop_bit 52 w) = unat w div 2 ^ 52" 
      unfolding unat_drop_bit_eq by (rule drop_bit_eq_div)
    ultimately show ?thesis by simp
  qed
  then show "hash_to_register h = (i, r) \<Longrightarrow> i < HLL_M"
    by (auto simp: hash_to_register_def Let_def HLL_P_def HLL_M_def)
qed

lemma hll_wf_new [simp]: "hll_wf hll_new"
  by (simp add: hll_wf_def hll_new_def)

lemma hll_wf_add [simp]: "hll_wf s \<Longrightarrow> hll_wf (hll_add_hash h s)"
  by (simp add: hll_wf_def hll_add_hash_def split: prod.splits)

lemma hll_wf_run [simp]: "hll_wf s \<Longrightarrow> hll_wf (fold hll_add_hash hs s)"
  by (induction hs arbitrary: s) auto

text \<open>The largest rank among the hashes routed to register \<open>i\<close>.\<close>

definition top_rank :: "nat \<Rightarrow> u64 list \<Rightarrow> u8 \<Rightarrow> u8" where
  "top_rank i hs r0 = fold (\<lambda>h r. case hash_to_register h of (j, k) \<Rightarrow> if j = i then max r k else r) hs r0"

lemma hll_registers_run:
  assumes "hll_wf s" and "i < HLL_M"
  shows "registers (fold hll_add_hash hs s) ! i = top_rank i hs (registers s ! i)"
  using assms
proof (induction hs arbitrary: s)
  case Nil
  then show ?case by (simp add: top_rank_def)
next
  case (Cons h hs)
  obtain j k where jk: "hash_to_register h = (j, k)" by (cases "hash_to_register h")
  have "registers (hll_add_hash h s) ! i = (if j = i then max (registers s ! i) k else registers s ! i)"
    using Cons.prems hll_index_lt [OF jk]
    by (auto simp: hll_add_hash_def jk hll_wf_def max_def nth_list_update)
  with Cons show ?case by (simp add: top_rank_def jk)
qed

lemma Max_insert_max:
  fixes r k :: "'a :: linorder"
  assumes "finite A"
  shows "Max (insert (max r k) A) = Max (insert r (insert k A))"
  using assms by (cases "A = {}") (auto simp: max.assoc)

lemma top_rank_Max:
  "top_rank i hs r = Max (insert r ((snd \<circ> hash_to_register) ` {h \<in> set hs. fst (hash_to_register h) = i}))"
proof (induction hs arbitrary: r)
  case Nil
  then show ?case by (simp add: top_rank_def)
next
  case (Cons h hs)
  obtain j k where jk: "hash_to_register h = (j, k)" by (cases "hash_to_register h")
  show ?case
  proof (cases "j = i")
    case True
    have "{h' \<in> set (h # hs). fst (hash_to_register h') = i} = insert h {h' \<in> set hs. fst (hash_to_register h') = i}"
      using jk True by auto
    then show ?thesis
      using Cons.IH [of "max r k"] True jk
      by (simp add: top_rank_def Max_insert_max del: Max_insert)
  next
    case False
    then have "{h' \<in> set (h # hs). fst (hash_to_register h') = i} = {h' \<in> set hs. fst (hash_to_register h') = i}"
      using jk by auto
    then show ?thesis using Cons.IH [of r] False jk by (simp add: top_rank_def)
  qed
qed

lemma hll_run_set:
  assumes "set xs = set ys"
  shows "fold hll_add_hash xs hll_new = fold hll_add_hash ys hll_new"
proof -
  have wf: "length (registers (fold hll_add_hash zs hll_new)) = HLL_M" for zs
    using hll_wf_run [OF hll_wf_new, of zs] by (simp add: hll_wf_def)
  have "registers (fold hll_add_hash xs hll_new) = registers (fold hll_add_hash ys hll_new)"
    by (rule nth_equalityI) (simp_all add: wf hll_registers_run top_rank_Max assms)
  then show ?thesis by (metis (full_types) Hll.equality old.unit.exhaust)
qed

lemma hll_merge_runs:
  "hll_merge (fold hll_add_hash xs hll_new) (fold hll_add_hash ys hll_new) = fold hll_add_hash (xs @ ys) hll_new"
proof -
  have wf: "length (registers (fold hll_add_hash zs hll_new)) = HLL_M" for zs
    using hll_wf_run [OF hll_wf_new, of zs] by (simp add: hll_wf_def)
  have zero: "registers hll_new ! i = 0" if "i < HLL_M" for i
    using that by (simp add: hll_new_def)
  have "registers (hll_merge (fold hll_add_hash xs hll_new) (fold hll_add_hash ys hll_new)) =
      registers (fold hll_add_hash (xs @ ys) hll_new)"
  proof (rule nth_equalityI)
    show "length (registers (hll_merge (fold hll_add_hash xs hll_new) (fold hll_add_hash ys hll_new))) =
        length (registers (fold hll_add_hash (xs @ ys) hll_new))"
      unfolding wf by (simp add: hll_merge_def wf)
  next
    fix i
    assume "i < length (registers (hll_merge (fold hll_add_hash xs hll_new) (fold hll_add_hash ys hll_new)))"
    then have i: "i < HLL_M" by (simp add: hll_merge_def wf)
    let ?K = "\<lambda>zs. (snd \<circ> hash_to_register) ` {h \<in> set zs. fst (hash_to_register h) = i}"
    have "?K (xs @ ys) = ?K xs \<union> ?K ys" by auto
    moreover have "Max (insert 0 (A \<union> B)) = max (Max (insert 0 A)) (Max (insert 0 B))"
      if "finite A" "finite B" for A B :: "u8 set"
      using that Max_Un [of "insert 0 A" "insert 0 B"] by (simp del: Max_insert)
    ultimately have "top_rank i (xs @ ys) 0 = max (top_rank i xs 0) (top_rank i ys 0)"
      by (simp add: top_rank_Max del: Max_insert set_append)
    moreover have "registers (hll_merge (fold hll_add_hash xs hll_new) (fold hll_add_hash ys hll_new)) ! i =
        max (top_rank i xs 0) (top_rank i ys 0)"
      using i by (auto simp: hll_merge_def wf hll_registers_run zero max_def)
    ultimately show "registers (hll_merge (fold hll_add_hash xs hll_new) (fold hll_add_hash ys hll_new)) ! i =
        registers (fold hll_add_hash (xs @ ys) hll_new) ! i"
      using i hll_registers_run [of hll_new i "xs @ ys"] by (simp add: zero)
  qed
  then show ?thesis by (metis (full_types) Hll.equality old.unit.exhaust)
qed

interpretation hll: set_sketch hll_new hll_add_hash hll_merge
  by unfold_locales (rule hll_merge_runs, rule hll_run_set)

section \<open>Rank bounds\<close>

lemma blen_mono: "0 < a \<Longrightarrow> a \<le> b \<Longrightarrow> blen a \<le> blen b"
proof -
  assume a: "0 < a" "a \<le> b"
  have "(2 :: int) ^ nat (blen a - 1) < 2 ^ nat (blen b)"
    using blen_bounds [of a] blen_bounds [of b] a by linarith
  then have "nat (blen a - 1) < nat (blen b)"
    by (metis one_less_numeral_iff power_less_imp_less_exp semiring_norm(76))
  then show "blen a \<le> blen b" by linarith
qed

text \<open>The guard bit keeps every rank between 1 and 53, so it fits the register.\<close>

lemma hll_rank_bounds:
  assumes "hash_to_register h = (i, r)"
  shows "1 \<le> unat r \<and> unat r \<le> 53"
proof -
  define w :: u64 where "w = push_bit 12 (mix64 h) OR push_bit 11 1"
  have r: "r = of_nat (leading_zeros w) + 1"
    using assms by (auto simp: hash_to_register_def Let_def HLL_P_def w_def)
  have "uint (push_bit 11 1 :: u64) \<le> uint w"
    unfolding w_def unsigned_or_eq by (subst or.commute) (rule or_greater_eq, simp)
  then have "2 ^ 11 \<le> uint w" by simp
  then have "blen (2 ^ 11) \<le> blen (uint w)" by (intro blen_mono) simp_all
  moreover have "blen (2 ^ 11) = 12" by code_simp
  ultimately have "leading_zeros w \<le> 52" by (simp add: leading_zeros_def)
  then show ?thesis by (simp add: r unat_word_ariths unat_of_nat take_bit_nat_eq_self)
qed

end
