(* ===== verification/Rows.thy ===== *)
theory Rows
  imports F64
begin

text \<open>
  The data model of \<open>crates/beava-core/src/row.rs\<close>: the dynamically typed
  \<open>Value\<close>, SQL's three-valued connectives on it, and \<open>Row\<close>, an insertion-ordered
  vector of named fields searched from the front. A \<open>BTreeMap\<close> inside a value is an
  association list sorted by key. \<open>serde_json::Value\<close> is represented by the
  constructors that the source matches on; a JSON number is what its accessors
  \<open>as_i64\<close> and \<open>as_f64\<close> return.

  The lemmas give the lookup laws of the row operations, the connectives as Kleene's
  strong logic, and the two different treatments of duplicate keys by the
  deserializer.
\<close>

section \<open>Values\<close>

datatype Json =
    JNull
  | JBool bool
  | JNumber (as_i64: "int option") (as_f64: "f64 option")
  | JString string
  | JArray "Json list"
  | JObject "(string \<times> Json) list"

datatype Value =
    VNull
  | VStr string
  | VI64 int
  | VF64 f64
  | VBool bool
  | VBytes "u8 list"
  | VDatetime int
  | VJson Json
  | VList "Value list"
  | VMap "(string \<times> Value) list"

datatype FieldType = TStr | TF64 | TI64 | TBool | TBytes | TDatetime | TJson

text \<open>\<open>impl PartialEq for Value\<close>.\<close>

fun value_eq :: "Value \<Rightarrow> Value \<Rightarrow> bool"
  and values_eq :: "Value list \<Rightarrow> Value list \<Rightarrow> bool"
  and entries_eq :: "(string \<times> Value) list \<Rightarrow> (string \<times> Value) list \<Rightarrow> bool" where
  "value_eq VNull w = (w = VNull)"
| "value_eq (VF64 a) w = (case w of VF64 b \<Rightarrow> \<not> is_nan a \<and> \<not> is_nan b \<and> f64_eq a b | _ \<Rightarrow> False)"
| "value_eq (VStr a) w = (w = VStr a)"
| "value_eq (VI64 a) w = (w = VI64 a)"
| "value_eq (VBool a) w = (w = VBool a)"
| "value_eq (VBytes a) w = (w = VBytes a)"
| "value_eq (VDatetime a) w = (w = VDatetime a)"
| "value_eq (VJson a) w = (w = VJson a)"
| "value_eq (VList a) w = (case w of VList b \<Rightarrow> values_eq a b | _ \<Rightarrow> False)"
| "value_eq (VMap a) w = (case w of VMap b \<Rightarrow> entries_eq a b | _ \<Rightarrow> False)"
| "values_eq [] ws = (ws = [])"
| "values_eq (x # xs) ws = (case ws of y # ys \<Rightarrow> value_eq x y \<and> values_eq xs ys | [] \<Rightarrow> False)"
| "entries_eq [] ws = (ws = [])"
| "entries_eq ((k, x) # xs) ws =
     (case ws of (l, y) # ys \<Rightarrow> k = l \<and> value_eq x y \<and> entries_eq xs ys | [] \<Rightarrow> False)"

fun type_of :: "Value \<Rightarrow> FieldType option" where
  "type_of VNull = None"
| "type_of (VStr _) = Some TStr"
| "type_of (VI64 _) = Some TI64"
| "type_of (VF64 _) = Some TF64"
| "type_of (VBool _) = Some TBool"
| "type_of (VBytes _) = Some TBytes"
| "type_of (VDatetime _) = Some TDatetime"
| "type_of (VJson _) = Some TJson"
| "type_of (VList _) = None"
| "type_of (VMap _) = None"

fun json_value_to_beava_value :: "Json \<Rightarrow> Value"
  and json_object_to_map :: "(string \<times> Json) list \<Rightarrow> (string \<times> Value) list \<Rightarrow> (string \<times> Value) list" where
  "json_value_to_beava_value JNull = VNull"
| "json_value_to_beava_value (JBool b) = VBool b"
| "json_value_to_beava_value (JNumber i f) =
     (case i of Some n \<Rightarrow> VI64 n
      | None \<Rightarrow> (case f of Some x \<Rightarrow> VF64 x | None \<Rightarrow> VNull))"
| "json_value_to_beava_value (JString s) = VStr s"
| "json_value_to_beava_value (JArray arr) = VList (map json_value_to_beava_value arr)"
| "json_value_to_beava_value (JObject obj) = VMap (json_object_to_map obj [])"
| "json_object_to_map [] m = m"
| "json_object_to_map ((k, v) # obj) m =
     json_object_to_map obj (btree_insert k (json_value_to_beava_value v) m)"

section \<open>Three-valued logic\<close>

definition and_three_valued :: "Value \<Rightarrow> Value \<Rightarrow> Value" where
  "and_three_valued a b =
     (case (a, b) of
        (VBool False, VBool _) \<Rightarrow> VBool False
      | (VBool False, VNull) \<Rightarrow> VBool False
      | (VBool _, VBool False) \<Rightarrow> VBool False
      | (VNull, VBool False) \<Rightarrow> VBool False
      | (VBool True, VBool True) \<Rightarrow> VBool True
      | _ \<Rightarrow> VNull)"

definition or_three_valued :: "Value \<Rightarrow> Value \<Rightarrow> Value" where
  "or_three_valued a b =
     (case (a, b) of
        (VBool True, VBool _) \<Rightarrow> VBool True
      | (VBool True, VNull) \<Rightarrow> VBool True
      | (VBool _, VBool True) \<Rightarrow> VBool True
      | (VNull, VBool True) \<Rightarrow> VBool True
      | (VBool False, VBool False) \<Rightarrow> VBool False
      | _ \<Rightarrow> VNull)"

fun not_three_valued :: "Value \<Rightarrow> Value" where
  "not_three_valued (VBool b) = VBool (\<not> b)"
| "not_three_valued _ = VNull"

text \<open>Kleene's order on the truth values: false below unknown below true.\<close>

fun tri_rank :: "Value \<Rightarrow> nat option" where
  "tri_rank (VBool False) = Some 0"
| "tri_rank VNull = Some 1"
| "tri_rank (VBool True) = Some 2"
| "tri_rank _ = None"

lemma tri_rank_cases:
  assumes "tri_rank v = Some n"
  obtains "v = VBool False" "n = 0" | "v = VNull" "n = 1" | "v = VBool True" "n = 2"
  using assms by (cases v rule: tri_rank.cases) auto

lemma tri_and_min:
  "tri_rank a = Some m \<Longrightarrow> tri_rank b = Some n \<Longrightarrow> tri_rank (and_three_valued a b) = Some (min m n)"
  by (elim tri_rank_cases) (auto simp: and_three_valued_def)

lemma tri_or_max:
  "tri_rank a = Some m \<Longrightarrow> tri_rank b = Some n \<Longrightarrow> tri_rank (or_three_valued a b) = Some (max m n)"
  by (elim tri_rank_cases) (auto simp: or_three_valued_def)

lemma tri_not_complement:
  "tri_rank a = Some m \<Longrightarrow> tri_rank (not_three_valued a) = Some (2 - m)"
  by (elim tri_rank_cases) auto

section \<open>Rows\<close>

type_synonym Row = "(string \<times> Value) list"

definition row_get :: "Row \<Rightarrow> string \<Rightarrow> Value option" where
  "row_get r field = map_option snd (List.find (\<lambda>(k, _). k = field) r)"

definition with_field :: "Row \<Rightarrow> string \<Rightarrow> Value \<Rightarrow> Row" where
  "with_field r field v =
     (case position (\<lambda>(k, _). k = field) r of
        Some i \<Rightarrow> r[i := (fst (r ! i), v)]
      | None \<Rightarrow> r @ [(field, v)])"

definition without_field :: "Row \<Rightarrow> string \<Rightarrow> Row" where
  "without_field r field =
     (case position (\<lambda>(k, _). k = field) r of
        Some i \<Rightarrow> take i r @ drop (Suc i) r
      | None \<Rightarrow> r)"

definition renamed :: "Row \<Rightarrow> string \<Rightarrow> string \<Rightarrow> Row" where
  "renamed r old new =
     (case position (\<lambda>(k, _). k = old) r of
        Some i \<Rightarrow> with_field (take i r @ drop (Suc i) r) new (snd (r ! i))
      | None \<Rightarrow> r)"

text \<open>A row with at most one entry per field name: what every row built from
  \<open>Row::new\<close> by the methods above is.\<close>

definition row_wf :: "Row \<Rightarrow> bool" where
  "row_wf r \<longleftrightarrow> distinct (keys r)"

lemma row_get_map_of: "row_get r f = map_of r f"
  unfolding row_get_def by (induction r) auto

lemma with_field_Nil: "with_field [] f v = [(f, v)]"
  by (simp add: with_field_def)

lemma with_field_Cons:
  "with_field ((k, x) # r) f v = (if k = f then (f, v) # r else (k, x) # with_field r f v)"
  by (auto simp: with_field_def split: option.splits)

lemma without_field_Cons:
  "without_field ((k, x) # r) f = (if k = f then r else (k, x) # without_field r f)"
  by (auto simp: without_field_def split: option.splits)

lemma without_field_Nil: "without_field [] f = []"
  by (simp add: without_field_def)

lemma renamed_alt:
  "renamed r old new =
     (case row_get r old of None \<Rightarrow> r | Some v \<Rightarrow> with_field (without_field r old) new v)"
proof (cases "position (\<lambda>(k, _). k = old) r")
  case None
  then have "row_get r old = None"
    by (force simp: row_get_map_of map_of_eq_None_iff position_None_iff)
  with None show ?thesis by (simp add: renamed_def)
next
  case (Some i)
  have "row_get r old = Some (snd (r ! i))"
    using Some unfolding row_get_map_of
    by (induction r arbitrary: i) (auto split: if_splits)
  with Some show ?thesis by (simp add: renamed_def without_field_def)
qed

lemma row_get_with_field [row_laws]: "row_get (with_field r f v) = (row_get r)(f \<mapsto> v)"
  unfolding row_get_map_of
  by (induction r) (auto simp: with_field_Nil with_field_Cons fun_eq_iff)

lemma keys_with_field:
  "keys (with_field r f v) = (if f \<in> fst ` set r then keys r else keys r @ [f])"
proof (induction r)
  case Nil
  then show ?case by (simp add: with_field_Nil)
next
  case (Cons p r)
  then show ?case by (cases p) (simp add: with_field_Cons)
qed

lemma keys_without_field: "keys (without_field r f) = remove1 f (keys r)"
  by (induction r) (auto simp: without_field_Nil without_field_Cons)

lemma row_wf_with_field [wf_intros]: "row_wf r \<Longrightarrow> row_wf (with_field r f v)"
  by (simp add: row_wf_def keys_with_field)

lemma row_wf_without_field [wf_intros]: "row_wf r \<Longrightarrow> row_wf (without_field r f)"
  by (simp add: row_wf_def keys_without_field distinct_remove1)

lemma row_wf_renamed [wf_intros]: "row_wf r \<Longrightarrow> row_wf (renamed r old new)"
  by (auto simp: renamed_alt split: option.splits intro!: wf_intros)

lemma row_get_without_field [row_laws]:
  assumes "row_wf r"
  shows "row_get (without_field r f) = (row_get r)(f := None)"
  using assms unfolding row_get_map_of row_wf_def
proof (induction r)
  case Nil
  then show ?case by (simp add: without_field_Nil)
next
  case (Cons p r)
  obtain k v where p: "p = (k, v)" by (cases p)
  from Cons.prems have none: "map_of r k = None" by (simp add: p map_of_eq_None_iff)
  with Cons show ?case by (auto simp: p without_field_Cons fun_eq_iff)
qed

lemma row_get_renamed [row_laws]:
  assumes "row_wf r"
  shows "row_get (renamed r old new) =
    (case row_get r old of None \<Rightarrow> row_get r | Some v \<Rightarrow> (row_get r)(old := None, new \<mapsto> v))"
  using assms by (auto simp: renamed_alt row_laws split: option.splits)

section \<open>Deserialization\<close>

text \<open>What a self-describing deserializer hands to \<open>BeavaValueVisitor\<close>: one
  constructor per \<open>visit_\<close> method of the visitor.\<close>

datatype serde_value =
    SBool bool
  | SI64 int
  | SU64 u64
  | SI128 int
  | SU128 int
  | SF64 f64
  | SStr string
  | SBytes "u8 list"
  | SUnit
  | SSome serde_value
  | SSeq "serde_value list"
  | SMap "(string \<times> serde_value) list"

definition visit_u64 :: "u64 \<Rightarrow> Value" where
  "visit_u64 v = (if uint v \<le> i64_max then VI64 (uint v) else VF64 (f64_of_u64 v))"

definition visit_i128 :: "int \<Rightarrow> Value" where
  "visit_i128 v = (if i64_min \<le> v \<and> v \<le> i64_max then VI64 v else VF64 (f64_of_int v))"

definition visit_u128 :: "int \<Rightarrow> Value" where
  "visit_u128 v = (if v \<le> i64_max then VI64 v else VF64 (f64_of_int v))"

fun beava_visit :: "serde_value \<Rightarrow> Value"
  and visit_map :: "(string \<times> serde_value) list \<Rightarrow> (string \<times> Value) list \<Rightarrow> (string \<times> Value) list" where
  "beava_visit (SBool b) = VBool b"
| "beava_visit (SI64 n) = VI64 n"
| "beava_visit (SU64 n) = visit_u64 n"
| "beava_visit (SI128 n) = visit_i128 n"
| "beava_visit (SU128 n) = visit_u128 n"
| "beava_visit (SF64 x) = VF64 x"
| "beava_visit (SStr s) = VStr s"
| "beava_visit (SBytes b) = VBytes b"
| "beava_visit SUnit = VNull"
| "beava_visit (SSome v) = beava_visit v"
| "beava_visit (SSeq vs) = VList (map beava_visit vs)"
| "beava_visit (SMap m) = VMap (visit_map m [])"
| "visit_map [] out = out"
| "visit_map ((k, v) # m) out = visit_map m (btree_insert k (beava_visit v) out)"

text \<open>\<open>RowVisitor::visit_map\<close> pushes every entry, duplicates included.\<close>

definition row_deserialize :: "(string \<times> serde_value) list \<Rightarrow> Row" where
  "row_deserialize m = map (\<lambda>(k, v). (k, beava_visit v)) m"

lemma row_deserialize_first:
  "row_get (row_deserialize m) k = map_option beava_visit (map_of m k)"
  unfolding row_get_map_of row_deserialize_def by (induction m) auto

lemma visit_map_wf: "btree_wf out \<Longrightarrow> btree_wf (visit_map m out)"
proof (induction m arbitrary: out)
  case Nil
  then show ?case by simp
next
  case (Cons p m)
  show ?case using Cons.IH [OF btree_wf_upsert [OF Cons.prems]] by (cases p) simp
qed

lemma visit_map_last:
  assumes "btree_wf out"
  shows "map_of (visit_map m out) = map_of out ++ (\<lambda>k. map_option beava_visit (map_of (rev m) k))"
  using assms
proof (induction m arbitrary: out)
  case Nil
  show ?case by (simp add: map_add_def fun_eq_iff)
next
  case (Cons p m)
  obtain k v where p: "p = (k, v)" by (cases p)
  let ?out = "btree_insert k (beava_visit v) out"
  have wf: "btree_wf ?out" using Cons.prems by (rule btree_wf_upsert)
  have "map_of ?out = (map_of out)(k \<mapsto> beava_visit v)"
    using Cons.prems by (simp add: map_of_btree_upsert option.case_eq_if)
  then show ?case
    using Cons.IH [OF wf] by (auto simp: p map_add_def fun_eq_iff split: option.splits)
qed

section \<open>Integer ranges\<close>

text \<open>Every integer inside a value is an \<open>i64\<close>.\<close>

fun value_wf :: "Value \<Rightarrow> bool" where
  "value_wf (VI64 n) = is_i64 n"
| "value_wf (VDatetime n) = is_i64 n"
| "value_wf (VList vs) = list_all value_wf vs"
| "value_wf (VMap m) = list_all (\<lambda>(_, v). value_wf v) m"
| "value_wf _ = True"

lemma visit_u64_wf [simp]: "value_wf (visit_u64 v)"
proof -
  have "i64_min \<le> uint v" by (rule order_trans [of _ 0]) simp_all
  then show ?thesis by (simp add: visit_u64_def is_i64_def)
qed

section \<open>Properties\<close>

text \<open>The three-valued connectives are strong Kleene logic on the chain
  \<open>false < Null < true\<close>: conjunction is the minimum, disjunction the maximum and negation
  the order reversal.\<close>

lemma kleene_logic:
  assumes "tri_rank a = Some m" and "tri_rank b = Some n"
  shows "tri_rank (and_three_valued a b) = Some (min m n) \<and>
    tri_rank (or_three_valued a b) = Some (max m n) \<and>
    tri_rank (not_three_valued a) = Some (2 - m)"
  using tri_and_min [OF assms] tri_or_max [OF assms] tri_not_complement [OF assms(1)] by simp

text \<open>A row with distinct field names is a finite map: adding, removing and renaming a
  field act on lookups as map updates (renaming an absent field is the identity, renaming
  onto an existing field replaces it), and all three keep the names distinct.\<close>

lemma row_operations:
  assumes "row_wf r"
  shows "row_get (with_field r f v) = (row_get r)(f \<mapsto> v) \<and> row_wf (with_field r f v) \<and>
    row_get (without_field r f) = (row_get r)(f := None) \<and> row_wf (without_field r f) \<and>
    row_get (renamed r f g) =
      (case row_get r f of None \<Rightarrow> row_get r | Some w \<Rightarrow> (row_get r)(f := None, g \<mapsto> w)) \<and>
    row_wf (renamed r f g)"
  using assms by (simp add: row_laws wf_intros)

text \<open>Duplicate keys of an incoming document: at the top level of a row the first
  occurrence is the one lookups return, inside a nested object the last occurrence is, and a
  nested object is always strictly sorted by key.\<close>

lemma duplicate_keys:
  "row_get (row_deserialize m) k = map_option beava_visit (map_of m k) \<and>
   (\<exists>entries. beava_visit (SMap m) = VMap entries \<and> btree_wf entries \<and>
      map_of entries k = map_option beava_visit (map_of (rev m) k))"
  using visit_map_last [of "[]" m] visit_map_wf [of "[]" m]
  by (simp add: row_deserialize_first map_add_def split: option.splits)

end
