(* ===== verification/Exprs.thy ===== *)
theory Exprs
  imports Rows
begin

text \<open>
  Expressions of the pipeline DSL: the syntax tree and its two normalisation passes
  (\<open>expr.rs\<close>), the builtin functions (\<open>expr_builtins.rs\<close>), the evaluator
  (\<open>eval.rs\<close>) and the where-predicate of the aggregations (\<open>agg_where.rs\<close>).
  \<open>None\<close> as the result of an evaluation is a panic of the process.

  The lemmas show that a panic needs an integer division, that evaluation reads the
  row only at the referenced fields, that integer expressions and the filters over them agree
  with a reference semantics that saturates after every operation, that a
  null test written with \<open>==\<close> always yields a boolean, and that casting an integer to a
  string and back is the identity.
\<close>

section \<open>Syntax\<close>

datatype literal =
    LNull
  | LBool bool
  | LInt int
  | LFloat f64
  | LStr string
  | LBareIdent string

record Span =
  span_start :: nat
  span_end :: nat

datatype expr =
    Field string Span
  | Lit literal Span
  | BinOp string expr expr Span
  | UnaryOp string expr Span
  | Call string "expr list" Span

fun span_of :: "expr \<Rightarrow> Span" where
  "span_of (Field _ s) = s"
| "span_of (Lit _ s) = s"
| "span_of (BinOp _ _ _ s) = s"
| "span_of (UnaryOp _ _ s) = s"
| "span_of (Call _ _ s) = s"

text \<open>\<open>collect_fields\<close> with its accumulator, a \<open>BTreeSet\<close> as the set it holds.\<close>

fun collect_fields :: "expr \<Rightarrow> string set \<Rightarrow> string set"
  and collect_fields_list :: "expr list \<Rightarrow> string set \<Rightarrow> string set" where
  "collect_fields (Field name _) out = insert name out"
| "collect_fields (Lit _ _) out = out"
| "collect_fields (BinOp _ l r _) out = collect_fields r (collect_fields l out)"
| "collect_fields (UnaryOp _ e _) out = collect_fields e out"
| "collect_fields (Call _ args _) out = collect_fields_list args out"
| "collect_fields_list [] out = out"
| "collect_fields_list (a # args) out = collect_fields_list args (collect_fields a out)"

definition referenced_fields :: "expr \<Rightarrow> string set" where
  "referenced_fields e = collect_fields e {}"

text \<open>Pass A: the second argument of \<open>cast\<close>, parsed as a field, becomes a bare
  identifier.\<close>

fun normalize_cast :: "expr \<Rightarrow> expr" where
  "normalize_cast (Call fn args sp) =
     (let args' = map normalize_cast args in
      if fn = ''cast'' \<and> length args' = 2 then
        (case args' ! 1 of
           Field name fsp \<Rightarrow> Call fn (args'[1 := Lit (LBareIdent name) fsp]) sp
         | _ \<Rightarrow> Call fn args' sp)
      else Call fn args' sp)"
| "normalize_cast (BinOp op l r sp) = BinOp op (normalize_cast l) (normalize_cast r) sp"
| "normalize_cast (UnaryOp op e sp) = UnaryOp op (normalize_cast e) sp"
| "normalize_cast (Field n sp) = Field n sp"
| "normalize_cast (Lit l sp) = Lit l sp"

text \<open>Pass B: \<open>e == null\<close> and \<open>e != null\<close> become \<open>isnull(e)\<close> and its negation.\<close>

definition is_null_lit :: "expr \<Rightarrow> bool" where
  "is_null_lit e = (case e of Lit LNull _ \<Rightarrow> True | _ \<Rightarrow> False)"

fun rewrite_null_eq :: "expr \<Rightarrow> expr" where
  "rewrite_null_eq (BinOp op l r sp) =
     (let lhs = rewrite_null_eq l; rhs = rewrite_null_eq r in
      if op = ''=='' \<and> is_null_lit rhs then Call ''isnull'' [lhs] sp
      else if op = ''=='' \<and> is_null_lit lhs then Call ''isnull'' [rhs] sp
      else if op = ''!='' \<and> is_null_lit rhs then UnaryOp ''not'' (Call ''isnull'' [lhs] sp) sp
      else if op = ''!='' \<and> is_null_lit lhs then UnaryOp ''not'' (Call ''isnull'' [rhs] sp) sp
      else BinOp op lhs rhs sp)"
| "rewrite_null_eq (UnaryOp op e sp) = UnaryOp op (rewrite_null_eq e) sp"
| "rewrite_null_eq (Call fn args sp) = Call fn (map rewrite_null_eq args) sp"
| "rewrite_null_eq (Field n sp) = Field n sp"
| "rewrite_null_eq (Lit l sp) = Lit l sp"

section \<open>Decimal strings\<close>

text \<open>\<open>i64::to_string\<close> and \<open>str::parse::<i64>\<close> of the standard library.\<close>

definition digit_char :: "nat \<Rightarrow> char" where
  "digit_char d = char_of (48 + d)"

fun nat_to_string :: "nat \<Rightarrow> string" where
  "nat_to_string n = (if n < 10 then [digit_char n] else nat_to_string (n div 10) @ [digit_char (n mod 10)])"

declare nat_to_string.simps [simp del]

definition i64_to_string :: "int \<Rightarrow> string" where
  "i64_to_string n = (if n < 0 then CHR ''-'' # nat_to_string (nat (- n)) else nat_to_string (nat n))"

definition digit_val :: "char \<Rightarrow> nat option" where
  "digit_val c = (let k = of_char c :: nat in if 48 \<le> k \<and> k \<le> 57 then Some (k - 48) else None)"

fun parse_digits :: "nat \<Rightarrow> string \<Rightarrow> nat option" where
  "parse_digits acc [] = Some acc"
| "parse_digits acc (c # cs) =
     (case digit_val c of None \<Rightarrow> None | Some d \<Rightarrow> parse_digits (10 * acc + d) cs)"

definition parse_nat :: "string \<Rightarrow> nat option" where
  "parse_nat s = (if s = [] then None else parse_digits 0 s)"

definition parse_i64 :: "string \<Rightarrow> int option" where
  "parse_i64 s =
     (case (case s of
              [] \<Rightarrow> None
            | c # cs \<Rightarrow>
                (if c = CHR ''-'' then map_option (\<lambda>n. - int n) (parse_nat cs)
                 else if c = CHR ''+'' then map_option int (parse_nat cs)
                 else map_option int (parse_nat s))) of
        Some n \<Rightarrow> (if is_i64 n then Some n else None)
      | None \<Rightarrow> None)"

section \<open>Builtins\<close>

fun cast_to_str :: "libm \<Rightarrow> Value \<Rightarrow> Value" where
  "cast_to_str lm (VStr s) = VStr s"
| "cast_to_str lm (VI64 n) = VStr (i64_to_string n)"
| "cast_to_str lm (VF64 f) = VStr (f64_to_string lm f)"
| "cast_to_str lm (VBool b) = VStr (if b then ''true'' else ''false'')"
| "cast_to_str lm (VDatetime ms) = VStr (i64_to_string ms)"
| "cast_to_str lm _ = VNull"

fun cast_to_int :: "Value \<Rightarrow> Value" where
  "cast_to_int (VI64 n) = VI64 n"
| "cast_to_int (VF64 f) = VI64 (f64_as_i64 f)"
| "cast_to_int (VBool b) = VI64 (if b then 1 else 0)"
| "cast_to_int (VStr s) = (case parse_i64 s of Some n \<Rightarrow> VI64 n | None \<Rightarrow> VNull)"
| "cast_to_int (VDatetime ms) = VI64 ms"
| "cast_to_int _ = VNull"

fun cast_to_float :: "libm \<Rightarrow> Value \<Rightarrow> Value" where
  "cast_to_float lm (VI64 n) = VF64 (f64_of_int n)"
| "cast_to_float lm (VF64 f) = VF64 f"
| "cast_to_float lm (VBool b) = VF64 (if b then Fin 1 else Fin 0)"
| "cast_to_float lm (VStr s) = (case f64_parse lm s of Some f \<Rightarrow> VF64 f | None \<Rightarrow> VNull)"
| "cast_to_float lm (VDatetime ms) = VF64 (f64_of_int ms)"
| "cast_to_float lm _ = VNull"

fun cast_to_bool :: "Value \<Rightarrow> Value" where
  "cast_to_bool (VBool b) = VBool b"
| "cast_to_bool (VI64 n) = VBool (n \<noteq> 0)"
| "cast_to_bool (VF64 f) = VBool (\<not> f64_eq f (Fin 0) \<and> \<not> is_nan f)"
| "cast_to_bool (VStr s) =
     (if s = ''true'' then VBool True else if s = ''false'' then VBool False else VNull)"
| "cast_to_bool (VDatetime ms) = VBool (ms \<noteq> 0)"
| "cast_to_bool _ = VNull"

definition cast_eval :: "libm \<Rightarrow> Value list \<Rightarrow> Value" where
  "cast_eval lm args =
     (if length args \<noteq> 2 then VNull
      else case args ! 1 of
             VStr target \<Rightarrow>
               (if args ! 0 = VNull then VNull
                else if target = ''str'' then cast_to_str lm (args ! 0)
                else if target = ''int'' then cast_to_int (args ! 0)
                else if target = ''float'' then cast_to_float lm (args ! 0)
                else if target = ''bool'' then cast_to_bool (args ! 0)
                else VNull)
           | _ \<Rightarrow> VNull)"

definition isnull_eval :: "Value list \<Rightarrow> Value" where
  "isnull_eval args = (if length args \<noteq> 1 then VNull else VBool (args ! 0 = VNull))"

definition numeric_arg :: "Value \<Rightarrow> f64 option" where
  "numeric_arg v = (case v of VF64 x \<Rightarrow> Some x | VI64 n \<Rightarrow> Some (f64_of_int n) | _ \<Rightarrow> None)"

definition LAT_LIMIT :: f64 where
  "LAT_LIMIT = f64_round False (8505112878 / 10 ^ 8)"

text \<open>\<open>f64::to_radians\<close> multiplies with the constant \<open>PI / 180.0\<close>.\<close>

definition PI_F64 :: f64 where
  "PI_F64 = Fin (884279719003555 / 2 ^ 48)"

definition to_radians :: "f64 \<Rightarrow> f64" where
  "to_radians x = f64_mul x (f64_div PI_F64 (Fin 180))"

definition quadkey_eval :: "libm \<Rightarrow> Value list \<Rightarrow> Value" where
  "quadkey_eval lm args =
     (if length args \<noteq> 3 then VNull
      else case (numeric_arg (args ! 0), numeric_arg (args ! 1), args ! 2) of
             (Some lat, Some lon, VI64 zoom) \<Rightarrow>
               (if 1 \<le> zoom \<and> zoom \<le> 24 then
                  (let n = 2 ^ nat zoom;
                       lat_clamped = f64_clamp lat (f64_neg LAT_LIMIT) LAT_LIMIT;
                       row = f64_as_i64 (f64_floor (f64_mul (f64_div (f64_add
                               (sin_f lm (to_radians lat_clamped)) (Fin 1)) (Fin 2)) (f64_of_int n)));
                       col = f64_as_i64 (f64_floor (f64_mul (f64_div (f64_add lon (Fin 180)) (Fin 360))
                               (f64_of_int n)))
                   in VI64 (i64_saturating_add (i64_saturating_mul col n)
                              (max 0 (min (n - 1) row))))
                else VNull)
           | _ \<Rightarrow> VNull)"

text \<open>The \<open>BUILTINS\<close> table and its linear lookup: name, arity, function.\<close>

definition BUILTINS :: "libm \<Rightarrow> (string \<times> nat \<times> (Value list \<Rightarrow> Value)) list" where
  "BUILTINS lm = [(''cast'', 2, cast_eval lm), (''isnull'', 1, isnull_eval), (''quadkey'', 3, quadkey_eval lm)]"

definition lookup_builtin :: "libm \<Rightarrow> string \<Rightarrow> (nat \<times> (Value list \<Rightarrow> Value)) option" where
  "lookup_builtin lm name = map_of (BUILTINS lm) name"

section \<open>Operators\<close>

definition arith_add :: "Value \<Rightarrow> Value \<Rightarrow> Value" where
  "arith_add a b =
     (case (a, b) of
        (VI64 x, VI64 y) \<Rightarrow> VI64 (i64_saturating_add x y)
      | (VF64 x, VF64 y) \<Rightarrow> VF64 (f64_add x y)
      | (VI64 x, VF64 y) \<Rightarrow> VF64 (f64_add (f64_of_int x) y)
      | (VF64 x, VI64 y) \<Rightarrow> VF64 (f64_add x (f64_of_int y))
      | _ \<Rightarrow> VNull)"

definition arith_sub :: "Value \<Rightarrow> Value \<Rightarrow> Value" where
  "arith_sub a b =
     (case (a, b) of
        (VI64 x, VI64 y) \<Rightarrow> VI64 (i64_saturating_sub x y)
      | (VF64 x, VF64 y) \<Rightarrow> VF64 (f64_sub x y)
      | (VI64 x, VF64 y) \<Rightarrow> VF64 (f64_sub (f64_of_int x) y)
      | (VF64 x, VI64 y) \<Rightarrow> VF64 (f64_sub x (f64_of_int y))
      | _ \<Rightarrow> VNull)"

definition arith_mul :: "Value \<Rightarrow> Value \<Rightarrow> Value" where
  "arith_mul a b =
     (case (a, b) of
        (VI64 x, VI64 y) \<Rightarrow> VI64 (i64_saturating_mul x y)
      | (VF64 x, VF64 y) \<Rightarrow> VF64 (f64_mul x y)
      | (VI64 x, VF64 y) \<Rightarrow> VF64 (f64_mul (f64_of_int x) y)
      | (VF64 x, VI64 y) \<Rightarrow> VF64 (f64_mul x (f64_of_int y))
      | _ \<Rightarrow> VNull)"

text \<open>Integer division is Rust's \<open>/\<close>: with a zero divisor handled, the pair
  \<open>i64::MIN / -1\<close> still panics.\<close>

definition arith_div :: "Value \<Rightarrow> Value \<Rightarrow> Value option" where
  "arith_div a b =
     (case (a, b) of
        (VI64 x, VI64 y) \<Rightarrow> (if y = 0 then Some VNull else map_option VI64 (i64_div x y))
      | (VF64 x, VF64 y) \<Rightarrow> Some (VF64 (f64_div x y))
      | (VI64 x, VF64 y) \<Rightarrow> Some (VF64 (f64_div (f64_of_int x) y))
      | (VF64 x, VI64 y) \<Rightarrow> Some (VF64 (f64_div x (f64_of_int y)))
      | _ \<Rightarrow> Some VNull)"

definition try_compare :: "Value \<Rightarrow> Value \<Rightarrow> ordering option" where
  "try_compare a b =
     (case (a, b) of
        (VI64 x, VI64 y) \<Rightarrow> Some (cmp_of x y)
      | (VF64 x, VF64 y) \<Rightarrow> f64_partial_cmp x y
      | (VI64 x, VF64 y) \<Rightarrow> f64_partial_cmp (f64_of_int x) y
      | (VF64 x, VI64 y) \<Rightarrow> f64_partial_cmp x (f64_of_int y)
      | (VStr x, VStr y) \<Rightarrow> Some (cmp_of x y)
      | (VBool x, VBool y) \<Rightarrow> Some (cmp_of x y)
      | (VDatetime x, VDatetime y) \<Rightarrow> Some (cmp_of x y)
      | (VBytes x, VBytes y) \<Rightarrow> Some (cmp_of x y)
      | _ \<Rightarrow> None)"

text \<open>The value of a comparison that \<open>try_compare\<close> leaves open: false for NaN, null
  across types.\<close>

definition incomparable :: "Value \<Rightarrow> Value \<Rightarrow> Value" where
  "incomparable a b =
     (case (a, b) of
        (VF64 _, VF64 _) \<Rightarrow> VBool False
      | (VF64 _, VI64 _) \<Rightarrow> VBool False
      | (VI64 _, VF64 _) \<Rightarrow> VBool False
      | _ \<Rightarrow> VNull)"

definition cmp_op :: "Value \<Rightarrow> Value \<Rightarrow> (ordering \<Rightarrow> bool) \<Rightarrow> Value" where
  "cmp_op a b pred = (case try_compare a b of Some ord \<Rightarrow> VBool (pred ord) | None \<Rightarrow> incomparable a b)"

definition cmp_eq :: "Value \<Rightarrow> Value \<Rightarrow> Value" where
  "cmp_eq a b = (case try_compare a b of Some ord \<Rightarrow> VBool (ord = Equal) | None \<Rightarrow> incomparable a b)"

definition cmp_ne :: "Value \<Rightarrow> Value \<Rightarrow> Value" where
  "cmp_ne a b = (case try_compare a b of Some ord \<Rightarrow> VBool (ord \<noteq> Equal) | None \<Rightarrow> incomparable a b)"

text \<open>The strict operators, after both operands are evaluated.\<close>

definition eval_strict_op :: "string \<Rightarrow> Value \<Rightarrow> Value \<Rightarrow> Value option" where
  "eval_strict_op op lv rv =
     (if lv = VNull \<or> rv = VNull then Some VNull
      else if op = ''+'' then Some (arith_add lv rv)
      else if op = ''-'' then Some (arith_sub lv rv)
      else if op = ''*'' then Some (arith_mul lv rv)
      else if op = ''/'' then arith_div lv rv
      else if op = ''>'' then Some (cmp_op lv rv (\<lambda>o'. o' = Greater))
      else if op = ''>='' then Some (cmp_op lv rv (\<lambda>o'. o' = Greater \<or> o' = Equal))
      else if op = ''<'' then Some (cmp_op lv rv (\<lambda>o'. o' = Less))
      else if op = ''<='' then Some (cmp_op lv rv (\<lambda>o'. o' = Less \<or> o' = Equal))
      else if op = ''=='' then Some (cmp_eq lv rv)
      else if op = ''!='' then Some (cmp_ne lv rv)
      else Some VNull)"

fun eval_literal :: "literal \<Rightarrow> Value" where
  "eval_literal LNull = VNull"
| "eval_literal (LBool b) = VBool b"
| "eval_literal (LInt n) = VI64 n"
| "eval_literal (LFloat f) = VF64 f"
| "eval_literal (LStr s) = VStr s"
| "eval_literal (LBareIdent s) = VStr s"

section \<open>The evaluator\<close>

definition MAX_EVAL_DEPTH :: nat where
  "MAX_EVAL_DEPTH = 512"

fun eval_depth :: "libm \<Rightarrow> expr \<Rightarrow> Row \<Rightarrow> nat \<Rightarrow> Value option"
  and eval_args :: "libm \<Rightarrow> expr list \<Rightarrow> Row \<Rightarrow> nat \<Rightarrow> Value list option" where
  "eval_depth lm (Field name sp) row depth =
     (if MAX_EVAL_DEPTH < depth then Some VNull
      else Some (case row_get row name of Some v \<Rightarrow> v | None \<Rightarrow> VNull))"
| "eval_depth lm (Lit l sp) row depth =
     (if MAX_EVAL_DEPTH < depth then Some VNull else Some (eval_literal l))"
| "eval_depth lm (UnaryOp op e sp) row depth =
     (if MAX_EVAL_DEPTH < depth then Some VNull
      else map_option not_three_valued (eval_depth lm e row (Suc depth)))"
| "eval_depth lm (BinOp op l r sp) row depth =
     (if MAX_EVAL_DEPTH < depth then Some VNull
      else case eval_depth lm l row (Suc depth) of
             None \<Rightarrow> None
           | Some lv \<Rightarrow>
               (if op = ''and'' \<and> lv = VBool False then Some (VBool False)
                else if op = ''or'' \<and> lv = VBool True then Some (VBool True)
                else case eval_depth lm r row (Suc depth) of
                       None \<Rightarrow> None
                     | Some rv \<Rightarrow>
                         (if op = ''and'' then Some (and_three_valued lv rv)
                          else if op = ''or'' then Some (or_three_valued lv rv)
                          else eval_strict_op op lv rv)))"
| "eval_depth lm (Call fn args sp) row depth =
     (if MAX_EVAL_DEPTH < depth then Some VNull
      else case eval_args lm args row (Suc depth) of
             None \<Rightarrow> None
           | Some vs \<Rightarrow> (case lookup_builtin lm fn of Some (_, f) \<Rightarrow> Some (f vs) | None \<Rightarrow> Some VNull))"
| "eval_args lm [] row depth = Some []"
| "eval_args lm (a # args) row depth =
     (case eval_depth lm a row depth of
        None \<Rightarrow> None
      | Some v \<Rightarrow> (case eval_args lm args row depth of None \<Rightarrow> None | Some vs \<Rightarrow> Some (v # vs)))"

definition eval :: "libm \<Rightarrow> expr \<Rightarrow> Row \<Rightarrow> Value option" where
  "eval lm e row = eval_depth lm e row 0"

definition evaluate_where_predicate :: "libm \<Rightarrow> expr \<Rightarrow> Row \<Rightarrow> bool option" where
  "evaluate_where_predicate lm e row = map_option (\<lambda>v. v = VBool True) (eval lm e row)"

section \<open>Where evaluation can panic\<close>

fun has_div :: "expr \<Rightarrow> bool" where
  "has_div (BinOp op l r sp) = (op = ''/'' \<or> has_div l \<or> has_div r)"
| "has_div (UnaryOp op e sp) = has_div e"
| "has_div (Call fn args sp) = list_ex has_div args"
| "has_div _ = False"

lemma eval_strict_op_total: "op \<noteq> ''/'' \<Longrightarrow> \<exists>v. eval_strict_op op lv rv = Some v"
  by (simp add: eval_strict_op_def)

lemma eval_total_no_div:
  "\<not> has_div e \<Longrightarrow> \<exists>v. eval_depth lm e row d = Some v"
  "\<not> list_ex has_div es \<Longrightarrow> \<exists>vs. eval_args lm es row d = Some vs"
proof (induction lm e row d and lm es row d rule: eval_depth_eval_args.induct)
  case (4 lm op l r sp row depth)
  show ?case
  proof (cases "MAX_EVAL_DEPTH < depth")
    case True
    then show ?thesis by simp
  next
    case False
    with 4 obtain lv where lv: "eval_depth lm l row (Suc depth) = Some lv" by auto
    show ?thesis
    proof (cases "op = ''and'' \<and> lv = VBool False \<or> op = ''or'' \<and> lv = VBool True")
      case True
      with lv False show ?thesis by auto
    next
      case short: False
      with 4 lv False obtain rv where rv: "eval_depth lm r row (Suc depth) = Some rv" by fastforce
      from "4.prems" have "op \<noteq> ''/''" by simp
      with eval_strict_op_total [of op lv rv] lv rv False short show ?thesis by auto
    qed
  qed
next
  case (5 lm fn args sp row depth)
  then show ?case
    by (cases "MAX_EVAL_DEPTH < depth") (auto split: option.splits prod.splits)
qed auto

section \<open>Evaluation reads the referenced fields only\<close>

fun expr_fields :: "expr \<Rightarrow> string set" where
  "expr_fields (Field name _) = {name}"
| "expr_fields (Lit _ _) = {}"
| "expr_fields (BinOp _ l r _) = expr_fields l \<union> expr_fields r"
| "expr_fields (UnaryOp _ e _) = expr_fields e"
| "expr_fields (Call _ args _) = \<Union> (set (map expr_fields args))"

lemma collect_fields_acc:
  "collect_fields e out = expr_fields e \<union> out"
  "collect_fields_list es out = \<Union> (set (map expr_fields es)) \<union> out"
  by (induction e out and es out rule: collect_fields_collect_fields_list.induct) auto

lemma eval_depth_local:
  "(\<And>f. f \<in> expr_fields e \<Longrightarrow> row_get r1 f = row_get r2 f) \<Longrightarrow>
     eval_depth lm e r1 d = eval_depth lm e r2 d"
  "(\<And>f. f \<in> \<Union> (set (map expr_fields es)) \<Longrightarrow> row_get r1 f = row_get r2 f) \<Longrightarrow>
     eval_args lm es r1 d = eval_args lm es r2 d"
proof (induction lm e r1 d and lm es r1 d rule: eval_depth_eval_args.induct)
  case (4 lm op l r sp row depth)
  then show ?case by (auto split: option.splits)
next
  case (7 lm a args row depth)
  then show ?case by (auto split: option.splits)
qed auto

section \<open>Integer ranges of results\<close>

fun literal_wf :: "literal \<Rightarrow> bool" where
  "literal_wf (LInt n) = is_i64 n"
| "literal_wf _ = True"

fun expr_wf :: "expr \<Rightarrow> bool" where
  "expr_wf (Field _ _) = True"
| "expr_wf (Lit l _) = literal_wf l"
| "expr_wf (BinOp _ l r _) = (expr_wf l \<and> expr_wf r)"
| "expr_wf (UnaryOp _ e _) = expr_wf e"
| "expr_wf (Call _ args _) = list_all expr_wf args"

definition row_values_wf :: "Row \<Rightarrow> bool" where
  "row_values_wf row \<longleftrightarrow> (\<forall>(k, v) \<in> set row. value_wf v)"

lemma row_get_wf: "row_values_wf row \<Longrightarrow> row_get row f = Some v \<Longrightarrow> value_wf v"
  by (auto simp: row_values_wf_def row_get_map_of dest: map_of_SomeD)

lemma trunc_div_range:
  assumes "is_i64 a" and "is_i64 b" and "\<not> (a = i64_min \<and> b = - 1)"
  shows "is_i64 (trunc_div a b)"
proof -
  have le: "\<bar>trunc_div a b\<bar> \<le> \<bar>a\<bar> div \<bar>b\<bar>"
    by (auto simp: trunc_div_def abs_mult sgn_if pos_imp_zdiv_nonneg_iff)
  show ?thesis
  proof (cases "\<bar>b\<bar> \<le> 1 \<or> \<bar>a\<bar> < 2 ^ 63")
    case True
    have div_le: "\<bar>a\<bar> div \<bar>b\<bar> \<le> \<bar>a\<bar>"
      using zdiv_mono2 [of "\<bar>a\<bar>" 1 "\<bar>b\<bar>"] by (cases "b = 0") auto
    show ?thesis
    proof (cases "\<bar>a\<bar> < 2 ^ 63")
      case True
      with le div_le show ?thesis by (auto simp: is_i64_def)
    next
      case False
      with assms(1) have a: "a = i64_min" by (auto simp: is_i64_def)
      with False \<open>\<bar>b\<bar> \<le> 1 \<or> _\<close> assms(3) have "b = 0 \<or> b = 1" by auto
      with a show ?thesis by (auto simp: trunc_div_def is_i64_def)
    qed
  next
    case False
    then have b: "2 \<le> \<bar>b\<bar>" by simp
    have "\<bar>a\<bar> \<le> 2 ^ 63" using assms(1) by (auto simp: is_i64_def)
    then have "\<bar>a\<bar> div \<bar>b\<bar> \<le> 2 ^ 63 div \<bar>b\<bar>" using b by (intro zdiv_mono1) auto
    also have "\<dots> \<le> 2 ^ 63 div 2" using b by (intro zdiv_mono2) auto
    finally show ?thesis using le by (auto simp: is_i64_def)
  qed
qed

lemma f64_as_i64_range [simp]: "is_i64 (f64_as_i64 x)"
  by (cases x) (auto simp: f64_as_i64_def f64_to_int_sat_def is_i64_def)

lemma parse_i64_range: "parse_i64 s = Some n \<Longrightarrow> is_i64 n"
  by (auto simp: parse_i64_def split: option.splits if_splits)

lemma cast_eval_wf:
  assumes "list_all value_wf vs"
  shows "value_wf (cast_eval lm vs)"
proof (cases "length vs = 2")
  case True
  then have v0: "value_wf (vs ! 0)" using assms by (simp add: list_all_length)
  have "value_wf (cast_to_str lm (vs ! 0))" by (cases "vs ! 0") auto
  moreover have "value_wf (cast_to_int (vs ! 0))"
    using v0 by (cases "vs ! 0") (auto split: option.splits dest: parse_i64_range)
  moreover have "value_wf (cast_to_float lm (vs ! 0))"
    by (cases "vs ! 0") (auto split: option.splits)
  moreover have "value_wf (cast_to_bool (vs ! 0))" by (cases "vs ! 0") auto
  ultimately show ?thesis by (simp add: cast_eval_def split: Value.splits)
next
  case False
  then show ?thesis by (simp add: cast_eval_def)
qed

lemma builtin_wf:
  assumes "lookup_builtin lm fn = Some (n, f)" and "list_all value_wf vs"
  shows "value_wf (f vs)"
proof -
  have "value_wf (isnull_eval vs)" by (simp add: isnull_eval_def)
  moreover have "value_wf (quadkey_eval lm vs)"
    by (auto simp: quadkey_eval_def i64_saturating_add_def Let_def split: option.splits Value.splits)
  ultimately show ?thesis
    using assms cast_eval_wf [OF assms(2), of lm]
    by (auto simp: lookup_builtin_def BUILTINS_def split: if_splits)
qed

lemma strict_op_wf:
  assumes "value_wf lv" and "value_wf rv" and "eval_strict_op op lv rv = Some v"
  shows "value_wf v"
proof -
  have "value_wf (arith_add lv rv)" "value_wf (arith_sub lv rv)" "value_wf (arith_mul lv rv)"
    by (simp_all add: arith_add_def arith_sub_def arith_mul_def i64_saturating_add_def
        i64_saturating_sub_def i64_saturating_mul_def split: Value.splits)
  moreover have "value_wf w" if "arith_div lv rv = Some w" for w
    using that assms(1,2) trunc_div_range
    by (auto simp: arith_div_def i64_div_def split: Value.splits if_splits)
  moreover have "value_wf (cmp_op lv rv pr)" "value_wf (cmp_eq lv rv)" "value_wf (cmp_ne lv rv)" for pr
    by (simp_all add: cmp_op_def cmp_eq_def cmp_ne_def incomparable_def
        split: option.splits Value.splits)
  ultimately show ?thesis
    using assms(3) by (auto simp: eval_strict_op_def split: if_splits)
qed

lemma eval_depth_wf:
  "expr_wf e \<Longrightarrow> row_values_wf row \<Longrightarrow> eval_depth lm e row d = Some v \<Longrightarrow> value_wf v"
  "list_all expr_wf es \<Longrightarrow> row_values_wf row \<Longrightarrow> eval_args lm es row d = Some vs \<Longrightarrow> list_all value_wf vs"
proof (induction lm e row d and lm es row d arbitrary: v and vs rule: eval_depth_eval_args.induct)
  case (1 lm name sp row depth)
  then show ?case by (auto split: if_splits option.splits dest: row_get_wf)
next
  case (2 lm l sp row depth)
  then show ?case by (cases l) (auto split: if_splits)
next
  case (3 lm op e sp row depth)
  have "value_wf (not_three_valued w)" for w by (cases w) auto
  with 3 show ?case by (auto split: if_splits)
next
  case (4 lm op l r sp row depth)
  have tri: "value_wf (and_three_valued a b)" "value_wf (or_three_valued a b)" for a b
    by (simp_all add: and_three_valued_def or_three_valued_def split: Value.splits bool.splits)
  from 4 show ?case
    by (auto split: if_splits option.splits simp: tri intro: strict_op_wf)
next
  case (5 lm fn args sp row depth)
  then show ?case by (auto split: if_splits option.splits intro: builtin_wf)
next
  case (6 lm row depth)
  then show ?case by simp
next
  case (7 lm a args row depth)
  then show ?case by (auto split: option.splits)
qed

section \<open>Decimal round trip\<close>

lemma digit_val_digit_char: "d < 10 \<Longrightarrow> digit_val (digit_char d) = Some d"
  by (simp add: digit_val_def digit_char_def Let_def of_char_of take_bit_nat_eq_self)

lemma parse_digits_append:
  "parse_digits acc (xs @ ys) =
     (case parse_digits acc xs of None \<Rightarrow> None | Some a \<Rightarrow> parse_digits a ys)"
  by (induction xs arbitrary: acc) (auto split: option.splits)

lemma parse_digits_nat_to_string: "parse_digits 0 (nat_to_string n) = Some n"
proof (induction n rule: nat_to_string.induct)
  case (1 n)
  show ?case
  proof (cases "n < 10")
    case True
    then show ?thesis by (simp add: nat_to_string.simps [of n] digit_val_digit_char)
  next
    case False
    with 1 show ?thesis
      by (simp add: nat_to_string.simps [of n] parse_digits_append digit_val_digit_char)
  qed
qed

lemma nat_to_string_neq_Nil [simp]: "nat_to_string n \<noteq> []"
  by (subst nat_to_string.simps) simp

lemma hd_nat_to_string: "\<exists>d < 10. hd (nat_to_string n) = digit_char d"
proof (induction n rule: nat_to_string.induct)
  case (1 n)
  then show ?case
    by (cases "n < 10") (auto simp: nat_to_string.simps [of n])
qed

lemma digit_char_not_sign: "d < 10 \<Longrightarrow> digit_char d \<noteq> CHR ''-'' \<and> digit_char d \<noteq> CHR ''+''"
proof -
  assume "d < 10"
  then have d: "of_char (digit_char d) = 48 + d"
    by (simp add: digit_char_def of_char_of take_bit_nat_eq_self)
  have "of_char (digit_char d) \<noteq> (of_char (CHR ''-'') :: nat)"
    "of_char (digit_char d) \<noteq> (of_char (CHR ''+'') :: nat)"
    unfolding d by simp_all
  then show ?thesis by metis
qed

lemma parse_i64_to_string: "is_i64 n \<Longrightarrow> parse_i64 (i64_to_string n) = Some n"
proof -
  assume n: "is_i64 n"
  show ?thesis
  proof (cases "n < 0")
    case True
    then show ?thesis
      using n by (simp add: parse_i64_def i64_to_string_def parse_nat_def parse_digits_nat_to_string)
  next
    case False
    obtain c cs where s: "nat_to_string (nat n) = c # cs" by (cases "nat_to_string (nat n)") auto
    with hd_nat_to_string [of "nat n"] digit_char_not_sign have "c \<noteq> CHR ''-''" "c \<noteq> CHR ''+''"
      by auto
    then show ?thesis
      using n False s parse_digits_nat_to_string [of "nat n"]
      by (simp add: parse_i64_def i64_to_string_def parse_nat_def)
  qed
qed

section \<open>A reference semantics of integer expressions\<close>

text \<open>The value of an integer expression, with \<open>rnd\<close> applied after every operation: the identity gives the
  mathematical value, \<open>i64_clamp\<close> the saturating one. A field that is absent or not an
  integer, and every other operator, has no value here.\<close>

definition int_op :: "string \<Rightarrow> (int \<Rightarrow> int \<Rightarrow> int) option" where
  "int_op op = (if op = ''+'' then Some (+) else if op = ''-'' then Some (-) else if op = ''*'' then Some (*) else None)"

fun int_sem :: "(int \<Rightarrow> int) \<Rightarrow> Row \<Rightarrow> expr \<Rightarrow> int option" where
  "int_sem rnd row (Field f sp) = (case row_get row f of Some (VI64 n) \<Rightarrow> Some n | _ \<Rightarrow> None)"
| "int_sem rnd row (Lit (LInt n) sp) = Some n"
| "int_sem rnd row (BinOp op l r sp) =
     (case (int_op op, int_sem rnd row l, int_sem rnd row r) of
        (Some f, Some x, Some y) \<Rightarrow> Some (rnd (f x y))
      | _ \<Rightarrow> None)"
| "int_sem rnd row _ = None"

definition int_cmp :: "string \<Rightarrow> (int \<Rightarrow> int \<Rightarrow> bool) option" where
  "int_cmp op =
     (if op = ''>'' then Some (>) else if op = ''>='' then Some (\<ge>) else if op = ''<'' then Some (<)
      else if op = ''<='' then Some (\<le>) else if op = ''=='' then Some (=) else if op = ''!='' then Some (\<noteq>) else None)"

fun bool_sem :: "(int \<Rightarrow> int) \<Rightarrow> Row \<Rightarrow> expr \<Rightarrow> bool option" where
  "bool_sem rnd row (BinOp op l r sp) =
     (if op = ''and'' \<or> op = ''or'' then
        (case (bool_sem rnd row l, bool_sem rnd row r) of
           (Some a, Some b) \<Rightarrow> Some (if op = ''and'' then a \<and> b else a \<or> b)
         | _ \<Rightarrow> None)
      else
        (case (int_cmp op, int_sem rnd row l, int_sem rnd row r) of
           (Some f, Some x, Some y) \<Rightarrow> Some (f x y)
         | _ \<Rightarrow> None))"
| "bool_sem rnd row (UnaryOp op e sp) = map_option Not (bool_sem rnd row e)"
| "bool_sem rnd row (Lit (LBool b) sp) = Some b"
| "bool_sem rnd row _ = None"

fun overflow_free :: "Row \<Rightarrow> expr \<Rightarrow> bool" where
  "overflow_free row (BinOp op l r sp) \<longleftrightarrow> overflow_free row l \<and> overflow_free row r \<and>
     (\<forall>n. int_sem id row (BinOp op l r sp) = Some n \<longrightarrow> is_i64 n)"
| "overflow_free row (UnaryOp op e sp) \<longleftrightarrow> overflow_free row e"
| "overflow_free row _ \<longleftrightarrow> True"

fun expr_height :: "expr \<Rightarrow> nat" where
  "expr_height (BinOp op l r sp) = Suc (max (expr_height l) (expr_height r))"
| "expr_height (UnaryOp op e sp) = Suc (expr_height e)"
| "expr_height (Call fn args sp) = Suc (Max (insert 0 (expr_height ` set args)))"
| "expr_height _ = 0"

lemma int_op_not_logic: "int_op op = Some f \<Longrightarrow> op \<noteq> ''and'' \<and> op \<noteq> ''or''"
  by (auto simp: int_op_def)

lemma int_op_strict: "int_op op = Some f \<Longrightarrow> eval_strict_op op (VI64 x) (VI64 y) = Some (VI64 (i64_clamp (f x y)))"
  by (auto simp: int_op_def eval_strict_op_def arith_add_def arith_sub_def arith_mul_def i64_saturating_add_def
      i64_saturating_sub_def i64_saturating_mul_def split: if_splits)

lemma int_cmp_strict: "int_cmp op = Some f \<Longrightarrow> eval_strict_op op (VI64 x) (VI64 y) = Some (VBool (f x y))"
  by (auto simp: int_cmp_def eval_strict_op_def cmp_op_def cmp_eq_def cmp_ne_def try_compare_def cmp_of_def split: if_splits)

lemma int_sem_eval: "int_sem i64_clamp row e = Some n \<Longrightarrow> d + expr_height e \<le> MAX_EVAL_DEPTH \<Longrightarrow> eval_depth lm e row d = Some (VI64 n)"
proof (induction i64_clamp row e arbitrary: n d rule: int_sem.induct)
  case (3 row op l r sp)
  from "3.prems" obtain f x y where v: "int_op op = Some f" "int_sem i64_clamp row l = Some x" "int_sem i64_clamp row r = Some y"
      "n = i64_clamp (f x y)" by (auto split: option.splits)
  have "eval_depth lm l row (Suc d) = Some (VI64 x)" "eval_depth lm r row (Suc d) = Some (VI64 y)"
    using "3.hyps" v "3.prems"(2) by auto
  then show ?case using v int_op_strict int_op_not_logic "3.prems"(2) by simp
qed (auto split: option.splits Value.splits)

lemma int_sem_exact: "int_sem i64_clamp row e = Some n \<Longrightarrow> overflow_free row e \<Longrightarrow> int_sem id row e = Some n"
proof (induction i64_clamp row e arbitrary: n rule: int_sem.induct)
  case (3 row op l r sp)
  from "3.prems"(1) obtain f x y where v: "int_op op = Some f" "int_sem i64_clamp row l = Some x" "int_sem i64_clamp row r = Some y"
      "n = i64_clamp (f x y)" by (auto split: option.splits)
  then have "int_sem id row (BinOp op l r sp) = Some (f x y)" using "3.hyps" "3.prems"(2) by simp
  then show ?case using "3.prems"(2) v(4) by simp
qed auto

lemma bool_sem_eval: "bool_sem i64_clamp row e = Some b \<Longrightarrow> d + expr_height e \<le> MAX_EVAL_DEPTH \<Longrightarrow> eval_depth lm e row d = Some (VBool b)"
proof (induction i64_clamp row e arbitrary: b d rule: bool_sem.induct)
  case (1 row op l r sp)
  show ?case
  proof (cases "op = ''and'' \<or> op = ''or''")
    case True
    with "1.prems"(1) obtain a c where v: "bool_sem i64_clamp row l = Some a" "bool_sem i64_clamp row r = Some c"
        "b = (if op = ''and'' then a \<and> c else a \<or> c)" by (auto split: option.splits)
    have "eval_depth lm l row (Suc d) = Some (VBool a)" "eval_depth lm r row (Suc d) = Some (VBool c)"
      using "1.hyps" True v "1.prems"(2) by auto
    then show ?thesis using True v(3) "1.prems"(2) by (auto simp: and_three_valued_def or_three_valued_def split: bool.splits)
  next
    case False
    with "1.prems"(1) obtain f x y where v: "int_cmp op = Some f" "int_sem i64_clamp row l = Some x" "int_sem i64_clamp row r = Some y"
        "b = f x y" by (auto split: option.splits)
    have "eval_depth lm l row (Suc d) = Some (VI64 x)" "eval_depth lm r row (Suc d) = Some (VI64 y)"
      using int_sem_eval v "1.prems"(2) by auto
    then show ?thesis using False v int_cmp_strict "1.prems"(2) by simp
  qed
next
  case (2 row op e sp)
  then show ?case by (auto split: option.splits)
qed auto

lemma bool_sem_exact: "bool_sem i64_clamp row e = Some b \<Longrightarrow> overflow_free row e \<Longrightarrow> bool_sem id row e = Some b"
proof (induction i64_clamp row e arbitrary: b rule: bool_sem.induct)
  case (1 row op l r sp)
  show ?case
  proof (cases "op = ''and'' \<or> op = ''or''")
    case True
    with 1 show ?thesis by (auto split: option.splits)
  next
    case False
    with "1.prems" show ?thesis using int_sem_exact by (auto split: option.splits)
  qed
qed auto

section \<open>Properties\<close>

text \<open>C25. Integer arithmetic of the evaluator. An expression of additions, subtractions and multiplications over
  integer literals and integer fields, no higher than the evaluation depth, evaluates to the
  value that saturates after every operation; when no operation leaves the range of an
  \<open>i64\<close>, that is the mathematical value of the expression.\<close>

theorem eval_integer:
  assumes "int_sem i64_clamp row e = Some n" and "expr_height e \<le> MAX_EVAL_DEPTH"
  shows "eval lm e row = Some (VI64 n) \<and> (overflow_free row e \<longrightarrow> int_sem id row e = Some n)"
  using int_sem_eval [OF assms(1), of 0] int_sem_exact [OF assms(1)] assms(2) by (simp add: eval_def)

theorem eval_integer_witness:
  "\<forall>lm sp. eval lm (BinOp ''-'' (BinOp ''*'' (Field ''a'' sp) (Lit (LInt 3) sp) sp) (Lit (LInt 1) sp) sp) [(''a'', VI64 i64_max)] =
       Some (VI64 (i64_max - 1)) \<and>
     eval lm (BinOp ''-'' (BinOp ''*'' (Field ''a'' sp) (Lit (LInt 3) sp) sp) (Lit (LInt 1) sp) sp) [(''a'', VI64 (-5))] = Some (VI64 (- 16))"
proof (intro allI)
  fix lm sp
  let ?e = "BinOp ''-'' (BinOp ''*'' (Field ''a'' sp) (Lit (LInt 3) sp) sp) (Lit (LInt 1) sp) sp"
  have "int_sem i64_clamp [(''a'', VI64 i64_max)] ?e = Some (i64_max - 1)" "int_sem i64_clamp [(''a'', VI64 (-5))] ?e = Some (- 16)"
    by (simp_all add: row_get_map_of int_op_def i64_clamp_def)
  then show "eval lm ?e [(''a'', VI64 i64_max)] = Some (VI64 (i64_max - 1)) \<and> eval lm ?e [(''a'', VI64 (-5))] = Some (VI64 (- 16))"
    using eval_integer [of "[(''a'', VI64 i64_max)]" ?e "i64_max - 1" lm] eval_integer [of "[(''a'', VI64 (-5))]" ?e "- 16" lm]
    by (simp add: MAX_EVAL_DEPTH_def)
qed



text \<open>C27. An expression reads only the fields \<open>referenced_fields\<close> reports: rows that agree
  on them give the same value and the same filter decision.\<close>

theorem eval_reads_referenced_fields:
  assumes "\<forall>f \<in> referenced_fields e. row_get r1 f = row_get r2 f"
  shows "eval lm e r1 = eval lm e r2 \<and>
    evaluate_where_predicate lm e r1 = evaluate_where_predicate lm e r2"
proof -
  have "referenced_fields e = expr_fields e"
    by (simp add: referenced_fields_def collect_fields_acc)
  with assms have "eval lm e r1 = eval lm e r2"
    unfolding eval_def by (intro eval_depth_local(1)) simp
  then show ?thesis by (simp add: evaluate_where_predicate_def)
qed

theorem eval_reads_referenced_fields_witness:
  "\<forall>lm sp. eval lm (BinOp ''<'' (Field ''a'' sp) (Lit (LInt 5) sp) sp) [(''a'', VI64 3), (''b'', VNull)] =
   eval lm (BinOp ''<'' (Field ''a'' sp) (Lit (LInt 5) sp) sp) [(''c'', VNull), (''a'', VI64 3)]"
  by (intro allI conjunct1 [OF eval_reads_referenced_fields])
    (simp add: referenced_fields_def row_get_map_of)

text \<open>C28. A filter over integers decides as the formula it reads as. A predicate of the six comparisons of integer
  expressions, combined with and, or and not, no higher than the evaluation depth, is true for the filter
  exactly when the formula holds of the saturated values, and of the mathematical values
  when no operation overflows.\<close>

theorem where_integer:
  assumes "bool_sem i64_clamp row e = Some b" and "expr_height e \<le> MAX_EVAL_DEPTH"
  shows "evaluate_where_predicate lm e row = Some b \<and> (overflow_free row e \<longrightarrow> bool_sem id row e = Some b)"
  using bool_sem_eval [OF assms(1), of 0] bool_sem_exact [OF assms(1)] assms(2)
  by (simp add: evaluate_where_predicate_def eval_def)

theorem where_integer_witness:
  "\<forall>lm sp. evaluate_where_predicate lm
     (BinOp ''and'' (BinOp ''<='' (BinOp ''+'' (Field ''a'' sp) (Lit (LInt 1) sp) sp) (Field ''b'' sp) sp)
        (UnaryOp ''not'' (BinOp ''=='' (Field ''b'' sp) (Lit (LInt 9) sp) sp) sp) sp)
     [(''a'', VI64 3), (''b'', VI64 4)] = Some True"
proof (intro allI)
  fix lm sp
  show "evaluate_where_predicate lm
     (BinOp ''and'' (BinOp ''<='' (BinOp ''+'' (Field ''a'' sp) (Lit (LInt 1) sp) sp) (Field ''b'' sp) sp)
        (UnaryOp ''not'' (BinOp ''=='' (Field ''b'' sp) (Lit (LInt 9) sp) sp) sp) sp)
     [(''a'', VI64 3), (''b'', VI64 4)] = Some True"
    by (rule where_integer [THEN conjunct1])
      (simp_all add: row_get_map_of int_op_def int_cmp_def i64_clamp_def MAX_EVAL_DEPTH_def)
qed

text \<open>After the null-test rewrite, comparing with the null literal is a definite test:
  \<open>e == null\<close> is exactly \<open>Bool (value of e is Null)\<close> and \<open>e != null\<close> its negation, never Null.\<close>

lemma null_test_definite:
  "eval lm (rewrite_null_eq (BinOp ''=='' e (Lit LNull s) sp)) row =
     map_option (\<lambda>v. VBool (v = VNull)) (eval_depth lm (rewrite_null_eq e) row 1) \<and>
   eval lm (rewrite_null_eq (BinOp ''!='' e (Lit LNull s) sp)) row =
     map_option (\<lambda>v. VBool (v \<noteq> VNull)) (eval_depth lm (rewrite_null_eq e) row 2)"
  by (auto simp: eval_def is_null_lit_def Let_def MAX_EVAL_DEPTH_def lookup_builtin_def BUILTINS_def
      isnull_eval_def numeral_2_eq_2 split: option.splits)

text \<open>Casting an integer to a string and back returns the integer.\<close>

lemma cast_int_str_roundtrip:
  assumes "is_i64 n"
  shows "cast_eval lm [cast_eval lm [VI64 n, VStr ''str''], VStr ''int''] = VI64 n"
  using parse_i64_to_string [OF assms] by (simp add: cast_eval_def)

end
