(* ===== verification/RingBuffer.thy ===== *)
theory RingBuffer
  imports Prelude
begin

text \<open>
  The interface of the bounded buffers that several aggregation operators keep
  (\<open>LastNState\<close>, \<open>LagState\<close>, \<open>TimeSinceLastNState\<close>, \<open>MostRecentNState\<close>): pushing an
  element appends it and forgets the oldest one beyond the capacity. Whatever the
  representation, a run of pushes leaves the last \<open>cap\<close> elements in arrival order.
\<close>

definition last_n :: "nat \<Rightarrow> 'a list \<Rightarrow> 'a list" where
  "last_n k xs = drop (length xs - k) xs"

lemma length_last_n [simp]: "length (last_n k xs) = min k (length xs)"
  by (simp add: last_n_def)

lemma last_n_all: "length xs \<le> k \<Longrightarrow> last_n k xs = xs"
  by (simp add: last_n_def)

lemma last_n_append_last_n: "last_n k (last_n k xs @ ys) = last_n k (xs @ ys)"
proof (cases "length xs \<le> k")
  case True
  then show ?thesis by (simp add: last_n_all)
next
  case False
  then have "length (last_n k xs) = k" by simp
  then have "last_n k (last_n k xs @ ys) = drop (length ys) (last_n k xs @ ys)"
    by (simp add: last_n_def [of k "last_n k xs @ ys"])
  also have "\<dots> = drop (length ys) (drop (length xs - k) (xs @ ys))"
    using False by (simp add: last_n_def)
  also have "\<dots> = last_n k (xs @ ys)"
    using False by (simp add: last_n_def add.commute)
  finally show ?thesis .
qed

lemma last_n_snoc_full:
  "length xs = k \<Longrightarrow> 0 < k \<Longrightarrow> last_n k (xs @ [x]) = tl xs @ [x]"
  by (cases xs) (simp_all add: last_n_def)

locale ring_buffer =
  fixes push :: "'a \<Rightarrow> 's \<Rightarrow> 's"
    and contents :: "'s \<Rightarrow> 'a list"
    and cap :: "'s \<Rightarrow> nat"
    and inv :: "'s \<Rightarrow> bool"
  assumes inv_push: "inv s \<Longrightarrow> inv (push x s)"
    and cap_push: "inv s \<Longrightarrow> cap (push x s) = cap s"
    and contents_push: "inv s \<Longrightarrow> contents (push x s) = last_n (cap s) (contents s @ [x])"
begin

lemma run_invariants:
  "inv s \<Longrightarrow> inv (fold push xs s) \<and> cap (fold push xs s) = cap s"
  by (induction xs arbitrary: s) (simp_all add: inv_push cap_push)

lemma run_contents:
  "inv s \<Longrightarrow> length (contents s) \<le> cap s \<Longrightarrow>
     contents (fold push xs s) = last_n (cap s) (contents s @ xs)"
proof (induction xs arbitrary: s)
  case Nil
  then show ?case by (simp add: last_n_all)
next
  case (Cons x xs)
  have "contents (fold push xs (push x s)) = last_n (cap s) (contents (push x s) @ xs)"
    using Cons.IH [of "push x s"] Cons.prems by (simp add: inv_push cap_push contents_push)
  also have "\<dots> = last_n (cap s) (contents s @ x # xs)"
    using Cons.prems(1) last_n_append_last_n [of "cap s" "contents s @ [x]" xs]
    by (simp add: contents_push)
  finally show ?case by simp
qed

lemma run_bounded:
  "inv s \<Longrightarrow> length (contents s) \<le> cap s \<Longrightarrow> length (contents (fold push xs s)) \<le> cap s"
  by (simp add: run_contents)

end

end
