(* ===== verification/AggStates.thy ===== *)
theory AggStates
  imports Exprs RingBuffer
begin

text \<open>
  The per-operator states of \<open>crates/beava-core/src/agg_state.rs\<close> that need no sketch:
  count, sum, avg, min, max, variance, ratio, the point operators (first, last, first_n,
  last_n, lag), the recency markers and the streaks. Each state has \<open>update\<close>, reading the
  row, and, where the source has it, the pre-extraction fast path \<open>update_pre\<close>. Counters
  are \<open>u64\<close>; durations are \<open>i64\<close> with the wrap-around of the release profile.

  The lemmas describe each state after a run of events: what the counter counts, which
  values the bounded buffers hold (through the \<open>ring_buffer\<close> interface), which run a
  streak measures; and that the fast path agrees with the row path.
\<close>

section \<open>Field access\<close>

definition numeric_from_value :: "Value option \<Rightarrow> f64 option" where
  "numeric_from_value v =
     (case v of
        Some (VF64 f) \<Rightarrow> Some f
      | Some (VI64 n) \<Rightarrow> Some (f64_of_int n)
      | _ \<Rightarrow> None)"

definition numeric_from_row :: "Row \<Rightarrow> string \<Rightarrow> f64 option" where
  "numeric_from_row row field =
     (case row_get row field of
        None \<Rightarrow> None
      | Some (VF64 v) \<Rightarrow> Some v
      | Some (VI64 v) \<Rightarrow> Some (f64_of_int v)
      | Some VNull \<Rightarrow> None
      | Some _ \<Rightarrow> None)"

text \<open>The shared guard \<open>None | Some(Value::Null) => return, Some(v) => v.clone()\<close>.\<close>

definition present :: "Value option \<Rightarrow> Value option" where
  "present v = (case v of None \<Rightarrow> None | Some VNull \<Rightarrow> None | Some w \<Rightarrow> Some w)"

definition value_lt :: "Value \<Rightarrow> Value \<Rightarrow> bool" where
  "value_lt a b =
     (case (a, b) of
        (VF64 x, VF64 y) \<Rightarrow> f64_lt x y
      | (VI64 x, VI64 y) \<Rightarrow> x < y
      | (VStr x, VStr y) \<Rightarrow> x < y
      | (VDatetime x, VDatetime y) \<Rightarrow> x < y
      | _ \<Rightarrow> False)"

text \<open>The value the field argument selects; \<open>None\<close> when the operator has no field.\<close>

definition field_value :: "Row \<Rightarrow> string option \<Rightarrow> Value option" where
  "field_value row field = (case field of None \<Rightarrow> None | Some f \<Rightarrow> row_get row f)"

lemma numeric_from_row_value: "numeric_from_row row f = numeric_from_value (row_get row f)"
  by (simp add: numeric_from_row_def numeric_from_value_def split: option.splits Value.splits)

section \<open>Core scalars\<close>

record CountState =
  count_n :: u64

definition count_default :: CountState where
  "count_default = \<lparr>count_n = 0\<rparr>"

definition count_update :: "CountState \<Rightarrow> Row \<Rightarrow> int \<Rightarrow> string option \<Rightarrow> bool \<Rightarrow> CountState" where
  "count_update s row now field matched = (if matched then s\<lparr>count_n := count_n s + 1\<rparr> else s)"

definition count_query :: "CountState \<Rightarrow> Value" where
  "count_query s = VI64 (u64_as_i64 (count_n s))"

record SumState =
  sum_total :: f64
  sum_n :: u64

definition sum_default :: SumState where
  "sum_default = \<lparr>sum_total = Fin 0, sum_n = 0\<rparr>"

definition sum_update :: "SumState \<Rightarrow> Row \<Rightarrow> int \<Rightarrow> string option \<Rightarrow> bool \<Rightarrow> SumState" where
  "sum_update s row now field matched =
     (if \<not> matched then s
      else case field of None \<Rightarrow> s
      | Some fname \<Rightarrow> (case numeric_from_row row fname of None \<Rightarrow> s
      | Some v \<Rightarrow> s\<lparr>sum_total := f64_add (sum_total s) v, sum_n := sum_n s + 1\<rparr>))"

definition sum_update_pre :: "SumState \<Rightarrow> Value option \<Rightarrow> bool \<Rightarrow> SumState" where
  "sum_update_pre s pre_val matched =
     (if \<not> matched then s
      else case numeric_from_value pre_val of None \<Rightarrow> s
      | Some v \<Rightarrow> s\<lparr>sum_total := f64_add (sum_total s) v, sum_n := sum_n s + 1\<rparr>)"

definition sum_query :: "SumState \<Rightarrow> Value" where
  "sum_query s = (if sum_n s = 0 then VNull else VF64 (sum_total s))"

record AvgState =
  avg_sum :: f64
  avg_n :: u64

definition avg_default :: AvgState where
  "avg_default = \<lparr>avg_sum = Fin 0, avg_n = 0\<rparr>"

definition avg_update :: "AvgState \<Rightarrow> Row \<Rightarrow> int \<Rightarrow> string option \<Rightarrow> bool \<Rightarrow> AvgState" where
  "avg_update s row now field matched =
     (if \<not> matched then s
      else case field of None \<Rightarrow> s
      | Some fname \<Rightarrow> (case numeric_from_row row fname of None \<Rightarrow> s
      | Some v \<Rightarrow> s\<lparr>avg_sum := f64_add (avg_sum s) v, avg_n := avg_n s + 1\<rparr>))"

definition avg_update_pre :: "AvgState \<Rightarrow> Value option \<Rightarrow> bool \<Rightarrow> AvgState" where
  "avg_update_pre s pre_val matched =
     (if \<not> matched then s
      else case numeric_from_value pre_val of None \<Rightarrow> s
      | Some v \<Rightarrow> s\<lparr>avg_sum := f64_add (avg_sum s) v, avg_n := avg_n s + 1\<rparr>)"

definition avg_query :: "AvgState \<Rightarrow> Value" where
  "avg_query s = (if avg_n s = 0 then VNull else VF64 (f64_div (avg_sum s) (f64_of_u64 (avg_n s))))"

record MinState =
  min_current :: "Value option"

definition min_default :: MinState where
  "min_default = \<lparr>min_current = None\<rparr>"

definition min_observe :: "MinState \<Rightarrow> Value \<Rightarrow> MinState" where
  "min_observe s val =
     (case min_current s of
        None \<Rightarrow> s\<lparr>min_current := Some val\<rparr>
      | Some current \<Rightarrow> (if value_lt val current then s\<lparr>min_current := Some val\<rparr> else s))"

definition min_update :: "MinState \<Rightarrow> Row \<Rightarrow> int \<Rightarrow> string option \<Rightarrow> bool \<Rightarrow> MinState" where
  "min_update s row now field matched =
     (if \<not> matched then s
      else case field of None \<Rightarrow> s
      | Some fname \<Rightarrow> (case present (row_get row fname) of None \<Rightarrow> s | Some v \<Rightarrow> min_observe s v))"

definition min_update_pre :: "MinState \<Rightarrow> Value option \<Rightarrow> bool \<Rightarrow> MinState" where
  "min_update_pre s pre_val matched =
     (if \<not> matched then s
      else case present pre_val of None \<Rightarrow> s | Some v \<Rightarrow> min_observe s v)"

definition min_query :: "MinState \<Rightarrow> Value" where
  "min_query s = (case min_current s of None \<Rightarrow> VNull | Some v \<Rightarrow> v)"

record MaxState =
  max_current :: "Value option"

definition max_default :: MaxState where
  "max_default = \<lparr>max_current = None\<rparr>"

definition max_observe :: "MaxState \<Rightarrow> Value \<Rightarrow> MaxState" where
  "max_observe s val =
     (case max_current s of
        None \<Rightarrow> s\<lparr>max_current := Some val\<rparr>
      | Some current \<Rightarrow> (if value_lt current val then s\<lparr>max_current := Some val\<rparr> else s))"

definition max_update :: "MaxState \<Rightarrow> Row \<Rightarrow> int \<Rightarrow> string option \<Rightarrow> bool \<Rightarrow> MaxState" where
  "max_update s row now field matched =
     (if \<not> matched then s
      else case field of None \<Rightarrow> s
      | Some fname \<Rightarrow> (case present (row_get row fname) of None \<Rightarrow> s | Some v \<Rightarrow> max_observe s v))"

definition max_update_pre :: "MaxState \<Rightarrow> Value option \<Rightarrow> bool \<Rightarrow> MaxState" where
  "max_update_pre s pre_val matched =
     (if \<not> matched then s
      else case present pre_val of None \<Rightarrow> s | Some v \<Rightarrow> max_observe s v)"

definition max_query :: "MaxState \<Rightarrow> Value" where
  "max_query s = (case max_current s of None \<Rightarrow> VNull | Some v \<Rightarrow> v)"

record VarianceState =
  var_n :: u64
  var_mean :: f64
  var_m2 :: f64

definition variance_default :: VarianceState where
  "variance_default = \<lparr>var_n = 0, var_mean = Fin 0, var_m2 = Fin 0\<rparr>"

text \<open>Welford's step, shared by the two update paths.\<close>

definition welford :: "VarianceState \<Rightarrow> f64 \<Rightarrow> VarianceState" where
  "welford s x =
     (let n' = var_n s + 1;
          delta = f64_sub x (var_mean s);
          mean' = f64_add (var_mean s) (f64_div delta (f64_of_u64 n'));
          delta2 = f64_sub x mean'
      in \<lparr>var_n = n', var_mean = mean', var_m2 = f64_add (var_m2 s) (f64_mul delta delta2)\<rparr>)"

definition variance_update :: "VarianceState \<Rightarrow> Row \<Rightarrow> int \<Rightarrow> string option \<Rightarrow> bool \<Rightarrow> VarianceState" where
  "variance_update s row now field matched =
     (if \<not> matched then s
      else case field of None \<Rightarrow> s
      | Some fname \<Rightarrow> (case numeric_from_row row fname of None \<Rightarrow> s | Some x \<Rightarrow> welford s x))"

definition variance_update_pre :: "VarianceState \<Rightarrow> Value option \<Rightarrow> bool \<Rightarrow> VarianceState" where
  "variance_update_pre s pre_val matched =
     (if \<not> matched then s
      else case numeric_from_value pre_val of None \<Rightarrow> s | Some x \<Rightarrow> welford s x)"

definition query_variance :: "VarianceState \<Rightarrow> Value" where
  "query_variance s =
     (if var_n s < 2 then VNull else VF64 (f64_div (var_m2 s) (f64_of_u64 (var_n s - 1))))"

definition query_stddev :: "VarianceState \<Rightarrow> Value" where
  "query_stddev s = (case query_variance s of VF64 v \<Rightarrow> VF64 (f64_sqrt v) | other \<Rightarrow> other)"

record RatioState =
  ratio_matching :: u64
  ratio_total :: u64

definition ratio_default :: RatioState where
  "ratio_default = \<lparr>ratio_matching = 0, ratio_total = 0\<rparr>"

definition ratio_update :: "RatioState \<Rightarrow> Row \<Rightarrow> int \<Rightarrow> string option \<Rightarrow> bool \<Rightarrow> RatioState" where
  "ratio_update s row now field matched =
     (let s' = s\<lparr>ratio_total := ratio_total s + 1\<rparr>
      in if matched then s'\<lparr>ratio_matching := ratio_matching s' + 1\<rparr> else s')"

definition ratio_query :: "RatioState \<Rightarrow> Value" where
  "ratio_query s =
     (if ratio_total s = 0 then VNull
      else VF64 (f64_div (f64_of_u64 (ratio_matching s)) (f64_of_u64 (ratio_total s))))"

section \<open>Point operators\<close>

record FirstState =
  first_current :: "Value option"

definition first_default :: FirstState where
  "first_default = \<lparr>first_current = None\<rparr>"

definition first_update :: "FirstState \<Rightarrow> Row \<Rightarrow> int \<Rightarrow> string option \<Rightarrow> bool \<Rightarrow> FirstState" where
  "first_update s row now field matched =
     (if \<not> matched \<or> first_current s \<noteq> None then s
      else case field of None \<Rightarrow> s
      | Some fname \<Rightarrow> (case present (row_get row fname) of None \<Rightarrow> s
      | Some v \<Rightarrow> s\<lparr>first_current := Some v\<rparr>))"

definition first_update_pre :: "FirstState \<Rightarrow> Value option \<Rightarrow> bool \<Rightarrow> FirstState" where
  "first_update_pre s pre_val matched =
     (if \<not> matched \<or> first_current s \<noteq> None then s
      else case present pre_val of None \<Rightarrow> s | Some v \<Rightarrow> s\<lparr>first_current := Some v\<rparr>)"

definition first_query :: "FirstState \<Rightarrow> Value" where
  "first_query s = (case first_current s of None \<Rightarrow> VNull | Some v \<Rightarrow> v)"

record LastState =
  last_current :: "Value option"

definition last_default :: LastState where
  "last_default = \<lparr>last_current = None\<rparr>"

definition last_update :: "LastState \<Rightarrow> Row \<Rightarrow> int \<Rightarrow> string option \<Rightarrow> bool \<Rightarrow> LastState" where
  "last_update s row now field matched =
     (if \<not> matched then s
      else case field of None \<Rightarrow> s
      | Some fname \<Rightarrow> (case present (row_get row fname) of None \<Rightarrow> s
      | Some v \<Rightarrow> s\<lparr>last_current := Some v\<rparr>))"

definition last_update_pre :: "LastState \<Rightarrow> Value option \<Rightarrow> bool \<Rightarrow> LastState" where
  "last_update_pre s pre_val matched =
     (if \<not> matched then s
      else case present pre_val of None \<Rightarrow> s | Some v \<Rightarrow> s\<lparr>last_current := Some v\<rparr>)"

definition last_query :: "LastState \<Rightarrow> Value" where
  "last_query s = (case last_current s of None \<Rightarrow> VNull | Some v \<Rightarrow> v)"

record FirstNState =
  firstn_n :: nat
  firstn_values :: "Value list"

definition firstn_new :: "nat \<Rightarrow> FirstNState" where
  "firstn_new k = \<lparr>firstn_n = k, firstn_values = []\<rparr>"

definition firstn_update :: "FirstNState \<Rightarrow> Row \<Rightarrow> int \<Rightarrow> string option \<Rightarrow> bool \<Rightarrow> FirstNState" where
  "firstn_update s row now field matched =
     (if \<not> matched \<or> firstn_n s \<le> length (firstn_values s) then s
      else case field of None \<Rightarrow> s
      | Some fname \<Rightarrow> (case present (row_get row fname) of None \<Rightarrow> s
      | Some v \<Rightarrow> s\<lparr>firstn_values := firstn_values s @ [v]\<rparr>))"

definition firstn_update_pre :: "FirstNState \<Rightarrow> Value option \<Rightarrow> bool \<Rightarrow> FirstNState" where
  "firstn_update_pre s pre_val matched =
     (if \<not> matched \<or> firstn_n s \<le> length (firstn_values s) then s
      else case present pre_val of None \<Rightarrow> s
      | Some v \<Rightarrow> s\<lparr>firstn_values := firstn_values s @ [v]\<rparr>)"

definition firstn_query :: "FirstNState \<Rightarrow> Value" where
  "firstn_query s = VList (firstn_values s)"

text \<open>A \<open>VecDeque\<close> is its elements from front to back; \<open>pop_front\<close> of an empty deque
  does nothing.\<close>

record LastNState =
  lastn_n :: nat
  lastn_values :: "Value list"

definition lastn_new :: "nat \<Rightarrow> LastNState" where
  "lastn_new k = \<lparr>lastn_n = k, lastn_values = []\<rparr>"

definition lastn_push :: "Value \<Rightarrow> LastNState \<Rightarrow> LastNState" where
  "lastn_push v s =
     (let vs = (if length (lastn_values s) = lastn_n s then tl (lastn_values s) else lastn_values s)
      in s\<lparr>lastn_values := vs @ [v]\<rparr>)"

definition lastn_update :: "LastNState \<Rightarrow> Row \<Rightarrow> int \<Rightarrow> string option \<Rightarrow> bool \<Rightarrow> LastNState" where
  "lastn_update s row now field matched =
     (if \<not> matched then s
      else case field of None \<Rightarrow> s
      | Some fname \<Rightarrow> (case present (row_get row fname) of None \<Rightarrow> s | Some v \<Rightarrow> lastn_push v s))"

definition lastn_update_pre :: "LastNState \<Rightarrow> Value option \<Rightarrow> bool \<Rightarrow> LastNState" where
  "lastn_update_pre s pre_val matched =
     (if \<not> matched then s
      else case present pre_val of None \<Rightarrow> s | Some v \<Rightarrow> lastn_push v s)"

definition lastn_query :: "LastNState \<Rightarrow> Value" where
  "lastn_query s = VList (lastn_values s)"

record LagState =
  lag_n :: nat
  lag_values :: "Value list"

definition lag_new :: "nat \<Rightarrow> LagState" where
  "lag_new k = \<lparr>lag_n = k, lag_values = []\<rparr>"

definition lag_push :: "Value \<Rightarrow> LagState \<Rightarrow> LagState" where
  "lag_push v s =
     (let vs = (if length (lag_values s) = lag_n s + 1 then tl (lag_values s) else lag_values s)
      in s\<lparr>lag_values := vs @ [v]\<rparr>)"

definition lag_update :: "LagState \<Rightarrow> Row \<Rightarrow> int \<Rightarrow> string option \<Rightarrow> bool \<Rightarrow> LagState" where
  "lag_update s row now field matched =
     (if \<not> matched then s
      else case field of None \<Rightarrow> s
      | Some fname \<Rightarrow> (case present (row_get row fname) of None \<Rightarrow> s | Some v \<Rightarrow> lag_push v s))"

definition lag_update_pre :: "LagState \<Rightarrow> Value option \<Rightarrow> bool \<Rightarrow> LagState" where
  "lag_update_pre s pre_val matched =
     (if \<not> matched then s
      else case present pre_val of None \<Rightarrow> s | Some v \<Rightarrow> lag_push v s)"

definition lag_query :: "LagState \<Rightarrow> Value" where
  "lag_query s =
     (if length (lag_values s) = lag_n s + 1
      then (case lag_values s of [] \<Rightarrow> VNull | v # _ \<Rightarrow> v) else VNull)"

section \<open>Recency markers\<close>

record SeenState =
  first_ms :: "int option"
  last_ms :: "int option"

definition seen_default :: SeenState where
  "seen_default = \<lparr>first_ms = None, last_ms = None\<rparr>"

definition seen_update :: "SeenState \<Rightarrow> Row \<Rightarrow> int \<Rightarrow> string option \<Rightarrow> bool \<Rightarrow> SeenState" where
  "seen_update s row now field matched =
     (if \<not> matched then s
      else (let s' = (if first_ms s = None then s\<lparr>first_ms := Some now\<rparr> else s)
            in s'\<lparr>last_ms := Some now\<rparr>))"

definition query_first_seen :: "SeenState \<Rightarrow> Value" where
  "query_first_seen s = (case first_ms s of Some t \<Rightarrow> VDatetime t | None \<Rightarrow> VNull)"

definition query_last_seen :: "SeenState \<Rightarrow> Value" where
  "query_last_seen s = (case last_ms s of Some t \<Rightarrow> VDatetime t | None \<Rightarrow> VNull)"

definition query_age :: "SeenState \<Rightarrow> int \<Rightarrow> Value" where
  "query_age s query_time =
     (case first_ms s of Some t \<Rightarrow> VI64 (max 0 (i64_wrap (query_time - t))) | None \<Rightarrow> VNull)"

definition query_has_seen :: "SeenState \<Rightarrow> Value" where
  "query_has_seen s = VBool (first_ms s \<noteq> None)"

definition query_time_since :: "SeenState \<Rightarrow> int \<Rightarrow> Value" where
  "query_time_since s query_time =
     (case last_ms s of Some t \<Rightarrow> VI64 (max 0 (i64_wrap (query_time - t))) | None \<Rightarrow> VNull)"

record TimeSinceLastNState =
  tsl_n :: nat
  times_ms :: "int list"

definition tsl_new :: "nat \<Rightarrow> TimeSinceLastNState" where
  "tsl_new k = \<lparr>tsl_n = k, times_ms = []\<rparr>"

definition tsl_push :: "int \<Rightarrow> TimeSinceLastNState \<Rightarrow> TimeSinceLastNState" where
  "tsl_push t s =
     (let ts = (if length (times_ms s) = tsl_n s then tl (times_ms s) else times_ms s)
      in s\<lparr>times_ms := ts @ [t]\<rparr>)"

definition tsl_update :: "TimeSinceLastNState \<Rightarrow> Row \<Rightarrow> int \<Rightarrow> string option \<Rightarrow> bool \<Rightarrow> TimeSinceLastNState" where
  "tsl_update s row now field matched = (if \<not> matched then s else tsl_push now s)"

definition tsl_query :: "TimeSinceLastNState \<Rightarrow> int \<Rightarrow> Value" where
  "tsl_query s query_time =
     (if length (times_ms s) < tsl_n s then VNull
      else (let oldest = (case times_ms s of [] \<Rightarrow> query_time | t # _ \<Rightarrow> t)
            in VI64 (max 0 (i64_wrap (query_time - oldest)))))"

record FirstSeenInWindowState =
  fsw_window_ms :: u64
  fsw_last_ms :: "int option"

definition fsw_new :: "u64 \<Rightarrow> FirstSeenInWindowState" where
  "fsw_new w = \<lparr>fsw_window_ms = w, fsw_last_ms = None\<rparr>"

definition fsw_update :: "FirstSeenInWindowState \<Rightarrow> Row \<Rightarrow> int \<Rightarrow> string option \<Rightarrow> bool \<Rightarrow> FirstSeenInWindowState" where
  "fsw_update s row now field matched = (if \<not> matched then s else s\<lparr>fsw_last_ms := Some now\<rparr>)"

definition fsw_query :: "FirstSeenInWindowState \<Rightarrow> int \<Rightarrow> Value" where
  "fsw_query s query_time =
     (case fsw_last_ms s of
        Some t \<Rightarrow> (let age = i64_wrap (query_time - t)
                  in VBool (0 \<le> age \<and> age < uint (fsw_window_ms s)))
      | None \<Rightarrow> VBool False)"

section \<open>Streaks\<close>

record StreakState =
  streak_current :: u64
  streak_max_seen :: u64

definition streak_default :: StreakState where
  "streak_default = \<lparr>streak_current = 0, streak_max_seen = 0\<rparr>"

definition streak_update :: "StreakState \<Rightarrow> Row \<Rightarrow> int \<Rightarrow> string option \<Rightarrow> bool \<Rightarrow> StreakState" where
  "streak_update s row now field matched =
     (if matched then
        (let c = streak_current s + 1; s' = s\<lparr>streak_current := c\<rparr>
         in if streak_max_seen s' < c then s'\<lparr>streak_max_seen := c\<rparr> else s')
      else s\<lparr>streak_current := 0\<rparr>)"

definition streak_query_current :: "StreakState \<Rightarrow> Value" where
  "streak_query_current s = VI64 (u64_as_i64 (streak_current s))"

definition streak_query_max :: "StreakState \<Rightarrow> Value" where
  "streak_query_max s = VI64 (u64_as_i64 (streak_max_seen s))"

record NegativeStreakState =
  neg_current :: u64

definition neg_streak_default :: NegativeStreakState where
  "neg_streak_default = \<lparr>neg_current = 0\<rparr>"

definition neg_streak_update :: "NegativeStreakState \<Rightarrow> Row \<Rightarrow> int \<Rightarrow> string option \<Rightarrow> bool \<Rightarrow> NegativeStreakState" where
  "neg_streak_update s row now field matched =
     (if matched then s\<lparr>neg_current := 0\<rparr> else s\<lparr>neg_current := neg_current s + 1\<rparr>)"

definition neg_streak_query :: "NegativeStreakState \<Rightarrow> Value" where
  "neg_streak_query s = VI64 (u64_as_i64 (neg_current s))"

section \<open>Fast path and row path agree\<close>

lemmas update_pre_defs =
  sum_update_def sum_update_pre_def avg_update_def avg_update_pre_def
  min_update_def min_update_pre_def max_update_def max_update_pre_def
  variance_update_def variance_update_pre_def first_update_def first_update_pre_def
  last_update_def last_update_pre_def firstn_update_def firstn_update_pre_def
  lastn_update_def lastn_update_pre_def lag_update_def lag_update_pre_def

lemma update_pre_agrees:
  "sum_update s1 row t field m = sum_update_pre s1 (field_value row field) m"
  "avg_update s2 row t field m = avg_update_pre s2 (field_value row field) m"
  "min_update s3 row t field m = min_update_pre s3 (field_value row field) m"
  "max_update s4 row t field m = max_update_pre s4 (field_value row field) m"
  "variance_update s5 row t field m = variance_update_pre s5 (field_value row field) m"
  "first_update s6 row t field m = first_update_pre s6 (field_value row field) m"
  "last_update s7 row t field m = last_update_pre s7 (field_value row field) m"
  "firstn_update s8 row t field m = firstn_update_pre s8 (field_value row field) m"
  "lastn_update s9 row t field m = lastn_update_pre s9 (field_value row field) m"
  "lag_update s10 row t field m = lag_update_pre s10 (field_value row field) m"
  by (simp_all add: update_pre_defs field_value_def numeric_from_row_value numeric_from_value_def
      present_def split: option.splits)

section \<open>Runs of events\<close>

text \<open>An event as an operator sees it: the row, the time, the where-predicate's result.\<close>

type_synonym agg_event = "Row \<times> int \<times> bool"

definition run_op :: "('s \<Rightarrow> Row \<Rightarrow> int \<Rightarrow> string option \<Rightarrow> bool \<Rightarrow> 's) \<Rightarrow> string option \<Rightarrow> agg_event list \<Rightarrow> 's \<Rightarrow> 's" where
  "run_op upd field evs s = fold (\<lambda>(row, t, m) s. upd s row t field m) evs s"

lemma run_op_simps [simp]:
  "run_op upd field [] s = s"
  "run_op upd field ((row, t, m) # evs) s = run_op upd field evs (upd s row t field m)"
  by (simp_all add: run_op_def)

lemma run_op_append [simp]:
  "run_op upd field (xs @ ys) s = run_op upd field ys (run_op upd field xs s)"
  by (simp add: run_op_def)

text \<open>The values a field-bearing operator observes: present in the row, not null, and the
  predicate holds.\<close>

definition observed :: "string option \<Rightarrow> agg_event list \<Rightarrow> Value list" where
  "observed field evs =
     List.map_filter (\<lambda>(row, t, m). if m then present (field_value row field) else None) evs"

lemma observed_simps [simp]:
  "observed field [] = []"
  "observed field ((row, t, m) # evs) =
     (if m then (case present (field_value row field) of None \<Rightarrow> [] | Some v \<Rightarrow> [v]) else [])
       @ observed field evs"
  by (auto simp: observed_def map_filter_simps split: option.splits)

definition matched_times :: "agg_event list \<Rightarrow> int list" where
  "matched_times evs = List.map_filter (\<lambda>(row, t, m). if m then Some t else None) evs"

lemma matched_times_simps [simp]:
  "matched_times [] = []"
  "matched_times ((row, t, m) # evs) = (if m then t # matched_times evs else matched_times evs)"
  by (auto simp: matched_times_def map_filter_simps)

lemma run_pushes:
  assumes "\<And>s row t m. upd s row t field m =
    (if m then (case present (field_value row field) of None \<Rightarrow> s | Some v \<Rightarrow> push v s) else s)"
  shows "run_op upd field evs s = fold push (observed field evs) s"
  by (induction evs arbitrary: s) (auto simp: assms split: option.splits)

subsection \<open>Bounded buffers\<close>

interpretation lastn: ring_buffer lastn_push lastn_values lastn_n
  "\<lambda>s. 0 < lastn_n s \<and> length (lastn_values s) \<le> lastn_n s"
  by unfold_locales (auto simp: lastn_push_def Let_def last_n_snoc_full last_n_all)

interpretation lag: ring_buffer lag_push lag_values "\<lambda>s. lag_n s + 1"
  "\<lambda>s. length (lag_values s) \<le> lag_n s + 1"
  by unfold_locales (auto simp: lag_push_def Let_def last_n_snoc_full last_n_all)

interpretation tsl: ring_buffer tsl_push times_ms tsl_n
  "\<lambda>s. 0 < tsl_n s \<and> length (times_ms s) \<le> tsl_n s"
  by unfold_locales (auto simp: tsl_push_def Let_def last_n_snoc_full last_n_all)

lemma lastn_run:
  assumes "0 < k"
  shows "lastn_values (run_op lastn_update field evs (lastn_new k)) = last_n k (observed field evs)"
proof -
  have "run_op lastn_update field evs (lastn_new k) = fold lastn_push (observed field evs) (lastn_new k)"
    by (rule run_pushes) (simp add: lastn_update_def field_value_def present_def split: option.splits)
  with assms lastn.run_contents [of "lastn_new k"] show ?thesis
    by (simp add: lastn_new_def)
qed

lemma lag_run:
  "lag_values (run_op lag_update field evs (lag_new k)) = last_n (k + 1) (observed field evs)"
  "lag_n (run_op lag_update field evs (lag_new k)) = k"
proof -
  have run: "run_op lag_update field evs (lag_new k) = fold lag_push (observed field evs) (lag_new k)"
    by (rule run_pushes) (simp add: lag_update_def field_value_def present_def split: option.splits)
  show "lag_values (run_op lag_update field evs (lag_new k)) = last_n (k + 1) (observed field evs)"
    using lag.run_contents [of "lag_new k"] run by (simp add: lag_new_def)
  show "lag_n (run_op lag_update field evs (lag_new k)) = k"
    using lag.run_invariants [of "lag_new k"] run by (simp add: lag_new_def)
qed

lemma lag_query_run:
  "lag_query (run_op lag_update field evs (lag_new k)) =
     (let obs = observed field evs
      in if k < length obs then obs ! (length obs - 1 - k) else VNull)"
proof -
  let ?obs = "observed field evs"
  show ?thesis
  proof (cases "k < length ?obs")
    case True
    then have "last_n (k + 1) ?obs = ?obs ! (length ?obs - 1 - k) # drop (Suc (length ?obs - 1 - k)) ?obs"
      by (simp add: last_n_def Cons_nth_drop_Suc)
    with True show ?thesis by (simp add: lag_query_def lag_run Let_def)
  next
    case False
    then show ?thesis by (simp add: lag_query_def lag_run Let_def)
  qed
qed

lemma tsl_run:
  assumes "0 < k"
  shows "times_ms (run_op tsl_update field evs (tsl_new k)) = last_n k (matched_times evs)"
proof -
  have "run_op tsl_update field evs s = fold tsl_push (matched_times evs) s" for s
    by (induction evs arbitrary: s) (auto simp: tsl_update_def)
  with assms tsl.run_contents [of "tsl_new k"] show ?thesis by (simp add: tsl_new_def)
qed

lemma firstn_run:
  "firstn_values (run_op firstn_update field evs (firstn_new k)) = take k (observed field evs)"
proof -
  have "firstn_values (run_op firstn_update field evs s) = take (firstn_n s) (firstn_values s @ observed field evs)"
    if "length (firstn_values s) \<le> firstn_n s" for s
    using that
  proof (induction evs arbitrary: s)
    case Nil
    then show ?case by simp
  next
    case (Cons e evs)
    obtain row t m where e: "e = (row, t, m)" by (cases e)
    let ?s' = "firstn_update s row t field m"
    have s': "length (firstn_values ?s') \<le> firstn_n ?s'" "firstn_n ?s' = firstn_n s"
      using Cons.prems by (auto simp: firstn_update_def split: option.splits)
    have obs: "take (firstn_n s) (firstn_values ?s' @ rest) =
      take (firstn_n s) (firstn_values s @
        (if m then (case present (field_value row field) of None \<Rightarrow> [] | Some v \<Rightarrow> [v]) else []) @ rest)" for rest
      using Cons.prems by (auto simp: firstn_update_def field_value_def present_def split: option.splits Value.splits)
    show ?case using Cons.IH [OF s'(1)] s'(2) obs by (simp add: e)
  qed
  from this [of "firstn_new k"] show ?thesis by (simp add: firstn_new_def)
qed

subsection \<open>Counters and streaks\<close>

lemma count_run:
  "count_n (run_op count_update field evs s) = count_n s + of_nat (length (filter (\<lambda>(_, _, m). m) evs))"
  by (induction evs arbitrary: s) (auto simp: count_update_def)

lemma ratio_run:
  "ratio_total (run_op ratio_update field evs s) = ratio_total s + of_nat (length evs)"
  "ratio_matching (run_op ratio_update field evs s) =
     ratio_matching s + of_nat (length (filter (\<lambda>(_, _, m). m) evs))"
  by (induction evs arbitrary: s) (auto simp: ratio_update_def Let_def)

text \<open>Length of the longest suffix of matching events, and the longest run anywhere.\<close>

definition trailing_run :: "agg_event list \<Rightarrow> nat" where
  "trailing_run evs = length (takeWhile (\<lambda>(_, _, m). m) (rev evs))"

fun longest_run :: "nat \<Rightarrow> bool list \<Rightarrow> nat" where
  "longest_run c [] = c"
| "longest_run c (b # bs) = (if b then longest_run (Suc c) bs else max c (longest_run 0 bs))"

lemma streak_run_current:
  "streak_current (run_op streak_update field evs streak_default) = of_nat (trailing_run evs)"
proof (induction evs rule: rev_induct)
  case Nil
  then show ?case by (simp add: trailing_run_def streak_default_def)
next
  case (snoc e evs)
  then show ?case by (cases e) (auto simp: trailing_run_def streak_update_def Let_def)
qed

lemma neg_streak_run:
  "neg_current (run_op neg_streak_update field evs neg_streak_default) =
     of_nat (length (takeWhile (\<lambda>(_, _, m). \<not> m) (rev evs)))"
proof (induction evs rule: rev_induct)
  case Nil
  then show ?case by (simp add: neg_streak_default_def)
next
  case (snoc e evs)
  then show ?case by (cases e) (auto simp: neg_streak_update_def)
qed

lemma longest_run_ge: "c \<le> longest_run c bs"
  by (induction c bs rule: longest_run.induct) auto

lemma longest_run_le: "longest_run c bs \<le> c + length bs"
  by (induction c bs rule: longest_run.induct) (auto simp: le_max_iff_disj)

text \<open>The maximum is exact as long as the counters do not wrap.\<close>

lemma streak_run_max:
  assumes "unat (streak_current s) + length evs < 2 ^ 64"
    and "unat (streak_max_seen s) < 2 ^ 64"
    and "streak_current s \<le> streak_max_seen s"
  shows "unat (streak_max_seen (run_op streak_update field evs s)) =
    max (unat (streak_max_seen s)) (longest_run (unat (streak_current s)) (map (\<lambda>(_, _, m). m) evs))"
  using assms
proof (induction evs arbitrary: s)
  case Nil
  then show ?case by (simp add: max_def word_le_nat_alt)
next
  case (Cons e evs)
  obtain row t m where e: "e = (row, t, m)" by (cases e)
  let ?s' = "streak_update s row t field m"
  show ?case
  proof (cases m)
    case True
    have c: "unat (streak_current s + 1) = Suc (unat (streak_current s))"
      using Cons.prems(1) by (simp add: unat_word_ariths)
    have s': "streak_current ?s' = streak_current s + 1"
      "unat (streak_max_seen ?s') = max (unat (streak_max_seen s)) (Suc (unat (streak_current s)))"
      using True c by (auto simp: streak_update_def Let_def word_less_nat_alt max_def)
    have "streak_current ?s' \<le> streak_max_seen ?s'"
      using s' c by (simp add: word_le_nat_alt)
    then have "unat (streak_max_seen (run_op streak_update field evs ?s')) =
      max (unat (streak_max_seen ?s')) (longest_run (Suc (unat (streak_current s))) (map (\<lambda>(_, _, m). m) evs))"
      using Cons.IH [of ?s'] Cons.prems s' c by simp
    then show ?thesis
      using True s' longest_run_ge [of "Suc (unat (streak_current s))" "map (\<lambda>(_, _, m). m) evs"]
      by (simp add: e)
  next
    case False
    have s': "streak_current ?s' = 0" "streak_max_seen ?s' = streak_max_seen s"
      using False by (simp_all add: streak_update_def)
    then have "unat (streak_max_seen (run_op streak_update field evs ?s')) =
      max (unat (streak_max_seen s)) (longest_run 0 (map (\<lambda>(_, _, m). m) evs))"
      using Cons.IH [of ?s'] Cons.prems by simp
    then show ?thesis using False Cons.prems(3) by (simp add: e word_le_nat_alt)
  qed
qed

lemma seen_run:
  "first_ms (run_op seen_update field evs seen_default) =
     (case matched_times evs of [] \<Rightarrow> None | t # _ \<Rightarrow> Some t)"
  "last_ms (run_op seen_update field evs seen_default) =
     (if matched_times evs = [] then None else Some (last (matched_times evs)))"
proof -
  have f: "first_ms (run_op seen_update field evs s) =
    (case first_ms s of Some t \<Rightarrow> Some t
     | None \<Rightarrow> (case matched_times evs of [] \<Rightarrow> None | t # _ \<Rightarrow> Some t))" for s
    by (induction evs arbitrary: s) (auto simp: seen_update_def split: option.splits)
  have l: "last_ms (run_op seen_update field evs s) =
    (if matched_times evs = [] then last_ms s else Some (last (matched_times evs)))" for s
    by (induction evs arbitrary: s) (auto simp: seen_update_def Let_def)
  show "first_ms (run_op seen_update field evs seen_default) =
     (case matched_times evs of [] \<Rightarrow> None | t # _ \<Rightarrow> Some t)"
    using f [of seen_default] by (simp add: seen_default_def)
  show "last_ms (run_op seen_update field evs seen_default) =
     (if matched_times evs = [] then None else Some (last (matched_times evs)))"
    using l [of seen_default] by (simp add: seen_default_def)
qed

subsection \<open>Sums and extrema over integers\<close>

lemma sum_update_obs:
  "sum_update s row t field m =
     (if m then (case present (field_value row field) of None \<Rightarrow> s
       | Some v \<Rightarrow> sum_update_pre s (Some v) True) else s)"
  by (auto simp: update_pre_agrees sum_update_pre_def present_def numeric_from_value_def
      split: option.splits Value.splits)

lemma min_update_obs:
  "min_update s row t field m =
     (if m then (case present (field_value row field) of None \<Rightarrow> s | Some v \<Rightarrow> min_observe s v) else s)"
  by (simp add: update_pre_agrees min_update_pre_def)

lemma max_update_obs:
  "max_update s row t field m =
     (if m then (case present (field_value row field) of None \<Rightarrow> s | Some v \<Rightarrow> max_observe s v) else s)"
  by (simp add: update_pre_agrees max_update_pre_def)

lemma sum_fold_exact:
  assumes "\<bar>a\<bar> + (\<Sum>n\<leftarrow>ns. \<bar>n\<bar>) < 2 ^ 53"
  shows "fold (\<lambda>v s. sum_update_pre s (Some v) True) (map VI64 ns) \<lparr>sum_total = Fin (of_int a), sum_n = k\<rparr> =
    \<lparr>sum_total = Fin (of_int (a + sum_list ns)), sum_n = k + of_nat (length ns)\<rparr>"
  using assms
proof (induction ns arbitrary: a k)
  case Nil
  then show ?case by simp
next
  case (Cons n ns)
  have nonneg: "0 \<le> (\<Sum>n\<leftarrow>ns. \<bar>n\<bar>)" by (induction ns) auto
  have n: "f64_of_int n = Fin (of_int n)" and an: "\<bar>a + n\<bar> < 2 ^ 53"
    using Cons.prems nonneg by (auto intro!: f64_of_int_exact)
  have "\<bar>a + n\<bar> + (\<Sum>n\<leftarrow>ns. \<bar>n\<bar>) < 2 ^ 53" using Cons.prems by simp
  from Cons.IH [OF this, of "k + 1"] show ?case
    using f64_add_int_exact [OF an] by (simp add: sum_update_pre_def numeric_from_value_def n algebra_simps)
qed

lemma min_fold:
  "min_current (fold (\<lambda>v s. min_observe s v) (map VI64 ns) \<lparr>min_current = Some (VI64 a)\<rparr>) = Some (VI64 (fold min ns a))"
  by (induction ns arbitrary: a) (auto simp: min_observe_def value_lt_def min_def)

lemma max_fold:
  "max_current (fold (\<lambda>v s. max_observe s v) (map VI64 ns) \<lparr>max_current = Some (VI64 a)\<rparr>) = Some (VI64 (fold max ns a))"
  by (induction ns arbitrary: a) (auto simp: max_observe_def value_lt_def max_def)

section \<open>Properties\<close>

text \<open>Sums over integers are exact: when the present values of the field are integers
  whose magnitudes add up to less than \<open>2 ^ 53\<close>, the floating-point accumulator holds their
  exact sum; with no value the answer is Null.\<close>

lemma sum_exact:
  assumes "observed field evs = map VI64 ns" and "(\<Sum>n\<leftarrow>ns. \<bar>n\<bar>) < 2 ^ 53" and "length ns < 2 ^ 64"
  shows "sum_query (run_op sum_update field evs sum_default) =
    (if ns = [] then VNull else VF64 (Fin (of_int (sum_list ns))))"
proof -
  have "run_op sum_update field evs sum_default =
      fold (\<lambda>v s. sum_update_pre s (Some v) True) (observed field evs) sum_default"
    by (rule run_pushes) (rule sum_update_obs)
  also have "\<dots> = \<lparr>sum_total = Fin (of_int (sum_list ns)), sum_n = of_nat (length ns)\<rparr>"
    using sum_fold_exact [of 0 ns 0] assms(1,2) by (simp add: sum_default_def)
  finally have run: "run_op sum_update field evs sum_default = \<dots>" .
  have "(of_nat (length ns) :: u64) = 0 \<longleftrightarrow> ns = []"
    using of_nat_u64_eq_0 [OF assms(3)] by simp
  with run show ?thesis by (simp add: sum_query_def)
qed

text \<open>Over integer values the running minimum and maximum are the minimum and the maximum
  of all values seen.\<close>

lemma min_max_exact:
  assumes "observed field evs = map VI64 ns" and "ns \<noteq> []"
  shows "min_query (run_op min_update field evs min_default) = VI64 (Min (set ns)) \<and>
    max_query (run_op max_update field evs max_default) = VI64 (Max (set ns))"
proof -
  from assms(2) obtain a ms where ns: "ns = a # ms" by (cases ns) auto
  have mn: "run_op min_update field evs min_default = fold (\<lambda>v s. min_observe s v) (observed field evs) min_default"
    by (rule run_pushes) (rule min_update_obs)
  have mx: "run_op max_update field evs max_default = fold (\<lambda>v s. max_observe s v) (observed field evs) max_default"
    by (rule run_pushes) (rule max_update_obs)
  have "min_observe min_default (VI64 a) = \<lparr>min_current = Some (VI64 a)\<rparr>"
    "max_observe max_default (VI64 a) = \<lparr>max_current = Some (VI64 a)\<rparr>"
    by (simp_all add: min_observe_def min_default_def max_observe_def max_default_def)
  then have "min_current (run_op min_update field evs min_default) = Some (VI64 (fold min ms a))"
    "max_current (run_op max_update field evs max_default) = Some (VI64 (fold max ms a))"
    using min_fold [of ms a] max_fold [of ms a] by (simp_all add: mn mx assms(1) ns)
  moreover have "fold min ms a = Min (set ns)" "fold max ms a = Max (set ns)"
    by (simp_all add: ns Min.set_eq_fold Max.set_eq_fold del: list.set)
  ultimately show ?thesis by (simp add: min_query_def max_query_def)
qed

text \<open>The point operators keep what their names say: of the present values of the field
  in arrival order, \<open>first_n\<close> answers the first \<open>k\<close>, \<open>last_n\<close> the last \<open>k\<close>, and \<open>lag\<close> the value
  \<open>k\<close> places before the latest, Null while there are not that many.\<close>

lemma point_operators:
  assumes "0 < k"
  shows "firstn_values (run_op firstn_update field evs (firstn_new k)) = take k (observed field evs) \<and>
    lastn_values (run_op lastn_update field evs (lastn_new k)) = last_n k (observed field evs) \<and>
    lag_query (run_op lag_update field evs (lag_new k)) =
      (let obs = observed field evs in if k < length obs then obs ! (length obs - 1 - k) else VNull)"
  using assms by (simp add: firstn_run lastn_run lag_query_run)

text \<open>Streaks: after fewer than \<open>2 ^ 64\<close> events the current streak is the number of
  trailing matching events, the longest streak the longest run of consecutive matching
  events anywhere, and the negative streak the number of trailing non-matching events.\<close>

lemma streaks:
  assumes "length evs < 2 ^ 64"
  shows "streak_current (run_op streak_update field evs streak_default) = of_nat (trailing_run evs) \<and>
    unat (streak_max_seen (run_op streak_update field evs streak_default)) =
      longest_run 0 (map (\<lambda>(_, _, m). m) evs) \<and>
    neg_current (run_op neg_streak_update field evs neg_streak_default) =
      of_nat (length (takeWhile (\<lambda>(_, _, m). \<not> m) (rev evs)))"
proof -
  have "unat (streak_max_seen (run_op streak_update field evs streak_default)) =
      longest_run 0 (map (\<lambda>(_, _, m). m) evs)"
    using assms streak_run_max [of streak_default evs field] by (simp add: streak_default_def)
  then show ?thesis by (simp add: streak_run_current neg_streak_run)
qed

end
