(* ===== verification/AggBuffer.thy ===== *)
theory AggBuffer
  imports AggDecay
begin

text \<open>
  The bounded-buffer operators of \<open>crates/beava-core/src/agg_buffer.rs\<close>: histograms over
  fixed split points, over the hour of day and over (weekday, hour), the seasonal deviation,
  the category mix, the circular buffer of the most recent values and the deterministic
  reservoir sample. Indexing a \<open>Vec\<close> may panic, so the operations that do return an option.

  The lemmas show that none of them panics from its initial state, what each buffer holds
  after a run of events and that its size stays bounded. The circular buffer is a further
  instance of the \<open>ring_buffer\<close> interface.
\<close>

unbundle bit_operations_syntax

definition bool_to_string :: "bool \<Rightarrow> string" where
  "bool_to_string b = (if b then ''true'' else ''false'')"

definition str_from_value :: "Value \<Rightarrow> string option" where
  "str_from_value v =
     (case v of
        VStr s \<Rightarrow> Some s
      | VI64 n \<Rightarrow> Some (i64_to_string n)
      | VBool b \<Rightarrow> Some (bool_to_string b)
      | _ \<Rightarrow> None)"

definition str_from_row :: "Row \<Rightarrow> string \<Rightarrow> string option" where
  "str_from_row row field =
     (case row_get row field of
        None \<Rightarrow> None
      | Some v \<Rightarrow> str_from_value v)"

section \<open>Histograms\<close>

record HistogramState =
  hist_buckets :: "f64 list"
  hist_counts :: "u64 list"

definition hist_new :: "f64 list \<Rightarrow> HistogramState" where
  "hist_new buckets = \<lparr>hist_buckets = buckets, hist_counts = replicate (length buckets + 1) 0\<rparr>"

definition hist_bucket_index :: "HistogramState \<Rightarrow> f64 \<Rightarrow> nat" where
  "hist_bucket_index s v =
     (case position (\<lambda>edge. f64_lt v edge) (hist_buckets s) of
        Some i \<Rightarrow> i
      | None \<Rightarrow> length (hist_buckets s))"

text \<open>\<open>counts[i] = counts[i].saturating_add(1)\<close>.\<close>

definition bump :: "nat \<Rightarrow> u64 list \<Rightarrow> u64 list option" where
  "bump i counts = (if i < length counts then Some (counts[i := u64_saturating_add (counts ! i) 1]) else None)"

definition hist_update :: "HistogramState \<Rightarrow> Row \<Rightarrow> string option \<Rightarrow> bool \<Rightarrow> HistogramState option" where
  "hist_update s row field matched =
     (if \<not> matched then Some s
      else case field of None \<Rightarrow> Some s
      | Some fname \<Rightarrow> (case numeric_from_row row fname of None \<Rightarrow> Some s
      | Some v \<Rightarrow> map_option (\<lambda>c. s\<lparr>hist_counts := c\<rparr>) (bump (hist_bucket_index s v) (hist_counts s))))"

definition f64_is_integral :: "f64 \<Rightarrow> bool" where
  "f64_is_integral v = (case v of Fin r \<Rightarrow> of_int (rat_trunc r) = r | NegZero \<Rightarrow> True | _ \<Rightarrow> False)"

definition fmt_edge :: "libm \<Rightarrow> f64 \<Rightarrow> string" where
  "fmt_edge lm v = (if f64_is_integral v then i64_to_string (f64_as_i64 v) else f64_to_string lm v)"

definition hist_label :: "libm \<Rightarrow> HistogramState \<Rightarrow> nat \<Rightarrow> string option" where
  "hist_label lm s i =
     (let b = hist_buckets s in
      if b = [] then Some ''all''
      else if i = 0 then Some (''<'' @ fmt_edge lm (b ! 0))
      else if i = length b then Some (''>='' @ fmt_edge lm (b ! (i - 1)))
      else if i < length b then Some (fmt_edge lm (b ! (i - 1)) @ ''-'' @ fmt_edge lm (b ! i))
      else None)"

definition hist_query :: "libm \<Rightarrow> HistogramState \<Rightarrow> Value option" where
  "hist_query lm s =
     map_option VMap
       (fold_opt (\<lambda>(i, c) m. map_option (\<lambda>l. btree_insert l (VI64 (u64_as_i64 c)) m) (hist_label lm s i))
          (List.enumerate 0 (hist_counts s)) [])"

definition hour_of_day_index :: "int \<Rightarrow> nat" where
  "hour_of_day_index now = nat (now div 3600000 mod 24)"

record HourOfDayHistogramState =
  hod_counts :: "u64 list"

definition hod_default :: HourOfDayHistogramState where
  "hod_default = \<lparr>hod_counts = replicate 24 0\<rparr>"

definition hod_update :: "HourOfDayHistogramState \<Rightarrow> int \<Rightarrow> bool \<Rightarrow> HourOfDayHistogramState option" where
  "hod_update s now matched =
     (if \<not> matched then Some s
      else map_option (\<lambda>c. s\<lparr>hod_counts := c\<rparr>) (bump (hour_of_day_index now) (hod_counts s)))"

definition hod_query :: "HourOfDayHistogramState \<Rightarrow> Value" where
  "hod_query s = VList (map (\<lambda>c. VI64 (u64_as_i64 c)) (hod_counts s))"

definition dow_hour_index :: "int \<Rightarrow> nat" where
  "dow_hour_index now = nat ((now div 86400000 + 3) mod 7) * 24 + hour_of_day_index now"

record DowHourHistogramState =
  dow_counts :: "u64 list"

definition dow_default :: DowHourHistogramState where
  "dow_default = \<lparr>dow_counts = replicate 168 0\<rparr>"

definition dow_update :: "DowHourHistogramState \<Rightarrow> int \<Rightarrow> bool \<Rightarrow> DowHourHistogramState option" where
  "dow_update s now matched =
     (if \<not> matched then Some s
      else map_option (\<lambda>c. s\<lparr>dow_counts := c\<rparr>) (bump (dow_hour_index now) (dow_counts s)))"

definition DAY_LABELS :: "string list" where
  "DAY_LABELS = [''Mon'', ''Tue'', ''Wed'', ''Thu'', ''Fri'', ''Sat'', ''Sun'']"

definition two_digits :: "nat \<Rightarrow> string" where
  "two_digits h = (if h < 10 then ''0'' @ nat_to_string h else nat_to_string h)"

definition dow_query :: "DowHourHistogramState \<Rightarrow> Value option" where
  "dow_query s =
     map_option VMap
       (fold_opt
          (\<lambda>(d, h) m.
             let idx = d * 24 + h in
             if idx < length (dow_counts s) then
               Some (btree_insert (DAY_LABELS ! d @ ''-'' @ two_digits h) (VI64 (u64_as_i64 (dow_counts s ! idx))) m)
             else None)
          (List.product [0..<7] [0..<24]) [])"

section \<open>Seasonal deviation\<close>

record HourBucket =
  hb_n :: u64
  hb_sum :: f64
  hb_sum_sq :: f64

record SeasonalDeviationState =
  per_hour :: "HourBucket list"
  last_observed :: "(f64 \<times> nat) option"

definition hour_bucket_default :: HourBucket where
  "hour_bucket_default = \<lparr>hb_n = 0, hb_sum = Fin 0, hb_sum_sq = Fin 0\<rparr>"

definition seasonal_default :: SeasonalDeviationState where
  "seasonal_default = \<lparr>per_hour = replicate 24 hour_bucket_default, last_observed = None\<rparr>"

text \<open>The hour index is below 24, the length of the array.\<close>

definition seasonal_update :: "SeasonalDeviationState \<Rightarrow> Row \<Rightarrow> int \<Rightarrow> string option \<Rightarrow> bool \<Rightarrow> SeasonalDeviationState" where
  "seasonal_update s row now field matched =
     (if \<not> matched then s
      else case field of None \<Rightarrow> s
      | Some fname \<Rightarrow> (case numeric_from_row row fname of None \<Rightarrow> s
      | Some v \<Rightarrow>
          (let h = hour_of_day_index now; b = per_hour s ! h
           in s\<lparr>per_hour := (per_hour s)[h := \<lparr>hb_n = hb_n b + 1, hb_sum = f64_add (hb_sum b) v,
                   hb_sum_sq = f64_add (hb_sum_sq b) (f64_mul v v)\<rparr>],
                last_observed := Some (v, h)\<rparr>)))"

definition seasonal_query :: "SeasonalDeviationState \<Rightarrow> Value option" where
  "seasonal_query s =
     (case last_observed s of None \<Rightarrow> Some VNull
      | Some (v, h) \<Rightarrow>
          if \<not> h < length (per_hour s) then None
          else
            (let b = per_hour s ! h in
             if hb_n b < 2 then Some VNull
             else
               (let n = f64_of_u64 (hb_n b);
                    mean = f64_div (hb_sum b) n;
                    var = f64_div (f64_sub (hb_sum_sq b) (f64_div (f64_mul (hb_sum b) (hb_sum b)) n))
                            (f64_sub n (Fin 1))
                in if f64_le var (Fin 0) then Some VNull
                   else Some (VF64 (f64_div (f64_sub v mean) (f64_sqrt var))))))"

section \<open>Category mix\<close>

record EventTypeMixState =
  mix_counts :: "(string \<times> u64) list"
  mix_total :: u64
  mix_max_categories :: nat
  mix_allowed :: "string list option"
  mix_allowed_set :: "string set option"

definition mix_new :: "nat \<Rightarrow> string list option \<Rightarrow> EventTypeMixState" where
  "mix_new cap allow =
     \<lparr>mix_counts = [], mix_total = 0, mix_max_categories = cap, mix_allowed = allow,
      mix_allowed_set = map_option set allow\<rparr>"

definition ensure_allowed_set :: "EventTypeMixState \<Rightarrow> EventTypeMixState" where
  "ensure_allowed_set s =
     (case (mix_allowed s, mix_allowed_set s) of
        (Some v, None) \<Rightarrow> s\<lparr>mix_allowed_set := Some (set v)\<rparr>
      | _ \<Rightarrow> s)"

definition mix_observe :: "EventTypeMixState \<Rightarrow> string \<Rightarrow> EventTypeMixState" where
  "mix_observe s0 cat =
     (let s = ensure_allowed_set (s0\<lparr>mix_total := u64_saturating_add (mix_total s0) 1\<rparr>);
          accept = (case mix_allowed_set s of
                      Some a \<Rightarrow> cat \<in> a
                    | None \<Rightarrow> cat \<in> fst ` set (mix_counts s) \<or> length (mix_counts s) < mix_max_categories s)
      in if accept
         then s\<lparr>mix_counts := btree_upsert cat (\<lambda>c. u64_saturating_add c 1) (u64_saturating_add 0 1) (mix_counts s)\<rparr>
         else s)"

definition mix_update :: "EventTypeMixState \<Rightarrow> Row \<Rightarrow> string option \<Rightarrow> bool \<Rightarrow> EventTypeMixState" where
  "mix_update s row field matched =
     (if \<not> matched then s
      else case field of None \<Rightarrow> s
      | Some fname \<Rightarrow> (case str_from_row row fname of None \<Rightarrow> s | Some cat \<Rightarrow> mix_observe s cat))"

definition mix_update_at :: "EventTypeMixState \<Rightarrow> Value option \<Rightarrow> bool \<Rightarrow> EventTypeMixState" where
  "mix_update_at s pre_val matched =
     (if \<not> matched then s
      else case pre_val of None \<Rightarrow> s
      | Some v \<Rightarrow> (case str_from_value v of None \<Rightarrow> s | Some cat \<Rightarrow> mix_observe s cat))"

definition mix_query :: "EventTypeMixState \<Rightarrow> Value" where
  "mix_query s =
     (if mix_total s = 0 then VMap []
      else VMap (map (\<lambda>(k, v). (k, VF64 (f64_div (f64_of_u64 v) (f64_of_u64 (mix_total s))))) (mix_counts s)))"

section \<open>Circular buffer\<close>

record MostRecentNState =
  mrn_n :: nat
  mrn_buf :: "Value list"
  mrn_head :: nat
  mrn_filled :: bool

definition mrn_new :: "nat \<Rightarrow> MostRecentNState" where
  "mrn_new n = \<lparr>mrn_n = max n 1, mrn_buf = [], mrn_head = 0, mrn_filled = False\<rparr>"

definition mrn_push :: "Value \<Rightarrow> MostRecentNState \<Rightarrow> MostRecentNState" where
  "mrn_push v s =
     (if \<not> mrn_filled s then
        (let b = mrn_buf s @ [v] in
         if length b = mrn_n s then s\<lparr>mrn_buf := b, mrn_filled := True, mrn_head := 0\<rparr>
         else s\<lparr>mrn_buf := b\<rparr>)
      else s\<lparr>mrn_buf := (mrn_buf s)[mrn_head s := v], mrn_head := (mrn_head s + 1) mod mrn_n s\<rparr>)"

text \<open>Writing at \<open>head\<close> panics outside the buffer, the modulus at a zero capacity.\<close>

definition mrn_update :: "MostRecentNState \<Rightarrow> Row \<Rightarrow> string option \<Rightarrow> bool \<Rightarrow> MostRecentNState option" where
  "mrn_update s row field matched =
     (if \<not> matched then Some s
      else case field of None \<Rightarrow> Some s
      | Some fname \<Rightarrow> (case present (row_get row fname) of None \<Rightarrow> Some s
      | Some v \<Rightarrow>
          if mrn_filled s \<and> (\<not> mrn_head s < length (mrn_buf s) \<or> mrn_n s = 0) then None
          else Some (mrn_push v s)))"

definition mrn_query :: "MostRecentNState \<Rightarrow> Value option" where
  "mrn_query s =
     (if \<not> mrn_filled s then Some (VList (mrn_buf s))
      else if list_all (\<lambda>i. (mrn_head s + i) mod mrn_n s < length (mrn_buf s)) [0..<mrn_n s]
           then Some (VList (map (\<lambda>i. mrn_buf s ! ((mrn_head s + i) mod mrn_n s)) [0..<mrn_n s]))
           else None)"

section \<open>Reservoir sample\<close>

record ReservoirSampleState =
  res_k :: nat
  reservoir :: "Value list"
  items_seen :: u64

definition res_new :: "nat \<Rightarrow> ReservoirSampleState" where
  "res_new k = \<lparr>res_k = max k 1, reservoir = [], items_seen = 0\<rparr>"

definition det_random :: "ReservoirSampleState \<Rightarrow> u64 \<Rightarrow> u64" where
  "det_random st salt =
     (let s0 = items_seen st XOR salt XOR 0x9E3779B97F4A7C15;
          s1 = (if s0 = 0 then 0xD2B74E4572D7C2B0 else s0);
          s2 = s1 XOR push_bit 13 s1;
          s3 = s2 XOR drop_bit 7 s2
      in s3 XOR push_bit 17 s3)"

definition res_observe :: "Value \<Rightarrow> ReservoirSampleState \<Rightarrow> ReservoirSampleState option" where
  "res_observe v s0 =
     (let s = s0\<lparr>items_seen := items_seen s0 + 1\<rparr> in
      if length (reservoir s) < res_k s then Some (s\<lparr>reservoir := reservoir s @ [v]\<rparr>)
      else if items_seen s = 0 then None
      else
        (let j = unat (det_random s 0xA0B1C2D3E4F50617 mod items_seen s) in
         if j < res_k s
         then (if j < length (reservoir s) then Some (s\<lparr>reservoir := (reservoir s)[j := v]\<rparr>) else None)
         else Some s))"

definition res_update :: "ReservoirSampleState \<Rightarrow> Row \<Rightarrow> string option \<Rightarrow> bool \<Rightarrow> ReservoirSampleState option" where
  "res_update s row field matched =
     (if \<not> matched then Some s
      else case field of None \<Rightarrow> Some s
      | Some fname \<Rightarrow> (case present (row_get row fname) of None \<Rightarrow> Some s | Some v \<Rightarrow> res_observe v s))"

definition res_query :: "ReservoirSampleState \<Rightarrow> Value" where
  "res_query s = VList (reservoir s)"

section \<open>What the histograms count\<close>

lemma saturating_succ: "Suc n < 2 ^ 64 \<Longrightarrow> u64_saturating_add (of_nat n) 1 = of_nat (Suc n)"
proof -
  assume n: "Suc n < 2 ^ 64"
  then have "unat (of_nat n :: u64) = n" by (simp add: unat_of_nat take_bit_nat_eq_self)
  with n show ?thesis by (simp add: u64_saturating_add_def add.commute)
qed

definition tally :: "('a \<Rightarrow> nat) \<Rightarrow> nat \<Rightarrow> 'a list \<Rightarrow> u64 list" where
  "tally idx k xs = map (\<lambda>i. of_nat (length (filter (\<lambda>x. idx x = i) xs))) [0..<k]"

lemma tally_Nil [simp]: "tally idx k [] = replicate k 0"
  by (simp add: tally_def map_replicate_const)

lemma bump_tally:
  assumes "idx x < k" and "Suc (length xs) < 2 ^ 64"
  shows "bump (idx x) (tally idx k xs) = Some (tally idx k (xs @ [x]))"
proof -
  have "Suc (length (filter (\<lambda>y. idx y = idx x) xs)) \<le> Suc (length xs)" by simp
  also note assms(2)
  finally have sat: "u64_saturating_add (of_nat (length (filter (\<lambda>y. idx y = idx x) xs))) 1 =
      of_nat (Suc (length (filter (\<lambda>y. idx y = idx x) xs)))"
    by (rule saturating_succ)
  show ?thesis
    using assms(1) sat by (auto simp: bump_def tally_def intro!: nth_equalityI simp: nth_list_update)
qed

lemma hist_bucket_index_le: "hist_bucket_index s v \<le> length (hist_buckets s)"
  by (auto simp: hist_bucket_index_def position_Some_iff split: option.splits)

text \<open>Cell \<open>i\<close> of the split points \<open>edges\<close>.\<close>

definition in_cell :: "f64 list \<Rightarrow> nat \<Rightarrow> f64 \<Rightarrow> bool" where
  "in_cell edges i v \<longleftrightarrow> (\<forall>e \<in> set (take i edges). \<not> f64_lt v e) \<and> (i < length edges \<longrightarrow> f64_lt v (edges ! i))"

lemma hist_bucket_index_cell:
  assumes "i \<le> length (hist_buckets s)"
  shows "hist_bucket_index s v = i \<longleftrightarrow> in_cell (hist_buckets s) i v"
proof (cases "i < length (hist_buckets s)")
  case True
  then have "hist_bucket_index s v = i \<longleftrightarrow> position (\<lambda>edge. f64_lt v edge) (hist_buckets s) = Some i"
    by (auto simp: hist_bucket_index_def split: option.splits)
  with True show ?thesis by (auto simp: position_Some_iff in_cell_def all_set_conv_all_nth)
next
  case False
  with assms have i: "i = length (hist_buckets s)" by simp
  then have "hist_bucket_index s v = i \<longleftrightarrow> position (\<lambda>edge. f64_lt v edge) (hist_buckets s) = None"
    by (auto simp: hist_bucket_index_def split: option.splits dest: position_SomeD)
  with i show ?thesis by (auto simp: position_None_iff in_cell_def all_set_conv_all_nth)
qed

lemma hist_update_obs:
  "hist_update s row field m =
     (if m then (case numeric_from_value (field_value row field) of None \<Rightarrow> Some s
       | Some x \<Rightarrow> map_option (\<lambda>c. s\<lparr>hist_counts := c\<rparr>) (bump (hist_bucket_index s x) (hist_counts s)))
      else Some s)"
  by (simp add: hist_update_def field_value_def numeric_from_row_value numeric_from_value_def split: option.splits)

lemma hist_run:
  assumes "length vs + length (numeric_obs field evs) < 2 ^ 64"
  shows "fold_opt (\<lambda>(row, t, m) s. hist_update s row field m) evs
      \<lparr>hist_buckets = edges, hist_counts = tally (hist_bucket_index (hist_new edges)) (length edges + 1) vs\<rparr> =
    Some \<lparr>hist_buckets = edges, hist_counts =
      tally (hist_bucket_index (hist_new edges)) (length edges + 1) (vs @ map fst (numeric_obs field evs))\<rparr>"
  using assms
proof (induction evs arbitrary: vs)
  case Nil
  then show ?case by simp
next
  case (Cons e evs)
  obtain row t m where e: "e = (row, t, m)" by (cases e)
  let ?idx = "hist_bucket_index (hist_new edges)"
  have idx: "hist_bucket_index \<lparr>hist_buckets = edges, hist_counts = c\<rparr> = ?idx" for c
    by (simp add: fun_eq_iff hist_bucket_index_def hist_new_def split: option.splits)
  have lt: "?idx x < length edges + 1" for x
    using hist_bucket_index_le [of "hist_new edges" x] by (simp add: hist_new_def less_Suc_eq_le)
  show ?case
  proof (cases "m \<and> numeric_from_value (field_value row field) \<noteq> None")
    case False
    then have "numeric_obs field (e # evs) = numeric_obs field evs" by (auto simp: e)
    with False Cons show ?thesis by (auto simp: e hist_update_obs)
  next
    case True
    then obtain x where x: "numeric_from_value (field_value row field) = Some x" by auto
    have "bump (?idx x) (tally ?idx (length edges + 1) vs) = Some (tally ?idx (length edges + 1) (vs @ [x]))"
      using Cons.prems True x by (intro bump_tally lt) (simp add: e)
    with Cons.IH [of "vs @ [x]"] Cons.prems True x show ?thesis
      by (simp add: e hist_update_obs idx)
  qed
qed

lemma hour_of_day_index_lt: "hour_of_day_index now < 24"
  by (simp add: hour_of_day_index_def nat_less_iff)

lemma dow_hour_index_lt: "dow_hour_index now < 168"
proof -
  have "nat ((now div 86400000 + 3) mod 7) \<le> 6" by (simp add: nat_le_iff)
  with hour_of_day_index_lt [of now] show ?thesis by (simp add: dow_hour_index_def)
qed

section \<open>The circular buffer is a ring buffer\<close>

definition mrn_contents :: "MostRecentNState \<Rightarrow> Value list" where
  "mrn_contents s = (if mrn_filled s then rotate (mrn_head s) (mrn_buf s) else mrn_buf s)"

definition mrn_inv :: "MostRecentNState \<Rightarrow> bool" where
  "mrn_inv s \<longleftrightarrow> 0 < mrn_n s \<and>
     (if mrn_filled s then length (mrn_buf s) = mrn_n s \<and> mrn_head s < mrn_n s
      else length (mrn_buf s) < mrn_n s)"

lemma rotate_overwrite:
  assumes "h < length xs"
  shows "rotate ((h + 1) mod length xs) (xs[h := v]) = tl (rotate h xs) @ [v]"
proof -
  have r: "tl (rotate h xs) = drop (Suc h) xs @ take h xs"
    using assms by (simp add: rotate_drop_take Cons_nth_drop_Suc [symmetric])
  show ?thesis
  proof (cases "h + 1 = length xs")
    case True
    then show ?thesis using r assms
      by (simp add: rotate_drop_take upd_conv_take_nth_drop)
  next
    case False
    then show ?thesis using r assms
      by (simp add: rotate_drop_take take_Suc_conv_app_nth)
  qed
qed

interpretation mrn: ring_buffer mrn_push mrn_contents mrn_n mrn_inv
proof unfold_locales
  fix s v
  assume inv: "mrn_inv s"
  show "mrn_inv (mrn_push v s)"
    using inv by (auto simp: mrn_inv_def mrn_push_def Let_def)
  show "mrn_n (mrn_push v s) = mrn_n s" by (simp add: mrn_push_def Let_def)
  show "mrn_contents (mrn_push v s) = last_n (mrn_n s) (mrn_contents s @ [v])"
  proof (cases "mrn_filled s")
    case True
    with inv have "length (mrn_buf s) = mrn_n s" "mrn_head s < mrn_n s" "0 < mrn_n s"
      by (simp_all add: mrn_inv_def)
    then show ?thesis
      using True rotate_overwrite [of "mrn_head s" "mrn_buf s" v]
      by (simp add: mrn_contents_def mrn_push_def last_n_snoc_full)
  next
    case False
    with inv show ?thesis
      by (auto simp: mrn_contents_def mrn_push_def mrn_inv_def Let_def last_n_all)
  qed
qed

lemma mrn_query_contents: "mrn_inv s \<Longrightarrow> mrn_query s = Some (VList (mrn_contents s))"
  by (auto simp: mrn_query_def mrn_contents_def mrn_inv_def list_all_iff nth_rotate intro!: nth_equalityI)

lemma mrn_update_push:
  assumes "mrn_inv s"
  shows "mrn_update s row field m =
    Some (if m then (case present (field_value row field) of None \<Rightarrow> s | Some v \<Rightarrow> mrn_push v s) else s)"
  using assms by (auto simp: mrn_update_def mrn_inv_def field_value_def present_def split: option.splits)

lemma mrn_run:
  assumes "mrn_inv s"
  shows "fold_opt (\<lambda>(row, t, m) s. mrn_update s row field m) evs s = Some (fold mrn_push (observed field evs) s)"
  using assms
proof (induction evs arbitrary: s)
  case Nil
  then show ?case by simp
next
  case (Cons e evs)
  then show ?case
    by (cases e) (auto simp: mrn_update_push mrn.inv_push split: option.splits)
qed

section \<open>The reservoir\<close>

definition res_inv :: "Value list \<Rightarrow> ReservoirSampleState \<Rightarrow> bool" where
  "res_inv vs s \<longleftrightarrow> 0 < res_k s \<and> items_seen s = of_nat (length vs) \<and>
     length (reservoir s) = min (length vs) (res_k s) \<and> set (reservoir s) \<subseteq> set vs \<and>
     (length vs \<le> res_k s \<longrightarrow> reservoir s = vs)"

lemma res_inv_observe:
  assumes inv: "res_inv vs s" and len: "Suc (length vs) < 2 ^ 64"
  shows "\<exists>s'. res_observe v s = Some s' \<and> res_inv (vs @ [v]) s' \<and> res_k s' = res_k s"
proof (cases "length vs < res_k s")
  case True
  then show ?thesis using inv
    by (auto simp: res_observe_def res_inv_def Let_def min_def)
next
  case False
  have "unat (of_nat (Suc (length vs)) :: u64) = Suc (length vs)"
    using len by (simp add: unat_of_nat take_bit_nat_eq_self del: of_nat_Suc)
  then have nz: "(1 + of_nat (length vs) :: u64) \<noteq> 0"
    by (metis Suc_not_Zero of_nat_Suc unsigned_0)
  have sub: "set (xs[j := v]) \<subseteq> insert v (set vs)" if "set xs \<subseteq> set vs" for xs j
    using set_update_subset_insert [of xs j v] that by blast
  from False inv nz show ?thesis
    by (auto simp: res_observe_def res_inv_def Let_def add.commute min_def sub dest: subsetD [OF sub])
qed

lemma res_update_push:
  "res_update s row field m =
     (if m then (case present (field_value row field) of None \<Rightarrow> Some s | Some v \<Rightarrow> res_observe v s) else Some s)"
  by (auto simp: res_update_def field_value_def present_def split: option.splits)

lemma res_run:
  assumes "length vs + length (observed field evs) < 2 ^ 64" and "res_inv vs s"
  shows "\<exists>s'. fold_opt (\<lambda>(row, t, m) s. res_update s row field m) evs s = Some s' \<and>
    res_inv (vs @ observed field evs) s' \<and> res_k s' = res_k s"
  using assms
proof (induction evs arbitrary: vs s)
  case Nil
  then show ?case by simp
next
  case (Cons e evs)
  obtain row t m where e: "e = (row, t, m)" by (cases e)
  show ?case
  proof (cases "m \<and> present (field_value row field) \<noteq> None")
    case False
    with Cons.IH [of vs s] Cons.prems show ?thesis by (auto simp: e res_update_push split: option.splits)
  next
    case True
    then obtain v where v: "present (field_value row field) = Some v" by auto
    have "Suc (length vs) < 2 ^ 64" using Cons.prems(1) True v by (simp add: e)
    from res_inv_observe [OF Cons.prems(2) this, of v] obtain s' where
      s': "res_observe v s = Some s'" "res_inv (vs @ [v]) s'" "res_k s' = res_k s" by auto
    with Cons.IH [of "vs @ [v]" s'] Cons.prems(1) True v show ?thesis by (auto simp: e res_update_push)
  qed
qed

section \<open>The category mix\<close>

lemma mix_update_at_agrees: "mix_update s row field m = mix_update_at s (field_value row field) m"
  by (simp add: mix_update_def mix_update_at_def str_from_row_def field_value_def split: option.splits)

definition mix_inv :: "string list \<Rightarrow> EventTypeMixState \<Rightarrow> bool" where
  "mix_inv cats s \<longleftrightarrow> btree_wf (mix_counts s) \<and>
     mix_allowed_set s = map_option set (mix_allowed s) \<and>
     mix_total s = of_nat (length cats) \<and>
     (\<forall>k c. map_of (mix_counts s) k = Some c \<longrightarrow> c = of_nat (count_list cats k)) \<and>
     (\<forall>k \<in> set cats. k \<notin> fst ` set (mix_counts s) \<longrightarrow>
        (case mix_allowed s of None \<Rightarrow> length (mix_counts s) = mix_max_categories s | Some a \<Rightarrow> k \<notin> set a)) \<and>
     (case mix_allowed s of None \<Rightarrow> length (mix_counts s) \<le> mix_max_categories s
      | Some a \<Rightarrow> fst ` set (mix_counts s) \<subseteq> set a)"

lemma mix_inv_new: "mix_inv [] (mix_new cap allow)"
  by (simp add: mix_inv_def mix_new_def split: option.splits)

lemma count_list_bound: "count_list xs k \<le> length xs"
  by (rule count_le_length)

lemma count_list_snoc: "count_list (xs @ [x]) k = count_list xs k + (if x = k then 1 else 0)"
  by simp

lemma mix_inv_observe:
  assumes inv: "mix_inv cats s" and len: "Suc (length cats) < 2 ^ 64"
  shows "mix_inv (cats @ [cat]) (mix_observe s cat)"
proof -
  have wf: "btree_wf (mix_counts s)" and set: "mix_allowed_set s = map_option set (mix_allowed s)"
    and tot: "mix_total s = of_nat (length cats)"
    and cnt: "\<And>k c. map_of (mix_counts s) k = Some c \<Longrightarrow> c = of_nat (count_list cats k)"
    and rej: "\<And>k. k \<in> set cats \<Longrightarrow> k \<notin> fst ` set (mix_counts s) \<Longrightarrow>
        (case mix_allowed s of None \<Rightarrow> length (mix_counts s) = mix_max_categories s | Some a \<Rightarrow> k \<notin> set a)"
    and bnd: "case mix_allowed s of None \<Rightarrow> length (mix_counts s) \<le> mix_max_categories s
      | Some a \<Rightarrow> fst ` set (mix_counts s) \<subseteq> set a"
    using inv by (auto simp: mix_inv_def)
  have ens: "ensure_allowed_set s' = s'" if "mix_allowed s' = mix_allowed s" "mix_allowed_set s' = mix_allowed_set s" for s'
    using that set by (auto simp: ensure_allowed_set_def split: option.splits)
  have tot': "u64_saturating_add (mix_total s) 1 = of_nat (length (cats @ [cat]))"
    using saturating_succ [OF len] tot by simp
  have succ: "u64_saturating_add (of_nat (count_list cats cat)) 1 = of_nat (Suc (count_list cats cat))"
    using count_list_bound [of cats cat] len by (intro saturating_succ) linarith
  define accept where "accept \<longleftrightarrow> (case mix_allowed s of Some a \<Rightarrow> cat \<in> set a
    | None \<Rightarrow> cat \<in> fst ` set (mix_counts s) \<or> length (mix_counts s) < mix_max_categories s)"
  let ?new = "btree_upsert cat (\<lambda>c. u64_saturating_add c 1) (u64_saturating_add 0 1) (mix_counts s)"
  have obs: "mix_observe s cat = s\<lparr>mix_total := of_nat (length (cats @ [cat])),
      mix_counts := (if accept then ?new else mix_counts s)\<rparr>"
    unfolding mix_observe_def Let_def tot'
    by (auto simp: ens set accept_def split: option.splits)
  show ?thesis
  proof (cases accept)
    case False
    then have "cat \<notin> fst ` set (mix_counts s)" using bnd by (auto simp: accept_def split: option.splits)
    with False show ?thesis using wf set cnt rej bnd
      by (auto simp: obs mix_inv_def accept_def map_of_eq_None_iff split: option.splits)
  next
    case True
    have fresh: "count_list cats cat = 0" if "map_of (mix_counts s) cat = None"
      using that True rej [of cat] by (auto simp: accept_def map_of_eq_None_iff count_list_0_iff split: option.splits)
    have one: "u64_saturating_add 0 1 = (1 :: u64)" by (simp add: u64_saturating_add_def)
    have cnt': "c = of_nat (count_list (cats @ [cat]) k)" if "map_of ?new k = Some c" for k c
      using that cnt fresh succ one
      by (auto simp: map_of_btree_upsert [OF wf] split: if_splits option.splits)
    have "mix_inv (cats @ [cat]) (s\<lparr>mix_total := of_nat (length (cats @ [cat])), mix_counts := ?new\<rparr>)"
      unfolding mix_inv_def
      using True wf set rej bnd cnt' length_btree_upsert [OF wf, of cat "\<lambda>c. u64_saturating_add c 1" "u64_saturating_add 0 1"]
      by (auto simp: btree_wf_upsert accept_def split: option.splits if_splits)
    with True show ?thesis by (simp add: obs)
  qed
qed

lemma mix_run:
  assumes "length cats < 2 ^ 64"
  shows "mix_inv cats (fold (\<lambda>cat s. mix_observe s cat) cats (mix_new cap allow)) \<and>
    mix_allowed (fold (\<lambda>cat s. mix_observe s cat) cats (mix_new cap allow)) = allow \<and>
    mix_max_categories (fold (\<lambda>cat s. mix_observe s cat) cats (mix_new cap allow)) = cap"
  using assms
proof (induction cats rule: rev_induct)
  case Nil
  then show ?case using mix_inv_new [of cap allow] by (simp add: mix_new_def)
next
  case (snoc cat cats)
  have "mix_allowed (mix_observe s cat) = mix_allowed s \<and> mix_max_categories (mix_observe s cat) = mix_max_categories s" for s
    by (simp add: mix_observe_def ensure_allowed_set_def Let_def split: option.splits)
  with snoc mix_inv_observe show ?case by simp
qed

section \<open>Properties\<close>

text \<open>The histogram never indexes out of range and counts exactly: after a run, cell
  \<open>i\<close> holds the number of numeric values that are below split point \<open>i\<close> and not below any
  earlier one (a NaN falls into the last cell).\<close>

lemma histogram_counts:
  assumes "length (numeric_obs field evs) < 2 ^ 64"
  shows "map_option hist_counts (fold_opt (\<lambda>(row, t, m) s. hist_update s row field m) evs (hist_new edges)) =
    Some (map (\<lambda>i. of_nat (length (filter (in_cell edges i) (map fst (numeric_obs field evs))))) [0..<length edges + 1])"
proof -
  let ?idx = "hist_bucket_index (hist_new edges)"
  have new: "hist_new edges = \<lparr>hist_buckets = edges, hist_counts = tally ?idx (length edges + 1) []\<rparr>"
    by (simp add: hist_new_def)
  have "tally ?idx (length edges + 1) vs =
      map (\<lambda>i. of_nat (length (filter (in_cell edges i) vs))) [0..<length edges + 1]" for vs
    using hist_bucket_index_cell [of _ "hist_new edges"]
    by (simp add: tally_def hist_new_def cong: filter_cong)
  with hist_run [of "[]" field evs edges] assms show ?thesis
    by (subst new) simp
qed

text \<open>The circular buffer never panics and answers the last \<open>max n 1\<close> present values of
  the field, oldest first.\<close>

lemma most_recent_n:
  "Option.bind (fold_opt (\<lambda>(row, t, m) s. mrn_update s row field m) evs (mrn_new n)) mrn_query =
     Some (VList (last_n (max n 1) (observed field evs)))"
proof -
  have inv: "mrn_inv (mrn_new n)" by (simp add: mrn_inv_def mrn_new_def)
  have "mrn_contents (fold mrn_push (observed field evs) (mrn_new n)) = last_n (max n 1) (observed field evs)"
    using mrn.run_contents [OF inv] by (simp add: mrn_contents_def mrn_new_def)
  with mrn.run_invariants [OF inv, of "observed field evs"] show ?thesis
    by (simp add: mrn_run [OF inv] mrn_query_contents)
qed

text \<open>The reservoir sample never panics in fewer than \<open>2 ^ 64\<close> values; it holds exactly
  \<open>min (number of values) (max k 1)\<close> values, all of them observed, and all of them while they fit.\<close>

lemma reservoir_sample:
  assumes "length (observed field evs) < 2 ^ 64"
  shows "\<exists>s. fold_opt (\<lambda>(row, t, m) s. res_update s row field m) evs (res_new k) = Some s \<and>
    length (reservoir s) = min (length (observed field evs)) (max k 1) \<and>
    set (reservoir s) \<subseteq> set (observed field evs) \<and>
    (length (observed field evs) \<le> max k 1 \<longrightarrow> reservoir s = observed field evs)"
proof -
  have "res_inv [] (res_new k)" by (simp add: res_inv_def res_new_def)
  from res_run [OF _ this, of field evs] assms show ?thesis
    by (auto simp: res_inv_def res_new_def)
qed

text \<open>The category mix: after fewer than \<open>2 ^ 64\<close> categorised events the total counts them
  all, every recorded category has its exact count, at most \<open>cap\<close> categories are recorded
  without an allow-list and only allowed ones with it, and a category is missing only because
  the cap was reached or the allow-list excludes it.\<close>

lemma category_mix:
  assumes "length cats < 2 ^ 64" and "s = fold (\<lambda>cat s. mix_observe s cat) cats (mix_new cap allow)"
  shows "mix_total s = of_nat (length cats) \<and>
    (\<forall>k c. map_of (mix_counts s) k = Some c \<longrightarrow> c = of_nat (count_list cats k)) \<and>
    (case allow of None \<Rightarrow> length (mix_counts s) \<le> cap | Some a \<Rightarrow> fst ` set (mix_counts s) \<subseteq> set a) \<and>
    (\<forall>k \<in> set cats. map_of (mix_counts s) k = None \<longrightarrow>
       (case allow of None \<Rightarrow> length (mix_counts s) = cap | Some a \<Rightarrow> k \<notin> set a))"
  using mix_run [OF assms(1), of cap allow] unfolding assms(2) [symmetric]
  by (auto simp: mix_inv_def map_of_eq_None_iff)

end
