(* ===== verification/CountDistinct.thy ===== *)
theory CountDistinct
  imports Hll AggBuffer
begin

text \<open>
  The three-mode distinct counter of \<open>crates/beava-core/src/sketches/count_distinct.rs\<close>: a
  sorted array up to 16 hashes, a hash set up to 1024, then HyperLogLog; and its operator
  state and the projections of values to JSON, hashes and key strings from
  \<open>crates/beava-core/src/agg_state.rs\<close>. The hash set is a \<open>set\<close>; promotion visits it in an
  order the model fixes (ascending) and \<open>hll_run_set\<close> shows to be irrelevant. Hash functions
  of other packages and the JSON printer are the record \<open>hashers\<close>, a parameter.

  The lemmas show that the state is a function of the set of hashes inserted (\<open>cd_of_set\<close>),
  that the count is exact up to 1024 distinct hashes and that a merge is the union: the
  counter is a \<open>set_sketch\<close>.
\<close>

section \<open>Hashing and key projections\<close>

record hashers =
  fx_str :: "string \<Rightarrow> u64"
  fx_i64 :: "int \<Rightarrow> u64"
  fx_f64_bits :: "f64 \<Rightarrow> u64"
  fx_bool :: "bool \<Rightarrow> u64"
  fx_bytes :: "u8 list \<Rightarrow> u64"
  fx_u64 :: "u64 \<Rightarrow> u64"
  json_to_string :: "Json \<Rightarrow> string"
  ahash_str :: "string \<Rightarrow> u64"

definition hex_digit :: "nat \<Rightarrow> char" where
  "hex_digit d = (if d < 10 then char_of (48 + d) else char_of (87 + d))"

definition encode_lower :: "u8 list \<Rightarrow> string" where
  "encode_lower bytes = concat (map (\<lambda>b. [hex_digit (unat b div 16), hex_digit (unat b mod 16)]) bytes)"

fun value_to_json :: "Value \<Rightarrow> Json" where
  "value_to_json VNull = JNull"
| "value_to_json (VBool b) = JBool b"
| "value_to_json (VI64 n) = JNumber (Some n) (Some (f64_of_int n))"
| "value_to_json (VF64 f) = (if is_finite f then JNumber None (Some f) else JNull)"
| "value_to_json (VStr s) = JString s"
| "value_to_json (VBytes b) = JString (''0x'' @ encode_lower b)"
| "value_to_json (VDatetime t) = JNumber (Some t) (Some (f64_of_int t))"
| "value_to_json (VJson j) = j"
| "value_to_json (VList vs) = JArray (map value_to_json vs)"
| "value_to_json (VMap m) = JObject (map (\<lambda>(k, v). (k, value_to_json v)) m)"

definition hash_value_for_hll :: "hashers \<Rightarrow> Value \<Rightarrow> u64" where
  "hash_value_for_hll hs v =
     (case v of
        VStr s \<Rightarrow> fx_str hs s
      | VI64 n \<Rightarrow> fx_i64 hs n
      | VF64 f \<Rightarrow> fx_f64_bits hs f
      | VBool b \<Rightarrow> fx_bool hs b
      | VDatetime ms \<Rightarrow> fx_i64 hs ms
      | VBytes b \<Rightarrow> fx_bytes hs b
      | VNull \<Rightarrow> fx_u64 hs 0
      | VJson j \<Rightarrow> fx_str hs (json_to_string hs j)
      | VList _ \<Rightarrow> fx_str hs (json_to_string hs (value_to_json v))
      | VMap _ \<Rightarrow> fx_str hs (json_to_string hs (value_to_json v)))"

definition value_to_key_string :: "libm \<Rightarrow> Value \<Rightarrow> string option" where
  "value_to_key_string lm v =
     (case v of
        VStr s \<Rightarrow> Some s
      | VI64 n \<Rightarrow> Some (i64_to_string n)
      | VF64 f \<Rightarrow> Some (f64_debug lm f)
      | VBool b \<Rightarrow> Some (bool_to_string b)
      | VDatetime ms \<Rightarrow> Some (i64_to_string ms)
      | _ \<Rightarrow> None)"

section \<open>The three modes\<close>

definition EXACT_THRESHOLD :: nat where
  "EXACT_THRESHOLD = 16"

definition HASH_THRESHOLD :: nat where
  "HASH_THRESHOLD = 1024"

datatype CountDistinctState =
    CDExactArray "u64 list"
  | CDHashSet "u64 set"
  | CDHll Hll

definition cd_new :: CountDistinctState where
  "cd_new = CDExactArray []"

definition hll_of_list :: "u64 list \<Rightarrow> Hll" where
  "hll_of_list hs = fold hll_add_hash hs hll_new"

fun cd_add_hash :: "u64 \<Rightarrow> CountDistinctState \<Rightarrow> CountDistinctState" where
  "cd_add_hash h (CDExactArray values) =
     (if h \<in> set values then CDExactArray values
      else let vs = insort h values in
           if EXACT_THRESHOLD < length vs then CDHashSet (set vs) else CDExactArray vs)"
| "cd_add_hash h (CDHashSet hashes) =
     (let hashes' = insert h hashes in
      if HASH_THRESHOLD < card hashes' then CDHll (hll_of_list (sorted_list_of_set hashes'))
      else CDHashSet hashes')"
| "cd_add_hash h (CDHll sk) = CDHll (hll_add_hash h sk)"

definition cd_estimate :: "libm \<Rightarrow> CountDistinctState \<Rightarrow> u64" where
  "cd_estimate lm s =
     (case s of
        CDExactArray values \<Rightarrow> of_nat (length values)
      | CDHashSet hashes \<Rightarrow> of_nat (card hashes)
      | CDHll sk \<Rightarrow> hll_estimate lm sk)"

fun promote_to_hll :: "CountDistinctState \<Rightarrow> Hll" where
  "promote_to_hll (CDHll sk) = sk"
| "promote_to_hll (CDExactArray values) = hll_of_list values"
| "promote_to_hll (CDHashSet hashes) = hll_of_list (sorted_list_of_set hashes)"

fun cd_merge :: "CountDistinctState \<Rightarrow> CountDistinctState \<Rightarrow> CountDistinctState" where
  "cd_merge s (CDHll o_sk) = CDHll (hll_merge (promote_to_hll s) o_sk)"
| "cd_merge (CDHll sk) (CDExactArray values) = CDHll (fold hll_add_hash values sk)"
| "cd_merge (CDHll sk) (CDHashSet hashes) = CDHll (fold hll_add_hash (sorted_list_of_set hashes) sk)"
| "cd_merge s (CDExactArray values) = fold cd_add_hash values s"
| "cd_merge s (CDHashSet hashes) = fold cd_add_hash (sorted_list_of_set hashes) s"

section \<open>The operator state\<close>

record CountDistinctStateWrap =
  cd_inner :: CountDistinctState

definition cdw_default :: CountDistinctStateWrap where
  "cdw_default = \<lparr>cd_inner = cd_new\<rparr>"

definition cdw_update_pre :: "hashers \<Rightarrow> CountDistinctStateWrap \<Rightarrow> Value option \<Rightarrow> bool \<Rightarrow> CountDistinctStateWrap" where
  "cdw_update_pre hs s pre_val matched =
     (if \<not> matched then s
      else case present pre_val of None \<Rightarrow> s
      | Some v \<Rightarrow> s\<lparr>cd_inner := cd_add_hash (hash_value_for_hll hs v) (cd_inner s)\<rparr>)"

definition cdw_update :: "hashers \<Rightarrow> CountDistinctStateWrap \<Rightarrow> Row \<Rightarrow> int \<Rightarrow> string option \<Rightarrow> bool \<Rightarrow> CountDistinctStateWrap" where
  "cdw_update hs s row now field matched =
     (if \<not> matched then s
      else case field of None \<Rightarrow> s
      | Some fname \<Rightarrow> (case present (row_get row fname) of None \<Rightarrow> s
      | Some v \<Rightarrow> s\<lparr>cd_inner := cd_add_hash (hash_value_for_hll hs v) (cd_inner s)\<rparr>))"

definition cdw_query :: "libm \<Rightarrow> CountDistinctStateWrap \<Rightarrow> Value" where
  "cdw_query lm s = VI64 (u64_as_i64 (cd_estimate lm (cd_inner s)))"

section \<open>The state is a function of the set of hashes\<close>

definition cd_of_set :: "u64 set \<Rightarrow> CountDistinctState" where
  "cd_of_set A =
     (if card A \<le> EXACT_THRESHOLD then CDExactArray (sorted_list_of_set A)
      else if card A \<le> HASH_THRESHOLD then CDHashSet A
      else CDHll (hll_of_list (sorted_list_of_set A)))"

lemma hll_of_list_set: "set xs = set ys \<Longrightarrow> hll_of_list xs = hll_of_list ys"
  unfolding hll_of_list_def by (rule hll_run_set)

lemma hll_of_list_Un:
  assumes "finite A" "finite B"
  shows "hll_merge (hll_of_list (sorted_list_of_set A)) (hll_of_list (sorted_list_of_set B)) =
    hll_of_list (sorted_list_of_set (A \<union> B))"
  unfolding hll_of_list_def hll_merge_runs by (rule hll_run_set) (use assms in simp)

lemma hll_of_list_add:
  assumes "finite A"
  shows "fold hll_add_hash xs (hll_of_list (sorted_list_of_set A)) = hll_of_list (sorted_list_of_set (A \<union> set xs))"
proof -
  have "fold hll_add_hash xs (hll_of_list (sorted_list_of_set A)) = hll_of_list (sorted_list_of_set A @ xs)"
    by (simp add: hll_of_list_def)
  also have "\<dots> = hll_of_list (sorted_list_of_set (A \<union> set xs))"
    by (rule hll_of_list_set) (simp add: assms)
  finally show ?thesis .
qed

lemma finite_u64 [simp]: "finite (A :: u64 set)"
  by (rule finite_subset [OF subset_UNIV finite])

lemma sorted_list_of_set_insert_fresh:
  "h \<notin> A \<Longrightarrow> sorted_list_of_set (insert h A) = insort h (sorted_list_of_set A)" for h :: u64
  by (simp add: sorted_list_of_set_insert_remove)

lemma cd_add_of_set: "cd_add_hash h (cd_of_set A) = cd_of_set (insert h A)"
proof -
  consider "card A \<le> 16" | "16 < card A" "card A \<le> 1024" | "1024 < card A" by linarith
  then show ?thesis
  proof cases
    case 1
    then show ?thesis
      by (cases "h \<in> A")
        (simp_all add: cd_of_set_def EXACT_THRESHOLD_def HASH_THRESHOLD_def insert_absorb Let_def
          sorted_list_of_set_insert_fresh set_insort_key)
  next
    case 2
    then show ?thesis
      by (cases "h \<in> A") (auto simp: cd_of_set_def EXACT_THRESHOLD_def HASH_THRESHOLD_def insert_absorb Let_def)
  next
    case 3
    have "hll_add_hash h (hll_of_list (sorted_list_of_set A)) = hll_of_list (sorted_list_of_set (insert h A))"
      using hll_of_list_add [of A "[h]"] by simp
    with 3 show ?thesis
      by (cases "h \<in> A") (auto simp: cd_of_set_def EXACT_THRESHOLD_def HASH_THRESHOLD_def insert_absorb)
  qed
qed

lemma cd_fold_of_set: "fold cd_add_hash hs (cd_of_set A) = cd_of_set (A \<union> set hs)"
  by (induction hs arbitrary: A) (simp_all add: cd_add_of_set)

lemma cd_run: "fold cd_add_hash hs cd_new = cd_of_set (set hs)"
  using cd_fold_of_set [of hs "{}"] by (simp add: cd_of_set_def cd_new_def)

lemma promote_of_set: "promote_to_hll (cd_of_set A) = hll_of_list (sorted_list_of_set A)"
  by (simp add: cd_of_set_def)

lemma cd_merge_of_set: "cd_merge (cd_of_set A) (cd_of_set B) = cd_of_set (A \<union> B)"
proof -
  have le: "card A \<le> card (A \<union> B)" "card B \<le> card (A \<union> B)" by (simp_all add: card_mono)
  show ?thesis
  proof (cases "1024 < card B")
    case True
    then show ?thesis using le
      by (simp add: cd_of_set_def [of B] cd_of_set_def [of "A \<union> B"] promote_of_set hll_of_list_Un
          EXACT_THRESHOLD_def HASH_THRESHOLD_def)
  next
    case nB: False
    show ?thesis
    proof (cases "1024 < card A")
      case True
      then show ?thesis using nB le
        by (simp add: cd_of_set_def hll_of_list_add EXACT_THRESHOLD_def HASH_THRESHOLD_def)
    next
      case False
      have "cd_merge (cd_of_set A) (cd_of_set B) = fold cd_add_hash (sorted_list_of_set B) (cd_of_set A)"
        using nB False by (simp add: cd_of_set_def EXACT_THRESHOLD_def HASH_THRESHOLD_def)
      then show ?thesis by (simp add: cd_fold_of_set)
    qed
  qed
qed

interpretation cd: set_sketch cd_new cd_add_hash cd_merge
  by unfold_locales (simp_all only: cd_run cd_merge_of_set set_append)

lemma cdw_update_pre_agrees: "cdw_update hs s row t field m = cdw_update_pre hs s (field_value row field) m"
  by (simp add: cdw_update_def cdw_update_pre_def field_value_def present_def split: option.splits)

lemma cdw_run:
  "cd_inner (run_op (cdw_update hs) field evs s) =
     fold cd_add_hash (map (hash_value_for_hll hs) (observed field evs)) (cd_inner s)"
proof (induction evs arbitrary: s)
  case Nil
  then show ?case by simp
next
  case (Cons e evs)
  then show ?case
    by (cases e) (auto simp: cdw_update_pre_agrees cdw_update_pre_def split: option.splits)
qed

section \<open>Properties\<close>

text \<open>C24. The answer of the distinct counter is a function of the set of hashes of the present values,
  whatever their order and repetitions and through both promotions. Up to 1024 distinct hashes, so across the
  promotion from the array to the hash set, it is their exact number; beyond that it is the
  estimate of the sketch that has been given each of them once, in the sorted order of the promotion.\<close>

theorem count_distinct_exact:
  "let A = hash_value_for_hll hs ` set (observed field evs) in
   cdw_query lm (run_op (cdw_update hs) field evs cdw_default) =
     VI64 (if card A \<le> 1024 then int (card A)
           else u64_as_i64 (hll_estimate lm (fold hll_add_hash (sorted_list_of_set A) hll_new)))"
proof -
  define A where "A = hash_value_for_hll hs ` set (observed field evs)"
  have run: "cd_inner (run_op (cdw_update hs) field evs cdw_default) = cd_of_set A"
    by (simp add: cdw_run cdw_default_def cd_run A_def)
  show ?thesis
  proof (cases "card A \<le> 1024")
    case True
    then have "cd_estimate lm (cd_of_set A) = of_nat (card A)"
      by (simp add: cd_estimate_def cd_of_set_def EXACT_THRESHOLD_def HASH_THRESHOLD_def)
    then show ?thesis using True by (simp add: A_def [symmetric] cdw_query_def run u64_as_i64_def sint_of_nat_u64)
  next
    case False
    then show ?thesis
      by (simp add: A_def [symmetric] cdw_query_def run cd_estimate_def cd_of_set_def hll_of_list_def EXACT_THRESHOLD_def HASH_THRESHOLD_def)
  qed
qed

text \<open>Hash functions for the examples.\<close>

definition sample_hashers :: hashers where
  "sample_hashers = \<lparr>fx_str = (\<lambda>s. of_nat (length s)), fx_i64 = of_int, fx_f64_bits = (\<lambda>_. 0),
     fx_bool = (\<lambda>b. if b then 1 else 0), fx_bytes = (\<lambda>b. of_nat (length b)), fx_u64 = (\<lambda>x. x),
     json_to_string = (\<lambda>_. []), ahash_str = (\<lambda>s. of_nat (length s))\<rparr>"

text \<open>C23. Merging two distinct counters gives the counter of the concatenated streams, in all
  nine combinations of modes, so the estimate of a merge never depends on how the events were
  split; merging is commutative and idempotent.\<close>

theorem count_distinct_merge:
  "cd_merge (fold cd_add_hash xs cd_new) (fold cd_add_hash ys cd_new) = fold cd_add_hash (xs @ ys) cd_new \<and>
   cd_merge (fold cd_add_hash xs cd_new) (fold cd_add_hash ys cd_new) =
     cd_merge (fold cd_add_hash ys cd_new) (fold cd_add_hash xs cd_new) \<and>
   cd_merge (fold cd_add_hash xs cd_new) (fold cd_add_hash xs cd_new) = fold cd_add_hash xs cd_new"
  using cd.merge_runs cd.merge_comm cd.merge_self by simp

end
