(* ===== verification/Cms.thy ===== *)
theory Cms
  imports CountDistinct "HOL-Library.Product_Lexorder"
begin

text \<open>
  The count-min sketch and the indexed bounded min-heap of
  \<open>crates/beava-core/src/sketches/cms.rs\<close>. Counters are \<open>i64\<close> values as integers with
  saturating addition; the counter vector has \<open>width * depth\<close> entries and every index is below
  that (\<open>cms_wf\<close> and its lemmas). A floating-point key is stored with its zero canonical, as
  \<open>OrderedFloat\<close> identifies the two zeros. The heap's side index is a map from values to
  positions.

  The lemmas show what each cell counts, that estimates never fall below the true count, that
  merging is a homomorphism, and that every heap operation keeps the min-heap order, the
  consistency of the side index and the size bound.
\<close>

section \<open>Values\<close>

datatype TopKValue =
    TKStr string
  | TKInt int
  | TKFloat f64
  | TKBool bool

text \<open>The derived order: by constructor, then by payload; NaN is the greatest float.\<close>

fun f64_order_key :: "f64 \<Rightarrow> nat \<times> rat \<times> nat" where
  "f64_order_key (Inf True) = (0, 0, 0)"
| "f64_order_key NegZero = (1, 0, 0)"
| "f64_order_key (Fin r) = (1, r, 1)"
| "f64_order_key (Inf False) = (2, 0, 0)"
| "f64_order_key NaN = (3, 0, 0)"

lemma f64_order_key_inject [simp]: "f64_order_key x = f64_order_key y \<longleftrightarrow> x = y"
  by (cases x rule: f64_order_key.cases; cases y rule: f64_order_key.cases) auto

fun topk_key :: "TopKValue \<Rightarrow> nat \<times> string \<times> int \<times> (nat \<times> rat \<times> nat) \<times> bool" where
  "topk_key (TKStr s) = (0, s, 0, (0, 0, 0), False)"
| "topk_key (TKInt n) = (1, [], n, (0, 0, 0), False)"
| "topk_key (TKFloat f) = (2, [], 0, f64_order_key f, False)"
| "topk_key (TKBool b) = (3, [], 0, (0, 0, 0), b)"

lemma topk_key_inject [simp]: "topk_key x = topk_key y \<longleftrightarrow> x = y"
  by (cases x; cases y) auto

instantiation TopKValue :: linorder
begin

definition less_eq_TopKValue :: "TopKValue \<Rightarrow> TopKValue \<Rightarrow> bool" where
  "less_eq_TopKValue a b \<longleftrightarrow> topk_key a \<le> topk_key b"

definition less_TopKValue :: "TopKValue \<Rightarrow> TopKValue \<Rightarrow> bool" where
  "less_TopKValue a b \<longleftrightarrow> topk_key a < topk_key b"

instance
  by standard (auto simp: less_eq_TopKValue_def less_TopKValue_def antisym_conv dest: order.trans)

end

definition canon_float :: "f64 \<Rightarrow> f64" where
  "canon_float f = (case f of NegZero \<Rightarrow> Fin 0 | _ \<Rightarrow> f)"

definition topk_to_json :: "TopKValue \<Rightarrow> Json" where
  "topk_to_json v =
     (case v of
        TKStr s \<Rightarrow> JString s
      | TKInt i \<Rightarrow> JNumber (Some i) (Some (f64_of_int i))
      | TKFloat f \<Rightarrow> (if is_finite f then JNumber None (Some f) else JNull)
      | TKBool b \<Rightarrow> JBool b)"

definition topk_from_json :: "Json \<Rightarrow> TopKValue option" where
  "topk_from_json j =
     (case j of
        JString s \<Rightarrow> Some (TKStr s)
      | JNumber i f \<Rightarrow> (case i of Some n \<Rightarrow> Some (TKInt n) | None \<Rightarrow> map_option (\<lambda>x. TKFloat (canon_float x)) f)
      | JBool b \<Rightarrow> Some (TKBool b)
      | _ \<Rightarrow> None)"

section \<open>Count-min sketch\<close>

definition CMS_SEEDS :: "u64 list" where
  "CMS_SEEDS =
     [0x9E3779B97F4A7C15, 0xBF58476D1CE4E5B9, 0x94D049BB133111EB, 0xD1B54A32D192ED03,
      0xBEA225F9EB34556D, 0xA24BAED4963EE407, 0x85EBCA6B9FE1A285, 0xC2B2AE3D27D4EB4F]"

record CountMinSketch =
  cms_width :: nat
  cms_depth :: nat
  counters :: "int list"
  cms_total :: u64

definition cms_empty :: "nat \<Rightarrow> nat \<Rightarrow> CountMinSketch" where
  "cms_empty w d = \<lparr>cms_width = w, cms_depth = d, counters = replicate (w * d) 0, cms_total = 0\<rparr>"

definition cms_new :: "nat \<Rightarrow> nat \<Rightarrow> CountMinSketch option" where
  "cms_new w d = (if 0 < w \<and> 0 < d \<and> d \<le> length CMS_SEEDS then Some (cms_empty w d) else None)"

definition rehash :: "u64 \<Rightarrow> u64 \<Rightarrow> u64" where
  "rehash hash seed =
     (let h1 = hash XOR seed;
          h2 = (h1 XOR drop_bit 33 h1) * 0xff51afd7ed558ccd;
          h3 = (h2 XOR drop_bit 33 h2) * 0xc4ceb9fe1a85ec53
      in h3 XOR drop_bit 33 h3)"

definition cms_col :: "CountMinSketch \<Rightarrow> u64 \<Rightarrow> nat \<Rightarrow> nat" where
  "cms_col s hash row = unat (rehash hash (CMS_SEEDS ! row)) mod cms_width s"

definition cms_cell :: "CountMinSketch \<Rightarrow> u64 \<Rightarrow> nat \<Rightarrow> nat" where
  "cms_cell s hash row = row * cms_width s + cms_col s hash row"

definition cms_update :: "u64 \<Rightarrow> int \<Rightarrow> CountMinSketch \<Rightarrow> CountMinSketch" where
  "cms_update hash delta s =
     s\<lparr>counters :=
         fold (\<lambda>row cs. let idx = cms_cell s hash row in cs[idx := max (i64_saturating_add (cs ! idx) delta) 0])
           [0..<cms_depth s] (counters s),
       cms_total :=
         (if 0 < delta then u64_saturating_add (cms_total s) (of_int delta)
          else if delta < 0 then u64_saturating_sub (cms_total s) (of_int (i64_wrap (- delta)))
          else cms_total s)\<rparr>"

definition cms_insert :: "u64 \<Rightarrow> CountMinSketch \<Rightarrow> CountMinSketch" where
  "cms_insert hash = cms_update hash 1"

definition cms_decrement :: "u64 \<Rightarrow> CountMinSketch \<Rightarrow> CountMinSketch" where
  "cms_decrement hash = cms_update hash (- 1)"

definition cms_estimate :: "CountMinSketch \<Rightarrow> u64 \<Rightarrow> int" where
  "cms_estimate s hash =
     (let m = fold (\<lambda>row m. if counters s ! cms_cell s hash row < m then counters s ! cms_cell s hash row else m)
                [0..<cms_depth s] i64_max
      in if m = i64_max then 0 else m)"

text \<open>Cell-wise saturating addition; the shape assertions are the outer option.\<close>

definition cms_add_cells :: "CountMinSketch \<Rightarrow> CountMinSketch \<Rightarrow> CountMinSketch" where
  "cms_add_cells s other =
     s\<lparr>counters := map2 (\<lambda>a b. max (i64_saturating_add a b) 0) (counters s) (counters other),
       cms_total := u64_saturating_add (cms_total s) (cms_total other)\<rparr>"

definition cms_merge :: "CountMinSketch \<Rightarrow> CountMinSketch \<Rightarrow> CountMinSketch option" where
  "cms_merge s other =
     (if cms_width s = cms_width other \<and> cms_depth s = cms_depth other then Some (cms_add_cells s other) else None)"

section \<open>Indexed min-heap\<close>

record TopKHeap =
  heap_k :: nat
  heap_items :: "(u64 \<times> TopKValue) list"
  heap_index :: "TopKValue \<rightharpoonup> nat"
  index_ready :: bool

definition heap_new :: "nat \<Rightarrow> TopKHeap" where
  "heap_new k = \<lparr>heap_k = max k 1, heap_items = [], heap_index = (\<lambda>_. None), index_ready = True\<rparr>"

definition index_of :: "(u64 \<times> TopKValue) list \<Rightarrow> TopKValue \<rightharpoonup> nat" where
  "index_of xs = fold (\<lambda>(i, (_, v)) m. m(v \<mapsto> i)) (List.enumerate 0 xs) (\<lambda>_. None)"

definition ensure_index :: "TopKHeap \<Rightarrow> TopKHeap" where
  "ensure_index s =
     (if index_ready s then s else s\<lparr>heap_index := index_of (heap_items s), index_ready := True\<rparr>)"

definition list_swap :: "'a list \<Rightarrow> nat \<Rightarrow> nat \<Rightarrow> 'a list" where
  "list_swap xs a b = xs[a := xs ! b, b := xs ! a]"

definition heap_swap :: "nat \<Rightarrow> nat \<Rightarrow> TopKHeap \<Rightarrow> TopKHeap" where
  "heap_swap a b s =
     (if a = b then s
      else
        (let xs = list_swap (heap_items s) a b in
         s\<lparr>heap_items := xs, heap_index := (heap_index s)(snd (xs ! a) \<mapsto> a, snd (xs ! b) \<mapsto> b)\<rparr>))"

definition parent :: "nat \<Rightarrow> nat" where
  "parent i = (i - 1) div 2"

lemma parent_lt: "0 < j \<Longrightarrow> parent j < j"
  by (simp add: parent_def div_less_dividend less_imp_diff_less)

lemma parent_eq: "0 < j \<Longrightarrow> parent j = i \<longleftrightarrow> j = 2 * i + 1 \<or> j = 2 * i + 2"
  unfolding parent_def by linarith

function sift_up :: "nat \<Rightarrow> TopKHeap \<Rightarrow> TopKHeap" where
  "sift_up i s =
     (if 0 < i then
        (let p = parent i in
         if fst (heap_items s ! i) < fst (heap_items s ! p) then sift_up p (heap_swap i p s) else s)
      else s)"
  by pat_completeness auto
termination
  by (relation "measure fst") (simp_all add: parent_lt)

declare sift_up.simps [simp del]

definition smallest_child :: "(u64 \<times> 'v) list \<Rightarrow> nat \<Rightarrow> nat" where
  "smallest_child xs i =
     (let n = length xs; left = 2 * i + 1; right = 2 * i + 2;
          s1 = (if left < n \<and> fst (xs ! left) < fst (xs ! i) then left else i)
      in if right < n \<and> fst (xs ! right) < fst (xs ! s1) then right else s1)"

lemma length_heap_swap [simp]: "length (heap_items (heap_swap a b s)) = length (heap_items s)"
  by (simp add: heap_swap_def list_swap_def Let_def)

lemma smallest_child_cases:
  "smallest_child xs i = i \<or>
   (smallest_child xs i \<in> {2 * i + 1, 2 * i + 2} \<and> smallest_child xs i < length xs \<and>
     fst (xs ! smallest_child xs i) < fst (xs ! i))"
  by (auto simp: smallest_child_def Let_def)

function sift_down :: "nat \<Rightarrow> TopKHeap \<Rightarrow> TopKHeap" where
  "sift_down i s =
     (let m = smallest_child (heap_items s) i in
      if m = i then s else sift_down m (heap_swap i m s))"
  by pat_completeness auto
termination
proof (relation "measure (\<lambda>(i, s). length (heap_items s) - i)")
  fix i m and s :: TopKHeap
  assume "m = smallest_child (heap_items s) i" and "m \<noteq> i"
  then have "m < length (heap_items s)" "i < m" using smallest_child_cases [of "heap_items s" i] by auto
  then show "((m, heap_swap i m s), (i, s)) \<in> measure (\<lambda>(i, s). length (heap_items s) - i)" by simp
qed simp

declare sift_down.simps [simp del]

definition insert_or_bump :: "TopKValue \<Rightarrow> u64 \<Rightarrow> TopKHeap \<Rightarrow> TopKHeap" where
  "insert_or_bump v cnt s0 =
     (let s = ensure_index s0 in
      case heap_index s v of
        Some pos \<Rightarrow>
          (let old = fst (heap_items s ! pos);
               s1 = s\<lparr>heap_items := (heap_items s)[pos := (cnt, snd (heap_items s ! pos))]\<rparr>
           in if cnt < old then sift_up pos s1 else if old < cnt then sift_down pos s1 else s1)
      | None \<Rightarrow>
          if length (heap_items s) < heap_k s then
            (let pos = length (heap_items s)
             in sift_up pos (s\<lparr>heap_items := heap_items s @ [(cnt, v)], heap_index := (heap_index s)(v \<mapsto> pos)\<rparr>))
          else if fst (heap_items s ! 0) < cnt then
            (let evicted = snd (heap_items s ! 0)
             in sift_down 0 (s\<lparr>heap_items := (heap_items s)[0 := (cnt, v)],
                  heap_index := ((heap_index s)(evicted := None))(v \<mapsto> 0)\<rparr>))
          else s)"

definition top_sort :: "(TopKValue \<times> u64) list \<Rightarrow> (TopKValue \<times> u64) list" where
  "top_sort = sort_key (\<lambda>(v, c). (- uint c, v))"

definition heap_top :: "TopKHeap \<Rightarrow> (TopKValue \<times> u64) list" where
  "heap_top s = top_sort (map (\<lambda>(c, v). (v, c)) (heap_items s))"

section \<open>What the cells count\<close>

definition cms_wf :: "CountMinSketch \<Rightarrow> bool" where
  "cms_wf s \<longleftrightarrow> 0 < cms_width s \<and> length (counters s) = cms_width s * cms_depth s"

lemma cms_cell_lt: "cms_wf s \<Longrightarrow> row < cms_depth s \<Longrightarrow> cms_cell s h row < length (counters s)"
proof -
  assume wf: "cms_wf s" and row: "row < cms_depth s"
  have "cms_cell s h row < (row + 1) * cms_width s"
    using wf by (simp add: cms_cell_def cms_col_def cms_wf_def)
  also have "\<dots> \<le> cms_depth s * cms_width s" using row by (intro mult_right_mono) auto
  finally show ?thesis using wf by (simp add: cms_wf_def mult.commute)
qed

lemma cms_cell_eq:
  assumes "0 < cms_width s" and "c < cms_width s"
  shows "cms_cell s h row = row' * cms_width s + c \<longleftrightarrow> row = row' \<and> cms_col s h row = c"
proof -
  have "cms_col s h row < cms_width s" using assms by (simp add: cms_col_def)
  then have cell: "cms_cell s h row div cms_width s = row" "cms_cell s h row mod cms_width s = cms_col s h row"
    using assms(1) by (simp_all add: cms_cell_def)
  have rc: "(row' * cms_width s + c) div cms_width s = row'" "(row' * cms_width s + c) mod cms_width s = c"
    using assms by simp_all
  show ?thesis
  proof
    assume "cms_cell s h row = row' * cms_width s + c"
    with cell rc show "row = row' \<and> cms_col s h row = c" by metis
  next
    assume "row = row' \<and> cms_col s h row = c"
    then show "cms_cell s h row = row' * cms_width s + c" by (auto simp: cms_cell_def)
  qed
qed

lemma fold_list_update_nth:
  assumes "inj_on f (set rs)" and "distinct rs" and "i < length cs"
  shows "fold (\<lambda>r cs. cs[f r := g (cs ! f r)]) rs cs ! i = (if i \<in> f ` set rs then g (cs ! i) else cs ! i)"
  using assms by (induction rs arbitrary: cs) (auto simp: nth_list_update inj_on_def)

lemma length_fold_list_update [simp]: "length (fold (\<lambda>r cs. cs[f r := g r cs]) rs cs) = length cs"
  by (induction rs arbitrary: cs) auto

lemma cms_update_shape [simp]:
  "cms_width (cms_update h d s) = cms_width s" "cms_depth (cms_update h d s) = cms_depth s"
  "length (counters (cms_update h d s)) = length (counters s)"
  by (simp_all add: cms_update_def Let_def)

lemma cms_update_wf [simp]: "cms_wf s \<Longrightarrow> cms_wf (cms_update h d s)"
  by (simp add: cms_wf_def)

lemma cms_update_cell:
  assumes wf: "cms_wf s" and row: "row < cms_depth s" and c: "c < cms_width s"
  shows "counters (cms_update h d s) ! (row * cms_width s + c) =
    (if cms_col s h row = c then max (i64_saturating_add (counters s ! (row * cms_width s + c)) d) 0
     else counters s ! (row * cms_width s + c))"
proof -
  have pos: "0 < cms_width s" using wf by (simp add: cms_wf_def)
  have col: "cms_col s h r < cms_width s" for r using pos by (simp add: cms_col_def)
  have inj: "inj_on (cms_cell s h) (set [0..<cms_depth s])"
    using cms_cell_eq [OF pos col, of h] by (auto simp: inj_on_def cms_cell_def [of s h])
  have "(row + 1) * cms_width s \<le> cms_depth s * cms_width s" using row by (intro mult_right_mono) auto
  then have lt: "row * cms_width s + c < length (counters s)"
    using c wf by (simp add: cms_wf_def mult.commute)
  have "row * cms_width s + c \<in> cms_cell s h ` set [0..<cms_depth s] \<longleftrightarrow> cms_col s h row = c"
  proof
    assume "row * cms_width s + c \<in> cms_cell s h ` set [0..<cms_depth s]"
    then obtain r where "cms_cell s h r = row * cms_width s + c" by auto
    then show "cms_col s h row = c" using cms_cell_eq [OF pos c] by auto
  next
    assume "cms_col s h row = c"
    then have "cms_cell s h row = row * cms_width s + c" by (simp add: cms_cell_def)
    then show "row * cms_width s + c \<in> cms_cell s h ` set [0..<cms_depth s]"
      using row by (metis atLeastLessThan_iff image_eqI less_eq_nat.simps(1) set_upt)
  qed
  then show ?thesis
    using fold_list_update_nth [OF inj _ lt, of "\<lambda>x. max (i64_saturating_add x d) 0"]
    by (simp add: cms_update_def Let_def)
qed

text \<open>A run of weighted updates and the weight that meets one cell.\<close>

definition cms_run :: "(u64 \<times> int) list \<Rightarrow> CountMinSketch \<Rightarrow> CountMinSketch" where
  "cms_run us s = fold (\<lambda>(h, d). cms_update h d) us s"

definition col_of :: "nat \<Rightarrow> u64 \<Rightarrow> nat \<Rightarrow> nat" where
  "col_of w h row = unat (rehash h (CMS_SEEDS ! row)) mod w"

definition cell_weight :: "nat \<Rightarrow> nat \<Rightarrow> nat \<Rightarrow> (u64 \<times> int) list \<Rightarrow> int" where
  "cell_weight w row c us = (\<Sum>(h, d)\<leftarrow>us. if col_of w h row = c then d else 0)"

lemma cms_run_shape [simp]:
  "cms_width (cms_run us s) = cms_width s" "cms_depth (cms_run us s) = cms_depth s"
  "length (counters (cms_run us s)) = length (counters s)"
  by (induction us arbitrary: s) (auto simp: cms_run_def)

lemma cms_run_wf [simp]: "cms_wf s \<Longrightarrow> cms_wf (cms_run us s)"
  by (simp add: cms_wf_def)

lemma cell_weight_nonneg: "\<forall>(h, d) \<in> set us. 0 \<le> d \<Longrightarrow> 0 \<le> cell_weight w row c us"
  by (induction us) (auto simp: cell_weight_def)

lemma cms_run_cell:
  assumes "cms_wf s" and "row < cms_depth s" and "c < cms_width s"
    and "\<forall>(h, d) \<in> set us. 0 \<le> d" and "0 \<le> a" and "counters s ! (row * cms_width s + c) = min i64_max a"
  shows "counters (cms_run us s) ! (row * cms_width s + c) = min i64_max (a + cell_weight (cms_width s) row c us)"
  using assms
proof (induction us arbitrary: s a)
  case Nil
  then show ?case by (simp add: cms_run_def cell_weight_def)
next
  case (Cons u us)
  obtain h d where u: "u = (h, d)" by (cases u)
  define a' where "a' = (if col_of (cms_width s) h row = c then a + d else a)"
  have d: "0 \<le> d" using Cons.prems(4) by (simp add: u)
  have col: "cms_col s h row = col_of (cms_width s) h row" by (simp add: cms_col_def col_of_def)
  have "counters (cms_update h d s) ! (row * cms_width s + c) = min i64_max a'"
    using Cons.prems d unfolding cms_update_cell [OF Cons.prems(1-3)] col a'_def
    by (auto simp: i64_saturating_add_def i64_clamp_def)
  moreover have "0 \<le> a'" using Cons.prems(5) d by (simp add: a'_def)
  ultimately have "counters (cms_run us (cms_update h d s)) ! (row * cms_width s + c) =
      min i64_max (a' + cell_weight (cms_width s) row c us)"
    using Cons.IH [of "cms_update h d s" a'] Cons.prems(1-4) by simp
  then show ?case by (auto simp: cms_run_def u cell_weight_def a'_def)
qed

lemma cms_empty_shape [simp]:
  "cms_width (cms_empty w d) = w" "cms_depth (cms_empty w d) = d" "length (counters (cms_empty w d)) = w * d"
  by (simp_all add: cms_empty_def)

lemma cms_empty_wf [simp]: "0 < w \<Longrightarrow> cms_wf (cms_empty w d)"
  by (simp add: cms_wf_def)

lemma cms_run_empty_cell:
  assumes "0 < w" and "row < d" and "c < w" and "\<forall>(h, e) \<in> set us. 0 \<le> e"
  shows "counters (cms_run us (cms_empty w d)) ! (row * w + c) = min i64_max (cell_weight w row c us)"
proof -
  have "row * w + c < w * d"
    using assms(2,3) by (metis Suc_leI add.commute less_le_trans mult.commute mult_Suc mult_le_mono2 nat_add_left_cancel_less)
  then have "counters (cms_empty w d) ! (row * cms_width (cms_empty w d) + c) = min i64_max 0"
    by (simp add: cms_empty_def)
  from cms_run_cell [OF cms_empty_wf [OF assms(1)] _ _ assms(4) order.refl this] assms(2,3)
  show ?thesis by (simp add: cms_empty_def)
qed

lemma cms_total_run:
  assumes "\<forall>(h, d) \<in> set us. 0 \<le> d \<and> is_i64 d" and "unat (cms_total s) = min (2 ^ 64 - 1) a"
  shows "unat (cms_total (cms_run us s)) = min (2 ^ 64 - 1) (a + nat (\<Sum>(h, d)\<leftarrow>us. d))"
  using assms
proof (induction us arbitrary: s a)
  case Nil
  then show ?case by (simp add: cms_run_def)
next
  case (Cons u us)
  obtain h d where u: "u = (h, d)" by (cases u)
  have d: "0 \<le> d" "d < 2 ^ 63" using Cons.prems(1) by (auto simp: u is_i64_def)
  have nonneg: "0 \<le> (\<Sum>(h, d)\<leftarrow>us. d)" using Cons.prems(1) by (induction us) auto
  have "unat (of_int d :: u64) = nat d"
    using d by (simp add: unsigned_of_int take_bit_int_eq_self nat_take_bit_eq take_bit_nat_eq_self)
  then have "unat (cms_total (cms_update h d s)) = min (2 ^ 64 - 1) (a + nat d)"
    using d Cons.prems(2) by (auto simp: cms_update_def u64_saturating_add_unat)
  with Cons.IH [of "cms_update h d s" "a + nat d"] Cons.prems(1) show ?case
    using d nonneg by (simp add: cms_run_def u nat_add_distrib add.assoc)
qed

lemma min_add_min: "min (min M a + min M b) M = min M (a + b)" for a b M :: nat
  by (simp add: min_def)

lemma cms_eqI:
  fixes s t :: CountMinSketch
  assumes "cms_width s = cms_width t" and "cms_depth s = cms_depth t"
    and "counters s = counters t" and "unat (cms_total s) = unat (cms_total t)"
  shows "s = t"
  using assms by (simp add: word_unat_eq_iff)

lemma cell_weight_append [simp]: "cell_weight w row c (us @ vs) = cell_weight w row c us + cell_weight w row c vs"
  by (simp add: cell_weight_def)

text \<open>Merging adds the weights, saturation included.\<close>

lemma cms_add_cells_runs:
  assumes "\<forall>(h, e) \<in> set us. 0 \<le> e \<and> is_i64 e" and "\<forall>(h, e) \<in> set vs. 0 \<le> e \<and> is_i64 e"
  shows "cms_add_cells (cms_run us (cms_empty w d)) (cms_run vs (cms_empty w d)) = cms_run (us @ vs) (cms_empty w d)"
proof (rule cms_eqI)
  have us: "\<forall>(h, e) \<in> set us. 0 \<le> e" and vs: "\<forall>(h, e) \<in> set vs. 0 \<le> e" using assms by auto
  have both: "\<forall>(h, e) \<in> set (us @ vs). 0 \<le> e" using us vs by auto
  let ?s = "cms_run us (cms_empty w d)" and ?t = "cms_run vs (cms_empty w d)"
  show "counters (cms_add_cells ?s ?t) = counters (cms_run (us @ vs) (cms_empty w d))"
  proof (rule nth_equalityI)
    show "length (counters (cms_add_cells ?s ?t)) = length (counters (cms_run (us @ vs) (cms_empty w d)))"
      by (simp add: cms_add_cells_def)
  next
    fix i
    assume "i < length (counters (cms_add_cells ?s ?t))"
    then have i: "i < w * d" by (simp add: cms_add_cells_def)
    then have w: "0 < w" by (cases w) auto
    define row c where "row = i div w" and "c = i mod w"
    have rc: "i = row * w + c" "row < d" "c < w"
      using i w by (simp_all add: row_def c_def less_mult_imp_div_less mult.commute)
    note cell = cms_run_empty_cell [OF w rc(2,3)]
    have "counters (cms_add_cells ?s ?t) ! i =
        max (i64_saturating_add (counters ?s ! i) (counters ?t ! i)) 0"
      using i by (simp add: cms_add_cells_def)
    also have "\<dots> = min i64_max (cell_weight w row c (us @ vs))"
      using cell_weight_nonneg [OF us, of w row c] cell_weight_nonneg [OF vs, of w row c]
      unfolding rc(1) cell [OF us] cell [OF vs] by (auto simp: i64_saturating_add_def i64_clamp_def)
    finally show "counters (cms_add_cells ?s ?t) ! i = counters (cms_run (us @ vs) (cms_empty w d)) ! i"
      unfolding rc(1) cell [OF both] .
  qed
  have zero: "unat (cms_total (cms_empty w d)) = min (2 ^ 64 - 1) 0" by (simp add: cms_empty_def)
  have nn: "0 \<le> (\<Sum>(h, e)\<leftarrow>us. e)" "0 \<le> (\<Sum>(h, e)\<leftarrow>vs. e)" using us vs by (induction us, auto) (induction vs, auto)
  have "\<forall>(h, e) \<in> set (us @ vs). 0 \<le> e \<and> is_i64 e" using assms by auto
  from cms_total_run [OF this zero] cms_total_run [OF assms(1) zero] cms_total_run [OF assms(2) zero] nn
  show "unat (cms_total (cms_add_cells ?s ?t)) = unat (cms_total (cms_run (us @ vs) (cms_empty w d)))"
    by (simp add: cms_add_cells_def u64_saturating_add_unat nat_add_distrib min_add_min)
qed (simp_all add: cms_add_cells_def)

lemma cms_insert_run: "fold cms_insert hs s = cms_run (map (\<lambda>h. (h, 1)) hs) s"
  by (induction hs arbitrary: s) (simp_all add: cms_run_def cms_insert_def)

interpretation cms: mergeable_sketch "cms_empty w d" cms_insert cms_add_cells for w d
  by unfold_locales
    (simp add: cms_insert_run cms_add_cells_runs is_i64_def del: fold_append)

section \<open>Estimates never fall short\<close>

lemma fold_least:
  fixes f :: "'a \<Rightarrow> int"
  shows "fold (\<lambda>x m. if f x < m then f x else m) xs m0 = Min (insert m0 (set (map f xs)))"
proof (induction xs arbitrary: m0)
  case Nil
  then show ?case by simp
next
  case (Cons x xs)
  have "(if f x < m0 then f x else m0) = min m0 (f x)" by simp
  then show ?case using Cons.IH [of "min m0 (f x)"]
    by (cases "xs = []") (simp_all add: min.assoc)
qed

definition true_weight :: "u64 \<Rightarrow> (u64 \<times> int) list \<Rightarrow> int" where
  "true_weight h us = (\<Sum>(h', e)\<leftarrow>us. if h' = h then e else 0)"

lemma weight_bounds:
  assumes "\<forall>(h, e) \<in> set us. 0 \<le> e"
  shows "true_weight h us \<le> cell_weight w row (col_of w h row) us"
    and "cell_weight w row c us \<le> (\<Sum>(h, e)\<leftarrow>us. e)"
  using assms by (induction us) (auto simp: true_weight_def cell_weight_def)

text \<open>Below saturation the estimate is the least of the cells of the hash.\<close>

lemma cms_estimate_Min:
  assumes "0 < w" and "0 < d" and "\<forall>(h, e) \<in> set us. 0 \<le> e" and "(\<Sum>(h, e)\<leftarrow>us. e) < i64_max"
  shows "cms_estimate (cms_run us (cms_empty w d)) h =
    Min ((\<lambda>row. cell_weight w row (col_of w h row) us) ` {..<d})"
proof -
  let ?s = "cms_run us (cms_empty w d)" and ?c = "\<lambda>row. cell_weight w row (col_of w h row) us"
  have wd: "cms_width ?s = w" "cms_depth ?s = d" by simp_all
  have lt: "?c row < i64_max" for row
    using weight_bounds(2) [OF assms(3)] assms(4) by (rule le_less_trans)
  have cell: "counters ?s ! cms_cell ?s h row = ?c row" if "row < d" for row
  proof -
    have "cms_cell ?s h row = row * w + col_of w h row" by (simp add: cms_cell_def cms_col_def col_of_def wd)
    moreover have "col_of w h row < w" using assms(1) by (simp add: col_of_def)
    ultimately show ?thesis using cms_run_empty_cell [OF assms(1) that _ assms(3)] lt [of row] by simp
  qed
  have "set (map (\<lambda>row. counters ?s ! cms_cell ?s h row) [0..<d]) = ?c ` {..<d}"
    by (auto simp: cell)
  then have m: "fold (\<lambda>row m. if counters ?s ! cms_cell ?s h row < m then counters ?s ! cms_cell ?s h row else m) [0..<d] i64_max
      = Min (insert i64_max (?c ` {..<d}))"
    by (simp only: fold_least)
  have "Min (?c ` {..<d}) \<in> ?c ` {..<d}" using assms(2) by (intro Min_in) auto
  then have "Min (?c ` {..<d}) < i64_max" using lt by auto
  then have "Min (insert i64_max (?c ` {..<d})) = Min (?c ` {..<d})"
    using assms(2) by (subst Min_insert) auto
  with m \<open>Min (?c ` {..<d}) < i64_max\<close> show ?thesis
    by (simp add: cms_estimate_def wd Let_def)
qed

lemma cms_estimate_bounds:
  assumes "0 < w" and "0 < d" and "\<forall>(h, e) \<in> set us. 0 \<le> e" and "(\<Sum>(h, e)\<leftarrow>us. e) < i64_max"
  shows "true_weight h us \<le> cms_estimate (cms_run us (cms_empty w d)) h"
    and "cms_estimate (cms_run us (cms_empty w d)) h \<le> (\<Sum>(h, e)\<leftarrow>us. e)"
proof -
  have "{..<d} \<noteq> {}" using assms(2) by auto
  then show "true_weight h us \<le> cms_estimate (cms_run us (cms_empty w d)) h"
    using weight_bounds(1) [OF assms(3)] by (simp add: cms_estimate_Min [OF assms])
  have "cms_estimate (cms_run us (cms_empty w d)) h \<le> cell_weight w 0 (col_of w h 0) us"
    unfolding cms_estimate_Min [OF assms] by (rule Min_le) (use assms(2) in auto)
  then show "cms_estimate (cms_run us (cms_empty w d)) h \<le> (\<Sum>(h, e)\<leftarrow>us. e)"
    using weight_bounds(2) [OF assms(3)] by (rule order.trans)
qed

lemma cms_estimate_mono:
  assumes "0 < w" and "0 < d" and "\<forall>(h, e) \<in> set (us @ vs). 0 \<le> e" and "(\<Sum>(h, e)\<leftarrow>us @ vs. e) < i64_max"
  shows "cms_estimate (cms_run us (cms_empty w d)) h \<le> cms_estimate (cms_run (us @ vs) (cms_empty w d)) h"
proof -
  have vs: "\<forall>(h, e) \<in> set vs. 0 \<le> e" and us: "\<forall>(h, e) \<in> set us. 0 \<le> e" using assms(3) by auto
  have "0 \<le> (\<Sum>(h, e)\<leftarrow>vs. e)" using vs by (auto intro!: sum_list_nonneg)
  then have lt: "(\<Sum>(h, e)\<leftarrow>us. e) < i64_max" using assms(4) by simp
  have mono: "cell_weight w row c us \<le> cell_weight w row c (us @ vs)" for row c
    using cell_weight_nonneg [OF vs] by simp
  show ?thesis
    unfolding cms_estimate_Min [OF assms(1,2) us lt] cms_estimate_Min [OF assms]
  proof (rule Min.boundedI)
    fix a assume "a \<in> (\<lambda>row. cell_weight w row (col_of w h row) (us @ vs)) ` {..<d}"
    then obtain row where row: "row < d" "a = cell_weight w row (col_of w h row) (us @ vs)" by auto
    have "Min ((\<lambda>row. cell_weight w row (col_of w h row) us) ` {..<d}) \<le> cell_weight w row (col_of w h row) us"
      using row(1) by (intro Min_le) auto
    also have "\<dots> \<le> a" unfolding row(2) by (rule mono)
    finally show "Min ((\<lambda>row. cell_weight w row (col_of w h row) us) ` {..<d}) \<le> a" .
  qed (use assms(2) in auto)
qed

section \<open>Heap order\<close>

definition heap_order :: "(u64 \<times> 'v) list \<Rightarrow> bool" where
  "heap_order xs \<longleftrightarrow> (\<forall>j < length xs. 0 < j \<longrightarrow> fst (xs ! parent j) \<le> fst (xs ! j))"

text \<open>Order everywhere except between \<open>i\<close> and its parent, or between \<open>i\<close> and its children.\<close>

definition order_above :: "(u64 \<times> 'v) list \<Rightarrow> nat \<Rightarrow> bool" where
  "order_above xs i \<longleftrightarrow> i < length xs \<and>
     (\<forall>j < length xs. 0 < j \<longrightarrow> j \<noteq> i \<longrightarrow> fst (xs ! parent j) \<le> fst (xs ! j)) \<and>
     (\<forall>j < length xs. 0 < j \<longrightarrow> 0 < i \<longrightarrow> parent j = i \<longrightarrow> fst (xs ! parent i) \<le> fst (xs ! j))"

definition order_below :: "(u64 \<times> 'v) list \<Rightarrow> nat \<Rightarrow> bool" where
  "order_below xs i \<longleftrightarrow> i < length xs \<and>
     (\<forall>j < length xs. 0 < j \<longrightarrow> parent j \<noteq> i \<longrightarrow> fst (xs ! parent j) \<le> fst (xs ! j)) \<and>
     (\<forall>j < length xs. 0 < j \<longrightarrow> 0 < i \<longrightarrow> parent j = i \<longrightarrow> fst (xs ! parent i) \<le> fst (xs ! j))"

lemma length_list_swap [simp]: "length (list_swap xs a b) = length xs"
  by (simp add: list_swap_def)

lemma nth_list_swap:
  "a < length xs \<Longrightarrow> b < length xs \<Longrightarrow> j < length xs \<Longrightarrow>
     list_swap xs a b ! j = (if j = b then xs ! a else if j = a then xs ! b else xs ! j)"
  by (simp add: list_swap_def nth_list_update)

lemma mset_list_swap: "a < length xs \<Longrightarrow> b < length xs \<Longrightarrow> mset (list_swap xs a b) = mset xs"
  by (simp add: list_swap_def mset_swap)

lemma order_above_swap:
  assumes "order_above xs i" and "0 < i" and "fst (xs ! i) < fst (xs ! parent i)"
  shows "order_above (list_swap xs i (parent i)) (parent i)"
proof -
  let ?p = "parent i" and ?ys = "list_swap xs i (parent i)"
  have i: "i < length xs" and p: "?p < length xs" "?p < i"
    using assms(1) parent_lt [OF assms(2)] by (auto simp: order_above_def)
  have up: "\<And>j. j < length xs \<Longrightarrow> 0 < j \<Longrightarrow> j \<noteq> i \<Longrightarrow> fst (xs ! parent j) \<le> fst (xs ! j)"
    and grand: "\<And>j. j < length xs \<Longrightarrow> 0 < j \<Longrightarrow> parent j = i \<Longrightarrow> fst (xs ! ?p) \<le> fst (xs ! j)"
    using assms(1,2) by (auto simp: order_above_def)
  note nth = nth_list_swap [OF i p(1)]
  have "fst (?ys ! parent j) \<le> fst (?ys ! j)" if j: "j < length xs" "0 < j" "j \<noteq> ?p" for j
  proof -
    have pj: "parent j < length xs" using parent_lt [OF j(2)] j(1) by simp
    consider "j = i" | "j \<noteq> i" "parent j = i" | "j \<noteq> i" "parent j = ?p" | "j \<noteq> i" "parent j \<noteq> i" "parent j \<noteq> ?p"
      by blast
    then show ?thesis
    proof cases
      case 1
      then show ?thesis using assms(3) p i by (simp add: nth less_imp_le)
    next
      case 2
      then show ?thesis using grand [OF j(1,2)] j p i by (simp add: nth)
    next
      case 3
      have "fst (xs ! i) \<le> fst (xs ! j)"
        using assms(3) up [OF j(1,2) 3(1)] 3(2) by simp
      then show ?thesis using 3 j p i by (simp add: nth)
    next
      case 4
      then show ?thesis using up [OF j(1,2)] j pj by (simp add: nth)
    qed
  qed
  moreover have "fst (?ys ! parent ?p) \<le> fst (?ys ! j)" if j: "j < length xs" "0 < j" "0 < ?p" "parent j = ?p" for j
  proof -
    have pp: "parent ?p < length xs" "parent ?p < ?p" using parent_lt [OF j(3)] p by simp_all
    have "fst (xs ! parent ?p) \<le> fst (xs ! ?p)" using up [OF p(1) j(3)] p(2) by simp
    moreover have "j \<noteq> ?p" using j parent_lt [OF j(2)] by auto
    ultimately show ?thesis
      using up [OF j(1,2)] j p pp by (cases "j = i") (auto simp: nth pp(1) intro: order.trans)
  qed
  ultimately show ?thesis using p(1) by (simp add: order_above_def)
qed

lemma order_above_done:
  assumes "order_above xs i" and "i = 0 \<or> \<not> fst (xs ! i) < fst (xs ! parent i)"
  shows "heap_order xs"
  using assms by (auto simp: order_above_def heap_order_def not_less)

lemma order_below_swap:
  assumes "order_below xs i" and "smallest_child xs i \<noteq> i"
  shows "order_below (list_swap xs i (smallest_child xs i)) (smallest_child xs i)"
proof -
  let ?m = "smallest_child xs i"
  let ?ys = "list_swap xs i ?m"
  have m: "parent ?m = i" "?m < length xs" "i < ?m" "fst (xs ! ?m) < fst (xs ! i)"
    using smallest_child_cases [of xs i] assms(2) by (auto simp: parent_eq)
  have i: "i < length xs" using assms(1) by (simp add: order_below_def)
  have least: "fst (xs ! ?m) \<le> fst (xs ! j)" if "j < length xs" "0 < j" "parent j = i" for j
  proof -
    have "j = 2 * i + 1 \<or> j = 2 * i + 2" using that parent_eq by blast
    then show ?thesis using that(1) by (auto simp: smallest_child_def Let_def not_less)
  qed
  have down: "\<And>j. j < length xs \<Longrightarrow> 0 < j \<Longrightarrow> parent j \<noteq> i \<Longrightarrow> fst (xs ! parent j) \<le> fst (xs ! j)"
    and grand: "\<And>j. j < length xs \<Longrightarrow> 0 < j \<Longrightarrow> 0 < i \<Longrightarrow> parent j = i \<Longrightarrow> fst (xs ! parent i) \<le> fst (xs ! j)"
    using assms(1) by (auto simp: order_below_def)
  note nth = nth_list_swap [OF i m(2)]
  have "fst (?ys ! parent j) \<le> fst (?ys ! j)" if j: "j < length xs" "0 < j" "parent j \<noteq> ?m" for j
  proof -
    have pj: "parent j < length xs" "parent j < j" using parent_lt [OF j(2)] j(1) by simp_all
    consider "j = ?m" | "j = i" | "j \<noteq> ?m" "j \<noteq> i" "parent j = i" | "j \<noteq> ?m" "j \<noteq> i" "parent j \<noteq> i" by blast
    then show ?thesis
    proof cases
      case 1
      then show ?thesis using m by (simp add: nth pj(1) j(1) less_imp_le)
    next
      case 2
      then show ?thesis using grand [OF m(2)] m j pj by (simp add: nth pj(1) j(1))
    next
      case 3
      then show ?thesis using least [OF j(1,2)] m by (simp add: nth pj(1) j(1))
    next
      case 4
      then show ?thesis using down [OF j(1,2)] j(3) by (simp add: nth pj(1) j(1))
    qed
  qed
  moreover have "fst (?ys ! parent ?m) \<le> fst (?ys ! j)" if j: "j < length xs" "0 < j" "parent j = ?m" for j
  proof -
    have "j \<noteq> i" "j \<noteq> ?m" using parent_lt [OF j(2)] j(3) m(3) by auto
    then show ?thesis using down [OF j(1,2)] j m i by (simp add: nth)
  qed
  ultimately show ?thesis using m(2) by (simp add: order_below_def)
qed

lemma order_below_done:
  assumes "order_below xs i" and "smallest_child xs i = i"
  shows "heap_order xs"
proof -
  have "fst (xs ! i) \<le> fst (xs ! j)" if "j < length xs" "0 < j" "parent j = i" for j
  proof -
    have "j = 2 * i + 1 \<or> j = 2 * i + 2" using that parent_eq by blast
    then show ?thesis using that(1) assms(2) by (auto simp: smallest_child_def Let_def not_less split: if_splits)
  qed
  then show ?thesis using assms(1) by (auto simp: order_below_def heap_order_def)
qed

section \<open>The side index\<close>

definition idx_ok :: "TopKHeap \<Rightarrow> bool" where
  "idx_ok s \<longleftrightarrow> (\<forall>v i. heap_index s v = Some i \<longleftrightarrow> i < length (heap_items s) \<and> snd (heap_items s ! i) = v)"

lemma idx_ok_nth: "idx_ok s \<Longrightarrow> i < length (heap_items s) \<Longrightarrow> heap_index s (snd (heap_items s ! i)) = Some i"
  by (simp add: idx_ok_def)

lemma idx_ok_distinct: "idx_ok s \<Longrightarrow> distinct (map snd (heap_items s))"
  unfolding distinct_conv_nth by (metis idx_ok_nth length_map nth_map option.inject)

lemma idx_ok_None: "idx_ok s \<Longrightarrow> heap_index s v = None \<longleftrightarrow> v \<notin> snd ` set (heap_items s)"
proof -
  assume ok: "idx_ok s"
  have "v \<in> snd ` set (heap_items s) \<longleftrightarrow> (\<exists>i. i < length (heap_items s) \<and> snd (heap_items s ! i) = v)"
    unfolding set_map [symmetric] in_set_conv_nth by auto
  also have "\<dots> \<longleftrightarrow> (\<exists>i. heap_index s v = Some i)" using ok by (simp add: idx_ok_def)
  finally show ?thesis by auto
qed

lemma idx_ok_swap:
  assumes ok: "idx_ok s" and a: "a < length (heap_items s)" and b: "b < length (heap_items s)"
  shows "idx_ok (heap_swap a b s)"
proof (cases "a = b")
  case True
  with ok show ?thesis by (simp add: heap_swap_def)
next
  case False
  let ?xs = "heap_items s"
  have inj: "i = j" if "i < length ?xs" "j < length ?xs" "snd (?xs ! i) = snd (?xs ! j)" for i j
    using idx_ok_nth [OF ok that(1)] idx_ok_nth [OF ok that(2)] unfolding that(3) by simp
  have items: "heap_items (heap_swap a b s) = list_swap ?xs a b"
    and index: "heap_index (heap_swap a b s) = (heap_index s)(snd (?xs ! b) \<mapsto> a, snd (?xs ! a) \<mapsto> b)"
    using False a b by (simp_all add: heap_swap_def Let_def nth_list_swap)
  show ?thesis
    unfolding idx_ok_def items index
  proof (intro allI)
    fix v i
    show "((heap_index s)(snd (?xs ! b) \<mapsto> a, snd (?xs ! a) \<mapsto> b)) v = Some i \<longleftrightarrow>
        i < length (list_swap ?xs a b) \<and> snd (list_swap ?xs a b ! i) = v"
    proof (cases "i < length ?xs")
      case True
      have old: "heap_index s v = Some i \<longleftrightarrow> snd (?xs ! i) = v" using ok True by (simp add: idx_ok_def)
      have ne: "snd (?xs ! a) \<noteq> snd (?xs ! b)" using inj [OF a b] False by blast
      have ia: "snd (?xs ! i) = snd (?xs ! a) \<Longrightarrow> i = a" and ib: "snd (?xs ! i) = snd (?xs ! b) \<Longrightarrow> i = b"
        using inj [OF True a] inj [OF True b] by blast+
      have new: "snd (list_swap ?xs a b ! i) = (if i = b then snd (?xs ! a) else if i = a then snd (?xs ! b) else snd (?xs ! i))"
        using a b True by (simp add: nth_list_swap)
      consider "v = snd (?xs ! a)" | "v = snd (?xs ! b)" "v \<noteq> snd (?xs ! a)" | "v \<noteq> snd (?xs ! a)" "v \<noteq> snd (?xs ! b)"
        by blast
      then show ?thesis
      proof cases
        case 1
        then show ?thesis unfolding new using ne ia True by auto
      next
        case 2
        then show ?thesis unfolding new using ne ib True by auto
      next
        case 3
        then show ?thesis unfolding new using old True by auto
      qed
    next
      case out: False
      then have "heap_index s v \<noteq> Some i" using ok by (simp add: idx_ok_def)
      with out a b show ?thesis by auto
    qed
  qed
qed

lemma heap_swap_frame [simp]:
  "heap_k (heap_swap a b s) = heap_k s" "index_ready (heap_swap a b s) = index_ready s"
  by (simp_all add: heap_swap_def Let_def)

lemma heap_swap_mset:
  "a < length (heap_items s) \<Longrightarrow> b < length (heap_items s) \<Longrightarrow> mset (heap_items (heap_swap a b s)) = mset (heap_items s)"
  by (simp add: heap_swap_def Let_def mset_list_swap)

text \<open>What a sift guarantees.\<close>

definition sifted :: "TopKHeap \<Rightarrow> TopKHeap \<Rightarrow> bool" where
  "sifted s s' \<longleftrightarrow> idx_ok s' \<and> heap_order (heap_items s') \<and> mset (heap_items s') = mset (heap_items s) \<and>
     heap_k s' = heap_k s \<and> index_ready s' = index_ready s"

lemma sifted_swap:
  "sifted (heap_swap a b s) s' \<Longrightarrow> a < length (heap_items s) \<Longrightarrow> b < length (heap_items s) \<Longrightarrow> sifted s s'"
  by (simp add: sifted_def heap_swap_mset)

lemma sift_up_sifted: "idx_ok s \<Longrightarrow> order_above (heap_items s) i \<Longrightarrow> sifted s (sift_up i s)"
proof (induction i s rule: sift_up.induct)
  case (1 i s)
  have i: "i < length (heap_items s)" using 1(3) by (simp add: order_above_def)
  show ?case
  proof (cases "0 < i \<and> fst (heap_items s ! i) < fst (heap_items s ! parent i)")
    case True
    then have p: "parent i < i" using parent_lt by blast
    have items: "heap_items (heap_swap i (parent i) s) = list_swap (heap_items s) i (parent i)"
      using p by (simp add: heap_swap_def Let_def)
    have "sifted (heap_swap i (parent i) s) (sift_up (parent i) (heap_swap i (parent i) s))"
      using 1(1) [OF _ refl] True idx_ok_swap [OF 1(2) i] i p order_above_swap [OF 1(3)] by (simp add: items)
    then show ?thesis
      using True i p by (subst sift_up.simps) (auto simp: Let_def intro: sifted_swap)
  next
    case False
    then have "sift_up i s = s" by (subst sift_up.simps) (auto simp: Let_def)
    moreover have "heap_order (heap_items s)" using order_above_done [OF 1(3)] False by auto
    ultimately show ?thesis using 1(2) by (simp add: sifted_def)
  qed
qed

lemma sift_down_sifted: "idx_ok s \<Longrightarrow> order_below (heap_items s) i \<Longrightarrow> sifted s (sift_down i s)"
proof (induction i s rule: sift_down.induct)
  case (1 i s)
  have i: "i < length (heap_items s)" using 1(3) by (simp add: order_below_def)
  let ?m = "smallest_child (heap_items s) i"
  show ?case
  proof (cases "?m = i")
    case False
    then have m: "?m < length (heap_items s)" using smallest_child_cases [of "heap_items s" i] by auto
    have items: "heap_items (heap_swap i ?m s) = list_swap (heap_items s) i ?m"
      using False by (simp add: heap_swap_def Let_def)
    have "sifted (heap_swap i ?m s) (sift_down ?m (heap_swap i ?m s))"
      using 1(1) [OF refl False] idx_ok_swap [OF 1(2) i m] order_below_swap [OF 1(3) False] by (simp add: items)
    then show ?thesis
      using False i m by (subst sift_down.simps) (auto simp: Let_def intro: sifted_swap)
  next
    case True
    then have "sift_down i s = s" by (subst sift_down.simps) (simp add: Let_def)
    moreover have "heap_order (heap_items s)" using order_below_done [OF 1(3) True] .
    ultimately show ?thesis using 1(2) by (simp add: sifted_def)
  qed
qed

section \<open>Insertion\<close>

definition heap_wf :: "TopKHeap \<Rightarrow> bool" where
  "heap_wf s \<longleftrightarrow> 0 < heap_k s \<and> length (heap_items s) \<le> heap_k s \<and> distinct (map snd (heap_items s)) \<and>
     heap_order (heap_items s) \<and> (index_ready s \<longrightarrow> idx_ok s)"

lemma heap_wf_new [simp]: "heap_wf (heap_new k)"
  by (simp add: heap_wf_def heap_new_def heap_order_def idx_ok_def)

lemma index_of_snoc: "index_of (xs @ [(c, v)]) = (index_of xs)(v \<mapsto> length xs)"
  by (simp add: index_of_def enumerate_append_eq)

lemma index_of_ok:
  assumes "distinct (map snd xs)"
  shows "index_of xs v = Some i \<longleftrightarrow> i < length xs \<and> snd (xs ! i) = v"
  using assms
proof (induction xs arbitrary: i rule: rev_induct)
  case Nil
  then show ?case by (simp add: index_of_def)
next
  case (snoc x xs)
  obtain c w where x: "x = (c, w)" by (cases x)
  have fresh: "\<forall>j < length xs. snd (xs ! j) \<noteq> w" using snoc.prems by (auto simp: x)
  have IH: "index_of xs v = Some i \<longleftrightarrow> i < length xs \<and> snd (xs ! i) = v" for i
    using snoc.IH snoc.prems by simp
  show ?case
    unfolding x index_of_snoc using IH fresh by (auto simp: nth_append less_Suc_eq)
qed

lemma ensure_index_ok:
  assumes "heap_wf s"
  shows "idx_ok (ensure_index s)" "heap_wf (ensure_index s)" "index_ready (ensure_index s)"
    "heap_items (ensure_index s) = heap_items s" "heap_k (ensure_index s) = heap_k s"
  using assms index_of_ok [of "heap_items s"] by (auto simp: heap_wf_def ensure_index_def idx_ok_def)

lemma heap_min:
  assumes "heap_order xs" and "i < length xs"
  shows "fst (xs ! 0) \<le> fst (xs ! i)"
  using assms(2)
proof (induction i rule: less_induct)
  case (less i)
  show ?case
  proof (cases "i = 0")
    case False
    then have p: "parent i < i" using parent_lt by simp
    with less have "fst (xs ! 0) \<le> fst (xs ! parent i)" by simp
    also have "\<dots> \<le> fst (xs ! i)" using assms(1) less.prems False by (simp add: heap_order_def)
    finally show ?thesis .
  qed simp
qed

lemma sifted_wf:
  assumes "sifted s s'" and "0 < heap_k s" and "length (heap_items s) \<le> heap_k s" and "index_ready s"
  shows "heap_wf s'" "mset (heap_items s') = mset (heap_items s)" "heap_k s' = heap_k s"
proof -
  have "length (heap_items s') = length (heap_items s)"
    using assms(1) mset_eq_length unfolding sifted_def by blast
  then show "heap_wf s'" "mset (heap_items s') = mset (heap_items s)" "heap_k s' = heap_k s"
    using assms by (auto simp: sifted_def heap_wf_def dest: idx_ok_distinct)
qed

lemma heap_order_update:
  assumes "heap_order xs" and "i < length xs"
  shows "c \<le> fst (xs ! i) \<Longrightarrow> order_above (xs[i := (c, v)]) i"
    and "fst (xs ! i) \<le> c \<Longrightarrow> order_below (xs[i := (c, v)]) i"
proof -
  have h: "\<And>j. j < length xs \<Longrightarrow> 0 < j \<Longrightarrow> fst (xs ! parent j) \<le> fst (xs ! j)"
    using assms(1) by (simp add: heap_order_def)
  have pl: "parent j \<noteq> j" if "0 < j" for j using parent_lt [OF that] by simp
  show "order_above (xs[i := (c, v)]) i" if c: "c \<le> fst (xs ! i)"
  proof -
    have "fst (xs[i := (c, v)] ! parent j) \<le> fst (xs[i := (c, v)] ! j)" if "j < length xs" "0 < j" "j \<noteq> i" for j
      using h [OF that(1,2)] c assms(2) that parent_lt [OF that(2)]
      by (cases "parent j = i") (auto intro: order.trans)
    moreover have "fst (xs[i := (c, v)] ! parent i) \<le> fst (xs[i := (c, v)] ! j)"
      if "j < length xs" "0 < j" "0 < i" "parent j = i" for j
      using h [OF that(1,2)] h [OF assms(2) that(3)] that pl [OF that(3)] pl [OF that(2)]
      by (auto intro: order.trans)
    ultimately show ?thesis using assms(2) by (simp add: order_above_def)
  qed
  show "order_below (xs[i := (c, v)]) i" if c: "fst (xs ! i) \<le> c"
  proof -
    have "fst (xs[i := (c, v)] ! parent j) \<le> fst (xs[i := (c, v)] ! j)" if "j < length xs" "0 < j" "parent j \<noteq> i" for j
      using h [OF that(1,2)] c assms(2) that by (cases "j = i") (auto intro: order.trans)
    moreover have "fst (xs[i := (c, v)] ! parent i) \<le> fst (xs[i := (c, v)] ! j)"
      if "j < length xs" "0 < j" "0 < i" "parent j = i" for j
      using h [OF that(1,2)] h [OF assms(2) that(3)] that pl [OF that(3)] pl [OF that(2)]
      by (auto intro: order.trans)
    ultimately show ?thesis using assms(2) by (simp add: order_below_def)
  qed
qed

text \<open>The entries after an insertion: a known value gets the new count, a new value is added
  while there is room, and at capacity it replaces the root when its count is larger.\<close>

lemma insert_or_bump_known:
  assumes wf: "heap_wf s" and i: "i < length (heap_items s)" "snd (heap_items s ! i) = v"
  shows "heap_wf (insert_or_bump v c s) \<and> heap_k (insert_or_bump v c s) = heap_k s \<and>
    mset (heap_items (insert_or_bump v c s)) = mset (heap_items s) - {#heap_items s ! i#} + {#(c, v)#}"
proof -
  define t where "t = ensure_index s"
  note t = ensure_index_ok [OF wf, folded t_def]
  have idx: "heap_index t v = Some i" using idx_ok_nth [OF t(1), of i] i t(4) by auto
  let ?xs = "heap_items t" and ?u = "t\<lparr>heap_items := (heap_items t)[i := (c, v)]\<rparr>"
  have ilt: "i < length ?xs" and snd: "snd (?xs ! i) = v" using i t(4) by simp_all
  have ok: "idx_ok ?u"
    using t(1) ilt snd by (auto simp: idx_ok_def nth_list_update)
  have ord: "heap_order ?xs" using t(2) by (simp add: heap_wf_def)
  have shape: "0 < heap_k ?u" "length (heap_items ?u) \<le> heap_k ?u" "index_ready ?u"
    using t(2,3) by (simp_all add: heap_wf_def)
  have ms: "mset (heap_items ?u) = mset (heap_items s) - {#heap_items s ! i#} + {#(c, v)#}"
    using ilt t(4) by (simp add: mset_update)
  have "sifted ?u (insert_or_bump v c s)"
  proof -
    consider "c < fst (?xs ! i)" | "fst (?xs ! i) < c" | "c = fst (?xs ! i)" by force
    then show ?thesis
    proof cases
      case 1
      then show ?thesis
        using sift_up_sifted [OF ok] heap_order_update(1) [OF ord ilt, of c v] idx snd
        by (simp add: insert_or_bump_def t_def [symmetric] Let_def)
    next
      case 2
      then show ?thesis
        using sift_down_sifted [OF ok] heap_order_update(2) [OF ord ilt, of c v] idx snd
        by (simp add: insert_or_bump_def t_def [symmetric] Let_def less_not_sym)
    next
      case 3
      then have "?xs[i := (c, v)] = ?xs" using snd ilt by (metis list_update_id prod.collapse)
      with 3 idx snd ord ok show ?thesis
        by (simp add: insert_or_bump_def t_def [symmetric] Let_def sifted_def)
    qed
  qed
  from sifted_wf [OF this shape] ms t(5) show ?thesis by simp
qed

lemma insert_or_bump_room:
  assumes wf: "heap_wf s" and v: "v \<notin> snd ` set (heap_items s)" and room: "length (heap_items s) < heap_k s"
  shows "heap_wf (insert_or_bump v c s) \<and> heap_k (insert_or_bump v c s) = heap_k s \<and>
    mset (heap_items (insert_or_bump v c s)) = mset (heap_items s) + {#(c, v)#}"
proof -
  define t where "t = ensure_index s"
  note t = ensure_index_ok [OF wf, folded t_def]
  have idx: "heap_index t v = None" using idx_ok_None [OF t(1)] v t(4) by simp
  let ?xs = "heap_items t"
  let ?u = "t\<lparr>heap_items := ?xs @ [(c, v)], heap_index := (heap_index t)(v \<mapsto> length ?xs)\<rparr>"
  have new: "\<forall>j < length ?xs. snd (?xs ! j) \<noteq> v" using v t(4) by (auto simp: image_iff)
  have ok: "idx_ok ?u"
    using t(1) new by (auto simp: idx_ok_def nth_append less_Suc_eq)
  have ord: "heap_order ?xs" using t(2) by (simp add: heap_wf_def)
  have above: "order_above (heap_items ?u) (length ?xs)"
  proof -
    have "fst ((?xs @ [(c, v)]) ! parent j) \<le> fst ((?xs @ [(c, v)]) ! j)" if "j < length ?xs" "0 < j" for j
      using ord that parent_lt [OF that(2)] by (simp add: heap_order_def nth_append)
    moreover have "parent j \<noteq> length ?xs" if "j < Suc (length ?xs)" "0 < j" for j
      using parent_lt [OF that(2)] that(1) by simp
    ultimately show ?thesis by (auto simp: order_above_def less_Suc_eq)
  qed
  have ins: "insert_or_bump v c s = sift_up (length ?xs) ?u"
    using idx room t(4,5) by (simp add: insert_or_bump_def t_def [symmetric] Let_def)
  have "0 < heap_k ?u" "length (heap_items ?u) \<le> heap_k ?u" "index_ready ?u"
    using t room wf by (simp_all add: heap_wf_def)
  from sifted_wf [OF sift_up_sifted [OF ok above] this] t(4,5) show ?thesis
    by (simp add: ins)
qed

lemma insert_or_bump_full:
  assumes wf: "heap_wf s" and v: "v \<notin> snd ` set (heap_items s)" and full: "length (heap_items s) = heap_k s"
  shows "heap_wf (insert_or_bump v c s) \<and> heap_k (insert_or_bump v c s) = heap_k s \<and>
    mset (heap_items (insert_or_bump v c s)) =
      (if fst (heap_items s ! 0) < c then mset (heap_items s) - {#heap_items s ! 0#} + {#(c, v)#}
       else mset (heap_items s))"
proof -
  define t where "t = ensure_index s"
  note t = ensure_index_ok [OF wf, folded t_def]
  have idx: "heap_index t v = None" using idx_ok_None [OF t(1)] v t(4) by simp
  let ?xs = "heap_items t"
  have pos: "0 < length ?xs" using full wf t(4) by (simp add: heap_wf_def)
  show ?thesis
  proof (cases "fst (?xs ! 0) < c")
    case False
    then have "insert_or_bump v c s = t"
      using idx full t(4,5) by (simp add: insert_or_bump_def t_def [symmetric] Let_def)
    with False t show ?thesis by simp
  next
    case True
    let ?u = "t\<lparr>heap_items := ?xs[0 := (c, v)], heap_index := ((heap_index t)(snd (?xs ! 0) := None))(v \<mapsto> 0)\<rparr>"
    have new: "\<forall>j < length ?xs. snd (?xs ! j) \<noteq> v" using v t(4) by (auto simp: image_iff)
    have ok: "idx_ok ?u"
      unfolding idx_ok_def
    proof (intro allI)
      fix w i
      have old: "heap_index t w = Some i \<longleftrightarrow> i < length ?xs \<and> snd (?xs ! i) = w" using t(1) by (simp add: idx_ok_def)
      have root: "heap_index t (snd (?xs ! 0)) = Some 0" using idx_ok_nth [OF t(1) pos] .
      show "heap_index ?u w = Some i \<longleftrightarrow> i < length (heap_items ?u) \<and> snd (heap_items ?u ! i) = w"
      proof (cases "i = 0")
        case True
        then show ?thesis using pos old root new by (cases "w = v") auto
      next
        case False
        then show ?thesis using pos old root new by (cases "w = v") (auto simp: nth_list_update)
      qed
    qed
    have ord: "heap_order ?xs" using t(2) by (simp add: heap_wf_def)
    have below: "order_below (heap_items ?u) 0"
      using heap_order_update(2) [OF ord pos, of c v] True by simp
    have ins: "insert_or_bump v c s = sift_down 0 ?u"
      using idx full True t(4,5) by (simp add: insert_or_bump_def t_def [symmetric] Let_def)
    have "0 < heap_k ?u" "length (heap_items ?u) \<le> heap_k ?u" "index_ready ?u"
      using t wf by (simp_all add: heap_wf_def)
    from sifted_wf [OF sift_down_sifted [OF ok below] this] t(4,5) True pos show ?thesis
      by (simp add: ins mset_update)
  qed
qed

lemma insert_or_bump_wf:
  assumes "heap_wf s"
  shows "heap_wf (insert_or_bump v c s) \<and> heap_k (insert_or_bump v c s) = heap_k s"
proof (cases "v \<in> snd ` set (heap_items s)")
  case True
  then obtain i where "i < length (heap_items s)" "snd (heap_items s ! i) = v"
    unfolding set_map [symmetric] in_set_conv_nth by auto
  then show ?thesis using insert_or_bump_known [OF assms] by blast
next
  case False
  have "length (heap_items s) < heap_k s \<or> length (heap_items s) = heap_k s"
    using assms by (auto simp: heap_wf_def)
  then show ?thesis
    using insert_or_bump_room [OF assms False] insert_or_bump_full [OF assms False] by blast
qed

section \<open>Properties\<close>

text \<open>The count-min sketch never underestimates: after updates with non-negative weights
  adding up to less than the largest \<open>i64\<close>, the estimate of a hash is at least the weight given
  to it and at most the weight given to all, for every admissible width and depth.\<close>

lemma cms_never_underestimates:
  assumes "cms_new w d = Some e" and "\<forall>(h, x) \<in> set us. 0 \<le> x" and "(\<Sum>(h, x)\<leftarrow>us. x) < i64_max"
  shows "true_weight h us \<le> cms_estimate (cms_run us e) h \<and> cms_estimate (cms_run us e) h \<le> (\<Sum>(h, x)\<leftarrow>us. x)"
  using cms_estimate_bounds [OF _ _ assms(2,3)] assms(1) by (auto simp: cms_new_def split: if_splits)

text \<open>C33. The indexed top-k heap: every insertion keeps the heap order, the size bound and the
  consistency of the side index; a known value gets the new count, a new value is added while
  there is room, and at capacity it replaces a minimal entry exactly when its count is larger.\<close>

theorem topk_heap_insert:
  assumes "heap_wf s" and "s' = insert_or_bump v c s"
  shows "heap_wf s' \<and> heap_k s' = heap_k s \<and>
    (\<forall>i < length (heap_items s). snd (heap_items s ! i) = v \<longrightarrow>
       mset (heap_items s') = mset (heap_items s) - {#heap_items s ! i#} + {#(c, v)#}) \<and>
    (v \<notin> snd ` set (heap_items s) \<longrightarrow>
       (if length (heap_items s) < heap_k s then mset (heap_items s') = mset (heap_items s) + {#(c, v)#}
        else \<exists>m \<in> set (heap_items s). (\<forall>x \<in> set (heap_items s). fst m \<le> fst x) \<and>
          mset (heap_items s') =
            (if fst m < c then mset (heap_items s) - {#m#} + {#(c, v)#} else mset (heap_items s))))"
proof -
  have ne: "heap_items s \<noteq> []" if "\<not> length (heap_items s) < heap_k s"
    using that assms(1) by (auto simp: heap_wf_def)
  have least: "\<forall>x \<in> set (heap_items s). fst (heap_items s ! 0) \<le> fst x"
  proof
    fix x assume "x \<in> set (heap_items s)"
    then obtain i where "i < length (heap_items s)" "heap_items s ! i = x" by (auto simp: in_set_conv_nth)
    then show "fst (heap_items s ! 0) \<le> fst x"
      using heap_min [of "heap_items s" i] assms(1) by (simp add: heap_wf_def)
  qed
  have full: "length (heap_items s) = heap_k s" if "\<not> length (heap_items s) < heap_k s"
    using that assms(1) by (simp add: heap_wf_def)
  show ?thesis
    unfolding assms(2)
    using insert_or_bump_wf [OF assms(1), of v c] insert_or_bump_known [OF assms(1), of _ v c]
      insert_or_bump_room [OF assms(1), of v c] insert_or_bump_full [OF assms(1) _ full, of v c]
    by (auto intro!: bexI [of _ "heap_items s ! 0"] simp: ne dest: bspec [OF least])
qed

theorem topk_heap_insert_witness:
  "heap_wf (insert_or_bump (TKInt 5) 3 (heap_new 2))"
  using topk_heap_insert [OF heap_wf_new refl, of "TKInt 5" 3 2] by blast

end
