(* ===== verification/TopK.thy ===== *)
theory TopK
  imports Cms
begin

text \<open>
  The two-mode heavy-hitter state of \<open>crates/beava-core/src/sketches/top_k.rs\<close> and its operator
  state \<open>TopKStateWrap\<close> of \<open>crates/beava-core/src/agg_state.rs\<close>. The exact mode is a
  \<open>BTreeMap\<close> from values to counts (an association list sorted by key); above its threshold of
  distinct values it is replaced by a count-min sketch and a bounded heap. The seeded hash of
  the ahash package is the parameter \<open>h64\<close>; building a sketch of an inadmissible shape is an
  assertion of the source, here \<open>None\<close>.

  The lemmas show that the exact mode is exact, that merging exact states is the state of
  both streams, and that the hybrid mode overcounts only: a reported count is never below the
  true count and a value that is not reported is never heavier than a reported one
  (\<open>tracked\<close>, kept by every step).
\<close>

section \<open>State and operations\<close>

datatype TopKState =
    TKExact "(TopKValue \<times> u64) list" nat nat nat nat
  | TKHybrid CountMinSketch TopKHeap nat

definition topk_new :: "nat \<Rightarrow> nat \<Rightarrow> nat \<Rightarrow> nat \<Rightarrow> TopKState" where
  "topk_new k exact_threshold hybrid_width hybrid_depth =
     TKExact [] (max k 1) (max exact_threshold 2) hybrid_width hybrid_depth"

definition est64 :: "CountMinSketch \<Rightarrow> u64 \<Rightarrow> u64" where
  "est64 cms h = of_int (max (cms_estimate cms h) 0)"

definition heap_put :: "(TopKValue \<Rightarrow> u64) \<Rightarrow> CountMinSketch \<Rightarrow> TopKValue \<Rightarrow> TopKHeap \<Rightarrow> TopKHeap" where
  "heap_put h64 cms v heap = insert_or_bump v (est64 cms (h64 v)) heap"

text \<open>Folding exact counts into a sketch: one update per key, in key order.\<close>

definition cms_add_counts :: "(TopKValue \<Rightarrow> u64) \<Rightarrow> (TopKValue \<times> u64) list \<Rightarrow> CountMinSketch \<Rightarrow> CountMinSketch" where
  "cms_add_counts h64 counts cms = fold (\<lambda>(v, c). cms_update (h64 v) (sint c)) counts cms"

definition promote_to_hybrid :: "(TopKValue \<Rightarrow> u64) \<Rightarrow> TopKState \<Rightarrow> TopKState option" where
  "promote_to_hybrid h64 st =
     (case st of
        TKHybrid _ _ _ \<Rightarrow> Some st
      | TKExact counts k threshold w d \<Rightarrow>
          (case cms_new w d of
             None \<Rightarrow> None
           | Some cms0 \<Rightarrow>
               (let cms = cms_add_counts h64 counts cms0;
                    heap = fold (\<lambda>(v, c). heap_put h64 cms v) counts (heap_new k)
                in Some (TKHybrid cms heap k))))"

definition promote_if_wide :: "(TopKValue \<Rightarrow> u64) \<Rightarrow> TopKState \<Rightarrow> TopKState option" where
  "promote_if_wide h64 st =
     (case st of
        TKExact counts k threshold w d \<Rightarrow> if threshold < length counts then promote_to_hybrid h64 st else Some st
      | TKHybrid _ _ _ \<Rightarrow> Some st)"

definition topk_insert :: "(TopKValue \<Rightarrow> u64) \<Rightarrow> TopKValue \<Rightarrow> TopKState \<Rightarrow> TopKState option" where
  "topk_insert h64 v st =
     (case st of
        TKExact counts k threshold w d \<Rightarrow>
          promote_if_wide h64 (TKExact (btree_upsert v (\<lambda>c. c + 1) 1 counts) k threshold w d)
      | TKHybrid cms heap k \<Rightarrow>
          (let cms' = cms_insert (h64 v) cms in Some (TKHybrid cms' (heap_put h64 cms' v heap) k)))"

definition topk_top :: "TopKState \<Rightarrow> (TopKValue \<times> u64) list" where
  "topk_top st =
     (case st of
        TKExact counts k threshold w d \<Rightarrow> take k (top_sort counts)
      | TKHybrid cms heap k \<Rightarrow> heap_top heap)"

definition add_counts :: "(TopKValue \<times> u64) list \<Rightarrow> (TopKValue \<times> u64) list \<Rightarrow> (TopKValue \<times> u64) list" where
  "add_counts s other = fold (\<lambda>(v, n). btree_upsert v (\<lambda>c. c + n) n) other s"

definition refresh_heap :: "(TopKValue \<Rightarrow> u64) \<Rightarrow> CountMinSketch \<Rightarrow> TopKValue list \<Rightarrow> TopKHeap \<Rightarrow> TopKHeap" where
  "refresh_heap h64 cms vs heap = fold (heap_put h64 cms) vs (fold (heap_put h64 cms) (map fst (heap_top heap)) heap)"

fun merge_same_mode :: "(TopKValue \<Rightarrow> u64) \<Rightarrow> TopKState \<Rightarrow> TopKState \<Rightarrow> TopKState option" where
  "merge_same_mode h64 (TKExact s k t w d) (TKExact other _ _ _ _) = Some (TKExact (add_counts s other) k t w d)"
| "merge_same_mode h64 (TKHybrid cms heap k) (TKExact other _ _ _ _) =
     (let cms' = cms_add_counts h64 other cms
      in Some (TKHybrid cms' (refresh_heap h64 cms' (map fst other) heap) k))"
| "merge_same_mode h64 (TKHybrid cms heap k) (TKHybrid o_cms o_heap _) =
     (case cms_merge cms o_cms of
        None \<Rightarrow> None
      | Some cms' \<Rightarrow> Some (TKHybrid cms' (refresh_heap h64 cms' (map fst (heap_top o_heap)) heap) k))"
| "merge_same_mode h64 (TKExact _ _ _ _ _) (TKHybrid _ _ _) = None"

definition is_exact :: "TopKState \<Rightarrow> bool" where
  "is_exact st \<longleftrightarrow> (case st of TKExact _ _ _ _ _ \<Rightarrow> True | TKHybrid _ _ _ \<Rightarrow> False)"

definition topk_merge :: "(TopKValue \<Rightarrow> u64) \<Rightarrow> TopKState \<Rightarrow> TopKState \<Rightarrow> TopKState option" where
  "topk_merge h64 st other =
     (case (if is_exact st \<and> \<not> is_exact other then promote_to_hybrid h64 st else Some st) of
        None \<Rightarrow> None
      | Some st' \<Rightarrow>
          (case merge_same_mode h64 st' other of
             None \<Rightarrow> None
           | Some merged \<Rightarrow> promote_if_wide h64 merged))"

section \<open>Operator state\<close>

record TopKStateWrap =
  topk_inner :: TopKState

definition topk_default :: TopKStateWrap where
  "topk_default = \<lparr>topk_inner = topk_new 10 1024 2048 4\<rparr>"

definition topk_value_of :: "Value \<Rightarrow> TopKValue option" where
  "topk_value_of v =
     (case v of
        VStr s \<Rightarrow> Some (TKStr s)
      | VI64 n \<Rightarrow> Some (TKInt n)
      | VF64 f \<Rightarrow> Some (TKFloat (canon_float f))
      | VBool b \<Rightarrow> Some (TKBool b)
      | VDatetime ms \<Rightarrow> Some (TKInt ms)
      | _ \<Rightarrow> None)"

definition topk_update_pre :: "(TopKValue \<Rightarrow> u64) \<Rightarrow> TopKStateWrap \<Rightarrow> Value option \<Rightarrow> bool \<Rightarrow> TopKStateWrap option" where
  "topk_update_pre h64 s pre_val where_matched =
     (if \<not> where_matched then Some s
      else case pre_val of
        None \<Rightarrow> Some s
      | Some v \<Rightarrow>
          (case topk_value_of v of
             None \<Rightarrow> Some s
           | Some tkv \<Rightarrow> map_option (\<lambda>st. s\<lparr>topk_inner := st\<rparr>) (topk_insert h64 tkv (topk_inner s))))"

definition topk_update :: "(TopKValue \<Rightarrow> u64) \<Rightarrow> TopKStateWrap \<Rightarrow> Row \<Rightarrow> int \<Rightarrow> string option \<Rightarrow> bool \<Rightarrow> TopKStateWrap option" where
  "topk_update h64 s row now_ms field where_matched =
     (if \<not> where_matched then Some s
      else case field of
        None \<Rightarrow> Some s
      | Some fname \<Rightarrow>
          (case row_get row fname of
             None \<Rightarrow> Some s
           | Some v \<Rightarrow>
               (case topk_value_of v of
                  None \<Rightarrow> Some s
                | Some tkv \<Rightarrow> map_option (\<lambda>st. s\<lparr>topk_inner := st\<rparr>) (topk_insert h64 tkv (topk_inner s)))))"

definition json_u64 :: "u64 \<Rightarrow> Json" where
  "json_u64 c = JNumber (if uint c \<le> i64_max then Some (uint c) else None) (Some (f64_of_int (uint c)))"

definition topk_query :: "TopKStateWrap \<Rightarrow> Value" where
  "topk_query s =
     VJson (JArray (map (\<lambda>(v, c). JObject [(''count'', json_u64 c), (''value'', topk_to_json v)]) (topk_top (topk_inner s))))"

lemma topk_update_pre_agrees:
  "topk_update h64 s row t field m = topk_update_pre h64 s (field_value row field) m"
  by (simp add: topk_update_def topk_update_pre_def field_value_def split: option.splits)

section \<open>The heap as a set of entries\<close>

lemma heap_wf_distinct: "heap_wf s \<Longrightarrow> distinct (heap_items s)"
  by (auto simp: heap_wf_def distinct_map)

lemma heap_unique:
  assumes "heap_wf s" and "(c, v) \<in> set (heap_items s)" and "(c', v) \<in> set (heap_items s)"
  shows "c = c'"
proof -
  have "inj_on snd (set (heap_items s))" using assms(1) by (simp add: heap_wf_def distinct_map)
  from inj_onD [OF this _ assms(2,3)] show ?thesis by simp
qed

lemma set_mset_remove: "distinct xs \<Longrightarrow> set_mset (mset xs - {#x#}) = set xs - {x}"
  by (metis mset_remove1 set_mset_mset set_remove1_eq)

lemma set_of_mset_eq: "mset xs = M \<Longrightarrow> set xs = set_mset M"
  by auto

lemma heap_set_known:
  assumes "heap_wf s" and "(c0, v) \<in> set (heap_items s)"
  shows "set (heap_items (insert_or_bump v c s)) = insert (c, v) (set (heap_items s) - {(c0, v)})"
    and "length (heap_items (insert_or_bump v c s)) = length (heap_items s)"
proof -
  from assms(2) obtain i where i: "i < length (heap_items s)" "heap_items s ! i = (c0, v)"
    by (auto simp: in_set_conv_nth)
  have m: "mset (heap_items (insert_or_bump v c s)) = mset (heap_items s) - {#(c0, v)#} + {#(c, v)#}"
    using insert_or_bump_known [OF assms(1) i(1), of v c] i(2) by simp
  from set_of_mset_eq [OF this]
  show "set (heap_items (insert_or_bump v c s)) = insert (c, v) (set (heap_items s) - {(c0, v)})"
    by (simp add: set_mset_remove heap_wf_distinct assms(1))
  show "length (heap_items (insert_or_bump v c s)) = length (heap_items s)"
    using arg_cong [OF m, of size] assms(2) by (cases "heap_items s") (auto simp: size_Diff_singleton)
qed

lemma heap_set_room:
  assumes "heap_wf s" and "v \<notin> snd ` set (heap_items s)" and "length (heap_items s) < heap_k s"
  shows "set (heap_items (insert_or_bump v c s)) = insert (c, v) (set (heap_items s))"
  using insert_or_bump_room [OF assms, of c] set_of_mset_eq [of "heap_items (insert_or_bump v c s)"] by simp

lemma heap_root_least:
  assumes "heap_wf s" and "(c, v) \<in> set (heap_items s)"
  shows "fst (heap_items s ! 0) \<le> c"
proof -
  from assms(2) obtain i where "i < length (heap_items s)" "heap_items s ! i = (c, v)"
    by (auto simp: in_set_conv_nth)
  then show ?thesis using heap_min [of "heap_items s" i] assms(1) by (simp add: heap_wf_def)
qed

lemma heap_root_in: "heap_wf s \<Longrightarrow> length (heap_items s) = heap_k s \<Longrightarrow> heap_items s ! 0 \<in> set (heap_items s)"
  by (auto simp: heap_wf_def)

lemma heap_set_full:
  assumes "heap_wf s" and "v \<notin> snd ` set (heap_items s)" and "length (heap_items s) = heap_k s"
  shows "set (heap_items (insert_or_bump v c s)) =
      (if fst (heap_items s ! 0) < c then insert (c, v) (set (heap_items s) - {heap_items s ! 0}) else set (heap_items s))"
    and "length (heap_items (insert_or_bump v c s)) = length (heap_items s)"
proof -
  note m = insert_or_bump_full [OF assms, of c, THEN conjunct2, THEN conjunct2]
  from set_of_mset_eq [OF m]
  show "set (heap_items (insert_or_bump v c s)) =
      (if fst (heap_items s ! 0) < c then insert (c, v) (set (heap_items s) - {heap_items s ! 0}) else set (heap_items s))"
    by (simp add: set_mset_remove heap_wf_distinct assms(1))
  show "length (heap_items (insert_or_bump v c s)) = length (heap_items s)"
    using arg_cong [OF m, of size] heap_root_in [OF assms(1,3)] by (cases "heap_items s") (auto simp: size_Diff_singleton split: if_splits)
qed

section \<open>Heavy hitters\<close>

text \<open>With true counts \<open>tc\<close>, current estimates \<open>est\<close> and the values \<open>S\<close> seen so far: every entry
  lies between the true count and the current estimate of its value, and a seen value that has no entry
  is no heavier than any entry of a full heap.\<close>

definition tracked :: "(TopKValue \<Rightarrow> nat) \<Rightarrow> (TopKValue \<Rightarrow> u64) \<Rightarrow> TopKValue set \<Rightarrow> TopKHeap \<Rightarrow> bool" where
  "tracked tc est S heap \<longleftrightarrow>
     heap_wf heap \<and>
     (\<forall>c v. (c, v) \<in> set (heap_items heap) \<longrightarrow> v \<in> S \<and> tc v \<le> unat c \<and> c \<le> est v) \<and>
     (\<forall>v \<in> S. v \<notin> snd ` set (heap_items heap) \<longrightarrow>
        length (heap_items heap) = heap_k heap \<and> (\<forall>c w. (c, w) \<in> set (heap_items heap) \<longrightarrow> tc v \<le> unat c))"

lemma tracked_new: "tracked tc est {} (heap_new k)"
  by (simp add: tracked_def) (simp add: heap_new_def)

lemma tracked_step:
  assumes tr: "tracked tc est S heap" and tc': "\<And>w. w \<noteq> v \<Longrightarrow> tc' w = tc w"
    and mono: "\<And>w. est w \<le> est' w" and up: "tc' v \<le> unat (est' v)"
  shows "tracked tc' est' (insert v S) (insert_or_bump v (est' v) heap)"
proof -
  let ?h = "insert_or_bump v (est' v) heap"
  have wf: "heap_wf heap" using tr by (simp add: tracked_def)
  have entry: "\<And>c w. (c, w) \<in> set (heap_items heap) \<Longrightarrow> w \<in> S \<and> tc w \<le> unat c \<and> c \<le> est' w"
    using tr mono by (auto simp: tracked_def intro: order.trans)
  have out: "\<And>w c u. w \<in> S \<Longrightarrow> w \<notin> snd ` set (heap_items heap) \<Longrightarrow> (c, u) \<in> set (heap_items heap) \<Longrightarrow> tc w \<le> unat c"
    and full: "\<And>w. w \<in> S \<Longrightarrow> w \<notin> snd ` set (heap_items heap) \<Longrightarrow> length (heap_items heap) = heap_k heap"
    using tr unfolding tracked_def by blast+
  note wf' = insert_or_bump_wf [OF wf, of v "est' v"]
  consider (known) c0 where "(c0, v) \<in> set (heap_items heap)"
    | (room) "v \<notin> snd ` set (heap_items heap)" "length (heap_items heap) < heap_k heap"
    | (full) "v \<notin> snd ` set (heap_items heap)" "length (heap_items heap) = heap_k heap"
    using wf by (force simp: heap_wf_def)
  then show ?thesis
  proof cases
    case known
    have ge: "unat c0 \<le> unat (est' v)" using entry [OF known] by (simp add: word_le_nat_alt)
    have set': "set (heap_items ?h) = insert (est' v, v) (set (heap_items heap) - {(c0, v)})"
      and len: "length (heap_items ?h) = length (heap_items heap)"
      using heap_set_known [OF wf known] by blast+
    have keys: "snd ` set (heap_items ?h) = snd ` set (heap_items heap)"
      using known unfolding set' by force
    have e: "w \<in> insert v S \<and> tc' w \<le> unat c \<and> c \<le> est' w" if "(c, w) \<in> set (heap_items ?h)" for c w
      using that entry [of c w] up tc' [of w] heap_unique [OF wf known, of c] by (cases "w = v") (auto simp: set')
    have o: "tc' w \<le> unat c" if w: "w \<in> insert v S" "w \<notin> snd ` set (heap_items ?h)" and c: "(c, u) \<in> set (heap_items ?h)" for w c u
    proof -
      have "w \<noteq> v" using w known by (force simp: keys)
      then have "w \<in> S" "tc' w = tc w" using w tc' by auto
      moreover have "(c, u) \<in> set (heap_items heap) \<or> c = est' v" using c by (auto simp: set')
      ultimately show ?thesis using out [of w c u] out [of w c0 v] w known ge by (auto simp: keys)
    qed
    have f: "length (heap_items ?h) = heap_k ?h" if w: "w \<in> insert v S" "w \<notin> snd ` set (heap_items ?h)" for w
      using w full [of w] known len wf' by (force simp: keys)
    show ?thesis using wf' e o f by (simp add: tracked_def)
  next
    case room
    have set': "set (heap_items ?h) = insert (est' v, v) (set (heap_items heap))"
      by (rule heap_set_room [OF wf room])
    have all: "w \<in> snd ` set (heap_items heap)" if "w \<in> S" for w
      using full [OF that] room(2) by auto
    have e: "w \<in> insert v S \<and> tc' w \<le> unat c \<and> c \<le> est' w" if "(c, w) \<in> set (heap_items ?h)" for c w
      using that entry [of c w] up tc' [of w] room(1) by (cases "w = v") (force simp: set')+
    have "w \<in> snd ` set (heap_items ?h)" if "w \<in> insert v S" for w
      using that all by (auto simp: set')
    with wf' e show ?thesis by (simp add: tracked_def)
  next
    case full
    let ?root = "heap_items heap ! 0"
    note sets = heap_set_full [OF wf full, of "est' v"] and root = heap_root_in [OF wf full(2)]
    have least: "unat (fst ?root) \<le> unat c" if "(c, u) \<in> set (heap_items heap)" for c u
      using heap_root_least [OF wf that] by (simp add: word_le_nat_alt)
    have root_tc: "tc w \<le> unat (fst ?root)" if "w \<in> S" "w \<notin> snd ` set (heap_items heap) \<or> w = snd ?root" for w
      using that out [of w "fst ?root" "snd ?root"] entry [of "fst ?root" "snd ?root"] root by auto
    have e: "w \<in> insert v S \<and> tc' w \<le> unat c \<and> c \<le> est' w" if "(c, w) \<in> set (heap_items ?h)" for c w
      using that entry [of c w] up tc' [of w] full(1) by (cases "w = v") (force simp: sets(1) split: if_splits)+
    have o: "tc' w \<le> unat c" if w: "w \<in> insert v S" "w \<notin> snd ` set (heap_items ?h)" and c: "(c, u) \<in> set (heap_items ?h)" for w c u
    proof (cases "w = v")
      case True
      then have small: "\<not> fst ?root < est' v" using w by (auto simp: sets(1))
      then have "unat (est' v) \<le> unat (fst ?root)" by (simp add: word_less_nat_alt)
      moreover have "(c, u) \<in> set (heap_items heap)" using c small by (simp add: sets(1))
      ultimately show ?thesis using least [of c u] up True by simp
    next
      case False
      have w_out: "w \<notin> snd ` set (heap_items heap) \<or> w = snd ?root"
      proof (rule ccontr)
        assume a: "\<not> ?thesis"
        then obtain x where x: "x \<in> set (heap_items heap)" "snd x = w" by auto
        with a have "x \<in> set (heap_items ?h)" by (auto simp: sets(1))
        with x(2) w(2) show False by auto
      qed
      have "unat (fst ?root) \<le> unat c"
        using c least [of c u] by (auto simp: sets(1) word_less_nat_alt split: if_splits)
      then show ?thesis using root_tc [OF _ w_out] w False tc' [of w] by simp
    qed
    show ?thesis using wf' e o full(2) sets(2) by (simp add: tracked_def)
  qed
qed

lemma tracked_promotion:
  assumes "tracked tc est S heap" and "\<And>v. v \<in> set vs \<Longrightarrow> tc v \<le> unat (est v)"
  shows "tracked tc est (set vs \<union> S) (fold (\<lambda>v. insert_or_bump v (est v)) vs heap)"
  using assms
proof (induction vs arbitrary: S heap)
  case Nil
  then show ?case by simp
next
  case (Cons v vs)
  have "tracked tc est (insert v S) (insert_or_bump v (est v) heap)"
    using tracked_step [OF Cons.prems(1), of v tc est] Cons.prems(2) by simp
  from Cons.IH [OF this] Cons.prems(2) show ?case by simp
qed

lemma heap_k_fold: "heap_wf heap \<Longrightarrow> heap_k (fold (\<lambda>v. insert_or_bump v (est v)) vs heap) = heap_k heap"
  by (induction vs arbitrary: heap) (simp_all add: insert_or_bump_wf)

section \<open>Exact mode\<close>

definition exact_counts :: "TopKValue list \<Rightarrow> (TopKValue \<times> u64) list \<Rightarrow> bool" where
  "exact_counts us counts \<longleftrightarrow> btree_wf counts \<and>
     map_of counts = (\<lambda>v. if v \<in> set us then Some (of_nat (count_list us v)) else None)"

lemma exact_counts_Nil [simp]: "exact_counts [] []"
  by (simp add: exact_counts_def fun_eq_iff)

lemma exact_counts_insert:
  assumes "exact_counts us counts"
  shows "exact_counts (us @ [v]) (btree_upsert v (\<lambda>c. c + 1) 1 counts)"
  using assms by (auto simp: exact_counts_def btree_wf_upsert map_of_btree_upsert fun_eq_iff split: option.splits)

lemma exact_counts_add:
  assumes "exact_counts us s" and "exact_counts vs other"
  shows "exact_counts (us @ vs) (add_counts s other)"
proof -
  have "btree_wf other \<Longrightarrow> btree_wf s \<Longrightarrow> btree_wf (add_counts s other) \<and>
     map_of (add_counts s other) = (\<lambda>v. case map_of other v of
         None \<Rightarrow> map_of s v
       | Some n \<Rightarrow> Some (case map_of s v of None \<Rightarrow> n | Some c \<Rightarrow> c + n))"
  proof (induction other arbitrary: s)
    case Nil
    then show ?case by (simp add: add_counts_def)
  next
    case (Cons p other)
    obtain u n where p: "p = (u, n)" by (cases p)
    have wf: "btree_wf other" "map_of other u = None"
      using Cons.prems(1) by (auto simp: p btree_wf_Cons map_of_eq_None_iff)
    have eq: "add_counts s ((u, n) # other) = add_counts (btree_upsert u (\<lambda>c. c + n) n s) other"
      by (simp add: add_counts_def)
    note IH = Cons.IH [OF wf(1) btree_wf_upsert [OF Cons.prems(2), of u "\<lambda>c. c + n" n]]
    show ?case
      unfolding p eq IH [THEN conjunct2] map_of_btree_upsert [OF Cons.prems(2)]
      using IH wf(2) by (auto simp: fun_eq_iff split: option.splits)
  qed
  with assms show ?thesis by (auto simp: exact_counts_def fun_eq_iff)
qed

lemma exact_counts_keys: "exact_counts us counts \<Longrightarrow> fst ` set counts = set us"
  unfolding dom_map_of_conv_image_fst [symmetric] by (auto simp: exact_counts_def split: if_splits)

lemma exact_counts_length: "exact_counts us counts \<Longrightarrow> length counts = card (set us)"
  using exact_counts_keys distinct_card [of "keys counts"] by (fastforce simp: exact_counts_def btree_wf_distinct)

lemma exact_counts_mem: "exact_counts us counts \<Longrightarrow> (v, c) \<in> set counts \<longleftrightarrow> v \<in> set us \<and> c = of_nat (count_list us v)"
  unfolding exact_counts_def by (subst map_of_eq_Some_iff [symmetric]) (auto simp: btree_wf_distinct)

section \<open>Runs\<close>

definition hybrid_ok :: "(TopKValue \<Rightarrow> u64) \<Rightarrow> nat \<Rightarrow> nat \<Rightarrow> nat \<Rightarrow> TopKValue list \<Rightarrow> CountMinSketch \<Rightarrow> TopKHeap \<Rightarrow> bool" where
  "hybrid_ok h64 k w d us cms heap \<longleftrightarrow>
     heap_k heap = k \<and> tracked (count_list us) (\<lambda>v. est64 cms (h64 v)) (set us) heap \<and>
     (\<exists>ws. cms = cms_run ws (cms_empty w d) \<and> (\<forall>(h, e) \<in> set ws. 0 \<le> e) \<and> (\<Sum>(h, e)\<leftarrow>ws. e) = int (length us) \<and>
        (\<forall>v. int (count_list us v) \<le> true_weight (h64 v) ws))"

lemma est64_bounds:
  assumes "0 < w" and "0 < d" and "\<forall>(h, e) \<in> set ws. 0 \<le> e" and "(\<Sum>(h, e)\<leftarrow>ws. e) = int n" and "int n < i64_max"
  shows "int (unat (est64 (cms_run ws (cms_empty w d)) h)) = cms_estimate (cms_run ws (cms_empty w d)) h"
    and "unat (est64 (cms_run ws (cms_empty w d)) h) \<le> n"
proof -
  let ?e = "cms_estimate (cms_run ws (cms_empty w d)) h"
  have "0 \<le> true_weight h ws" using assms(3) by (fastforce simp: true_weight_def intro!: sum_list_nonneg)
  then have e: "0 \<le> ?e" "?e \<le> int n"
    using cms_estimate_bounds [OF assms(1-3), of h] assms(4,5) by auto
  have "uint (word_of_int ?e :: u64) = ?e"
    using e assms(5) by (simp add: uint_word_of_int_eq take_bit_int_eq_self)
  then show eq: "int (unat (est64 (cms_run ws (cms_empty w d)) h)) = ?e"
    using e by (simp add: est64_def max_absorb1)
  then show "unat (est64 (cms_run ws (cms_empty w d)) h) \<le> n" using e(2) by linarith
qed

lemma hybrid_insert:
  assumes "0 < w" and "0 < d" and "hybrid_ok h64 k w d us cms heap" and "int (length us) + 1 < i64_max"
  shows "hybrid_ok h64 k w d (us @ [v]) (cms_insert (h64 v) cms) (heap_put h64 (cms_insert (h64 v) cms) v heap)"
proof -
  from assms(3) obtain ws where ws: "cms = cms_run ws (cms_empty w d)" "\<forall>(h, e) \<in> set ws. 0 \<le> e"
      "(\<Sum>(h, e)\<leftarrow>ws. e) = int (length us)" "\<And>v. int (count_list us v) \<le> true_weight (h64 v) ws"
    and heap: "heap_k heap = k" "tracked (count_list us) (\<lambda>v. est64 cms (h64 v)) (set us) heap"
    by (auto simp: hybrid_ok_def)
  let ?ws = "ws @ [(h64 v, 1)]" and ?us = "us @ [v]"
  define cms' where "cms' = cms_insert (h64 v) cms"
  have cms': "cms' = cms_run ?ws (cms_empty w d)" by (simp add: cms'_def ws(1) cms_run_def cms_insert_def)
  have ws': "\<forall>(h, e) \<in> set ?ws. 0 \<le> e" "(\<Sum>(h, e)\<leftarrow>?ws. e) = int (length ?us)" using ws(2,3) by auto
  have weight: "int (count_list ?us u) \<le> true_weight (h64 u) ?ws" for u
    using ws(4) [of u] by (simp add: true_weight_def)
  have lt: "int (length us) < i64_max" "int (length ?us) < i64_max" using assms(4) by simp_all
  note eb = est64_bounds [OF assms(1,2) ws(2,3) lt(1), folded ws(1)] and eb' = est64_bounds [OF assms(1,2) ws' lt(2), folded cms']
  have mono: "est64 cms h \<le> est64 cms' h" for h
  proof -
    have "cms_estimate cms h \<le> cms_estimate cms' h"
      unfolding ws(1) cms' using ws' lt by (intro cms_estimate_mono assms(1,2)) auto
    then show ?thesis using eb(1) [of h] eb'(1) [of h] by (simp add: word_le_def)
  qed
  have "true_weight (h64 v) ?ws \<le> cms_estimate cms' (h64 v)"
    unfolding cms' using ws' lt by (intro cms_estimate_bounds assms(1,2)) auto
  then have "count_list ?us v \<le> unat (est64 cms' (h64 v))"
    using weight [of v] eb'(1) [of "h64 v"] by linarith
  with tracked_step [OF heap(2), of v "count_list ?us" "\<lambda>v. est64 cms' (h64 v)"] mono
  have "tracked (count_list ?us) (\<lambda>v. est64 cms' (h64 v)) (set ?us) (heap_put h64 cms' v heap)"
    by (simp add: heap_put_def)
  moreover have "heap_k (heap_put h64 cms' v heap) = k"
    using heap insert_or_bump_wf [of heap v] by (simp add: heap_put_def tracked_def)
  ultimately show ?thesis
    using cms' ws' weight unfolding hybrid_ok_def cms'_def [symmetric] by blast
qed

lemma sint_small: "n < 2 ^ 63 \<Longrightarrow> sint (of_nat n :: u64) = int n"
  by (simp add: sint_uint uint_nat unat_of_nat signed_take_bit_int_eq_self)

lemma hybrid_promotion:
  assumes "0 < k" and "cms_new w d = Some cms0" and "exact_counts us counts" and "int (length us) < i64_max"
  shows "\<exists>cms heap. promote_to_hybrid h64 (TKExact counts k t w d) = Some (TKHybrid cms heap k) \<and> hybrid_ok h64 k w d us cms heap"
proof -
  let ?ws = "map (\<lambda>(v, c). (h64 v, sint c)) counts"
  define cms where "cms = cms_add_counts h64 counts cms0"
  define heap where "heap = fold (\<lambda>v. insert_or_bump v (est64 cms (h64 v))) (map fst counts) (heap_new k)"
  have wd: "0 < w" "0 < d" "cms0 = cms_empty w d" using assms(2) by (auto simp: cms_new_def split: if_splits)
  have le: "count_list us v \<le> length us" for v by (rule count_le_length)
  have val: "sint c = int (count_list us v)" if "(v, c) \<in> set counts" for v c
    using that le [of v] assms(4) by (auto simp: exact_counts_mem [OF assms(3)] sint_small)
  have cms: "cms = cms_run ?ws (cms_empty w d)"
    by (simp add: cms_def cms_add_counts_def cms_run_def wd(3) fold_map comp_def case_prod_unfold)
  have nonneg: "\<forall>(h, e) \<in> set ?ws. 0 \<le> e" using val by fastforce
  have "(\<Sum>(v, c)\<leftarrow>counts. sint c) = (\<Sum>v\<leftarrow>map fst counts. int (count_list us v))"
    using val by (auto intro!: arg_cong [of _ _ sum_list] simp: comp_def)
  also have "\<dots> = (\<Sum>v \<in> set us. int (count_list us v))"
    using assms(3) exact_counts_keys [OF assms(3)]
    by (subst sum_list_distinct_conv_sum_set) (simp_all add: exact_counts_def btree_wf_distinct)
  also have "\<dots> = int (length us)" by (simp add: sum_count_set flip: of_nat_sum)
  finally have sum: "(\<Sum>(h, e)\<leftarrow>?ws. e) = int (length us)" by (simp add: comp_def case_prod_unfold)
  have weight: "int (count_list us v) \<le> true_weight (h64 v) ?ws" for v
  proof (cases "v \<in> set us")
    case True
    then have m: "(v, of_nat (count_list us v)) \<in> set counts" by (simp add: exact_counts_mem [OF assms(3)])
    have "sint (of_nat (count_list us v) :: u64) \<in> set (map (\<lambda>(h', e). if h' = h64 v then e else 0) ?ws)"
      using m by force
    then have "sint (of_nat (count_list us v) :: u64) \<le> true_weight (h64 v) ?ws"
      unfolding true_weight_def using nonneg by (intro member_le_sum_list) auto
    then show ?thesis using val [OF m] by simp
  qed (use nonneg in \<open>fastforce simp: true_weight_def intro!: sum_list_nonneg\<close>)
  have "count_list us v \<le> unat (est64 cms (h64 v))" for v
    using est64_bounds(1) [OF wd(1,2) nonneg sum assms(4), of "h64 v", folded cms]
      cms_estimate_bounds(1) [OF wd(1,2) nonneg, of "h64 v", folded cms] weight [of v] sum assms(4) by linarith
  then have "tracked (count_list us) (\<lambda>v. est64 cms (h64 v)) (set us) heap"
    using tracked_promotion [OF tracked_new, of "map fst counts" "count_list us" "\<lambda>v. est64 cms (h64 v)" k]
      exact_counts_keys [OF assms(3)] by (simp add: heap_def)
  moreover have "heap_k heap = k"
    using heap_k_fold [OF heap_wf_new, of _ _ k] assms(1) by (simp add: heap_def) (simp add: heap_new_def)
  ultimately have "hybrid_ok h64 k w d us cms heap"
    using cms nonneg sum weight unfolding hybrid_ok_def by blast
  moreover have "promote_to_hybrid h64 (TKExact counts k t w d) = Some (TKHybrid cms heap k)"
    using assms(2) by (simp add: promote_to_hybrid_def cms_def heap_def Let_def fold_map comp_def heap_put_def [abs_def] case_prod_unfold)
  ultimately show ?thesis by blast
qed

text \<open>The state after a stream: exact up to the threshold of distinct values, hybrid above.\<close>

definition topk_ok :: "(TopKValue \<Rightarrow> u64) \<Rightarrow> nat \<Rightarrow> nat \<Rightarrow> nat \<Rightarrow> nat \<Rightarrow> TopKValue list \<Rightarrow> TopKState \<Rightarrow> bool" where
  "topk_ok h64 k t w d us st \<longleftrightarrow>
     (case st of
        TKExact counts k' t' w' d' \<Rightarrow> (k', t', w', d') = (k, t, w, d) \<and> exact_counts us counts \<and> card (set us) \<le> t
      | TKHybrid cms heap k' \<Rightarrow> k' = k \<and> hybrid_ok h64 k w d us cms heap \<and> t < card (set us))"

lemma topk_insert_ok:
  assumes "0 < k" and "cms_new w d = Some cms0" and "topk_ok h64 k t w d us st" and "int (length us) + 1 < i64_max"
  shows "\<exists>st'. topk_insert h64 v st = Some st' \<and> topk_ok h64 k t w d (us @ [v]) st'"
proof (cases st)
  case (TKExact counts k' t' w' d')
  let ?c = "btree_upsert v (\<lambda>c. c + 1) 1 counts"
  have eq: "k' = k" "t' = t" "w' = w" "d' = d" and ex: "exact_counts us counts"
    using assms(3) by (simp_all add: TKExact topk_ok_def)
  note ex' = exact_counts_insert [OF ex, of v]
  show ?thesis
  proof (cases "t < length ?c")
    case True
    with hybrid_promotion [OF assms(1,2) ex', of h64 t] assms(4) exact_counts_length [OF ex'] show ?thesis
      by (auto simp: topk_insert_def TKExact eq promote_if_wide_def topk_ok_def)
  next
    case False
    with ex' exact_counts_length [OF ex'] show ?thesis
      by (auto simp: topk_insert_def TKExact eq promote_if_wide_def topk_ok_def)
  qed
next
  case (TKHybrid cms heap k')
  have wd: "0 < w" "0 < d" using assms(2) by (auto simp: cms_new_def split: if_splits)
  have "card (set us) \<le> card (insert v (set us))" by (simp add: card_insert_le)
  then show ?thesis
    using hybrid_insert [OF wd _ assms(4), of h64 k cms heap v] assms(3)
    by (auto simp: topk_insert_def TKHybrid topk_ok_def Let_def)
qed

lemma topk_run_ok:
  assumes "cms_new w d = Some cms0" and "int (length us) < i64_max"
  shows "\<exists>st. fold_opt (topk_insert h64) us (topk_new k t w d) = Some st \<and> topk_ok h64 (max k 1) (max t 2) w d us st"
  using assms(2)
proof (induction us rule: rev_induct)
  case Nil
  show ?case by (simp add: topk_new_def topk_ok_def)
next
  case (snoc v us)
  then obtain st where "fold_opt (topk_insert h64) us (topk_new k t w d) = Some st" "topk_ok h64 (max k 1) (max t 2) w d us st"
    by auto
  moreover obtain st' where "topk_insert h64 v st = Some st'" "topk_ok h64 (max k 1) (max t 2) w d (us @ [v]) st'"
    using topk_insert_ok [OF _ assms(1) calculation(2), of v] snoc.prems by (auto simp: less_max_iff_disj)
  ultimately show ?case by (simp add: fold_opt_append)
qed

section \<open>The ranking\<close>

definition ranks_before :: "TopKValue \<times> u64 \<Rightarrow> TopKValue \<times> u64 \<Rightarrow> bool" where
  "ranks_before a b \<longleftrightarrow> snd b < snd a \<or> snd a = snd b \<and> fst a < fst b"

lemma set_top_sort [simp]: "set (top_sort xs) = set xs" and length_top_sort [simp]: "length (top_sort xs) = length xs"
  by (simp_all add: top_sort_def)

lemma distinct_top_sort [simp]: "distinct (map fst (top_sort xs)) \<longleftrightarrow> distinct (map fst xs)"
  by (rule mset_eq_imp_distinct_iff) (simp add: top_sort_def)

lemma top_sort_ranked:
  assumes "distinct (map fst xs)"
  shows "sorted_wrt ranks_before (top_sort xs)"
proof -
  let ?key = "\<lambda>(v, c). (- uint c, v) :: int \<times> TopKValue"
  have d: "distinct (map fst (top_sort xs))"
    using assms by simp
  have "sorted (map ?key (top_sort xs))" unfolding top_sort_def by (rule sorted_sort_key)
  then have "sorted_wrt (\<lambda>a b. ?key a \<le> ?key b) (top_sort xs)" by (simp add: sorted_map)
  moreover have "sorted_wrt (\<lambda>a b. fst a \<noteq> fst b) (top_sort xs)"
    using d by (simp add: distinct_conv_nth sorted_wrt_iff_nth_less)
  ultimately have "sorted_wrt (\<lambda>a b. ?key a \<le> ?key b \<and> fst a \<noteq> fst b) (top_sort xs)"
    by (simp add: sorted_wrt_iff_nth_less)
  then show ?thesis
    by (rule sorted_wrt_mono_rel [rotated])
      (auto simp: ranks_before_def word_less_def less_eq_prod_def word_uint_eq_iff)
qed

lemma top_of_ranked:
  assumes "sorted_wrt ranks_before xs" and "y \<in> set xs" and "y \<notin> set (take k xs)" and "x \<in> set (take k xs)"
  shows "unat (snd y) \<le> unat (snd x)"
proof -
  have "y \<in> set (drop k xs)" using assms(2,3) by (metis Un_iff append_take_drop_id set_append)
  moreover have "sorted_wrt ranks_before (take k xs @ drop k xs)" using assms(1) by simp
  ultimately have "ranks_before x y" using assms(4) by (simp only: sorted_wrt_append)
  then show ?thesis by (auto simp: ranks_before_def word_less_nat_alt)
qed

text \<open>What both modes report.\<close>

definition reports_top :: "nat \<Rightarrow> TopKValue list \<Rightarrow> (TopKValue \<times> u64) list \<Rightarrow> bool" where
  "reports_top k us best \<longleftrightarrow>
     length best = min k (card (set us)) \<and> distinct (map fst best) \<and> sorted_wrt ranks_before best \<and>
     (\<forall>(v, c) \<in> set best. v \<in> set us \<and> count_list us v \<le> unat c \<and> unat c \<le> length us) \<and>
     (\<forall>v \<in> set us. v \<notin> fst ` set best \<longrightarrow> (\<forall>(w, c) \<in> set best. count_list us v \<le> unat c))"

lemma exact_reports_top:
  assumes "exact_counts us counts" and "length us < 2 ^ 64"
  shows "reports_top k us (take k (top_sort counts))"
    and "\<forall>(v, c) \<in> set (take k (top_sort counts)). unat c = count_list us v"
proof -
  have d: "distinct (map fst counts)" using assms(1) by (simp add: exact_counts_def btree_wf_distinct)
  have lt: "count_list us v < 2 ^ 64" for v using assms(2) count_le_length [of us v] by linarith
  have mem: "v \<in> set us \<and> unat c = count_list us v" if "(v, c) \<in> set counts" for v c
    using that lt [of v] by (auto simp: exact_counts_mem [OF assms(1)] unat_of_nat_u64)
  have sub: "(v, c) \<in> set counts" if "(v, c) \<in> set (take k (top_sort counts))" for v c
    using in_set_takeD [OF that] by simp
  have entry: "v \<in> set us \<and> count_list us v \<le> unat c \<and> unat c \<le> length us"
    if "(v, c) \<in> set (take k (top_sort counts))" for v c
    using mem [OF sub [OF that]] count_le_length [of us v] by simp
  show ex: "\<forall>(v, c) \<in> set (take k (top_sort counts)). unat c = count_list us v" using mem sub by blast
  have ranked: "sorted_wrt ranks_before (top_sort counts)" by (rule top_sort_ranked [OF d])
  have "distinct (map fst (take k (top_sort counts)))" using d by (simp add: distinct_take flip: take_map)
  moreover have "count_list us v \<le> unat c"
    if v: "v \<in> set us" "v \<notin> fst ` set (take k (top_sort counts))" and c: "(w, c) \<in> set (take k (top_sort counts))" for v w c
  proof -
    let ?y = "(v, of_nat (count_list us v) :: u64)"
    have "?y \<in> set (top_sort counts)" "?y \<notin> set (take k (top_sort counts))"
      using v by (auto simp: exact_counts_mem [OF assms(1)] image_iff)
    from top_of_ranked [OF ranked this c] show ?thesis using lt [of v] by (simp add: unat_of_nat_u64)
  qed
  ultimately show "reports_top k us (take k (top_sort counts))"
    using sorted_wrt_take [OF ranked] entry exact_counts_length [OF assms(1)]
    by (simp add: reports_top_def min.commute) blast
qed

lemma hybrid_reports_top:
  assumes "0 < w" and "0 < d" and "hybrid_ok h64 k w d us cms heap" and "int (length us) < i64_max"
  shows "reports_top k us (heap_top heap)"
proof -
  let ?top = "heap_top heap"
  from assms(3) obtain ws where ws: "cms = cms_run ws (cms_empty w d)" "\<forall>(h, e) \<in> set ws. 0 \<le> e"
      "(\<Sum>(h, e)\<leftarrow>ws. e) = int (length us)"
    and heap: "heap_k heap = k" "tracked (count_list us) (\<lambda>v. est64 cms (h64 v)) (set us) heap"
    by (auto simp: hybrid_ok_def)
  have wf: "heap_wf heap" using heap(2) by (simp add: tracked_def)
  have mem: "(v, c) \<in> set ?top \<longleftrightarrow> (c, v) \<in> set (heap_items heap)" for v c
    by (force simp: heap_top_def)
  have fsts: "fst ` set ?top = snd ` set (heap_items heap)" by (force simp: heap_top_def)
  have d: "distinct (map fst (map (\<lambda>(c, v). (v, c)) (heap_items heap)))"
    using wf by (simp add: heap_wf_def comp_def case_prod_unfold)
  then have dt: "distinct (map fst ?top)" by (simp only: heap_top_def distinct_top_sort)
  have entry: "v \<in> set us" "count_list us v \<le> unat c" "unat c \<le> length us" if "(v, c) \<in> set ?top" for v c
  proof -
    have "v \<in> set us \<and> count_list us v \<le> unat c \<and> c \<le> est64 cms (h64 v)"
      using that heap(2) unfolding mem tracked_def by blast
    with est64_bounds(2) [OF assms(1,2) ws(2,3) assms(4), of "h64 v", folded ws(1)]
    show "v \<in> set us" "count_list us v \<le> unat c" "unat c \<le> length us" by (simp_all add: word_le_nat_alt)
  qed
  have out: "length (heap_items heap) = k" "(w, c) \<in> set ?top \<Longrightarrow> count_list us v \<le> unat c"
    if "v \<in> set us" "v \<notin> fst ` set ?top" for v w c
    using that heap unfolding mem fsts tracked_def by blast+
  have len: "length ?top = card (fst ` set ?top)" using distinct_card [OF dt] by simp
  have sub: "fst ` set ?top \<subseteq> set us" using entry(1) by force
  have "length ?top = min k (card (set us))"
  proof (cases "set us \<subseteq> fst ` set ?top")
    case True
    then have "length ?top = card (set us)" using sub len by (metis subset_antisym)
    then show ?thesis using wf heap(1) by (simp add: heap_wf_def heap_top_def)
  next
    case False
    then have "length ?top = k" using out(1) by (auto simp: heap_top_def)
    then show ?thesis using card_mono [OF _ sub] len by simp
  qed
  moreover have "sorted_wrt ranks_before ?top"
    unfolding heap_top_def by (rule top_sort_ranked [OF d])
  ultimately show ?thesis using dt entry out(2) unfolding reports_top_def by blast
qed

section \<open>Properties\<close>

text \<open>C32. The heavy-hitter state never panics and reports the right number of ranked, distinct,
  observed values on every stream, across the promotion: no reported count is below the true
  count or above the length of the stream, and no value left out is heavier than a reported one.\<close>

theorem topk_heavy_hitters:
  assumes "cms_new w d = Some e" and "int (length us) < i64_max"
  shows "\<exists>st. fold_opt (topk_insert h64) us (topk_new k t w d) = Some st \<and> reports_top (max k 1) us (topk_top st)"
proof -
  have wd: "0 < w" "0 < d" using assms(1) by (auto simp: cms_new_def split: if_splits)
  have lt: "length us < 2 ^ 64" using assms(2) by simp
  obtain st where st: "fold_opt (topk_insert h64) us (topk_new k t w d) = Some st" "topk_ok h64 (max k 1) (max t 2) w d us st"
    using topk_run_ok [OF assms] by blast
  then have "reports_top (max k 1) us (topk_top st)"
    using exact_reports_top(1) [OF _ lt] hybrid_reports_top [OF wd _ assms(2)]
    by (auto simp: topk_ok_def topk_top_def split: TopKState.splits)
  with st(1) show ?thesis by blast
qed

theorem topk_heavy_hitters_witness:
  "\<forall>h64. \<exists>st. fold_opt (topk_insert h64) [TKInt 1, TKInt 2, TKInt 3, TKInt 2] (topk_new 1 2 8 2) = Some st \<and>
     reports_top 1 [TKInt 1, TKInt 2, TKInt 3, TKInt 2] (topk_top st)"
  using topk_heavy_hitters [of 8 2 "cms_empty 8 2" "[TKInt 1, TKInt 2, TKInt 3, TKInt 2]" _ 1 2]
  by (simp add: cms_new_def CMS_SEEDS_def)

text \<open>Up to the threshold of distinct values the reported counts are exact, and merging two
  states within it gives the state of the concatenated streams.\<close>

lemma topk_exact:
  assumes "cms_new w d = Some e" and "int (length (us @ vs)) < i64_max" and "card (set (us @ vs)) \<le> max t 2"
  shows "\<exists>st st'. fold_opt (topk_insert h64) us (topk_new k t w d) = Some st \<and>
    fold_opt (topk_insert h64) vs (topk_new k t w d) = Some st' \<and>
    topk_merge h64 st st' = fold_opt (topk_insert h64) (us @ vs) (topk_new k t w d) \<and>
    (\<forall>(v, c) \<in> set (topk_top st). unat c = count_list us v)"
proof -
  have lt: "int (length us) < i64_max" "int (length vs) < i64_max" "length us < 2 ^ 64" using assms(2) by auto
  have c: "card (set us) \<le> max t 2" "card (set vs) \<le> max t 2"
    using assms(3) card_mono [of "set (us @ vs)" "set us"] card_mono [of "set (us @ vs)" "set vs"] by auto
  have run: "\<exists>counts. fold_opt (topk_insert h64) xs (topk_new k t w d) = Some (TKExact counts (max k 1) (max t 2) w d) \<and> exact_counts xs counts"
    if "int (length xs) < i64_max" "card (set xs) \<le> max t 2" for xs
    using topk_run_ok [OF assms(1) that(1), of h64 k t] that(2) by (auto simp: topk_ok_def) (case_tac st; auto)
  obtain cu where u: "fold_opt (topk_insert h64) us (topk_new k t w d) = Some (TKExact cu (max k 1) (max t 2) w d)" "exact_counts us cu"
    using run [OF lt(1) c(1)] by blast
  obtain cv where v: "fold_opt (topk_insert h64) vs (topk_new k t w d) = Some (TKExact cv (max k 1) (max t 2) w d)" "exact_counts vs cv"
    using run [OF lt(2) c(2)] by blast
  obtain cw where w: "fold_opt (topk_insert h64) (us @ vs) (topk_new k t w d) = Some (TKExact cw (max k 1) (max t 2) w d)" "exact_counts (us @ vs) cw"
    using run [OF assms(2,3)] by blast
  note m = exact_counts_add [OF u(2) v(2)]
  have "add_counts cu cv = cw"
    using m w(2) by (auto simp: exact_counts_def intro: btree_wf_map_eqI)
  moreover have "\<not> max t 2 < length (add_counts cu cv)" using exact_counts_length [OF m] assms(3) by (simp only: not_less)
  ultimately have "topk_merge h64 (TKExact cu (max k 1) (max t 2) w d) (TKExact cv (max k 1) (max t 2) w d) =
      Some (TKExact cw (max k 1) (max t 2) w d)"
    by (simp only: topk_merge_def is_exact_def promote_if_wide_def TopKState.case merge_same_mode.simps option.case if_False simp_thms)
  with u v w exact_reports_top(2) [OF u(2) lt(3), of "max k 1"] show ?thesis
    by (simp add: topk_top_def)
qed

end
