(* ===== verification/Bloom.thy ===== *)
theory Bloom
  imports CountDistinct
begin

text \<open>
  The Bloom filter of \<open>crates/beava-core/src/sketches/bloom.rs\<close> and its operator state of
  \<open>agg_state.rs\<close>. The base hash of a key is \<open>ahash_str\<close> of the parameter \<open>hashers\<close>: the source
  draws its seed once per process. A zero bit count (the modulus) and a word outside the
  vector panic; the constructor's assertion is its \<open>None\<close> result.

  The lemmas show that a filter from the constructor never panics and has no false negative:
  every key inserted is contained, as long as the hash function is the same.
\<close>

definition murmur3_finalize :: "u64 \<Rightarrow> u64 \<Rightarrow> u64" where
  "murmur3_finalize h seed =
     (let h1 = h XOR seed;
          h2 = (h1 XOR drop_bit 33 h1) * 0xff51afd7ed558ccd;
          h3 = (h2 XOR drop_bit 33 h2) * 0xc4ceb9fe1a85ec53
      in h3 XOR drop_bit 33 h3)"

definition SEED_A :: u64 where
  "SEED_A = 0x9E3779B97F4A7C15"

definition SEED_B :: u64 where
  "SEED_B = 0xBF58476D1CE4E5B9"

record BloomFilter =
  bloom_words :: "u64 list"
  bit_count :: nat
  num_hashes :: nat

definition with_capacity_and_fpr :: "libm \<Rightarrow> nat \<Rightarrow> f64 \<Rightarrow> BloomFilter option" where
  "with_capacity_and_fpr lm capacity fpr =
     (if \<not> (0 < capacity \<and> f64_gt fpr (Fin 0) \<and> f64_lt fpr (Fin 1)) then None
      else
        (let cap_f = f64_of_int (int capacity);
             m_f = f64_div (f64_mul (f64_neg cap_f) (ln_f lm fpr)) (f64_mul LN_2 LN_2);
             m = nat (f64_to_int_sat 0 (2 ^ 64 - 1) (f64_ceil m_f));
             words = (m + 63) div 64;
             k = nat (f64_to_int_sat 0 (2 ^ 32 - 1) (f64_ceil (f64_mul (f64_div m_f cap_f) LN_2)))
         in Some \<lparr>bloom_words = replicate words 0, bit_count = words * 64, num_hashes = max k 1\<rparr>))"

definition base_hashes :: "hashers \<Rightarrow> string \<Rightarrow> u64 \<times> u64" where
  "base_hashes hs value =
     (let raw = ahash_str hs value in (murmur3_finalize raw SEED_A, murmur3_finalize raw SEED_B))"

definition position_at :: "BloomFilter \<Rightarrow> u64 \<Rightarrow> u64 \<Rightarrow> nat \<Rightarrow> nat option" where
  "position_at s h1 h2 i =
     (let m = of_nat (bit_count s) :: u64 in
      if m = 0 then None else Some (unat ((h1 + of_nat i * h2) mod m)))"

definition bloom_insert :: "hashers \<Rightarrow> string \<Rightarrow> BloomFilter \<Rightarrow> BloomFilter option" where
  "bloom_insert hs value s0 =
     (case base_hashes hs value of (h1, h2) \<Rightarrow>
        fold_opt
          (\<lambda>i s. case position_at s h1 h2 i of None \<Rightarrow> None
             | Some pos \<Rightarrow>
                 if pos div 64 < length (bloom_words s)
                 then Some (s\<lparr>bloom_words := (bloom_words s)
                        [pos div 64 := (bloom_words s ! (pos div 64)) OR push_bit (pos mod 64) 1]\<rparr>)
                 else None)
          [0..<num_hashes s0] s0)"

fun bloom_probe :: "BloomFilter \<Rightarrow> u64 \<Rightarrow> u64 \<Rightarrow> nat list \<Rightarrow> bool option" where
  "bloom_probe s h1 h2 [] = Some True"
| "bloom_probe s h1 h2 (i # is) =
     (case position_at s h1 h2 i of None \<Rightarrow> None
      | Some pos \<Rightarrow>
          if \<not> pos div 64 < length (bloom_words s) then None
          else if drop_bit (pos mod 64) (bloom_words s ! (pos div 64)) AND 1 = 0 then Some False
          else bloom_probe s h1 h2 is)"

definition bloom_contains :: "hashers \<Rightarrow> BloomFilter \<Rightarrow> string \<Rightarrow> bool option" where
  "bloom_contains hs s value =
     (case base_hashes hs value of (h1, h2) \<Rightarrow> bloom_probe s h1 h2 [0..<num_hashes s])"

section \<open>The operator state\<close>

record BloomMemberStateWrap =
  bloom_inner :: BloomFilter
  n_inserts :: u64

definition bloom_with_params :: "libm \<Rightarrow> nat \<Rightarrow> f64 \<Rightarrow> BloomMemberStateWrap option" where
  "bloom_with_params lm capacity fpr =
     map_option (\<lambda>b. \<lparr>bloom_inner = b, n_inserts = 0\<rparr>)
       (with_capacity_and_fpr lm (max capacity 1)
          (f64_clamp fpr (f64_round False (1 / 10 ^ 9)) (f64_round False (999 / 1000))))"

definition bloom_default :: "libm \<Rightarrow> BloomMemberStateWrap option" where
  "bloom_default lm =
     map_option (\<lambda>b. \<lparr>bloom_inner = b, n_inserts = 0\<rparr>)
       (with_capacity_and_fpr lm 1024 (f64_round False (1 / 100)))"

definition bloom_observe :: "hashers \<Rightarrow> string \<Rightarrow> BloomMemberStateWrap \<Rightarrow> BloomMemberStateWrap option" where
  "bloom_observe hs k s =
     map_option (\<lambda>b. s\<lparr>bloom_inner := b, n_inserts := u64_saturating_add (n_inserts s) 1\<rparr>)
       (bloom_insert hs k (bloom_inner s))"

definition bloom_update_pre :: "libm \<Rightarrow> hashers \<Rightarrow> BloomMemberStateWrap \<Rightarrow> Value option \<Rightarrow> bool \<Rightarrow> BloomMemberStateWrap option" where
  "bloom_update_pre lm hs s pre_val matched =
     (if \<not> matched then Some s
      else case pre_val of None \<Rightarrow> Some s
      | Some v \<Rightarrow> (case value_to_key_string lm v of None \<Rightarrow> Some s | Some k \<Rightarrow> bloom_observe hs k s))"

definition bloom_update :: "libm \<Rightarrow> hashers \<Rightarrow> BloomMemberStateWrap \<Rightarrow> Row \<Rightarrow> int \<Rightarrow> string option \<Rightarrow> bool \<Rightarrow> BloomMemberStateWrap option" where
  "bloom_update lm hs s row now field matched =
     (if \<not> matched then Some s
      else case field of None \<Rightarrow> Some s
      | Some fname \<Rightarrow> (case row_get row fname of None \<Rightarrow> Some s
      | Some v \<Rightarrow> (case value_to_key_string lm v of None \<Rightarrow> Some s | Some k \<Rightarrow> bloom_observe hs k s)))"

definition bloom_query :: "BloomMemberStateWrap \<Rightarrow> Value" where
  "bloom_query s = VBool (0 < n_inserts s)"

lemma bloom_update_pre_agrees:
  "bloom_update lm hs s row t field m = bloom_update_pre lm hs s (field_value row field) m"
  by (simp add: bloom_update_def bloom_update_pre_def field_value_def split: option.splits)

section \<open>No false negatives\<close>

definition bloom_wf :: "BloomFilter \<Rightarrow> bool" where
  "bloom_wf s \<longleftrightarrow> bloom_words s \<noteq> [] \<and> bit_count s = 64 * length (bloom_words s) \<and> bit_count s < 2 ^ 64"

definition bloom_bit :: "BloomFilter \<Rightarrow> nat \<Rightarrow> bool" where
  "bloom_bit s pos \<longleftrightarrow> bit (bloom_words s ! (pos div 64)) (pos mod 64)"

lemma position_at_wf:
  assumes "bloom_wf s"
  shows "\<exists>pos. position_at s h1 h2 i = Some pos \<and> pos div 64 < length (bloom_words s)"
proof -
  let ?m = "of_nat (bit_count s) :: u64"
  have m: "unat ?m = bit_count s" using assms by (intro unat_of_nat_u64) (simp add: bloom_wf_def)
  have pos: "0 < bit_count s" using assms by (simp add: bloom_wf_def)
  then have "?m \<noteq> 0" using m by (metis less_numeral_extra(3) unsigned_0)
  moreover have "unat (w mod ?m) < bit_count s" for w
    using pos m by (simp only: unat_mod_distrib mod_less_divisor)
  then have "unat (w mod ?m) < length (bloom_words s) * 64" for w
    using assms by (simp add: bloom_wf_def mult.commute)
  ultimately show ?thesis by (simp only: position_at_def Let_def) (simp add: less_mult_imp_div_less)
qed

definition set_position :: "u64 \<Rightarrow> u64 \<Rightarrow> nat \<Rightarrow> BloomFilter \<Rightarrow> BloomFilter option" where
  "set_position h1 h2 i s =
     (case position_at s h1 h2 i of None \<Rightarrow> None
      | Some pos \<Rightarrow>
          if pos div 64 < length (bloom_words s)
          then Some (s\<lparr>bloom_words := (bloom_words s)
                 [pos div 64 := (bloom_words s ! (pos div 64)) OR push_bit (pos mod 64) 1]\<rparr>)
          else None)"

lemma bloom_insert_alt:
  "bloom_insert hs v s = (case base_hashes hs v of (h1, h2) \<Rightarrow> fold_opt (set_position h1 h2) [0..<num_hashes s] s)"
  by (simp add: bloom_insert_def set_position_def [abs_def])

text \<open>The filters that extend \<open>s\<close>: same shape, no bit lost.\<close>

definition bloom_le :: "BloomFilter \<Rightarrow> BloomFilter \<Rightarrow> bool" where
  "bloom_le s s' \<longleftrightarrow> length (bloom_words s') = length (bloom_words s) \<and> bit_count s' = bit_count s \<and>
     num_hashes s' = num_hashes s \<and> (\<forall>pos. pos div 64 < length (bloom_words s) \<longrightarrow> bloom_bit s pos \<longrightarrow> bloom_bit s' pos)"

lemma bloom_le_refl [simp]: "bloom_le s s"
  by (simp add: bloom_le_def)

lemma bloom_le_trans: "bloom_le s t \<Longrightarrow> bloom_le t u \<Longrightarrow> bloom_le s u"
  by (simp add: bloom_le_def)

lemma bloom_le_wf: "bloom_le s s' \<Longrightarrow> bloom_wf s \<Longrightarrow> bloom_wf s'"
  by (auto simp: bloom_le_def bloom_wf_def)

lemma position_at_le: "bloom_le s s' \<Longrightarrow> position_at s' h1 h2 i = position_at s h1 h2 i"
  by (simp add: bloom_le_def position_at_def)

definition has_position :: "BloomFilter \<Rightarrow> u64 \<Rightarrow> u64 \<Rightarrow> nat \<Rightarrow> bool" where
  "has_position s h1 h2 i \<longleftrightarrow>
     (\<exists>pos. position_at s h1 h2 i = Some pos \<and> pos div 64 < length (bloom_words s) \<and> bloom_bit s pos)"

lemma has_position_le: "bloom_le s s' \<Longrightarrow> has_position s h1 h2 i \<Longrightarrow> has_position s' h1 h2 i"
  unfolding has_position_def position_at_le by (auto simp: bloom_le_def)

lemma set_position_wf:
  assumes "bloom_wf s"
  shows "\<exists>s'. set_position h1 h2 i s = Some s' \<and> bloom_le s s' \<and> has_position s' h1 h2 i"
proof -
  from position_at_wf [OF assms] obtain pos where
    pos: "position_at s h1 h2 i = Some pos" "pos div 64 < length (bloom_words s)" by blast
  let ?s' = "s\<lparr>bloom_words := (bloom_words s)[pos div 64 := (bloom_words s ! (pos div 64)) OR push_bit (pos mod 64) 1]\<rparr>"
  have "bloom_le s ?s'"
    using pos(2) by (auto simp: bloom_le_def bloom_bit_def nth_list_update bit_or_iff)
  moreover have "bit (push_bit (pos mod 64) 1 :: u64) (pos mod 64)"
    by (simp add: bit_exp_iff)
  then have "bloom_bit ?s' pos"
    using pos(2) by (simp add: bloom_bit_def bit_or_iff)
  ultimately show ?thesis
    using pos by (auto simp: set_position_def has_position_def position_at_def)
qed

lemma set_positions_wf:
  assumes "bloom_wf s"
  shows "\<exists>s'. fold_opt (set_position h1 h2) is s = Some s' \<and> bloom_le s s' \<and> (\<forall>i \<in> set is. has_position s' h1 h2 i)"
  using assms
proof (induction "is" arbitrary: s)
  case Nil
  then show ?case by simp
next
  case (Cons i "is")
  obtain s1 where s1: "set_position h1 h2 i s = Some s1" "bloom_le s s1" "has_position s1 h1 h2 i"
    using set_position_wf [OF Cons.prems] by blast
  with Cons.IH [of s1] bloom_le_wf [OF s1(2) Cons.prems] obtain s2 where
    "fold_opt (set_position h1 h2) is s1 = Some s2" "bloom_le s1 s2" "\<forall>i \<in> set is. has_position s2 h1 h2 i" by blast
  with s1 show ?case by (auto intro: bloom_le_trans has_position_le)
qed

lemma bloom_probe_positions:
  "(\<forall>i \<in> set is. has_position s h1 h2 i) \<Longrightarrow> bloom_probe s h1 h2 is = Some True"
proof (induction "is")
  case (Cons i "is")
  have "drop_bit n w AND 1 = 0 \<longleftrightarrow> \<not> bit w n" for w :: u64 and n
    by (simp add: and_one_eq bit_iff_odd_drop_bit even_iff_mod_2_eq_zero)
  with Cons show ?case by (auto simp: has_position_def bloom_bit_def)
qed simp

definition bloom_has :: "hashers \<Rightarrow> BloomFilter \<Rightarrow> string \<Rightarrow> bool" where
  "bloom_has hs s v \<longleftrightarrow> (\<forall>i < num_hashes s. case base_hashes hs v of (h1, h2) \<Rightarrow> has_position s h1 h2 i)"

lemma bloom_contains_has: "bloom_has hs s v \<Longrightarrow> bloom_contains hs s v = Some True"
  by (auto simp: bloom_contains_def bloom_has_def intro: bloom_probe_positions split: prod.splits)

lemma bloom_has_le: "bloom_le s s' \<Longrightarrow> bloom_has hs s v \<Longrightarrow> bloom_has hs s' v"
  using has_position_le [of s s'] unfolding bloom_has_def by (auto simp: bloom_le_def split: prod.splits)

lemma bloom_insert_wf:
  assumes "bloom_wf s"
  shows "\<exists>s'. bloom_insert hs v s = Some s' \<and> bloom_le s s' \<and> bloom_has hs s' v"
proof -
  obtain h1 h2 where h: "base_hashes hs v = (h1, h2)" by (cases "base_hashes hs v")
  from set_positions_wf [OF assms, of h1 h2 "[0..<num_hashes s]"] show ?thesis
    by (auto simp: bloom_insert_alt h bloom_has_def bloom_le_def)
qed

lemma bloom_insert_all:
  assumes "bloom_wf s"
  shows "\<exists>s'. fold_opt (bloom_insert hs) vs s = Some s' \<and> bloom_le s s' \<and> (\<forall>v \<in> set vs. bloom_has hs s' v)"
  using assms
proof (induction vs arbitrary: s)
  case Nil
  then show ?case by simp
next
  case (Cons v vs)
  obtain s1 where s1: "bloom_insert hs v s = Some s1" "bloom_le s s1" "bloom_has hs s1 v"
    using bloom_insert_wf [OF Cons.prems] by blast
  with Cons.IH [of s1] bloom_le_wf [OF s1(2) Cons.prems] obtain s2 where
    "fold_opt (bloom_insert hs) vs s1 = Some s2" "bloom_le s1 s2" "\<forall>v \<in> set vs. bloom_has hs s2 v" by blast
  with s1 show ?case by (auto intro: bloom_le_trans bloom_has_le)
qed

section \<open>Properties\<close>

text \<open>C31. The Bloom filter has no false negatives: a filter with at least one word never
  panics on inserts, and after inserting a list of keys it reports every one of them as
  contained, provided the probe uses the hash function of the inserts.\<close>

theorem bloom_no_false_negatives:
  assumes "bloom_wf s" and "v \<in> set vs"
  shows "Option.bind (fold_opt (bloom_insert hs) vs s) (\<lambda>s'. bloom_contains hs s' v) = Some True"
  using bloom_insert_all [OF assms(1), of hs vs] assms(2) bloom_contains_has by fastforce

definition sample_filter :: BloomFilter where
  "sample_filter = \<lparr>bloom_words = [0, 0], bit_count = 128, num_hashes = 3\<rparr>"

theorem bloom_no_false_negatives_witness:
  "Option.bind (fold_opt (bloom_insert sample_hashers) [''ab'', ''c''] sample_filter)
     (\<lambda>s'. bloom_contains sample_hashers s' ''ab'') = Some True"
  by (rule bloom_no_false_negatives) (simp_all add: bloom_wf_def sample_filter_def)

text \<open>The filter is only meaningful under the hash function that filled it: a filter
  filled under one seed and probed under another, as after restoring a snapshot in a new
  process, can deny a key that was inserted.\<close>

lemma bloom_seed_change:
  "\<exists>hs hs' s v. bloom_wf s \<and>
     Option.bind (bloom_insert hs v s) (\<lambda>s'. bloom_contains hs s' v) = Some True \<and>
     Option.bind (bloom_insert hs v s) (\<lambda>s'. bloom_contains hs' s' v) = Some False"
proof -
  let ?hs' = "sample_hashers\<lparr>ahash_str := (\<lambda>s. of_nat (length s) + 1)\<rparr>"
  have "bloom_wf sample_filter" by (simp add: bloom_wf_def sample_filter_def)
  moreover have "Option.bind (bloom_insert sample_hashers ''ab'' sample_filter)
      (\<lambda>s'. bloom_contains sample_hashers s' ''ab'') = Some True" by code_simp
  moreover have "Option.bind (bloom_insert sample_hashers ''ab'' sample_filter)
      (\<lambda>s'. bloom_contains ?hs' s' ''ab'') = Some False" by code_simp
  ultimately show ?thesis by blast
qed

end
