(* ===== verification/Entropy.thy ===== *)
theory Entropy
  imports CountDistinct
begin

text \<open>
  The Shannon-entropy histogram of \<open>crates/beava-core/src/sketches/entropy.rs\<close> and its
  operator state of \<open>agg_state.rs\<close>. The process-wide counter of dropped categories is a metric
  and not part of the state.

  The lemmas show that under the operator's guard the spill branch is never taken unless a
  category is the literal spill key, that recorded counts are exact and bounded in number,
  and that the total is always the sum of the counts.
\<close>

definition SPILL_KEY :: string where
  "SPILL_KEY = ''__beava_other__''"

record EntropyHistogram =
  ent_counts :: "(string \<times> u64) list"
  ent_total :: u64
  ent_cap :: nat
  ent_spill :: u64

definition entropy_hist_new :: "nat \<Rightarrow> EntropyHistogram" where
  "entropy_hist_new cap = \<lparr>ent_counts = [], ent_total = 0, ent_cap = max cap 2, ent_spill = 0\<rparr>"

definition contains_category :: "EntropyHistogram \<Rightarrow> string \<Rightarrow> bool" where
  "contains_category s v \<longleftrightarrow> v \<in> fst ` set (ent_counts s)"

definition entropy_insert :: "EntropyHistogram \<Rightarrow> string \<Rightarrow> EntropyHistogram" where
  "entropy_insert s0 value =
     (let s = s0\<lparr>ent_total := u64_saturating_add (ent_total s0) 1\<rparr> in
      if value \<in> fst ` set (ent_counts s)
      then s\<lparr>ent_counts := btree_upsert value (\<lambda>c. c + 1) 1 (ent_counts s)\<rparr>
      else if SPILL_KEY \<in> fst ` set (ent_counts s)
      then s\<lparr>ent_spill := ent_spill s + 1, ent_counts := btree_upsert SPILL_KEY (\<lambda>c. c + 1) 1 (ent_counts s)\<rparr>
      else if length (ent_counts s) < ent_cap s
      then s\<lparr>ent_counts := btree_insert value 1 (ent_counts s)\<rparr>
      else s\<lparr>ent_spill := ent_spill s + 1, ent_counts := btree_insert SPILL_KEY 1 (ent_counts s)\<rparr>)"

definition entropy_merge :: "EntropyHistogram \<Rightarrow> EntropyHistogram \<Rightarrow> EntropyHistogram" where
  "entropy_merge s other =
     s\<lparr>ent_counts := fold (\<lambda>(k, v) m. btree_upsert k (\<lambda>c. c + v) v m) (ent_counts other) (ent_counts s),
       ent_total := u64_saturating_add (ent_total s) (ent_total other),
       ent_spill := u64_saturating_add (ent_spill s) (ent_spill other)\<rparr>"

definition entropy_bits :: "libm \<Rightarrow> EntropyHistogram \<Rightarrow> f64" where
  "entropy_bits lm s =
     (if ent_total s = 0 then Fin 0
      else
        (let n = f64_of_u64 (ent_total s) in
         foldl (\<lambda>h (_, c). if c = 0 then h
                  else let p = f64_div (f64_of_u64 c) n in f64_sub h (f64_mul p (log2_f lm p)))
           (Fin 0) (ent_counts s)))"

section \<open>The operator state\<close>

record EntropyStateWrap =
  ent_inner :: EntropyHistogram
  ent_max_categories :: nat

definition entropy_default :: EntropyStateWrap where
  "entropy_default = \<lparr>ent_inner = entropy_hist_new 1024, ent_max_categories = 1024\<rparr>"

definition entropy_new :: "nat \<Rightarrow> EntropyStateWrap" where
  "entropy_new max_categories =
     (let cap = max max_categories 1 in \<lparr>ent_inner = entropy_hist_new cap, ent_max_categories = cap\<rparr>)"

definition insert_guarded :: "EntropyStateWrap \<Rightarrow> string \<Rightarrow> EntropyStateWrap" where
  "insert_guarded s v =
     (if ent_max_categories s \<le> length (ent_counts (ent_inner s)) \<and> \<not> contains_category (ent_inner s) v then s
      else s\<lparr>ent_inner := entropy_insert (ent_inner s) v\<rparr>)"

definition entropy_update_pre :: "libm \<Rightarrow> EntropyStateWrap \<Rightarrow> Value option \<Rightarrow> bool \<Rightarrow> EntropyStateWrap" where
  "entropy_update_pre lm s pre_val matched =
     (if \<not> matched then s
      else case pre_val of None \<Rightarrow> s
      | Some v \<Rightarrow> (case value_to_key_string lm v of None \<Rightarrow> s | Some k \<Rightarrow> insert_guarded s k))"

definition entropy_update :: "libm \<Rightarrow> EntropyStateWrap \<Rightarrow> Row \<Rightarrow> int \<Rightarrow> string option \<Rightarrow> bool \<Rightarrow> EntropyStateWrap" where
  "entropy_update lm s row now field matched =
     (if \<not> matched then s
      else case field of None \<Rightarrow> s
      | Some fname \<Rightarrow> (case row_get row fname of None \<Rightarrow> s
      | Some v \<Rightarrow> (case value_to_key_string lm v of None \<Rightarrow> s | Some k \<Rightarrow> insert_guarded s k)))"

definition entropy_query :: "libm \<Rightarrow> EntropyStateWrap \<Rightarrow> Value" where
  "entropy_query lm s = VF64 (entropy_bits lm (ent_inner s))"

lemma entropy_update_pre_agrees:
  "entropy_update lm s row t field m = entropy_update_pre lm s (field_value row field) m"
  by (simp add: entropy_update_def entropy_update_pre_def field_value_def split: option.splits)

section \<open>Exact counts\<close>

lemma sum_btree_upsert:
  fixes g :: "'v \<Rightarrow> nat"
  assumes "btree_wf m"
  shows "(\<Sum>(_, c)\<leftarrow>btree_upsert k f d m. g c) =
    (case map_of m k of None \<Rightarrow> (\<Sum>(_, c)\<leftarrow>m. g c) + g d
     | Some c \<Rightarrow> (\<Sum>(_, c)\<leftarrow>m. g c) - g c + g (f c))"
  using assms
proof (induction k f d m rule: btree_upsert.induct)
  case (1 k f d)
  then show ?case by simp
next
  case (2 k f d a b m)
  have none: "k < a \<Longrightarrow> map_of m k = None" using 2(2) by (auto simp: btree_wf_Cons map_of_eq_None_iff)
  have le: "g c \<le> (\<Sum>(_, c)\<leftarrow>m. g c)" if "map_of m k = Some c" for c
    using map_of_SomeD [OF that] member_le_sum_list [of "g c" "map (\<lambda>(_, c). g c) m"] by force
  from 2 none le show ?case by (auto simp: btree_wf_Cons split: option.splits)
qed

text \<open>After the categories \<open>cats\<close>, none of them the spill key.\<close>

definition entropy_inv :: "string list \<Rightarrow> EntropyStateWrap \<Rightarrow> bool" where
  "entropy_inv cats s \<longleftrightarrow>
     (let h = ent_inner s in
      btree_wf (ent_counts h) \<and> ent_max_categories s \<le> ent_cap h \<and> ent_spill h = 0 \<and>
      length (ent_counts h) \<le> ent_max_categories s \<and> SPILL_KEY \<notin> fst ` set (ent_counts h) \<and>
      (\<forall>k c. map_of (ent_counts h) k = Some c \<longrightarrow> c = of_nat (count_list cats k) \<and> k \<in> set cats) \<and>
      (\<forall>k \<in> set cats. map_of (ent_counts h) k = None \<longrightarrow> length (ent_counts h) = ent_max_categories s) \<and>
      (\<Sum>(_, c)\<leftarrow>ent_counts h. unat c) = unat (ent_total h) \<and> unat (ent_total h) \<le> length cats)"

lemma entropy_inv_new: "entropy_inv [] (entropy_new cap)"
  by (auto simp: entropy_inv_def entropy_new_def entropy_hist_new_def Let_def)

lemma entropy_inv_insert:
  assumes inv: "entropy_inv cats s" and cat: "cat \<noteq> SPILL_KEY" and len: "Suc (length cats) < 2 ^ 64"
  shows "entropy_inv (cats @ [cat]) (insert_guarded s cat)"
proof -
  define h where "h = ent_inner s"
  have wf: "btree_wf (ent_counts h)" and cap: "ent_max_categories s \<le> ent_cap h" and sp: "ent_spill h = 0"
    and bnd: "length (ent_counts h) \<le> ent_max_categories s" and nsp: "SPILL_KEY \<notin> fst ` set (ent_counts h)"
    and cnt: "\<And>k c. map_of (ent_counts h) k = Some c \<Longrightarrow> c = of_nat (count_list cats k) \<and> k \<in> set cats"
    and rej: "\<And>k. k \<in> set cats \<Longrightarrow> map_of (ent_counts h) k = None \<Longrightarrow> length (ent_counts h) = ent_max_categories s"
    and tot: "(\<Sum>(_, c)\<leftarrow>ent_counts h. unat c) = unat (ent_total h)" and le: "unat (ent_total h) \<le> length cats"
    using inv by (auto simp: entropy_inv_def Let_def h_def)
  have tot': "unat (u64_saturating_add (ent_total h) 1) = Suc (unat (ent_total h))"
    using le len by (simp add: u64_saturating_add_unat min_def)
  have cnt_bound: "Suc (count_list cats cat) < 2 ^ 64" using count_list_bound [of cats cat] len by linarith
  show ?thesis
  proof (cases "map_of (ent_counts h) cat")
    case None
    then have new: "cat \<notin> fst ` set (ent_counts h)" by (simp add: map_of_eq_None_iff)
    show ?thesis
    proof (cases "length (ent_counts h) = ent_max_categories s")
      case True
      then have "insert_guarded s cat = s" using new by (simp add: insert_guarded_def contains_category_def h_def)
      then show ?thesis using True None wf cap sp bnd nsp cnt rej tot le
        by (auto simp: entropy_inv_def Let_def h_def [symmetric])
    next
      case False
      with rej None have fresh: "cat \<notin> set cats" by blast
      from False bnd have "length (ent_counts h) < ent_max_categories s" by simp
      then have ins: "ent_inner (insert_guarded s cat) =
          h\<lparr>ent_total := u64_saturating_add (ent_total h) 1, ent_counts := btree_insert cat 1 (ent_counts h)\<rparr>"
        "ent_max_categories (insert_guarded s cat) = ent_max_categories s"
        using new nsp cap by (auto simp: insert_guarded_def entropy_insert_def Let_def h_def [symmetric])
      have "(\<Sum>(_, c)\<leftarrow>btree_insert cat (1 :: u64) (ent_counts h). unat c) = Suc (unat (ent_total h))"
        using sum_btree_upsert [OF wf, of unat cat "\<lambda>_. 1" 1] None tot by simp
      then show ?thesis
        using False None bnd cnt rej wf cap sp nsp cat fresh le tot' new
        by (auto simp: entropy_inv_def Let_def ins btree_wf_upsert map_of_btree_upsert length_btree_upsert
            count_list_0_iff split: if_splits)
    qed
  next
    case (Some c)
    then have old: "cat \<in> fst ` set (ent_counts h)" by (metis map_of_eq_None_iff option.distinct(1))
    have c: "c = of_nat (count_list cats cat)" "unat c = count_list cats cat"
      using cnt [OF Some] cnt_bound by (simp_all add: unat_of_nat_u64)
    have succ: "unat (c + 1) = Suc (unat c)" using c cnt_bound by (simp add: unat_word_ariths)
    have ins: "ent_inner (insert_guarded s cat) =
        h\<lparr>ent_total := u64_saturating_add (ent_total h) 1,
          ent_counts := btree_upsert cat (\<lambda>c. c + 1) 1 (ent_counts h)\<rparr>"
      "ent_max_categories (insert_guarded s cat) = ent_max_categories s"
      using old by (auto simp: insert_guarded_def entropy_insert_def contains_category_def Let_def h_def [symmetric])
    have "unat c \<le> (\<Sum>(_, c)\<leftarrow>ent_counts h. unat c)"
      using map_of_SomeD [OF Some] member_le_sum_list [of "unat c" "map (\<lambda>(_, c). unat c) (ent_counts h)"] by force
    then have "(\<Sum>(_, c)\<leftarrow>btree_upsert cat (\<lambda>c. c + 1) (1 :: u64) (ent_counts h). unat c) = Suc (unat (ent_total h))"
      using sum_btree_upsert [OF wf, of unat cat "\<lambda>c. c + 1" 1] Some tot succ by simp
    moreover have "d = of_nat (count_list (cats @ [cat]) k) \<and> k \<in> set (cats @ [cat])"
      if "map_of (btree_upsert cat (\<lambda>c. c + 1) 1 (ent_counts h)) k = Some d" for k d
    proof (cases "k = cat")
      case True
      with that Some have "d = c + 1" by (simp add: map_of_btree_upsert [OF wf])
      with True c(1) show ?thesis by simp
    next
      case False
      with that have "map_of (ent_counts h) k = Some d" by (simp add: map_of_btree_upsert [OF wf])
      with cnt [of k d] False show ?thesis by simp
    qed
    moreover have "length (ent_counts h) = ent_max_categories s"
      if "k \<in> set (cats @ [cat])" "map_of (btree_upsert cat (\<lambda>c. c + 1) 1 (ent_counts h)) k = None" for k
      using that rej [of k] Some by (auto simp: map_of_btree_upsert [OF wf] split: if_splits)
    ultimately show ?thesis
      unfolding entropy_inv_def Let_def ins using bnd wf cap sp nsp cat le tot' old
      by (simp add: btree_wf_upsert length_btree_upsert)
  qed
qed

lemma entropy_run:
  assumes "SPILL_KEY \<notin> set cats" and "length cats < 2 ^ 64"
  shows "entropy_inv cats (fold (\<lambda>k s. insert_guarded s k) cats (entropy_new cap))"
  using assms
proof (induction cats rule: rev_induct)
  case Nil
  then show ?case by (simp add: entropy_inv_new)
next
  case (snoc cat cats)
  then show ?case by (auto intro: entropy_inv_insert)
qed

lemma entropy_run_cap:
  "ent_max_categories (fold (\<lambda>k s. insert_guarded s k) cats s) = ent_max_categories s"
  by (induction cats arbitrary: s) (simp_all add: insert_guarded_def)

section \<open>Properties\<close>

text \<open>The entropy operator's histogram: over fewer than \<open>2 ^ 64\<close> categories, none of them
  the reserved spill key, every recorded count is exact, the total is the sum of the recorded
  counts, at most \<open>max_categories\<close> categories are recorded, nothing is ever spilled, and a
  category is missing only because the cap was reached.\<close>

lemma entropy_histogram:
  assumes "SPILL_KEY \<notin> set cats" and "length cats < 2 ^ 64"
    and "h = ent_inner (fold (\<lambda>k s. insert_guarded s k) cats (entropy_new cap))"
  shows "(\<forall>k c. map_of (ent_counts h) k = Some c \<longrightarrow> c = of_nat (count_list cats k)) \<and>
    (\<Sum>(_, c)\<leftarrow>ent_counts h. unat c) = unat (ent_total h) \<and>
    length (ent_counts h) \<le> max cap 1 \<and> ent_spill h = 0 \<and>
    (\<forall>k \<in> set cats. map_of (ent_counts h) k = None \<longrightarrow> length (ent_counts h) = max cap 1)"
proof -
  have "ent_max_categories (fold (\<lambda>k s. insert_guarded s k) cats (entropy_new cap)) = max cap 1"
    by (simp add: entropy_run_cap entropy_new_def Let_def)
  with entropy_run [OF assms(1,2), of cap] show ?thesis
    unfolding assms(3) entropy_inv_def Let_def by auto
qed

text \<open>A category that is the literal spill key captures later categories: once it is
  recorded, a new category below the cap is counted under the spill key instead of its own.\<close>

lemma spill_key_collision:
  "ent_counts (ent_inner (fold (\<lambda>k s. insert_guarded s k) [SPILL_KEY, ''a'', ''b''] (entropy_new 1024))) =
     [(SPILL_KEY, 3)]"
  by (simp add: entropy_new_def entropy_hist_new_def insert_guarded_def entropy_insert_def
      contains_category_def SPILL_KEY_def Let_def)

end
