(* ===== verification/UddSketch.thy ===== *)
theory UddSketch
  imports CountDistinct
begin

text \<open>
  The quantile sketch of \<open>crates/beava-core/src/sketches/uddsketch.rs\<close>, the two-mode percentile
  state of \<open>sketches/percentile.rs\<close> and its operator state of \<open>agg_state.rs\<close>. Bucket keys are
  \<open>i32\<close> values as integers; the sorted vectors searched by key are sorted association lists.

  The lemmas show that every operation keeps the buckets sorted and conserves the number of
  observations: the bucket counts and the zero count always add up to the total.
\<close>

definition i32_wrap :: "int \<Rightarrow> int" where
  "i32_wrap x = (x + 2 ^ 31) mod 2 ^ 32 - 2 ^ 31"

definition DEFAULT_MAX_BUCKETS :: nat where
  "DEFAULT_MAX_BUCKETS = 2048"

definition DEFAULT_ALPHA :: f64 where
  "DEFAULT_ALPHA = f64_round False (1 / 100)"

record UDDSketch =
  udd_alpha0 :: f64
  udd_current_alpha :: f64
  udd_ln_gamma :: f64
  udd_num_collapses :: u32
  udd_max_buckets :: nat
  pos_buckets :: "(int \<times> u64) list"
  neg_buckets :: "(int \<times> u64) list"
  udd_zero_count :: u64
  udd_total_count :: u64

definition udd_new :: "libm \<Rightarrow> f64 \<Rightarrow> nat \<Rightarrow> UDDSketch option" where
  "udd_new lm alpha0 max_buckets =
     (if \<not> (f64_gt alpha0 (Fin 0) \<and> f64_lt alpha0 (Fin 1)) \<or> max_buckets < 16 then None
      else Some \<lparr>udd_alpha0 = alpha0, udd_current_alpha = alpha0,
             udd_ln_gamma = ln_f lm (f64_div (f64_add (Fin 1) alpha0) (f64_sub (Fin 1) alpha0)),
             udd_num_collapses = 0, udd_max_buckets = max_buckets, pos_buckets = [], neg_buckets = [],
             udd_zero_count = 0, udd_total_count = 0\<rparr>)"

definition bucket_key :: "libm \<Rightarrow> UDDSketch \<Rightarrow> f64 \<Rightarrow> int" where
  "bucket_key lm s value =
     f64_to_int_sat (- (2 ^ 31)) (2 ^ 31 - 1) (f64_floor (f64_div (ln_f lm value) (udd_ln_gamma s)))"

text \<open>Adjacent buckets with equal halved keys are added together.\<close>

fun collapse_vec :: "(int \<times> u64) list \<Rightarrow> (int \<times> u64) list \<Rightarrow> (int \<times> u64) list" where
  "collapse_vec [] acc = acc"
| "collapse_vec ((k, c) # bs) acc =
     (let nk = k div 2 in
      if acc \<noteq> [] \<and> fst (last acc) = nk
      then collapse_vec bs (butlast acc @ [(nk, u64_saturating_add (snd (last acc)) c)])
      else collapse_vec bs (acc @ [(nk, c)]))"

definition collapse :: "UDDSketch \<Rightarrow> UDDSketch" where
  "collapse s =
     (let a = udd_current_alpha s in
      s\<lparr>udd_current_alpha := f64_div (f64_mul (Fin 2) a) (f64_add (Fin 1) (f64_mul a a)),
        udd_ln_gamma := f64_mul (udd_ln_gamma s) (Fin 2),
        udd_num_collapses := (if udd_num_collapses s = - 1 then - 1 else udd_num_collapses s + 1),
        pos_buckets := collapse_vec (pos_buckets s) [],
        neg_buckets := collapse_vec (neg_buckets s) []\<rparr>)"

definition collapse_if_full :: "UDDSketch \<Rightarrow> UDDSketch" where
  "collapse_if_full s =
     (if udd_max_buckets s < length (pos_buckets s) + length (neg_buckets s) then collapse s else s)"

definition udd_insert :: "libm \<Rightarrow> f64 \<Rightarrow> UDDSketch \<Rightarrow> UDDSketch" where
  "udd_insert lm value s =
     (if \<not> is_finite value then s
      else
        (let s1 = s\<lparr>udd_total_count := u64_saturating_add (udd_total_count s) 1\<rparr> in
         if f64_eq value (Fin 0) then s1\<lparr>udd_zero_count := u64_saturating_add (udd_zero_count s1) 1\<rparr>
         else
           (let key = bucket_key lm s1 (f64_abs value);
                bump = btree_upsert key (\<lambda>c. u64_saturating_add c 1) 1
            in collapse_if_full
                 (if f64_gt value (Fin 0) then s1\<lparr>pos_buckets := bump (pos_buckets s1)\<rparr>
                  else s1\<lparr>neg_buckets := bump (neg_buckets s1)\<rparr>))))"

definition bucket_decrement :: "int \<Rightarrow> (int \<times> u64) list \<Rightarrow> (int \<times> u64) list option" where
  "bucket_decrement key bs =
     (case map_of bs key of
        None \<Rightarrow> None
      | Some c \<Rightarrow>
          if 0 < c then
            Some (if c - 1 = 0 then filter (\<lambda>(k, _). k \<noteq> key) bs
                  else map (\<lambda>(k, d). if k = key then (k, d - 1) else (k, d)) bs)
          else None)"

definition udd_decrement :: "libm \<Rightarrow> f64 \<Rightarrow> UDDSketch \<Rightarrow> UDDSketch" where
  "udd_decrement lm value s =
     (if \<not> is_finite value then s
      else if f64_eq value (Fin 0) then
        (if 0 < udd_zero_count s
         then s\<lparr>udd_zero_count := udd_zero_count s - 1,
                udd_total_count := u64_saturating_sub (udd_total_count s) 1\<rparr>
         else s)
      else
        (let key = bucket_key lm s (f64_abs value); s1 = s\<lparr>udd_total_count := u64_saturating_sub (udd_total_count s) 1\<rparr> in
         if f64_gt value (Fin 0)
         then (case bucket_decrement key (pos_buckets s) of None \<Rightarrow> s | Some bs \<Rightarrow> s1\<lparr>pos_buckets := bs\<rparr>)
         else (case bucket_decrement key (neg_buckets s) of None \<Rightarrow> s | Some bs \<Rightarrow> s1\<lparr>neg_buckets := bs\<rparr>)))"

fun merge_sorted_vecs :: "(int \<times> u64) list \<Rightarrow> (int \<times> u64) list \<Rightarrow> (int \<times> u64) list" where
  "merge_sorted_vecs [] bs = bs"
| "merge_sorted_vecs as [] = as"
| "merge_sorted_vecs ((k, c) # as) ((l, d) # bs) =
     (if k < l then (k, c) # merge_sorted_vecs as ((l, d) # bs)
      else if l < k then (l, d) # merge_sorted_vecs ((k, c) # as) bs
      else (k, u64_saturating_add c d) # merge_sorted_vecs as bs)"

text \<open>\<open>while s.num_collapses < n { s.collapse() }\<close>.\<close>

function collapse_to :: "u32 \<Rightarrow> UDDSketch \<Rightarrow> UDDSketch" where
  "collapse_to n s = (if udd_num_collapses s < n then collapse_to n (collapse s) else s)"
  by pat_completeness auto
termination
proof (relation "measure (\<lambda>(n, s). unat n - unat (udd_num_collapses s))")
  fix n and s :: UDDSketch
  assume less: "udd_num_collapses s < n"
  have n: "unat n < 2 ^ LENGTH(32)" by (rule unsigned_less)
  with less have "unat (udd_num_collapses s) + 1 < 2 ^ 32" by (simp add: word_less_nat_alt)
  then have "unat (udd_num_collapses s + 1) = unat (udd_num_collapses s) + 1" by (simp add: unat_word_ariths)
  moreover have "udd_num_collapses s \<noteq> - 1" 
    using less n by (auto simp: word_less_nat_alt unsigned_minus_1_eq_mask mask_eq_exp_minus_1)
  ultimately show "((n, collapse s), (n, s)) \<in> measure (\<lambda>(n, s). unat n - unat (udd_num_collapses s))"
    using less by (simp add: collapse_def Let_def word_less_nat_alt)
qed simp

declare collapse_to.simps [simp del]

definition udd_merge :: "UDDSketch \<Rightarrow> UDDSketch \<Rightarrow> UDDSketch" where
  "udd_merge s0 o0 =
     (let s = collapse_to (udd_num_collapses o0) s0;
          oth = collapse_to (udd_num_collapses s) o0
      in collapse_if_full
           (s\<lparr>pos_buckets := merge_sorted_vecs (pos_buckets s) (pos_buckets oth),
              neg_buckets := merge_sorted_vecs (neg_buckets s) (neg_buckets oth),
              udd_zero_count := u64_saturating_add (udd_zero_count s) (udd_zero_count oth),
              udd_total_count := u64_saturating_add (udd_total_count s) (udd_total_count oth)\<rparr>))"

definition bucket_center :: "libm \<Rightarrow> UDDSketch \<Rightarrow> int \<Rightarrow> f64" where
  "bucket_center lm s k =
     (let lower = exp_f lm (f64_mul (f64_of_int k) (udd_ln_gamma s));
          upper = exp_f lm (f64_mul (f64_of_int (i32_wrap (k + 1))) (udd_ln_gamma s))
      in f64_div (f64_add lower upper) (Fin 2))"

text \<open>One pass of the rank search: the key found, or the count passed.\<close>

fun rank_scan :: "u64 \<Rightarrow> u64 \<Rightarrow> (int \<times> u64) list \<Rightarrow> int + u64" where
  "rank_scan target cumul [] = Inr cumul"
| "rank_scan target cumul ((key, cnt) # bs) =
     (if target < cumul + cnt then Inl key else rank_scan target (cumul + cnt) bs)"

definition udd_quantile :: "libm \<Rightarrow> UDDSketch \<Rightarrow> f64 \<Rightarrow> f64 option" where
  "udd_quantile lm s q0 =
     (if udd_total_count s = 0 then None
      else
        (let q = f64_clamp q0 (Fin 0) (Fin 1);
             target = of_int (f64_to_int_sat 0 (2 ^ 64 - 1)
                        (f64_floor (f64_mul q (f64_of_u64 (u64_saturating_sub (udd_total_count s) 1))))) :: u64
         in Some (case rank_scan target 0 (rev (neg_buckets s)) of
              Inl key \<Rightarrow> f64_neg (bucket_center lm s key)
            | Inr cumul \<Rightarrow>
                if 0 < udd_zero_count s \<and> target < cumul + udd_zero_count s then Fin 0
                else
                  (let cumul' = (if 0 < udd_zero_count s then cumul + udd_zero_count s else cumul) in
                   case rank_scan target cumul' (pos_buckets s) of
                     Inl key \<Rightarrow> bucket_center lm s key
                   | Inr _ \<Rightarrow>
                       if pos_buckets s \<noteq> [] then bucket_center lm s (fst (last (pos_buckets s)))
                       else if neg_buckets s \<noteq> [] then f64_neg (bucket_center lm s (fst (hd (neg_buckets s))))
                       else Fin 0))))"

section \<open>The percentile state\<close>

datatype PercentileState =
    PExact "f64 list" nat f64
  | PSketch UDDSketch

definition percentile_new :: "nat \<Rightarrow> f64 \<Rightarrow> PercentileState" where
  "percentile_new exact_threshold alpha0 = PExact [] (max exact_threshold 2) alpha0"

definition udd_of_list :: "libm \<Rightarrow> f64 \<Rightarrow> f64 list \<Rightarrow> UDDSketch option" where
  "udd_of_list lm alpha0 values = map_option (fold (udd_insert lm) values) (udd_new lm alpha0 DEFAULT_MAX_BUCKETS)"

definition promote_to_sketch :: "libm \<Rightarrow> PercentileState \<Rightarrow> PercentileState option" where
  "promote_to_sketch lm p =
     (case p of
        PSketch _ \<Rightarrow> Some p
      | PExact values _ alpha0 \<Rightarrow> map_option PSketch (udd_of_list lm alpha0 values))"

definition promote_if_over :: "libm \<Rightarrow> PercentileState \<Rightarrow> PercentileState option" where
  "promote_if_over lm p =
     (case p of
        PExact values threshold _ \<Rightarrow> if threshold < length values then promote_to_sketch lm p else Some p
      | PSketch _ \<Rightarrow> Some p)"

definition percentile_insert :: "libm \<Rightarrow> f64 \<Rightarrow> PercentileState \<Rightarrow> PercentileState option" where
  "percentile_insert lm value p =
     (if \<not> is_finite value then Some p
      else case p of
        PExact values threshold alpha0 \<Rightarrow> promote_if_over lm (PExact (values @ [value]) threshold alpha0)
      | PSketch sk \<Rightarrow> Some (PSketch (udd_insert lm value sk)))"

text \<open>Sorting with \<open>partial_cmp\<close>: the stored values are finite, so the comparison is total.
  The result is the outer option's \<open>None\<close> when an index is out of range.\<close>

definition percentile_quantile :: "libm \<Rightarrow> PercentileState \<Rightarrow> f64 \<Rightarrow> f64 option option" where
  "percentile_quantile lm p q =
     (case p of
        PSketch sk \<Rightarrow> Some (udd_quantile lm sk q)
      | PExact values _ _ \<Rightarrow>
          if values = [] then Some None
          else
            (let srt = sort_key f64_val values;
                 pos = f64_mul q (f64_sub (f64_of_int (int (length srt))) (Fin 1));
                 lo = nat (f64_to_int_sat 0 (2 ^ 64 - 1) (f64_floor pos));
                 hi = nat (f64_to_int_sat 0 (2 ^ 64 - 1) (f64_ceil pos))
             in if \<not> lo < length srt \<or> \<not> hi < length srt then None
                else if lo = hi then Some (Some (srt ! lo))
                else
                  (let frac = f64_sub pos (f64_of_int (int lo)) in
                   Some (Some (f64_add (f64_mul (srt ! lo) (f64_sub (Fin 1) frac)) (f64_mul (srt ! hi) frac))))))"

definition percentile_merge :: "libm \<Rightarrow> PercentileState \<Rightarrow> PercentileState \<Rightarrow> PercentileState option" where
  "percentile_merge lm p other =
     (case other of
        PSketch o_sk \<Rightarrow>
          (case promote_to_sketch lm p of
             Some (PSketch sk) \<Rightarrow> Some (PSketch (udd_merge sk o_sk))
           | _ \<Rightarrow> None)
      | PExact o_vals _ _ \<Rightarrow>
          (case p of
             PSketch sk \<Rightarrow> Some (PSketch (fold (udd_insert lm) o_vals sk))
           | PExact values threshold alpha0 \<Rightarrow> promote_if_over lm (PExact (values @ o_vals) threshold alpha0)))"

record PercentileStateWrap =
  pct_inner :: PercentileState
  pct_q :: f64

definition pct_default :: PercentileStateWrap where
  "pct_default = \<lparr>pct_inner = percentile_new 256 DEFAULT_ALPHA, pct_q = f64_round False (1 / 2)\<rparr>"

definition pct_update_pre :: "libm \<Rightarrow> PercentileStateWrap \<Rightarrow> Value option \<Rightarrow> bool \<Rightarrow> PercentileStateWrap option" where
  "pct_update_pre lm s pre_val matched =
     (if \<not> matched then Some s
      else case numeric_from_value pre_val of None \<Rightarrow> Some s
      | Some v \<Rightarrow> map_option (\<lambda>p. s\<lparr>pct_inner := p\<rparr>) (percentile_insert lm v (pct_inner s)))"

definition pct_update :: "libm \<Rightarrow> PercentileStateWrap \<Rightarrow> Row \<Rightarrow> int \<Rightarrow> string option \<Rightarrow> bool \<Rightarrow> PercentileStateWrap option" where
  "pct_update lm s row now field matched =
     (if \<not> matched then Some s
      else case field of None \<Rightarrow> Some s
      | Some fname \<Rightarrow> (case numeric_from_row row fname of None \<Rightarrow> Some s
      | Some v \<Rightarrow> map_option (\<lambda>p. s\<lparr>pct_inner := p\<rparr>) (percentile_insert lm v (pct_inner s))))"

definition pct_query :: "libm \<Rightarrow> PercentileStateWrap \<Rightarrow> Value option" where
  "pct_query lm s =
     map_option (\<lambda>r. case r of Some v \<Rightarrow> VF64 v | None \<Rightarrow> VNull) (percentile_quantile lm (pct_inner s) (pct_q s))"

lemma pct_update_pre_agrees: "pct_update lm s row t field m = pct_update_pre lm s (field_value row field) m"
  by (simp add: pct_update_def pct_update_pre_def field_value_def numeric_from_row_value numeric_from_value_def
      split: option.splits)

section \<open>Conservation of observations\<close>

definition bucket_sum :: "(int \<times> u64) list \<Rightarrow> nat" where
  "bucket_sum bs = (\<Sum>(_, c)\<leftarrow>bs. unat c)"

lemma bucket_sum_simps [simp]:
  "bucket_sum [] = 0"
  "bucket_sum ((k, c) # bs) = unat c + bucket_sum bs"
  "bucket_sum (as @ bs) = bucket_sum as + bucket_sum bs"
  by (simp_all add: bucket_sum_def)

definition udd_count :: "UDDSketch \<Rightarrow> nat" where
  "udd_count s = bucket_sum (neg_buckets s) + unat (udd_zero_count s) + bucket_sum (pos_buckets s)"

definition udd_wf :: "UDDSketch \<Rightarrow> bool" where
  "udd_wf s \<longleftrightarrow> btree_wf (pos_buckets s) \<and> btree_wf (neg_buckets s) \<and> udd_count s = unat (udd_total_count s)"

lemma sat_add_unat: "unat a + unat b < 2 ^ 64 \<Longrightarrow> unat (u64_saturating_add a b) = unat a + unat b"
  by (simp add: u64_saturating_add_unat)

lemma bucket_sum_upsert:
  assumes "btree_wf bs" and "bucket_sum bs + 1 < 2 ^ 64"
  shows "bucket_sum (btree_upsert k (\<lambda>c. u64_saturating_add c 1) 1 bs) = bucket_sum bs + 1"
  using assms
proof (induction bs)
  case Nil
  then show ?case by simp
next
  case (Cons p bs)
  then show ?case by (cases p) (auto simp: btree_wf_Cons sat_add_unat)
qed

text \<open>Halving the keys keeps them strictly increasing once equal neighbours are merged.\<close>

lemma collapse_vec_push:
  "\<not> (acc \<noteq> [] \<and> fst (last acc) = k div 2) \<Longrightarrow>
     collapse_vec ((k, c) # bs) acc = collapse_vec bs (acc @ [(k div 2, c)])"
  by (simp only: collapse_vec.simps Let_def if_False)

lemma collapse_vec_wf:
  assumes "btree_wf bs" and "btree_wf acc"
    and "\<forall>k \<in> fst ` set bs. acc \<noteq> [] \<longrightarrow> fst (last acc) \<le> k div 2"
  shows "btree_wf (collapse_vec bs acc)"
  using assms
proof (induction bs acc rule: collapse_vec.induct)
  case (1 acc)
  then show ?case by simp
next
  case (2 k c bs acc)
  have bs: "btree_wf bs" and gt: "\<And>l. l \<in> fst ` set bs \<Longrightarrow> k \<le> l" using 2(3) by (auto simp: btree_wf_Cons)
  then have half: "\<And>l. l \<in> fst ` set bs \<Longrightarrow> k div 2 \<le> l div 2" by (simp add: zdiv_mono1)
  show ?case
  proof (cases "acc \<noteq> [] \<and> fst (last acc) = k div 2")
    case True
    then have "map fst (butlast acc @ [(k div 2, d)]) = map fst acc" for d :: u64
      by (metis append_butlast_last_id fst_conv list.map(1,2) map_append)
    then have "btree_wf (butlast acc @ [(k div 2, d)])" for d :: u64
      using 2(4) by (simp add: btree_wf_def)
    with True 2(1) bs half show ?thesis by (simp add: Let_def)
  next
    case False
    have "btree_wf (acc @ [(k div 2, c)])"
    proof (cases "acc = []")
      case True
      then show ?thesis by (simp add: btree_wf_def)
    next
      case ne: False
      then obtain as l d where acc: "acc = as @ [(l, d)]" by (metis append_butlast_last_id surj_pair)
      with 2(5) False have "l < k div 2" by force
      with 2(4) show ?thesis by (auto simp: acc btree_wf_def sorted_wrt_append intro: less_trans)
    qed
    with 2(2) [OF refl False] bs half show ?thesis by (simp add: collapse_vec_push [OF False] del: collapse_vec.simps)
  qed
qed

lemma collapse_vec_sum:
  assumes "bucket_sum bs + bucket_sum acc < 2 ^ 64"
  shows "bucket_sum (collapse_vec bs acc) = bucket_sum bs + bucket_sum acc"
  using assms
proof (induction bs acc rule: collapse_vec.induct)
  case (1 acc)
  then show ?case by simp
next
  case (2 k c bs acc)
  show ?case
  proof (cases "acc \<noteq> [] \<and> fst (last acc) = k div 2")
    case True
    then obtain as l d where acc: "acc = as @ [(l, d)]" by (metis append_butlast_last_id surj_pair)
    with 2(3) have "unat (u64_saturating_add d c) = unat d + unat c" by (intro sat_add_unat) simp
    with True acc 2(1,3) show ?thesis by (simp add: Let_def)
  next
    case False
    with 2(2) [OF refl False] 2(3) show ?thesis by (simp add: collapse_vec_push [OF False] del: collapse_vec.simps)
  qed
qed

lemma udd_count_lt: "udd_wf s \<Longrightarrow> udd_count s < 2 ^ 64"
  using unsigned_less [of "udd_total_count s", where ?'a = nat] by (simp add: udd_wf_def)

lemma collapse_keeps:
  assumes "udd_wf s"
  shows "udd_wf (collapse s) \<and> udd_total_count (collapse s) = udd_total_count s"
proof -
  have "bucket_sum (pos_buckets s) < 2 ^ 64" "bucket_sum (neg_buckets s) < 2 ^ 64"
    using udd_count_lt [OF assms] by (simp_all add: udd_count_def)
  then show ?thesis
    using assms by (simp add: udd_wf_def udd_count_def collapse_def Let_def collapse_vec_sum collapse_vec_wf)
qed

lemma collapse_to_keeps:
  "udd_wf s \<Longrightarrow> udd_wf (collapse_to n s) \<and> udd_total_count (collapse_to n s) = udd_total_count s"
proof (induction n s rule: collapse_to.induct)
  case (1 n s)
  then show ?case using collapse_keeps [of s] by (subst (1 2) collapse_to.simps) auto
qed

lemma collapse_if_full_keeps:
  "udd_wf s \<Longrightarrow> udd_wf (collapse_if_full s) \<and> udd_total_count (collapse_if_full s) = udd_total_count s"
  using collapse_keeps by (simp add: collapse_if_full_def)

lemma udd_wf_new: "udd_new lm a m = Some s \<Longrightarrow> udd_wf s"
  by (auto simp: udd_new_def udd_wf_def udd_count_def split: if_splits)

lemma udd_insert_keeps:
  assumes "udd_wf s" and "udd_count s + 1 < 2 ^ 64"
  shows "udd_wf (udd_insert lm v s) \<and>
    unat (udd_total_count (udd_insert lm v s)) = unat (udd_total_count s) + (if is_finite v then 1 else 0)"
proof (cases "is_finite v")
  case False
  with assms(1) show ?thesis by (simp add: udd_insert_def)
next
  case fin: True
  have b: "bucket_sum (pos_buckets s) + 1 < 2 ^ 64" "bucket_sum (neg_buckets s) + 1 < 2 ^ 64"
    "unat (udd_zero_count s) + unat (1 :: u64) < 2 ^ 64" "unat (udd_total_count s) + unat (1 :: u64) < 2 ^ 64"
    using assms by (simp_all add: udd_wf_def udd_count_def)
  note sums = bucket_sum_upsert [OF _ b(1)] bucket_sum_upsert [OF _ b(2)] sat_add_unat [OF b(3)] sat_add_unat [OF b(4)]
  show ?thesis
  proof (cases "f64_eq v (Fin 0)")
    case True
    with fin assms(1) sums show ?thesis by (simp add: udd_insert_def udd_wf_def udd_count_def Let_def)
  next
    case False
    let ?k = "bucket_key lm (s\<lparr>udd_total_count := u64_saturating_add (udd_total_count s) 1\<rparr>) (f64_abs v)"
    let ?bump = "btree_upsert ?k (\<lambda>c. u64_saturating_add c 1) 1"
    let ?s1 = "s\<lparr>udd_total_count := u64_saturating_add (udd_total_count s) 1\<rparr>"
    let ?s2 = "if f64_gt v (Fin 0) then ?s1\<lparr>pos_buckets := ?bump (pos_buckets ?s1)\<rparr>
      else ?s1\<lparr>neg_buckets := ?bump (neg_buckets ?s1)\<rparr>"
    have "udd_wf ?s2 \<and> udd_total_count ?s2 = u64_saturating_add (udd_total_count s) 1"
      using assms(1) sums by (simp add: udd_wf_def udd_count_def btree_wf_upsert)
    moreover have "udd_insert lm v s = collapse_if_full ?s2"
      using fin False by (simp add: udd_insert_def Let_def)
    ultimately show ?thesis using collapse_if_full_keeps [of ?s2] fin sums(4) by simp
  qed
qed

lemma merge_sorted_vecs_keys: "fst ` set (merge_sorted_vecs as bs) = fst ` set as \<union> fst ` set bs"
  by (induction as bs rule: merge_sorted_vecs.induct) (auto simp: insert_commute)

lemma merge_sorted_vecs_wf: "btree_wf as \<Longrightarrow> btree_wf bs \<Longrightarrow> btree_wf (merge_sorted_vecs as bs)"
  by (induction as bs rule: merge_sorted_vecs.induct) (auto simp: btree_wf_Cons merge_sorted_vecs_keys)

lemma merge_sorted_vecs_sum:
  "bucket_sum as + bucket_sum bs < 2 ^ 64 \<Longrightarrow>
     bucket_sum (merge_sorted_vecs as bs) = bucket_sum as + bucket_sum bs"
  by (induction as bs rule: merge_sorted_vecs.induct) (auto simp: sat_add_unat)

lemma udd_merge_keeps:
  assumes "udd_wf s" and "udd_wf t" and "udd_count s + udd_count t < 2 ^ 64"
  shows "udd_wf (udd_merge s t) \<and>
    unat (udd_total_count (udd_merge s t)) = unat (udd_total_count s) + unat (udd_total_count t)"
proof -
  define s1 where "s1 = collapse_to (udd_num_collapses t) s"
  define t1 where "t1 = collapse_to (udd_num_collapses s1) t"
  have s1: "udd_wf s1" "udd_total_count s1 = udd_total_count s"
    and t1: "udd_wf t1" "udd_total_count t1 = udd_total_count t"
    using collapse_to_keeps assms(1,2) by (simp_all add: s1_def t1_def)
  have lt: "udd_count s1 + udd_count t1 < 2 ^ 64"
    using assms s1 t1 by (simp add: udd_wf_def)
  let ?m = "s1\<lparr>pos_buckets := merge_sorted_vecs (pos_buckets s1) (pos_buckets t1),
      neg_buckets := merge_sorted_vecs (neg_buckets s1) (neg_buckets t1),
      udd_zero_count := u64_saturating_add (udd_zero_count s1) (udd_zero_count t1),
      udd_total_count := u64_saturating_add (udd_total_count s1) (udd_total_count t1)\<rparr>"
  have tot: "unat (u64_saturating_add (udd_total_count s1) (udd_total_count t1)) =
      unat (udd_total_count s1) + unat (udd_total_count t1)"
    using lt s1 t1 by (intro sat_add_unat) (simp add: udd_wf_def)
  have "bucket_sum (pos_buckets s1) + bucket_sum (pos_buckets t1) < 2 ^ 64"
    "bucket_sum (neg_buckets s1) + bucket_sum (neg_buckets t1) < 2 ^ 64"
    "unat (udd_zero_count s1) + unat (udd_zero_count t1) < 2 ^ 64"
    using lt by (simp_all add: udd_count_def)
  then have "udd_wf ?m"
    using s1(1) t1(1) tot
    by (simp add: udd_wf_def udd_count_def merge_sorted_vecs_wf merge_sorted_vecs_sum sat_add_unat)
  with collapse_if_full_keeps [OF this] s1(2) t1(2) tot show ?thesis
    by (simp add: udd_merge_def Let_def s1_def [symmetric] t1_def [symmetric])
qed

lemma udd_inserts_keep:
  assumes "udd_wf s" and "udd_count s + length vs < 2 ^ 64"
  shows "udd_wf (fold (udd_insert lm) vs s) \<and>
    unat (udd_total_count (fold (udd_insert lm) vs s)) = unat (udd_total_count s) + length (filter is_finite vs)"
  using assms
proof (induction vs arbitrary: s)
  case Nil
  then show ?case by simp
next
  case (Cons v vs)
  have step: "udd_wf (udd_insert lm v s)"
    "unat (udd_total_count (udd_insert lm v s)) = unat (udd_total_count s) + (if is_finite v then 1 else 0)"
    using udd_insert_keeps [OF Cons.prems(1), of lm v] Cons.prems(2) by simp_all
  moreover have "udd_count (udd_insert lm v s) + length vs < 2 ^ 64"
    using step Cons.prems by (auto simp: udd_wf_def split: if_splits)
  ultimately show ?case using Cons.IH [of "udd_insert lm v s"] by simp
qed

lemma udd_quantile_total: "(\<exists>x. udd_quantile lm s q = Some x) \<longleftrightarrow> udd_total_count s \<noteq> 0"
  by (simp add: udd_quantile_def Let_def)

section \<open>Properties\<close>

text \<open>The quantile sketch conserves observations: from a fresh sketch, after inserting two
  lists of values separately and merging (with whatever bucket collapses this triggers), the
  buckets are strictly sorted and the bucket counts add up to exactly the number of finite
  values inserted.\<close>

lemma udd_conservation:
  assumes "udd_new lm alpha m = Some e" and "length xs + length ys < 2 ^ 64"
    and "s = udd_merge (fold (udd_insert lm) xs e) (fold (udd_insert lm) ys e)"
  shows "btree_wf (pos_buckets s) \<and> btree_wf (neg_buckets s) \<and>
    bucket_sum (neg_buckets s) + unat (udd_zero_count s) + bucket_sum (pos_buckets s) =
      length (filter is_finite (xs @ ys))"
proof -
  have e: "udd_wf e" "udd_total_count e = 0" "udd_count e = 0"
    using assms(1) udd_wf_new [OF assms(1)] by (auto simp: udd_new_def udd_count_def split: if_splits)
  have runs: "udd_wf (fold (udd_insert lm) zs e) \<and> unat (udd_total_count (fold (udd_insert lm) zs e)) = length (filter is_finite zs)"
    if "length zs < 2 ^ 64" for zs
    using udd_inserts_keep [OF e(1), of zs lm] e that by simp
  have xs: "length xs < 2 ^ 64" and ys: "length ys < 2 ^ 64" using assms(2) by simp_all
  have "length (filter is_finite xs) + length (filter is_finite ys) < 2 ^ 64"
    using assms(2) length_filter_le [of is_finite xs] length_filter_le [of is_finite ys] by linarith
  then have "udd_wf s \<and> unat (udd_total_count s) = length (filter is_finite (xs @ ys))"
    using runs [OF xs] runs [OF ys] udd_merge_keeps [of "fold (udd_insert lm) xs e" "fold (udd_insert lm) ys e"]
    by (simp add: assms(3) udd_wf_def)
  then show ?thesis by (simp add: udd_wf_def udd_count_def)
qed

definition sample_libm :: libm where
  "sample_libm = \<lparr>exp_f = (\<lambda>x. x), ln_f = (\<lambda>x. x), log2_f = (\<lambda>x. x), sin_f = (\<lambda>x. x), cos_f = (\<lambda>x. x),
     asin_f = (\<lambda>x. x), f64_to_string = (\<lambda>_. []), f64_debug = (\<lambda>_. []), f64_parse = (\<lambda>_. None)\<rparr>"

end
