(* ===== verification/AggVelocity.thy ===== *)
theory AggVelocity
  imports AggStates
begin

text \<open>
  The velocity family of \<open>crates/beava-core/src/agg_state_velocity.rs\<close>: rate of change,
  inter-arrival statistics, burst counting, delta, trend and its residual, outliers, value
  changes and the z-score. Time differences are \<open>i64\<close> subtractions with the wrap-around of
  the release profile; the burst counter indexes its 64 slots by the Euclidean quotient of
  the time and returns \<open>None\<close> where that division overflows and panics.

  The lemmas show what the burst counter and the change counter count over a run of events.
\<close>

section \<open>Rate of change and inter-arrival statistics\<close>

record RateOfChangeState =
  roc_last_value :: f64
  roc_last_t :: int
  roc_current_rate :: f64
  roc_initialized :: bool
  roc_has_rate :: bool

definition roc_default :: RateOfChangeState where
  "roc_default = \<lparr>roc_last_value = Fin 0, roc_last_t = 0, roc_current_rate = Fin 0,
     roc_initialized = False, roc_has_rate = False\<rparr>"

definition roc_observe :: "RateOfChangeState \<Rightarrow> f64 \<Rightarrow> int \<Rightarrow> RateOfChangeState" where
  "roc_observe s x now =
     (if \<not> roc_initialized s then
        s\<lparr>roc_last_value := x, roc_last_t := now, roc_initialized := True\<rparr>
      else
        (let dt = i64_wrap (now - roc_last_t s);
             s' = (if 0 < dt then
                     s\<lparr>roc_current_rate := f64_div (f64_sub x (roc_last_value s)) (f64_of_int dt),
                       roc_has_rate := True\<rparr>
                   else s)
         in s'\<lparr>roc_last_value := x, roc_last_t := now\<rparr>))"

definition roc_update :: "RateOfChangeState \<Rightarrow> Row \<Rightarrow> int \<Rightarrow> string option \<Rightarrow> bool \<Rightarrow> RateOfChangeState" where
  "roc_update s row now field matched =
     (if \<not> matched then s
      else case field of None \<Rightarrow> s
      | Some fname \<Rightarrow> (case numeric_from_row row fname of None \<Rightarrow> s
      | Some x \<Rightarrow> roc_observe s x now))"

definition roc_query :: "RateOfChangeState \<Rightarrow> Value" where
  "roc_query s = (if roc_has_rate s then VF64 (roc_current_rate s) else VNull)"

record InterArrivalStatsState =
  ias_last_t :: int
  ias_initialized :: bool
  ias_n :: u64
  ias_mean :: f64
  ias_m2 :: f64

definition ias_default :: InterArrivalStatsState where
  "ias_default = \<lparr>ias_last_t = 0, ias_initialized = False, ias_n = 0, ias_mean = Fin 0, ias_m2 = Fin 0\<rparr>"

definition ias_update :: "InterArrivalStatsState \<Rightarrow> Row \<Rightarrow> int \<Rightarrow> string option \<Rightarrow> bool \<Rightarrow> InterArrivalStatsState" where
  "ias_update s row now field matched =
     (if \<not> matched then s
      else if \<not> ias_initialized s then s\<lparr>ias_last_t := now, ias_initialized := True\<rparr>
      else
        (let gap = f64_of_int (max (i64_wrap (now - ias_last_t s)) 0);
             n = ias_n s + 1;
             delta = f64_sub gap (ias_mean s);
             mean = f64_add (ias_mean s) (f64_div delta (f64_of_u64 n));
             delta2 = f64_sub gap mean
         in s\<lparr>ias_n := n, ias_mean := mean, ias_m2 := f64_add (ias_m2 s) (f64_mul delta delta2),
              ias_last_t := now\<rparr>))"

definition ias_query :: "InterArrivalStatsState \<Rightarrow> Value" where
  "ias_query s = (if ias_n s = 0 then VNull else VF64 (ias_mean s))"

section \<open>Burst counter\<close>

record BurstCountState =
  burst_buckets :: "u64 list"
  burst_bucket_epoch :: "int list"
  burst_max_seen :: u64
  burst_initialized :: bool

definition burst_default :: BurstCountState where
  "burst_default = \<lparr>burst_buckets = replicate 64 0, burst_bucket_epoch = replicate 64 i64_min,
     burst_max_seen = 0, burst_initialized = False\<rparr>"

text \<open>The slot index is below 64 and both vectors have 64 entries after the defensive
  re-initialisation, so the indexing never panics; the Euclidean division may.\<close>

definition burst_update :: "BurstCountState \<Rightarrow> Row \<Rightarrow> int \<Rightarrow> string option \<Rightarrow> bool \<Rightarrow> u64 \<Rightarrow> BurstCountState option" where
  "burst_update s row now field matched sub_window_ms =
     (if \<not> matched \<or> sub_window_ms = 0 then Some s
      else case i64_div_euclid now (u64_as_i64 sub_window_ms) of
        None \<Rightarrow> None
      | Some q \<Rightarrow>
          (let bs = (if length (burst_buckets s) \<noteq> 64 then replicate 64 0 else burst_buckets s);
               es = (if length (burst_bucket_epoch s) \<noteq> 64 then replicate 64 i64_min
                     else burst_bucket_epoch s);
               epoch = i64_wrap (q * u64_as_i64 sub_window_ms);
               idx = nat (q mod 64);
               (bs1, es1) = (if es ! idx \<noteq> epoch then (bs[idx := 0], es[idx := epoch]) else (bs, es));
               bs2 = bs1[idx := bs1 ! idx + 1]
           in Some \<lparr>burst_buckets = bs2, burst_bucket_epoch = es1,
                burst_max_seen = (if burst_max_seen s < bs2 ! idx then bs2 ! idx else burst_max_seen s),
                burst_initialized = True\<rparr>))"

definition burst_query :: "BurstCountState \<Rightarrow> Value" where
  "burst_query s = (if \<not> burst_initialized s then VI64 0 else VI64 (u64_as_i64 (burst_max_seen s)))"

section \<open>Delta, trend and residual\<close>

record DeltaFromPrevState =
  delta_last_value :: f64
  delta_current :: f64
  delta_initialized :: bool
  delta_has_delta :: bool

definition delta_default :: DeltaFromPrevState where
  "delta_default = \<lparr>delta_last_value = Fin 0, delta_current = Fin 0,
     delta_initialized = False, delta_has_delta = False\<rparr>"

definition delta_update :: "DeltaFromPrevState \<Rightarrow> Row \<Rightarrow> int \<Rightarrow> string option \<Rightarrow> bool \<Rightarrow> DeltaFromPrevState" where
  "delta_update s row now field matched =
     (if \<not> matched then s
      else case field of None \<Rightarrow> s
      | Some fname \<Rightarrow> (case numeric_from_row row fname of None \<Rightarrow> s
      | Some x \<Rightarrow>
          (if \<not> delta_initialized s then s\<lparr>delta_last_value := x, delta_initialized := True\<rparr>
           else s\<lparr>delta_current := f64_sub x (delta_last_value s), delta_has_delta := True,
                  delta_last_value := x\<rparr>)))"

definition delta_query :: "DeltaFromPrevState \<Rightarrow> Value" where
  "delta_query s = (if delta_has_delta s then VF64 (delta_current s) else VNull)"

record TrendState =
  trend_n :: u64
  trend_sum_x :: f64
  trend_sum_y :: f64
  trend_sum_xx :: f64
  trend_sum_xy :: f64
  trend_initialized :: bool

definition trend_default :: TrendState where
  "trend_default = \<lparr>trend_n = 0, trend_sum_x = Fin 0, trend_sum_y = Fin 0, trend_sum_xx = Fin 0,
     trend_sum_xy = Fin 0, trend_initialized = False\<rparr>"

definition trend_update :: "TrendState \<Rightarrow> Row \<Rightarrow> int \<Rightarrow> string option \<Rightarrow> bool \<Rightarrow> TrendState" where
  "trend_update s row now field matched =
     (if \<not> matched then s
      else case field of None \<Rightarrow> s
      | Some fname \<Rightarrow> (case numeric_from_row row fname of None \<Rightarrow> s
      | Some y \<Rightarrow>
          (let x = f64_of_int now in
           s\<lparr>trend_n := trend_n s + 1,
             trend_sum_x := f64_add (trend_sum_x s) x,
             trend_sum_y := f64_add (trend_sum_y s) y,
             trend_sum_xx := f64_add (trend_sum_xx s) (f64_mul x x),
             trend_sum_xy := f64_add (trend_sum_xy s) (f64_mul x y),
             trend_initialized := True\<rparr>)))"

definition trend_slope :: "TrendState \<Rightarrow> f64 option" where
  "trend_slope s =
     (if trend_n s < 2 then None
      else
        (let n = f64_of_u64 (trend_n s);
             denom = f64_sub (f64_mul n (trend_sum_xx s)) (f64_mul (trend_sum_x s) (trend_sum_x s))
         in if f64_eq denom (Fin 0) then None
            else Some (f64_div (f64_sub (f64_mul n (trend_sum_xy s)) (f64_mul (trend_sum_x s) (trend_sum_y s)))
                        denom)))"

definition trend_intercept :: "TrendState \<Rightarrow> f64 option" where
  "trend_intercept s =
     (case trend_slope s of None \<Rightarrow> None
      | Some slope \<Rightarrow>
          Some (f64_div (f64_sub (trend_sum_y s) (f64_mul slope (trend_sum_x s))) (f64_of_u64 (trend_n s))))"

definition trend_query :: "TrendState \<Rightarrow> Value" where
  "trend_query s = (case trend_slope s of Some x \<Rightarrow> VF64 x | None \<Rightarrow> VNull)"

record TrendResidualState =
  tres_trend :: TrendState
  tres_last_value :: f64
  tres_last_t :: int
  tres_initialized :: bool

definition tres_default :: TrendResidualState where
  "tres_default = \<lparr>tres_trend = trend_default, tres_last_value = Fin 0, tres_last_t = 0,
     tres_initialized = False\<rparr>"

definition tres_update :: "TrendResidualState \<Rightarrow> Row \<Rightarrow> int \<Rightarrow> string option \<Rightarrow> bool \<Rightarrow> TrendResidualState" where
  "tres_update s row now field matched =
     (if \<not> matched then s
      else case field of None \<Rightarrow> s
      | Some fname \<Rightarrow> (case numeric_from_row row fname of None \<Rightarrow> s
      | Some y \<Rightarrow> s\<lparr>tres_trend := trend_update (tres_trend s) row now field matched,
                      tres_last_value := y, tres_last_t := now, tres_initialized := True\<rparr>))"

definition tres_query :: "TrendResidualState \<Rightarrow> Value" where
  "tres_query s =
     (if \<not> tres_initialized s then VNull
      else case (trend_slope (tres_trend s), trend_intercept (tres_trend s)) of
        (Some slope, Some intercept) \<Rightarrow>
          VF64 (f64_sub (tres_last_value s)
                 (f64_add (f64_mul slope (f64_of_int (tres_last_t s))) intercept))
      | _ \<Rightarrow> VNull)"

section \<open>Outliers, value changes and the z-score\<close>

definition MIN_BASELINE_N :: u64 where
  "MIN_BASELINE_N = 5"

record OutlierCountState =
  outl_n :: u64
  outl_mean :: f64
  outl_m2 :: f64
  outl_outliers :: u64

definition outlier_default :: OutlierCountState where
  "outlier_default = \<lparr>outl_n = 0, outl_mean = Fin 0, outl_m2 = Fin 0, outl_outliers = 0\<rparr>"

definition outlier_test :: "OutlierCountState \<Rightarrow> f64 \<Rightarrow> f64 \<Rightarrow> bool" where
  "outlier_test s x sigma =
     (MIN_BASELINE_N \<le> outl_n s \<and>
      (let var = (if 1 < outl_n s then f64_div (outl_m2 s) (f64_of_u64 (outl_n s - 1)) else Fin 0) in
       f64_gt var (Fin 0) \<and>
       f64_gt (f64_abs (f64_sub x (outl_mean s))) (f64_mul sigma (f64_sqrt var))))"

definition outlier_observe :: "OutlierCountState \<Rightarrow> f64 \<Rightarrow> f64 \<Rightarrow> OutlierCountState" where
  "outlier_observe s x sigma =
     (let outliers = (if outlier_test s x sigma then outl_outliers s + 1 else outl_outliers s);
          n = outl_n s + 1;
          delta = f64_sub x (outl_mean s);
          mean = f64_add (outl_mean s) (f64_div delta (f64_of_u64 n));
          delta2 = f64_sub x mean
      in \<lparr>outl_n = n, outl_mean = mean, outl_m2 = f64_add (outl_m2 s) (f64_mul delta delta2),
          outl_outliers = outliers\<rparr>)"

definition outlier_update :: "OutlierCountState \<Rightarrow> Row \<Rightarrow> int \<Rightarrow> string option \<Rightarrow> bool \<Rightarrow> f64 \<Rightarrow> OutlierCountState" where
  "outlier_update s row now field matched sigma =
     (if \<not> matched then s
      else case field of None \<Rightarrow> s
      | Some fname \<Rightarrow> (case numeric_from_row row fname of None \<Rightarrow> s
      | Some x \<Rightarrow> outlier_observe s x sigma))"

definition outlier_query :: "OutlierCountState \<Rightarrow> Value" where
  "outlier_query s = VI64 (u64_as_i64 (outl_outliers s))"

record ValueChangeCountState =
  vcc_last_value :: "Value option"
  vcc_changes :: u64

definition vcc_default :: ValueChangeCountState where
  "vcc_default = \<lparr>vcc_last_value = None, vcc_changes = 0\<rparr>"

definition vcc_observe :: "ValueChangeCountState \<Rightarrow> Value \<Rightarrow> ValueChangeCountState" where
  "vcc_observe s v =
     (case vcc_last_value s of
        None \<Rightarrow> s\<lparr>vcc_last_value := Some v\<rparr>
      | Some prev \<Rightarrow> if \<not> value_eq prev v then s\<lparr>vcc_changes := vcc_changes s + 1, vcc_last_value := Some v\<rparr>
                   else s)"

definition vcc_update :: "ValueChangeCountState \<Rightarrow> Row \<Rightarrow> int \<Rightarrow> string option \<Rightarrow> bool \<Rightarrow> ValueChangeCountState" where
  "vcc_update s row now field matched =
     (if \<not> matched then s
      else case field of None \<Rightarrow> s
      | Some fname \<Rightarrow> (case present (row_get row fname) of None \<Rightarrow> s
      | Some v \<Rightarrow> vcc_observe s v))"

definition vcc_query :: "ValueChangeCountState \<Rightarrow> Value" where
  "vcc_query s = VI64 (u64_as_i64 (vcc_changes s))"

record ZScoreState =
  zs_n :: u64
  zs_mean :: f64
  zs_m2 :: f64
  zs_last_value :: f64
  zs_initialized :: bool

definition zscore_default :: ZScoreState where
  "zscore_default = \<lparr>zs_n = 0, zs_mean = Fin 0, zs_m2 = Fin 0, zs_last_value = Fin 0,
     zs_initialized = False\<rparr>"

definition zscore_update :: "ZScoreState \<Rightarrow> Row \<Rightarrow> int \<Rightarrow> string option \<Rightarrow> bool \<Rightarrow> ZScoreState" where
  "zscore_update s row now field matched =
     (if \<not> matched then s
      else case field of None \<Rightarrow> s
      | Some fname \<Rightarrow> (case numeric_from_row row fname of None \<Rightarrow> s
      | Some x \<Rightarrow>
          (let n = zs_n s + 1;
               delta = f64_sub x (zs_mean s);
               mean = f64_add (zs_mean s) (f64_div delta (f64_of_u64 n));
               delta2 = f64_sub x mean
           in \<lparr>zs_n = n, zs_mean = mean, zs_m2 = f64_add (zs_m2 s) (f64_mul delta delta2),
               zs_last_value = x, zs_initialized = True\<rparr>)))"

definition zscore_query :: "ZScoreState \<Rightarrow> Value" where
  "zscore_query s =
     (if \<not> zs_initialized s \<or> zs_n s < 2 then VNull
      else
        (let var = f64_div (zs_m2 s) (f64_of_u64 (zs_n s - 1)) in
         if f64_le var (Fin 0) then VNull
         else VF64 (f64_div (f64_sub (zs_last_value s) (zs_mean s)) (f64_sqrt var))))"

section \<open>What the counters count\<close>

definition sub_window_count :: "int \<Rightarrow> int list \<Rightarrow> int \<Rightarrow> nat" where
  "sub_window_count W ts q = length (filter (\<lambda>t. t div W = q) ts)"

text \<open>The largest number of events in one aligned sub-window.\<close>

definition busiest :: "int \<Rightarrow> int list \<Rightarrow> nat" where
  "busiest W ts = Max (insert 0 (set (map (\<lambda>t. sub_window_count W ts (t div W)) ts)))"

lemma sub_window_count_snoc:
  "sub_window_count W (ts @ [t]) q = sub_window_count W ts q + (if t div W = q then 1 else 0)"
  by (simp add: sub_window_count_def)

lemma sub_window_count_le: "sub_window_count W ts q \<le> length ts"
  by (simp add: sub_window_count_def)

lemma sub_window_count_le_busiest: "sub_window_count W ts q \<le> busiest W ts"
proof (cases "\<exists>t \<in> set ts. t div W = q")
  case True
  then show ?thesis unfolding busiest_def by (intro Max_ge) auto
next
  case False
  then have "sub_window_count W ts q = 0" by (auto simp: sub_window_count_def filter_empty_conv)
  then show ?thesis by simp
qed

lemma busiest_leI:
  assumes "\<And>q. sub_window_count W ts q \<le> n"
  shows "busiest W ts \<le> n"
  unfolding busiest_def by (rule Max.boundedI) (use assms in auto)

lemma busiest_snoc:
  "busiest W (ts @ [t]) = max (busiest W ts) (sub_window_count W (ts @ [t]) (t div W))"
proof (rule antisym)
  show "busiest W (ts @ [t]) \<le> max (busiest W ts) (sub_window_count W (ts @ [t]) (t div W))"
  proof (rule busiest_leI)
    fix q
    show "sub_window_count W (ts @ [t]) q \<le> max (busiest W ts) (sub_window_count W (ts @ [t]) (t div W))"
      using sub_window_count_le_busiest [of W ts q]
      by (cases "t div W = q") (auto simp: sub_window_count_snoc)
  qed
  have "sub_window_count W ts q \<le> busiest W (ts @ [t])" for q
    using sub_window_count_le_busiest [of W "ts @ [t]" q] by (simp add: sub_window_count_snoc)
  then have "busiest W ts \<le> busiest W (ts @ [t])" by (rule busiest_leI)
  then show "max (busiest W ts) (sub_window_count W (ts @ [t]) (t div W)) \<le> busiest W (ts @ [t])"
    using sub_window_count_le_busiest [of W "ts @ [t]" "t div W"] by simp
qed

lemma busiest_le_length: "busiest W ts \<le> length ts"
  by (rule busiest_leI) (rule sub_window_count_le)

text \<open>The slots after the events \<open>ts\<close>: stale epochs are earlier ones, and the slot of the
  last event's sub-window holds its count.\<close>

definition burst_inv :: "int \<Rightarrow> int list \<Rightarrow> BurstCountState \<Rightarrow> bool" where
  "burst_inv W ts s \<longleftrightarrow>
     length (burst_buckets s) = 64 \<and> length (burst_bucket_epoch s) = 64 \<and>
     (\<forall>e \<in> set (burst_bucket_epoch s). e = i64_min \<or> (\<exists>t \<in> set ts. e = t div W * W)) \<and>
     burst_max_seen s = of_nat (busiest W ts) \<and>
     (ts \<noteq> [] \<longrightarrow>
        (let q = last ts div W in
         burst_bucket_epoch s ! nat (q mod 64) = q * W \<and>
         burst_buckets s ! nat (q mod 64) = of_nat (sub_window_count W ts q)))"

lemma burst_inv_default: "burst_inv W [] burst_default"
  by (simp add: burst_inv_def burst_default_def busiest_def)

lemma slot_lt: "nat (q mod 64) < 64" for q :: int
  by (simp add: nat_less_iff)

text \<open>The slot of the next event's sub-window either holds that sub-window's count or is
  stale, in which case the sub-window has no event yet.\<close>

lemma burst_slot:
  assumes inv: "burst_inv W ts s" and W: "0 < W" and order: "sorted (ts @ [t])" and t: "0 \<le> t"
  shows "burst_bucket_epoch s ! nat (t div W mod 64) = t div W * W \<and>
      burst_buckets s ! nat (t div W mod 64) = of_nat (sub_window_count W ts (t div W)) \<or>
    burst_bucket_epoch s ! nat (t div W mod 64) \<noteq> t div W * W \<and> sub_window_count W ts (t div W) = 0"
proof (cases "ts \<noteq> [] \<and> last ts div W = t div W")
  case True
  then show ?thesis using inv by (auto simp: burst_inv_def Let_def)
next
  case False
  let ?q = "t div W" and ?i = "nat (t div W mod 64)"
  have before: "u div W < ?q" if u: "u \<in> set ts" for u
  proof -
    from u have ne: "ts \<noteq> []" by auto
    then have ts: "ts = butlast ts @ [last ts]" by simp
    have "sorted (butlast ts @ [last ts] @ [t])" using order ts by (metis append_assoc)
    moreover have "u \<in> set (butlast ts) \<or> u = last ts" using u ne ts by (metis Un_iff empty_iff empty_set insert_iff list.simps(15) set_append)
    ultimately have "u \<le> last ts" "last ts \<le> t" by (auto simp: sorted_append)
    then have "u div W \<le> last ts div W" "last ts div W \<le> ?q" using W by (auto intro: zdiv_mono1)
    with False ne show ?thesis by auto
  qed
  then have "\<forall>u \<in> set ts. u div W \<noteq> ?q" by force
  then have "sub_window_count W ts ?q = 0" by (simp add: sub_window_count_def filter_empty_conv)
  moreover have "burst_bucket_epoch s ! ?i \<noteq> ?q * W"
  proof
    assume eq: "burst_bucket_epoch s ! ?i = ?q * W"
    have q0: "0 \<le> ?q * W" using t W by (simp add: pos_imp_zdiv_nonneg_iff)
    have "burst_bucket_epoch s ! ?i \<in> set (burst_bucket_epoch s)"
      using inv by (intro nth_mem) (simp add: burst_inv_def slot_lt)
    with inv eq have "?q * W = i64_min \<or> (\<exists>u \<in> set ts. ?q * W = u div W * W)"
      unfolding burst_inv_def by metis
    with q0 W obtain u where "u \<in> set ts" "?q * W = u div W * W" by auto
    with before [of u] W show False by simp
  qed
  ultimately show ?thesis by simp
qed

lemma burst_inv_step:
  assumes inv: "burst_inv W ts s" and W: "W = u64_as_i64 w" "0 < W"
    and order: "sorted (ts @ [t])" and t: "0 \<le> t" "is_i64 t" and len: "length ts < 2 ^ 64 - 1"
  shows "\<exists>s'. burst_update s row t field True w = Some s' \<and> burst_inv W (ts @ [t]) s' \<and> burst_initialized s'"
proof -
  define q where "q = t div W"
  define i where "i = nat (q mod 64)"
  define c where "c = sub_window_count W ts q"
  let ?es = "burst_bucket_epoch s" and ?bs = "burst_buckets s"
  have w0: "w \<noteq> 0" using W by (auto simp: u64_as_i64_def)
  have i: "i < 64" by (simp add: i_def nat_less_iff)
  have lens: "length ?bs = 64" "length ?es = 64" using inv by (simp_all add: burst_inv_def)
  have mx: "burst_max_seen s = of_nat (busiest W ts)" using inv by (simp add: burst_inv_def)
  have q0: "0 \<le> q" using t W by (simp add: q_def pos_imp_zdiv_nonneg_iff)
  have qW: "0 \<le> q * W" "q * W \<le> t"
    using q0 W(2) t(1) minus_mod_eq_div_mult [of t W] pos_mod_sign [of W t] unfolding q_def by (simp_all (no_asm_simp)) linarith
  have wrap: "i64_wrap (q * W) = q * W"
    using qW t(2) by (intro i64_wrap_id) (simp add: is_i64_def)
  have div: "i64_div_euclid t W = Some q" using W(2) by (simp add: i64_div_euclid_def q_def)
  have cnt: "sub_window_count W (ts @ [t]) q = Suc c" by (simp add: sub_window_count_snoc c_def q_def)
  have slot: "?es ! i = q * W \<and> ?bs ! i = of_nat c \<or> ?es ! i \<noteq> q * W \<and> c = 0"
    using burst_slot [OF inv W(2) order t(1)] by (simp add: q_def i_def c_def)
  have small: "unat (of_nat (Suc c) :: u64) = Suc c" "unat (of_nat (busiest W ts) :: u64) = busiest W ts"
    using len sub_window_count_le [of W ts q] busiest_le_length [of W ts]
    by (simp_all add: c_def unat_of_nat take_bit_nat_eq_self del: of_nat_Suc)
  have max: "(if of_nat (busiest W ts) < (of_nat (Suc c) :: u64) then of_nat (Suc c) else of_nat (busiest W ts))
      = (of_nat (busiest W (ts @ [t])) :: u64)"
    unfolding busiest_snoc q_def [symmetric] cnt word_less_nat_alt small by (simp add: max_def)
  let ?s' = "\<lparr>burst_buckets = ?bs[i := of_nat (Suc c)], burst_bucket_epoch = ?es[i := q * W],
     burst_max_seen = of_nat (busiest W (ts @ [t])), burst_initialized = True\<rparr>"
  have new: "(if ?es ! i \<noteq> q * W then (?bs[i := 0], ?es[i := q * W]) else (?bs, ?es)) =
      (?bs[i := of_nat c], ?es[i := q * W])"
  proof (cases "?es ! i = q * W")
    case True
    with slot have "?bs[i := of_nat c] = ?bs" "?es[i := q * W] = ?es"
      using i lens by (simp_all add: list_update_same_conv)
    with True show ?thesis by simp
  next
    case False
    with slot show ?thesis by simp
  qed
  have "burst_update s row t field True w = Some ?s'"
    using max [unfolded of_nat_Suc] lens i
    by (simp add: burst_update_def w0 W(1) [symmetric] div i_def [symmetric] wrap new mx Let_def
        add.commute split: if_splits)
  moreover have "burst_inv W (ts @ [t]) ?s'"
    using inv i lens by (auto simp: burst_inv_def Let_def q_def [symmetric] i_def [symmetric] cnt
        dest!: subsetD [OF set_update_subset_insert])
  ultimately show ?thesis by auto
qed

lemma burst_run:
  assumes "0 < u64_as_i64 w" and "sorted ts" and "\<forall>t \<in> set ts. 0 \<le> t \<and> is_i64 t" and "length ts < 2 ^ 64"
  shows "\<exists>s. fold_opt (\<lambda>t s. burst_update s row t field True w) ts burst_default = Some s \<and>
    burst_inv (u64_as_i64 w) ts s \<and> (ts \<noteq> [] \<longrightarrow> burst_initialized s)"
  using assms(2-)
proof (induction ts rule: rev_induct)
  case Nil
  then show ?case by (simp add: burst_inv_default)
next
  case (snoc t ts)
  then obtain s where s: "fold_opt (\<lambda>t s. burst_update s row t field True w) ts burst_default = Some s"
    and inv: "burst_inv (u64_as_i64 w) ts s"
    by (auto simp: sorted_append)
  obtain s' where "burst_update s row t field True w = Some s'"
    "burst_inv (u64_as_i64 w) (ts @ [t]) s'" "burst_initialized s'"
    using burst_inv_step [OF inv refl assms(1) snoc.prems(1), of row field] snoc.prems by auto
  then show ?case by (simp add: fold_opt_append s)
qed

text \<open>Changes of a sequence of values under the source's equality; an equal value keeps the
  earlier representative.\<close>

fun flips :: "Value list \<Rightarrow> nat" where
  "flips (v # w # vs) = (if value_eq v w then flips (v # vs) else Suc (flips (w # vs)))"
| "flips _ = 0"

lemma flips_le: "flips vs \<le> length vs - 1"
  by (induction vs rule: flips.induct) auto

lemma vcc_update_push:
  "vcc_update s row t field m =
     (if m then (case present (field_value row field) of None \<Rightarrow> s | Some v \<Rightarrow> vcc_observe s v) else s)"
  by (simp add: vcc_update_def present_def field_value_def split: option.splits)

lemma vcc_fold:
  "vcc_changes (fold (\<lambda>v s. vcc_observe s v) vs s) =
     vcc_changes s + of_nat (flips (case vcc_last_value s of None \<Rightarrow> vs | Some p \<Rightarrow> p # vs))"
proof (induction vs arbitrary: s)
  case Nil
  then show ?case by (simp split: option.splits)
next
  case (Cons v vs)
  show ?case by (simp add: Cons.IH) (auto simp: vcc_observe_def split: option.splits)
qed

lemma vcc_run:
  "vcc_changes (run_op vcc_update field evs vcc_default) = of_nat (flips (observed field evs))"
proof -
  have "run_op vcc_update field evs s = fold (\<lambda>v s. vcc_observe s v) (observed field evs) s" for s
    by (rule run_pushes) (rule vcc_update_push)
  then show ?thesis by (simp add: vcc_fold vcc_default_def)
qed

section \<open>Properties\<close>

text \<open>Burst counting: over matched events arriving in time order, with non-negative
  times and a sub-window below \<open>2 ^ 63\<close> ms, the burst counter never panics and reports the
  largest number of events in one aligned sub-window, although its 64 slots are recycled.\<close>

lemma burst_count_run:
  assumes "0 < u64_as_i64 w" and "sorted ts" and "\<forall>t \<in> set ts. 0 \<le> t \<and> is_i64 t" and "length ts < 2 ^ 63"
  shows "map_option burst_query (fold_opt (\<lambda>t s. burst_update s row t field True w) ts burst_default) =
    Some (VI64 (int (busiest (u64_as_i64 w) ts)))"
proof -
  from burst_run [OF assms(1-3), of row field] assms(4)
  obtain s where s: "fold_opt (\<lambda>t s. burst_update s row t field True w) ts burst_default = Some s"
    and inv: "burst_inv (u64_as_i64 w) ts s" and init: "ts \<noteq> [] \<longrightarrow> burst_initialized s"
    by auto
  have "busiest (u64_as_i64 w) ts < 2 ^ 63"
    using busiest_le_length [of "u64_as_i64 w" ts] assms(4) by simp
  then have "u64_as_i64 (of_nat (busiest (u64_as_i64 w) ts)) = int (busiest (u64_as_i64 w) ts)"
    by (simp add: u64_as_i64_def sint_of_nat_u64)
  then show ?thesis
    using inv init s by (auto simp: burst_query_def burst_inv_def burst_default_def busiest_def)
qed

text \<open>The value-change counter counts the changes between consecutive present values of
  the field, for values of every type.\<close>

lemma value_change_run:
  "vcc_query (run_op vcc_update field evs vcc_default) =
     VI64 (u64_as_i64 (of_nat (flips (observed field evs))))"
  by (simp add: vcc_query_def vcc_run)

end
