(* ===== verification/AggGeo.thy ===== *)
theory AggGeo
  imports AggBuffer
begin

text \<open>
  The geographic operator states of \<open>crates/beava-core/src/agg_geo.rs\<close>: top speed, path
  length, dispersion and distance from the mean of the last positions. The great-circle
  distance of the haversine package is the parameter \<open>hav\<close>. Each state is updated from a row
  (\<open>update\<close>) or from the event's pre-extracted values (\<open>update_at\<close>); indices are \<open>u8\<close> values as
  naturals, with \<open>FIELD_IDX_NONE\<close> as the sentinel.

  The lemmas show that both update paths agree when the indices point at the fields, that the
  position buffer is a \<open>ring_buffer\<close> and that no update indexes out of range.
\<close>

section \<open>Reading positions\<close>

type_synonym ExtractedFields = "Value option list"
type_synonym haversine = "f64 \<times> f64 \<Rightarrow> f64 \<times> f64 \<Rightarrow> f64"

definition FIELD_IDX_NONE :: nat where
  "FIELD_IDX_NONE = 255"

definition coord :: "Value \<Rightarrow> f64 option" where
  "coord v = (case v of VF64 f \<Rightarrow> Some f | VI64 n \<Rightarrow> Some (f64_of_int n) | _ \<Rightarrow> None)"

definition read_lat_lon :: "Row \<Rightarrow> string \<Rightarrow> string \<Rightarrow> (f64 \<times> f64) option" where
  "read_lat_lon row lat_field lon_field =
     (case row_get row lat_field of
        None \<Rightarrow> None
      | Some lat_val \<Rightarrow>
          (case coord lat_val of
             None \<Rightarrow> None
           | Some lat \<Rightarrow>
               (case row_get row lon_field of
                  None \<Rightarrow> None
                | Some lon_val \<Rightarrow> map_option (\<lambda>lon. (lat, lon)) (coord lon_val))))"

definition slot :: "ExtractedFields \<Rightarrow> nat \<Rightarrow> Value option" where
  "slot extracted i = (if i < length extracted then extracted ! i else None)"

definition read_lat_lon_from_extracted :: "ExtractedFields \<Rightarrow> nat \<Rightarrow> nat \<Rightarrow> (f64 \<times> f64) option" where
  "read_lat_lon_from_extracted extracted lat_idx lon_idx =
     (case slot extracted lat_idx of
        None \<Rightarrow> None
      | Some lat_val \<Rightarrow>
          (case slot extracted lon_idx of
             None \<Rightarrow> None
           | Some lon_val \<Rightarrow>
               (case coord lat_val of
                  None \<Rightarrow> None
                | Some lat \<Rightarrow> map_option (\<lambda>lon. (lat, lon)) (coord lon_val))))"

section \<open>Top speed\<close>

record GeoVelocityState =
  gv_lat_field :: string
  gv_lon_field :: string
  gv_prev :: "(f64 \<times> f64 \<times> int) option"
  max_kmh :: f64

definition gv_with_fields :: "string \<Rightarrow> string \<Rightarrow> GeoVelocityState" where
  "gv_with_fields lat lon = \<lparr>gv_lat_field = lat, gv_lon_field = lon, gv_prev = None, max_kmh = Fin 0\<rparr>"

definition gv_apply :: "haversine \<Rightarrow> GeoVelocityState \<Rightarrow> f64 \<times> f64 \<Rightarrow> int \<Rightarrow> GeoVelocityState" where
  "gv_apply hav s pos now_ms =
     (let s' = (case gv_prev s of
                  None \<Rightarrow> s
                | Some (plat, plon, pt) \<Rightarrow>
                    (let dt_ms = i64_wrap (now_ms - pt) in
                     if 0 < dt_ms then
                       (let km = hav (plat, plon) pos;
                            kmh = f64_div km (f64_div (f64_of_int dt_ms) (Fin 3600000))
                        in if f64_gt kmh (max_kmh s) then s\<lparr>max_kmh := kmh\<rparr> else s)
                     else s))
      in s'\<lparr>gv_prev := Some (fst pos, snd pos, now_ms)\<rparr>)"

definition gv_update :: "haversine \<Rightarrow> GeoVelocityState \<Rightarrow> Row \<Rightarrow> int \<Rightarrow> bool \<Rightarrow> GeoVelocityState" where
  "gv_update hav s row now_ms where_matched =
     (if \<not> where_matched then s
      else case read_lat_lon row (gv_lat_field s) (gv_lon_field s) of
        None \<Rightarrow> s
      | Some pos \<Rightarrow> gv_apply hav s pos now_ms)"

definition gv_update_at :: "haversine \<Rightarrow> GeoVelocityState \<Rightarrow> ExtractedFields \<Rightarrow> nat \<Rightarrow> nat \<Rightarrow> int \<Rightarrow> bool \<Rightarrow> GeoVelocityState" where
  "gv_update_at hav s extracted lat_idx lon_idx now_ms where_matched =
     (if \<not> where_matched then s
      else case read_lat_lon_from_extracted extracted lat_idx lon_idx of
        None \<Rightarrow> s
      | Some pos \<Rightarrow> gv_apply hav s pos now_ms)"

definition gv_query :: "GeoVelocityState \<Rightarrow> Value" where
  "gv_query s = (if gv_prev s = None then VNull else VF64 (max_kmh s))"

section \<open>Path length\<close>

record GeoDistanceState =
  gd_lat_field :: string
  gd_lon_field :: string
  gd_prev :: "(f64 \<times> f64) option"
  total_km :: f64

definition gd_with_fields :: "string \<Rightarrow> string \<Rightarrow> GeoDistanceState" where
  "gd_with_fields lat lon = \<lparr>gd_lat_field = lat, gd_lon_field = lon, gd_prev = None, total_km = Fin 0\<rparr>"

definition gd_apply :: "haversine \<Rightarrow> GeoDistanceState \<Rightarrow> f64 \<times> f64 \<Rightarrow> GeoDistanceState" where
  "gd_apply hav s pos =
     (case gd_prev s of
        None \<Rightarrow> s
      | Some prev \<Rightarrow> s\<lparr>total_km := f64_add (total_km s) (hav prev pos)\<rparr>)\<lparr>gd_prev := Some pos\<rparr>"

definition gd_update :: "haversine \<Rightarrow> GeoDistanceState \<Rightarrow> Row \<Rightarrow> bool \<Rightarrow> GeoDistanceState" where
  "gd_update hav s row where_matched =
     (if \<not> where_matched then s
      else case read_lat_lon row (gd_lat_field s) (gd_lon_field s) of None \<Rightarrow> s | Some pos \<Rightarrow> gd_apply hav s pos)"

definition gd_update_at :: "haversine \<Rightarrow> GeoDistanceState \<Rightarrow> ExtractedFields \<Rightarrow> nat \<Rightarrow> nat \<Rightarrow> bool \<Rightarrow> GeoDistanceState" where
  "gd_update_at hav s extracted lat_idx lon_idx where_matched =
     (if \<not> where_matched then s
      else case read_lat_lon_from_extracted extracted lat_idx lon_idx of None \<Rightarrow> s | Some pos \<Rightarrow> gd_apply hav s pos)"

definition gd_query :: "GeoDistanceState \<Rightarrow> Value" where
  "gd_query s = VF64 (total_km s)"

section \<open>Dispersion\<close>

record GeoSpreadState =
  gs_lat_field :: string
  gs_lon_field :: string
  gs_n :: u64
  mean_lat :: f64
  mean_lon :: f64
  m2_lat :: f64
  m2_lon :: f64

definition gs_with_fields :: "string \<Rightarrow> string \<Rightarrow> GeoSpreadState" where
  "gs_with_fields lat lon =
     \<lparr>gs_lat_field = lat, gs_lon_field = lon, gs_n = 0, mean_lat = Fin 0, mean_lon = Fin 0, m2_lat = Fin 0, m2_lon = Fin 0\<rparr>"

definition gs_apply :: "GeoSpreadState \<Rightarrow> f64 \<times> f64 \<Rightarrow> GeoSpreadState" where
  "gs_apply s pos =
     (let lat = fst pos; lon = snd pos;
          n' = gs_n s + 1;
          inv_n = f64_div (Fin 1) (f64_of_u64 n');
          lat' = f64_add (mean_lat s) (f64_mul (f64_sub lat (mean_lat s)) inv_n);
          lon' = f64_add (mean_lon s) (f64_mul (f64_sub lon (mean_lon s)) inv_n)
      in s\<lparr>gs_n := n', mean_lat := lat', mean_lon := lon',
           m2_lat := f64_add (m2_lat s) (f64_mul (f64_sub lat (mean_lat s)) (f64_sub lat lat')),
           m2_lon := f64_add (m2_lon s) (f64_mul (f64_sub lon (mean_lon s)) (f64_sub lon lon'))\<rparr>)"

definition gs_update :: "GeoSpreadState \<Rightarrow> Row \<Rightarrow> bool \<Rightarrow> GeoSpreadState" where
  "gs_update s row where_matched =
     (if \<not> where_matched then s
      else case read_lat_lon row (gs_lat_field s) (gs_lon_field s) of None \<Rightarrow> s | Some pos \<Rightarrow> gs_apply s pos)"

definition gs_update_at :: "GeoSpreadState \<Rightarrow> ExtractedFields \<Rightarrow> nat \<Rightarrow> nat \<Rightarrow> bool \<Rightarrow> GeoSpreadState" where
  "gs_update_at s extracted lat_idx lon_idx where_matched =
     (if \<not> where_matched then s
      else case read_lat_lon_from_extracted extracted lat_idx lon_idx of None \<Rightarrow> s | Some pos \<Rightarrow> gs_apply s pos)"

text \<open>The \<open>f64\<close> literal \<open>111.32\<close>.\<close>

definition KM_PER_DEG_LAT :: f64 where
  "KM_PER_DEG_LAT = f64_round False (11132 / 100)"

definition gs_query :: "libm \<Rightarrow> GeoSpreadState \<Rightarrow> Value" where
  "gs_query lm s =
     (if gs_n s < 2 then VNull
      else
        (let inv_n = f64_div (Fin 1) (f64_of_u64 (gs_n s));
             var_lat_deg2 = f64_mul (m2_lat s) inv_n;
             var_lon_deg2 = f64_mul (m2_lon s) inv_n;
             km_per_deg_lon = f64_mul KM_PER_DEG_LAT (cos_f lm (to_radians (mean_lat s)));
             var_lat_km2 = f64_mul (f64_mul var_lat_deg2 KM_PER_DEG_LAT) KM_PER_DEG_LAT;
             var_lon_km2 = f64_mul (f64_mul var_lon_deg2 km_per_deg_lon) km_per_deg_lon
         in VF64 (f64_sqrt (f64_add var_lat_km2 var_lon_km2))))"

section \<open>Distance from home\<close>

record DistanceFromHomeState =
  dh_lat_field :: string
  dh_lon_field :: string
  dh_samples :: nat
  dh_buf :: "(f64 \<times> f64) list"
  dh_head :: nat
  dh_filled :: bool
  dh_last :: "(f64 \<times> f64) option"

definition dh_with_fields :: "string \<Rightarrow> string \<Rightarrow> nat \<Rightarrow> DistanceFromHomeState" where
  "dh_with_fields lat lon samples =
     \<lparr>dh_lat_field = lat, dh_lon_field = lon, dh_samples = max samples 1, dh_buf = [], dh_head = 0,
      dh_filled = False, dh_last = None\<rparr>"

definition dh_new :: "nat \<Rightarrow> DistanceFromHomeState" where
  "dh_new samples = dh_with_fields [] [] samples"

definition dh_push :: "f64 \<times> f64 \<Rightarrow> DistanceFromHomeState \<Rightarrow> DistanceFromHomeState" where
  "dh_push pos s =
     (if \<not> dh_filled s then
        (let b = dh_buf s @ [pos] in
         if length b = dh_samples s then s\<lparr>dh_buf := b, dh_filled := True, dh_head := 0\<rparr> else s\<lparr>dh_buf := b\<rparr>)
      else s\<lparr>dh_buf := (dh_buf s)[dh_head s := pos], dh_head := (dh_head s + 1) mod dh_samples s\<rparr>)\<lparr>dh_last := Some pos\<rparr>"

text \<open>An index outside the buffer, or a modulus of zero, is a panic.\<close>

definition dh_apply :: "DistanceFromHomeState \<Rightarrow> f64 \<times> f64 \<Rightarrow> DistanceFromHomeState option" where
  "dh_apply s pos =
     (if dh_filled s \<and> (\<not> dh_head s < length (dh_buf s) \<or> dh_samples s = 0) then None else Some (dh_push pos s))"

definition dh_update :: "DistanceFromHomeState \<Rightarrow> Row \<Rightarrow> bool \<Rightarrow> DistanceFromHomeState option" where
  "dh_update s row where_matched =
     (if \<not> where_matched then Some s
      else case read_lat_lon row (dh_lat_field s) (dh_lon_field s) of None \<Rightarrow> Some s | Some pos \<Rightarrow> dh_apply s pos)"

definition dh_update_at :: "DistanceFromHomeState \<Rightarrow> ExtractedFields \<Rightarrow> nat \<Rightarrow> nat \<Rightarrow> bool \<Rightarrow> DistanceFromHomeState option" where
  "dh_update_at s extracted lat_idx lon_idx where_matched =
     (if \<not> where_matched then Some s
      else case read_lat_lon_from_extracted extracted lat_idx lon_idx of None \<Rightarrow> Some s | Some pos \<Rightarrow> dh_apply s pos)"

text \<open>The iterator sum of the standard library starts from negative zero.\<close>

definition f64_sum :: "f64 list \<Rightarrow> f64" where
  "f64_sum xs = fold (\<lambda>x acc. f64_add acc x) xs NegZero"

definition dh_query :: "haversine \<Rightarrow> DistanceFromHomeState \<Rightarrow> Value" where
  "dh_query hav s =
     (case dh_last s of
        None \<Rightarrow> VNull
      | Some latest \<Rightarrow>
          if dh_buf s = [] then VNull
          else
            (let n = f64_of_int (int (length (dh_buf s)));
                 home_lat = f64_div (f64_sum (map fst (dh_buf s))) n;
                 home_lon = f64_div (f64_sum (map snd (dh_buf s))) n
             in VF64 (hav latest (home_lat, home_lon))))"

section \<open>Both update paths agree\<close>

text \<open>An extraction of a row under a list of field names, and an index that names a field of it.\<close>

definition extract_fields :: "string list \<Rightarrow> Row \<Rightarrow> ExtractedFields" where
  "extract_fields names row = map (row_get row) names"

definition names_field :: "string list \<Rightarrow> nat \<Rightarrow> string \<Rightarrow> bool" where
  "names_field names i f \<longleftrightarrow> i < length names \<and> names ! i = f"

lemma slot_extract: "names_field names i f \<Longrightarrow> slot (extract_fields names row) i = row_get row f"
  by (auto simp: slot_def extract_fields_def names_field_def)

lemma read_lat_lon_extract:
  assumes "names_field names i lat" and "names_field names j lon"
  shows "read_lat_lon_from_extracted (extract_fields names row) i j = read_lat_lon row lat lon"
  by (auto simp: read_lat_lon_from_extracted_def read_lat_lon_def slot_extract [OF assms(1)] slot_extract [OF assms(2)]
      split: option.splits)

lemma geo_update_at_agrees:
  assumes "names_field names i (gv_lat_field v)" and "names_field names j (gv_lon_field v)"
  shows "gv_update_at hav v (extract_fields names row) i j t m = gv_update hav v row t m"
  by (simp add: gv_update_at_def gv_update_def read_lat_lon_extract [OF assms])

lemma gd_update_at_agrees:
  assumes "names_field names i (gd_lat_field v)" and "names_field names j (gd_lon_field v)"
  shows "gd_update_at hav v (extract_fields names row) i j m = gd_update hav v row m"
  by (simp add: gd_update_at_def gd_update_def read_lat_lon_extract [OF assms])

lemma gs_update_at_agrees:
  assumes "names_field names i (gs_lat_field v)" and "names_field names j (gs_lon_field v)"
  shows "gs_update_at v (extract_fields names row) i j m = gs_update v row m"
  by (simp add: gs_update_at_def gs_update_def read_lat_lon_extract [OF assms])

lemma dh_update_at_agrees:
  assumes "names_field names i (dh_lat_field v)" and "names_field names j (dh_lon_field v)"
  shows "dh_update_at v (extract_fields names row) i j m = dh_update v row m"
  by (simp add: dh_update_at_def dh_update_def read_lat_lon_extract [OF assms])

section \<open>The position buffer is a ring buffer\<close>

definition dh_contents :: "DistanceFromHomeState \<Rightarrow> (f64 \<times> f64) list" where
  "dh_contents s = (if dh_filled s then rotate (dh_head s) (dh_buf s) else dh_buf s)"

definition dh_inv :: "DistanceFromHomeState \<Rightarrow> bool" where
  "dh_inv s \<longleftrightarrow> 0 < dh_samples s \<and>
     (if dh_filled s then length (dh_buf s) = dh_samples s \<and> dh_head s < dh_samples s
      else length (dh_buf s) < dh_samples s)"

interpretation dh: ring_buffer dh_push dh_contents dh_samples dh_inv
proof unfold_locales
  fix s pos
  assume inv: "dh_inv s"
  show "dh_inv (dh_push pos s)"
    using inv by (auto simp: dh_inv_def dh_push_def Let_def)
  show "dh_samples (dh_push pos s) = dh_samples s" by (simp add: dh_push_def Let_def)
  show "dh_contents (dh_push pos s) = last_n (dh_samples s) (dh_contents s @ [pos])"
  proof (cases "dh_filled s")
    case True
    with inv have "length (dh_buf s) = dh_samples s" "dh_head s < dh_samples s" "0 < dh_samples s"
      by (simp_all add: dh_inv_def)
    then show ?thesis
      using True rotate_overwrite [of "dh_head s" "dh_buf s" pos]
      by (simp add: dh_contents_def dh_push_def last_n_snoc_full)
  next
    case False
    with inv show ?thesis
      by (auto simp: dh_contents_def dh_push_def dh_inv_def Let_def last_n_all)
  qed
qed

lemma dh_new_inv [simp]: "dh_inv (dh_with_fields lat lon n)" "dh_contents (dh_with_fields lat lon n) = []"
  "dh_samples (dh_with_fields lat lon n) = max n 1"
  by (simp_all add: dh_inv_def dh_contents_def dh_with_fields_def)

lemma dh_apply_total: "dh_inv s \<Longrightarrow> dh_apply s pos = Some (dh_push pos s)"
  by (auto simp: dh_apply_def dh_inv_def split: if_splits)

lemma dh_run:
  "dh_inv s \<Longrightarrow> fold_opt (\<lambda>pos s. dh_apply s pos) ps s = Some (fold dh_push ps s)"
  by (induction ps arbitrary: s) (simp_all add: dh_apply_total dh.inv_push)

lemma mset_rotate [simp]: "mset (rotate n xs) = mset xs"
  unfolding rotate_drop_take mset_append by (metis append_take_drop_id mset_append union_commute)

lemma dh_last_run: "ps \<noteq> [] \<Longrightarrow> dh_last (fold dh_push ps s) = Some (last ps)"
proof (induction ps arbitrary: s)
  case (Cons p ps)
  then show ?case by (cases "ps = []") (simp_all add: dh_push_def)
qed simp

section \<open>Properties\<close>

text \<open>The home buffer holds the last \<open>samples\<close> positions: applying any run of positions never
  panics, keeps the latest position, and leaves exactly the last positions in arrival order.\<close>

lemma distance_from_home_run:
  assumes "ps \<noteq> []"
  shows "\<exists>s. fold_opt (\<lambda>pos s. dh_apply s pos) ps (dh_with_fields lat lon n) = Some s \<and>
    dh_last s = Some (last ps) \<and> dh_contents s = last_n (max n 1) ps \<and> mset (dh_buf s) = mset (last_n (max n 1) ps)"
proof -
  let ?s = "fold dh_push ps (dh_with_fields lat lon n)"
  have c: "dh_contents ?s = last_n (max n 1) ps" using dh.run_contents [OF dh_new_inv(1)] by simp
  moreover have "mset (dh_buf ?s) = mset (dh_contents ?s)" by (simp add: dh_contents_def)
  ultimately show ?thesis using dh_run [OF dh_new_inv(1)] dh_last_run [OF assms] by simp
qed

end
