(* ===== verification/Schemas.thy ===== *)
theory Schemas
  imports Rows
begin

text \<open>
  \<open>crates/beava-core/src/schema.rs\<close>: the three schema records and the descriptor
  name check. A Rust \<open>str\<close> is its UTF-8 bytes; a byte of a non-ASCII character is
  neither alphabetic nor a digit nor an underscore, as the character itself is not.
\<close>

record EventSchema =
  es_fields :: "(string \<times> FieldType) list"
  es_optional_fields :: "string list"

record TableSchema =
  ts_fields :: "(string \<times> FieldType) list"
  ts_optional_fields :: "string list"

record DerivedSchema =
  ds_fields :: "(string \<times> FieldType) list"
  ds_optional_fields :: "string list"

text \<open>The neutral schema of \<open>schema_propagate.rs\<close>.\<close>

record Schema =
  sch_fields :: "(string \<times> FieldType) list"
  sch_optional_fields :: "string list"

definition MAX_NAME_LEN :: nat where
  "MAX_NAME_LEN = 128"

definition RESERVED_PREFIX :: string where
  "RESERVED_PREFIX = ''_beava_''"

datatype DescriptorNameError =
    NameEmpty
  | BadPattern string
  | ReservedPrefix string
  | TooLong nat

definition is_ascii_alphabetic :: "char \<Rightarrow> bool" where
  "is_ascii_alphabetic c \<longleftrightarrow>
     (CHR ''A'' \<le> c \<and> c \<le> CHR ''Z'') \<or> (CHR ''a'' \<le> c \<and> c \<le> CHR ''z'')"

definition is_ascii_digit :: "char \<Rightarrow> bool" where
  "is_ascii_digit c \<longleftrightarrow> CHR ''0'' \<le> c \<and> c \<le> CHR ''9''"

definition is_ascii_alphanumeric :: "char \<Rightarrow> bool" where
  "is_ascii_alphanumeric c \<longleftrightarrow> is_ascii_alphabetic c \<or> is_ascii_digit c"

fun first_bad_char :: "string \<Rightarrow> bool" where
  "first_bad_char [] = False"
| "first_bad_char (c # cs) =
     (if \<not> is_ascii_alphanumeric c \<and> c \<noteq> CHR ''_'' then True else first_bad_char cs)"

definition validate_descriptor_name :: "string \<Rightarrow> DescriptorNameError + unit" where
  "validate_descriptor_name name =
     (case name of
        [] \<Rightarrow> Inl NameEmpty
      | first # rest \<Rightarrow>
          (if MAX_NAME_LEN < length name then Inl (TooLong (length name))
           else if take (length RESERVED_PREFIX) name = RESERVED_PREFIX then Inl (ReservedPrefix name)
           else if \<not> is_ascii_alphabetic first \<and> first \<noteq> CHR ''_'' then Inl (BadPattern name)
           else if first_bad_char rest then Inl (BadPattern name)
           else Inr ()))"

text \<open>The accepted names, declaratively: \<open>[A-Za-z_][A-Za-z0-9_]*\<close>, at most 128 bytes,
  outside the reserved prefix.\<close>

definition descriptor_name_ok :: "string \<Rightarrow> bool" where
  "descriptor_name_ok name \<longleftrightarrow>
     name \<noteq> [] \<and> length name \<le> 128 \<and>
     (\<nexists>rest. name = ''_beava_'' @ rest) \<and>
     (is_ascii_alphabetic (hd name) \<or> hd name = CHR ''_'') \<and>
     (\<forall>c \<in> set (tl name). is_ascii_alphanumeric c \<or> c = CHR ''_'')"

lemma first_bad_char_iff:
  "first_bad_char cs \<longleftrightarrow> (\<exists>c \<in> set cs. \<not> is_ascii_alphanumeric c \<and> c \<noteq> CHR ''_'')"
  by (induction cs) auto

lemma take_prefix_iff: "take (length p) xs = p \<longleftrightarrow> (\<exists>ys. xs = p @ ys)"
  by (metis append_eq_conv_conj append_take_drop_id)

text \<open>Descriptor-name validation accepts exactly the names matching
  \<open>[A-Za-z_][A-Za-z0-9_]*\<close> of at most 128 bytes that do not start with the reserved prefix.\<close>

lemma validate_descriptor_name_iff:
  "validate_descriptor_name name = Inr () \<longleftrightarrow> descriptor_name_ok name"
proof (cases name)
  case Nil
  then show ?thesis by (simp add: validate_descriptor_name_def descriptor_name_ok_def)
next
  case (Cons c cs)
  have pre: "take (length RESERVED_PREFIX) name = RESERVED_PREFIX \<longleftrightarrow> (\<exists>rest. name = ''_beava_'' @ rest)"
    unfolding take_prefix_iff by (simp add: RESERVED_PREFIX_def)
  show ?thesis
    unfolding validate_descriptor_name_def descriptor_name_ok_def pre MAX_NAME_LEN_def
    using Cons by (auto simp: first_bad_char_iff)
qed

end
