(* ===== verification/AggOps.thy ===== *)
theory AggOps
  imports TopK Bloom Entropy UddSketch AggDecay AggVelocity AggGeo Schemas
begin

text \<open>
  \<open>crates/beava-core/src/agg_op.rs\<close>: the kinds of aggregation, their parameters, the
  register-time descriptor, the live operator state with its two update paths and its query,
  and the output types. The enum \<open>AggOp\<close> of the source has one constructor per kind and the
  constructor \<open>Windowed\<close>, whose buckets only ever hold states built by \<open>new_lifetime\<close>, never
  windowed ones; the model has \<open>LifetimeOp\<close> for the former here and adds the windowed
  constructor on top of it in \<open>AggWindowed\<close>. What the operators take from other packages is
  the record \<open>agg_env\<close>. An operation that can panic has an \<open>option\<close> result.

  The lemmas show that the path that consumes pre-extracted values agrees with the path that
  reads the row, for every kind.
\<close>

section \<open>Kinds and parameters\<close>

text \<open>The functions of other packages the operators call.\<close>

record agg_env =
  env_libm :: libm
  env_hashers :: hashers
  env_h64 :: "TopKValue \<Rightarrow> u64"
  env_hav :: haversine

datatype AggKind =
    KCount | KSum | KAvg | KMin | KMax | KVariance
  | KStdDev | KRatio | KFirst | KLast | KFirstN | KLastN
  | KLag | KFirstSeen | KLastSeen | KAge | KHasSeen | KTimeSince
  | KTimeSinceLastN | KStreak | KMaxStreak | KNegativeStreak | KFirstSeenInWindow | KEwma
  | KEwVar | KEwZScore | KDecayedSum | KDecayedCount | KTwa | KRateOfChange
  | KInterArrivalStats | KBurstCount | KDeltaFromPrev | KTrend | KTrendResidual | KOutlierCount
  | KValueChangeCount | KZScore | KCountDistinct | KPercentile | KTopK | KBloomMember
  | KEntropy | KHistogram | KHourOfDayHistogram | KDowHourHistogram | KSeasonalDeviation | KEventTypeMix
  | KMostRecentN | KReservoirSample | KGeoVelocity | KGeoDistance | KGeoSpread | KDistanceFromHome

definition supports_windowed_wrap :: "AggKind \<Rightarrow> bool" where
  "supports_windowed_wrap k \<longleftrightarrow>
     k \<in> {KCount, KSum, KAvg, KMin, KMax, KVariance, KStdDev, KRatio, KCountDistinct, KPercentile, KTopK, KEntropy}"

definition requires_half_life :: "AggKind \<Rightarrow> bool" where
  "requires_half_life k \<longleftrightarrow> k \<in> {KEwma, KEwVar, KEwZScore, KDecayedSum, KDecayedCount}"

definition opt_or :: "'a option \<Rightarrow> 'a \<Rightarrow> 'a" where
  "opt_or x d = (case x of None \<Rightarrow> d | Some y \<Rightarrow> y)"

record SketchParams =
  percentile_q :: "f64 option"
  top_k_k :: "nat option"
  bloom_capacity :: "nat option"
  bloom_fpr :: "f64 option"

definition sketch_default :: SketchParams where
  "sketch_default = \<lparr>percentile_q = None, top_k_k = None, bloom_capacity = None, bloom_fpr = None\<rparr>"

record AggExtParams =
  ext_buckets :: "f64 list option"
  ext_n :: "nat option"
  ext_k :: "nat option"
  ext_precision :: "nat option"
  ext_lat_field :: "string option"
  ext_lon_field :: "string option"
  ext_samples :: "nat option"
  ext_categories :: "string list option"
  max_categories :: "nat option"
  ext_lat_idx :: nat
  ext_lon_idx :: nat

definition ext_default :: AggExtParams where
  "ext_default =
     \<lparr>ext_buckets = None, ext_n = None, ext_k = None, ext_precision = None, ext_lat_field = None, ext_lon_field = None,
      ext_samples = None, ext_categories = None, max_categories = None,
      ext_lat_idx = FIELD_IDX_NONE, ext_lon_idx = FIELD_IDX_NONE\<rparr>"

record AggOpDescriptor =
  desc_kind :: AggKind
  desc_field :: "string option"
  desc_window_ms :: "u64 option"
  where_expr :: "expr option"
  desc_n :: "nat option"
  half_life_ms :: "u64 option"
  sub_window_ms :: "u64 option"
  desc_sigma :: "f64 option"
  sketch_params :: "SketchParams option"
  desc_ext :: AggExtParams
  field_idx :: nat
  field_idx_into_event_extracted :: "nat list"

definition default_descriptor :: AggOpDescriptor where
  "default_descriptor =
     \<lparr>desc_kind = KCount, desc_field = None, desc_window_ms = None, where_expr = None, desc_n = None,
      half_life_ms = None, sub_window_ms = None, desc_sigma = None, sketch_params = None, desc_ext = ext_default,
      field_idx = FIELD_IDX_NONE, field_idx_into_event_extracted = []\<rparr>"

definition lat_of :: "AggOpDescriptor \<Rightarrow> string" where
  "lat_of desc = opt_or (ext_lat_field (desc_ext desc)) ''lat''"

definition lon_of :: "AggOpDescriptor \<Rightarrow> string" where
  "lon_of desc = opt_or (ext_lon_field (desc_ext desc)) ''lon''"

section \<open>Operator states\<close>

datatype LifetimeOp =
    OCount CountState
  | OSum SumState
  | OAvg AvgState
  | OMin MinState
  | OMax MaxState
  | OVariance VarianceState
  | OStdDev VarianceState
  | ORatio RatioState
  | OCountDistinct CountDistinctStateWrap
  | OPercentile PercentileStateWrap
  | OTopK TopKStateWrap
  | OBloomMember BloomMemberStateWrap
  | OEntropy EntropyStateWrap
  | OFirst FirstState
  | OLast LastState
  | OFirstN FirstNState
  | OLastN LastNState
  | OLag LagState
  | OFirstSeen SeenState
  | OLastSeen SeenState
  | OAge SeenState
  | OHasSeen SeenState
  | OTimeSince SeenState
  | OTimeSinceLastN TimeSinceLastNState
  | OStreak StreakState
  | OMaxStreak StreakState
  | ONegativeStreak NegativeStreakState
  | OFirstSeenInWindow FirstSeenInWindowState
  | OEwma EwmaState u64
  | OEwVar EwVarState u64
  | OEwZScore EwZScoreState u64
  | ODecayedSum DecayedSumState u64
  | ODecayedCount DecayedCountState u64
  | OTwa TwaState
  | ORateOfChange RateOfChangeState
  | OInterArrivalStats InterArrivalStatsState
  | OBurstCount BurstCountState u64
  | ODeltaFromPrev DeltaFromPrevState
  | OTrend TrendState
  | OTrendResidual TrendResidualState
  | OOutlierCount OutlierCountState f64
  | OValueChangeCount ValueChangeCountState
  | OZScore ZScoreState
  | OHistogram HistogramState
  | OHourOfDayHistogram HourOfDayHistogramState
  | ODowHourHistogram DowHourHistogramState
  | OSeasonalDeviation SeasonalDeviationState
  | OEventTypeMix EventTypeMixState
  | OMostRecentN MostRecentNState
  | OReservoirSample ReservoirSampleState
  | OGeoVelocity GeoVelocityState
  | OGeoDistance GeoDistanceState
  | OGeoSpread GeoSpreadState
  | ODistanceFromHome DistanceFromHomeState

text \<open>Building a state; \<open>lm\<close> is what the Bloom filter's sizing needs.\<close>

definition new_lifetime_full :: "libm \<Rightarrow> AggOpDescriptor \<Rightarrow> LifetimeOp option" where
  "new_lifetime_full lm desc =
     (let sp = opt_or (sketch_params desc) sketch_default in
      case desc_kind desc of
        KCount \<Rightarrow> Some (OCount count_default)
      | KSum \<Rightarrow> Some (OSum sum_default)
      | KAvg \<Rightarrow> Some (OAvg avg_default)
      | KMin \<Rightarrow> Some (OMin min_default)
      | KMax \<Rightarrow> Some (OMax max_default)
      | KVariance \<Rightarrow> Some (OVariance variance_default)
      | KStdDev \<Rightarrow> Some (OStdDev variance_default)
      | KRatio \<Rightarrow> Some (ORatio ratio_default)
      | KFirst \<Rightarrow> Some (OFirst first_default)
      | KLast \<Rightarrow> Some (OLast last_default)
      | KFirstN \<Rightarrow> Some (OFirstN (firstn_new (opt_or (desc_n desc) 1)))
      | KLastN \<Rightarrow> Some (OLastN (lastn_new (opt_or (desc_n desc) 1)))
      | KLag \<Rightarrow> Some (OLag (lag_new (opt_or (desc_n desc) 1)))
      | KFirstSeen \<Rightarrow> Some (OFirstSeen seen_default)
      | KLastSeen \<Rightarrow> Some (OLastSeen seen_default)
      | KAge \<Rightarrow> Some (OAge seen_default)
      | KHasSeen \<Rightarrow> Some (OHasSeen seen_default)
      | KTimeSince \<Rightarrow> Some (OTimeSince seen_default)
      | KTimeSinceLastN \<Rightarrow> Some (OTimeSinceLastN (tsl_new (opt_or (desc_n desc) 1)))
      | KStreak \<Rightarrow> Some (OStreak streak_default)
      | KMaxStreak \<Rightarrow> Some (OMaxStreak streak_default)
      | KNegativeStreak \<Rightarrow> Some (ONegativeStreak neg_streak_default)
      | KFirstSeenInWindow \<Rightarrow> Some (OFirstSeenInWindow (fsw_new (opt_or (desc_window_ms desc) 0)))
      | KEwma \<Rightarrow> Some (OEwma ewma_default (opt_or (half_life_ms desc) 1))
      | KEwVar \<Rightarrow> Some (OEwVar ewvar_default (opt_or (half_life_ms desc) 1))
      | KEwZScore \<Rightarrow> Some (OEwZScore ewzscore_default (opt_or (half_life_ms desc) 1))
      | KDecayedSum \<Rightarrow> Some (ODecayedSum dsum_default (opt_or (half_life_ms desc) 1))
      | KDecayedCount \<Rightarrow> Some (ODecayedCount dcount_default (opt_or (half_life_ms desc) 1))
      | KTwa \<Rightarrow> Some (OTwa twa_default)
      | KRateOfChange \<Rightarrow> Some (ORateOfChange roc_default)
      | KInterArrivalStats \<Rightarrow> Some (OInterArrivalStats ias_default)
      | KBurstCount \<Rightarrow> Some (OBurstCount burst_default (opt_or (sub_window_ms desc) 1))
      | KDeltaFromPrev \<Rightarrow> Some (ODeltaFromPrev delta_default)
      | KTrend \<Rightarrow> Some (OTrend trend_default)
      | KTrendResidual \<Rightarrow> Some (OTrendResidual tres_default)
      | KOutlierCount \<Rightarrow> Some (OOutlierCount outlier_default (opt_or (desc_sigma desc) (Fin 3)))
      | KValueChangeCount \<Rightarrow> Some (OValueChangeCount vcc_default)
      | KZScore \<Rightarrow> Some (OZScore zscore_default)
      | KCountDistinct \<Rightarrow> Some (OCountDistinct cdw_default)
      | KPercentile \<Rightarrow> Some (OPercentile (case percentile_q sp of None \<Rightarrow> pct_default | Some q \<Rightarrow> pct_default\<lparr>pct_q := q\<rparr>))
      | KTopK \<Rightarrow> Some (OTopK \<lparr>topk_inner = topk_new (max (opt_or (top_k_k sp) 10) 1) 1024 2048 4\<rparr>)
      | KBloomMember \<Rightarrow> map_option OBloomMember (bloom_with_params lm (opt_or (bloom_capacity sp) 1024) (opt_or (bloom_fpr sp) (f64_round False (1 / 100))))
      | KEntropy \<Rightarrow> Some (OEntropy entropy_default)
      | KHistogram \<Rightarrow> Some (OHistogram (hist_new (opt_or (ext_buckets (desc_ext desc)) [])))
      | KHourOfDayHistogram \<Rightarrow> Some (OHourOfDayHistogram hod_default)
      | KDowHourHistogram \<Rightarrow> Some (ODowHourHistogram dow_default)
      | KSeasonalDeviation \<Rightarrow> Some (OSeasonalDeviation seasonal_default)
      | KEventTypeMix \<Rightarrow> Some (OEventTypeMix (mix_new (opt_or (max_categories (desc_ext desc)) 256) (ext_categories (desc_ext desc))))
      | KMostRecentN \<Rightarrow> Some (OMostRecentN (mrn_new (opt_or (ext_n (desc_ext desc)) 10)))
      | KReservoirSample \<Rightarrow> Some (OReservoirSample (res_new (case ext_samples (desc_ext desc) of Some k \<Rightarrow> k | None \<Rightarrow> opt_or (ext_k (desc_ext desc)) 10)))
      | KGeoVelocity \<Rightarrow> Some (OGeoVelocity (gv_with_fields (lat_of desc) (lon_of desc)))
      | KGeoDistance \<Rightarrow> Some (OGeoDistance (gd_with_fields (lat_of desc) (lon_of desc)))
      | KGeoSpread \<Rightarrow> Some (OGeoSpread (gs_with_fields (lat_of desc) (lon_of desc)))
      | KDistanceFromHome \<Rightarrow> Some (ODistanceFromHome (dh_with_fields (lat_of desc) (lon_of desc) (opt_or (ext_samples (desc_ext desc)) 100))))"

definition new_lifetime :: "libm \<Rightarrow> AggKind \<Rightarrow> SketchParams option \<Rightarrow> LifetimeOp option" where
  "new_lifetime lm kind params =
     (let sp = opt_or params sketch_default in
      case kind of
        KCount \<Rightarrow> Some (OCount count_default)
      | KSum \<Rightarrow> Some (OSum sum_default)
      | KAvg \<Rightarrow> Some (OAvg avg_default)
      | KMin \<Rightarrow> Some (OMin min_default)
      | KMax \<Rightarrow> Some (OMax max_default)
      | KVariance \<Rightarrow> Some (OVariance variance_default)
      | KStdDev \<Rightarrow> Some (OStdDev variance_default)
      | KRatio \<Rightarrow> Some (ORatio ratio_default)
      | KCountDistinct \<Rightarrow> Some (OCountDistinct cdw_default)
      | KPercentile \<Rightarrow> Some (OPercentile (case percentile_q sp of None \<Rightarrow> pct_default | Some q \<Rightarrow> pct_default\<lparr>pct_q := q\<rparr>))
      | KTopK \<Rightarrow> Some (OTopK \<lparr>topk_inner = topk_new (max (opt_or (top_k_k sp) 10) 1) 1024 2048 4\<rparr>)
      | KBloomMember \<Rightarrow> map_option OBloomMember (bloom_with_params lm (opt_or (bloom_capacity sp) 1024) (opt_or (bloom_fpr sp) (f64_round False (1 / 100))))
      | KEntropy \<Rightarrow> Some (OEntropy entropy_default)
      | _ \<Rightarrow> new_lifetime_full lm (default_descriptor\<lparr>desc_kind := kind\<rparr>))"

section \<open>Updating and querying\<close>

primrec op_update :: "agg_env \<Rightarrow> LifetimeOp \<Rightarrow> Row \<Rightarrow> int \<Rightarrow> string option \<Rightarrow> bool \<Rightarrow> LifetimeOp option" where
  "op_update env (OCount s) row now_ms field m = Some (OCount (count_update s row now_ms field m))"
| "op_update env (OSum s) row now_ms field m = Some (OSum (sum_update s row now_ms field m))"
| "op_update env (OAvg s) row now_ms field m = Some (OAvg (avg_update s row now_ms field m))"
| "op_update env (OMin s) row now_ms field m = Some (OMin (min_update s row now_ms field m))"
| "op_update env (OMax s) row now_ms field m = Some (OMax (max_update s row now_ms field m))"
| "op_update env (OVariance s) row now_ms field m = Some (OVariance (variance_update s row now_ms field m))"
| "op_update env (OStdDev s) row now_ms field m = Some (OStdDev (variance_update s row now_ms field m))"
| "op_update env (ORatio s) row now_ms field m = Some (ORatio (ratio_update s row now_ms field m))"
| "op_update env (OCountDistinct s) row now_ms field m = Some (OCountDistinct (cdw_update (env_hashers env) s row now_ms field m))"
| "op_update env (OPercentile s) row now_ms field m = map_option OPercentile (pct_update (env_libm env) s row now_ms field m)"
| "op_update env (OTopK s) row now_ms field m = map_option OTopK (topk_update (env_h64 env) s row now_ms field m)"
| "op_update env (OBloomMember s) row now_ms field m = map_option OBloomMember (bloom_update (env_libm env) (env_hashers env) s row now_ms field m)"
| "op_update env (OEntropy s) row now_ms field m = Some (OEntropy (entropy_update (env_libm env) s row now_ms field m))"
| "op_update env (OFirst s) row now_ms field m = Some (OFirst (first_update s row now_ms field m))"
| "op_update env (OLast s) row now_ms field m = Some (OLast (last_update s row now_ms field m))"
| "op_update env (OFirstN s) row now_ms field m = Some (OFirstN (firstn_update s row now_ms field m))"
| "op_update env (OLastN s) row now_ms field m = Some (OLastN (lastn_update s row now_ms field m))"
| "op_update env (OLag s) row now_ms field m = Some (OLag (lag_update s row now_ms field m))"
| "op_update env (OFirstSeen s) row now_ms field m = Some (OFirstSeen (seen_update s row now_ms field m))"
| "op_update env (OLastSeen s) row now_ms field m = Some (OLastSeen (seen_update s row now_ms field m))"
| "op_update env (OAge s) row now_ms field m = Some (OAge (seen_update s row now_ms field m))"
| "op_update env (OHasSeen s) row now_ms field m = Some (OHasSeen (seen_update s row now_ms field m))"
| "op_update env (OTimeSince s) row now_ms field m = Some (OTimeSince (seen_update s row now_ms field m))"
| "op_update env (OTimeSinceLastN s) row now_ms field m = Some (OTimeSinceLastN (tsl_update s row now_ms field m))"
| "op_update env (OStreak s) row now_ms field m = Some (OStreak (streak_update s row now_ms field m))"
| "op_update env (OMaxStreak s) row now_ms field m = Some (OMaxStreak (streak_update s row now_ms field m))"
| "op_update env (ONegativeStreak s) row now_ms field m = Some (ONegativeStreak (neg_streak_update s row now_ms field m))"
| "op_update env (OFirstSeenInWindow s) row now_ms field m = Some (OFirstSeenInWindow (fsw_update s row now_ms field m))"
| "op_update env (OEwma s p) row now_ms field m = Some (OEwma (ewma_update (env_libm env) s row now_ms field m p) p)"
| "op_update env (OEwVar s p) row now_ms field m = Some (OEwVar (ewvar_update (env_libm env) s row now_ms field m p) p)"
| "op_update env (OEwZScore s p) row now_ms field m = Some (OEwZScore (ewzscore_update (env_libm env) s row now_ms field m p) p)"
| "op_update env (ODecayedSum s p) row now_ms field m = Some (ODecayedSum (dsum_update (env_libm env) s row now_ms field m p) p)"
| "op_update env (ODecayedCount s p) row now_ms field m = Some (ODecayedCount (dcount_update (env_libm env) s row now_ms field m p) p)"
| "op_update env (OTwa s) row now_ms field m = Some (OTwa (twa_update s row now_ms field m))"
| "op_update env (ORateOfChange s) row now_ms field m = Some (ORateOfChange (roc_update s row now_ms field m))"
| "op_update env (OInterArrivalStats s) row now_ms field m = Some (OInterArrivalStats (ias_update s row now_ms field m))"
| "op_update env (OBurstCount s p) row now_ms field m = map_option (\<lambda>s. OBurstCount s p) (burst_update s row now_ms field m p)"
| "op_update env (ODeltaFromPrev s) row now_ms field m = Some (ODeltaFromPrev (delta_update s row now_ms field m))"
| "op_update env (OTrend s) row now_ms field m = Some (OTrend (trend_update s row now_ms field m))"
| "op_update env (OTrendResidual s) row now_ms field m = Some (OTrendResidual (tres_update s row now_ms field m))"
| "op_update env (OOutlierCount s p) row now_ms field m = Some (OOutlierCount (outlier_update s row now_ms field m p) p)"
| "op_update env (OValueChangeCount s) row now_ms field m = Some (OValueChangeCount (vcc_update s row now_ms field m))"
| "op_update env (OZScore s) row now_ms field m = Some (OZScore (zscore_update s row now_ms field m))"
| "op_update env (OHistogram s) row now_ms field m = map_option OHistogram (hist_update s row field m)"
| "op_update env (OHourOfDayHistogram s) row now_ms field m = map_option OHourOfDayHistogram (hod_update s now_ms m)"
| "op_update env (ODowHourHistogram s) row now_ms field m = map_option ODowHourHistogram (dow_update s now_ms m)"
| "op_update env (OSeasonalDeviation s) row now_ms field m = Some (OSeasonalDeviation (seasonal_update s row now_ms field m))"
| "op_update env (OEventTypeMix s) row now_ms field m = Some (OEventTypeMix (mix_update s row field m))"
| "op_update env (OMostRecentN s) row now_ms field m = map_option OMostRecentN (mrn_update s row field m)"
| "op_update env (OReservoirSample s) row now_ms field m = map_option OReservoirSample (res_update s row field m)"
| "op_update env (OGeoVelocity s) row now_ms field m = Some (OGeoVelocity (gv_update (env_hav env) s row now_ms m))"
| "op_update env (OGeoDistance s) row now_ms field m = Some (OGeoDistance (gd_update (env_hav env) s row m))"
| "op_update env (OGeoSpread s) row now_ms field m = Some (OGeoSpread (gs_update s row m))"
| "op_update env (ODistanceFromHome s) row now_ms field m = map_option ODistanceFromHome (dh_update s row m)"

primrec op_update_extracted :: "agg_env \<Rightarrow> LifetimeOp \<Rightarrow> Value option \<Rightarrow> int \<Rightarrow> Row \<Rightarrow> string option \<Rightarrow> ExtractedFields \<Rightarrow> nat \<Rightarrow> nat \<Rightarrow> bool \<Rightarrow> LifetimeOp option" where
  "op_update_extracted env (OCount s) pre_val now_ms row field extracted lat_idx lon_idx m = Some (OCount (count_update s row now_ms field m))"
| "op_update_extracted env (OSum s) pre_val now_ms row field extracted lat_idx lon_idx m = Some (OSum (sum_update_pre s pre_val m))"
| "op_update_extracted env (OAvg s) pre_val now_ms row field extracted lat_idx lon_idx m = Some (OAvg (avg_update_pre s pre_val m))"
| "op_update_extracted env (OMin s) pre_val now_ms row field extracted lat_idx lon_idx m = Some (OMin (min_update_pre s pre_val m))"
| "op_update_extracted env (OMax s) pre_val now_ms row field extracted lat_idx lon_idx m = Some (OMax (max_update_pre s pre_val m))"
| "op_update_extracted env (OVariance s) pre_val now_ms row field extracted lat_idx lon_idx m = Some (OVariance (variance_update_pre s pre_val m))"
| "op_update_extracted env (OStdDev s) pre_val now_ms row field extracted lat_idx lon_idx m = Some (OStdDev (variance_update_pre s pre_val m))"
| "op_update_extracted env (ORatio s) pre_val now_ms row field extracted lat_idx lon_idx m = Some (ORatio (ratio_update s row now_ms field m))"
| "op_update_extracted env (OCountDistinct s) pre_val now_ms row field extracted lat_idx lon_idx m = Some (OCountDistinct (cdw_update_pre (env_hashers env) s pre_val m))"
| "op_update_extracted env (OPercentile s) pre_val now_ms row field extracted lat_idx lon_idx m = map_option OPercentile (pct_update_pre (env_libm env) s pre_val m)"
| "op_update_extracted env (OTopK s) pre_val now_ms row field extracted lat_idx lon_idx m = map_option OTopK (topk_update_pre (env_h64 env) s pre_val m)"
| "op_update_extracted env (OBloomMember s) pre_val now_ms row field extracted lat_idx lon_idx m = map_option OBloomMember (bloom_update_pre (env_libm env) (env_hashers env) s pre_val m)"
| "op_update_extracted env (OEntropy s) pre_val now_ms row field extracted lat_idx lon_idx m = Some (OEntropy (entropy_update_pre (env_libm env) s pre_val m))"
| "op_update_extracted env (OFirst s) pre_val now_ms row field extracted lat_idx lon_idx m = Some (OFirst (first_update_pre s pre_val m))"
| "op_update_extracted env (OLast s) pre_val now_ms row field extracted lat_idx lon_idx m = Some (OLast (last_update_pre s pre_val m))"
| "op_update_extracted env (OFirstN s) pre_val now_ms row field extracted lat_idx lon_idx m = Some (OFirstN (firstn_update_pre s pre_val m))"
| "op_update_extracted env (OLastN s) pre_val now_ms row field extracted lat_idx lon_idx m = Some (OLastN (lastn_update_pre s pre_val m))"
| "op_update_extracted env (OLag s) pre_val now_ms row field extracted lat_idx lon_idx m = Some (OLag (lag_update_pre s pre_val m))"
| "op_update_extracted env (OFirstSeen s) pre_val now_ms row field extracted lat_idx lon_idx m = Some (OFirstSeen (seen_update s row now_ms field m))"
| "op_update_extracted env (OLastSeen s) pre_val now_ms row field extracted lat_idx lon_idx m = Some (OLastSeen (seen_update s row now_ms field m))"
| "op_update_extracted env (OAge s) pre_val now_ms row field extracted lat_idx lon_idx m = Some (OAge (seen_update s row now_ms field m))"
| "op_update_extracted env (OHasSeen s) pre_val now_ms row field extracted lat_idx lon_idx m = Some (OHasSeen (seen_update s row now_ms field m))"
| "op_update_extracted env (OTimeSince s) pre_val now_ms row field extracted lat_idx lon_idx m = Some (OTimeSince (seen_update s row now_ms field m))"
| "op_update_extracted env (OTimeSinceLastN s) pre_val now_ms row field extracted lat_idx lon_idx m = Some (OTimeSinceLastN (tsl_update s row now_ms field m))"
| "op_update_extracted env (OStreak s) pre_val now_ms row field extracted lat_idx lon_idx m = Some (OStreak (streak_update s row now_ms field m))"
| "op_update_extracted env (OMaxStreak s) pre_val now_ms row field extracted lat_idx lon_idx m = Some (OMaxStreak (streak_update s row now_ms field m))"
| "op_update_extracted env (ONegativeStreak s) pre_val now_ms row field extracted lat_idx lon_idx m = Some (ONegativeStreak (neg_streak_update s row now_ms field m))"
| "op_update_extracted env (OFirstSeenInWindow s) pre_val now_ms row field extracted lat_idx lon_idx m = Some (OFirstSeenInWindow (fsw_update s row now_ms field m))"
| "op_update_extracted env (OEwma s p) pre_val now_ms row field extracted lat_idx lon_idx m = Some (OEwma (ewma_update (env_libm env) s row now_ms field m p) p)"
| "op_update_extracted env (OEwVar s p) pre_val now_ms row field extracted lat_idx lon_idx m = Some (OEwVar (ewvar_update (env_libm env) s row now_ms field m p) p)"
| "op_update_extracted env (OEwZScore s p) pre_val now_ms row field extracted lat_idx lon_idx m = Some (OEwZScore (ewzscore_update (env_libm env) s row now_ms field m p) p)"
| "op_update_extracted env (ODecayedSum s p) pre_val now_ms row field extracted lat_idx lon_idx m = Some (ODecayedSum (dsum_update (env_libm env) s row now_ms field m p) p)"
| "op_update_extracted env (ODecayedCount s p) pre_val now_ms row field extracted lat_idx lon_idx m = Some (ODecayedCount (dcount_update (env_libm env) s row now_ms field m p) p)"
| "op_update_extracted env (OTwa s) pre_val now_ms row field extracted lat_idx lon_idx m = Some (OTwa (twa_update s row now_ms field m))"
| "op_update_extracted env (ORateOfChange s) pre_val now_ms row field extracted lat_idx lon_idx m = Some (ORateOfChange (roc_update s row now_ms field m))"
| "op_update_extracted env (OInterArrivalStats s) pre_val now_ms row field extracted lat_idx lon_idx m = Some (OInterArrivalStats (ias_update s row now_ms field m))"
| "op_update_extracted env (OBurstCount s p) pre_val now_ms row field extracted lat_idx lon_idx m = map_option (\<lambda>s. OBurstCount s p) (burst_update s row now_ms field m p)"
| "op_update_extracted env (ODeltaFromPrev s) pre_val now_ms row field extracted lat_idx lon_idx m = Some (ODeltaFromPrev (delta_update s row now_ms field m))"
| "op_update_extracted env (OTrend s) pre_val now_ms row field extracted lat_idx lon_idx m = Some (OTrend (trend_update s row now_ms field m))"
| "op_update_extracted env (OTrendResidual s) pre_val now_ms row field extracted lat_idx lon_idx m = Some (OTrendResidual (tres_update s row now_ms field m))"
| "op_update_extracted env (OOutlierCount s p) pre_val now_ms row field extracted lat_idx lon_idx m = Some (OOutlierCount (outlier_update s row now_ms field m p) p)"
| "op_update_extracted env (OValueChangeCount s) pre_val now_ms row field extracted lat_idx lon_idx m = Some (OValueChangeCount (vcc_update s row now_ms field m))"
| "op_update_extracted env (OZScore s) pre_val now_ms row field extracted lat_idx lon_idx m = Some (OZScore (zscore_update s row now_ms field m))"
| "op_update_extracted env (OHistogram s) pre_val now_ms row field extracted lat_idx lon_idx m = map_option OHistogram (hist_update s row field m)"
| "op_update_extracted env (OHourOfDayHistogram s) pre_val now_ms row field extracted lat_idx lon_idx m = map_option OHourOfDayHistogram (hod_update s now_ms m)"
| "op_update_extracted env (ODowHourHistogram s) pre_val now_ms row field extracted lat_idx lon_idx m = map_option ODowHourHistogram (dow_update s now_ms m)"
| "op_update_extracted env (OSeasonalDeviation s) pre_val now_ms row field extracted lat_idx lon_idx m = Some (OSeasonalDeviation (seasonal_update s row now_ms field m))"
| "op_update_extracted env (OEventTypeMix s) pre_val now_ms row field extracted lat_idx lon_idx m = Some (OEventTypeMix (mix_update_at s pre_val m))"
| "op_update_extracted env (OMostRecentN s) pre_val now_ms row field extracted lat_idx lon_idx m = map_option OMostRecentN (mrn_update s row field m)"
| "op_update_extracted env (OReservoirSample s) pre_val now_ms row field extracted lat_idx lon_idx m = map_option OReservoirSample (res_update s row field m)"
| "op_update_extracted env (OGeoVelocity s) pre_val now_ms row field extracted lat_idx lon_idx m = Some (OGeoVelocity (if lat_idx \<noteq> FIELD_IDX_NONE then gv_update_at (env_hav env) s extracted lat_idx lon_idx now_ms m else gv_update (env_hav env) s row now_ms m))"
| "op_update_extracted env (OGeoDistance s) pre_val now_ms row field extracted lat_idx lon_idx m = Some (OGeoDistance (if lat_idx \<noteq> FIELD_IDX_NONE then gd_update_at (env_hav env) s extracted lat_idx lon_idx m else gd_update (env_hav env) s row m))"
| "op_update_extracted env (OGeoSpread s) pre_val now_ms row field extracted lat_idx lon_idx m = Some (OGeoSpread (if lat_idx \<noteq> FIELD_IDX_NONE then gs_update_at s extracted lat_idx lon_idx m else gs_update s row m))"
| "op_update_extracted env (ODistanceFromHome s) pre_val now_ms row field extracted lat_idx lon_idx m = map_option ODistanceFromHome (if lat_idx \<noteq> FIELD_IDX_NONE then dh_update_at s extracted lat_idx lon_idx m else dh_update s row m)"

primrec op_query :: "agg_env \<Rightarrow> LifetimeOp \<Rightarrow> int \<Rightarrow> Value option" where
  "op_query env (OCount s) query_time_ms = Some (count_query s)"
| "op_query env (OSum s) query_time_ms = Some (sum_query s)"
| "op_query env (OAvg s) query_time_ms = Some (avg_query s)"
| "op_query env (OMin s) query_time_ms = Some (min_query s)"
| "op_query env (OMax s) query_time_ms = Some (max_query s)"
| "op_query env (OVariance s) query_time_ms = Some (query_variance s)"
| "op_query env (OStdDev s) query_time_ms = Some (query_stddev s)"
| "op_query env (ORatio s) query_time_ms = Some (ratio_query s)"
| "op_query env (OCountDistinct s) query_time_ms = Some (cdw_query (env_libm env) s)"
| "op_query env (OPercentile s) query_time_ms = pct_query (env_libm env) s"
| "op_query env (OTopK s) query_time_ms = Some (topk_query s)"
| "op_query env (OBloomMember s) query_time_ms = Some (bloom_query s)"
| "op_query env (OEntropy s) query_time_ms = Some (entropy_query (env_libm env) s)"
| "op_query env (OFirst s) query_time_ms = Some (first_query s)"
| "op_query env (OLast s) query_time_ms = Some (last_query s)"
| "op_query env (OFirstN s) query_time_ms = Some (firstn_query s)"
| "op_query env (OLastN s) query_time_ms = Some (lastn_query s)"
| "op_query env (OLag s) query_time_ms = Some (lag_query s)"
| "op_query env (OFirstSeen s) query_time_ms = Some (query_first_seen s)"
| "op_query env (OLastSeen s) query_time_ms = Some (query_last_seen s)"
| "op_query env (OAge s) query_time_ms = Some (query_age s query_time_ms)"
| "op_query env (OHasSeen s) query_time_ms = Some (query_has_seen s)"
| "op_query env (OTimeSince s) query_time_ms = Some (query_time_since s query_time_ms)"
| "op_query env (OTimeSinceLastN s) query_time_ms = Some (tsl_query s query_time_ms)"
| "op_query env (OStreak s) query_time_ms = Some (streak_query_current s)"
| "op_query env (OMaxStreak s) query_time_ms = Some (streak_query_max s)"
| "op_query env (ONegativeStreak s) query_time_ms = Some (neg_streak_query s)"
| "op_query env (OFirstSeenInWindow s) query_time_ms = Some (fsw_query s query_time_ms)"
| "op_query env (OEwma s p) query_time_ms = Some (ewma_query s)"
| "op_query env (OEwVar s p) query_time_ms = Some (ewvar_query_variance s)"
| "op_query env (OEwZScore s p) query_time_ms = Some (ewzscore_query s)"
| "op_query env (ODecayedSum s p) query_time_ms = Some (dsum_query s)"
| "op_query env (ODecayedCount s p) query_time_ms = Some (dcount_query s)"
| "op_query env (OTwa s) query_time_ms = Some (twa_query s)"
| "op_query env (ORateOfChange s) query_time_ms = Some (roc_query s)"
| "op_query env (OInterArrivalStats s) query_time_ms = Some (ias_query s)"
| "op_query env (OBurstCount s p) query_time_ms = Some (burst_query s)"
| "op_query env (ODeltaFromPrev s) query_time_ms = Some (delta_query s)"
| "op_query env (OTrend s) query_time_ms = Some (trend_query s)"
| "op_query env (OTrendResidual s) query_time_ms = Some (tres_query s)"
| "op_query env (OOutlierCount s p) query_time_ms = Some (outlier_query s)"
| "op_query env (OValueChangeCount s) query_time_ms = Some (vcc_query s)"
| "op_query env (OZScore s) query_time_ms = Some (zscore_query s)"
| "op_query env (OHistogram s) query_time_ms = hist_query (env_libm env) s"
| "op_query env (OHourOfDayHistogram s) query_time_ms = Some (hod_query s)"
| "op_query env (ODowHourHistogram s) query_time_ms = dow_query s"
| "op_query env (OSeasonalDeviation s) query_time_ms = seasonal_query s"
| "op_query env (OEventTypeMix s) query_time_ms = Some (mix_query s)"
| "op_query env (OMostRecentN s) query_time_ms = mrn_query s"
| "op_query env (OReservoirSample s) query_time_ms = Some (res_query s)"
| "op_query env (OGeoVelocity s) query_time_ms = Some (gv_query s)"
| "op_query env (OGeoDistance s) query_time_ms = Some (gd_query s)"
| "op_query env (OGeoSpread s) query_time_ms = Some (gs_query (env_libm env) s)"
| "op_query env (ODistanceFromHome s) query_time_ms = Some (dh_query (env_hav env) s)"

section \<open>Output types\<close>

datatype AggTypeError =
    FieldRequired AggKind
  | FieldMissing string

definition field_type_of :: "Schema \<Rightarrow> AggOpDescriptor \<Rightarrow> AggTypeError + FieldType" where
  "field_type_of upstream desc =
     (case desc_field desc of
        None \<Rightarrow> Inl (FieldRequired (desc_kind desc))
      | Some f \<Rightarrow> (case map_of (sch_fields upstream) f of None \<Rightarrow> Inl (FieldMissing f) | Some t \<Rightarrow> Inr t))"

definition output_type_for :: "Schema \<Rightarrow> AggOpDescriptor \<Rightarrow> AggTypeError + FieldType" where
  "output_type_for upstream desc =
     (let k = desc_kind desc in
      if k \<in> {KCount, KCountDistinct} then Inr TI64
      else if k \<in> {KSum, KAvg, KVariance, KStdDev, KRatio, KPercentile, KEntropy} then Inr TF64
      else if k = KTopK then Inr TJson
      else if k = KBloomMember then Inr TBool
      else if k \<in> {KMin, KMax, KFirst, KLast, KLag} then field_type_of upstream desc
      else if k \<in> {KFirstN, KLastN} then
        (case field_type_of upstream desc of Inl e \<Rightarrow> Inl e | Inr t \<Rightarrow> Inr TStr)
      else if k \<in> {KFirstSeen, KLastSeen} then Inr TDatetime
      else if k \<in> {KAge, KTimeSince, KTimeSinceLastN} then Inr TI64
      else if k \<in> {KHasSeen, KFirstSeenInWindow} then Inr TBool
      else if k \<in> {KStreak, KMaxStreak, KNegativeStreak} then Inr TI64
      else if k \<in> {KEwma, KEwVar, KEwZScore, KDecayedSum, KDecayedCount, KTwa, KRateOfChange, KInterArrivalStats,
                   KTrend, KTrendResidual, KZScore} then Inr TF64
      else if k \<in> {KBurstCount, KOutlierCount, KValueChangeCount} then Inr TI64
      else if k = KDeltaFromPrev then field_type_of upstream desc
      else if k \<in> {KHistogram, KHourOfDayHistogram, KDowHourHistogram, KEventTypeMix, KMostRecentN, KReservoirSample}
        then Inr TStr
      else Inr TF64)"

section \<open>The two update paths agree\<close>

text \<open>The position fields a state reads, when it reads any.\<close>

definition geo_fields :: "LifetimeOp \<Rightarrow> (string \<times> string) option" where
  "geo_fields op =
     (case op of
        OGeoVelocity s \<Rightarrow> Some (gv_lat_field s, gv_lon_field s)
      | OGeoDistance s \<Rightarrow> Some (gd_lat_field s, gd_lon_field s)
      | OGeoSpread s \<Rightarrow> Some (gs_lat_field s, gs_lon_field s)
      | ODistanceFromHome s \<Rightarrow> Some (dh_lat_field s, dh_lon_field s)
      | _ \<Rightarrow> None)"

text \<open>Resolved position indices point at the fields the state reads.\<close>

definition geo_resolved :: "string list \<Rightarrow> LifetimeOp \<Rightarrow> nat \<Rightarrow> nat \<Rightarrow> bool" where
  "geo_resolved names op i j \<longleftrightarrow>
     (case geo_fields op of
        None \<Rightarrow> True
      | Some (lat, lon) \<Rightarrow> i \<noteq> FIELD_IDX_NONE \<longrightarrow> names_field names i lat \<and> names_field names j lon)"

lemmas pre_paths = update_pre_agrees cdw_update_pre_agrees pct_update_pre_agrees topk_update_pre_agrees
  bloom_update_pre_agrees entropy_update_pre_agrees mix_update_at_agrees

lemma op_extracted_agrees:
  assumes "geo_resolved names op i j"
  shows "op_update_extracted env op (field_value row field) t row field (extract_fields names row) i j m =
    op_update env op row t field m"
  using assms
  by (cases op) (simp_all add: pre_paths geo_resolved_def geo_fields_def geo_update_at_agrees gd_update_at_agrees
      gs_update_at_agrees dh_update_at_agrees)

text \<open>The kinds that can be windowed ignore the row and the field name on the extracted path.\<close>

definition windowable :: "LifetimeOp \<Rightarrow> bool" where
  "windowable op \<longleftrightarrow>
     (case op of
        OCount _ \<Rightarrow> True | OSum _ \<Rightarrow> True | OAvg _ \<Rightarrow> True | OMin _ \<Rightarrow> True | OMax _ \<Rightarrow> True
      | OVariance _ \<Rightarrow> True | OStdDev _ \<Rightarrow> True | ORatio _ \<Rightarrow> True | OCountDistinct _ \<Rightarrow> True
      | OPercentile _ \<Rightarrow> True | OTopK _ \<Rightarrow> True | OEntropy _ \<Rightarrow> True | _ \<Rightarrow> False)"

lemma windowable_update: "windowable op \<Longrightarrow> op_update env op row t field m = Some op' \<Longrightarrow> windowable op'"
  by (cases op) (auto simp: windowable_def)

lemma windowable_extracted:
  assumes "windowable op"
  shows "op_update_extracted env op (field_value row field) t [] None ex i j m = op_update env op row t field m"
  using assms
  by (cases op) (simp_all add: windowable_def pre_paths count_update_def ratio_update_def)

lemma new_lifetime_windowable:
  "supports_windowed_wrap k \<Longrightarrow> new_lifetime lm k sp = Some op \<Longrightarrow> windowable op"
  by (cases k) (auto simp: supports_windowed_wrap_def new_lifetime_def windowable_def Let_def)

end
