(* ===== verification/AggWindowed.thy ===== *)
theory AggWindowed
  imports AggOps
begin

text \<open>
  \<open>crates/beava-core/src/agg_windowed.rs\<close>: an operator over a tumbling window, kept as at most
  64 buckets of \<open>ceil(window / 64)\<close> milliseconds, each a lifetime state; and the operator type
  \<open>AggOp\<close> of \<open>crates/beava-core/src/agg_op.rs\<close>, which is a lifetime state or a windowed one.
  Bucket epochs are \<open>i64\<close> values with the wrap-around of the release profile; a window of zero
  milliseconds makes the bucket width zero and the division panics.

  The locale \<open>windowed_inner\<close> is what a bucket state must provide: a fresh state and a total
  update. Its lemmas show that with events in time order no live bucket is ever evicted and
  that each bucket holds exactly the fold of the events of its epoch, so that a query sees the
  events of the window and no others.
\<close>

section \<open>Buckets\<close>

record 'op WindowedOp =
  inner_kind :: AggKind
  bucket_ms :: u64
  window_ms :: u64
  buckets :: "(int \<times> 'op) list"
  max_buckets :: nat
  wo_sketch_params :: SketchParams

definition div_ceil_64 :: "u64 \<Rightarrow> u64" where
  "div_ceil_64 w = (if w mod 64 = 0 then w div 64 else w div 64 + 1)"

definition win_new_with_params :: "AggKind \<Rightarrow> u64 \<Rightarrow> SketchParams \<Rightarrow> 'op WindowedOp option" where
  "win_new_with_params kind window params =
     (if kind = KBloomMember then None
      else Some \<lparr>inner_kind = kind, bucket_ms = div_ceil_64 window, window_ms = window, buckets = [],
                 max_buckets = 64, wo_sketch_params = params\<rparr>)"

definition win_new :: "AggKind \<Rightarrow> u64 \<Rightarrow> 'op WindowedOp option" where
  "win_new kind window = win_new_with_params kind window sketch_default"

definition bucket_index :: "'op WindowedOp \<Rightarrow> int \<Rightarrow> nat option" where
  "bucket_index w now_ms =
     map_option (\<lambda>q. unat (word_of_int q :: u64) mod 64) (i64_div_euclid now_ms (u64_as_i64 (bucket_ms w)))"

definition bucket_epoch :: "'op WindowedOp \<Rightarrow> int \<Rightarrow> int option" where
  "bucket_epoch w now_ms =
     map_option (\<lambda>q. i64_wrap (q * u64_as_i64 (bucket_ms w))) (i64_div_euclid now_ms (u64_as_i64 (bucket_ms w)))"

definition position_for_epoch :: "'op WindowedOp \<Rightarrow> int \<Rightarrow> nat option" where
  "position_for_epoch w epoch = position (\<lambda>b. fst b = epoch) (buckets w)"

definition evict_oldest_bucket :: "(int \<times> 'op) list \<Rightarrow> (int \<times> 'op) list" where
  "evict_oldest_bucket bs = (case min_index_by fst bs of None \<Rightarrow> bs | Some i \<Rightarrow> swap_remove i bs)"

text \<open>The routing that the three update paths share: \<open>fresh\<close> builds a bucket state, \<open>upd\<close> updates one.\<close>

definition win_route :: "'op option \<Rightarrow> ('op \<Rightarrow> 'op option) \<Rightarrow> int \<Rightarrow> 'op WindowedOp \<Rightarrow> 'op WindowedOp option" where
  "win_route fresh upd now_ms w =
     (case bucket_epoch w now_ms of
        None \<Rightarrow> None
      | Some epoch \<Rightarrow>
          (case position_for_epoch w epoch of
             Some pos \<Rightarrow>
               map_option (\<lambda>op. w\<lparr>buckets := (buckets w)[pos := (fst (buckets w ! pos), op)]\<rparr>) (upd (snd (buckets w ! pos)))
           | None \<Rightarrow>
               (let bs = (if max_buckets w \<le> length (buckets w) then evict_oldest_bucket (buckets w) else buckets w) in
                case fresh of
                  None \<Rightarrow> None
                | Some op0 \<Rightarrow> map_option (\<lambda>op. w\<lparr>buckets := bs @ [(epoch, op)]\<rparr>) (upd op0))))"

definition win_active :: "'op WindowedOp \<Rightarrow> int \<Rightarrow> int \<Rightarrow> bool" where
  "win_active w query_time_ms epoch \<longleftrightarrow>
     (let age = i64_wrap (query_time_ms - epoch) in 0 \<le> age \<and> age < u64_as_i64 (window_ms w))"

definition active_ops :: "'op WindowedOp \<Rightarrow> int \<Rightarrow> 'op list" where
  "active_ops w query_time_ms = map snd (filter (\<lambda>b. win_active w query_time_ms (fst b)) (buckets w))"

section \<open>In time order, each live bucket holds its events\<close>

text \<open>Times and windows for which no bucket arithmetic overflows.\<close>

definition time_ok :: "int \<Rightarrow> bool" where
  "time_ok t \<longleftrightarrow> \<bar>t\<bar> < 2 ^ 61"

definition window_ok :: "u64 \<Rightarrow> bool" where
  "window_ok w \<longleftrightarrow> 0 < w \<and> uint w < 2 ^ 61"

definition bucket_width :: "u64 \<Rightarrow> int" where
  "bucket_width w = (uint w + 63) div 64"

definition epoch_of :: "u64 \<Rightarrow> int \<Rightarrow> int" where
  "epoch_of w t = t div bucket_width w * bucket_width w"

lemma ceil_64: "(if x mod 64 = 0 then x div 64 else x div 64 + 1) = (x + 63) div 64" for x :: int
proof -
  obtain q r where x: "x = 64 * q + r" "0 \<le> r" "r < 64"
    using mult_div_mod_eq [of 64 x] pos_mod_bound [of 64 x] pos_mod_sign [of 64 x] by (metis zero_less_numeral)
  have q: "x div 64 = q" and r: "x mod 64 = r" using x by simp_all
  show ?thesis
  proof (cases "r = 0")
    case True
    then have "(x + 63) div 64 = q" using x by (intro int_div_pos_eq [of _ _ _ 63]) simp_all
    with True show ?thesis by (simp add: q r)
  next
    case False
    then have "(x + 63) div 64 = q + 1" using x by (intro int_div_pos_eq [of _ _ _ "r - 1"]) auto
    with False show ?thesis by (simp add: q r)
  qed
qed

lemma uint_div_ceil_64: "uint (div_ceil_64 w) = bucket_width w"
proof -
  have "uint w < 2 ^ 64" using uint_lt2p [of w] by simp
  then have "uint w div 64 + 1 < 2 ^ 64" "0 \<le> uint w div 64" by (simp_all add: pos_imp_zdiv_nonneg_iff)
  then have "uint (w div 64 + 1) = uint w div 64 + 1"
    by (simp add: uint_word_ariths uint_div_distrib mod_pos_pos_trivial)
  moreover have "w mod 64 = 0 \<longleftrightarrow> uint w mod 64 = 0"
    by (simp add: word_uint_eq_iff uint_mod_distrib)
  ultimately show ?thesis
    by (simp add: div_ceil_64_def bucket_width_def uint_div_distrib ceil_64 [symmetric])
qed

lemma bucket_width_pos: "window_ok w \<Longrightarrow> 0 < bucket_width w"
  and bucket_width_ge: "window_ok w \<Longrightarrow> uint w \<le> 64 * bucket_width w"
  and bucket_width_lt: "window_ok w \<Longrightarrow> bucket_width w < 2 ^ 56"
  by (auto simp: window_ok_def bucket_width_def word_less_def)

lemma epoch_of_bounds:
  assumes "window_ok w"
  shows "epoch_of w t \<le> t" and "t < epoch_of w t + bucket_width w"
  using bucket_width_pos [OF assms] pos_mod_bound [of "bucket_width w" t] pos_mod_sign [of "bucket_width w" t]
    div_mult_mod_eq [of t "bucket_width w"]
  unfolding epoch_of_def by linarith+

lemma epoch_of_mono: "window_ok w \<Longrightarrow> t \<le> t' \<Longrightarrow> epoch_of w t \<le> epoch_of w t'"
  using bucket_width_pos [of w] by (simp add: epoch_of_def zdiv_mono1)

lemma bucket_ms_int: "window_ok w \<Longrightarrow> u64_as_i64 (div_ceil_64 w) = bucket_width w"
  using bucket_width_lt [of w] bucket_width_pos [of w]
  by (simp add: u64_as_i64_def sint_uint uint_div_ceil_64 signed_take_bit_int_eq_self)

lemma window_ms_int: "window_ok w \<Longrightarrow> u64_as_i64 w = uint w"
  using signed_take_bit_int_eq_self [of 63 "uint w"] order.trans [OF _ uint_ge_0 [of w], of "- (2 ^ 63)"]
  by (simp add: window_ok_def u64_as_i64_def sint_uint)

lemma bucket_epoch_eq:
  assumes "window_ok (window_ms w)" and "bucket_ms w = div_ceil_64 (window_ms w)" and "time_ok t"
  shows "bucket_epoch w t = Some (epoch_of (window_ms w) t)"
proof -
  let ?W = "window_ms w"
  note eb = epoch_of_bounds [OF assms(1), of t] and pos = bucket_width_pos [OF assms(1)]
  have "is_i64 (epoch_of ?W t)"
    using eb bucket_width_lt [OF assms(1)] assms(3) by (auto simp: is_i64_def time_ok_def)
  then show ?thesis
    using pos by (simp add: bucket_epoch_def assms(2) bucket_ms_int [OF assms(1)] i64_div_euclid_def epoch_of_def)
qed

lemma win_active_iff:
  assumes "window_ok (window_ms w)" and "time_ok q" and "\<bar>ep\<bar> < 2 ^ 62"
  shows "win_active w q ep \<longleftrightarrow> ep \<le> q \<and> q < ep + uint (window_ms w)"
proof -
  have "is_i64 (q - ep)" using assms(2,3) by (auto simp: is_i64_def time_ok_def)
  then show ?thesis by (auto simp: win_active_def window_ms_int [OF assms(1)] Let_def)
qed

lemma epoch_small:
  assumes "window_ok w" and "time_ok t"
  shows "\<bar>epoch_of w t\<bar> < 2 ^ 62"
  using epoch_of_bounds [OF assms(1), of t] bucket_width_lt [OF assms(1)] assms(2) by (auto simp: time_ok_def)

definition in_epoch :: "u64 \<Rightarrow> int \<Rightarrow> (int \<times> 'e) list \<Rightarrow> 'e list" where
  "in_epoch w ep es = map snd (filter (\<lambda>x. epoch_of w (fst x) = ep) es)"

lemma in_epoch_snoc [simp]:
  "in_epoch w ep (es @ [x]) = in_epoch w ep es @ (if epoch_of w (fst x) = ep then [snd x] else [])"
  by (simp add: in_epoch_def)

lemma in_epoch_Nil_iff: "in_epoch w ep es = [] \<longleftrightarrow> (\<forall>x \<in> set es. epoch_of w (fst x) \<noteq> ep)"
  by (auto simp: in_epoch_def filter_empty_conv)

definition live :: "u64 \<Rightarrow> int \<Rightarrow> int \<Rightarrow> bool" where
  "live w q t \<longleftrightarrow> epoch_of w t \<le> q \<and> q < epoch_of w t + uint w"

definition in_window :: "u64 \<Rightarrow> int \<Rightarrow> (int \<times> 'e) list \<Rightarrow> (int \<times> 'e) list" where
  "in_window w q es = filter (\<lambda>x. live w q (fst x)) es"

lemma mset_concat_groups:
  assumes "distinct ks"
  shows "mset (concat (map (\<lambda>k. filter (\<lambda>x. key x = k) xs) ks)) = mset (filter (\<lambda>x. key x \<in> set ks) xs)"
  using assms
proof (induction ks)
  case Nil
  then show ?case by simp
next
  case (Cons k ks)
  have "mset (filter (\<lambda>x. key x = k) xs) + mset (filter (\<lambda>x. key x \<in> set ks) xs) = mset (filter (\<lambda>x. key x \<in> set (k # ks)) xs)"
    using Cons.prems by (induction xs) auto
  with Cons show ?case by simp
qed

definition win_run :: "'op option \<Rightarrow> ('e \<Rightarrow> 'op \<Rightarrow> 'op option) \<Rightarrow> (int \<times> 'e) list \<Rightarrow> 'op WindowedOp \<Rightarrow> 'op WindowedOp option" where
  "win_run fresh upd es w = fold_opt (\<lambda>x. win_route fresh (upd (snd x)) (fst x)) es w"

definition buckets_ok :: "'op \<Rightarrow> ('e \<Rightarrow> 'op \<Rightarrow> 'op option) \<Rightarrow> u64 \<Rightarrow> (int \<times> 'e) list \<Rightarrow> (int \<times> 'op) list \<Rightarrow> bool" where
  "buckets_ok fresh upd W es bs \<longleftrightarrow>
     distinct (map fst bs) \<and> length bs \<le> 64 \<and>
     (\<forall>b \<in> set bs. in_epoch W (fst b) es \<noteq> [] \<and> fold_opt upd (in_epoch W (fst b) es) fresh = Some (snd b)) \<and>
     (\<forall>x \<in> set es. epoch_of W (fst x) \<notin> fst ` set bs \<longrightarrow> length bs = 64 \<and> (\<forall>b \<in> set bs. epoch_of W (fst x) < fst b))"

definition win_inv :: "'op \<Rightarrow> ('e \<Rightarrow> 'op \<Rightarrow> 'op option) \<Rightarrow> (int \<times> 'e) list \<Rightarrow> 'op WindowedOp \<Rightarrow> bool" where
  "win_inv fresh upd es w \<longleftrightarrow>
     bucket_ms w = div_ceil_64 (window_ms w) \<and> max_buckets w = 64 \<and> buckets_ok fresh upd (window_ms w) es (buckets w)"

lemma evict_oldest:
  assumes "distinct (map fst bs)" and "bs \<noteq> []"
  obtains b where "b \<in> set bs" and "set (evict_oldest_bucket bs) = set bs - {b}"
    and "distinct (map fst (evict_oldest_bucket bs))" and "\<forall>c \<in> set bs - {b}. fst b < fst c"
    and "length (evict_oldest_bucket bs) = length bs - 1"
proof -
  from assms(2) obtain i where i: "min_index_by fst bs = Some i" by (metis min_index_by_None option.exhaust)
  note m = min_index_by_Some [OF i]
  have d: "distinct bs" using assms(1) by (simp add: distinct_map)
  have e: "evict_oldest_bucket bs = swap_remove i bs" by (simp add: evict_oldest_bucket_def i)
  have set: "set (swap_remove i bs) = set bs - {bs ! i}" using set_swap_remove_distinct d m by blast
  have inj: "inj_on fst (set bs)" using assms(1) by (simp add: distinct_map)
  have "distinct (map fst (swap_remove i bs))"
    unfolding distinct_map using distinct_swap_remove d m set inj by (blast intro: inj_on_subset)
  moreover have "fst (bs ! i) < fst c" if "c \<in> set bs - {bs ! i}" for c
    using that m inj_onD [OF inj, of "bs ! i" c] by (fastforce simp: order.strict_iff_order)
  ultimately show ?thesis using that [of "bs ! i"] m e set by simp
qed

locale windowed_inner =
  fixes fresh :: 'op
    and upd :: "'e \<Rightarrow> 'op \<Rightarrow> 'op option"
    and ok :: "'op \<Rightarrow> bool"
  assumes fresh_ok: "ok fresh"
    and upd_ok: "ok op \<Longrightarrow> \<exists>op'. upd e op = Some op' \<and> ok op'"
begin

lemma fold_ok: "\<exists>op. fold_opt upd xs fresh = Some op \<and> ok op"
  by (rule fold_opt_invariant) (simp_all add: fresh_ok upd_ok)

lemma upd_fold: "fold_opt upd xs fresh = Some op \<Longrightarrow> \<exists>op'. upd e op = Some op' \<and> fold_opt upd (xs @ [e]) fresh = Some op'"
  using fold_ok [of xs] upd_ok [of op e] by (auto simp: fold_opt_append)

lemma bucket_present:
  assumes ok: "buckets_ok fresh upd W es bs" and pos: "position (\<lambda>b. fst b = epoch_of W t) bs = Some i"
  shows "\<exists>op. upd e (snd (bs ! i)) = Some op \<and> buckets_ok fresh upd W (es @ [(t, e)]) (bs[i := (fst (bs ! i), op)])"
proof -
  note i = position_SomeD [OF pos]
  have b: "bs ! i \<in> set bs" using i(1) by simp
  obtain op where op: "upd e (snd (bs ! i)) = Some op" "fold_opt upd (in_epoch W (fst (bs ! i)) es @ [e]) fresh = Some op"
    using ok b upd_fold unfolding buckets_ok_def by blast
  let ?bs = "bs[i := (fst (bs ! i), op)]"
  have keys: "map fst ?bs = map fst bs" using i(1) by (simp add: map_update list_update_same_conv)
  then have kset: "fst ` set ?bs = fst ` set bs" by (metis set_map)
  have mem: "b = (fst (bs ! i), op) \<or> b \<in> set bs \<and> fst b \<noteq> fst (bs ! i)" if "b \<in> set ?bs" for b
  proof -
    from that obtain j where j: "j < length bs" "b = ?bs ! j" by (auto simp: in_set_conv_nth)
    have "fst (bs ! j) \<noteq> fst (bs ! i)" if "j \<noteq> i"
      using ok that j(1) i(1) by (simp add: buckets_ok_def distinct_conv_nth)
    then show ?thesis using j i(1) by (cases "j = i") auto
  qed
  have entries: "in_epoch W (fst b) (es @ [(t, e)]) \<noteq> [] \<and> fold_opt upd (in_epoch W (fst b) (es @ [(t, e)])) fresh = Some (snd b)"
    if "b \<in> set ?bs" for b
    using mem [OF that] ok op(2) i(2) by (auto simp: buckets_ok_def)
  have gone: "length ?bs = 64 \<and> (\<forall>b \<in> set ?bs. epoch_of W (fst x) < fst b)"
    if x: "x \<in> set (es @ [(t, e)])" "epoch_of W (fst x) \<notin> fst ` set ?bs" for x
  proof -
    have "epoch_of W t \<in> fst ` set bs" using i(2) b by (metis imageI)
    then have "x \<in> set es" using x by (cases "x = (t, e)") (simp_all add: kset)
    with x(2) ok have "length bs = 64" "\<forall>k \<in> fst ` set bs. epoch_of W (fst x) < k" by (auto simp: buckets_ok_def kset)
    then show ?thesis using kset by (metis image_eqI length_list_update)
  qed
  have "buckets_ok fresh upd W (es @ [(t, e)]) ?bs"
    unfolding buckets_ok_def
  proof (intro conjI ballI impI)
    show "distinct (map fst ?bs)" using ok unfolding keys buckets_ok_def by blast
    show "length ?bs \<le> 64" using ok by (simp add: buckets_ok_def)
  qed (use entries gone in blast)+
  with op(1) show ?thesis by blast
qed

lemma bucket_absent:
  assumes ok: "buckets_ok fresh upd W es bs" and absent: "epoch_of W t \<notin> fst ` set bs"
    and W: "window_ok W" and order: "\<forall>x \<in> set es. fst x \<le> t"
    and bs': "bs' = (if 64 \<le> length bs then evict_oldest_bucket bs else bs)"
  shows "\<exists>op. upd e fresh = Some op \<and> buckets_ok fresh upd W (es @ [(t, e)]) (bs' @ [(epoch_of W t, op)])"
proof -
  let ?ep = "epoch_of W t"
  have le: "epoch_of W (fst x) \<le> ?ep" if "x \<in> set es" for x
    using epoch_of_mono [OF W] order that by blast
  have ble: "fst b \<le> ?ep" if b: "b \<in> set bs" for b
  proof -
    have "in_epoch W (fst b) es \<noteq> []" using ok b by (auto simp: buckets_ok_def)
    then obtain x where "x \<in> set es" "epoch_of W (fst x) = fst b" by (auto simp: in_epoch_Nil_iff)
    with le show ?thesis by fastforce
  qed
  have blt: "fst b < ?ep" if "b \<in> set bs" for b
    using ble [OF that] absent that by (metis image_eqI order.not_eq_order_implies_strict)
  have none: "in_epoch W ?ep es = []"
    unfolding in_epoch_Nil_iff
  proof (intro ballI notI)
    fix x assume x: "x \<in> set es" "epoch_of W (fst x) = ?ep"
    then have "length bs = 64" "\<forall>b \<in> set bs. ?ep < fst b" using ok absent unfolding buckets_ok_def by metis+
    moreover from this(1) have "hd bs \<in> set bs" by (cases bs) auto
    ultimately show False using blt [of "hd bs"] by (meson order_less_asym)
  qed
  obtain op where op: "upd e fresh = Some op" "fold_opt upd [e] fresh = Some op"
    using upd_fold [of "[]" fresh e] by auto
  have d: "distinct (map fst bs)" and len: "length bs \<le> 64" using ok by (simp_all add: buckets_ok_def)
  have sub: "set bs' \<subseteq> set bs \<and> distinct (map fst bs') \<and> length bs' \<le> 63 \<and>
      (\<forall>c \<in> set bs - set bs'. length bs = 64 \<and> (\<forall>b \<in> set bs'. fst c < fst b)) \<and> (length bs = 64 \<longrightarrow> length bs' = 63)"
  proof (cases "64 \<le> length bs")
    case True
    then have "bs \<noteq> []" "length bs = 64" using len by auto
    moreover obtain b where "b \<in> set bs" "set (evict_oldest_bucket bs) = set bs - {b}"
        "distinct (map fst (evict_oldest_bucket bs))" "\<forall>c \<in> set bs - {b}. fst b < fst c"
        "length (evict_oldest_bucket bs) = length bs - 1"
      using evict_oldest [OF d \<open>bs \<noteq> []\<close>] by metis
    ultimately show ?thesis using True bs' by auto
  next
    case False
    then show ?thesis using bs' d by auto
  qed
  let ?bs = "bs' @ [(?ep, op)]"
  have "distinct (map fst ?bs)" using sub absent by (auto simp: image_iff)
  moreover have "in_epoch W (fst b) (es @ [(t, e)]) \<noteq> [] \<and> fold_opt upd (in_epoch W (fst b) (es @ [(t, e)])) fresh = Some (snd b)"
    if "b \<in> set ?bs" for b
  proof (cases "b = (?ep, op)")
    case True
    then show ?thesis using none op(2) by simp
  next
    case False
    then have "b \<in> set bs" using that sub by auto
    moreover from this have "?ep \<noteq> fst b" using blt by fastforce
    ultimately show ?thesis using ok by (simp add: buckets_ok_def)
  qed
  moreover have "length ?bs \<le> 64" using sub by simp
  moreover have "length ?bs = 64 \<and> (\<forall>b \<in> set ?bs. epoch_of W (fst x) < fst b)"
    if x: "x \<in> set (es @ [(t, e)])" "epoch_of W (fst x) \<notin> fst ` set ?bs" for x
  proof -
    have xs: "x \<in> set es" using x by auto
    have lt: "epoch_of W (fst x) < ?ep" using x le [OF xs] by auto
    show ?thesis
    proof (cases "epoch_of W (fst x) \<in> fst ` set bs")
      case True
      then obtain c where c: "c \<in> set bs" "fst c = epoch_of W (fst x)" by auto
      then have "c \<notin> set bs'" using x(2) by (metis Un_iff imageI set_append)
      then have "length bs = 64" "\<forall>b \<in> set bs'. fst c < fst b" using sub c(1) by blast+
      then show ?thesis using sub lt unfolding c(2) by simp
    next
      case False
      then have "length bs = 64" "\<forall>b \<in> set bs. epoch_of W (fst x) < fst b" using ok xs by (auto simp: buckets_ok_def)
      then show ?thesis using sub lt by auto
    qed
  qed
  ultimately have "buckets_ok fresh upd W (es @ [(t, e)]) ?bs"
    unfolding buckets_ok_def by blast
  with op(1) show ?thesis by blast
qed

lemma route_ok:
  assumes "win_inv fresh upd es w" and "window_ok (window_ms w)" and "time_ok t" and "\<forall>x \<in> set es. fst x \<le> t"
  shows "\<exists>w'. win_route (Some fresh) (upd e) t w = Some w' \<and> win_inv fresh upd (es @ [(t, e)]) w' \<and> window_ms w' = window_ms w"
proof -
  have shape: "bucket_ms w = div_ceil_64 (window_ms w)" "max_buckets w = 64" "buckets_ok fresh upd (window_ms w) es (buckets w)"
    using assms(1) by (simp_all add: win_inv_def)
  note ep = bucket_epoch_eq [OF assms(2) shape(1) assms(3)]
  show ?thesis
  proof (cases "position_for_epoch w (epoch_of (window_ms w) t)")
    case None
    then have "epoch_of (window_ms w) t \<notin> fst ` set (buckets w)"
      by (auto simp: position_for_epoch_def position_None_iff)
    from bucket_absent [OF shape(3) this assms(2,4) refl, of e] show ?thesis
      by (auto simp: win_route_def ep None Let_def win_inv_def shape)
  next
    case (Some pos)
    from bucket_present [OF shape(3) this [unfolded position_for_epoch_def], of e] show ?thesis
      by (auto simp: win_route_def ep Some win_inv_def shape)
  qed
qed

lemma run_ok:
  assumes "win_inv fresh upd [] w" and "window_ok (window_ms w)" and "sorted (map fst es)" and "\<forall>x \<in> set es. time_ok (fst x)"
  shows "\<exists>w'. win_run (Some fresh) upd es w = Some w' \<and> win_inv fresh upd es w' \<and> window_ms w' = window_ms w"
  using assms(3,4)
proof (induction es rule: rev_induct)
  case Nil
  then show ?case using assms(1) by (simp add: win_run_def)
next
  case (snoc x es)
  then obtain w' where w': "win_run (Some fresh) upd es w = Some w'" "win_inv fresh upd es w'" "window_ms w' = window_ms w"
    by (auto simp: sorted_append)
  have "\<forall>y \<in> set es. fst y \<le> fst x" using snoc.prems(1) by (auto simp: sorted_append)
  with route_ok [OF w'(2), of "fst x" "snd x"] assms(2) snoc.prems(2) w'(3) obtain w''
    where "win_route (Some fresh) (upd (snd x)) (fst x) w' = Some w''" "win_inv fresh upd (es @ [x]) w''" "window_ms w'' = window_ms w"
    by auto
  with w'(1) show ?case by (auto simp: win_run_def fold_opt_append)
qed

text \<open>At any later time the live buckets are exactly the live epochs with events, each holding their fold.\<close>

lemma active_buckets:
  assumes inv: "win_inv fresh upd es w" and W: "window_ok (window_ms w)" and q: "time_ok q"
    and times: "\<forall>x \<in> set es. fst x \<le> q \<and> time_ok (fst x)" and ev: "x \<in> set es"
    and live: "q < epoch_of (window_ms w) (fst x) + uint (window_ms w)"
  shows "epoch_of (window_ms w) (fst x) \<in> fst ` set (buckets w)"
proof (rule ccontr)
  let ?W = "window_ms w" and ?bs = "buckets w"
  let ?b = "bucket_width ?W" and ?e = "epoch_of ?W (fst x)"
  assume "?e \<notin> fst ` set ?bs"
  then have len: "length ?bs = 64" and gt: "\<forall>b \<in> set ?bs. ?e < fst b"
    and d: "distinct (map fst ?bs)" and ne: "\<forall>b \<in> set ?bs. in_epoch ?W (fst b) es \<noteq> []"
    using inv ev by (auto simp: win_inv_def buckets_ok_def)
  have pos: "0 < ?b" by (rule bucket_width_pos [OF W])
  have range: "fst b div ?b \<in> {?e div ?b <..< ?e div ?b + 64} \<and> fst b div ?b * ?b = fst b" if b: "b \<in> set ?bs" for b
  proof -
    from ne b obtain y where y: "y \<in> set es" "epoch_of ?W (fst y) = fst b" by (auto simp: in_epoch_Nil_iff)
    have "fst b \<le> q" using epoch_of_bounds(1) [OF W, of "fst y"] times y by fastforce
    then have lt: "fst b < ?e + 64 * ?b" using live bucket_width_ge [OF W] by linarith
    have mult: "fst b = fst y div ?b * ?b" "?e = fst x div ?b * ?b" using y(2) by (simp_all add: epoch_of_def)
    have "fst x div ?b < fst y div ?b" using gt b mult pos by (metis mult_less_cancel_right_pos)
    moreover have "fst y div ?b < fst x div ?b + 64"
    proof -
      have "fst y div ?b * ?b < (fst x div ?b + 64) * ?b" using lt mult by (simp add: algebra_simps)
      then show ?thesis using pos by (simp add: mult_less_cancel_right_pos)
    qed
    ultimately show ?thesis using pos mult by simp
  qed
  have "inj_on (\<lambda>b. fst b div ?b) (set ?bs)"
    using range d by (metis (no_types, lifting) distinct_map inj_on_def)
  then have "card (set ?bs) \<le> card {?e div ?b <..< ?e div ?b + 64}"
    using range by (intro card_inj_on_le [where f = "\<lambda>b. fst b div ?b"]) auto
  moreover have "card (set ?bs) = 64" using distinct_card [of ?bs] d len by (simp add: distinct_map)
  ultimately show False by simp
qed

text \<open>The live buckets partition the events of the window.\<close>

lemma active_partition:
  assumes inv: "win_inv fresh upd es w" and W: "window_ok (window_ms w)" and q: "time_ok q"
    and times: "\<forall>x \<in> set es. fst x \<le> q \<and> time_ok (fst x)"
  shows "\<exists>L. active_ops w q = map (\<lambda>ep. the (fold_opt upd (in_epoch (window_ms w) ep es) fresh)) L \<and>
    mset (concat (map (\<lambda>ep. in_epoch (window_ms w) ep es) L)) = mset (map snd (in_window (window_ms w) q es))"
proof -
  let ?W = "window_ms w" and ?bs = "filter (\<lambda>b. win_active w q (fst b)) (buckets w)"
  let ?L = "map fst ?bs"
  have ok: "distinct (map fst (buckets w))"
    "\<forall>b \<in> set (buckets w). in_epoch ?W (fst b) es \<noteq> [] \<and> fold_opt upd (in_epoch ?W (fst b) es) fresh = Some (snd b)"
    using inv by (simp_all add: win_inv_def buckets_ok_def)
  have "active_ops w q = map (\<lambda>ep. the (fold_opt upd (in_epoch ?W ep es) fresh)) ?L"
    using ok(2) by (auto simp: active_ops_def)
  moreover have "epoch_of ?W (fst x) \<in> set ?L \<longleftrightarrow> live ?W q (fst x)" if x: "x \<in> set es" for x
  proof -
    have "win_active w q (epoch_of ?W (fst x)) \<longleftrightarrow> live ?W q (fst x)"
      using win_active_iff [OF W q epoch_small [OF W]] times x by (simp add: live_def)
    moreover have "epoch_of ?W (fst x) \<in> fst ` set (buckets w)" if "live ?W q (fst x)"
      using active_buckets [OF inv W q times x] that by (simp add: live_def)
    moreover have "set ?L = fst ` set (buckets w) \<inter> {ep. win_active w q ep}" by force
    ultimately show ?thesis by blast
  qed
  then have "filter (\<lambda>x. epoch_of ?W (fst x) \<in> set ?L) es = in_window ?W q es"
    unfolding in_window_def by (intro filter_cong) simp_all
  moreover have "distinct ?L" using ok(1) by (simp add: distinct_map_filter)
  moreover have "concat (map (\<lambda>ep. in_epoch ?W ep es) ?L) = map snd (concat (map (\<lambda>k. filter (\<lambda>x. epoch_of ?W (fst x) = k) es) ?L))"
    unfolding map_concat by (simp add: in_epoch_def comp_def)
  ultimately show ?thesis
    using mset_concat_groups [of ?L "\<lambda>x. epoch_of ?W (fst x)" es] by (intro exI [of _ ?L]) (simp only: mset_map)
qed

end

section \<open>Querying a window\<close>

definition opt_step :: "('a \<Rightarrow> 'a \<Rightarrow> bool) \<Rightarrow> 'a \<Rightarrow> 'a option \<Rightarrow> 'a option" where
  "opt_step better v cur = (case cur of None \<Rightarrow> Some v | Some c \<Rightarrow> if better v c then Some v else cur)"

text \<open>Merging the bucket states in bucket order; a merge that panics is the outer \<open>None\<close>.\<close>

definition merge_buckets :: "('a \<Rightarrow> 'a \<Rightarrow> 'a option) \<Rightarrow> 'a list \<Rightarrow> 'a option option" where
  "merge_buckets merge xs =
     fold_opt (\<lambda>x acc. case acc of None \<Rightarrow> Some (Some x) | Some c \<Rightarrow> map_option Some (merge c x)) xs None"

definition pairwise_combine :: "VarianceState \<Rightarrow> VarianceState \<Rightarrow> VarianceState" where
  "pairwise_combine b acc =
     (if var_n b = 0 then acc
      else
        (let delta = f64_sub (var_mean b) (var_mean acc);
             new_n = var_n acc + var_n b;
             new_mean = f64_add (var_mean acc) (f64_div (f64_mul delta (f64_of_u64 (var_n b))) (f64_of_u64 new_n));
             new_m2 = f64_add (f64_add (var_m2 acc) (var_m2 b))
               (f64_div (f64_mul (f64_mul (f64_mul delta delta) (f64_of_u64 (var_n acc))) (f64_of_u64 (var_n b))) (f64_of_u64 new_n))
         in \<lparr>var_n = new_n, var_mean = new_mean, var_m2 = new_m2\<rparr>))"

definition query_combined_variance :: "bool \<Rightarrow> VarianceState \<Rightarrow> Value" where
  "query_combined_variance stddev s =
     (if var_n s < 2 then VNull
      else
        (let variance = f64_div (var_m2 s) (f64_of_u64 (var_n s - 1))
         in VF64 (if stddev then f64_sqrt variance else variance)))"

definition variance_states :: "LifetimeOp list \<Rightarrow> VarianceState list" where
  "variance_states ops = List.map_filter (\<lambda>op. case op of OVariance s \<Rightarrow> Some s | OStdDev s \<Rightarrow> Some s | _ \<Rightarrow> None) ops"

definition win_query :: "agg_env \<Rightarrow> LifetimeOp WindowedOp \<Rightarrow> int \<Rightarrow> Value option" where
  "win_query env w query_time_ms =
     (let ops = active_ops w query_time_ms in
      case inner_kind w of
        KCount \<Rightarrow>
          Some (VI64 (u64_as_i64 (sum_list (List.map_filter (\<lambda>op. case op of OCount s \<Rightarrow> Some (count_n s) | _ \<Rightarrow> None) ops))))
      | KSum \<Rightarrow>
          (let ss = filter (\<lambda>s. 0 < sum_n s) (List.map_filter (\<lambda>op. case op of OSum s \<Rightarrow> Some s | _ \<Rightarrow> None) ops)
           in Some (if ss = [] then VNull else VF64 (fold (\<lambda>s acc. f64_add acc (sum_total s)) ss (Fin 0))))
      | KAvg \<Rightarrow>
          (let ss = List.map_filter (\<lambda>op. case op of OAvg s \<Rightarrow> Some s | _ \<Rightarrow> None) ops;
               n = sum_list (map avg_n ss)
           in Some (if n = 0 then VNull
                    else VF64 (f64_div (fold (\<lambda>s acc. f64_add acc (avg_sum s)) ss (Fin 0)) (f64_of_u64 n))))
      | KMin \<Rightarrow>
          Some (opt_or (fold (opt_step value_lt) (List.map_filter (\<lambda>op. case op of OMin s \<Rightarrow> min_current s | _ \<Rightarrow> None) ops) None) VNull)
      | KMax \<Rightarrow>
          Some (opt_or (fold (opt_step (\<lambda>v c. value_lt c v)) (List.map_filter (\<lambda>op. case op of OMax s \<Rightarrow> max_current s | _ \<Rightarrow> None) ops) None) VNull)
      | KVariance \<Rightarrow> Some (query_combined_variance False (fold pairwise_combine (variance_states ops) variance_default))
      | KStdDev \<Rightarrow> Some (query_combined_variance True (fold pairwise_combine (variance_states ops) variance_default))
      | KCountDistinct \<Rightarrow>
          map_option (\<lambda>c. VI64 (case c of None \<Rightarrow> 0 | Some st \<Rightarrow> u64_as_i64 (cd_estimate (env_libm env) st)))
            (merge_buckets (\<lambda>a b. Some (cd_merge a b))
              (List.map_filter (\<lambda>op. case op of OCountDistinct s \<Rightarrow> Some (cd_inner s) | _ \<Rightarrow> None) ops))
      | KPercentile \<Rightarrow>
          (let ss = List.map_filter (\<lambda>op. case op of OPercentile s \<Rightarrow> Some s | _ \<Rightarrow> None) ops;
               q = (if ss = [] then f64_round False (1 / 2) else pct_q (last ss))
           in case merge_buckets (percentile_merge (env_libm env)) (map pct_inner ss) of
                None \<Rightarrow> None
              | Some None \<Rightarrow> Some VNull
              | Some (Some st) \<Rightarrow>
                  map_option (\<lambda>r. case r of None \<Rightarrow> VNull | Some v \<Rightarrow> VF64 v) (percentile_quantile (env_libm env) st q))
      | KTopK \<Rightarrow>
          map_option (\<lambda>c. case c of None \<Rightarrow> VJson (JArray []) | Some st \<Rightarrow> topk_query \<lparr>topk_inner = st\<rparr>)
            (merge_buckets (topk_merge (env_h64 env))
              (List.map_filter (\<lambda>op. case op of OTopK s \<Rightarrow> Some (topk_inner s) | _ \<Rightarrow> None) ops))
      | KEntropy \<Rightarrow>
          map_option (\<lambda>c. case c of None \<Rightarrow> VF64 (Fin 0) | Some h \<Rightarrow> VF64 (entropy_bits (env_libm env) h))
            (merge_buckets (\<lambda>a b. Some (entropy_merge a b))
              (List.map_filter (\<lambda>op. case op of OEntropy s \<Rightarrow> Some (ent_inner s) | _ \<Rightarrow> None) ops))
      | KBloomMember \<Rightarrow> Some (VBool False)
      | KRatio \<Rightarrow>
          (let ss = List.map_filter (\<lambda>op. case op of ORatio s \<Rightarrow> Some s | _ \<Rightarrow> None) ops;
               total = sum_list (map ratio_total ss)
           in Some (if total = 0 then VNull
                    else VF64 (f64_div (f64_of_u64 (sum_list (map ratio_matching ss))) (f64_of_u64 total))))
      | _ \<Rightarrow> Some VNull)"

section \<open>Operators\<close>

datatype AggOp =
    Lifetime LifetimeOp
  | Windowed "LifetimeOp WindowedOp"

definition fresh_op :: "agg_env \<Rightarrow> LifetimeOp WindowedOp \<Rightarrow> LifetimeOp option" where
  "fresh_op env w = new_lifetime (env_libm env) (inner_kind w) (Some (wo_sketch_params w))"

definition agg_new :: "agg_env \<Rightarrow> AggOpDescriptor \<Rightarrow> AggOp option" where
  "agg_new env desc =
     (case desc_window_ms desc of
        Some window \<Rightarrow>
          if desc_kind desc = KFirstSeenInWindow then Some (Lifetime (OFirstSeenInWindow (fsw_new window)))
          else if supports_windowed_wrap (desc_kind desc) then
            map_option Windowed (win_new_with_params (desc_kind desc) window (opt_or (sketch_params desc) sketch_default))
          else map_option Lifetime (new_lifetime_full (env_libm env) desc)
      | None \<Rightarrow> map_option Lifetime (new_lifetime_full (env_libm env) desc))"

definition win_update :: "agg_env \<Rightarrow> LifetimeOp WindowedOp \<Rightarrow> Row \<Rightarrow> int \<Rightarrow> string option \<Rightarrow> bool \<Rightarrow> LifetimeOp WindowedOp option" where
  "win_update env w row now_ms field m = win_route (fresh_op env w) (\<lambda>op. op_update env op row now_ms field m) now_ms w"

definition agg_update :: "agg_env \<Rightarrow> AggOp \<Rightarrow> Row \<Rightarrow> int \<Rightarrow> string option \<Rightarrow> bool \<Rightarrow> AggOp option" where
  "agg_update env op row now_ms field m =
     (case op of
        Lifetime s \<Rightarrow> map_option Lifetime (op_update env s row now_ms field m)
      | Windowed w \<Rightarrow> map_option Windowed (win_update env w row now_ms field m))"

definition where_matched :: "agg_env \<Rightarrow> expr option \<Rightarrow> Row \<Rightarrow> bool option" where
  "where_matched env e row = (case e of None \<Rightarrow> Some True | Some p \<Rightarrow> evaluate_where_predicate (env_libm env) p row)"

definition op_update_with_row :: "agg_env \<Rightarrow> LifetimeOp \<Rightarrow> Row \<Rightarrow> int \<Rightarrow> string option \<Rightarrow> expr option \<Rightarrow> LifetimeOp option" where
  "op_update_with_row env op row now_ms field e =
     (case where_matched env e row of None \<Rightarrow> None | Some m \<Rightarrow> op_update env op row now_ms field m)"

definition win_update_with_row :: "agg_env \<Rightarrow> LifetimeOp WindowedOp \<Rightarrow> Row \<Rightarrow> int \<Rightarrow> string option \<Rightarrow> expr option \<Rightarrow> LifetimeOp WindowedOp option" where
  "win_update_with_row env w row now_ms field e =
     win_route (fresh_op env w) (\<lambda>op. op_update_with_row env op row now_ms field e) now_ms w"

definition agg_update_with_row :: "agg_env \<Rightarrow> AggOp \<Rightarrow> Row \<Rightarrow> int \<Rightarrow> string option \<Rightarrow> expr option \<Rightarrow> AggOp option" where
  "agg_update_with_row env op row now_ms field e =
     (case where_matched env e row of
        None \<Rightarrow> None
      | Some m \<Rightarrow>
          (case op of
             Windowed w \<Rightarrow> map_option Windowed (win_update_with_row env w row now_ms field e)
           | Lifetime s \<Rightarrow> agg_update env op row now_ms field m))"

definition win_update_at :: "agg_env \<Rightarrow> LifetimeOp WindowedOp \<Rightarrow> Value option \<Rightarrow> ExtractedFields \<Rightarrow> nat \<Rightarrow> nat \<Rightarrow> int \<Rightarrow> bool \<Rightarrow> LifetimeOp WindowedOp option" where
  "win_update_at env w pre_val extracted lat lon now_ms m =
     win_route (fresh_op env w) (\<lambda>op. op_update_extracted env op pre_val now_ms [] None extracted lat lon m) now_ms w"

definition agg_update_with_extracted_no_where ::
    "agg_env \<Rightarrow> AggOp \<Rightarrow> Value option \<Rightarrow> int \<Rightarrow> Row \<Rightarrow> string option \<Rightarrow> ExtractedFields \<Rightarrow> nat \<Rightarrow> nat \<Rightarrow> bool \<Rightarrow> AggOp option" where
  "agg_update_with_extracted_no_where env op pre_val now_ms row field extracted lat lon m =
     (case op of
        Windowed w \<Rightarrow> map_option Windowed (win_update_at env w pre_val extracted lat lon now_ms m)
      | Lifetime s \<Rightarrow> map_option Lifetime (op_update_extracted env s pre_val now_ms row field extracted lat lon m))"

definition agg_update_with_extracted ::
    "agg_env \<Rightarrow> AggOp \<Rightarrow> Value option \<Rightarrow> int \<Rightarrow> expr option \<Rightarrow> Row \<Rightarrow> string option \<Rightarrow> ExtractedFields \<Rightarrow> nat \<Rightarrow> nat \<Rightarrow> AggOp option" where
  "agg_update_with_extracted env op pre_val now_ms e row field extracted lat lon =
     (case where_matched env e row of
        None \<Rightarrow> None
      | Some m \<Rightarrow> agg_update_with_extracted_no_where env op pre_val now_ms row field extracted lat lon m)"

definition agg_query :: "agg_env \<Rightarrow> AggOp \<Rightarrow> int \<Rightarrow> Value option" where
  "agg_query env op query_time_ms =
     (case op of Lifetime s \<Rightarrow> op_query env s query_time_ms | Windowed w \<Rightarrow> win_query env w query_time_ms)"

section \<open>The row path and the extracted path\<close>

lemma win_route_cong:
  assumes "\<And>op. op \<in> snd ` set (buckets w) \<or> fresh = Some op \<Longrightarrow> upd op = upd' op"
  shows "win_route fresh upd t w = win_route fresh upd' t w"
proof -
  have "upd (snd (buckets w ! i)) = upd' (snd (buckets w ! i))" if "position_for_epoch w ep = Some i" for ep i
    using position_SomeD(1) [OF that [unfolded position_for_epoch_def]] by (intro assms) simp
  then show ?thesis
    using assms by (auto simp: win_route_def Let_def split: option.splits)
qed

lemma win_route_ops:
  assumes "win_route fresh upd t w = Some w'" and "op \<in> snd ` set (buckets w')"
  shows "op \<in> snd ` set (buckets w) \<or> (\<exists>op0. (op0 \<in> snd ` set (buckets w) \<or> fresh = Some op0) \<and> upd op0 = Some op)"
proof -
  have upd: "x \<in> insert y (set xs)" if "x \<in> set (xs[i := y])" for x y :: "int \<times> 'a" and xs i
    using that set_update_subset_insert [of xs i y] by blast
  have evict: "set (evict_oldest_bucket xs) \<subseteq> set xs" for xs :: "(int \<times> 'a) list"
  proof (cases "min_index_by fst xs")
    case (Some i)
    then have "mset (swap_remove i xs) = mset xs - {# xs ! i #}"
      using min_index_by_Some [OF Some] by (intro mset_swap_remove) simp
    then have "set (swap_remove i xs) \<subseteq> set xs" by (metis diff_subset_eq_self mset_subset_eqD set_mset_mset subsetI)
    then show ?thesis by (simp add: evict_oldest_bucket_def Some)
  qed (simp add: evict_oldest_bucket_def)
  obtain ep where ep: "bucket_epoch w t = Some ep" using assms(1) by (auto simp: win_route_def split: option.splits)
  show ?thesis
  proof (cases "position_for_epoch w ep")
    case None
    with assms(1) ep obtain op0 op1 bs where *: "fresh = Some op0" "upd op0 = Some op1" "buckets w' = bs @ [(ep, op1)]" "set bs \<subseteq> set (buckets w)"
      using evict by (auto simp: win_route_def Let_def split: option.splits if_splits)
    show ?thesis
    proof (cases "op = op1")
      case False
      then show ?thesis using assms(2) * by auto
    qed (use * in blast)
  next
    case (Some i)
    with assms(1) ep obtain op1 where *: "upd (snd (buckets w ! i)) = Some op1" "buckets w' = (buckets w)[i := (fst (buckets w ! i), op1)]"
      by (auto simp: win_route_def)
    have i: "i < length (buckets w)" using position_SomeD(1) [OF Some [unfolded position_for_epoch_def]] .
    from assms(2) *(2) upd have "op \<in> snd ` set (buckets w) \<or> op = op1" by fastforce
    then show ?thesis using *(1) i by (metis imageI nth_mem)
  qed
qed

definition agg_wf :: "string list \<Rightarrow> nat \<Rightarrow> nat \<Rightarrow> AggOp \<Rightarrow> bool" where
  "agg_wf names i j op \<longleftrightarrow>
     (case op of
        Lifetime s \<Rightarrow> geo_resolved names s i j
      | Windowed w \<Rightarrow> supports_windowed_wrap (inner_kind w) \<and> (\<forall>b \<in> snd ` set (buckets w). windowable b))"

lemma fresh_op_windowable: "supports_windowed_wrap (inner_kind w) \<Longrightarrow> fresh_op env w = Some op \<Longrightarrow> windowable op"
  by (auto simp: fresh_op_def dest: new_lifetime_windowable)

lemma win_route_kind: "win_route fresh upd t w = Some w' \<Longrightarrow> inner_kind w' = inner_kind w"
  by (auto simp: win_route_def Let_def split: option.splits)

lemma geo_resolved_update: "geo_resolved names op i j \<Longrightarrow> op_update env op row t field m = Some op' \<Longrightarrow> geo_resolved names op' i j"
  by (cases op) (auto simp: geo_resolved_def geo_fields_def gv_update_def gv_apply_def gd_update_def gd_apply_def
      gs_update_def gs_apply_def dh_update_def dh_apply_def dh_push_def Let_def split: option.splits if_splits)

section \<open>Bucket states\<close>

interpretation wcount: windowed_inner "OCount count_default" "\<lambda>(row, t, m) op. op_update env op row t field m" "\<lambda>op. \<exists>s. op = OCount s"
  for env field
  by unfold_locales auto

interpretation wdistinct: windowed_inner "OCountDistinct cdw_default" "\<lambda>(row, t, m) op. op_update env op row t field m"
    "\<lambda>op. \<exists>s. op = OCountDistinct s"
  for env field
  by unfold_locales auto

text \<open>A run of events through a windowed operator.\<close>

definition win_events :: "agg_env \<Rightarrow> string option \<Rightarrow> agg_event list \<Rightarrow> LifetimeOp WindowedOp \<Rightarrow> LifetimeOp WindowedOp option" where
  "win_events env field evs w = fold_opt (\<lambda>(row, t, m) w. win_update env w row t field m) evs w"

definition timed :: "agg_event list \<Rightarrow> (int \<times> agg_event) list" where
  "timed evs = map (\<lambda>e. (fst (snd e), e)) evs"

definition live_events :: "u64 \<Rightarrow> int \<Rightarrow> agg_event list \<Rightarrow> agg_event list" where
  "live_events W q evs = filter (\<lambda>e. live W q (fst (snd e))) evs"

lemma live_events_timed: "map snd (in_window W q (timed evs)) = live_events W q evs"
  by (induction evs) (auto simp: in_window_def timed_def live_events_def)

lemma win_events_run:
  assumes "\<And>v. inner_kind v = inner_kind w \<Longrightarrow> wo_sketch_params v = wo_sketch_params w \<Longrightarrow> fresh_op env v = Some fresh"
  shows "win_events env field evs w = win_run (Some fresh) (\<lambda>(row, t, m) op. op_update env op row t field m) (timed evs) w"
  using assms
proof (induction evs arbitrary: w)
  case Nil
  then show ?case by (simp add: win_events_def win_run_def timed_def)
next
  case (Cons e evs)
  obtain row t m where e: "e = (row, t, m)" by (cases e)
  have keep: "inner_kind w' = inner_kind w \<and> wo_sketch_params w' = wo_sketch_params w"
    if "win_route f u t w = Some w'" for f u t w'
    using that by (auto simp: win_route_def Let_def split: option.splits)
  have "fresh_op env w = Some fresh" by (rule Cons.prems) simp_all
  then show ?case
    using Cons.IH Cons.prems keep
    by (auto simp: win_events_def win_run_def timed_def e win_update_def split: option.splits)
qed

lemma count_fold:
  "fold_opt (\<lambda>(row, t, m) op. op_update env op row t field m) evs (OCount s) =
     Some (OCount \<lparr>count_n = count_n s + of_nat (length (filter (\<lambda>(row, t, m). m) evs))\<rparr>)"
  by (induction evs arbitrary: s) (auto simp: count_update_def algebra_simps)

lemma distinct_fold:
  "fold_opt (\<lambda>(row, t, m) op. op_update env op row t field m) evs (OCountDistinct s) =
     Some (OCountDistinct (run_op (cdw_update (env_hashers env)) field evs s))"
  by (induction evs arbitrary: s) (auto simp: run_op_def)

lemma win_start:
  assumes "kind \<noteq> KBloomMember"
  obtains w0 :: "LifetimeOp WindowedOp" where "win_new kind W = Some w0" and "win_inv fresh upd [] w0"
    and "window_ms w0 = W" and "inner_kind w0 = kind" and "wo_sketch_params w0 = sketch_default"
  using assms by (simp add: win_new_def win_new_with_params_def win_inv_def buckets_ok_def)

lemma win_route_frame:
  "win_route fresh upd t w = Some w' \<Longrightarrow> inner_kind w' = inner_kind w \<and> wo_sketch_params w' = wo_sketch_params w"
  by (auto simp: win_route_def Let_def split: option.splits)

lemma win_events_kind: "win_events env field evs w = Some w' \<Longrightarrow> inner_kind w' = inner_kind w"
proof (induction evs arbitrary: w)
  case (Cons e evs)
  then show ?case
    by (cases e) (auto simp: win_events_def win_update_def dest: win_route_kind split: option.splits)
qed (simp add: win_events_def)

text \<open>What a windowed run gives a query: the live buckets, in some order, hold the folds of a partition of
  the live events.\<close>

lemma win_events_partition:
  assumes inner: "windowed_inner fresh (\<lambda>(row, t, m) op. op_update env op row t field m) ok"
    and fresh: "new_lifetime (env_libm env) kind (Some sketch_default) = Some fresh" and kind: "kind \<noteq> KBloomMember"
    and W: "window_ok W" and sorted: "sorted (map (\<lambda>e. fst (snd e)) evs)" and q: "time_ok q"
    and times: "\<forall>e \<in> set evs. fst (snd e) \<le> q \<and> time_ok (fst (snd e))"
  shows "\<exists>w0 w gs. win_new kind W = Some w0 \<and> win_events env field evs w0 = Some w \<and> inner_kind w = kind \<and>
    active_ops w q = map (\<lambda>g. the (fold_opt (\<lambda>(row, t, m) op. op_update env op row t field m) g fresh)) gs \<and>
    mset (concat gs) = mset (live_events W q evs)"
proof -
  let ?upd = "\<lambda>(row, t, m) op. op_update env op row t field m"
  obtain w0 where w0: "win_new kind W = Some w0" "win_inv fresh ?upd [] w0" "window_ms w0 = W" "inner_kind w0 = kind"
      "wo_sketch_params w0 = sketch_default"
    by (rule win_start [OF kind])
  have run: "win_events env field evs w0 = win_run (Some fresh) ?upd (timed evs) w0"
    by (rule win_events_run) (simp add: fresh_op_def w0 fresh)
  have st: "sorted (map fst (timed evs))" using sorted by (simp add: timed_def comp_def)
  have tt: "\<forall>x \<in> set (timed evs). fst x \<le> q \<and> time_ok (fst x)" using times by (auto simp: timed_def)
  obtain w where w: "win_run (Some fresh) ?upd (timed evs) w0 = Some w" "win_inv fresh ?upd (timed evs) w" "window_ms w = W"
    using windowed_inner.run_ok [OF inner w0(2), of "timed evs"] W w0(3) st tt by auto
  obtain L where L: "active_ops w q = map (\<lambda>ep. the (fold_opt ?upd (in_epoch W ep (timed evs)) fresh)) L"
      "mset (concat (map (\<lambda>ep. in_epoch W ep (timed evs)) L)) = mset (map snd (in_window W q (timed evs)))"
    using windowed_inner.active_partition [OF inner w(2) _ q tt] W w(3) by auto
  let ?gs = "map (\<lambda>ep. in_epoch W ep (timed evs)) L"
  have "active_ops w q = map (\<lambda>g. the (fold_opt ?upd g fresh)) ?gs" using L(1) by simp
  moreover have "mset (concat ?gs) = mset (live_events W q evs)" using L(2) by (simp only: live_events_timed)
  moreover have "win_events env field evs w0 = Some w" using run w(1) by simp
  moreover from this have "inner_kind w = kind" using win_events_kind w0(4) by simp
  ultimately show ?thesis using w0(1) by blast
qed

lemma map_filter_Some: "List.map_filter (\<lambda>x. Some (f x)) xs = map f xs"
  by (simp add: List.map_filter_def)

lemma paths_agree:
  assumes "agg_wf names i j op"
  shows "agg_update_with_extracted env op (field_value row field) t e row field (extract_fields names row) i j =
      agg_update_with_row env op row t field e \<and>
    (\<forall>op'. agg_update_with_row env op row t field e = Some op' \<longrightarrow> agg_wf names i j op')"
proof (cases "where_matched env e row")
  case None
  then show ?thesis by (simp add: agg_update_with_extracted_def agg_update_with_row_def)
next
  case (Some m)
  show ?thesis
  proof (cases op)
    case (Lifetime s)
    with assms have g: "geo_resolved names s i j" by (simp add: agg_wf_def)
    from geo_resolved_update [OF g] op_extracted_agrees [OF g] show ?thesis
      by (auto simp: Lifetime Some agg_update_with_extracted_def agg_update_with_extracted_no_where_def
          agg_update_with_row_def agg_update_def agg_wf_def)
  next
    case (Windowed w)
    with assms have k: "supports_windowed_wrap (inner_kind w)" and b: "\<And>x. x \<in> snd ` set (buckets w) \<Longrightarrow> windowable x"
      by (auto simp: agg_wf_def)
    have wd: "windowable x" if "x \<in> snd ` set (buckets w) \<or> fresh_op env w = Some x" for x
      using that b fresh_op_windowable [OF k] by blast
    have "win_update_at env w (field_value row field) (extract_fields names row) i j t m = win_update_with_row env w row t field e"
      unfolding win_update_at_def win_update_with_row_def
      by (intro win_route_cong) (simp add: op_update_with_row_def Some windowable_extracted wd)
    moreover have "agg_wf names i j (Windowed w')" if w': "win_update_with_row env w row t field e = Some w'" for w'
    proof -
      have "windowable x" if "x \<in> snd ` set (buckets w')" for x
        using win_route_ops [OF w' [unfolded win_update_with_row_def] that] wd windowable_update
        unfolding op_update_with_row_def Some option.case by metis
      then show ?thesis using k win_route_kind [OF w' [unfolded win_update_with_row_def]] by (simp add: agg_wf_def)
    qed
    ultimately show ?thesis
      by (auto simp: Windowed Some agg_update_with_extracted_def agg_update_with_extracted_no_where_def agg_update_with_row_def)
  qed
qed

section \<open>Properties\<close>

text \<open>C13. The path that consumes pre-extracted values agrees with the path that reads the row: for
  every kind of operator, windowed or not, when the pre-extracted value is the row's value of
  the feature's field and resolved position indices name the position fields, one event
  changes the operator in the same way, panics included; and the condition is kept.\<close>

theorem update_paths_agree:
  assumes "agg_wf names i j op"
  shows "agg_update_with_extracted env op (field_value row field) t e row field (extract_fields names row) i j =
      agg_update_with_row env op row t field e \<and>
    (\<forall>op'. agg_update_with_row env op row t field e = Some op' \<longrightarrow> agg_wf names i j op')"
  using paths_agree [OF assms] .

theorem update_paths_agree_witness:
  "\<forall>env. agg_update_with_extracted env (Lifetime (OSum sum_default)) (Some (VI64 3)) 0 None [(''x'', VI64 3)] (Some ''x'')
      (extract_fields [''x''] [(''x'', VI64 3)]) FIELD_IDX_NONE FIELD_IDX_NONE =
    agg_update_with_row env (Lifetime (OSum sum_default)) [(''x'', VI64 3)] 0 (Some ''x'') None"
  using update_paths_agree [of "[''x'']" FIELD_IDX_NONE FIELD_IDX_NONE "Lifetime (OSum sum_default)" _ "[(''x'', VI64 3)]" "Some ''x''" 0 None]
  by (simp add: agg_wf_def geo_resolved_def geo_fields_def field_value_def row_get_map_of)

text \<open>C11. A windowed count is exact: for events in time order and a query no earlier than the last
  of them, no update panics, no live bucket is evicted although only 64 are kept, and the
  answer is the number of matching events whose bucket starts within the window.\<close>

theorem windowed_count:
  assumes "window_ok W" and "sorted (map (\<lambda>e. fst (snd e)) evs)" and "time_ok q"
    and "\<forall>e \<in> set evs. fst (snd e) \<le> q \<and> time_ok (fst (snd e))" and "length evs < 2 ^ 63"
  shows "\<exists>w0 w. win_new KCount W = Some w0 \<and> win_events env field evs w0 = Some w \<and>
    win_query env w q = Some (VI64 (int (length (filter (\<lambda>(row, t, m). m) (live_events W q evs)))))"
proof -
  let ?n = "\<lambda>g. length (filter (\<lambda>(row, t, m). m) g)"
  obtain w0 w gs where w: "win_new KCount W = Some w0" "win_events env field evs w0 = Some w" "inner_kind w = KCount"
      "active_ops w q = map (\<lambda>g. the (fold_opt (\<lambda>(row, t, m) op. op_update env op row t field m) g (OCount count_default))) gs"
      "mset (concat gs) = mset (live_events W q evs)"
    using win_events_partition [OF wcount.windowed_inner_axioms [of env field] _ _ assms(1-4), of KCount] by (auto simp: new_lifetime_def)
  have ops: "active_ops w q = map (\<lambda>g. OCount \<lparr>count_n = of_nat (?n g)\<rparr>) gs"
    by (simp add: w(4) count_fold count_default_def)
  have "sum_list (map (\<lambda>g. of_nat (?n g) :: u64) gs) = of_nat (?n (concat gs))"
    by (induction gs) simp_all
  moreover have "?n (concat gs) = ?n (live_events W q evs)"
    using w(5) by (metis mset_filter size_mset)
  moreover have "?n (live_events W q evs) < 2 ^ 63"
    using assms(5) le_trans [OF length_filter_le length_filter_le] by (metis (no_types, lifting) le_less_trans live_events_def)
  ultimately show ?thesis
    using w(1-3) by (simp add: win_query_def ops List.map_filter_def comp_def u64_as_i64_def sint_small Let_def)
qed

theorem windowed_count_witness:
  "\<forall>env. \<exists>w0 w. win_new KCount 64 = Some w0 \<and>
     win_events env None [([], 1, True), ([], 40, False), ([], 70, True), ([], 90, True)] w0 = Some w \<and>
     win_query env w 100 = Some (VI64 2)"
proof
  fix env
  show "\<exists>w0 w. win_new KCount 64 = Some w0 \<and>
     win_events env None [([], 1, True), ([], 40, False), ([], 70, True), ([], 90, True)] w0 = Some w \<and>
     win_query env w 100 = Some (VI64 2)"
    using windowed_count [of 64 "[([], 1, True), ([], 40, False), ([], 70, True), ([], 90, True)]" 100 env None]
    by (simp add: window_ok_def time_ok_def live_events_def live_def epoch_of_def bucket_width_def)
qed

text \<open>C12. A windowed distinct count is the lifetime distinct count of the events in the window: the
  merge of the live buckets, in whatever order and modes they are, answers exactly what the
  unwindowed operator answers on those events alone.\<close>

theorem windowed_distinct:
  assumes "window_ok W" and "sorted (map (\<lambda>e. fst (snd e)) evs)" and "time_ok q"
    and "\<forall>e \<in> set evs. fst (snd e) \<le> q \<and> time_ok (fst (snd e))"
  shows "\<exists>w0 w. win_new KCountDistinct W = Some w0 \<and> win_events env field evs w0 = Some w \<and>
    win_query env w q =
      Some (cdw_query (env_libm env) (run_op (cdw_update (env_hashers env)) field (live_events W q evs) cdw_default))"
proof -
  let ?upd = "cdw_update (env_hashers env)" and ?h = "\<lambda>g. map (hash_value_for_hll (env_hashers env)) (observed field g)"
  obtain w0 w gs where w: "win_new KCountDistinct W = Some w0" "win_events env field evs w0 = Some w" "inner_kind w = KCountDistinct"
      "active_ops w q = map (\<lambda>g. the (fold_opt (\<lambda>(row, t, m) op. op_update env op row t field m) g (OCountDistinct cdw_default))) gs"
      "mset (concat gs) = mset (live_events W q evs)"
    using win_events_partition [OF wdistinct.windowed_inner_axioms [of env field] _ _ assms(1-4), of KCountDistinct] by (auto simp: new_lifetime_def)
  have inner: "cd_inner (run_op ?upd field g cdw_default) = fold cd_add_hash (?h g) cd_new" for g
    by (simp add: cdw_run cdw_default_def)
  let ?sts = "map (\<lambda>g. fold cd_add_hash (?h g) cd_new) gs"
  have ops: "List.map_filter (\<lambda>op. case op of OCountDistinct s \<Rightarrow> Some (cd_inner s) | _ \<Rightarrow> None) (active_ops w q) = ?sts"
    by (simp add: w(4) distinct_fold List.map_filter_def comp_def inner)
  have merged: "merge_buckets (\<lambda>a b. Some (cd_merge a b)) sts = Some (case sts of [] \<Rightarrow> None | a # as \<Rightarrow> Some (foldl cd_merge a as))" for sts
  proof -
    have "fold_opt (\<lambda>x acc. case acc of None \<Rightarrow> Some (Some x) | Some c \<Rightarrow> map_option Some (Some (cd_merge c x))) as (Some a) = Some (Some (foldl cd_merge a as))" for a as
      by (induction as arbitrary: a) simp_all
    then show ?thesis by (cases sts) (simp_all add: merge_buckets_def del: option.map)
  qed
  have all: "foldl cd_merge (fold cd_add_hash (?h g) cd_new) (map (\<lambda>g. fold cd_add_hash (?h g) cd_new) gs') = fold cd_add_hash (concat (map ?h (g # gs'))) cd_new" for g gs'
    using cd.merge_all [of "?h g" "map ?h gs'"] by (simp add: comp_def)
  have obs: "set (observed field (concat gs)) = set (observed field (live_events W q evs))"
    unfolding observed_def List.map_filter_def set_map set_filter mset_eq_setD [OF w(5)] ..
  have "concat (map ?h gs) = ?h (concat gs)" by (induction gs) (simp_all add: observed_def List.map_filter_def)
  then have eq: "fold cd_add_hash (concat (map ?h gs)) cd_new = fold cd_add_hash (?h (live_events W q evs)) cd_new"
    using obs by (intro cd.run_set) simp
  show ?thesis
  proof (cases gs)
    case Nil
    then have "live_events W q evs = []" using w(5) by simp
    then show ?thesis using w(1-3) ops Nil
      by (simp add: win_query_def merged Let_def cdw_query_def cdw_default_def cd_new_def cd_estimate_def u64_as_i64_def)
  next
    case (Cons g gs')
    then show ?thesis
      using w(1-3) ops all [of g gs'] eq
      by (simp add: win_query_def merged Let_def cdw_query_def inner)
  qed
qed

theorem windowed_distinct_witness:
  "\<forall>env. \<exists>w0 w. win_new KCountDistinct 64 = Some w0 \<and>
     win_events env (Some ''x'') [([(''x'', VI64 1)], 1, True), ([(''x'', VI64 2)], 70, True)] w0 = Some w \<and>
     win_query env w 100 = Some (cdw_query (env_libm env) (run_op (cdw_update (env_hashers env)) (Some ''x'') [([(''x'', VI64 2)], 70, True)] cdw_default))"
proof
  fix env
  show "\<exists>w0 w. win_new KCountDistinct 64 = Some w0 \<and>
     win_events env (Some ''x'') [([(''x'', VI64 1)], 1, True), ([(''x'', VI64 2)], 70, True)] w0 = Some w \<and>
     win_query env w 100 = Some (cdw_query (env_libm env) (run_op (cdw_update (env_hashers env)) (Some ''x'') [([(''x'', VI64 2)], 70, True)] cdw_default))"
    using windowed_distinct [of 64 "[([(''x'', VI64 1)], 1, True), ([(''x'', VI64 2)], 70, True)]" 100 env "Some ''x''"]
    by (simp add: window_ok_def time_ok_def live_events_def live_def epoch_of_def bucket_width_def del: run_op_simps)
qed

end
