(* ===== verification/F64Bits.thy ===== *)
theory F64Bits
  imports F64
begin

text \<open>
  \<open>f64::to_bits\<close> and \<open>f64::from_bits\<close> on the exact model of binary64: sign, eleven exponent
  bits and 52 fraction bits. Every NaN of the model encodes as the canonical quiet NaN. The
  lemmas show that encoding a decoded normal pattern gives the pattern back.
\<close>

definition f64_from_bits :: "u64 \<Rightarrow> f64" where
  "f64_from_bits w =
     (let b = uint w; neg = 2 ^ 63 \<le> b; e = b div 2 ^ 52 mod 2048; m = b mod 2 ^ 52
      in if e = 2047 then (if m = 0 then Inf neg else NaN)
         else
           (let a = (if e = 0 then of_int m * pow2 (- 1074) else of_int (2 ^ 52 + m) * pow2 (e - 1075))
            in if a = 0 then (if neg then NegZero else Fin 0) else Fin (if neg then - a else a)))"

definition f64_to_bits :: "f64 \<Rightarrow> u64" where
  "f64_to_bits f =
     (case f of
        NaN \<Rightarrow> 0x7FF8000000000000
      | Inf neg \<Rightarrow> if neg then 0xFFF0000000000000 else 0x7FF0000000000000
      | NegZero \<Rightarrow> 0x8000000000000000
      | Fin r \<Rightarrow>
          if r = 0 then 0
          else
            (let e = max (floor_log2 \<bar>r\<bar>) (- 1022);
                 m = \<lfloor>\<bar>r\<bar> / pow2 (e - 52)\<rfloor>;
                 mag = (if m < 2 ^ 52 then m else (e + 1023) * 2 ^ 52 + (m - 2 ^ 52))
             in word_of_int (mag + (if r < 0 then 2 ^ 63 else 0))))"

lemma pow2_power_int: "pow2 e = 2 powi e"
  by (simp add: pow2_def power_int_def field_simps)

lemma pow2_add: "pow2 (a + b) = pow2 a * pow2 b"
  by (simp add: pow2_power_int power_int_add)

lemma pow2_strict_mono: "pow2 a < pow2 b \<longleftrightarrow> a < b"
  using pow2_mono [of b a] pow2_mono [of a b]
  by (auto simp: pow2_power_int power_int_strict_increasing not_le intro: linorder_not_le [THEN iffD1])

lemma floor_log2_bounds:
  assumes "0 < r"
  shows "pow2 (floor_log2 r) \<le> r \<and> r < pow2 (floor_log2 r + 1)"
proof -
  obtain n d where q: "quotient_of r = (n, d)" by (cases "quotient_of r")
  have d: "0 < d" using quotient_of_denom_pos [OF q] .
  have r: "r = of_int n / of_int d" using quotient_of_div [OF q] .
  have n: "0 < n" using assms d by (simp add: r zero_less_divide_iff)
  let ?k = "blen n - blen d"
  have bn: "pow2 (blen n - 1) \<le> of_int n" "of_int n < pow2 (blen n)"
    and bd: "pow2 (blen d - 1) \<le> of_int d" "of_int d < pow2 (blen d)"
  proof -
    have "pow2 (blen x - 1) \<le> of_int x \<and> of_int x < pow2 (blen x)" if "0 < x" for x
    proof -
      note b = blen_bounds [OF that]
      then have "of_int (2 ^ nat (blen x - 1)) \<le> (of_int x :: rat)" "(of_int x :: rat) < of_int (2 ^ nat (blen x))"
        by (simp_all only: of_int_le_iff of_int_less_iff)
      with b show ?thesis by (simp add: pow2_def)
    qed
    from this [OF n] this [OF d] show "pow2 (blen n - 1) \<le> of_int n" "of_int n < pow2 (blen n)"
      "pow2 (blen d - 1) \<le> of_int d" "of_int d < pow2 (blen d)" by auto
  qed
  have d': "(0 :: rat) < of_int d" using d by simp
  have "pow2 (?k - 1) * of_int d \<le> of_int n"
  proof -
    have "pow2 (?k - 1) * of_int d \<le> pow2 (?k - 1) * pow2 (blen d)" using bd(2) by (simp add: less_imp_le)
    also have "\<dots> = pow2 (blen n - 1)" by (simp flip: pow2_add)
    also have "\<dots> \<le> of_int n" by (rule bn(1))
    finally show ?thesis .
  qed
  then have low: "pow2 (?k - 1) \<le> r" using d' by (simp add: r pos_le_divide_eq)
  have "of_int n < pow2 (?k + 1) * of_int d"
  proof -
    have "of_int n < pow2 (blen n)" by (rule bn(2))
    also have "\<dots> = pow2 (?k + 1) * pow2 (blen d - 1)" by (simp flip: pow2_add)
    also have "\<dots> \<le> pow2 (?k + 1) * of_int d" using bd(1) by simp
    finally show ?thesis .
  qed
  then have "r < pow2 (?k + 1)" using d' by (simp add: r pos_divide_less_eq)
  with low show ?thesis by (simp add: floor_log2_def q Let_def not_le)
qed

lemma floor_log2_unique:
  assumes "pow2 e \<le> r" and "r < pow2 (e + 1)"
  shows "floor_log2 r = e"
proof -
  have "0 < r" using pow2_pos [of e] assms(1) by linarith
  note b = floor_log2_bounds [OF this]
  have "pow2 e < pow2 (floor_log2 r + 1)" "pow2 (floor_log2 r) < pow2 (e + 1)" using assms b by linarith+
  then show ?thesis by (simp add: pow2_strict_mono)
qed

lemma f64_bits_normal:
  assumes "uint w div 2 ^ 52 mod 2048 = e" and "0 < e" and "e < 2047"
  shows "f64_to_bits (f64_from_bits w) = w" and "\<not> is_nan (f64_from_bits w)"
proof -
  let ?b = "uint w"
  define m where "m = ?b mod 2 ^ 52"
  define a where "a = of_int (2 ^ 52 + m) * pow2 (e - 1075)"
  have m: "0 \<le> m" "m < 2 ^ 52" by (simp_all add: m_def)
  have pos: "0 < a" using m by (simp add: a_def)
  have dec: "f64_from_bits w = Fin (if 2 ^ 63 \<le> ?b then - a else a)"
    using assms(2,3) pos unfolding f64_from_bits_def Let_def assms(1) m_def [symmetric] a_def [symmetric] by simp
  then show "\<not> is_nan (f64_from_bits w)" by (simp add: is_nan_def)
  have low: "pow2 (e - 1023) \<le> a"
  proof -
    have "pow2 (e - 1023) = pow2 52 * pow2 (e - 1075)" by (simp flip: pow2_add)
    also have "\<dots> \<le> a" using m by (simp add: a_def pow2_def [of 52])
    finally show ?thesis .
  qed
  have high: "a < pow2 (e - 1023 + 1)"
  proof -
    have "(of_int (2 ^ 52 + m) :: rat) < of_int (2 ^ 53)" using m by (simp only: of_int_less_iff) simp
    then have "a < of_int (2 ^ 53) * pow2 (e - 1075)" unfolding a_def by (simp only: mult_less_cancel_right_pos pow2_pos)
    also have "\<dots> = pow2 53 * pow2 (e - 1075)" by (simp add: pow2_def [of 53])
    also have "\<dots> = pow2 (e - 1023 + 1)" by (simp flip: pow2_add)
    finally show ?thesis .
  qed
  have log: "floor_log2 a = e - 1023" by (rule floor_log2_unique [OF low high])
  have ex: "max (floor_log2 a) (- 1022) = e - 1023" using assms(2) by (simp add: log)
  have fl: "\<lfloor>a / pow2 (e - 1023 - 52)\<rfloor> = 2 ^ 52 + m"
  proof -
    have "a / pow2 (e - 1023 - 52) = of_int (2 ^ 52 + m)"
      using pow2_pos [of "e - 1075"] unfolding a_def by (simp add: less_imp_neq [symmetric])
    then show ?thesis by (simp only: floor_of_int)
  qed
  have b: "?b = (if 2 ^ 63 \<le> ?b then 2 ^ 63 else 0) + e * 2 ^ 52 + m"
  proof -
    have lt: "?b < 2 ^ 64" using uint_lt2p [of w] by simp
    have s: "?b div 2 ^ 52 div 2048 = (if 2 ^ 63 \<le> ?b then 1 else 0)"
    proof (cases "2 ^ 63 \<le> ?b")
      case True
      then have "?b div 2 ^ 63 = 1" using lt by (intro int_div_pos_eq [of _ _ _ "?b - 2 ^ 63"]) simp_all
      with True show ?thesis by (simp flip: zdiv_zmult2_eq)
    next
      case False
      then have "?b div 2 ^ 63 = 0" by (intro div_pos_pos_trivial) simp_all
      with False show ?thesis by (simp flip: zdiv_zmult2_eq)
    qed
    have "?b = 2 ^ 52 * (?b div 2 ^ 52) + m" by (simp add: m_def)
    moreover have "?b div 2 ^ 52 = 2048 * (?b div 2 ^ 52 div 2048) + e"
      using mult_div_mod_eq [of 2048 "?b div 2 ^ 52"] unfolding assms(1) by (rule sym)
    ultimately have "?b = 2 ^ 52 * (2048 * (?b div 2 ^ 52 div 2048) + e) + m" by metis
    then show ?thesis unfolding s by (simp add: algebra_simps split: if_splits)
  qed
  have abs: "\<bar>if 2 ^ 63 \<le> ?b then - a else a\<bar> = a" "((if 2 ^ 63 \<le> ?b then - a else a) < 0) = (2 ^ 63 \<le> ?b)"
    "(if 2 ^ 63 \<le> ?b then - a else a) \<noteq> 0"
    using pos by auto
  have "f64_to_bits (f64_from_bits w) = word_of_int ((e - 1023 + 1023) * 2 ^ 52 + (2 ^ 52 + m - 2 ^ 52) + (if 2 ^ 63 \<le> ?b then 2 ^ 63 else 0))"
    using m unfolding dec f64_to_bits_def f64.case by (simp only: Let_def abs ex fl if_False) simp
  also have "\<dots> = word_of_int ?b" using b by (intro arg_cong [of _ _ word_of_int]) (cases "2 ^ 63 \<le> ?b"; simp)
  also have "\<dots> = w" by simp
  finally show "f64_to_bits (f64_from_bits w) = w" .
qed

end
