(* ===== verification/StateTable.thy ===== *)
theory StateTable
  imports AggWindowed F64Bits "HOL-Library.AList"
begin

text \<open>
  Entity keys and the per-aggregation state store of
  \<open>crates/beava-core/src/agg_state_table.rs\<close>, and the descriptors of
  \<open>crates/beava-core/src/agg_descriptor.rs\<close>. A hash map is an association list with distinct
  keys, in the map's iteration order; the hash of a string key (parameter \<open>fx\<close>) only selects
  the hash bucket. Entity keys are compared by \<open>entity_value_eq\<close>, which is equality on the
  values a key holds.

  The lemmas show that a snapshot of a table restores it, whatever the iteration order, that
  reading an entity back finds the row the hot path stored, and which keys share a slot.
\<close>

section \<open>Descriptors\<close>

record NamedAggOp =
  feature_name :: string
  descriptor :: AggOpDescriptor

record AggregationDescriptor =
  node_name :: string
  source_node_name :: string
  group_keys :: "string list"
  features :: "NamedAggOp list"
  agg_id :: nat
  field_names :: "string list"
  cluster_id :: nat

section \<open>Entity keys\<close>

type_synonym EntityKey = "(string \<times> Value) list"

definition entity_value_eq :: "Value \<Rightarrow> Value \<Rightarrow> bool" where
  "entity_value_eq a b =
     (case (a, b) of
        (VStr x, VStr y) \<Rightarrow> x = y
      | (VI64 x, VI64 y) \<Rightarrow> x = y
      | (VF64 x, VF64 y) \<Rightarrow> f64_to_bits x = f64_to_bits y
      | (VBool x, VBool y) \<Rightarrow> x = y
      | (VDatetime x, VDatetime y) \<Rightarrow> x = y
      | _ \<Rightarrow> False)"

definition entity_key_eq :: "EntityKey \<Rightarrow> EntityKey \<Rightarrow> bool" where
  "entity_key_eq a b \<longleftrightarrow> length a = length b \<and> list_all2 (\<lambda>(ak, av) (bk, bv). ak = bk \<and> entity_value_eq av bv) a b"

text \<open>The order of entity values: by rank of the variant, then by payload.\<close>

definition cmp_entity_value :: "Value \<Rightarrow> nat \<times> string \<times> int \<times> (nat \<times> rat \<times> nat)" where
  "cmp_entity_value v =
     (case v of
        VStr s \<Rightarrow> (0, s, 0, (0, 0, 0))
      | VI64 n \<Rightarrow> (1, [], n, (0, 0, 0))
      | VF64 f \<Rightarrow> (2, [], 0, f64_order_key f)
      | VBool b \<Rightarrow> (3, [], (if b then 1 else 0), (0, 0, 0))
      | VDatetime ms \<Rightarrow> (4, [], ms, (0, 0, 0))
      | _ \<Rightarrow> (255, [], 0, (0, 0, 0)))"

definition entity_key_ord :: "EntityKey \<Rightarrow> (string \<times> nat \<times> string \<times> int \<times> (nat \<times> rat \<times> nat)) list" where
  "entity_key_ord key = map (\<lambda>(k, v). (k, cmp_entity_value v)) key"

definition canonical_key :: "libm \<Rightarrow> Value \<Rightarrow> string option" where
  "canonical_key lm v =
     (case v of
        VStr s \<Rightarrow> Some s
      | VI64 n \<Rightarrow> Some (i64_to_string n)
      | VF64 f \<Rightarrow> Some (f64_debug lm f)
      | VBool b \<Rightarrow> Some (bool_to_string b)
      | VDatetime ms \<Rightarrow> Some (i64_to_string ms)
      | _ \<Rightarrow> None)"

fun entity_key_from_row :: "libm \<Rightarrow> string list \<Rightarrow> Row \<Rightarrow> EntityKey option" where
  "entity_key_from_row lm [] row = Some []"
| "entity_key_from_row lm (k # ks) row =
     (case row_get row k of
        None \<Rightarrow> None
      | Some v \<Rightarrow>
          (case canonical_key lm v of
             None \<Rightarrow> None
           | Some s \<Rightarrow> map_option (\<lambda>rest. (k, VStr s) # rest) (entity_key_from_row lm ks row)))"

section \<open>Key shapes\<close>

datatype EntityKeyShape =
    SingleU64 u64
  | SingleStr u64 string
  | Multi EntityKey

datatype VariantTag = TagI64 | TagF64 | TagBool | TagDatetime

definition tag_num :: "VariantTag \<Rightarrow> u64" where
  "tag_num t = (case t of TagI64 \<Rightarrow> 1 | TagF64 \<Rightarrow> 2 | TagBool \<Rightarrow> 3 | TagDatetime \<Rightarrow> 4)"

definition PAYLOAD_MASK :: u64 where
  "PAYLOAD_MASK = 0x0FFFFFFFFFFFFFFF"

unbundle bit_operations_syntax

definition tag_u64 :: "VariantTag \<Rightarrow> u64 \<Rightarrow> u64" where
  "tag_u64 tag payload = push_bit 60 (tag_num tag) OR (payload AND PAYLOAD_MASK)"

definition bool_u64 :: "bool \<Rightarrow> u64" where
  "bool_u64 b = (if b then 1 else 0)"

text \<open>The shape of a single key value; \<open>None\<close> for the values that are dropped.\<close>

definition shape_of_value :: "(string \<Rightarrow> u64) \<Rightarrow> Value \<Rightarrow> EntityKeyShape option" where
  "shape_of_value fx v =
     (case v of
        VStr s \<Rightarrow> Some (SingleStr (fx s) s)
      | VI64 n \<Rightarrow> Some (SingleU64 (tag_u64 TagI64 (word_of_int n)))
      | VF64 f \<Rightarrow> if is_nan f then None else Some (SingleU64 (tag_u64 TagF64 (f64_to_bits f)))
      | VBool b \<Rightarrow> Some (SingleU64 (tag_u64 TagBool (bool_u64 b)))
      | VDatetime ms \<Rightarrow> Some (SingleU64 (tag_u64 TagDatetime (word_of_int ms)))
      | _ \<Rightarrow> None)"

fun multi_from_row :: "libm \<Rightarrow> string list \<Rightarrow> Row \<Rightarrow> EntityKey option" where
  "multi_from_row lm [] row = Some []"
| "multi_from_row lm (k # ks) row =
     (case row_get row k of
        None \<Rightarrow> None
      | Some v \<Rightarrow>
          (case (if v = VF64 NaN then None else canonical_key lm v) of
             None \<Rightarrow> None
           | Some s \<Rightarrow> map_option (\<lambda>rest. (k, VStr s) # rest) (multi_from_row lm ks row)))"

definition shape_from_row :: "(string \<Rightarrow> u64) \<Rightarrow> libm \<Rightarrow> string list \<Rightarrow> Row \<Rightarrow> EntityKeyShape option" where
  "shape_from_row fx lm gkeys row =
     (case gkeys of
        [key] \<Rightarrow> (case row_get row key of None \<Rightarrow> None | Some v \<Rightarrow> shape_of_value fx v)
      | _ \<Rightarrow> map_option Multi (multi_from_row lm gkeys row))"

section \<open>The table\<close>

record AggStateTable =
  single_u64 :: "(u64 \<times> AggOp list) list"
  single_str :: "(string \<times> AggOp list) list"
  multi :: "(EntityKey \<times> AggOp list) list"
  tbl_group_keys :: "string list"
  last_seen_u64 :: "(u64 \<times> u64) list"
  last_seen_str :: "(string \<times> u64) list"
  last_seen_multi :: "(EntityKey \<times> u64) list"

definition table_new :: AggStateTable where
  "table_new = \<lparr>single_u64 = [], single_str = [], multi = [], tbl_group_keys = [],
     last_seen_u64 = [], last_seen_str = [], last_seen_multi = []\<rparr>"

fun opt_all :: "'a option list \<Rightarrow> 'a list option" where
  "opt_all [] = Some []"
| "opt_all (x # xs) = (case x of None \<Rightarrow> None | Some y \<Rightarrow> map_option (\<lambda>ys. y # ys) (opt_all xs))"

definition init_row :: "agg_env \<Rightarrow> AggregationDescriptor \<Rightarrow> AggOp list option" where
  "init_row env desc = opt_all (map (\<lambda>f. agg_new env (descriptor f)) (features desc))"

definition row_at :: "AggStateTable \<Rightarrow> EntityKeyShape \<Rightarrow> AggOp list option" where
  "row_at t shape =
     (case shape of
        SingleU64 k \<Rightarrow> map_of (single_u64 t) k
      | SingleStr _ s \<Rightarrow> map_of (single_str t) s
      | Multi ek \<Rightarrow> map_of (multi t) ek)"

definition set_row :: "EntityKeyShape \<Rightarrow> AggOp list \<Rightarrow> AggStateTable \<Rightarrow> AggStateTable" where
  "set_row shape ops t =
     (case shape of
        SingleU64 k \<Rightarrow> t\<lparr>single_u64 := AList.update k ops (single_u64 t)\<rparr>
      | SingleStr _ s \<Rightarrow> t\<lparr>single_str := AList.update s ops (single_str t)\<rparr>
      | Multi ek \<Rightarrow> t\<lparr>multi := AList.update ek ops (multi t)\<rparr>)"

definition remember_group_keys :: "string list \<Rightarrow> AggStateTable \<Rightarrow> AggStateTable" where
  "remember_group_keys gkeys t = (if tbl_group_keys t = [] \<and> gkeys \<noteq> [] then t\<lparr>tbl_group_keys := gkeys\<rparr> else t)"

text \<open>The source returns a mutable reference to the entity's row; here the row and the table that holds it.\<close>

definition get_or_init_by_shape ::
    "agg_env \<Rightarrow> EntityKeyShape \<Rightarrow> AggregationDescriptor \<Rightarrow> AggStateTable \<Rightarrow> (AggOp list \<times> AggStateTable) option" where
  "get_or_init_by_shape env shape desc t0 =
     (let t = remember_group_keys (group_keys desc) t0 in
      case row_at t shape of
        Some ops \<Rightarrow> Some (ops, t)
      | None \<Rightarrow> map_option (\<lambda>ops. (ops, set_row shape ops t)) (init_row env desc))"

definition get_or_init ::
    "agg_env \<Rightarrow> EntityKey \<Rightarrow> AggregationDescriptor \<Rightarrow> AggStateTable \<Rightarrow> (AggOp list \<times> AggStateTable) option" where
  "get_or_init env key desc t0 = get_or_init_by_shape env (Multi key) desc t0"

text \<open>Old snapshots hold a typed single key as a string; the schema's type converts it back.\<close>

definition coerce_legacy :: "libm \<Rightarrow> FieldType list option \<Rightarrow> Value \<Rightarrow> Value" where
  "coerce_legacy lm types v =
     (case (v, types) of
        (VStr s, Some (ty # _)) \<Rightarrow>
          (case ty of
             TI64 \<Rightarrow> (case parse_i64 s of Some n \<Rightarrow> VI64 n | None \<Rightarrow> v)
           | TF64 \<Rightarrow> (case f64_parse lm s of Some f \<Rightarrow> VF64 f | None \<Rightarrow> v)
           | TBool \<Rightarrow> if s = ''true'' then VBool True else if s = ''false'' then VBool False else v
           | TDatetime \<Rightarrow> (case parse_i64 s of Some n \<Rightarrow> VDatetime n | None \<Rightarrow> v)
           | _ \<Rightarrow> v)
      | _ \<Rightarrow> v)"

definition insert_from_entity_key_with_types ::
    "(string \<Rightarrow> u64) \<Rightarrow> libm \<Rightarrow> EntityKey \<Rightarrow> AggOp list \<Rightarrow> FieldType list option \<Rightarrow> AggStateTable \<Rightarrow> AggStateTable" where
  "insert_from_entity_key_with_types fx lm key ops types t0 =
     (let t = (if tbl_group_keys t0 = [] then t0\<lparr>tbl_group_keys := map fst key\<rparr> else t0) in
      case key of
        [(_, v)] \<Rightarrow>
          (case shape_of_value fx (coerce_legacy lm types v) of
             Some shape \<Rightarrow> set_row shape ops t
           | None \<Rightarrow> set_row (Multi key) ops t)
      | _ \<Rightarrow> set_row (Multi key) ops t)"

definition insert_from_entity_key :: "(string \<Rightarrow> u64) \<Rightarrow> libm \<Rightarrow> EntityKey \<Rightarrow> AggOp list \<Rightarrow> AggStateTable \<Rightarrow> AggStateTable" where
  "insert_from_entity_key fx lm key ops t = insert_from_entity_key_with_types fx lm key ops None t"

text \<open>The row a query's key selects.\<close>

definition query_row :: "EntityKey \<Rightarrow> AggStateTable \<Rightarrow> AggOp list option" where
  "query_row key t =
     (case key of
        [(_, v)] \<Rightarrow>
          (case v of
             VStr s \<Rightarrow> (case map_of (single_str t) s of Some ops \<Rightarrow> Some ops | None \<Rightarrow> map_of (multi t) key)
           | VI64 n \<Rightarrow> map_of (single_u64 t) (tag_u64 TagI64 (word_of_int n))
           | VF64 f \<Rightarrow> map_of (single_u64 t) (tag_u64 TagF64 (f64_to_bits f))
           | VBool b \<Rightarrow> map_of (single_u64 t) (tag_u64 TagBool (bool_u64 b))
           | VDatetime ms \<Rightarrow> map_of (single_u64 t) (tag_u64 TagDatetime (word_of_int ms))
           | VNull \<Rightarrow> None
           | _ \<Rightarrow> map_of (multi t) key)
      | _ \<Rightarrow> map_of (multi t) key)"

text \<open>Outer \<open>None\<close>: the operator's query panics; inner \<open>None\<close>: no such entity or feature.\<close>

definition query_feature :: "agg_env \<Rightarrow> AggStateTable \<Rightarrow> EntityKey \<Rightarrow> nat \<Rightarrow> int \<Rightarrow> Value option option" where
  "query_feature env t key feature_index query_time_ms =
     (case query_row key t of
        None \<Rightarrow> Some None
      | Some ops \<Rightarrow>
          if feature_index < length ops then map_option Some (agg_query env (ops ! feature_index) query_time_ms) else Some None)"

definition entity_count :: "AggStateTable \<Rightarrow> nat" where
  "entity_count t = length (single_u64 t) + length (single_str t) + length (multi t)"

definition last_seen_at :: "AggStateTable \<Rightarrow> EntityKeyShape \<Rightarrow> u64 option" where
  "last_seen_at t shape =
     (case shape of
        SingleU64 k \<Rightarrow> map_of (last_seen_u64 t) k
      | SingleStr _ s \<Rightarrow> map_of (last_seen_str t) s
      | Multi ek \<Rightarrow> map_of (last_seen_multi t) ek)"

definition drop_entity :: "EntityKeyShape \<Rightarrow> AggStateTable \<Rightarrow> AggStateTable" where
  "drop_entity shape t =
     (case shape of
        SingleU64 k \<Rightarrow> t\<lparr>single_u64 := AList.delete k (single_u64 t), last_seen_u64 := AList.delete k (last_seen_u64 t)\<rparr>
      | SingleStr _ s \<Rightarrow> t\<lparr>single_str := AList.delete s (single_str t), last_seen_str := AList.delete s (last_seen_str t)\<rparr>
      | Multi ek \<Rightarrow> t\<lparr>multi := AList.delete ek (multi t), last_seen_multi := AList.delete ek (last_seen_multi t)\<rparr>)"

definition evict_entity_by_shape_if_cold :: "EntityKeyShape \<Rightarrow> u64 \<Rightarrow> u64 \<Rightarrow> AggStateTable \<Rightarrow> bool \<times> AggStateTable" where
  "evict_entity_by_shape_if_cold shape now_ms cold_after_ms t =
     (case last_seen_at t shape of
        None \<Rightarrow> (False, t)
      | Some seen \<Rightarrow> if u64_saturating_sub now_ms seen \<le> cold_after_ms then (False, t) else (True, drop_entity shape t))"

definition record_last_seen_by_shape :: "EntityKeyShape \<Rightarrow> u64 \<Rightarrow> AggStateTable \<Rightarrow> AggStateTable" where
  "record_last_seen_by_shape shape now_ms t =
     (case shape of
        SingleU64 k \<Rightarrow> t\<lparr>last_seen_u64 := AList.update k now_ms (last_seen_u64 t)\<rparr>
      | SingleStr _ s \<Rightarrow> t\<lparr>last_seen_str := AList.update s now_ms (last_seen_str t)\<rparr>
      | Multi ek \<Rightarrow> t\<lparr>last_seen_multi := AList.update ek now_ms (last_seen_multi t)\<rparr>)"

text \<open>The value a stored number stands for in a snapshot.\<close>

definition restored_value :: "u64 \<Rightarrow> Value" where
  "restored_value k =
     (let tag = drop_bit 60 k; payload = k AND PAYLOAD_MASK in
      if tag = 1 then VI64 (sint payload)
      else if tag = 2 then VF64 (f64_from_bits (payload OR push_bit 60 2))
      else if tag = 3 then VBool (payload \<noteq> 0)
      else if tag = 4 then VDatetime (sint payload)
      else VStr ''unknown'')"

definition snapshot_entries :: "AggStateTable \<Rightarrow> (EntityKey \<times> AggOp list) list" where
  "snapshot_entries t =
     (let key_name = (case tbl_group_keys t of [] \<Rightarrow> [] | k # _ \<Rightarrow> k) in
      map (\<lambda>(k, ops). ([(key_name, restored_value k)], ops)) (single_u64 t) @
      map (\<lambda>(s, ops). ([(key_name, VStr s)], ops)) (single_str t) @
      multi t)"

definition iter_sorted :: "AggStateTable \<Rightarrow> (EntityKey \<times> AggOp list) list" where
  "iter_sorted t = sort_key (\<lambda>e. entity_key_ord (fst e)) (snapshot_entries t)"

type_synonym StateTables = "AggStateTable list"

definition ensure_capacity_for :: "nat \<Rightarrow> StateTables \<Rightarrow> StateTables" where
  "ensure_capacity_for min_len ts = ts @ replicate (min_len - length ts) table_new"

definition new_state_tables_for :: "nat \<Rightarrow> StateTables" where
  "new_state_tables_for next_agg_id = replicate next_agg_id table_new"

section \<open>Tagged keys\<close>

lemma payload_take_bit: "p AND PAYLOAD_MASK = take_bit 60 p"
proof -
  have "PAYLOAD_MASK = mask 60" by (simp add: PAYLOAD_MASK_def mask_eq_exp_minus_1)
  then show ?thesis by (simp add: take_bit_eq_mask)
qed

lemma drop_take_ident: "push_bit 60 (drop_bit 60 k) OR take_bit 60 k = k" for k :: u64
  by (rule bit_word_eqI) (auto simp: bit_simps)

lemma tag_u64_eq: "tag_u64 tag p = push_bit 60 (tag_num tag) OR take_bit 60 p"
  by (simp add: tag_u64_def payload_take_bit)

lemma tag_u64_restore: "drop_bit 60 k = tag_num tag \<Longrightarrow> tag_u64 tag (take_bit 60 k) = k"
  using drop_take_ident [of k] by (simp add: tag_u64_eq)

lemma push_60_drop: "drop_bit 60 (push_bit 60 (tag_num tag)) = tag_num tag"
  by (cases tag) (simp_all add: tag_num_def)

lemma drop_tag [simp]: "drop_bit 60 (tag_u64 tag p) = tag_num tag"
  by (simp add: tag_u64_eq drop_bit_or push_60_drop drop_bit_take_bit)

lemma take_tag [simp]: "take_bit 60 (tag_u64 tag p) = take_bit 60 p"
  by (simp add: tag_u64_eq take_bit_or take_bit_push_bit)

lemma tag_u64_inject: "tag_u64 t p = tag_u64 t' p' \<longleftrightarrow> t = t' \<and> take_bit 60 p = take_bit 60 p'"
proof -
  have "tag_num t = tag_num t' \<longleftrightarrow> t = t'" by (cases t; cases t') (simp_all add: tag_num_def)
  then show ?thesis by (metis drop_tag take_tag tag_u64_eq)
qed

text \<open>The numbers the hot path stores: a known tag, and for a Boolean a payload of at most one.\<close>

definition key_ok :: "u64 \<Rightarrow> bool" where
  "key_ok k \<longleftrightarrow> (\<exists>tag. drop_bit 60 k = tag_num tag \<and> (tag = TagBool \<longrightarrow> take_bit 60 k \<le> 1))"

lemma key_ok_tag: "tag \<noteq> TagBool \<Longrightarrow> key_ok (tag_u64 tag p)"
  unfolding key_ok_def by (rule exI [of _ tag]) simp

lemma key_ok_bool: "key_ok (tag_u64 TagBool (bool_u64 b))"
  unfolding key_ok_def by (rule exI [of _ TagBool]) (simp add: bool_u64_def)

lemma u64_le_1: "x \<le> 1 \<Longrightarrow> x = 0 \<or> x = 1" for x :: u64
  by (auto simp: word_le_nat_alt le_Suc_eq word_unat_eq_iff)

lemma restored_shape:
  assumes "key_ok k"
  shows "shape_of_value fx (restored_value k) = Some (SingleU64 k)"
proof -
  obtain tag where tag: "drop_bit 60 k = tag_num tag" "tag = TagBool \<longrightarrow> take_bit 60 k \<le> 1"
    using assms by (auto simp: key_ok_def)
  note restore = tag_u64_restore [OF tag(1)]
  show ?thesis
  proof (cases tag)
    case TagI64
    then show ?thesis using tag(1) restore
      by (simp add: restored_value_def shape_of_value_def payload_take_bit tag_num_def)
  next
    case TagDatetime
    then show ?thesis using tag(1) restore
      by (simp add: restored_value_def shape_of_value_def payload_take_bit tag_num_def)
  next
    case TagBool
    then have "take_bit 60 k = bool_u64 (take_bit 60 k \<noteq> 0)"
      using tag(2) u64_le_1 [of "take_bit 60 k"] by (auto simp: bool_u64_def)
    then have "tag_u64 TagBool (bool_u64 (take_bit 60 k \<noteq> 0)) = k" using restore TagBool by metis
    then show ?thesis using tag(1) TagBool
      by (simp add: restored_value_def shape_of_value_def payload_take_bit tag_num_def Let_def)
  next
    case TagF64
    let ?w = "take_bit 60 k OR push_bit 60 2 :: u64"
    have w: "?w = k" using drop_take_ident [of k] tag(1) TagF64 by (simp add: tag_num_def or.commute)
    have hi: "uint k div 2 ^ 60 = 2"
      using tag(1) TagF64 by (simp add: tag_num_def drop_bit_eq_div word_uint_eq_iff uint_div_distrib)
    have e: "uint k div 2 ^ 52 mod 2048 = 512 + uint k div 2 ^ 52 mod 256"
    proof -
      have "uint k div 2 ^ 52 div 256 = 2" using hi by (simp flip: zdiv_zmult2_eq)
      then have x: "uint k div 2 ^ 52 = 512 + uint k div 2 ^ 52 mod 256"
        using mult_div_mod_eq [of 256 "uint k div 2 ^ 52"] by simp
      have "0 \<le> uint k div 2 ^ 52 mod 256" "uint k div 2 ^ 52 mod 256 < 256" by simp_all
      then have "uint k div 2 ^ 52 mod 2048 = uint k div 2 ^ 52"
        using x by (intro mod_pos_pos_trivial) linarith+
      with x show ?thesis by simp
    qed
    have "0 \<le> uint k div 2 ^ 52 mod 256" "uint k div 2 ^ 52 mod 256 < 256" by simp_all
    then have "f64_to_bits (f64_from_bits k) = k" "\<not> is_nan (f64_from_bits k)"
      using f64_bits_normal [OF e] by simp_all
    moreover have "tag_u64 TagF64 k = k" using restore TagF64 by (metis tag_u64_inject take_bit_take_bit min.idem)
    ultimately show ?thesis using tag(1) TagF64 w
      by (simp add: restored_value_def shape_of_value_def payload_take_bit tag_num_def Let_def)
  qed
qed

section \<open>The table as one map\<close>

type_synonym slot_key = "u64 + string + EntityKey"

definition shape_slot :: "EntityKeyShape \<Rightarrow> slot_key" where
  "shape_slot shape = (case shape of SingleU64 k \<Rightarrow> Inl k | SingleStr _ s \<Rightarrow> Inr (Inl s) | Multi ek \<Rightarrow> Inr (Inr ek))"

definition tbl_map :: "AggStateTable \<Rightarrow> slot_key \<rightharpoonup> AggOp list" where
  "tbl_map t x =
     (case x of
        Inl k \<Rightarrow> map_of (single_u64 t) k
      | Inr y \<Rightarrow> (case y of Inl s \<Rightarrow> map_of (single_str t) s | Inr ek \<Rightarrow> map_of (multi t) ek))"

definition tbl_entries :: "AggStateTable \<Rightarrow> (slot_key \<times> AggOp list) list" where
  "tbl_entries t =
     map (\<lambda>(k, ops). (Inl k, ops)) (single_u64 t) @
     map (\<lambda>(s, ops). (Inr (Inl s), ops)) (single_str t) @
     map (\<lambda>(ek, ops). (Inr (Inr ek), ops)) (multi t)"

definition tbl_distinct :: "AggStateTable \<Rightarrow> bool" where
  "tbl_distinct t \<longleftrightarrow> distinct (map fst (single_u64 t)) \<and> distinct (map fst (single_str t)) \<and> distinct (map fst (multi t))"

lemma row_at_map: "row_at t shape = tbl_map t (shape_slot shape)"
  by (cases shape) (simp_all add: row_at_def tbl_map_def shape_slot_def)

lemma tbl_map_set_row [simp]: "tbl_map (set_row shape ops t) = (tbl_map t)(shape_slot shape \<mapsto> ops)"
  by (cases shape) (auto simp: set_row_def tbl_map_def shape_slot_def fun_eq_iff update_conv' split: sum.splits)

lemma tbl_map_cong [simp]: "tbl_map (t\<lparr>tbl_group_keys := ks\<rparr>) = tbl_map t"
  by (simp add: tbl_map_def fun_eq_iff split: sum.splits)

lemma map_of_tagged:
  assumes "inj f"
  shows "map_of (map (\<lambda>(k, v). (f k, v)) xs) (f k) = map_of xs k"
  using assms by (induction xs) (auto dest: injD)

lemma map_of_tagged_None: "x \<notin> range f \<Longrightarrow> map_of (map (\<lambda>(k, v). (f k, v)) xs) x = None"
  by (induction xs) auto

lemma tbl_map_entries: "tbl_map t = map_of (tbl_entries t)"
proof
  fix x :: slot_key
  have inj: "inj (\<lambda>k. Inl k :: slot_key)" "inj (\<lambda>s. Inr (Inl s) :: slot_key)" "inj (\<lambda>ek. Inr (Inr ek) :: slot_key)"
    by (simp_all add: inj_def)
  consider k where "x = Inl k" | st where "x = Inr (Inl st)" | ek where "x = Inr (Inr ek)"
    by (metis sum.exhaust)
  then show "tbl_map t x = map_of (tbl_entries t) x"
    by cases (auto simp: tbl_map_def tbl_entries_def map_add_def map_of_tagged [OF inj(1)] map_of_tagged [OF inj(2)]
        map_of_tagged [OF inj(3)] map_of_tagged_None image_iff split: option.splits)
qed

lemma tbl_entries_distinct: "tbl_distinct t \<Longrightarrow> distinct (map fst (tbl_entries t))"
  by (auto simp: tbl_distinct_def tbl_entries_def distinct_map comp_def case_prod_unfold inj_on_def)

section \<open>Well-formed tables\<close>

definition table_wf :: "AggStateTable \<Rightarrow> bool" where
  "table_wf t \<longleftrightarrow> tbl_distinct t \<and> (\<forall>k \<in> fst ` set (single_u64 t). key_ok k) \<and>
     (\<forall>ek \<in> fst ` set (multi t). map fst ek = tbl_group_keys t \<and> length ek \<noteq> 1) \<and>
     (single_u64 t \<noteq> [] \<or> single_str t \<noteq> [] \<longrightarrow> length (tbl_group_keys t) = 1)"

lemma table_wf_new [simp]: "table_wf table_new"
  by (simp add: table_wf_def table_new_def tbl_distinct_def)

text \<open>A shape that the hot path builds for a descriptor's group keys.\<close>

definition shape_fits :: "string list \<Rightarrow> EntityKeyShape \<Rightarrow> bool" where
  "shape_fits gkeys shape \<longleftrightarrow>
     (case shape of
        SingleU64 k \<Rightarrow> key_ok k \<and> length gkeys = 1
      | SingleStr _ _ \<Rightarrow> length gkeys = 1
      | Multi ek \<Rightarrow> map fst ek = gkeys \<and> length ek \<noteq> 1)"

lemma shape_of_value_fits: "shape_of_value fx v = Some shape \<Longrightarrow> shape_fits [g] shape"
  by (cases v) (auto simp: shape_of_value_def shape_fits_def key_ok_tag key_ok_bool split: if_splits)

lemma multi_from_row_names: "multi_from_row lm ks row = Some ek \<Longrightarrow> map fst ek = ks"
  by (induction ks arbitrary: ek) (auto split: option.splits if_splits)

lemma shape_from_row_fits: "shape_from_row fx lm gkeys row = Some shape \<Longrightarrow> shape_fits gkeys shape"
proof (cases gkeys rule: remdups_adj.cases)
  case 1
  assume "shape_from_row fx lm gkeys row = Some shape"
  with 1 show ?thesis by (auto simp: shape_from_row_def shape_fits_def)
next
  case (2 g)
  assume "shape_from_row fx lm gkeys row = Some shape"
  with 2 show ?thesis by (auto simp: shape_from_row_def dest: shape_of_value_fits split: option.splits)
next
  case (3 a b xs)
  assume "shape_from_row fx lm gkeys row = Some shape"
  with 3 show ?thesis
    by (auto simp: shape_from_row_def shape_fits_def dest!: multi_from_row_names simp del: multi_from_row.simps)
qed

lemma remember_group_keys_wf:
  assumes "table_wf t" and "tbl_group_keys t = [] \<or> tbl_group_keys t = gkeys" and "single_u64 t = [] \<and> single_str t = [] \<and> multi t = [] \<or> tbl_group_keys t = gkeys"
  shows "table_wf (remember_group_keys gkeys t) \<and> tbl_group_keys (remember_group_keys gkeys t) = gkeys"
  using assms by (auto simp: remember_group_keys_def table_wf_def tbl_distinct_def)

lemma set_row_wf:
  assumes "table_wf t" and "shape_fits (tbl_group_keys t) shape"
  shows "table_wf (set_row shape ops t)"
  using assms
  by (cases shape) (auto simp: set_row_def table_wf_def tbl_distinct_def shape_fits_def dom_update distinct_update)

text \<open>The table of an aggregation: empty, or built for the aggregation's group keys.\<close>

definition table_for :: "string list \<Rightarrow> AggStateTable \<Rightarrow> bool" where
  "table_for gkeys t \<longleftrightarrow> table_wf t \<and>
     (tbl_group_keys t = gkeys \<or> tbl_group_keys t = [] \<and> single_u64 t = [] \<and> single_str t = [] \<and> multi t = [])"

lemma table_for_new [simp]: "table_for gkeys table_new"
  by (simp add: table_for_def) (simp add: table_new_def)

lemma get_or_init_ok:
  assumes "table_for (group_keys desc) t" and "shape_fits (group_keys desc) shape"
    and "get_or_init_by_shape env shape desc t = Some (ops, t')"
  shows "table_for (group_keys desc) t' \<and> row_at t' shape = Some ops \<and>
    (case row_at t shape of Some ops0 \<Rightarrow> ops = ops0 | None \<Rightarrow> init_row env desc = Some ops) \<and>
    (\<forall>sl. sl \<noteq> shape_slot shape \<longrightarrow> tbl_map t' sl = tbl_map t sl)"
proof -
  let ?t = "remember_group_keys (group_keys desc) t"
  have wf: "table_wf ?t" "tbl_group_keys ?t = group_keys desc"
    using remember_group_keys_wf [of t "group_keys desc"] assms(1) by (auto simp: table_for_def)
  have map: "tbl_map ?t = tbl_map t" by (simp add: remember_group_keys_def)
  from assms(3) consider "row_at ?t shape = Some ops" "t' = ?t"
    | "row_at ?t shape = None" "init_row env desc = Some ops" "t' = set_row shape ops ?t"
    by (auto simp: get_or_init_by_shape_def Let_def split: option.splits)
  then show ?thesis
  proof cases
    case 1
    then show ?thesis using wf map by (simp add: table_for_def row_at_map)
  next
    case 2
    have "table_wf t'" using set_row_wf [OF wf(1)] wf(2) assms(2) 2(3) by simp
    moreover have "tbl_group_keys t' = group_keys desc"
      using wf(2) 2(3) by (cases shape) (simp_all add: set_row_def)
    ultimately show ?thesis using 2 map by (simp add: table_for_def row_at_map)
  qed
qed

section \<open>Snapshots\<close>

definition restore_entries ::
    "(string \<Rightarrow> u64) \<Rightarrow> libm \<Rightarrow> FieldType list option \<Rightarrow> (EntityKey \<times> AggOp list) list \<Rightarrow> AggStateTable \<Rightarrow> AggStateTable" where
  "restore_entries fx lm types es t = fold (\<lambda>(ek, ops). insert_from_entity_key_with_types fx lm ek ops types) es t"

definition key_slot :: "(string \<Rightarrow> u64) \<Rightarrow> libm \<Rightarrow> FieldType list option \<Rightarrow> EntityKey \<Rightarrow> slot_key" where
  "key_slot fx lm types ek =
     (case ek of
        [(_, v)] \<Rightarrow>
          (case shape_of_value fx (coerce_legacy lm types v) of Some shape \<Rightarrow> shape_slot shape | None \<Rightarrow> Inr (Inr ek))
      | _ \<Rightarrow> Inr (Inr ek))"

lemma insert_entry_map:
  "tbl_map (insert_from_entity_key_with_types fx lm ek ops types t) = (tbl_map t)(key_slot fx lm types ek \<mapsto> ops)"
  by (auto simp: insert_from_entity_key_with_types_def key_slot_def Let_def shape_slot_def split: list.splits option.splits)

lemma insert_entry_group_keys:
  "tbl_group_keys (insert_from_entity_key_with_types fx lm ek ops types t) =
     (if tbl_group_keys t = [] then map fst ek else tbl_group_keys t)"
  by (auto simp: insert_from_entity_key_with_types_def Let_def set_row_def split: list.splits option.splits EntityKeyShape.splits)

lemma fold_map_upd: "distinct (map fst xs) \<Longrightarrow> fold (\<lambda>(k, v) m. m(k \<mapsto> v)) xs m = m ++ map_of xs"
proof (induction xs arbitrary: m)
  case (Cons x xs)
  then have "map_of xs (fst x) = None" by (simp add: map_of_eq_None_iff)
  with Cons show ?case by (cases x) (auto simp: fun_eq_iff map_add_def split: option.splits)
qed simp

lemma restore_entries_map:
  "tbl_map (restore_entries fx lm types es t) =
     fold (\<lambda>(k, v) m. m(k \<mapsto> v)) (map (\<lambda>(ek, ops). (key_slot fx lm types ek, ops)) es) (tbl_map t)"
  by (induction es arbitrary: t) (auto simp: restore_entries_def insert_entry_map)

lemma restore_group_keys:
  assumes "\<forall>e \<in> set es. map fst (fst e) = gk" and "tbl_group_keys t = gk \<or> tbl_group_keys t = [] \<and> es \<noteq> []"
  shows "tbl_group_keys (restore_entries fx lm types es t) = gk"
  using assms
proof (induction es arbitrary: t)
  case (Cons e es)
  have "tbl_group_keys (restore_entries fx lm types es (insert_from_entity_key_with_types fx lm (fst e) (snd e) types t)) = gk"
    by (rule Cons.IH) (use Cons.prems in \<open>auto simp: insert_entry_group_keys\<close>)
  then show ?case by (simp add: restore_entries_def case_prod_unfold)
qed (simp add: restore_entries_def)

lemma coerce_not_str [simp]: "(\<And>s. v \<noteq> VStr s) \<Longrightarrow> coerce_legacy lm types v = v"
  by (cases v) (auto simp: coerce_legacy_def)

lemma key_slot_multi: "length ek \<noteq> 1 \<Longrightarrow> key_slot fx lm types ek = Inr (Inr ek)"
  by (auto simp: key_slot_def split: list.splits)

lemma restored_not_str: "key_ok k \<Longrightarrow> restored_value k \<noteq> VStr s"
  using restored_shape [of k] by (auto simp: shape_of_value_def)

lemma key_slot_u64: "key_ok k \<Longrightarrow> key_slot fx lm types [(g, restored_value k)] = Inl k"
  using restored_shape [of k fx] restored_not_str [of k] by (simp add: key_slot_def shape_slot_def)

lemma key_slot_str:
  "coerce_legacy lm types (VStr st) = VStr st \<Longrightarrow> key_slot fx lm types [(g, VStr st)] = Inr (Inl st)"
  by (simp add: key_slot_def shape_of_value_def shape_slot_def)

lemma snapshot_slots:
  assumes "table_wf t" and "\<forall>st \<in> fst ` set (single_str t). coerce_legacy lm types (VStr st) = VStr st"
  shows "map (\<lambda>(ek, ops). (key_slot fx lm types ek, ops)) (snapshot_entries t) = tbl_entries t"
  using assms
  by (auto simp: snapshot_entries_def tbl_entries_def table_wf_def Let_def key_slot_u64 key_slot_str key_slot_multi)

lemma snapshot_names:
  assumes "table_wf t" and "e \<in> set (snapshot_entries t)"
  shows "map fst (fst e) = tbl_group_keys t"
proof -
  have "tbl_group_keys t = [case tbl_group_keys t of [] \<Rightarrow> [] | k # _ \<Rightarrow> k]" if "length (tbl_group_keys t) = 1"
    using that by (cases "tbl_group_keys t") auto
  then show ?thesis
    using assms by (fastforce simp: snapshot_entries_def table_wf_def Let_def)
qed

lemma set_iter_sorted: "set (iter_sorted t) = set (snapshot_entries t)" and mset_iter_sorted: "mset (iter_sorted t) = mset (snapshot_entries t)"
  by (simp_all add: iter_sorted_def)

section \<open>Properties\<close>

text \<open>C10. Snapshot round trip: writing a table in entity-key order and inserting the entries into an
  empty table, with the source schema's key types at hand or not, restores every entity's
  row under its hot-path slot and nothing else, and the table's group keys, as long as the key types do not turn
  a string key of the table into a value of another type, as they do for keys of older snapshots.\<close>

theorem snapshot_roundtrip:
  assumes "table_wf t" and "\<forall>st \<in> fst ` set (single_str t). coerce_legacy lm types (VStr st) = VStr st"
  shows "tbl_map (restore_entries fx lm types (iter_sorted t) table_new) = tbl_map t \<and>
    (entity_count t \<noteq> 0 \<longrightarrow> tbl_group_keys (restore_entries fx lm types (iter_sorted t) table_new) = tbl_group_keys t)"
proof
  let ?f = "\<lambda>(ek, ops). (key_slot fx lm types ek, ops)"
  have d: "distinct (map fst (tbl_entries t))"
    using assms(1) tbl_entries_distinct by (simp add: table_wf_def)
  have set: "set (map ?f (iter_sorted t)) = set (tbl_entries t)"
    using arg_cong [OF snapshot_slots [OF assms, of fx], of set] by (simp add: set_iter_sorted)
  have "mset (map fst (map ?f (iter_sorted t))) = mset (map fst (tbl_entries t))"
    using arg_cong [OF snapshot_slots [OF assms, of fx], of "\<lambda>l. mset (map fst l)"] by (simp only: mset_map mset_iter_sorted)
  then have d': "distinct (map fst (map ?f (iter_sorted t)))" using d by (metis mset_eq_imp_distinct_iff)
  have "tbl_map (restore_entries fx lm types (iter_sorted t) table_new) = map_of (map ?f (iter_sorted t))"
    unfolding restore_entries_map fold_map_upd [OF d'] by (simp add: tbl_map_entries tbl_entries_def table_new_def)
  also have "\<dots> = map_of (tbl_entries t)" using map_of_inject_set [OF d' d] set by blast
  finally show "tbl_map (restore_entries fx lm types (iter_sorted t) table_new) = tbl_map t" by (simp add: tbl_map_entries)
  show "entity_count t \<noteq> 0 \<longrightarrow> tbl_group_keys (restore_entries fx lm types (iter_sorted t) table_new) = tbl_group_keys t"
  proof
    assume "entity_count t \<noteq> 0"
    then have "set (snapshot_entries t) \<noteq> {}" by (auto simp: entity_count_def snapshot_entries_def Let_def)
    then have "iter_sorted t \<noteq> []" by (metis set_empty set_iter_sorted)
    then show "tbl_group_keys (restore_entries fx lm types (iter_sorted t) table_new) = tbl_group_keys t"
      using snapshot_names [OF assms(1)] by (intro restore_group_keys) (auto simp: set_iter_sorted table_new_def)
  qed
qed

theorem snapshot_roundtrip_witness:
  "\<forall>fx lm. tbl_map (restore_entries fx lm (Some [TI64]) (iter_sorted (table_new\<lparr>single_u64 := [(tag_u64 TagI64 7, [])], tbl_group_keys := [''u'']\<rparr>)) table_new)
     = tbl_map (table_new\<lparr>single_u64 := [(tag_u64 TagI64 7, [])], tbl_group_keys := [''u'']\<rparr>)"
proof (intro allI)
  fix fx lm
  have "table_wf (table_new\<lparr>single_u64 := [(tag_u64 TagI64 7, [])], tbl_group_keys := [''u'']\<rparr>)"
    by (simp add: table_wf_def tbl_distinct_def table_new_def key_ok_tag)
  then show "tbl_map (restore_entries fx lm (Some [TI64]) (iter_sorted (table_new\<lparr>single_u64 := [(tag_u64 TagI64 7, [])], tbl_group_keys := [''u'']\<rparr>)) table_new)
     = tbl_map (table_new\<lparr>single_u64 := [(tag_u64 TagI64 7, [])], tbl_group_keys := [''u'']\<rparr>)"
    using snapshot_roundtrip [of "table_new\<lparr>single_u64 := [(tag_u64 TagI64 7, [])], tbl_group_keys := [''u'']\<rparr>" lm "Some [TI64]" fx]
    by (simp add: table_new_def)
qed

text \<open>Which single keys share an entity: integers exactly when they agree modulo 2^60, likewise
  timestamps, strings and Booleans only when equal; and an integer, a timestamp, a Boolean, a
  float and a string never share one.\<close>

lemma single_key_slots:
  "(map_option shape_slot (shape_of_value fx (VI64 a)) = map_option shape_slot (shape_of_value fx (VI64 b)) \<longleftrightarrow> a mod 2 ^ 60 = b mod 2 ^ 60) \<and>
   (map_option shape_slot (shape_of_value fx (VDatetime a)) = map_option shape_slot (shape_of_value fx (VDatetime b)) \<longleftrightarrow> a mod 2 ^ 60 = b mod 2 ^ 60) \<and>
   (map_option shape_slot (shape_of_value fx (VStr s)) = map_option shape_slot (shape_of_value fx (VStr s')) \<longleftrightarrow> s = s') \<and>
   (map_option shape_slot (shape_of_value fx (VBool x)) = map_option shape_slot (shape_of_value fx (VBool y)) \<longleftrightarrow> x = y) \<and>
   distinct [map_option shape_slot (shape_of_value fx (VI64 a)), map_option shape_slot (shape_of_value fx (VDatetime a)),
     map_option shape_slot (shape_of_value fx (VBool x)), map_option shape_slot (shape_of_value fx (VStr s)),
     map_option shape_slot (shape_of_value fx (VF64 f))]"
proof -
  have int: "take_bit 60 (word_of_int a :: u64) = take_bit 60 (word_of_int b) \<longleftrightarrow> a mod 2 ^ 60 = b mod 2 ^ 60" for a b
    by (simp add: word_uint_eq_iff unsigned_take_bit_eq uint_word_of_int_eq take_bit_take_bit) (simp add: take_bit_eq_mod)
  have bool: "take_bit 60 (bool_u64 x) = take_bit 60 (bool_u64 y) \<longleftrightarrow> x = y"
    by (simp add: bool_u64_def)
  show ?thesis
    by (simp add: shape_of_value_def shape_slot_def tag_u64_inject int bool)
qed

end
