(* ===== verification/OpChain.thy ===== *)
theory OpChain
  imports Exprs
begin

text \<open>
  The operator nodes of \<open>crates/beava-core/src/op_node.rs\<close> and the executor of stateless op
  chains, \<open>crates/beava-core/src/op_chain.rs\<close>: the compiled operators and \<open>OpChain::apply\<close>. The outer option of a result is a panic of the evaluator
  (an overflowing integer division), the inner one the row that a filter dropped. A
  \<open>BTreeMap\<close> argument is the association list of its entries in key order.

  The lemmas describe every operator on rows with distinct field names as an operation on
  the finite map the row stands for, which makes a rename simultaneous.
\<close>

section \<open>Operator nodes\<close>

text \<open>\<open>op_node.rs\<close>: the operators of a registration payload, expressions still in source form.\<close>

record AggSpec =
  spec_op :: string
  spec_params :: Json

datatype OpNode =
    OpFilter string
  | OpSelect "string list"
  | OpDrop "string list"
  | OpRename "(string \<times> string) list"
  | OpWithColumns "(string \<times> string) list"
  | OpMap "(string \<times> string) list"
  | OpCast "(string \<times> string) list"
  | OpFillna "(string \<times> Json) list"
  | OpGroupBy "string list" "(string \<times> AggSpec) list"

section \<open>Compiled operators\<close>

datatype CastTarget = CastStr | CastInt | CastFloat | CastBool

fun as_value_str :: "CastTarget \<Rightarrow> Value" where
  "as_value_str CastStr = VStr ''str''"
| "as_value_str CastInt = VStr ''int''"
| "as_value_str CastFloat = VStr ''float''"
| "as_value_str CastBool = VStr ''bool''"

definition cast_target_from_str :: "string \<Rightarrow> CastTarget option" where
  "cast_target_from_str s =
     (if s = ''str'' then Some CastStr
      else if s = ''int'' then Some CastInt
      else if s = ''float'' then Some CastFloat
      else if s = ''bool'' then Some CastBool
      else None)"

datatype CompiledOp =
    CFilter expr
  | CSelect "string list"
  | CDrop "string list"
  | CRename "(string \<times> string) list"
  | CWithColumns "(string \<times> expr) list"
  | CCast "(string \<times> CastTarget) list"
  | CFillna "(string \<times> Value) list"

type_synonym OpChain = "CompiledOp list"

section \<open>Execution\<close>

text \<open>The scan that both \<open>Select\<close> and \<open>Rename\<close> inline: find the first entry of a field
  and remove it from the row.\<close>

definition take_field :: "string \<Rightarrow> Row \<Rightarrow> (Value \<times> Row) option" where
  "take_field f row =
     (case position (\<lambda>(k, _). k = f) row of
        Some i \<Rightarrow> Some (snd (row ! i), take i row @ drop (Suc i) row)
      | None \<Rightarrow> None)"

fun select_fields :: "string list \<Rightarrow> Row \<Rightarrow> Row \<Rightarrow> Row" where
  "select_fields [] row new_row = new_row"
| "select_fields (f # fs) row new_row =
     (case take_field f row of
        Some (v, row') \<Rightarrow> select_fields fs row' (with_field new_row f v)
      | None \<Rightarrow> select_fields fs row new_row)"

fun drop_fields :: "string list \<Rightarrow> Row \<Rightarrow> Row" where
  "drop_fields [] row = row"
| "drop_fields (f # fs) row = drop_fields fs (without_field row f)"

fun collect_renames :: "(string \<times> string) list \<Rightarrow> Row \<Rightarrow> (string \<times> Value) list \<times> Row" where
  "collect_renames [] row = ([], row)"
| "collect_renames ((old, new) # mapping) row =
     (case take_field old row of
        Some (v, row') \<Rightarrow> (let (rs, row'') = collect_renames mapping row' in ((new, v) # rs, row''))
      | None \<Rightarrow> collect_renames mapping row)"

definition rename_fields :: "(string \<times> string) list \<Rightarrow> Row \<Rightarrow> Row" where
  "rename_fields mapping row =
     (let (renames, row') = collect_renames mapping row in fold (\<lambda>(new, v) r. with_field r new v) renames row')"

fun add_columns :: "libm \<Rightarrow> (string \<times> expr) list \<Rightarrow> Row \<Rightarrow> Row option" where
  "add_columns lm [] row = Some row"
| "add_columns lm ((name, ast) # exprs) row =
     (case eval lm ast row of
        None \<Rightarrow> None
      | Some v \<Rightarrow> add_columns lm exprs (with_field row name v))"

definition cast_field :: "libm \<Rightarrow> string \<times> CastTarget \<Rightarrow> Row \<Rightarrow> Row" where
  "cast_field lm entry row =
     (case row_get row (fst entry) of
        Some field_val \<Rightarrow>
          with_field row (fst entry)
            (case lookup_builtin lm ''cast'' of
               Some (_, f) \<Rightarrow> f [field_val, as_value_str (snd entry)]
             | None \<Rightarrow> VNull)
      | None \<Rightarrow> row)"

definition fill_field :: "string \<times> Value \<Rightarrow> Row \<Rightarrow> Row" where
  "fill_field entry row = (if row_get row (fst entry) = Some VNull then with_field row (fst entry) (snd entry) else row)"

fun apply_op :: "libm \<Rightarrow> CompiledOp \<Rightarrow> Row \<Rightarrow> Row option option" where
  "apply_op lm (CFilter ast) row = map_option (\<lambda>v. if v = VBool True then Some row else None) (eval lm ast row)"
| "apply_op lm (CSelect fs) row = Some (Some (select_fields fs row []))"
| "apply_op lm (CDrop fs) row = Some (Some (drop_fields fs row))"
| "apply_op lm (CRename mapping) row = Some (Some (rename_fields mapping row))"
| "apply_op lm (CWithColumns exprs) row = map_option Some (add_columns lm exprs row)"
| "apply_op lm (CCast entries) row = Some (Some (fold (cast_field lm) entries row))"
| "apply_op lm (CFillna defaults) row = Some (Some (fold fill_field defaults row))"

fun chain_apply :: "libm \<Rightarrow> OpChain \<Rightarrow> Row \<Rightarrow> Row option option" where
  "chain_apply lm [] row = Some (Some row)"
| "chain_apply lm (op # ops) row =
     (case apply_op lm op row of
        None \<Rightarrow> None
      | Some None \<Rightarrow> Some None
      | Some (Some row') \<Rightarrow> chain_apply lm ops row')"

fun json_to_value :: "Json \<Rightarrow> Value" where
  "json_to_value JNull = VNull"
| "json_to_value (JBool b) = VBool b"
| "json_to_value (JNumber i f) =
     (case i of Some n \<Rightarrow> VI64 n | None \<Rightarrow> (case f of Some x \<Rightarrow> VF64 x | None \<Rightarrow> VNull))"
| "json_to_value (JString s) = VStr s"
| "json_to_value _ = VNull"

section \<open>Operators as operations on maps\<close>

lemma take_field_eq: "take_field f row = map_option (\<lambda>v. (v, without_field row f)) (row_get row f)"
proof (induction row)
  case (Cons p row)
  then show ?case
    by (cases p; cases "map_of row f") (auto simp: take_field_def row_get_map_of without_field_Cons without_field_def split: option.splits)
qed (simp add: take_field_def row_get_map_of)

lemma select_fields_get:
  assumes "row_wf row" and "row_wf new_row" and "\<forall>f. row_get new_row f \<noteq> None \<longrightarrow> row_get row f = None"
  shows "row_get (select_fields fs row new_row) = row_get new_row ++ row_get row |` set fs \<and> row_wf (select_fields fs row new_row)"
  using assms
proof (induction fs arbitrary: row new_row)
  case (Cons f fs)
  show ?case
  proof (cases "row_get row f")
    case None
    then have "row_get row |` set (f # fs) = row_get row |` set fs" by (auto simp: restrict_map_def fun_eq_iff)
    with None Cons show ?thesis by (simp add: take_field_eq)
  next
    case (Some v)
    have "row_get (with_field new_row f v) ++ row_get (without_field row f) |` set fs = row_get new_row ++ row_get row |` set (f # fs)"
      using Some Cons.prems by (auto simp: row_laws restrict_map_def map_add_def fun_eq_iff split: option.splits)
    moreover have "\<forall>g. row_get (with_field new_row f v) g \<noteq> None \<longrightarrow> row_get (without_field row f) g = None"
      using Cons.prems by (auto simp: row_laws)
    ultimately show ?thesis
      using Some Cons.IH [of "without_field row f" "with_field new_row f v"] Cons.prems
      by (simp add: take_field_eq wf_intros)
  qed
qed simp

lemma drop_fields_get:
  "row_wf row \<Longrightarrow> row_get (drop_fields fs row) = row_get row |` (- set fs) \<and> row_wf (drop_fields fs row)"
proof (induction fs arbitrary: row)
  case (Cons f fs)
  have "row_get (without_field row f) |` (- set fs) = row_get row |` (- set (f # fs))"
    using Cons.prems by (auto simp: row_laws restrict_map_def fun_eq_iff)
  then show ?case using Cons.IH [of "without_field row f"] Cons.prems by (simp add: wf_intros)
qed (simp add: restrict_map_def)

lemma map_filter_cong_set: "(\<And>x. x \<in> set xs \<Longrightarrow> f x = g x) \<Longrightarrow> List.map_filter f xs = List.map_filter g xs"
  by (induction xs) (auto simp: List.map_filter_simps split: option.splits)

lemma collect_renames_get:
  assumes "row_wf row" and "distinct (map fst mapping)"
  shows "fst (collect_renames mapping row) = List.map_filter (\<lambda>(old, new). map_option (Pair new) (row_get row old)) mapping \<and>
    row_get (snd (collect_renames mapping row)) = row_get row |` (- fst ` set mapping) \<and> row_wf (snd (collect_renames mapping row))"
  using assms
proof (induction mapping arbitrary: row)
  case (Cons m mapping)
  obtain old new where m: "m = (old, new)" by (cases m)
  have restr: "row_get (without_field row old) |` (- fst ` set mapping) = row_get row |` (- insert old (fst ` set mapping))"
    using Cons.prems(1) by (auto simp: row_laws restrict_map_def fun_eq_iff)
  have restr': "row_get row |` (- fst ` set mapping) = row_get row |` (- insert old (fst ` set mapping))" if "row_get row old = None"
    using that by (auto simp: restrict_map_def fun_eq_iff)
  have filt: "List.map_filter (\<lambda>(o', new). map_option (Pair new) (row_get (without_field row old) o')) mapping
      = List.map_filter (\<lambda>(o', new). map_option (Pair new) (row_get row o')) mapping"
    using Cons.prems by (intro map_filter_cong_set) (auto simp: m row_laws rev_image_eqI)
  show ?case
    using Cons.IH [of "without_field row old"] Cons.IH [of row] Cons.prems restr restr' filt
    by (auto simp: m take_field_eq wf_intros List.map_filter_simps split: option.splits prod.splits)
qed (simp add: List.map_filter_simps restrict_map_def)

lemma fold_with_field_get:
  "row_wf row \<Longrightarrow> row_get (fold (\<lambda>(new, v) r. with_field r new v) rs row) = row_get row ++ map_of (rev rs)
     \<and> row_wf (fold (\<lambda>(new, v) r. with_field r new v) rs row)"
proof (induction rs arbitrary: row)
  case (Cons p rs)
  then show ?case by (cases p) (simp add: row_get_with_field wf_intros fun_upd_def map_add_def fun_eq_iff split: option.splits)
qed simp

definition renamed_map :: "(string \<times> string) list \<Rightarrow> (string \<rightharpoonup> Value) \<Rightarrow> (string \<rightharpoonup> Value)" where
  "renamed_map mapping m =
     m |` (- fst ` set mapping) ++ map_of (rev (List.map_filter (\<lambda>(old, new). map_option (Pair new) (m old)) mapping))"

lemma rename_fields_get:
  assumes "row_wf row" and "distinct (map fst mapping)"
  shows "row_get (rename_fields mapping row) = renamed_map mapping (row_get row) \<and> row_wf (rename_fields mapping row)"
  using collect_renames_get [OF assms] fold_with_field_get
  by (simp add: rename_fields_def renamed_map_def case_prod_unfold)

lemma lookup_cast [simp]: "lookup_builtin lm ''cast'' = Some (2, cast_eval lm)"
  by (simp add: lookup_builtin_def BUILTINS_def)

lemma cast_field_get:
  "row_get (cast_field lm (f, t) row) = (\<lambda>g. if g = f then map_option (\<lambda>v. cast_eval lm [v, as_value_str t]) (row_get row f) else row_get row g)"
  by (auto simp: cast_field_def row_laws fun_eq_iff split: option.splits)

lemma fill_field_get:
  "row_get (fill_field (f, d) row) = (\<lambda>g. if g = f \<and> row_get row f = Some VNull then Some d else row_get row g)"
  by (auto simp: fill_field_def row_laws fun_eq_iff)

lemma cast_field_wf [wf_intros]: "row_wf row \<Longrightarrow> row_wf (cast_field lm e row)"
  by (auto simp: cast_field_def split: option.splits intro: wf_intros)

lemma fill_field_wf [wf_intros]: "row_wf row \<Longrightarrow> row_wf (fill_field e row)"
  by (auto simp: fill_field_def intro: wf_intros)

lemma chain_apply_append:
  "chain_apply lm (as @ bs) row =
     (case chain_apply lm as row of Some (Some row') \<Rightarrow> chain_apply lm bs row' | r \<Rightarrow> r)"
  by (induction as arbitrary: row) (auto split: option.splits)

section \<open>Properties\<close>

text \<open>Projection operators on rows: selecting keeps exactly the named fields that exist,
  dropping removes exactly the named ones, and a rename is simultaneous: a swap of two fields
  exchanges their values although the executor moves one field at a time.\<close>

lemma projection_ops:
  assumes "row_wf row" and "row_get row a = Some x" and "row_get row b = Some y" and "a \<noteq> b"
  shows "(\<exists>r. apply_op lm (CSelect fs) row = Some (Some r) \<and> row_wf r \<and> row_get r = row_get row |` set fs) \<and>
    (\<exists>r. apply_op lm (CDrop fs) row = Some (Some r) \<and> row_wf r \<and> row_get r = row_get row |` (- set fs)) \<and>
    (\<exists>r. apply_op lm (CRename [(a, b), (b, a)]) row = Some (Some r) \<and> row_wf r \<and> row_get r = (row_get row)(a \<mapsto> y, b \<mapsto> x))"
proof (intro conjI)
  show "\<exists>r. apply_op lm (CSelect fs) row = Some (Some r) \<and> row_wf r \<and> row_get r = row_get row |` set fs"
    using select_fields_get [of row "[]" fs] assms(1) by (simp add: row_wf_def row_get_map_of map_add_def fun_eq_iff split: option.splits)
  show "\<exists>r. apply_op lm (CDrop fs) row = Some (Some r) \<and> row_wf r \<and> row_get r = row_get row |` (- set fs)"
    using drop_fields_get [OF assms(1)] by simp
  show "\<exists>r. apply_op lm (CRename [(a, b), (b, a)]) row = Some (Some r) \<and> row_wf r \<and> row_get r = (row_get row)(a \<mapsto> y, b \<mapsto> x)"
    using rename_fields_get [of row "[(a, b), (b, a)]"] assms
    by (auto simp: renamed_map_def List.map_filter_simps restrict_map_def map_add_def fun_eq_iff)
qed

end
