(* ===== verification/Registry.thy ===== *)
theory Registry
  imports StateTable OpChain Schemas
begin

text \<open>
  The registry of \<open>crates/beava-core/src/registry.rs\<close>: descriptors, the state behind the
  registry's lock, registration with its field-index resolution, removal and reset, and the
  lookups of the hot path. A \<open>BTreeMap\<close> is an association list sorted by key, a
  \<open>HashMap\<close> an association list. Version, aggregation and cluster counters are naturals: no
  process performs \<open>2\<^sup>3\<^sup>2\<close> registrations. Field positions are stored in a byte, which is
  the \<open>mod 256\<close> of the resolver. The hash of the fxhash package that identifies a list of
  group keys is the parameter \<open>cluster_signature\<close>. Reference counts are not modelled.

  The lemmas show that registration keeps the two aggregation indices and the positions of
  every feature consistent with the source event's field list.
\<close>

section \<open>Descriptors\<close>

datatype OutputKind = OutEvent | OutTable

datatype TableMode = Upsert

record EventDescriptor =
  ev_name :: string
  ev_schema :: EventSchema
  dedupe_key :: "string option"
  dedupe_window_ms :: "u64 option"
  keep_events_for_ms :: "u64 option"
  cold_after_ms :: "u64 option"
  ev_version :: nat
  name_arc :: string
  apply_field_names :: "string list"

definition event_equiv_ignoring_version :: "EventDescriptor \<Rightarrow> EventDescriptor \<Rightarrow> bool" where
  "event_equiv_ignoring_version a b \<longleftrightarrow>
     ev_name a = ev_name b \<and> ev_schema a = ev_schema b \<and> dedupe_key a = dedupe_key b \<and>
     dedupe_window_ms a = dedupe_window_ms b \<and> keep_events_for_ms a = keep_events_for_ms b \<and>
     cold_after_ms a = cold_after_ms b"

record TableDescriptor =
  tab_name :: string
  primary_key :: "string list"
  tab_schema :: TableSchema
  ttl_ms :: "u64 option"
  tab_mode :: TableMode
  tab_version :: nat
  temporal :: bool
  retention_ms :: "u64 option"

definition table_equiv_ignoring_version :: "TableDescriptor \<Rightarrow> TableDescriptor \<Rightarrow> bool" where
  "table_equiv_ignoring_version a b \<longleftrightarrow>
     tab_name a = tab_name b \<and> primary_key a = primary_key b \<and> tab_schema a = tab_schema b \<and>
     ttl_ms a = ttl_ms b \<and> tab_mode a = tab_mode b \<and> temporal a = temporal b \<and> retention_ms a = retention_ms b"

record DerivationDescriptor =
  der_name :: string
  output_kind :: OutputKind
  upstreams :: "string list"
  der_ops :: "OpNode list"
  der_schema :: DerivedSchema
  table_primary_key :: "string list option"
  der_version :: nat

definition derivation_equiv_ignoring_version :: "DerivationDescriptor \<Rightarrow> DerivationDescriptor \<Rightarrow> bool" where
  "derivation_equiv_ignoring_version a b \<longleftrightarrow>
     der_name a = der_name b \<and> output_kind a = output_kind b \<and> upstreams a = upstreams b \<and>
     der_ops a = der_ops b \<and> der_schema a = der_schema b \<and> table_primary_key a = table_primary_key b"

text \<open>\<open>registry_diff.rs\<close>: a node of a registration payload.\<close>

datatype PayloadNode =
    NEvent EventDescriptor
  | NTable TableDescriptor
  | NDerivation DerivationDescriptor

fun payload_name :: "PayloadNode \<Rightarrow> string" where
  "payload_name (NEvent e) = ev_name e"
| "payload_name (NTable t) = tab_name t"
| "payload_name (NDerivation d) = der_name d"

record RegistryInner =
  reg_version :: nat
  reg_events :: "(string \<times> EventDescriptor) list"
  reg_tables :: "(string \<times> TableDescriptor) list"
  derivations :: "(string \<times> DerivationDescriptor) list"
  compiled_chains :: "(string \<times> OpChain) list"
  compiled_aggregations :: "(string \<times> AggregationDescriptor) list"
  feature_index :: "(string \<times> string \<times> nat) list"
  aggregations_by_source :: "(string \<times> AggregationDescriptor list) list"
  next_agg_id :: nat
  cluster_id_by_signature :: "(u64 \<times> nat) list"
  next_cluster_id :: nat

definition registry_default :: RegistryInner where
  "registry_default =
     \<lparr>reg_version = 0, reg_events = [], reg_tables = [], derivations = [], compiled_chains = [],
      compiled_aggregations = [], feature_index = [], aggregations_by_source = [], next_agg_id = 0,
      cluster_id_by_signature = [], next_cluster_id = 0\<rparr>"

section \<open>Lookups\<close>

definition node_count :: "RegistryInner \<Rightarrow> nat" where
  "node_count w = length (reg_events w) + length (reg_tables w) + length (derivations w)"

definition compiled_chain :: "RegistryInner \<Rightarrow> string \<Rightarrow> OpChain option" where
  "compiled_chain w derivation_name = map_of (compiled_chains w) derivation_name"

definition compiled_aggregation :: "RegistryInner \<Rightarrow> string \<Rightarrow> AggregationDescriptor option" where
  "compiled_aggregation w derivation_name = map_of (compiled_aggregations w) derivation_name"

definition get_event_descriptor :: "RegistryInner \<Rightarrow> string \<Rightarrow> EventDescriptor option" where
  "get_event_descriptor w name = map_of (reg_events w) name"

definition resolve_feature :: "RegistryInner \<Rightarrow> string \<Rightarrow> (string \<times> nat) option" where
  "resolve_feature w name = map_of (feature_index w) name"

definition compiled_aggregations_for_source :: "RegistryInner \<Rightarrow> string \<Rightarrow> AggregationDescriptor list" where
  "compiled_aggregations_for_source w source_name =
     (case map_of (aggregations_by_source w) source_name of None \<Rightarrow> [] | Some aggs \<Rightarrow> aggs)"

definition compiled_aggregations_for_source_at_rv :: "RegistryInner \<Rightarrow> string \<Rightarrow> nat \<Rightarrow> AggregationDescriptor list" where
  "compiled_aggregations_for_source_at_rv w source_name max_rv =
     (case map_of (aggregations_by_source w) source_name of
        None \<Rightarrow> []
      | Some aggs \<Rightarrow>
          filter (\<lambda>a. case map_of (derivations w) (node_name a) of None \<Rightarrow> False | Some d \<Rightarrow> der_version d \<le> max_rv) aggs)"

section \<open>Field positions\<close>

datatype ResolveError =
    FieldNotInSchema string string string string
  | LatNotInSchema string string string string
  | LonNotInSchema string string string string

text \<open>The first missing reference, in the order the source reports it: the feature's field,
  then its latitude, then its longitude field.\<close>

fun check_features :: "(string \<times> FieldType) list \<Rightarrow> AggregationDescriptor \<Rightarrow> NamedAggOp list \<Rightarrow> ResolveError + unit" where
  "check_features flds agg [] = Inr ()"
| "check_features flds agg (feat # feats) =
     (let d = descriptor feat;
          missing = (\<lambda>f. case f of None \<Rightarrow> None | Some n \<Rightarrow> if n \<in> fst ` set flds then None else Some n) in
      case missing (desc_field d) of
        Some f \<Rightarrow> Inl (FieldNotInSchema (node_name agg) f (feature_name feat) (source_node_name agg))
      | None \<Rightarrow>
          (case missing (ext_lat_field (desc_ext d)) of
             Some f \<Rightarrow> Inl (LatNotInSchema (node_name agg) f (feature_name feat) (source_node_name agg))
           | None \<Rightarrow>
               (case missing (ext_lon_field (desc_ext d)) of
                  Some f \<Rightarrow> Inl (LonNotInSchema (node_name agg) f (feature_name feat) (source_node_name agg))
                | None \<Rightarrow> check_features flds agg feats)))"

definition resolve_field_indices_for_agg :: "AggregationDescriptor \<Rightarrow> EventSchema \<Rightarrow> ResolveError + unit" where
  "resolve_field_indices_for_agg agg schema = check_features (es_fields schema) agg (features agg)"

text \<open>Position of a name in the list being built, appended when it is new.\<close>

definition intern_field :: "string \<Rightarrow> string list \<Rightarrow> nat \<times> string list" where
  "intern_field f names = (case position (\<lambda>g. g = f) names of Some i \<Rightarrow> (i, names) | None \<Rightarrow> (length names, names @ [f]))"

definition set_geo_idx :: "nat \<Rightarrow> nat \<Rightarrow> AggOpDescriptor \<Rightarrow> AggOpDescriptor" where
  "set_geo_idx i j d = d\<lparr>desc_ext := (desc_ext d)\<lparr>ext_lat_idx := i, ext_lon_idx := j\<rparr>\<rparr>"

definition local_indices :: "NamedAggOp \<Rightarrow> string list \<Rightarrow> NamedAggOp \<times> string list" where
  "local_indices feat names =
     (let d = (descriptor feat)\<lparr>field_idx_into_event_extracted := []\<rparr>;
          (d1, names1) = (case desc_field d of
             Some f \<Rightarrow> (let (i, ns) = intern_field f names in (d\<lparr>field_idx := i mod 256\<rparr>, ns))
           | None \<Rightarrow> (d\<lparr>field_idx := FIELD_IDX_NONE\<rparr>, names));
          (d2, names2) = (case (ext_lat_field (desc_ext d), ext_lon_field (desc_ext d)) of
             (Some lat, Some lon) \<Rightarrow>
               (let (i, ns) = intern_field lat names1; (j, ns') = intern_field lon ns
                in (set_geo_idx (i mod 256) (j mod 256) d1, ns'))
           | _ \<Rightarrow> (set_geo_idx FIELD_IDX_NONE FIELD_IDX_NONE d1, names1))
      in (feat\<lparr>descriptor := d2\<rparr>, names2))"

fun local_indices_all :: "NamedAggOp list \<Rightarrow> string list \<Rightarrow> NamedAggOp list \<times> string list" where
  "local_indices_all [] names = ([], names)"
| "local_indices_all (feat # feats) names =
     (let (feat', names') = local_indices feat names; (feats', names'') = local_indices_all feats names'
      in (feat' # feats', names''))"

definition union_lookup :: "string list \<Rightarrow> string \<Rightarrow> nat option" where
  "union_lookup source_union f = map_option (\<lambda>i. i mod 256) (map_of (rev (zip source_union [0..<length source_union])) f)"

definition has_field :: "AggOpDescriptor \<Rightarrow> bool" where
  "has_field d \<longleftrightarrow> desc_field d \<noteq> None \<or> ext_lat_field (desc_ext d) \<noteq> None \<or> ext_lon_field (desc_ext d) \<noteq> None"

definition union_indices :: "string list \<Rightarrow> string list \<Rightarrow> NamedAggOp \<Rightarrow> NamedAggOp" where
  "union_indices source_union names feat =
     (let d = descriptor feat in
      if \<not> has_field d then feat
      else
        let d1 = d\<lparr>field_idx_into_event_extracted :=
                     map (\<lambda>f. case union_lookup source_union f of Some u \<Rightarrow> u | None \<Rightarrow> FIELD_IDX_NONE) names\<rparr>
        in feat\<lparr>descriptor :=
             (case (ext_lat_field (desc_ext d), ext_lon_field (desc_ext d)) of
                (Some lat, Some lon) \<Rightarrow>
                  (case (union_lookup source_union lat, union_lookup source_union lon) of
                     (Some i, Some j) \<Rightarrow> set_geo_idx i j d1
                   | _ \<Rightarrow> d1)
              | _ \<Rightarrow> d1)\<rparr>)"

definition assign_indices :: "string list \<Rightarrow> AggregationDescriptor \<Rightarrow> AggregationDescriptor" where
  "assign_indices source_union agg =
     (let (feats, names) = local_indices_all (features agg) [];
          feats' = (if source_union \<noteq> [] then map (union_indices source_union names) feats else feats)
      in agg\<lparr>features := feats', field_names := names\<rparr>)"

definition resolve_field_indices_for_agg_mut ::
    "AggregationDescriptor \<Rightarrow> EventSchema \<Rightarrow> string list \<Rightarrow> ResolveError + AggregationDescriptor" where
  "resolve_field_indices_for_agg_mut agg schema source_union =
     (case resolve_field_indices_for_agg agg schema of
        Inl e \<Rightarrow> Inl e
      | Inr _ \<Rightarrow> Inr (assign_indices source_union agg))"

text \<open>The copy of the resolver that registration calls under the lock, where an error leaves
  the descriptor as it was.\<close>

definition resolve_field_indices_for_agg_mut_inner ::
    "AggregationDescriptor \<Rightarrow> EventSchema \<Rightarrow> string list \<Rightarrow> AggregationDescriptor" where
  "resolve_field_indices_for_agg_mut_inner agg schema source_union =
     (case check_features (es_fields schema) agg (features agg) of
        Inl _ \<Rightarrow> agg
      | Inr _ \<Rightarrow> assign_indices source_union agg)"

definition validate_group_keys_for_agg :: "AggregationDescriptor \<Rightarrow> EventSchema \<Rightarrow> (string \<times> string) + unit" where
  "validate_group_keys_for_agg agg schema =
     (case List.find (\<lambda>key. map_of (es_fields schema) key = Some TF64) (group_keys agg) of
        Some key \<Rightarrow> Inl (node_name agg, key)
      | None \<Rightarrow> Inr ())"

section \<open>Registration\<close>

definition declared_fields :: "AggregationDescriptor \<Rightarrow> string list" where
  "declared_fields agg =
     concat (map (\<lambda>feat. let d = descriptor feat in
       List.map_filter id [desc_field d, ext_lat_field (desc_ext d), ext_lon_field (desc_ext d)]) (features agg))"

text \<open>A \<open>BTreeSet\<close> of names, iterated.\<close>

definition name_set :: "string list \<Rightarrow> string list" where
  "name_set xs = sort (remdups xs)"

definition new_union_per_source :: "(string \<times> AggregationDescriptor) list \<Rightarrow> string \<Rightarrow> string list option" where
  "new_union_per_source aggs source =
     (let mine = filter (\<lambda>a. source_node_name (snd a) = source) aggs in
      if mine = [] then None else Some (name_set (concat (map (\<lambda>a. declared_fields (snd a)) mine))))"

definition install_event :: "nat \<Rightarrow> (string \<times> AggregationDescriptor) list \<Rightarrow> EventDescriptor \<Rightarrow> RegistryInner \<Rightarrow> RegistryInner" where
  "install_event new_version aggs e w =
     (if map_of (reg_events w) (ev_name e) \<noteq> None then w
      else
        let e1 = e\<lparr>ev_version := new_version, name_arc := ev_name e\<rparr>;
            e2 = (case new_union_per_source aggs (ev_name e) of Some u \<Rightarrow> e1\<lparr>apply_field_names := u\<rparr> | None \<Rightarrow> e1)
        in w\<lparr>reg_events := btree_insert (ev_name e) e2 (reg_events w)\<rparr>)"

definition install_table :: "nat \<Rightarrow> TableDescriptor \<Rightarrow> RegistryInner \<Rightarrow> RegistryInner" where
  "install_table new_version t w =
     (if map_of (reg_tables w) (tab_name t) \<noteq> None then w
      else w\<lparr>reg_tables := btree_insert (tab_name t) (t\<lparr>tab_version := new_version\<rparr>) (reg_tables w)\<rparr>)"

definition assign_cluster :: "(string list \<Rightarrow> u64) \<Rightarrow> string list \<Rightarrow> RegistryInner \<Rightarrow> nat \<times> RegistryInner" where
  "assign_cluster cluster_signature gkeys w =
     (let sig = cluster_signature gkeys in
      case map_of (cluster_id_by_signature w) sig of
        Some existing \<Rightarrow> (existing, w)
      | None \<Rightarrow>
          (next_cluster_id w,
           w\<lparr>next_cluster_id := Suc (next_cluster_id w),
             cluster_id_by_signature := AList.update sig (next_cluster_id w) (cluster_id_by_signature w)\<rparr>))"

definition install_aggregation ::
    "(string list \<Rightarrow> u64) \<Rightarrow> string \<Rightarrow> AggregationDescriptor \<Rightarrow> RegistryInner \<Rightarrow> RegistryInner" where
  "install_aggregation cluster_signature name agg w0 =
     (let agg1 = agg\<lparr>agg_id := next_agg_id w0\<rparr>;
          w1 = w0\<lparr>next_agg_id := Suc (next_agg_id w0)\<rparr>;
          (cid, w2) = assign_cluster cluster_signature (group_keys agg1) w1;
          agg2 = agg1\<lparr>cluster_id := cid\<rparr>;
          agg3 = (case map_of (reg_events w2) (source_node_name agg2) of
                    Some src_event \<Rightarrow>
                      resolve_field_indices_for_agg_mut_inner agg2 (ev_schema src_event) (apply_field_names src_event)
                  | None \<Rightarrow> agg2);
          old = (case map_of (aggregations_by_source w2) (source_node_name agg3) of None \<Rightarrow> [] | Some aggs \<Rightarrow> aggs)
      in w2\<lparr>aggregations_by_source := AList.update (source_node_name agg3) (old @ [agg3]) (aggregations_by_source w2),
            compiled_aggregations := btree_insert name agg3 (compiled_aggregations w2)\<rparr>)"

text \<open>The state a registration pass carries: the registry and the names of the aggregations it
  installed. \<open>HashMap::remove\<close> on the payload's chains and aggregations is a lookup, since a
  derivation's name is installed at most once.\<close>

definition install_derivation ::
    "(string list \<Rightarrow> u64) \<Rightarrow> nat \<Rightarrow> (string \<times> OpChain) list \<Rightarrow> (string \<times> DerivedSchema) list \<Rightarrow>
     (string \<times> AggregationDescriptor) list \<Rightarrow> DerivationDescriptor \<Rightarrow> RegistryInner \<times> string list \<Rightarrow> RegistryInner \<times> string list" where
  "install_derivation cluster_signature new_version chs schemas aggs d s =
     (let (w, newly) = s in
      if map_of (derivations w) (der_name d) \<noteq> None then s
      else
        let d1 = d\<lparr>der_version := new_version\<rparr>;
            d2 = (case map_of (rev schemas) (der_name d) of Some sch \<Rightarrow> d1\<lparr>der_schema := sch\<rparr> | None \<Rightarrow> d1);
            w1 = (case map_of (rev chs) (der_name d) of
                    Some c \<Rightarrow> w\<lparr>compiled_chains := btree_insert (der_name d) c (compiled_chains w)\<rparr>
                  | None \<Rightarrow> w);
            (w2, newly2) = (case map_of (rev aggs) (der_name d) of
                    Some agg \<Rightarrow> (install_aggregation cluster_signature (der_name d) agg w1, newly @ [der_name d])
                  | None \<Rightarrow> (w1, newly))
        in (w2\<lparr>derivations := btree_insert (der_name d) d2 (derivations w2)\<rparr>, newly2))"

definition install_node ::
    "(string list \<Rightarrow> u64) \<Rightarrow> nat \<Rightarrow> (string \<times> OpChain) list \<Rightarrow> (string \<times> DerivedSchema) list \<Rightarrow>
     (string \<times> AggregationDescriptor) list \<Rightarrow> PayloadNode \<Rightarrow> RegistryInner \<times> string list \<Rightarrow> RegistryInner \<times> string list" where
  "install_node cluster_signature new_version chs schemas aggs n s =
     (case n of
        NEvent e \<Rightarrow> (install_event new_version aggs e (fst s), snd s)
      | NTable t \<Rightarrow> (install_table new_version t (fst s), snd s)
      | NDerivation d \<Rightarrow> install_derivation cluster_signature new_version chs schemas aggs d s)"

text \<open>The pass after the loop: the field list of a source is rebuilt from all its aggregations,
  and their positions are resolved again against it, in both indices.\<close>

definition refresh_source :: "string \<Rightarrow> RegistryInner \<Rightarrow> RegistryInner" where
  "refresh_source source_name w =
     (let aggs = (case map_of (aggregations_by_source w) source_name of None \<Rightarrow> [] | Some aggs \<Rightarrow> aggs);
          new_fields = name_set (concat (map declared_fields aggs));
          w1 = (case map_of (reg_events w) source_name of
                  Some e \<Rightarrow>
                    if apply_field_names e \<noteq> new_fields
                    then w\<lparr>reg_events := btree_insert source_name (e\<lparr>apply_field_names := new_fields\<rparr>) (reg_events w)\<rparr>
                    else w
                | None \<Rightarrow> w)
      in case map_of (reg_events w1) source_name of
           None \<Rightarrow> w1
         | Some e \<Rightarrow>
             let new_aggs = map (\<lambda>a. resolve_field_indices_for_agg_mut_inner a (ev_schema e) new_fields) aggs;
                 w2 = (if map_of (aggregations_by_source w1) source_name = None then w1
                       else w1\<lparr>aggregations_by_source := AList.update source_name new_aggs (aggregations_by_source w1)\<rparr>)
             in w2\<lparr>compiled_aggregations := fold (\<lambda>a m. if map_of m (node_name a) = None then m else btree_insert (node_name a) a m)
                      new_aggs (compiled_aggregations w2)\<rparr>)"

definition affected_sources :: "string list \<Rightarrow> RegistryInner \<Rightarrow> string list" where
  "affected_sources newly w =
     name_set (List.map_filter (\<lambda>n. map_option source_node_name (map_of (compiled_aggregations w) n)) newly)"

definition new_index_entries :: "string list \<Rightarrow> RegistryInner \<Rightarrow> (string \<times> string \<times> nat) list" where
  "new_index_entries newly w =
     concat (map (\<lambda>n. case map_of (compiled_aggregations w) n of
       None \<Rightarrow> []
     | Some d \<Rightarrow> map (\<lambda>(i, f). (feature_name f, n, i)) (enumerate 0 (features d))) newly)"

definition index_features :: "string list \<Rightarrow> RegistryInner \<Rightarrow> RegistryInner" where
  "index_features newly w =
     w\<lparr>feature_index := fold (\<lambda>(f, n, i) m. if map_of m f = None then btree_insert f (n, i) m else m)
         (new_index_entries newly w) (feature_index w)\<rparr>"

definition apply_registration ::
    "(string list \<Rightarrow> u64) \<Rightarrow> PayloadNode list \<Rightarrow> (string \<times> OpChain) list \<Rightarrow> (string \<times> DerivedSchema) list \<Rightarrow>
     (string \<times> AggregationDescriptor) list \<Rightarrow> RegistryInner \<Rightarrow> nat \<times> RegistryInner" where
  "apply_registration cluster_signature nodes chs schemas aggs w =
     (let new_version = Suc (reg_version w);
          (w1, newly) = fold (install_node cluster_signature new_version chs schemas aggs) nodes (w, []);
          w2 = fold refresh_source (affected_sources newly w1) w1;
          w3 = index_features newly w2
      in (new_version, w3\<lparr>reg_version := new_version\<rparr>))"

definition install_descriptors ::
    "nat \<Rightarrow> EventDescriptor list \<Rightarrow> TableDescriptor list \<Rightarrow> DerivationDescriptor list \<Rightarrow> RegistryInner \<Rightarrow> RegistryInner" where
  "install_descriptors new_version es ts ds w =
     w\<lparr>reg_events := fold (\<lambda>e. btree_insert (ev_name e) (e\<lparr>ev_version := new_version, name_arc := ev_name e\<rparr>)) es (reg_events w),
       reg_tables := fold (\<lambda>t. btree_insert (tab_name t) (t\<lparr>tab_version := new_version\<rparr>)) ts (reg_tables w),
       derivations := fold (\<lambda>d. btree_insert (der_name d) (d\<lparr>der_version := new_version\<rparr>)) ds (derivations w),
       reg_version := new_version\<rparr>"

definition registry_clear :: "RegistryInner \<Rightarrow> RegistryInner" where
  "registry_clear w =
     w\<lparr>reg_events := [], reg_tables := [], derivations := [], compiled_chains := [], compiled_aggregations := [],
       feature_index := [], aggregations_by_source := [], cluster_id_by_signature := [], reg_version := Suc (reg_version w)\<rparr>"

definition force_remove_one :: "string \<Rightarrow> nat \<times> RegistryInner \<Rightarrow> nat \<times> RegistryInner" where
  "force_remove_one name s =
     (let (removed, w) = s;
          hits = length (filter id [map_of (reg_events w) name \<noteq> None, map_of (reg_tables w) name \<noteq> None,
                                    map_of (derivations w) name \<noteq> None]);
          w1 = w\<lparr>reg_events := AList.delete name (reg_events w), reg_tables := AList.delete name (reg_tables w),
                 derivations := AList.delete name (derivations w), compiled_chains := AList.delete name (compiled_chains w)\<rparr>
      in (removed + hits,
          case map_of (compiled_aggregations w1) name of
            None \<Rightarrow> w1
          | Some agg \<Rightarrow>
              w1\<lparr>compiled_aggregations := AList.delete name (compiled_aggregations w1),
                 aggregations_by_source :=
                   (case map_of (aggregations_by_source w1) (source_node_name agg) of
                      None \<Rightarrow> aggregations_by_source w1
                    | Some aggs \<Rightarrow>
                        AList.update (source_node_name agg) (filter (\<lambda>a. node_name a \<noteq> node_name agg) aggs) (aggregations_by_source w1)),
                 feature_index := filter (\<lambda>(_, n, _). n \<noteq> node_name agg) (feature_index w1)\<rparr>))"

definition force_remove_descriptors :: "string list \<Rightarrow> RegistryInner \<Rightarrow> nat \<times> RegistryInner" where
  "force_remove_descriptors names w = fold force_remove_one names (0, w)"

section \<open>Resolved features\<close>

text \<open>The positions of a feature name, in the extracted slice, the fields that the feature reads.\<close>

definition feat_resolved :: "string list \<Rightarrow> AggOpDescriptor \<Rightarrow> bool" where
  "feat_resolved names d \<longleftrightarrow>
     (field_idx d \<noteq> FIELD_IDX_NONE \<and> field_idx d < length (field_idx_into_event_extracted d) \<and>
        field_idx_into_event_extracted d ! field_idx d \<noteq> FIELD_IDX_NONE \<longrightarrow>
      (\<exists>f. desc_field d = Some f \<and> names_field names (field_idx_into_event_extracted d ! field_idx d) f)) \<and>
     (ext_lat_idx (desc_ext d) \<noteq> FIELD_IDX_NONE \<longrightarrow>
      names_field names (ext_lat_idx (desc_ext d)) (lat_of d) \<and> names_field names (ext_lon_idx (desc_ext d)) (lon_of d))"

lemma intern_field_spec:
  assumes "intern_field f names = (i, names')" and "distinct names"
  shows "i < length names' \<and> names' ! i = f \<and> distinct names' \<and> (\<exists>ext. names' = names @ ext) \<and> set names' = insert f (set names)"
proof (cases "position (\<lambda>g. g = f) names")
  case None
  then have "f \<notin> set names" by (auto simp: position_None_iff)
  with None show ?thesis using assms by (auto simp: intern_field_def)
next
  case (Some j)
  then have "j < length names" "names ! j = f" using position_SomeD [OF Some] by auto
  with Some show ?thesis using assms by (auto simp: intern_field_def)
qed

text \<open>What the resolver never changes of a feature.\<close>

definition same_feature :: "NamedAggOp \<Rightarrow> NamedAggOp \<Rightarrow> bool" where
  "same_feature a b \<longleftrightarrow> feature_name a = feature_name b \<and> desc_field (descriptor a) = desc_field (descriptor b) \<and>
     ext_lat_field (desc_ext (descriptor a)) = ext_lat_field (desc_ext (descriptor b)) \<and>
     ext_lon_field (desc_ext (descriptor a)) = ext_lon_field (desc_ext (descriptor b))"

definition feat_fields :: "NamedAggOp \<Rightarrow> string set" where
  "feat_fields feat = set_option (desc_field (descriptor feat)) \<union> set_option (ext_lat_field (desc_ext (descriptor feat)))
     \<union> set_option (ext_lon_field (desc_ext (descriptor feat)))"

text \<open>The positions of a feature in the aggregation's own field list.\<close>

definition local_ok :: "string list \<Rightarrow> NamedAggOp \<Rightarrow> bool" where
  "local_ok names feat \<longleftrightarrow> (let d = descriptor feat in
     (case desc_field d of None \<Rightarrow> field_idx d = FIELD_IDX_NONE | Some f \<Rightarrow> \<exists>i < length names. names ! i = f \<and> field_idx d = i mod 256) \<and>
     (ext_lat_field (desc_ext d) = None \<or> ext_lon_field (desc_ext d) = None \<longrightarrow> ext_lat_idx (desc_ext d) = FIELD_IDX_NONE))"

lemma local_ok_append: "local_ok names feat \<Longrightarrow> local_ok (names @ ext) feat"
  by (fastforce simp: local_ok_def Let_def nth_append split: option.splits)

lemma set_geo_idx_simps [simp]:
  "desc_field (set_geo_idx i j d) = desc_field d" "field_idx (set_geo_idx i j d) = field_idx d"
  "field_idx_into_event_extracted (set_geo_idx i j d) = field_idx_into_event_extracted d"
  "ext_lat_field (desc_ext (set_geo_idx i j d)) = ext_lat_field (desc_ext d)"
  "ext_lon_field (desc_ext (set_geo_idx i j d)) = ext_lon_field (desc_ext d)"
  "ext_lat_idx (desc_ext (set_geo_idx i j d)) = i" "ext_lon_idx (desc_ext (set_geo_idx i j d)) = j"
  by (simp_all add: set_geo_idx_def)

lemma local_indices_spec:
  assumes "local_indices feat names = (feat', names')" and "distinct names"
  shows "distinct names' \<and> (\<exists>ext. names' = names @ ext) \<and> set names' \<subseteq> set names \<union> feat_fields feat \<and>
    same_feature feat feat' \<and> local_ok names' feat'"
proof -
  let ?d = "descriptor feat"
  obtain d1 n1 where 1: "(case desc_field ?d of
      Some f \<Rightarrow> (let (i, ns) = intern_field f names in (?d\<lparr>field_idx_into_event_extracted := [], field_idx := i mod 256\<rparr>, ns))
    | None \<Rightarrow> (?d\<lparr>field_idx_into_event_extracted := [], field_idx := FIELD_IDX_NONE\<rparr>, names)) = (d1, n1)"
    by (meson surj_pair)
  have a: "distinct n1 \<and> (\<exists>ext. n1 = names @ ext) \<and> set n1 \<subseteq> set names \<union> set_option (desc_field ?d) \<and> desc_ext d1 = desc_ext ?d \<and>
      desc_field d1 = desc_field ?d \<and>
      (case desc_field ?d of None \<Rightarrow> field_idx d1 = FIELD_IDX_NONE | Some f \<Rightarrow> \<exists>i < length n1. n1 ! i = f \<and> field_idx d1 = i mod 256)"
    using 1 assms(2) intern_field_spec [of _ names _ n1] by (auto split: option.splits prod.splits; blast)
  show ?thesis
  proof (cases "\<exists>lat lon. ext_lat_field (desc_ext ?d) = Some lat \<and> ext_lon_field (desc_ext ?d) = Some lon")
    case True
    then obtain lat lon where g: "ext_lat_field (desc_ext ?d) = Some lat" "ext_lon_field (desc_ext ?d) = Some lon" by blast
    obtain i n2 where 2: "intern_field lat n1 = (i, n2)" by (cases "intern_field lat n1")
    obtain j n3 where 3: "intern_field lon n2 = (j, n3)" by (cases "intern_field lon n2")
    have eq: "feat' = feat\<lparr>descriptor := set_geo_idx (i mod 256) (j mod 256) d1\<rparr>" "names' = n3"
      using assms(1) 1 by (auto simp: local_indices_def Let_def g 2 3 split: prod.splits)
    have s2: "distinct n2" "\<exists>ext. n2 = n1 @ ext" "set n2 = insert lat (set n1)" using intern_field_spec [OF 2] a by auto
    have s3: "distinct n3" "\<exists>ext. n3 = n2 @ ext" "set n3 = insert lon (set n2)" using intern_field_spec [OF 3 s2(1)] by auto
    have "local_ok n1 (feat\<lparr>descriptor := set_geo_idx (i mod 256) (j mod 256) d1\<rparr>)"
      using a g by (simp add: local_ok_def Let_def split: option.splits)
    then have "local_ok n3 (feat\<lparr>descriptor := set_geo_idx (i mod 256) (j mod 256) d1\<rparr>)"
      using s2(2) s3(2) local_ok_append by blast
    then show ?thesis using a s2 s3
      by (auto simp: eq feat_fields_def same_feature_def g)
  next
    case False
    then have eq: "feat' = feat\<lparr>descriptor := set_geo_idx FIELD_IDX_NONE FIELD_IDX_NONE d1\<rparr>" "names' = n1"
      using assms(1) 1 by (auto simp: local_indices_def Let_def split: prod.splits option.splits)
    then have "local_ok names' feat'" using a by (simp add: local_ok_def Let_def split: option.splits)
    then show ?thesis using a eq by (auto simp: feat_fields_def same_feature_def)
  qed
qed

lemma local_indices_all_spec:
  assumes "local_indices_all feats names = (feats', names')" and "distinct names"
  shows "distinct names' \<and> (\<exists>ext. names' = names @ ext) \<and> set names' \<subseteq> set names \<union> \<Union> (feat_fields ` set feats) \<and>
    list_all2 same_feature feats feats' \<and> (\<forall>f \<in> set feats'. local_ok names' f)"
  using assms
proof (induction feats arbitrary: names feats')
  case (Cons feat feats)
  obtain f1 n1 where 1: "local_indices feat names = (f1, n1)" by (cases "local_indices feat names")
  obtain fs n2 where 2: "local_indices_all feats n1 = (fs, n2)" by (cases "local_indices_all feats n1")
  have eq: "feats' = f1 # fs" "names' = n2" using Cons.prems(1) by (auto simp: 1 2)
  note a = local_indices_spec [OF 1 Cons.prems(2)]
  then have "distinct n1" by blast
  note b = Cons.IH [OF 2 [folded eq(2)] this]
  show ?case using a b local_ok_append by (fastforce simp: eq)
qed simp

lemma union_indices_same: "same_feature feat (union_indices u names feat)"
  by (auto simp: union_indices_def same_feature_def Let_def split: option.splits)

lemma same_feature_trans: "same_feature a b \<Longrightarrow> same_feature b c \<Longrightarrow> same_feature a c"
  by (simp add: same_feature_def)

lemma assign_indices_same:
  "list_all2 same_feature (features a) (features (assign_indices u a)) \<and> node_name (assign_indices u a) = node_name a \<and>
   source_node_name (assign_indices u a) = source_node_name a \<and> group_keys (assign_indices u a) = group_keys a \<and>
   agg_id (assign_indices u a) = agg_id a \<and> cluster_id (assign_indices u a) = cluster_id a"
proof -
  obtain fs ns where l: "local_indices_all (features a) [] = (fs, ns)" by (cases "local_indices_all (features a) []")
  have "list_all2 same_feature (features a) fs" using local_indices_all_spec [OF l] by simp
  then have "list_all2 same_feature (features a) (map (union_indices u ns) fs)"
    by (auto simp: list_all2_conv_all_nth intro: same_feature_trans [OF _ union_indices_same])
  with \<open>list_all2 same_feature (features a) fs\<close> show ?thesis by (simp add: assign_indices_def l)
qed

lemma check_features_same:
  "list_all2 same_feature fs gs \<Longrightarrow> node_name a = node_name b \<Longrightarrow> source_node_name a = source_node_name b \<Longrightarrow>
   check_features flds a fs = check_features flds b gs"
  by (induction rule: list_all2_induct) (simp_all add: same_feature_def Let_def split: option.splits)

lemma set_declared_fields: "set (declared_fields a) = \<Union> (feat_fields ` set (features a))"
  by (auto simp: declared_fields_def feat_fields_def Let_def List.map_filter_simps split: option.splits)

lemma same_feature_fields: "list_all2 same_feature fs gs \<Longrightarrow> feat_fields ` set fs = feat_fields ` set gs"
  by (induction rule: list_all2_induct) (auto simp: same_feature_def feat_fields_def)

lemma declared_assign [simp]: "set (declared_fields (assign_indices u a)) = set (declared_fields a)"
  using assign_indices_same [of a u] same_feature_fields by (metis set_declared_fields)

lemma union_lookup_distinct:
  assumes "distinct u" and "f \<in> set u" and "length u \<le> 255"
  shows "\<exists>i < length u. u ! i = f \<and> union_lookup u f = Some i"
proof -
  obtain i where i: "i < length u" "u ! i = f" using assms(2) by (meson in_set_conv_nth)
  have "map_of (rev (zip u [0..<length u])) f = Some i"
    using assms(1) i by (intro map_of_is_SomeI) (auto simp: rev_map [symmetric] distinct_rev in_set_zip)
  then show ?thesis using i assms(3) by (auto simp: union_lookup_def)
qed

lemma distinct_subset_length: "distinct xs \<Longrightarrow> set xs \<subseteq> set ys \<Longrightarrow> length xs \<le> length ys"
  by (metis card_mono card_length distinct_card le_trans List.finite_set)

text \<open>The resolver is right as long as the source has at most 255 fields in use.\<close>

lemma assign_indices_resolved:
  assumes "distinct u" and "length u \<le> 255" and "set (declared_fields a) \<subseteq> set u" and "feat \<in> set (features (assign_indices u a))"
  shows "feat_resolved u (descriptor feat)"
proof -
  obtain fs ns where l: "local_indices_all (features a) [] = (fs, ns)" by (cases "local_indices_all (features a) []")
  note spec = local_indices_all_spec [OF l]
  have ns: "distinct ns" "set ns \<subseteq> set u" "list_all2 same_feature (features a) fs"
    using spec assms(3) by (auto simp: set_declared_fields)
  have len: "length ns \<le> 255" using distinct_subset_length [OF ns(1,2)] assms(2) by simp
  have fields: "feat_fields f \<subseteq> set u" "local_ok ns f" if "f \<in> set fs" for f
    using that same_feature_fields [OF ns(3)] assms(3) spec by (auto simp: set_declared_fields)
  show ?thesis
  proof (cases "u = []")
    case True
    with assms(4) l have f: "feat \<in> set fs" by (simp add: assign_indices_def)
    then have "feat_fields feat = {}" "local_ok ns feat" using fields True by auto
    then show ?thesis by (auto simp: feat_resolved_def local_ok_def feat_fields_def Let_def split: option.splits)
  next
    case False
    with assms(4) l obtain f where f: "f \<in> set fs" "feat = union_indices u ns f" by (auto simp: assign_indices_def)
    let ?d = "descriptor f"
    have pos: "\<exists>i < length u. u ! i = g \<and> union_lookup u g = Some i" if "g \<in> feat_fields f" for g
      using that fields(1) [OF f(1)] union_lookup_distinct [OF assms(1) _ assms(2)] by blast
    have fld: "names_field u (field_idx_into_event_extracted (descriptor feat) ! field_idx (descriptor feat)) g"
      if "desc_field ?d = Some g" for g
    proof -
      have "\<exists>i < length ns. ns ! i = g \<and> field_idx ?d = i mod 256"
        using fields(2) [OF f(1)] that by (simp add: local_ok_def Let_def)
      then obtain i where i: "i < length ns" "ns ! i = g" "field_idx ?d = i mod 256" by blast
      moreover have "i mod 256 = i" using i(1) len by simp
      moreover have "g \<in> feat_fields f" using that by (simp add: feat_fields_def)
      moreover from pos [OF this] obtain k where "k < length u" "u ! k = g" "union_lookup u g = Some k" by blast
      ultimately show ?thesis using that
        by (auto simp: f(2) union_indices_def Let_def has_field_def names_field_def split: option.splits)
    qed
    have geo: "names_field u (ext_lat_idx (desc_ext (descriptor feat))) lat \<and> names_field u (ext_lon_idx (desc_ext (descriptor feat))) lon"
      if "ext_lat_field (desc_ext ?d) = Some lat" "ext_lon_field (desc_ext ?d) = Some lon" for lat lon
    proof -
      have "lat \<in> feat_fields f" "lon \<in> feat_fields f" using that by (simp_all add: feat_fields_def)
      then obtain i j where "i < length u" "u ! i = lat" "union_lookup u lat = Some i" "j < length u" "u ! j = lon" "union_lookup u lon = Some j"
        using pos by metis
      then show ?thesis using that by (simp add: f(2) union_indices_def Let_def has_field_def names_field_def)
    qed
    have nogeo: "ext_lat_idx (desc_ext (descriptor feat)) = FIELD_IDX_NONE"
      if "ext_lat_field (desc_ext ?d) = None \<or> ext_lon_field (desc_ext ?d) = None"
      using that fields(2) [OF f(1)] by (auto simp: f(2) union_indices_def Let_def local_ok_def split: option.splits)
    have nofld: "field_idx (descriptor feat) = FIELD_IDX_NONE" if "desc_field ?d = None"
      using that fields(2) [OF f(1)] by (auto simp: f(2) union_indices_def Let_def local_ok_def split: option.splits)
    have same: "desc_field (descriptor feat) = desc_field ?d" "ext_lat_field (desc_ext (descriptor feat)) = ext_lat_field (desc_ext ?d)"
        "ext_lon_field (desc_ext (descriptor feat)) = ext_lon_field (desc_ext ?d)"
      using union_indices_same [of f u ns] by (simp_all add: f(2) same_feature_def)
    show ?thesis
      using fld geo nogeo nofld unfolding feat_resolved_def lat_of_def lon_of_def opt_or_def same
      by (cases "desc_field ?d"; cases "ext_lat_field (desc_ext ?d)"; cases "ext_lon_field (desc_ext ?d)") simp_all
  qed
qed

section \<open>The registry invariant\<close>

abbreviation src :: "RegistryInner \<Rightarrow> string \<Rightarrow> AggregationDescriptor list" where
  "src \<equiv> compiled_aggregations_for_source"

definition unresolved :: "AggregationDescriptor \<Rightarrow> bool" where
  "unresolved a \<longleftrightarrow> (\<forall>feat \<in> set (features a). field_idx (descriptor feat) = FIELD_IDX_NONE \<and>
     ext_lat_idx (desc_ext (descriptor feat)) = FIELD_IDX_NONE)"

abbreviation checked :: "EventDescriptor \<Rightarrow> AggregationDescriptor \<Rightarrow> bool" where
  "checked e a \<equiv> check_features (es_fields (ev_schema e)) a (features a) = Inr ()"

text \<open>An aggregation's positions are absent, or they are the resolver's for the field list of
  the source event; during a registration they may lag behind that list.\<close>

definition indexed :: "EventDescriptor option \<Rightarrow> AggregationDescriptor \<Rightarrow> bool" where
  "indexed eo a \<longleftrightarrow> unresolved a \<or>
     (\<exists>e a0. eo = Some e \<and> checked e a \<and> a = assign_indices (apply_field_names e) a0 \<and>
        set (declared_fields a) \<subseteq> set (apply_field_names e) \<and> distinct (apply_field_names e))"

definition pending :: "EventDescriptor option \<Rightarrow> AggregationDescriptor \<Rightarrow> bool" where
  "pending eo a \<longleftrightarrow> unresolved a \<or> (\<exists>e. eo = Some e \<and> checked e a)"

definition core_ok :: "(string list \<Rightarrow> u64) \<Rightarrow> RegistryInner \<Rightarrow> bool" where
  "core_ok sig w \<longleftrightarrow>
     btree_wf (reg_events w) \<and> btree_wf (compiled_aggregations w) \<and> btree_wf (derivations w) \<and>
     (\<forall>s. distinct (map node_name (src w s)) \<and>
       (\<forall>a \<in> set (src w s). source_node_name a = s \<and> map_of (compiled_aggregations w) (node_name a) = Some a)) \<and>
     (\<forall>n a. map_of (compiled_aggregations w) n = Some a \<longrightarrow>
        node_name a = n \<and> a \<in> set (src w (source_node_name a)) \<and> agg_id a < next_agg_id w \<and>
        map_of (cluster_id_by_signature w) (sig (group_keys a)) = Some (cluster_id a) \<and> map_of (derivations w) n \<noteq> None) \<and>
     (\<forall>n m a b. map_of (compiled_aggregations w) n = Some a \<and> map_of (compiled_aggregations w) m = Some b \<and> agg_id a = agg_id b \<longrightarrow> n = m) \<and>
     (\<forall>x c. map_of (cluster_id_by_signature w) x = Some c \<longrightarrow> c < next_cluster_id w) \<and>
     (\<forall>x y c. map_of (cluster_id_by_signature w) x = Some c \<and> map_of (cluster_id_by_signature w) y = Some c \<longrightarrow> x = y)"

definition registry_ok :: "(string list \<Rightarrow> u64) \<Rightarrow> RegistryInner \<Rightarrow> bool" where
  "registry_ok sig w \<longleftrightarrow> core_ok sig w \<and> (\<forall>s. \<forall>a \<in> set (src w s). indexed (map_of (reg_events w) s) a)"

text \<open>While a registration runs: the sources in \<open>S\<close> await the pass after the loop.\<close>

definition loop_ok :: "(string list \<Rightarrow> u64) \<Rightarrow> string set \<Rightarrow> RegistryInner \<Rightarrow> bool" where
  "loop_ok sig S w \<longleftrightarrow> core_ok sig w \<and>
     (\<forall>s. \<forall>a \<in> set (src w s). pending (map_of (reg_events w) s) a \<and> (s \<notin> S \<longrightarrow> indexed (map_of (reg_events w) s) a))"

lemma indexed_pending: "indexed eo a \<Longrightarrow> pending eo a"
  by (auto simp: indexed_def pending_def)

lemma registry_loop: "registry_ok sig w \<Longrightarrow> loop_ok sig {} w"
  by (simp add: registry_ok_def loop_ok_def indexed_pending)

lemma registry_default_ok: "registry_ok sig registry_default"
  by (simp add: registry_ok_def core_ok_def registry_default_def compiled_aggregations_for_source_def)

lemma core_ok_agg_id: "core_ok sig w \<Longrightarrow> distinct (map agg_id (src w s))"
  unfolding core_ok_def distinct_map inj_on_def by metis

lemma core_ok_cluster:
  "core_ok sig w \<Longrightarrow> a \<in> set (src w s) \<Longrightarrow> b \<in> set (src w s) \<Longrightarrow> cluster_id a = cluster_id b \<Longrightarrow> sig (group_keys a) = sig (group_keys b)"
  unfolding core_ok_def by metis

lemma unresolved_feat: "unresolved a \<Longrightarrow> feat \<in> set (features a) \<Longrightarrow> feat_resolved names (descriptor feat)"
  by (simp add: unresolved_def feat_resolved_def)

lemma indexed_resolved:
  assumes "indexed (Some e) a" and "length (apply_field_names e) \<le> 255" and "feat \<in> set (features a)"
  shows "feat_resolved (apply_field_names e) (descriptor feat)"
proof (cases "unresolved a")
  case True
  then show ?thesis using unresolved_feat assms(3) by blast
next
  case False
  with assms(1) obtain a0 where a: "a = assign_indices (apply_field_names e) a0" "set (declared_fields a) \<subseteq> set (apply_field_names e)"
      "distinct (apply_field_names e)" by (auto simp: indexed_def)
  show ?thesis
    by (rule assign_indices_resolved [OF a(3) assms(2), of a0]) (use a assms(3) in simp_all)
qed

section \<open>Registration keeps the invariant\<close>

text \<open>The names an update touches: everything else of the registry is as before.\<close>

lemma src_simps [simp]:
  "src (w\<lparr>reg_events := x1\<rparr>) = src w" "src (w\<lparr>reg_tables := x2\<rparr>) = src w" "src (w\<lparr>derivations := x3\<rparr>) = src w"
  "src (w\<lparr>compiled_chains := x4\<rparr>) = src w" "src (w\<lparr>compiled_aggregations := x5\<rparr>) = src w" "src (w\<lparr>feature_index := x6\<rparr>) = src w"
  "src (w\<lparr>next_agg_id := x7\<rparr>) = src w" "src (w\<lparr>cluster_id_by_signature := x8\<rparr>) = src w" "src (w\<lparr>next_cluster_id := x9\<rparr>) = src w"
  "src (w\<lparr>reg_version := x10\<rparr>) = src w"
  by (simp_all add: compiled_aggregations_for_source_def fun_eq_iff)

lemma src_update [simp]: "src (w\<lparr>aggregations_by_source := AList.update s aggs (aggregations_by_source w)\<rparr>) = (src w)(s := aggs)"
  by (simp add: compiled_aggregations_for_source_def fun_eq_iff update_conv')

lemma install_event_ok:
  assumes "loop_ok sig S w"
  shows "loop_ok sig S (install_event v aggs e w)"
proof (cases "map_of (reg_events w) (ev_name e)")
  case None
  then obtain e' where i: "install_event v aggs e w = w\<lparr>reg_events := btree_insert (ev_name e) e' (reg_events w)\<rparr>"
    by (simp add: install_event_def Let_def)
  have "pending (map_of (reg_events w) (ev_name e)) a" if "a \<in> set (src w (ev_name e))" for a
    using assms that by (simp add: loop_ok_def)
  then have "unresolved a" if "a \<in> set (src w (ev_name e))" for a
    using that by (simp add: pending_def None)
  then show ?thesis using assms unfolding i
    by (auto simp: loop_ok_def core_ok_def map_of_btree_upsert pending_def indexed_def wf_intros)
qed (use assms in \<open>simp add: install_event_def\<close>)

lemma install_table_ok: "loop_ok sig S w \<Longrightarrow> loop_ok sig S (install_table v t w)"
  by (simp add: install_table_def loop_ok_def core_ok_def)

lemma resolve_inner_same:
  "node_name (resolve_field_indices_for_agg_mut_inner a sch u) = node_name a \<and>
   source_node_name (resolve_field_indices_for_agg_mut_inner a sch u) = source_node_name a \<and>
   group_keys (resolve_field_indices_for_agg_mut_inner a sch u) = group_keys a \<and>
   agg_id (resolve_field_indices_for_agg_mut_inner a sch u) = agg_id a \<and>
   cluster_id (resolve_field_indices_for_agg_mut_inner a sch u) = cluster_id a"
  using assign_indices_same by (simp add: resolve_field_indices_for_agg_mut_inner_def split: sum.splits)

lemma checked_assign [simp]: "checked e (assign_indices u a) \<longleftrightarrow> checked e a"
  using check_features_same [of "features a" "features (assign_indices u a)" a "assign_indices u a"] assign_indices_same [of a u]
  by simp

lemma resolve_inner_pending:
  assumes "unresolved a"
  shows "pending (Some e) (resolve_field_indices_for_agg_mut_inner a (ev_schema e) u)"
  using assms by (auto simp: resolve_field_indices_for_agg_mut_inner_def pending_def split: sum.splits)

lemma assign_cluster_ok:
  assumes "assign_cluster sig gk w = (cid, w')"
    and "\<forall>x c. map_of (cluster_id_by_signature w) x = Some c \<longrightarrow> c < next_cluster_id w"
    and "\<forall>x y c. map_of (cluster_id_by_signature w) x = Some c \<and> map_of (cluster_id_by_signature w) y = Some c \<longrightarrow> x = y"
  shows "w' = w\<lparr>next_cluster_id := next_cluster_id w', cluster_id_by_signature := cluster_id_by_signature w'\<rparr> \<and>
    map_of (cluster_id_by_signature w') (sig gk) = Some cid \<and>
    (\<forall>x c. map_of (cluster_id_by_signature w) x = Some c \<longrightarrow> map_of (cluster_id_by_signature w') x = Some c) \<and>
    (\<forall>x c. map_of (cluster_id_by_signature w') x = Some c \<longrightarrow> c < next_cluster_id w') \<and>
    (\<forall>x y c. map_of (cluster_id_by_signature w') x = Some c \<and> map_of (cluster_id_by_signature w') y = Some c \<longrightarrow> x = y)"
proof (cases "map_of (cluster_id_by_signature w) (sig gk)")
  case None
  then have w': "w' = w\<lparr>next_cluster_id := Suc (next_cluster_id w),
      cluster_id_by_signature := AList.update (sig gk) (next_cluster_id w) (cluster_id_by_signature w)\<rparr>" and cid: "cid = next_cluster_id w"
    using assms(1) by (auto simp: assign_cluster_def Let_def)
  show ?thesis using assms(2,3) None unfolding w' cid
    by (auto simp: update_conv' less_Suc_eq split: if_splits)
next
  case (Some c)
  then show ?thesis using assms by (simp add: assign_cluster_def Let_def)
qed

lemma install_aggregation_shape:
  assumes "core_ok sig w" and "unresolved agg" and "node_name agg = name"
  obtains a w2 where "install_aggregation sig name agg w =
      w2\<lparr>aggregations_by_source := AList.update (source_node_name agg) (src w (source_node_name agg) @ [a]) (aggregations_by_source w2),
         compiled_aggregations := btree_insert name a (compiled_aggregations w2)\<rparr>"
    and "w2 = w\<lparr>next_agg_id := Suc (next_agg_id w), next_cluster_id := next_cluster_id w2, cluster_id_by_signature := cluster_id_by_signature w2\<rparr>"
    and "node_name a = name" and "source_node_name a = source_node_name agg" and "agg_id a = next_agg_id w"
    and "map_of (cluster_id_by_signature w2) (sig (group_keys a)) = Some (cluster_id a)"
    and "\<forall>x c. map_of (cluster_id_by_signature w) x = Some c \<longrightarrow> map_of (cluster_id_by_signature w2) x = Some c"
    and "\<forall>x c. map_of (cluster_id_by_signature w2) x = Some c \<longrightarrow> c < next_cluster_id w2"
    and "\<forall>x y c. map_of (cluster_id_by_signature w2) x = Some c \<and> map_of (cluster_id_by_signature w2) y = Some c \<longrightarrow> x = y"
    and "pending (map_of (reg_events w) (source_node_name agg)) a"
proof -
  let ?w1 = "w\<lparr>next_agg_id := Suc (next_agg_id w)\<rparr>"
  obtain cid w2 where c: "assign_cluster sig (group_keys agg) ?w1 = (cid, w2)" by (cases "assign_cluster sig (group_keys agg) ?w1")
  note cl = assign_cluster_ok [OF c]
  have cl': "w2 = ?w1\<lparr>next_cluster_id := next_cluster_id w2, cluster_id_by_signature := cluster_id_by_signature w2\<rparr>"
    using cl assms(1) by (simp add: core_ok_def)
  let ?a2 = "agg\<lparr>agg_id := next_agg_id w, cluster_id := cid\<rparr>"
  define a where "a = (case map_of (reg_events w) (source_node_name agg) of
      Some e \<Rightarrow> resolve_field_indices_for_agg_mut_inner ?a2 (ev_schema e) (apply_field_names e) | None \<Rightarrow> ?a2)"
  have ev: "reg_events w2 = reg_events w" "aggregations_by_source w2 = aggregations_by_source w"
    by (subst cl', simp)+
  have un: "unresolved ?a2" using assms(2) by (simp add: unresolved_def)
  have same: "node_name a = name" "source_node_name a = source_node_name agg" "agg_id a = next_agg_id w" "group_keys a = group_keys agg" "cluster_id a = cid"
    using assms(3) resolve_inner_same by (auto simp: a_def split: option.splits)
  show thesis
  proof (rule that [of a w2])
    show "install_aggregation sig name agg w =
      w2\<lparr>aggregations_by_source := AList.update (source_node_name agg) (src w (source_node_name agg) @ [a]) (aggregations_by_source w2),
         compiled_aggregations := btree_insert name a (compiled_aggregations w2)\<rparr>"
      using same(2) by (simp add: install_aggregation_def c Let_def a_def [symmetric] ev compiled_aggregations_for_source_def)
    show "pending (map_of (reg_events w) (source_node_name agg)) a"
      using un resolve_inner_pending [OF un] by (auto simp: a_def pending_def split: option.splits)
    show "w2 = w\<lparr>next_agg_id := Suc (next_agg_id w), next_cluster_id := next_cluster_id w2, cluster_id_by_signature := cluster_id_by_signature w2\<rparr>"
      using cl' by simp
  qed (use same cl assms(1) in \<open>simp_all add: core_ok_def\<close>)
qed

lemma install_aggregation_ok:
  assumes "loop_ok sig S w" and "map_of (compiled_aggregations w) name = None" and "map_of (derivations w) name \<noteq> None"
    and "node_name agg = name" and "unresolved agg"
  shows "loop_ok sig (insert (source_node_name agg) S) (install_aggregation sig name agg w) \<and>
    (\<exists>a. map_of (compiled_aggregations (install_aggregation sig name agg w)) = (map_of (compiled_aggregations w))(name \<mapsto> a) \<and>
      source_node_name a = source_node_name agg)"
proof -
  let ?s = "source_node_name agg"
  have core: "core_ok sig w" using assms(1) by (simp add: loop_ok_def)
  obtain a w2 where i: "install_aggregation sig name agg w =
      w2\<lparr>aggregations_by_source := AList.update ?s (src w ?s @ [a]) (aggregations_by_source w2),
         compiled_aggregations := btree_insert name a (compiled_aggregations w2)\<rparr>"
    and w2: "w2 = w\<lparr>next_agg_id := Suc (next_agg_id w), next_cluster_id := next_cluster_id w2, cluster_id_by_signature := cluster_id_by_signature w2\<rparr>"
    and a: "node_name a = name" "source_node_name a = ?s" "agg_id a = next_agg_id w"
      "map_of (cluster_id_by_signature w2) (sig (group_keys a)) = Some (cluster_id a)"
    and cl: "\<forall>x c. map_of (cluster_id_by_signature w) x = Some c \<longrightarrow> map_of (cluster_id_by_signature w2) x = Some c"
      "\<forall>x c. map_of (cluster_id_by_signature w2) x = Some c \<longrightarrow> c < next_cluster_id w2"
      "\<forall>x y c. map_of (cluster_id_by_signature w2) x = Some c \<and> map_of (cluster_id_by_signature w2) y = Some c \<longrightarrow> x = y"
    and p: "pending (map_of (reg_events w) ?s) a"
    by (rule install_aggregation_shape [OF core assms(5,4)])
  define w3 where "w3 = install_aggregation sig name agg w"
  have f: "reg_events w2 = reg_events w" "derivations w2 = derivations w" "compiled_aggregations w2 = compiled_aggregations w"
    "next_agg_id w2 = Suc (next_agg_id w)" "src w2 = src w"
    by (subst w2, simp)+
  have g: "reg_events w3 = reg_events w" "derivations w3 = derivations w" "cluster_id_by_signature w3 = cluster_id_by_signature w2"
    "next_cluster_id w3 = next_cluster_id w2" "next_agg_id w3 = Suc (next_agg_id w)" "src w3 = (src w)(?s := src w ?s @ [a])"
    by (simp_all add: w3_def i f)
  have wf: "btree_wf (compiled_aggregations w)" using core by (simp add: core_ok_def)
  have m: "map_of (compiled_aggregations w3) = (map_of (compiled_aggregations w))(name \<mapsto> a)" "btree_wf (compiled_aggregations w3)"
    using wf by (auto simp: w3_def i f map_of_btree_upsert wf_intros assms(2))
  have old: "node_name b \<noteq> name" if "b \<in> set (src w s)" for b s
    using core that assms(2) unfolding core_ok_def by fastforce
  have "core_ok sig w3"
    unfolding core_ok_def
  proof (intro conjI)
    show "\<forall>s. distinct (map node_name (src w3 s)) \<and> (\<forall>b \<in> set (src w3 s). source_node_name b = s \<and> map_of (compiled_aggregations w3) (node_name b) = Some b)"
      using core old [of _ ?s] old unfolding g(6) m(1) core_ok_def by (auto simp: a)
    show "\<forall>n b. map_of (compiled_aggregations w3) n = Some b \<longrightarrow>
        node_name b = n \<and> b \<in> set (src w3 (source_node_name b)) \<and> agg_id b < next_agg_id w3 \<and>
        map_of (cluster_id_by_signature w3) (sig (group_keys b)) = Some (cluster_id b) \<and> map_of (derivations w3) n \<noteq> None"
      using core a cl(1) assms(3) unfolding g m(1) core_ok_def by (auto simp: less_Suc_eq; metis)
    show "\<forall>n m b c. map_of (compiled_aggregations w3) n = Some b \<and> map_of (compiled_aggregations w3) m = Some c \<and> agg_id b = agg_id c \<longrightarrow> n = m"
      using core a(3) unfolding m(1) core_ok_def by (auto split: if_splits) (metis less_irrefl)+
  qed (use core cl m(2) in \<open>simp_all add: g core_ok_def\<close>)
  moreover have "\<forall>s. \<forall>b \<in> set (src w3 s). pending (map_of (reg_events w3) s) b \<and> (s \<notin> insert ?s S \<longrightarrow> indexed (map_of (reg_events w3) s) b)"
    using assms(1) p by (auto simp: g loop_ok_def)
  ultimately show ?thesis using m(1) a(2) by (auto simp: loop_ok_def w3_def)
qed

text \<open>The parts of a payload that registration relies on: every compiled aggregation is keyed by
  its own name, and its positions are still open.\<close>

definition payload_ok :: "(string \<times> AggregationDescriptor) list \<Rightarrow> bool" where
  "payload_ok aggs \<longleftrightarrow> (\<forall>(n, a) \<in> set aggs. node_name a = n \<and> unresolved a)"

lemma payload_okD: "payload_ok aggs \<Longrightarrow> map_of (rev aggs) n = Some a \<Longrightarrow> node_name a = n \<and> unresolved a"
  using map_of_SomeD [of "rev aggs" n a] by (auto simp: payload_ok_def)

text \<open>The sources of the aggregations installed so far.\<close>

definition newly_sources :: "string list \<Rightarrow> RegistryInner \<Rightarrow> string set" where
  "newly_sources newly w = {source_node_name a | n a. n \<in> set newly \<and> map_of (compiled_aggregations w) n = Some a}"

definition pass_ok :: "(string list \<Rightarrow> u64) \<Rightarrow> RegistryInner \<times> string list \<Rightarrow> bool" where
  "pass_ok sig s \<longleftrightarrow> loop_ok sig (newly_sources (snd s) (fst s)) (fst s)"

lemma set_map_filter_eq: "set (List.map_filter f xs) = {y. \<exists>x \<in> set xs. f x = Some y}"
  by (induction xs) (auto simp: List.map_filter_simps split: option.splits)

lemma set_affected_sources: "set (affected_sources newly w) = newly_sources newly w"
  by (auto simp: affected_sources_def name_set_def newly_sources_def set_map_filter_eq)

lemma install_aggregation_derivations:
  "install_aggregation sig name agg (w\<lparr>derivations := ds\<rparr>) = (install_aggregation sig name agg w)\<lparr>derivations := ds\<rparr>"
  by (simp add: install_aggregation_def assign_cluster_def Let_def split: option.splits)

lemma loop_ok_derivations:
  assumes "loop_ok sig S w" and "map_of (derivations w) n = None"
  shows "loop_ok sig S (w\<lparr>derivations := btree_insert n d (derivations w)\<rparr>)"
  using assms by (auto simp: loop_ok_def core_ok_def map_of_btree_upsert wf_intros)

lemma loop_ok_chains: "loop_ok sig S w \<Longrightarrow> loop_ok sig S (w\<lparr>compiled_chains := c\<rparr>)"
  by (simp add: loop_ok_def core_ok_def)

lemma install_derivation_ok:
  assumes "pass_ok sig s" and "payload_ok aggs"
  shows "pass_ok sig (install_derivation sig v chs schemas aggs d s)"
proof -
  obtain w newly where s: "s = (w, newly)" by (cases s)
  show ?thesis
  proof (cases "map_of (derivations w) (der_name d)")
    case None
    let ?n = "der_name d"
    define w1 where "w1 = (case map_of (rev chs) ?n of Some c \<Rightarrow> w\<lparr>compiled_chains := btree_insert ?n c (compiled_chains w)\<rparr> | None \<Rightarrow> w)"
    define d2 where "d2 = (case map_of (rev schemas) ?n of Some sch \<Rightarrow> d\<lparr>der_version := v, der_schema := sch\<rparr> | None \<Rightarrow> d\<lparr>der_version := v\<rparr>)"
    have i: "install_derivation sig v chs schemas aggs d s =
        (case map_of (rev aggs) ?n of
           Some agg \<Rightarrow> ((install_aggregation sig ?n agg w1)\<lparr>derivations := btree_insert ?n d2 (derivations (install_aggregation sig ?n agg w1))\<rparr>, newly @ [?n])
         | None \<Rightarrow> (w1\<lparr>derivations := btree_insert ?n d2 (derivations w1)\<rparr>, newly))"
      using None by (simp add: install_derivation_def s Let_def w1_def d2_def split: option.splits)
    let ?w2 = "w1\<lparr>derivations := btree_insert ?n d2 (derivations w1)\<rparr>"
    have f: "compiled_aggregations w1 = compiled_aggregations w" "derivations w1 = derivations w"
      by (simp_all add: w1_def split: option.splits)
    have "loop_ok sig (newly_sources newly w) w1"
      using assms(1) by (auto simp: pass_ok_def s w1_def loop_ok_chains split: option.splits)
    then have ok: "loop_ok sig (newly_sources newly w) ?w2" using None f(2) by (intro loop_ok_derivations) simp_all
    have none: "map_of (compiled_aggregations w) ?n = None"
      using assms(1) None by (auto simp: pass_ok_def s loop_ok_def core_ok_def) (metis not_None_eq)
    have wf: "btree_wf (derivations w)" using assms(1) by (simp add: pass_ok_def s loop_ok_def core_ok_def)
    show ?thesis
    proof (cases "map_of (rev aggs) ?n")
      case None
      then show ?thesis using ok by (simp add: i pass_ok_def newly_sources_def f)
    next
      case (Some agg)
      have "derivations (install_aggregation sig ?n agg w1) = derivations w1"
        by (simp add: install_aggregation_def assign_cluster_def Let_def split: option.splits)
      then have i': "install_derivation sig v chs schemas aggs d s = (install_aggregation sig ?n agg ?w2, newly @ [?n])"
        by (simp add: i Some install_aggregation_derivations)
      note a = payload_okD [OF assms(2) Some]
      from install_aggregation_ok [OF ok, of ?n agg] none a wf obtain a' where
          ok': "loop_ok sig (insert (source_node_name agg) (newly_sources newly w)) (install_aggregation sig ?n agg ?w2)"
          and m: "map_of (compiled_aggregations (install_aggregation sig ?n agg ?w2)) = (map_of (compiled_aggregations w))(?n \<mapsto> a')"
          "source_node_name a' = source_node_name agg"
        by (auto simp: f map_of_btree_upsert)
      have "newly_sources (newly @ [?n]) (install_aggregation sig ?n agg ?w2) = insert (source_node_name agg) (newly_sources newly w)"
        using none m(2) by (auto simp: newly_sources_def m(1); metis option.distinct(1))
      then show ?thesis using ok' by (simp add: pass_ok_def i')
    qed
  qed (use assms(1) in \<open>simp add: install_derivation_def s\<close>)
qed

lemma install_node_ok:
  assumes "pass_ok sig s" and "payload_ok aggs"
  shows "pass_ok sig (install_node sig v chs schemas aggs n s)"
proof (cases n)
  case (NEvent e)
  have "newly_sources newly (install_event v aggs e w) = newly_sources newly w" for newly w
    by (simp add: newly_sources_def install_event_def Let_def)
  then show ?thesis using assms(1) install_event_ok by (simp add: NEvent install_node_def pass_ok_def)
next
  case (NTable t)
  have "newly_sources newly (install_table v t w) = newly_sources newly w" for newly w
    by (simp add: newly_sources_def install_table_def)
  then show ?thesis using assms(1) install_table_ok by (simp add: NTable install_node_def pass_ok_def)
next
  case (NDerivation d)
  then show ?thesis using install_derivation_ok [OF assms] by (simp add: install_node_def)
qed

lemma install_nodes_ok:
  "pass_ok sig s \<Longrightarrow> payload_ok aggs \<Longrightarrow> pass_ok sig (fold (install_node sig v chs schemas aggs) nodes s)"
  by (induction nodes arbitrary: s) (simp_all add: install_node_ok)

text \<open>The pass over one affected source.\<close>

lemma fold_replace:
  assumes "btree_wf m" and "\<forall>a \<in> set as. map_of m (node_name a) \<noteq> None"
  shows "btree_wf (fold (\<lambda>a m. if map_of m (node_name a) = None then m else btree_insert (node_name a) a m) as m) \<and>
    map_of (fold (\<lambda>a m. if map_of m (node_name a) = None then m else btree_insert (node_name a) a m) as m) =
      map_of m ++ map_of (rev (map (\<lambda>a. (node_name a, a)) as))"
  using assms
proof (induction as arbitrary: m)
  case (Cons a as)
  let ?m = "btree_insert (node_name a) a m" and ?l = "\<lambda>as. rev (map (\<lambda>a. (node_name a, a)) as)"
  have wf: "btree_wf ?m" and m: "map_of ?m = (map_of m)(node_name a \<mapsto> a)"
    using Cons.prems(1) by (simp_all add: wf_intros map_of_btree_upsert split: option.splits)
  have "\<forall>x \<in> set as. map_of ?m (node_name x) \<noteq> None" using Cons.prems(2) by (simp add: m)
  note IH = Cons.IH [OF wf this]
  have "map_of m ++ map_of (?l (a # as)) = map_of ?m ++ map_of (?l as)" unfolding m by simp
  with IH Cons.prems(2) show ?case by auto
qed simp

lemma resolve_inner_indexed:
  assumes "pending (Some e) a" and "set (declared_fields a) \<subseteq> set u" and "distinct u"
  shows "indexed (Some (e\<lparr>apply_field_names := u\<rparr>)) (resolve_field_indices_for_agg_mut_inner a (ev_schema e) u)"
proof (cases "checked e a")
  case True
  then have "resolve_field_indices_for_agg_mut_inner a (ev_schema e) u = assign_indices u a"
    by (simp add: resolve_field_indices_for_agg_mut_inner_def)
  then show ?thesis using True assms(2,3) by (auto simp: indexed_def)
next
  case False
  then show ?thesis using assms(1) by (auto simp: resolve_field_indices_for_agg_mut_inner_def indexed_def pending_def split: sum.splits)
qed

lemma name_set_distinct [simp]: "distinct (name_set xs)" "set (name_set xs) = set xs"
  by (simp_all add: name_set_def)

lemma event_self_update: "apply_field_names e = u \<Longrightarrow> e\<lparr>apply_field_names := u\<rparr> = e"
  by auto

lemma refresh_source_shape:
  assumes "btree_wf (reg_events w)" and "map_of (reg_events w) s = Some e"
    and "u = name_set (concat (map declared_fields (src w s)))"
    and "R = (\<lambda>a. resolve_field_indices_for_agg_mut_inner a (ev_schema e) u)"
  obtains evs where "refresh_source s w = (if map_of (aggregations_by_source w) s = None then w\<lparr>reg_events := evs\<rparr> else
      w\<lparr>reg_events := evs, aggregations_by_source := AList.update s (map R (src w s)) (aggregations_by_source w),
        compiled_aggregations := fold (\<lambda>a m. if map_of m (node_name a) = None then m else btree_insert (node_name a) a m)
          (map R (src w s)) (compiled_aggregations w)\<rparr>)"
    and "map_of evs = (map_of (reg_events w))(s \<mapsto> e\<lparr>apply_field_names := u\<rparr>)" and "btree_wf evs"
proof -
  define evs where "evs = (if apply_field_names e \<noteq> u then btree_insert s (e\<lparr>apply_field_names := u\<rparr>) (reg_events w) else reg_events w)"
  have m: "map_of evs = (map_of (reg_events w))(s \<mapsto> e\<lparr>apply_field_names := u\<rparr>)"
    using assms(1,2) by (auto simp: evs_def map_of_btree_upsert event_self_update fun_eq_iff)
  have aggs: "(case map_of (aggregations_by_source w) s of None \<Rightarrow> [] | Some aggs \<Rightarrow> aggs) = src w s"
    by (simp add: compiled_aggregations_for_source_def)
  have w1: "(if apply_field_names e \<noteq> u then w\<lparr>reg_events := btree_insert s (e\<lparr>apply_field_names := u\<rparr>) (reg_events w)\<rparr> else w) = w\<lparr>reg_events := evs\<rparr>"
    by (simp add: evs_def)
  have nil: "src w s = []" if "map_of (aggregations_by_source w) s = None" using that by (simp add: compiled_aggregations_for_source_def)
  have "refresh_source s w = (if map_of (aggregations_by_source w) s = None then w\<lparr>reg_events := evs\<rparr> else
      w\<lparr>reg_events := evs, aggregations_by_source := AList.update s (map R (src w s)) (aggregations_by_source w),
        compiled_aggregations := fold (\<lambda>a m. if map_of m (node_name a) = None then m else btree_insert (node_name a) a m)
          (map R (src w s)) (compiled_aggregations w)\<rparr>)"
    unfolding refresh_source_def Let_def aggs assms(3) [symmetric] assms(2) option.case w1 using nil
    by (simp add: m assms(4))
  then show thesis using that m assms(1) by (simp add: evs_def wf_intros)
qed

lemma refresh_source_ok:
  assumes "loop_ok sig S w"
  shows "loop_ok sig (S - {s}) (refresh_source s w)"
proof (cases "map_of (reg_events w) s")
  case None
  then have "refresh_source s w = w" by (simp add: refresh_source_def Let_def)
  moreover have "unresolved a" if "a \<in> set (src w s)" for a
  proof -
    have "pending (map_of (reg_events w) s) a" using assms that by (simp add: loop_ok_def)
    then show ?thesis by (simp add: None pending_def)
  qed
  ultimately show ?thesis using assms by (auto simp: loop_ok_def indexed_def)
next
  case (Some e)
  let ?u = "name_set (concat (map declared_fields (src w s)))"
  define R where "R = (\<lambda>a. resolve_field_indices_for_agg_mut_inner a (ev_schema e) ?u)"
  have core: "core_ok sig w" using assms by (simp add: loop_ok_def)
  obtain evs where w': "refresh_source s w = (if map_of (aggregations_by_source w) s = None then w\<lparr>reg_events := evs\<rparr> else
      w\<lparr>reg_events := evs, aggregations_by_source := AList.update s (map R (src w s)) (aggregations_by_source w),
        compiled_aggregations := fold (\<lambda>a m. if map_of m (node_name a) = None then m else btree_insert (node_name a) a m)
          (map R (src w s)) (compiled_aggregations w)\<rparr>)"
    and evs: "map_of evs = (map_of (reg_events w))(s \<mapsto> e\<lparr>apply_field_names := ?u\<rparr>)" "btree_wf evs"
    using core by (rule_tac refresh_source_shape [OF _ Some refl R_def]) (simp add: core_ok_def)
  define w2 where "w2 = refresh_source s w"
  define C where "C = map_of (compiled_aggregations w)"
  have R: "node_name (R a) = node_name a" "source_node_name (R a) = source_node_name a" "group_keys (R a) = group_keys a"
      "agg_id (R a) = agg_id a" "cluster_id (R a) = cluster_id a" for a
    using resolve_inner_same by (simp_all add: R_def)
  have known: "C (node_name a) = Some a" "source_node_name a = t" if "a \<in> set (src w t)" for a t
    using core that by (auto simp: core_ok_def C_def)
  have dist: "distinct (map node_name (src w t))" for t using core by (simp add: core_ok_def)
  have nil: "src w s = []" if "map_of (aggregations_by_source w) s = None" using that by (simp add: compiled_aggregations_for_source_def)
  have src2: "src w2 = (src w)(s := map R (src w s))"
    using nil by (auto simp: w2_def w' fun_eq_iff compiled_aggregations_for_source_def update_conv')
  let ?f = "\<lambda>a. if source_node_name a = s then R a else a"
  have inC: "a \<in> set (src w (source_node_name a)) \<and> node_name a = n" if "C n = Some a" for n a
    using core that by (auto simp: core_ok_def C_def)
  have cm: "btree_wf (compiled_aggregations w2) \<and> map_of (compiled_aggregations w2) = (\<lambda>n. map_option ?f (C n))"
  proof (cases "map_of (aggregations_by_source w) s")
    case None
    have id: "?f a = a" if "C n = Some a" for n a using inC [OF that] nil [OF None] by auto
    have "map_option ?f (C n) = C n" for n using id [of n] by (cases "C n") auto
    moreover have "compiled_aggregations w2 = compiled_aggregations w" by (simp add: w2_def w' None)
    ultimately show ?thesis using core by (simp add: core_ok_def C_def)
  next
    case (Some xs)
    have "btree_wf (compiled_aggregations w2) \<and> map_of (compiled_aggregations w2) = C ++ map_of (rev (map (\<lambda>a. (node_name a, a)) (map R (src w s))))"
      using Some core known(1) [of _ s] fold_replace [of "compiled_aggregations w" "map R (src w s)"]
      by (simp add: w2_def w' core_ok_def C_def R)
    moreover have "(C ++ map_of (rev (map (\<lambda>a. (node_name a, a)) (map R (src w s))))) n = map_option ?f (C n)" for n
    proof (cases "\<exists>a \<in> set (src w s). node_name a = n")
      case True
      then obtain a where a: "a \<in> set (src w s)" "node_name a = n" by blast
      have "map_of (rev (map (\<lambda>a. (node_name a, a)) (map R (src w s)))) n = Some (R a)"
        using a dist [of s] by (intro map_of_is_SomeI) (auto simp: rev_map [symmetric] comp_def R distinct_rev image_iff intro!: bexI [of _ a])
      then show ?thesis using known [OF a(1)] a(2) by (auto simp: map_add_def)
    next
      case False
      then have "map_of (rev (map (\<lambda>a. (node_name a, a)) (map R (src w s)))) n = None"
        by (auto simp: map_of_eq_None_iff R)
      moreover have "?f a = a" if "C n = Some a" for a using inC [OF that] False by auto
      ultimately show ?thesis by (cases "C n") (auto simp: map_add_def)
    qed
    ultimately show ?thesis by auto
  qed
  have f: "reg_events w2 = evs" "derivations w2 = derivations w" "cluster_id_by_signature w2 = cluster_id_by_signature w"
      "next_cluster_id w2 = next_cluster_id w" "next_agg_id w2 = next_agg_id w"
    by (simp_all add: w2_def w')
  have "core_ok sig w2"
    unfolding core_ok_def
  proof (intro conjI)
    show "\<forall>t. distinct (map node_name (src w2 t)) \<and> (\<forall>b \<in> set (src w2 t). source_node_name b = t \<and> map_of (compiled_aggregations w2) (node_name b) = Some b)"
      using dist known by (auto simp: src2 cm R comp_def)
    show "\<forall>n b. map_of (compiled_aggregations w2) n = Some b \<longrightarrow>
        node_name b = n \<and> b \<in> set (src w2 (source_node_name b)) \<and> agg_id b < next_agg_id w2 \<and>
        map_of (cluster_id_by_signature w2) (sig (group_keys b)) = Some (cluster_id b) \<and> map_of (derivations w2) n \<noteq> None"
    proof (intro allI impI)
      fix n b assume "map_of (compiled_aggregations w2) n = Some b"
      then obtain a where a: "C n = Some a" "b = ?f a" by (auto simp: cm)
      have c: "agg_id a < next_agg_id w" "map_of (cluster_id_by_signature w) (sig (group_keys a)) = Some (cluster_id a)" "map_of (derivations w) n \<noteq> None"
        using core a(1) by (auto simp: core_ok_def C_def)
      have "b \<in> set (src w2 (source_node_name b))" using inC [OF a(1)] by (auto simp: src2 a(2) R)
      then show "node_name b = n \<and> b \<in> set (src w2 (source_node_name b)) \<and> agg_id b < next_agg_id w2 \<and>
        map_of (cluster_id_by_signature w2) (sig (group_keys b)) = Some (cluster_id b) \<and> map_of (derivations w2) n \<noteq> None"
        using inC [OF a(1)] c by (simp add: a(2) R f)
    qed
    show "\<forall>n m b c. map_of (compiled_aggregations w2) n = Some b \<and> map_of (compiled_aggregations w2) m = Some c \<and> agg_id b = agg_id c \<longrightarrow> n = m"
      using core unfolding core_ok_def C_def [symmetric] by (auto simp: cm R split: if_splits)
  qed (use core evs(2) cm in \<open>simp_all add: f core_ok_def\<close>)
  moreover have "pending (map_of evs t) b \<and> (t \<notin> S - {s} \<longrightarrow> indexed (map_of evs t) b)" if b: "b \<in> set (src w2 t)" for t b
  proof (cases "t = s")
    case True
    with b obtain a where a: "a \<in> set (src w s)" "b = R a" by (auto simp: src2)
    have "pending (map_of (reg_events w) s) a" using assms a(1) by (simp add: loop_ok_def)
    then have "pending (Some e) a" by (simp add: Some)
    moreover have "set (declared_fields a) \<subseteq> set ?u" using a(1) by auto
    ultimately have "indexed (map_of evs s) b"
      using resolve_inner_indexed [of e a ?u] by (simp add: a(2) R_def evs(1))
    then show ?thesis using True indexed_pending by blast
  next
    case False
    then show ?thesis using assms b by (auto simp: loop_ok_def src2 evs(1))
  qed
  ultimately show ?thesis by (simp add: loop_ok_def w2_def [symmetric] f)
qed

lemma refresh_sources_ok: "loop_ok sig S w \<Longrightarrow> loop_ok sig (S - set ss) (fold refresh_source ss w)"
proof (induction ss arbitrary: S w)
  case (Cons s ss)
  have "S - {s} - set ss = S - set (s # ss)" by auto
  with Cons.IH [OF refresh_source_ok [OF Cons.prems, of s]] show ?case by simp
qed simp

lemma index_features_ok: "loop_ok sig S w \<Longrightarrow> loop_ok sig S (index_features newly w)"
  by (simp add: index_features_def loop_ok_def core_ok_def)

lemma apply_registration_ok:
  assumes "registry_ok sig w" and "payload_ok aggs"
  shows "registry_ok sig (snd (apply_registration sig nodes chs schemas aggs w))"
proof -
  obtain w1 newly where f: "fold (install_node sig (Suc (reg_version w)) chs schemas aggs) nodes (w, []) = (w1, newly)"
    by (meson surj_pair)
  have "pass_ok sig (w, [])" using registry_loop [OF assms(1)] by (simp add: pass_ok_def newly_sources_def)
  then have "loop_ok sig (newly_sources newly w1) w1"
    using install_nodes_ok [OF _ assms(2), of sig "(w, [])" "Suc (reg_version w)" chs schemas nodes] by (simp add: f pass_ok_def)
  from index_features_ok [OF refresh_sources_ok [OF this, of "affected_sources newly w1"], of newly]
  have ok: "loop_ok sig {} (index_features newly (fold refresh_source (affected_sources newly w1) w1))"
    by (simp add: set_affected_sources)
  have "snd (apply_registration sig nodes chs schemas aggs w) =
      (index_features newly (fold refresh_source (affected_sources newly w1) w1))\<lparr>reg_version := Suc (reg_version w)\<rparr>"
    by (simp add: apply_registration_def f Let_def)
  then show ?thesis using ok by (simp add: registry_ok_def loop_ok_def core_ok_def)
qed

section \<open>Properties\<close>

text \<open>C7. Registration keeps the registry consistent: after any accepted payload the per-source index
  and the by-name index hold the same aggregations, identifiers are unique, aggregations have
  the same cluster exactly when their key signatures agree, and the field positions of every
  aggregation, old or new, name the fields of its source event's extraction list (for at most
  255 fields in use, since a position is a byte).\<close>

theorem registration_keeps_positions:
  assumes "registry_ok sig w" and "payload_ok aggs" and "w' = snd (apply_registration sig nodes chs schemas aggs w)"
    and "a \<in> set (compiled_aggregations_for_source w' source)" and "get_event_descriptor w' source = Some e"
    and "length (apply_field_names e) \<le> 255"
  shows "registry_ok sig w' \<and> compiled_aggregation w' (node_name a) = Some a \<and>
    (\<forall>b \<in> set (compiled_aggregations_for_source w' source). agg_id a = agg_id b \<longrightarrow> a = b) \<and>
    (\<forall>b \<in> set (compiled_aggregations_for_source w' source). cluster_id a = cluster_id b \<longleftrightarrow> sig (group_keys a) = sig (group_keys b)) \<and>
    (\<forall>feat \<in> set (features a). feat_resolved (apply_field_names e) (descriptor feat))"
proof -
  have ok: "registry_ok sig w'" using apply_registration_ok [OF assms(1,2)] by (simp add: assms(3))
  then have core: "core_ok sig w'" by (simp add: registry_ok_def)
  have "indexed (map_of (reg_events w') source) a" using ok assms(4) by (simp add: registry_ok_def)
  then have "indexed (Some e) a" using assms(5) by (simp add: get_event_descriptor_def)
  then have "\<forall>feat \<in> set (features a). feat_resolved (apply_field_names e) (descriptor feat)"
    using indexed_resolved assms(6) by blast
  moreover have "compiled_aggregation w' (node_name a) = Some a" using core assms(4) by (simp add: core_ok_def compiled_aggregation_def)
  moreover have "\<forall>b \<in> set (src w' source). agg_id a = agg_id b \<longrightarrow> a = b"
    using core_ok_agg_id [OF core, of source] assms(4) by (auto simp: distinct_map inj_on_def)
  moreover have "cluster_id a = cluster_id b \<longleftrightarrow> sig (group_keys a) = sig (group_keys b)" if "b \<in> set (src w' source)" for b
    using core_ok_cluster [OF core assms(4) that] core assms(4) that unfolding core_ok_def by (metis option.inject)
  ultimately show ?thesis using ok by blast
qed

text \<open>A small registration: one event with two fields and a sum over one of them.\<close>

definition example_event :: EventDescriptor where
  "example_event = \<lparr>ev_name = ''E'', ev_schema = \<lparr>es_fields = [(''u'', TStr), (''x'', TF64)], es_optional_fields = []\<rparr>,
     dedupe_key = None, dedupe_window_ms = None, keep_events_for_ms = None, cold_after_ms = None, ev_version = 0,
     name_arc = [], apply_field_names = []\<rparr>"

definition example_agg :: AggregationDescriptor where
  "example_agg = \<lparr>node_name = ''D'', source_node_name = ''E'', group_keys = [''u''],
     features = [\<lparr>feature_name = ''s'', descriptor = default_descriptor\<lparr>desc_kind := KSum, desc_field := Some ''x''\<rparr>\<rparr>],
     agg_id = 0, field_names = [], cluster_id = 0\<rparr>"

definition example_derivation :: DerivationDescriptor where
  "example_derivation = \<lparr>der_name = ''D'', output_kind = OutTable, upstreams = [''E''], der_ops = [],
     der_schema = \<lparr>ds_fields = [], ds_optional_fields = []\<rparr>, table_primary_key = None, der_version = 0\<rparr>"

definition example_registry :: RegistryInner where
  "example_registry =
     snd (apply_registration (\<lambda>_. 0) [NEvent example_event, NDerivation example_derivation] [] [] [(''D'', example_agg)] registry_default)"

lemma example_registry_facts:
  "map node_name (compiled_aggregations_for_source example_registry ''E'') = [''D'']"
  "map_option apply_field_names (get_event_descriptor example_registry ''E'') = Some [''x'']"
  "map_option (\<lambda>a. map (\<lambda>f. (field_idx (descriptor f), field_idx_into_event_extracted (descriptor f))) (features a))
     (compiled_aggregation example_registry ''D'') = Some [(0, [0])]"
  by code_simp+

lemma example_payload_ok: "payload_ok [(''D'', example_agg)]"
  by (simp add: payload_ok_def unresolved_def example_agg_def default_descriptor_def ext_default_def)

theorem registration_keeps_positions_witness:
  "feat_resolved (apply_field_names (the (get_event_descriptor example_registry ''E'')))
     (descriptor (hd (features (hd (compiled_aggregations_for_source example_registry ''E'')))))"
proof -
  let ?a = "hd (compiled_aggregations_for_source example_registry ''E'')"
  have a: "?a \<in> set (compiled_aggregations_for_source example_registry ''E'')"
    using example_registry_facts(1) by (metis hd_in_set list.map_disc_iff list.distinct(1))
  have e: "get_event_descriptor example_registry ''E'' = Some (the (get_event_descriptor example_registry ''E''))"
    and n: "apply_field_names (the (get_event_descriptor example_registry ''E'')) = [''x'']"
    using example_registry_facts(2) by auto
  have f: "hd (features ?a) \<in> set (features ?a)"
  proof -
    have "features ?a \<noteq> []" by code_simp
    then show ?thesis by simp
  qed
  show ?thesis
    using registration_keeps_positions [OF registry_default_ok example_payload_ok example_registry_def a e] f by (simp add: n)
qed

end
