(* ===== verification/AggApply.thy ===== *)
theory AggApply
  imports Registry
begin

text \<open>
  The apply loop of \<open>crates/beava-core/src/agg_apply.rs\<close>: one event routed to every
  aggregation that watches its source, on the live path and on the replay path. Not
  modelled are the timing trace and the two process-wide counters, which no operation reads.
  The outer option is a panic: an expression, a window of width zero or an entity row that
  is shorter than the feature list. The string hash of the fxhash package is the parameter
  \<open>fx\<close>.

  The lemmas relate the loop, with its field extraction, its per-cluster key cache and its
  lazily grown tables, to the plain specification: for each aggregation run its op chain on
  the row, look the entity up by the source row's group keys, and update each of its features
  from the row that its operator reads.
\<close>

section \<open>The loop\<close>

definition event_extracted :: "RegistryInner \<Rightarrow> string \<Rightarrow> Row \<Rightarrow> AggregationDescriptor list \<Rightarrow> ExtractedFields" where
  "event_extracted w source_name row descs =
     (if descs = [] then []
      else case get_event_descriptor w source_name of
             Some src_event \<Rightarrow> map (row_get row) (apply_field_names src_event)
           | None \<Rightarrow> [])"

type_synonym shape_cache = "EntityKeyShape option option list"

text \<open>The key of an event for one cluster of group keys, computed once per event.\<close>

definition cluster_shape :: "(string \<Rightarrow> u64) \<Rightarrow> libm \<Rightarrow> AggregationDescriptor \<Rightarrow> Row \<Rightarrow> shape_cache \<Rightarrow> EntityKeyShape option \<times> shape_cache" where
  "cluster_shape fx lm desc row cache0 =
     (let cache = cache0 @ replicate (Suc (cluster_id desc) - length cache0) None in
      case cache ! cluster_id desc of
        Some cached \<Rightarrow> (cached, cache)
      | None \<Rightarrow>
          (let computed = shape_from_row fx lm (group_keys desc) row
           in (computed, cache[cluster_id desc := Some computed])))"

definition pre_value :: "AggOpDescriptor \<Rightarrow> ExtractedFields \<Rightarrow> Row \<Rightarrow> Value option" where
  "pre_value d extracted agg_row =
     (let by_name = (case desc_field d of None \<Rightarrow> None | Some n \<Rightarrow> row_get agg_row n) in
      if field_idx d \<noteq> FIELD_IDX_NONE then
        (if field_idx d < length (field_idx_into_event_extracted d) \<and> field_idx_into_event_extracted d ! field_idx d \<noteq> FIELD_IDX_NONE
         then slot extracted (field_idx_into_event_extracted d ! field_idx d)
         else by_name)
      else by_name)"

definition update_feature :: "agg_env \<Rightarrow> ExtractedFields \<Rightarrow> int \<Rightarrow> Row \<Rightarrow> AggOpDescriptor \<Rightarrow> AggOp \<Rightarrow> AggOp option" where
  "update_feature env extracted now_ms agg_row d op =
     agg_update_with_extracted env op (pre_value d extracted agg_row) now_ms (where_expr d) agg_row (desc_field d)
       extracted (ext_lat_idx (desc_ext d)) (ext_lon_idx (desc_ext d))"

fun update_features :: "(AggOpDescriptor \<Rightarrow> AggOp \<Rightarrow> AggOp option) \<Rightarrow> NamedAggOp list \<Rightarrow> AggOp list \<Rightarrow> AggOp list option" where
  "update_features upd [] ops = Some ops"
| "update_features upd (feat # feats) [] = None"
| "update_features upd (feat # feats) (op # ops) =
     (case upd (descriptor feat) op of
        None \<Rightarrow> None
      | Some op' \<Rightarrow> map_option (\<lambda>ops'. op' # ops') (update_features upd feats ops))"

definition chain_row :: "agg_env \<Rightarrow> RegistryInner \<Rightarrow> AggregationDescriptor \<Rightarrow> Row \<Rightarrow> Row option option" where
  "chain_row env w desc row =
     (case compiled_chain w (node_name desc) of None \<Rightarrow> Some (Some row) | Some c \<Rightarrow> chain_apply (env_libm env) c row)"

definition evict_if_cold :: "EntityKeyShape \<Rightarrow> int \<Rightarrow> u64 option \<Rightarrow> AggStateTable \<Rightarrow> AggStateTable" where
  "evict_if_cold shape now_ms cold t =
     (case cold of Some ttl \<Rightarrow> snd (evict_entity_by_shape_if_cold shape (word_of_int now_ms) ttl t) | None \<Rightarrow> t)"

definition stamp_last_seen :: "EntityKeyShape \<Rightarrow> int \<Rightarrow> u64 option \<Rightarrow> AggStateTable \<Rightarrow> AggStateTable" where
  "stamp_last_seen shape now_ms cold t =
     (case cold of Some _ \<Rightarrow> record_last_seen_by_shape shape (word_of_int now_ms) t | None \<Rightarrow> t)"

definition apply_desc ::
    "(string \<Rightarrow> u64) \<Rightarrow> agg_env \<Rightarrow> RegistryInner \<Rightarrow> Row \<Rightarrow> int \<Rightarrow> u64 option \<Rightarrow> ExtractedFields \<Rightarrow> AggregationDescriptor \<Rightarrow>
     shape_cache \<times> StateTables \<Rightarrow> (shape_cache \<times> StateTables) option" where
  "apply_desc fx env w row now_ms cold extracted desc s =
     (case chain_row env w desc row of
        None \<Rightarrow> None
      | Some None \<Rightarrow> Some s
      | Some (Some agg_row) \<Rightarrow>
          (case cluster_shape fx (env_libm env) desc row (fst s) of
             (None, cache) \<Rightarrow> Some (cache, snd s)
           | (Some shape, cache) \<Rightarrow>
               (let ts = ensure_capacity_for (Suc (agg_id desc)) (snd s);
                    t = evict_if_cold shape now_ms cold (ts ! agg_id desc) in
                case get_or_init_by_shape env shape desc t of
                  None \<Rightarrow> None
                | Some (ops, t') \<Rightarrow>
                    (case update_features (update_feature env extracted now_ms agg_row) (features desc) ops of
                       None \<Rightarrow> None
                     | Some ops' \<Rightarrow>
                         Some (cache, ts[agg_id desc := stamp_last_seen shape now_ms cold (set_row shape ops' t')])))))"

definition apply_event_to_aggregations_with_descs ::
    "(string \<Rightarrow> u64) \<Rightarrow> agg_env \<Rightarrow> string \<Rightarrow> Row \<Rightarrow> int \<Rightarrow> RegistryInner \<Rightarrow> u64 option \<Rightarrow> AggregationDescriptor list \<Rightarrow>
     StateTables \<Rightarrow> StateTables option" where
  "apply_event_to_aggregations_with_descs fx env source_name row now_ms w cold descs state_tables =
     map_option snd (fold_opt (apply_desc fx env w row now_ms cold (event_extracted w source_name row descs)) descs ([], state_tables))"

definition apply_event_to_aggregations ::
    "(string \<Rightarrow> u64) \<Rightarrow> agg_env \<Rightarrow> string \<Rightarrow> Row \<Rightarrow> int \<Rightarrow> RegistryInner \<Rightarrow> u64 option \<Rightarrow> StateTables \<Rightarrow> StateTables option" where
  "apply_event_to_aggregations fx env source_name row now_ms w cold state_tables =
     apply_event_to_aggregations_with_descs fx env source_name row now_ms w cold
       (compiled_aggregations_for_source w source_name) state_tables"

definition apply_event_to_aggregations_replay ::
    "(string \<Rightarrow> u64) \<Rightarrow> agg_env \<Rightarrow> string \<Rightarrow> Row \<Rightarrow> int \<Rightarrow> nat \<Rightarrow> RegistryInner \<Rightarrow> u64 option \<Rightarrow> StateTables \<Rightarrow> StateTables option" where
  "apply_event_to_aggregations_replay fx env source_name row now_ms event_rv w cold state_tables =
     apply_event_to_aggregations_with_descs fx env source_name row now_ms w cold
       (compiled_aggregations_for_source_at_rv w source_name event_rv) state_tables"

section \<open>Resolved features\<close>

text \<open>The feature's field has a position in the extracted slice of the source event.\<close>

definition has_slot :: "AggOpDescriptor \<Rightarrow> bool" where
  "has_slot d \<longleftrightarrow> field_idx d \<noteq> FIELD_IDX_NONE \<and> field_idx d < length (field_idx_into_event_extracted d) \<and>
     field_idx_into_event_extracted d ! field_idx d \<noteq> FIELD_IDX_NONE"

lemma pre_value_resolved:
  "feat_resolved names d \<Longrightarrow>
     pre_value d (extract_fields names row) agg_row = field_value (if has_slot d then row else agg_row) (desc_field d)"
  by (auto simp: feat_resolved_def has_slot_def pre_value_def Let_def slot_extract field_value_def)

abbreviation feat_ok :: "string list \<Rightarrow> AggOpDescriptor \<Rightarrow> AggOp \<Rightarrow> bool" where
  "feat_ok names d \<equiv> agg_wf names (ext_lat_idx (desc_ext d)) (ext_lon_idx (desc_ext d))"

lemma agg_new_wf:
  assumes "feat_resolved names d" and "agg_new env d = Some op"
  shows "feat_ok names d op"
proof -
  have lf: "geo_resolved names s (ext_lat_idx (desc_ext d)) (ext_lon_idx (desc_ext d))"
    if "new_lifetime_full lm d = Some s" for lm s
    using that assms(1)
    by (cases "desc_kind d") (auto simp: new_lifetime_full_def geo_resolved_def geo_fields_def feat_resolved_def Let_def
        gv_with_fields_def gd_with_fields_def gs_with_fields_def dh_with_fields_def)
  have win: "agg_wf names i j (Windowed w)" if "win_new_with_params k ms sp = Some w" "supports_windowed_wrap k" for i j w k ms sp
    using that by (auto simp: win_new_with_params_def agg_wf_def Let_def split: option.splits if_splits)
  show ?thesis
    using assms(2) lf win
    by (auto simp: agg_new_def agg_wf_def geo_resolved_def geo_fields_def split: option.splits if_splits)
qed

section \<open>The specification\<close>

text \<open>What the state tables stand for: per aggregation, the row of every entity and, where a time to
  live is in use, the time the entity was last seen.\<close>

type_synonym agg_store = "(nat \<Rightarrow> slot_key \<rightharpoonup> AggOp list) \<times> (nat \<Rightarrow> slot_key \<rightharpoonup> u64)"

definition seen_map :: "AggStateTable \<Rightarrow> slot_key \<rightharpoonup> u64" where
  "seen_map t x =
     (case x of
        Inl k \<Rightarrow> map_of (last_seen_u64 t) k
      | Inr y \<Rightarrow> (case y of Inl s \<Rightarrow> map_of (last_seen_str t) s | Inr ek \<Rightarrow> map_of (last_seen_multi t) ek))"

definition store_abs :: "StateTables \<Rightarrow> agg_store" where
  "store_abs ts =
     ((\<lambda>i. if i < length ts then tbl_map (ts ! i) else Map.empty),
      (\<lambda>i. if i < length ts then seen_map (ts ! i) else Map.empty))"

text \<open>An entity is cold when it was last seen longer than the time to live ago.\<close>

definition is_cold :: "agg_store \<Rightarrow> nat \<Rightarrow> slot_key \<Rightarrow> int \<Rightarrow> u64 option \<Rightarrow> bool" where
  "is_cold m i sl now_ms cold =
     (case (cold, snd m i sl) of (Some ttl, Some seen) \<Rightarrow> ttl < u64_saturating_sub (word_of_int now_ms) seen | _ \<Rightarrow> False)"

text \<open>The operators that are handed the value of their field; every other one that reads a field
  looks it up by name.\<close>

definition takes_value :: "LifetimeOp \<Rightarrow> bool" where
  "takes_value op \<longleftrightarrow>
     (case op of
        OSum _ \<Rightarrow> True | OAvg _ \<Rightarrow> True | OMin _ \<Rightarrow> True | OMax _ \<Rightarrow> True | OVariance _ \<Rightarrow> True | OStdDev _ \<Rightarrow> True
      | OCountDistinct _ \<Rightarrow> True | OPercentile _ \<Rightarrow> True | OTopK _ \<Rightarrow> True | OBloomMember _ \<Rightarrow> True | OEntropy _ \<Rightarrow> True
      | OFirst _ \<Rightarrow> True | OLast _ \<Rightarrow> True | OFirstN _ \<Rightarrow> True | OLastN _ \<Rightarrow> True | OLag _ \<Rightarrow> True | OEventTypeMix _ \<Rightarrow> True
      | _ \<Rightarrow> False)"

text \<open>The row an update reads its values from: the source row, when the operator is handed its value
  (a windowed operator always is) and the field has a position in the source's field list, or when it
  reads a pair of coordinates that both have one; otherwise the row the op chain left.\<close>

definition reads_source :: "AggOpDescriptor \<Rightarrow> AggOp \<Rightarrow> bool" where
  "reads_source d op \<longleftrightarrow>
     (case op of
        Windowed _ \<Rightarrow> has_slot d
      | Lifetime s \<Rightarrow> if geo_fields s \<noteq> None then ext_lat_idx (desc_ext d) \<noteq> FIELD_IDX_NONE else takes_value s \<and> has_slot d)"

text \<open>One feature of one entity: the \<open>where\<close> predicate sees the chain's row.\<close>

definition spec_update :: "agg_env \<Rightarrow> Row \<Rightarrow> int \<Rightarrow> Row \<Rightarrow> AggOpDescriptor \<Rightarrow> AggOp \<Rightarrow> AggOp option" where
  "spec_update env row now_ms agg_row d op =
     (case where_matched env (where_expr d) agg_row of
        None \<Rightarrow> None
      | Some m \<Rightarrow> agg_update env op (if reads_source d op then row else agg_row) now_ms (desc_field d) m)"

definition spec_desc ::
    "(string \<Rightarrow> u64) \<Rightarrow> agg_env \<Rightarrow> RegistryInner \<Rightarrow> Row \<Rightarrow> int \<Rightarrow> u64 option \<Rightarrow> AggregationDescriptor \<Rightarrow> agg_store \<Rightarrow> agg_store option" where
  "spec_desc fx env w row now_ms cold desc m =
     (case chain_row env w desc row of
        None \<Rightarrow> None
      | Some None \<Rightarrow> Some m
      | Some (Some agg_row) \<Rightarrow>
          (case shape_from_row fx (env_libm env) (group_keys desc) row of
             None \<Rightarrow> Some m
           | Some shape \<Rightarrow>
               (let i = agg_id desc; sl = shape_slot shape in
                case (case (if is_cold m i sl now_ms cold then None else fst m i sl) of Some ops \<Rightarrow> Some ops | None \<Rightarrow> init_row env desc) of
                  None \<Rightarrow> None
                | Some ops \<Rightarrow>
                    map_option (\<lambda>ops'. ((fst m)(i := (fst m i)(sl \<mapsto> ops')),
                        if cold = None then snd m else (snd m)(i := (snd m i)(sl \<mapsto> word_of_int now_ms))))
                      (update_features (spec_update env row now_ms agg_row) (features desc) ops))))"

text \<open>Every stored row belongs to its aggregation: one operator per feature, whose position
  fields the resolved indices name.\<close>

abbreviation row_ok :: "string list \<Rightarrow> AggregationDescriptor \<Rightarrow> AggOp list \<Rightarrow> bool" where
  "row_ok names desc ops \<equiv> list_all2 (\<lambda>feat op. feat_ok names (descriptor feat) op) (features desc) ops"

definition store_ok :: "string list \<Rightarrow> AggregationDescriptor list \<Rightarrow> agg_store \<Rightarrow> bool" where
  "store_ok names descs m \<longleftrightarrow> (\<forall>desc \<in> set descs. \<forall>ops \<in> ran (fst m (agg_id desc)). row_ok names desc ops)"

definition descs_ok :: "string list \<Rightarrow> AggregationDescriptor list \<Rightarrow> bool" where
  "descs_ok names descs \<longleftrightarrow> distinct (map agg_id descs) \<and>
     (\<forall>a \<in> set descs. \<forall>b \<in> set descs. cluster_id a = cluster_id b \<longrightarrow> group_keys a = group_keys b) \<and>
     (\<forall>a \<in> set descs. \<forall>feat \<in> set (features a). feat_resolved names (descriptor feat))"

section \<open>The loop implements the specification\<close>

lemma seen_map_simps [simp]:
  "seen_map (set_row shape ops t) = seen_map t"
  "seen_map (remember_group_keys gk t) = seen_map t"
  "seen_map (record_last_seen_by_shape shape now t) = (seen_map t)(shape_slot shape \<mapsto> now)"
  "seen_map (drop_entity shape t) = (seen_map t)(shape_slot shape := None)"
  by (cases shape; auto simp: set_row_def remember_group_keys_def record_last_seen_by_shape_def drop_entity_def seen_map_def
      shape_slot_def fun_eq_iff update_conv' AList.delete_conv' split: sum.splits)+

lemma tbl_map_simps [simp]:
  "tbl_map (remember_group_keys gk t) = tbl_map t"
  "tbl_map (record_last_seen_by_shape shape now t) = tbl_map t"
  "tbl_map (drop_entity shape t) = (tbl_map t)(shape_slot shape := None)"
  by (cases shape; auto simp: remember_group_keys_def record_last_seen_by_shape_def drop_entity_def tbl_map_def
      shape_slot_def fun_eq_iff update_conv' AList.delete_conv' split: sum.splits)+

lemma last_seen_at_map: "last_seen_at t shape = seen_map t (shape_slot shape)"
  by (cases shape) (simp_all add: last_seen_at_def seen_map_def shape_slot_def)

lemma table_new_maps [simp]: "tbl_map table_new = Map.empty" "seen_map table_new = Map.empty"
  by (auto simp: tbl_map_def seen_map_def table_new_def fun_eq_iff split: sum.splits)

lemma store_abs_ensure [simp]: "store_abs (ensure_capacity_for n ts) = store_abs ts"
  by (auto simp: store_abs_def ensure_capacity_for_def fun_eq_iff nth_append)

lemma length_ensure: "n \<le> length (ensure_capacity_for n ts)"
  by (simp add: ensure_capacity_for_def)

lemma store_abs_update:
  assumes "i < length ts"
  shows "store_abs (ts[i := t]) = ((fst (store_abs ts))(i := tbl_map t), (snd (store_abs ts))(i := seen_map t))"
  using assms by (auto simp: store_abs_def fun_eq_iff)

lemma store_abs_nth: "i < length ts \<Longrightarrow> fst (store_abs ts) i = tbl_map (ts ! i) \<and> snd (store_abs ts) i = seen_map (ts ! i)"
  by (simp add: store_abs_def)

text \<open>Eviction and the lookup that follows it, as the specification has them.\<close>

lemma evict_lookup:
  assumes "i < length ts" and t: "t = evict_if_cold shape now_ms cold (ts ! i)"
  shows "tbl_map t (shape_slot shape) = (if is_cold (store_abs ts) i (shape_slot shape) now_ms cold then None else fst (store_abs ts) i (shape_slot shape))"
    and "sl \<noteq> shape_slot shape \<Longrightarrow> tbl_map t sl = fst (store_abs ts) i sl \<and> seen_map t sl = snd (store_abs ts) i sl"
    and "cold = None \<Longrightarrow> seen_map t = snd (store_abs ts) i"
  using assms(1)
  by (auto simp: t evict_if_cold_def evict_entity_by_shape_if_cold_def is_cold_def last_seen_at_map store_abs_nth
      split: option.splits if_splits)

lemma op_extracted_row:
  assumes "geo_resolved names s i j"
  shows "op_update_extracted env s (field_value (if h then row else agg_row) field) t agg_row field (extract_fields names row) i j m =
    op_update env s (if (if geo_fields s \<noteq> None then i \<noteq> FIELD_IDX_NONE else takes_value s \<and> h) then row else agg_row) t field m"
  using assms
  by (cases s) (simp_all add: pre_paths takes_value_def geo_resolved_def geo_fields_def geo_update_at_agrees gd_update_at_agrees
      gs_update_at_agrees dh_update_at_agrees)

lemma update_feature_spec:
  assumes "feat_ok names d op" and "feat_resolved names d"
  shows "update_feature env (extract_fields names row) now_ms agg_row d op = spec_update env row now_ms agg_row d op"
proof (cases "where_matched env (where_expr d) agg_row")
  case (Some m)
  show ?thesis
  proof (cases op)
    case (Lifetime s)
    then have "geo_resolved names s (ext_lat_idx (desc_ext d)) (ext_lon_idx (desc_ext d))" using assms(1) by (simp add: agg_wf_def)
    from op_extracted_row [OF this, of env "has_slot d" row agg_row "desc_field d" now_ms m] show ?thesis
      by (simp add: Lifetime Some update_feature_def spec_update_def reads_source_def pre_value_resolved [OF assms(2)]
          agg_update_with_extracted_def agg_update_with_extracted_no_where_def agg_update_def)
  next
    case (Windowed w)
    then have "windowable x" if "x \<in> snd ` set (buckets w) \<or> fresh_op env w = Some x" for x
      using that assms(1) fresh_op_windowable by (auto simp: agg_wf_def)
    then have "win_update_at env w (field_value r (desc_field d)) ex i j now_ms m = win_update env w r now_ms (desc_field d) m" for r ex i j
      unfolding win_update_at_def win_update_def by (intro win_route_cong) (simp add: windowable_extracted)
    then show ?thesis
      by (simp add: Windowed Some update_feature_def spec_update_def reads_source_def pre_value_resolved [OF assms(2)]
          agg_update_with_extracted_def agg_update_with_extracted_no_where_def agg_update_def)
  qed
qed (simp add: update_feature_def spec_update_def agg_update_with_extracted_def)

lemma agg_update_wf:
  assumes "agg_wf names i j op" and "agg_update env op r t field m = Some op'"
  shows "agg_wf names i j op'"
proof (cases op)
  case (Windowed w)
  with assms obtain w' where w': "win_update env w r t field m = Some w'" "op' = Windowed w'" by (auto simp: agg_update_def)
  have wd: "windowable x" if "x \<in> snd ` set (buckets w) \<or> fresh_op env w = Some x" for x
    using that assms(1) fresh_op_windowable by (auto simp: agg_wf_def Windowed)
  have "windowable x" if "x \<in> snd ` set (buckets w')" for x
    using win_route_ops [OF w'(1) [unfolded win_update_def] that] wd windowable_update by metis
  then show ?thesis using assms(1) win_route_kind [OF w'(1) [unfolded win_update_def]] by (simp add: agg_wf_def w'(2) Windowed)
qed (use assms geo_resolved_update in \<open>auto simp: agg_wf_def agg_update_def\<close>)

lemma spec_update_ok:
  assumes "feat_ok names d op" and "spec_update env row now_ms agg_row d op = Some op'"
  shows "feat_ok names d op'"
proof -
  obtain r m where "agg_update env op r now_ms (desc_field d) m = Some op'"
    using assms(2) by (auto simp: spec_update_def split: option.splits)
  then show ?thesis using agg_update_wf assms(1) by blast
qed

lemma update_features_agree:
  assumes "list_all2 (\<lambda>feat op. feat_ok names (descriptor feat) op) feats ops"
    and "\<forall>feat \<in> set feats. feat_resolved names (descriptor feat)"
  shows "update_features (update_feature env (extract_fields names row) now_ms agg_row) feats ops =
      update_features (spec_update env row now_ms agg_row) feats ops \<and>
    (\<forall>ops'. update_features (spec_update env row now_ms agg_row) feats ops = Some ops' \<longrightarrow>
      list_all2 (\<lambda>feat op. feat_ok names (descriptor feat) op) feats ops')"
  using assms
proof (induction feats ops rule: list_all2_induct)
  case (Cons feat feats op ops)
  then show ?case using update_feature_spec [OF Cons.hyps(1), of env row now_ms agg_row] spec_update_ok [OF Cons.hyps(1)]
    by (auto split: option.splits)
qed simp

lemma opt_all_list_all2:
  "opt_all (map f xs) = Some ys \<Longrightarrow> (\<And>x y. x \<in> set xs \<Longrightarrow> f x = Some y \<Longrightarrow> P x y) \<Longrightarrow> list_all2 P xs ys"
  by (induction xs arbitrary: ys) (auto split: option.splits)

lemma init_row_ok:
  assumes "init_row env desc = Some ops" and "\<forall>feat \<in> set (features desc). feat_resolved names (descriptor feat)"
  shows "row_ok names desc ops"
  using assms(1) unfolding init_row_def by (rule opt_all_list_all2) (use assms(2) agg_new_wf in blast)

definition cache_ok :: "(string \<Rightarrow> u64) \<Rightarrow> libm \<Rightarrow> Row \<Rightarrow> AggregationDescriptor list \<Rightarrow> shape_cache \<Rightarrow> bool" where
  "cache_ok fx lm row descs cache \<longleftrightarrow>
     (\<forall>desc \<in> set descs. \<forall>s. cluster_id desc < length cache \<and> cache ! cluster_id desc = Some s \<longrightarrow> s = shape_from_row fx lm (group_keys desc) row)"

lemma cluster_shape_ok:
  assumes "cache_ok fx lm row descs cache" and "descs_ok names descs" and "desc \<in> set descs"
  shows "fst (cluster_shape fx lm desc row cache) = shape_from_row fx lm (group_keys desc) row \<and>
    cache_ok fx lm row descs (snd (cluster_shape fx lm desc row cache))"
proof -
  let ?c = "cache @ replicate (Suc (cluster_id desc) - length cache) None"
  have c: "cache_ok fx lm row descs ?c" and len: "cluster_id desc < length ?c"
    using assms(1) by (auto simp: cache_ok_def nth_append)
  show ?thesis
  proof (cases "?c ! cluster_id desc")
    case None
    have "cache_ok fx lm row descs (?c[cluster_id desc := Some (shape_from_row fx lm (group_keys desc) row)])"
      using c assms(2,3) len unfolding cache_ok_def descs_ok_def by (metis length_list_update nth_list_update option.inject)
    with None show ?thesis by (simp add: cluster_shape_def Let_def)
  next
    case (Some s)
    with c len assms(3) show ?thesis by (auto simp: cluster_shape_def cache_ok_def)
  qed
qed

definition step_ok :: "(string \<Rightarrow> u64) \<Rightarrow> libm \<Rightarrow> Row \<Rightarrow> string list \<Rightarrow> AggregationDescriptor list \<Rightarrow> shape_cache \<times> StateTables \<Rightarrow> bool" where
  "step_ok fx lm row names descs s \<longleftrightarrow> cache_ok fx lm row descs (fst s) \<and> store_ok names descs (store_abs (snd s))"

lemma store_ok_update:
  assumes "store_ok names descs m" and "descs_ok names descs" and "desc \<in> set descs" and "row_ok names desc ops"
    and "\<And>i. i \<noteq> agg_id desc \<Longrightarrow> fst m' i = fst m i" and "\<And>sl'. sl' \<noteq> sl \<Longrightarrow> fst m' (agg_id desc) sl' = fst m (agg_id desc) sl'"
    and "fst m' (agg_id desc) sl = Some ops"
  shows "store_ok names descs m'"
  unfolding store_ok_def
proof (intro ballI)
  fix d ops' assume d: "d \<in> set descs" and r: "ops' \<in> ran (fst m' (agg_id d))"
  show "row_ok names d ops'"
  proof (cases "agg_id d = agg_id desc")
    case True
    then have eq: "d = desc" using assms(2,3) d by (simp add: descs_ok_def distinct_map inj_on_def)
    from r obtain sl' where "fst m' (agg_id desc) sl' = Some ops'" by (auto simp: ran_def eq)
    then have "ops' = ops \<or> fst m (agg_id desc) sl' = Some ops'" using assms(6,7) by (cases "sl' = sl") auto
    then show ?thesis using assms(1,3,4) by (auto simp: eq store_ok_def ran_def)
  next
    case False
    then show ?thesis using r d assms(1) assms(5) [of "agg_id d"] by (auto simp: store_ok_def)
  qed
qed

lemma apply_desc_refines:
  assumes "descs_ok names descs" and "desc \<in> set descs" and "step_ok fx (env_libm env) row names descs s"
  shows "case apply_desc fx env w row now_ms cold (extract_fields names row) desc s of
      None \<Rightarrow> spec_desc fx env w row now_ms cold desc (store_abs (snd s)) = None
    | Some s' \<Rightarrow> spec_desc fx env w row now_ms cold desc (store_abs (snd s)) = Some (store_abs (snd s')) \<and>
        step_ok fx (env_libm env) row names descs s'"
proof -
  let ?lm = "env_libm env" and ?i = "agg_id desc"
  obtain cache ts where s: "s = (cache, ts)" by (cases s)
  have feats: "\<forall>feat \<in> set (features desc). feat_resolved names (descriptor feat)"
    using assms(1,2) by (auto simp: descs_ok_def)
  obtain so cache' where cs: "cluster_shape fx ?lm desc row cache = (so, cache')"
      "so = shape_from_row fx ?lm (group_keys desc) row" "cache_ok fx ?lm row descs cache'"
    using cluster_shape_ok [OF _ assms(1,2), of fx ?lm row cache] assms(3) by (auto simp: s step_ok_def prod_eq_iff)
  show ?thesis
  proof (cases "\<exists>agg_row. chain_row env w desc row = Some (Some agg_row)")
    case False
    then show ?thesis using assms(3) by (auto simp: apply_desc_def spec_desc_def split: option.splits)
  next
    case True
    then obtain agg_row where chain: "chain_row env w desc row = Some (Some agg_row)" by blast
    show ?thesis
    proof (cases so)
      case None
      then show ?thesis using assms(3) cs by (simp add: apply_desc_def spec_desc_def chain s step_ok_def)
    next
      case (Some shape)
      let ?ts = "ensure_capacity_for (Suc ?i) ts" and ?sl = "shape_slot shape"
      let ?m = "store_abs ts"
      define t where "t = evict_if_cold shape now_ms cold (?ts ! ?i)"
      have len: "?i < length ?ts" using length_ensure [of "Suc ?i" ts] by simp
      note ev = evict_lookup [OF len t_def, simplified]
      define ops0 where "ops0 = (case (if is_cold ?m ?i ?sl now_ms cold then None else fst ?m ?i ?sl) of Some ops \<Rightarrow> Some ops | None \<Rightarrow> init_row env desc)"
      have got: "get_or_init_by_shape env shape desc t = map_option (\<lambda>ops. (ops,
          if tbl_map t ?sl = None then set_row shape ops (remember_group_keys (group_keys desc) t) else remember_group_keys (group_keys desc) t)) ops0"
        by (auto simp: get_or_init_by_shape_def ops0_def row_at_map ev(1) Let_def split: option.splits)
      have row_ok: "row_ok names desc ops" if "ops0 = Some ops" for ops
        using that init_row_ok feats assms(2,3) by (auto simp: ops0_def s step_ok_def store_ok_def ran_def split: option.splits if_splits; blast)
      let ?upd = "update_features (spec_update env row now_ms agg_row) (features desc)"
      have upd: "update_features (update_feature env (extract_fields names row) now_ms agg_row) (features desc) ops = ?upd ops"
        "\<And>ops'. ?upd ops = Some ops' \<Longrightarrow> row_ok names desc ops'" if "ops0 = Some ops" for ops
        using update_features_agree [OF row_ok [OF that] feats, of env row now_ms agg_row] by simp_all
      show ?thesis
      proof (cases "Option.bind ops0 ?upd")
        case None
        then show ?thesis using upd(1) got
          by (auto simp: apply_desc_def spec_desc_def chain s cs(1) cs(2) [symmetric] Some Let_def t_def [symmetric] ops0_def [symmetric]
              split: option.splits bind_splits)
      next
        case (Some ops')
        then obtain ops where ops: "ops0 = Some ops" "?upd ops = Some ops'" by (auto simp: bind_eq_Some_conv)
        define t' where "t' = stamp_last_seen shape now_ms cold (set_row shape ops' (if tbl_map t ?sl = None
            then set_row shape ops (remember_group_keys (group_keys desc) t) else remember_group_keys (group_keys desc) t))"
        have a: "apply_desc fx env w row now_ms cold (extract_fields names row) desc s = Some (cache', ?ts[?i := t'])"
          using ops upd(1) [OF ops(1)] got
          by (simp add: apply_desc_def chain s cs(1) \<open>so = Some shape\<close> Let_def t_def [symmetric] t'_def)
        have maps: "tbl_map t' = (fst ?m ?i)(?sl \<mapsto> ops')" "seen_map t' = (if cold = None then snd ?m ?i else (snd ?m ?i)(?sl \<mapsto> word_of_int now_ms))"
          using ev(2,3) by (auto simp: t'_def stamp_last_seen_def fun_eq_iff split: option.splits)
        have st: "store_abs (?ts[?i := t']) = ((fst ?m)(?i := (fst ?m ?i)(?sl \<mapsto> ops')),
            if cold = None then snd ?m else (snd ?m)(?i := (snd ?m ?i)(?sl \<mapsto> word_of_int now_ms)))"
          by (simp add: store_abs_update [OF len] maps)
        have "store_ok names descs (store_abs (?ts[?i := t']))"
          by (rule store_ok_update [OF _ assms(1,2) upd(2) [OF ops], of ?m _ ?sl]) (use assms(3) in \<open>simp_all add: s step_ok_def st\<close>)
        moreover have "spec_desc fx env w row now_ms cold desc ?m = Some (store_abs (?ts[?i := t']))"
          using ops by (simp add: spec_desc_def chain cs(2) [symmetric] \<open>so = Some shape\<close> Let_def ops0_def [symmetric] st)
        ultimately show ?thesis using a cs(3) by (simp add: s step_ok_def)
      qed
    qed
  qed
qed

lemma apply_descs_refines:
  assumes "descs_ok names descs" and "set ds \<subseteq> set descs"
    and "step_ok fx (env_libm env) row names descs s"
  shows "case fold_opt (apply_desc fx env w row now_ms cold (extract_fields names row)) ds s of
      None \<Rightarrow> fold_opt (spec_desc fx env w row now_ms cold) ds (store_abs (snd s)) = None
    | Some s' \<Rightarrow> fold_opt (spec_desc fx env w row now_ms cold) ds (store_abs (snd s)) = Some (store_abs (snd s')) \<and>
        step_ok fx (env_libm env) row names descs s'"
  using assms(2,3)
proof (induction ds arbitrary: s)
  case (Cons d ds)
  note step = apply_desc_refines [OF assms(1) _ Cons.prems(2), of d w now_ms cold]
  show ?case
  proof (cases "apply_desc fx env w row now_ms cold (extract_fields names row) d s")
    case (Some s')
    then show ?thesis using step Cons.prems(1) Cons.IH [of s'] by (auto split: option.splits)
  qed (use step Cons.prems in simp)
qed simp

text \<open>The registry invariant provides what the loop needs, as long as the signatures of the
  group keys in use do not collide.\<close>

lemma registry_descs_ok:
  assumes "registry_ok sig w" and "get_event_descriptor w source = Some e" and "length (apply_field_names e) \<le> 255"
    and "inj_on sig (group_keys ` set (compiled_aggregations_for_source w source))"
  shows "descs_ok (apply_field_names e) (compiled_aggregations_for_source w source)"
proof -
  have core: "core_ok sig w" using assms(1) by (simp add: registry_ok_def)
  have "indexed (map_of (reg_events w) source) a" if "a \<in> set (compiled_aggregations_for_source w source)" for a
    using assms(1) that by (simp add: registry_ok_def)
  then have "\<forall>feat \<in> set (features a). feat_resolved (apply_field_names e) (descriptor feat)"
    if "a \<in> set (compiled_aggregations_for_source w source)" for a
    using that indexed_resolved [OF _ assms(3)] assms(2) by (auto simp: get_event_descriptor_def)
  moreover have "group_keys a = group_keys b"
    if "a \<in> set (compiled_aggregations_for_source w source)" "b \<in> set (compiled_aggregations_for_source w source)" "cluster_id a = cluster_id b" for a b
    using inj_onD [OF assms(4) core_ok_cluster [OF core that]] that by blast
  ultimately show ?thesis unfolding descs_ok_def using core_ok_agg_id [OF core] by blast
qed

section \<open>Properties\<close>


lemma example_registry_ok: "registry_ok (\<lambda>_. 0) example_registry"
  unfolding example_registry_def by (rule apply_registration_ok [OF registry_default_ok example_payload_ok])

lemma example_no_chain: "compiled_chains example_registry = []"
  by code_simp

text \<open>The example registry with a chain in front of its sum over \<open>x\<close> that fills a missing \<open>x\<close> with 5:
  the sum sees the source row's null, and the entity's row is the one an absent value leaves.\<close>

definition example_chained :: RegistryInner where
  "example_chained = example_registry\<lparr>compiled_chains := [(''D'', [CFillna [(''x'', VI64 5)]])]\<rparr>"

lemma example_chained_facts:
  "registry_ok (\<lambda>_. 0) example_chained"
  "get_event_descriptor example_chained s = get_event_descriptor example_registry s"
  "compiled_aggregations_for_source example_chained ''E'' =
     [example_agg\<lparr>features := [\<lparr>feature_name = ''s'', descriptor = default_descriptor\<lparr>desc_kind := KSum, desc_field := Some ''x'',
        field_idx := 0, field_idx_into_event_extracted := [0]\<rparr>\<rparr>], field_names := [''x'']\<rparr>]"
proof -
  show "registry_ok (\<lambda>_. 0) example_chained"
    using example_registry_ok by (simp add: registry_ok_def core_ok_def example_chained_def)
  show "get_event_descriptor example_chained s = get_event_descriptor example_registry s"
    by (simp add: get_event_descriptor_def example_chained_def)
qed code_simp


end
