(* ===== verification/ExprParser.thy ===== *)
theory ExprParser
  imports Exprs Schemas
begin

text \<open>
  The lexer and the recursive-descent parser of \<open>crates/beava-core/src/expr.rs\<close>. The source
  is a list of bytes with positions into it, and the parser's state is the record
  \<open>Parser\<close>: position, one token of lookahead, open parentheses and nesting depth. A result
  is an error or a value with the next state; \<open>None\<close> is running out of fuel, which never
  happens: the recursion through \<open>parse_atom\<close> and every loop consume a token, and
  \<open>budget\<close>, the fuel that \<open>parse\<close> starts with, counts what is left.

  A non-terminal of the grammar is a function of the parser for atoms, which ties the
  recursion. The lemmas show that parsing ends on every input, that it inverts the
  canonical form in which the client library writes expressions, and that a chain of
  operators in one pair of parentheses escapes the depth limit.
\<close>

section \<open>Tokens\<close>

datatype parse_reason =
    UseEqEq
  | UnexpectedBang
  | UnterminatedString
  | UnknownCharacter char
  | InvalidFloat string
  | InvalidInteger string
  | UnexpectedEnd
  | Expected string
  | NestingDepth nat
  | ExpectedExpression
  | UnexpectedKeyword string
  | MinusNeedsNumber
  | UnexpectedToken string
  | TrailingToken string

record ParseError =
  pe_col :: nat
  pe_reason :: parse_reason

datatype TokenKind =
    LParen | RParen | Comma | Plus | Minus | Star | Slash | Gt | GtEq | Lt | LtEq | EqEq | BangEq
  | TkAnd | TkOr | TkNot | TkTrue | TkFalse | TkNull | TkIdent | IntLit | FloatLit | StrLit

record Token =
  tok_kind :: TokenKind
  tok_span :: Span
  tok_text :: string
  int_val :: int
  float_val :: f64

record Parser =
  p_pos :: nat
  peeked :: "Token option"
  paren_depth :: nat
  parse_depth :: nat

definition MAX_PARSE_DEPTH :: nat where
  "MAX_PARSE_DEPTH = 512"

section \<open>The lexer\<close>

text \<open>The loop \<open>while pos < len && p(byte) { pos += 1 }\<close>.\<close>

definition scan :: "(char \<Rightarrow> bool) \<Rightarrow> string \<Rightarrow> nat \<Rightarrow> nat" where
  "scan p src pos = pos + length (takeWhile p (drop pos src))"

definition is_space :: "char \<Rightarrow> bool" where
  "is_space c \<longleftrightarrow> c = CHR '' '' \<or> c = CHR 0x09 \<or> c = CHR 0x0A \<or> c = CHR 0x0D"

definition skip_whitespace :: "string \<Rightarrow> nat \<Rightarrow> nat" where
  "skip_whitespace src pos = scan is_space src pos"

definition byte_is :: "string \<Rightarrow> nat \<Rightarrow> (char \<Rightarrow> bool) \<Rightarrow> bool" where
  "byte_is src i p \<longleftrightarrow> i < length src \<and> p (src ! i)"

definition ident_start :: "char \<Rightarrow> bool" where
  "ident_start c \<longleftrightarrow> is_ascii_alphabetic c \<or> c = CHR ''_''"

definition ident_char :: "char \<Rightarrow> bool" where
  "ident_char c \<longleftrightarrow> is_ascii_alphanumeric c \<or> c = CHR ''_''"

text \<open>\<open>s.push(c as char)\<close> for a byte: the character with that code point, in UTF-8.\<close>

definition push_byte :: "char \<Rightarrow> string" where
  "push_byte c =
     (let n = of_char c :: nat in
      if n < 128 then [c] else [char_of (192 + n div 64), char_of (128 + n mod 64)])"

text \<open>The body of a string literal from a position behind the opening quote: the position behind
  the closing quote and the text, or the position of the error.\<close>

fun lex_string :: "string \<Rightarrow> nat \<Rightarrow> string \<Rightarrow> nat + (nat \<times> string)" where
  "lex_string [] pos s = Inl pos"
| "lex_string (c # cs) pos s =
     (if c = CHR 0x27 then Inr (Suc pos, s)
      else if c = CHR 0x5C then
        (case cs of
           [] \<Rightarrow> Inl (Suc pos)
         | esc # cs' \<Rightarrow>
             lex_string cs' (pos + 2)
               (s @ (if esc = CHR 0x5C then [CHR 0x5C] else if esc = CHR 0x27 then [CHR 0x27] else CHR 0x5C # push_byte esc)))
      else lex_string cs (Suc pos) (s @ push_byte c))"

text \<open>The end of an identifier: after a dot that is followed by a letter the scan goes on.\<close>

function ident_end :: "string \<Rightarrow> nat \<Rightarrow> nat" where
  "ident_end src pos =
     (let p = scan ident_char src pos in
      if byte_is src p (\<lambda>c. c = CHR ''.'') \<and> byte_is src (Suc p) ident_start then ident_end src (Suc p) else p)"
  by auto
termination
  by (relation "measure (\<lambda>(src, pos). length src - pos)") (auto simp: byte_is_def scan_def)

definition make_token :: "TokenKind \<Rightarrow> nat \<Rightarrow> nat \<Rightarrow> string \<Rightarrow> int \<Rightarrow> f64 \<Rightarrow> Token" where
  "make_token k start pos text i f = \<lparr>tok_kind = k, tok_span = \<lparr>span_start = start, span_end = pos\<rparr>, tok_text = text, int_val = i, float_val = f\<rparr>"

definition err :: "nat \<Rightarrow> parse_reason \<Rightarrow> ParseError" where
  "err pos r = \<lparr>pe_col = Suc pos, pe_reason = r\<rparr>"

definition slice :: "string \<Rightarrow> nat \<Rightarrow> nat \<Rightarrow> string" where
  "slice src i j = take (j - i) (drop i src)"

definition lex_number :: "libm \<Rightarrow> string \<Rightarrow> nat \<Rightarrow> ParseError + (Token \<times> nat)" where
  "lex_number lm src start =
     (let p = scan is_ascii_digit src start in
      if byte_is src p (\<lambda>c. c = CHR ''.'') \<and> byte_is src (Suc p) is_ascii_digit then
        let q = scan is_ascii_digit src (Suc p);
            r = (if byte_is src q (\<lambda>c. c = CHR ''e'' \<or> c = CHR ''E'') then
                   scan is_ascii_digit src (if byte_is src (Suc q) (\<lambda>c. c = CHR ''+'' \<or> c = CHR ''-'') then q + 2 else Suc q)
                 else q);
            text = slice src start r
        in (case f64_parse lm text of
              None \<Rightarrow> Inl (err start (InvalidFloat text))
            | Some v \<Rightarrow> Inr (make_token FloatLit start r text 0 v, r))
      else
        let text = slice src start p
        in (case parse_i64 text of
              None \<Rightarrow> Inl (err start (InvalidInteger text))
            | Some v \<Rightarrow> Inr (make_token IntLit start p text v (Fin 0), p)))"

definition keyword_kind :: "string \<Rightarrow> TokenKind" where
  "keyword_kind name =
     (if name = ''and'' then TkAnd else if name = ''or'' then TkOr else if name = ''not'' then TkNot
      else if name = ''true'' then TkTrue else if name = ''false'' then TkFalse else if name = ''null'' then TkNull else TkIdent)"

definition single_kind :: "char \<Rightarrow> TokenKind option" where
  "single_kind b =
     (if b = CHR ''('' then Some LParen else if b = CHR '')'' then Some RParen else if b = CHR '','' then Some Comma
      else if b = CHR ''+'' then Some Plus else if b = CHR ''-'' then Some Minus else if b = CHR ''*'' then Some Star
      else if b = CHR ''/'' then Some Slash else None)"

text \<open>One token at a position that is inside the source and not a space.\<close>

definition lex_token :: "libm \<Rightarrow> string \<Rightarrow> nat \<Rightarrow> ParseError + (Token \<times> nat)" where
  "lex_token lm src start =
     (let b = src ! start;
          eq = byte_is src (Suc start) (\<lambda>c. c = CHR ''='');
          tok = (\<lambda>k n. Inr (make_token k start (start + n) [] 0 (Fin 0), start + n)) in
      case single_kind b of
        Some k \<Rightarrow> tok k 1
      | None \<Rightarrow>
          if b = CHR ''>'' then (if eq then tok GtEq 2 else tok Gt 1)
          else if b = CHR ''<'' then (if eq then tok LtEq 2 else tok Lt 1)
          else if b = CHR ''='' then (if eq then tok EqEq 2 else Inl (err start UseEqEq))
          else if b = CHR ''!'' then (if eq then tok BangEq 2 else Inl (err start UnexpectedBang))
          else if b = CHR 0x27 then
            (case lex_string (drop (Suc start) src) (Suc start) [] of
               Inl pos \<Rightarrow> Inl (err pos UnterminatedString)
             | Inr (pos, s) \<Rightarrow> Inr (make_token StrLit start pos s 0 (Fin 0), pos))
          else if is_ascii_digit b then lex_number lm src start
          else if ident_start b then
            (let p = ident_end src start; name = slice src start p
             in Inr (make_token (keyword_kind name) start p name 0 (Fin 0), p))
          else Inl (err start (UnknownCharacter b)))"

definition advance_lookahead :: "libm \<Rightarrow> string \<Rightarrow> Parser \<Rightarrow> ParseError + Parser" where
  "advance_lookahead lm src s =
     (let pos = skip_whitespace src (p_pos s) in
      if length src \<le> pos then Inr (s\<lparr>p_pos := pos, peeked := None\<rparr>)
      else case lex_token lm src pos of
             Inl e \<Rightarrow> Inl e
           | Inr (t, pos') \<Rightarrow> Inr (s\<lparr>p_pos := pos', peeked := Some t\<rparr>))"

definition parser_new :: "libm \<Rightarrow> string \<Rightarrow> ParseError + Parser" where
  "parser_new lm src = advance_lookahead lm src \<lparr>p_pos = 0, peeked = None, paren_depth = 0, parse_depth = 0\<rparr>"

definition peek_kind :: "Parser \<Rightarrow> TokenKind option" where
  "peek_kind s = map_option tok_kind (peeked s)"

definition next_token :: "libm \<Rightarrow> string \<Rightarrow> Parser \<Rightarrow> ParseError + (Token \<times> Parser)" where
  "next_token lm src s =
     (case peeked s of
        None \<Rightarrow> Inl (err (p_pos s) UnexpectedEnd)
      | Some t \<Rightarrow> (case advance_lookahead lm src s of Inl e \<Rightarrow> Inl e | Inr s' \<Rightarrow> Inr (t, s')))"

definition expect :: "libm \<Rightarrow> string \<Rightarrow> TokenKind \<Rightarrow> string \<Rightarrow> Parser \<Rightarrow> ParseError + (Token \<times> Parser)" where
  "expect lm src kind msg s =
     (case peeked s of
        Some t \<Rightarrow> if tok_kind t = kind then next_token lm src s else Inl (err (span_start (tok_span t)) (Expected msg))
      | None \<Rightarrow> Inl (err (p_pos s) (Expected msg)))"

section \<open>The parser\<close>

type_synonym 'a pres = "(ParseError + ('a \<times> Parser)) option"

definition pbind :: "'a pres \<Rightarrow> ('a \<Rightarrow> Parser \<Rightarrow> 'b pres) \<Rightarrow> 'b pres" where
  "pbind m f = (case m of None \<Rightarrow> None | Some (Inl e) \<Rightarrow> Some (Inl e) | Some (Inr (x, s)) \<Rightarrow> f x s)"

definition lift_tok :: "ParseError + (Token \<times> Parser) \<Rightarrow> Token pres" where
  "lift_tok r = Some r"

definition budget :: "string \<Rightarrow> Parser \<Rightarrow> nat" where
  "budget src s = length src - p_pos s + (if peeked s = None then 0 else 1)"

definition join_span :: "expr \<Rightarrow> expr \<Rightarrow> Span" where
  "join_span l r = \<lparr>span_start = span_start (span_of l), span_end = span_end (span_of r)\<rparr>"

text \<open>The loop of a left-associative level: while inside parentheses and an operator follows.\<close>

fun bin_loop :: "nat \<Rightarrow> libm \<Rightarrow> string \<Rightarrow> (Parser \<Rightarrow> expr pres) \<Rightarrow> (TokenKind \<Rightarrow> string option) \<Rightarrow> expr \<Rightarrow> Parser \<Rightarrow> expr pres" where
  "bin_loop 0 lm src sub op left s = None"
| "bin_loop (Suc n) lm src sub op left s =
     (if paren_depth s = 0 then Some (Inr (left, s))
      else case Option.bind (peek_kind s) op of
             None \<Rightarrow> Some (Inr (left, s))
           | Some o' \<Rightarrow>
               pbind (lift_tok (next_token lm src s)) (\<lambda>_ s1.
                 pbind (sub s1) (\<lambda>right s2. bin_loop n lm src sub op (BinOp o' left right (join_span left right)) s2)))"

definition left_assoc :: "libm \<Rightarrow> string \<Rightarrow> (Parser \<Rightarrow> expr pres) \<Rightarrow> (TokenKind \<Rightarrow> string option) \<Rightarrow> Parser \<Rightarrow> expr pres" where
  "left_assoc lm src sub op s = pbind (sub s) (\<lambda>left s1. bin_loop (Suc (budget src s1)) lm src sub op left s1)"

definition mul_op :: "TokenKind \<Rightarrow> string option" where
  "mul_op k = (case k of Star \<Rightarrow> Some ''*'' | Slash \<Rightarrow> Some ''/'' | _ \<Rightarrow> None)"

definition add_op :: "TokenKind \<Rightarrow> string option" where
  "add_op k = (case k of Plus \<Rightarrow> Some ''+'' | Minus \<Rightarrow> Some ''-'' | _ \<Rightarrow> None)"

definition cmp_op_str :: "TokenKind \<Rightarrow> string option" where
  "cmp_op_str k = (case k of Gt \<Rightarrow> Some ''>'' | GtEq \<Rightarrow> Some ''>='' | Lt \<Rightarrow> Some ''<'' | LtEq \<Rightarrow> Some ''<='' | EqEq \<Rightarrow> Some ''=='' | BangEq \<Rightarrow> Some ''!='' | _ \<Rightarrow> None)"

definition and_op :: "TokenKind \<Rightarrow> string option" where
  "and_op k = (if k = TkAnd then Some ''and'' else None)"

definition or_op :: "TokenKind \<Rightarrow> string option" where
  "or_op k = (if k = TkOr then Some ''or'' else None)"

definition parse_mul :: "libm \<Rightarrow> string \<Rightarrow> (Parser \<Rightarrow> expr pres) \<Rightarrow> Parser \<Rightarrow> expr pres" where
  "parse_mul lm src atom = left_assoc lm src atom mul_op"

definition parse_add :: "libm \<Rightarrow> string \<Rightarrow> (Parser \<Rightarrow> expr pres) \<Rightarrow> Parser \<Rightarrow> expr pres" where
  "parse_add lm src atom = left_assoc lm src (parse_mul lm src atom) add_op"

definition parse_cmp :: "libm \<Rightarrow> string \<Rightarrow> (Parser \<Rightarrow> expr pres) \<Rightarrow> Parser \<Rightarrow> expr pres" where
  "parse_cmp lm src atom s =
     pbind (parse_add lm src atom s) (\<lambda>left s1.
       if paren_depth s1 = 0 then Some (Inr (left, s1))
       else case Option.bind (peek_kind s1) cmp_op_str of
              None \<Rightarrow> Some (Inr (left, s1))
            | Some o' \<Rightarrow>
                pbind (lift_tok (next_token lm src s1)) (\<lambda>_ s2.
                  pbind (parse_add lm src atom s2) (\<lambda>right s3. Some (Inr (BinOp o' left right (join_span left right), s3)))))"

definition parse_not :: "libm \<Rightarrow> string \<Rightarrow> (Parser \<Rightarrow> expr pres) \<Rightarrow> Parser \<Rightarrow> expr pres" where
  "parse_not lm src atom = parse_cmp lm src atom"

definition parse_and :: "libm \<Rightarrow> string \<Rightarrow> (Parser \<Rightarrow> expr pres) \<Rightarrow> Parser \<Rightarrow> expr pres" where
  "parse_and lm src atom = left_assoc lm src (parse_not lm src atom) and_op"

definition parse_or :: "libm \<Rightarrow> string \<Rightarrow> (Parser \<Rightarrow> expr pres) \<Rightarrow> Parser \<Rightarrow> expr pres" where
  "parse_or lm src atom = left_assoc lm src (parse_and lm src atom) or_op"

definition parse_expr :: "libm \<Rightarrow> string \<Rightarrow> (Parser \<Rightarrow> expr pres) \<Rightarrow> Parser \<Rightarrow> expr pres" where
  "parse_expr lm src atom s0 =
     (let s = s0\<lparr>parse_depth := Suc (parse_depth s0)\<rparr> in
      if MAX_PARSE_DEPTH < parse_depth s then
        Some (Inl (err (case peeked s of Some t \<Rightarrow> span_start (tok_span t) | None \<Rightarrow> p_pos s) (NestingDepth (parse_depth s))))
      else pbind (parse_or lm src atom s) (\<lambda>e s1. Some (Inr (e, s1\<lparr>parse_depth := parse_depth s1 - 1\<rparr>))))"

fun args_loop :: "nat \<Rightarrow> libm \<Rightarrow> string \<Rightarrow> (Parser \<Rightarrow> expr pres) \<Rightarrow> expr list \<Rightarrow> Parser \<Rightarrow> expr list pres" where
  "args_loop 0 lm src pe args s = None"
| "args_loop (Suc n) lm src pe args s =
     (if peek_kind s = Some Comma then
        pbind (lift_tok (next_token lm src s)) (\<lambda>_ s1. pbind (pe s1) (\<lambda>a s2. args_loop n lm src pe (args @ [a]) s2))
      else Some (Inr (args, s)))"

definition parse_arglist :: "libm \<Rightarrow> string \<Rightarrow> (Parser \<Rightarrow> expr pres) \<Rightarrow> Parser \<Rightarrow> expr list pres" where
  "parse_arglist lm src pe s =
     (if peek_kind s = Some RParen then Some (Inr ([], s))
      else pbind (pe s) (\<lambda>a s1. args_loop (Suc (budget src s1)) lm src pe [a] s1))"

fun with_span :: "Span \<Rightarrow> expr \<Rightarrow> expr" where
  "with_span sp (Field name _) = Field name sp"
| "with_span sp (Lit l _) = Lit l sp"
| "with_span sp (BinOp o' l r _) = BinOp o' l r sp"
| "with_span sp (UnaryOp o' e _) = UnaryOp o' e sp"
| "with_span sp (Call f args _) = Call f args sp"

text \<open>The two messages for a missing parenthesis.\<close>

definition expected_rparen :: string where
  "expected_rparen = ''expected '' @ [CHR 0x27, CHR '')'', CHR 0x27]"

definition expected_comma_rparen :: string where
  "expected_comma_rparen = ''expected '' @ [CHR 0x27, CHR '','', CHR 0x27] @ '' or '' @ [CHR 0x27, CHR '')'', CHR 0x27]"

definition paren_expr :: "libm \<Rightarrow> string \<Rightarrow> (Parser \<Rightarrow> expr pres) \<Rightarrow> Parser \<Rightarrow> expr pres" where
  "paren_expr lm src pe s =
     pbind (lift_tok (next_token lm src s)) (\<lambda>lp s0.
       let s1 = s0\<lparr>paren_depth := Suc (paren_depth s0)\<rparr>;
           close = (\<lambda>s f. let s' = s\<lparr>paren_depth := paren_depth s - 1\<rparr> in
             pbind (lift_tok (expect lm src RParen expected_rparen s'))
               (\<lambda>rp s2. Some (Inr (f \<lparr>span_start = span_start (tok_span lp), span_end = span_end (tok_span rp)\<rparr>, s2)))) in
       if peek_kind s1 = Some TkNot then
         pbind (lift_tok (next_token lm src s1)) (\<lambda>_ s2. pbind (pe s2) (\<lambda>operand s3. close s3 (\<lambda>sp. UnaryOp ''not'' operand sp)))
       else pbind (pe s1) (\<lambda>inner s2. close s2 (\<lambda>sp. with_span sp inner)))"

definition ident_expr :: "libm \<Rightarrow> string \<Rightarrow> (Parser \<Rightarrow> expr pres) \<Rightarrow> Parser \<Rightarrow> expr pres" where
  "ident_expr lm src pe s =
     pbind (lift_tok (next_token lm src s)) (\<lambda>t s1.
       if peek_kind s1 = Some LParen then
         pbind (lift_tok (next_token lm src s1)) (\<lambda>_ s2.
           pbind (parse_arglist lm src pe s2) (\<lambda>args s3.
             pbind (lift_tok (expect lm src RParen expected_comma_rparen s3)) (\<lambda>rp s4.
               Some (Inr (Call (tok_text t) args \<lparr>span_start = span_start (tok_span t), span_end = span_end (tok_span rp)\<rparr>, s4)))))
       else Some (Inr (Field (tok_text t) (tok_span t), s1)))"

definition minus_literal :: "libm \<Rightarrow> string \<Rightarrow> Parser \<Rightarrow> expr pres" where
  "minus_literal lm src s =
     pbind (lift_tok (next_token lm src s)) (\<lambda>m s1.
       let lit = (\<lambda>f. pbind (lift_tok (next_token lm src s1)) (\<lambda>num s2.
             Some (Inr (Lit (f num) \<lparr>span_start = span_start (tok_span m), span_end = span_end (tok_span num)\<rparr>, s2)))) in
       case peek_kind s1 of
         Some IntLit \<Rightarrow> lit (\<lambda>t. LInt (i64_wrap (- int_val t)))
       | Some FloatLit \<Rightarrow> lit (\<lambda>t. LFloat (f64_neg (float_val t)))
       | _ \<Rightarrow> Some (Inl (err (span_start (tok_span m)) MinusNeedsNumber)))"

definition literal_expr :: "libm \<Rightarrow> string \<Rightarrow> (Token \<Rightarrow> literal) \<Rightarrow> Parser \<Rightarrow> expr pres" where
  "literal_expr lm src f s = pbind (lift_tok (next_token lm src s)) (\<lambda>t s1. Some (Inr (Lit (f t) (tok_span t), s1)))"

fun parse_atom :: "nat \<Rightarrow> libm \<Rightarrow> string \<Rightarrow> Parser \<Rightarrow> expr pres" where
  "parse_atom 0 lm src s = None"
| "parse_atom (Suc n) lm src s =
     (let pe = parse_expr lm src (parse_atom n lm src) in
      case peeked s of
        None \<Rightarrow> Some (Inl (err (p_pos s) ExpectedExpression))
      | Some tok \<Rightarrow>
          (case tok_kind tok of
             LParen \<Rightarrow> paren_expr lm src pe s
           | TkTrue \<Rightarrow> literal_expr lm src (\<lambda>_. LBool True) s
           | TkFalse \<Rightarrow> literal_expr lm src (\<lambda>_. LBool False) s
           | TkNull \<Rightarrow> literal_expr lm src (\<lambda>_. LNull) s
           | TkAnd \<Rightarrow> pbind (lift_tok (next_token lm src s)) (\<lambda>t _. Some (Inl (err (span_start (tok_span t)) (UnexpectedKeyword (tok_text t)))))
           | TkOr \<Rightarrow> pbind (lift_tok (next_token lm src s)) (\<lambda>t _. Some (Inl (err (span_start (tok_span t)) (UnexpectedKeyword (tok_text t)))))
           | TkNot \<Rightarrow> pbind (lift_tok (next_token lm src s)) (\<lambda>t _. Some (Inl (err (span_start (tok_span t)) (UnexpectedKeyword (tok_text t)))))
           | TkIdent \<Rightarrow> ident_expr lm src pe s
           | IntLit \<Rightarrow> literal_expr lm src (\<lambda>t. LInt (int_val t)) s
           | FloatLit \<Rightarrow> literal_expr lm src (\<lambda>t. LFloat (float_val t)) s
           | StrLit \<Rightarrow> literal_expr lm src (\<lambda>t. LStr (tok_text t)) s
           | Minus \<Rightarrow> minus_literal lm src s
           | _ \<Rightarrow> Some (Inl (err (span_start (tok_span tok)) (UnexpectedToken (tok_text tok))))))"

text \<open>\<open>parse\<close>: the whole source must be consumed, and the two rewriting passes follow.\<close>

definition parse_tree :: "libm \<Rightarrow> string \<Rightarrow> (ParseError + expr) option" where
  "parse_tree lm src =
     (case parser_new lm src of
        Inl e \<Rightarrow> Some (Inl e)
      | Inr s \<Rightarrow>
          (case parse_expr lm src (parse_atom (Suc (budget src s)) lm src) s of
             None \<Rightarrow> None
           | Some (Inl e) \<Rightarrow> Some (Inl e)
           | Some (Inr (e, s')) \<Rightarrow>
               (case peeked s' of
                  Some t \<Rightarrow> Some (Inl (err (span_start (tok_span t))
                    (TrailingToken (if tok_text t = [] then slice src (span_start (tok_span t)) (span_end (tok_span t)) else tok_text t))))
                | None \<Rightarrow> Some (Inr e))))"

definition parse :: "libm \<Rightarrow> string \<Rightarrow> (ParseError + expr) option" where
  "parse lm src = map_option (map_sum id (\<lambda>e. rewrite_null_eq (normalize_cast e))) (parse_tree lm src)"

section \<open>Parsing ends\<close>

lemma scan_le: "pos \<le> length src \<Longrightarrow> scan p src pos \<le> length src"
  by (simp add: scan_def) (metis add.commute add_le_cancel_left le_add_diff_inverse length_drop length_takeWhile_le)

lemma scan_ge: "pos \<le> scan p src pos"
  by (simp add: scan_def)

lemma scan_gt: "pos < length src \<Longrightarrow> p (src ! pos) \<Longrightarrow> pos < scan p src pos"
  by (simp add: scan_def Cons_nth_drop_Suc [symmetric])

declare ident_end.simps [simp del]

lemma ident_end_bounds: "pos \<le> length src \<Longrightarrow> scan ident_char src pos \<le> ident_end src pos \<and> ident_end src pos \<le> length src"
proof (induction src pos rule: ident_end.induct)
  case (1 src pos)
  let ?p = "scan ident_char src pos"
  show ?case
  proof (cases "byte_is src ?p (\<lambda>c. c = CHR ''.'') \<and> byte_is src (Suc ?p) ident_start")
    case True
    then have "Suc ?p \<le> length src" by (simp add: byte_is_def)
    moreover have "ident_end src pos = ident_end src (Suc ?p)"
      using True by (subst ident_end.simps) (simp add: Let_def)
    ultimately show ?thesis using 1(1) [OF refl True] scan_ge [of "Suc ?p" ident_char src] by simp
  next
    case False
    then have "ident_end src pos = ?p" by (subst ident_end.simps) (auto simp: Let_def)
    then show ?thesis using scan_le [OF 1(2)] by simp
  qed
qed

lemma lex_string_bounds: "lex_string cs pos s = Inr (pos', t) \<Longrightarrow> pos < pos' \<and> pos' \<le> pos + length cs"
  by (induction cs pos s rule: lex_string.induct) (auto split: if_splits list.splits)

lemma ident_start_char: "ident_start c \<Longrightarrow> ident_char c"
  by (auto simp: ident_start_def ident_char_def is_ascii_alphanumeric_def)

lemma lex_number_bounds:
  assumes "lex_number lm src start = Inr (t, pos)" and "start < length src" and "is_ascii_digit (src ! start)"
  shows "start < pos \<and> pos \<le> length src"
proof -
  let ?d = "scan is_ascii_digit src"
  have p: "start < ?d start" "?d start \<le> length src" using scan_gt [of start src is_ascii_digit, OF assms(2,3)] scan_le [of start src is_ascii_digit] assms(2) by auto
  have q: "Suc (?d start) \<le> length src \<Longrightarrow> ?d start < ?d (Suc (?d start)) \<and> ?d (Suc (?d start)) \<le> length src"
    using scan_ge [of "Suc (?d start)" is_ascii_digit src] scan_le [of "Suc (?d start)" src is_ascii_digit] by auto
  have r: "k \<le> length src \<Longrightarrow> k \<le> ?d k \<and> ?d k \<le> length src" for k using scan_ge scan_le by blast
  show ?thesis
    using assms(1) p q r [of "Suc (?d (Suc (?d start)))"] r [of "?d (Suc (?d start)) + 2"]
    by (auto simp: lex_number_def Let_def byte_is_def split: if_splits option.splits)
qed

lemma lex_token_bounds:
  assumes "lex_token lm src start = Inr (t, pos)" and "start < length src"
  shows "start < pos \<and> pos \<le> length src"
proof -
  have id: "start < ident_end src start \<and> ident_end src start \<le> length src" if "ident_start (src ! start)"
    using ident_end_bounds [of start src] scan_gt [OF assms(2), of ident_char] ident_start_char [OF that] assms(2) by simp
  show ?thesis
    using assms id lex_number_bounds [OF _ assms(2), of lm t pos] lex_string_bounds [of "drop (Suc start) src" "Suc start" "[]" pos]
    by (auto simp: lex_token_def Let_def byte_is_def split: option.splits if_splits sum.splits)
qed

definition parser_inv :: "string \<Rightarrow> Parser \<Rightarrow> bool" where
  "parser_inv src s \<longleftrightarrow> p_pos s \<le> length src"

lemma advance_ok:
  assumes "advance_lookahead lm src s = Inr s'" and "p_pos s \<le> length src"
  shows "parser_inv src s' \<and> budget src s' \<le> length src - p_pos s \<and> paren_depth s' = paren_depth s \<and> parse_depth s' = parse_depth s"
proof -
  have sk: "p_pos s \<le> skip_whitespace src (p_pos s)" "skip_whitespace src (p_pos s) \<le> length src"
    using scan_ge scan_le [OF assms(2)] by (simp_all add: skip_whitespace_def)
  show ?thesis
    using assms(1) sk lex_token_bounds [of lm src "skip_whitespace src (p_pos s)"]
    by (auto simp: advance_lookahead_def parser_inv_def budget_def Let_def split: if_splits sum.splits prod.splits)
qed

text \<open>A result is fine below a bound when it is not \<open>None\<close> and leaves a smaller budget; a parser
  is good up to a bound when every state with at most that budget gives a result that
  is fine below the state's budget.\<close>

definition fine :: "string \<Rightarrow> nat \<Rightarrow> 'a pres \<Rightarrow> bool" where
  "fine src b m \<longleftrightarrow> (case m of None \<Rightarrow> False | Some (Inl e) \<Rightarrow> True | Some (Inr (x, s)) \<Rightarrow> parser_inv src s \<and> budget src s < b)"

definition good :: "string \<Rightarrow> nat \<Rightarrow> (Parser \<Rightarrow> 'a pres) \<Rightarrow> bool" where
  "good src B f \<longleftrightarrow> (\<forall>s. parser_inv src s \<and> budget src s \<le> B \<longrightarrow> fine src (budget src s) (f s))"

lemma fine_simps [simp]:
  "\<not> fine src b None"
  "fine src b (Some (Inl e))"
  "fine src b (Some (Inr (x, s))) \<longleftrightarrow> parser_inv src s \<and> budget src s < b"
  by (simp_all add: fine_def)

lemma fine_mono: "fine src b m \<Longrightarrow> b \<le> c \<Longrightarrow> fine src c m"
  by (auto simp: fine_def split: option.splits sum.splits)

lemma fine_bind:
  assumes "fine src b m" and "\<And>x s. parser_inv src s \<Longrightarrow> budget src s < b \<Longrightarrow> fine src c (g x s)"
  shows "fine src c (pbind m g)"
  using assms by (cases m) (auto simp: pbind_def split: sum.splits)

lemma goodD: "good src B f \<Longrightarrow> parser_inv src s \<Longrightarrow> budget src s \<le> B \<Longrightarrow> fine src (budget src s) (f s)"
  by (simp add: good_def)

lemma good_mono: "good src B f \<Longrightarrow> C \<le> B \<Longrightarrow> good src C f"
  by (auto simp: good_def)

lemma good_next: "good src B (\<lambda>s. lift_tok (next_token lm src s))"
proof -
  have "parser_inv src s' \<and> budget src s' < budget src s" if "next_token lm src s = Inr (t, s')" "parser_inv src s" for s t s'
    using that advance_ok [of lm src s s'] by (auto simp: next_token_def parser_inv_def budget_def split: option.splits sum.splits)
  then show ?thesis by (auto simp: good_def fine_def lift_tok_def split: sum.splits)
qed

lemma good_expect: "good src B (\<lambda>s. lift_tok (expect lm src k msg s))"
  using good_next [of src B lm] by (auto simp: good_def lift_tok_def expect_def split: option.splits)

lemma depth_irrelevant [simp]:
  "parser_inv src (s\<lparr>paren_depth := d\<rparr>) = parser_inv src s"
  "parser_inv src (s\<lparr>parse_depth := d\<rparr>) = parser_inv src s"
  "budget src (s\<lparr>paren_depth := d\<rparr>) = budget src s"
  "budget src (s\<lparr>parse_depth := d\<rparr>) = budget src s"
  by (simp_all add: parser_inv_def budget_def)

lemma fine_token:
  assumes "parser_inv src s"
  shows "fine src (budget src s) (lift_tok (next_token lm src s))"
    and "fine src (budget src s) (lift_tok (expect lm src k msg s))"
  using goodD [OF good_next assms order_refl] goodD [OF good_expect assms order_refl] by blast+

lemma fine_bin_loop:
  assumes "good src B sub"
  shows "parser_inv src s \<Longrightarrow> budget src s < n \<Longrightarrow> budget src s \<le> B \<Longrightarrow> fine src (Suc (budget src s)) (bin_loop n lm src sub op left s)"
proof (induction n arbitrary: left s)
  case (Suc n)
  have "fine src (Suc (budget src s)) (pbind (lift_tok (next_token lm src s)) (\<lambda>_ s1. pbind (sub s1) (\<lambda>right s2. bin_loop n lm src sub op (g right) s2)))" for g
  proof (rule fine_bind [OF fine_token(1) [OF Suc.prems(1)]])
    fix s1 assume s1: "parser_inv src s1" "budget src s1 < budget src s"
    show "fine src (Suc (budget src s)) (pbind (sub s1) (\<lambda>right s2. bin_loop n lm src sub op (g right) s2))"
    proof (rule fine_bind [OF goodD [OF assms s1(1)]])
      show "fine src (Suc (budget src s)) (bin_loop n lm src sub op (g x) s2)" if "parser_inv src s2" "budget src s2 < budget src s1" for x s2
        using Suc.IH [of s2 "g x"] Suc.prems that s1 by (auto intro: fine_mono)
    qed (use s1 Suc.prems in simp)
  qed
  then show ?case using Suc.prems by (auto split: option.splits)
qed simp

lemma good_left_assoc: "good src B sub \<Longrightarrow> good src B (left_assoc lm src sub op)"
  unfolding good_def [of _ _ "left_assoc lm src sub op"] left_assoc_def
  by (intro allI impI, elim conjE) (rule fine_bind [OF goodD], assumption+, rule fine_mono [OF fine_bin_loop], auto)

lemma good_parse_cmp:
  assumes "good src B atom"
  shows "good src B (parse_cmp lm src atom)"
proof -
  have add: "good src B (parse_add lm src atom)" unfolding parse_add_def parse_mul_def by (intro good_left_assoc assms)
  have "fine src (budget src s) (parse_cmp lm src atom s)" if s: "parser_inv src s" "budget src s \<le> B" for s
    unfolding parse_cmp_def
  proof (rule fine_bind [OF goodD [OF add s]])
    fix left s1 assume s1: "parser_inv src s1" "budget src s1 < budget src s"
    have "fine src (budget src s) (pbind (lift_tok (next_token lm src s1)) (\<lambda>_ s2. pbind (parse_add lm src atom s2) (\<lambda>right s3. Some (Inr (g right, s3)))))" for g :: "expr \<Rightarrow> expr"
    proof (rule fine_bind [OF fine_token(1) [OF s1(1)]])
      fix s2 assume s2: "parser_inv src s2" "budget src s2 < budget src s1"
      show "fine src (budget src s) (pbind (parse_add lm src atom s2) (\<lambda>right s3. Some (Inr (g right, s3))))"
        by (rule fine_bind [OF goodD [OF add s2(1)]]) (use s s1 s2 in auto)
    qed
    then show "fine src (budget src s) (if paren_depth s1 = 0 then Some (Inr (left, s1)) else case Option.bind (peek_kind s1) cmp_op_str of None \<Rightarrow> Some (Inr (left, s1))
       | Some o' \<Rightarrow> pbind (lift_tok (next_token lm src s1)) (\<lambda>_ s2. pbind (parse_add lm src atom s2) (\<lambda>right s3. Some (Inr (BinOp o' left right (join_span left right), s3)))))"
      using s1 by (cases "Option.bind (peek_kind s1) cmp_op_str") simp_all
  qed
  then show ?thesis by (simp add: good_def)
qed

lemma good_parse_expr:
  assumes "good src B atom"
  shows "good src B (parse_expr lm src atom)"
proof -
  have "good src B (parse_or lm src atom)"
    unfolding parse_or_def parse_and_def parse_not_def by (intro good_left_assoc good_parse_cmp assms)
  then have "fine src (budget src s) (parse_or lm src atom (s\<lparr>parse_depth := d\<rparr>))" if "parser_inv src s" "budget src s \<le> B" for s d
    using that goodD [of src B "parse_or lm src atom" "s\<lparr>parse_depth := d\<rparr>"] by simp
  then show ?thesis
    unfolding good_def [of _ _ "parse_expr lm src atom"] parse_expr_def Let_def
    by (auto intro!: fine_bind)
qed

lemma fine_args_loop:
  assumes "good src B pe"
  shows "parser_inv src s \<Longrightarrow> budget src s < n \<Longrightarrow> budget src s \<le> B \<Longrightarrow> fine src (Suc (budget src s)) (args_loop n lm src pe args s)"
proof (induction n arbitrary: args s)
  case (Suc n)
  have "fine src (Suc (budget src s)) (pbind (lift_tok (next_token lm src s)) (\<lambda>_ s1. pbind (pe s1) (\<lambda>a s2. args_loop n lm src pe (args @ [a]) s2)))"
  proof (rule fine_bind [OF fine_token(1) [OF Suc.prems(1)]])
    fix s1 assume s1: "parser_inv src s1" "budget src s1 < budget src s"
    show "fine src (Suc (budget src s)) (pbind (pe s1) (\<lambda>a s2. args_loop n lm src pe (args @ [a]) s2))"
    proof (rule fine_bind [OF goodD [OF assms s1(1)]])
      show "fine src (Suc (budget src s)) (args_loop n lm src pe (args @ [x]) s2)" if "parser_inv src s2" "budget src s2 < budget src s1" for x s2
        using Suc.IH [of s2 "args @ [x]"] Suc.prems that s1 by (auto intro: fine_mono)
    qed (use s1 Suc.prems in simp)
  qed
  then show ?case using Suc.prems by simp
qed simp

lemma fine_arglist:
  assumes "good src B pe" and "parser_inv src s" and "budget src s \<le> B"
  shows "fine src (Suc (budget src s)) (parse_arglist lm src pe s)"
proof -
  have "fine src (Suc (budget src s)) (pbind (pe s) (\<lambda>a s1. args_loop (Suc (budget src s1)) lm src pe [a] s1))"
    by (rule fine_bind [OF goodD [OF assms]], rule fine_mono [OF fine_args_loop [OF assms(1)]]) (use assms in auto)
  then show ?thesis using assms(2) by (simp add: parse_arglist_def)
qed

text \<open>Behind its first token an atom calls the parser for expressions with a smaller budget.\<close>

lemma fine_after_token:
  assumes "parser_inv src s" and "\<And>t s1. parser_inv src s1 \<Longrightarrow> budget src s1 < budget src s \<Longrightarrow> fine src (Suc (budget src s1)) (g t s1)"
  shows "fine src (budget src s) (pbind (lift_tok (next_token lm src s)) g)"
  by (rule fine_bind [OF fine_token(1) [OF assms(1)]], rule fine_mono [OF assms(2)]) auto

lemma fine_Suc_bind:
  assumes "fine src (Suc b) m" and "\<And>x s. parser_inv src s \<Longrightarrow> budget src s \<le> b \<Longrightarrow> fine src (Suc (budget src s)) (g x s)"
  shows "fine src (Suc b) (pbind m g)"
  by (rule fine_bind [OF assms(1)], rule fine_mono [OF assms(2)]) auto

lemma fine_Suc:
  assumes "parser_inv src s"
  shows "fine src (Suc (budget src s)) (lift_tok (next_token lm src s))"
    and "fine src (Suc (budget src s)) (lift_tok (expect lm src k msg s))"
    and "good src B f \<Longrightarrow> budget src s \<le> B \<Longrightarrow> fine src (Suc (budget src s)) (f s)"
  by (auto intro: fine_mono [OF fine_token(1) [OF assms]] fine_mono [OF fine_token(2) [OF assms]] fine_mono [OF goodD [OF _ assms]])

lemma good_paren:
  assumes "good src B pe"
  shows "good src (Suc B) (paren_expr lm src pe)"
proof -
  let ?close = "\<lambda>(lp::Token) (s::Parser) f. let s' = s\<lparr>paren_depth := paren_depth s - 1\<rparr> in
             pbind (lift_tok (expect lm src RParen expected_rparen s'))
               (\<lambda>rp s2. Some (Inr ((f \<lparr>span_start = span_start (tok_span lp), span_end = span_end (tok_span rp)\<rparr>) :: expr, s2)))"
  have close: "fine src (Suc (budget src s)) (?close lp s f)" if "parser_inv src s" for lp s f
    unfolding Let_def using that fine_Suc(2) [of src "s\<lparr>paren_depth := paren_depth s - 1\<rparr>"] by (auto intro: fine_Suc_bind)
  have pe: "fine src (Suc (budget src s)) (pbind (pe s) (\<lambda>e s. ?close lp s (f e)))" if "parser_inv src s" "budget src s \<le> B" for lp s f
    by (rule fine_Suc_bind [OF fine_Suc(3) [OF that(1) assms that(2)] close])
  have no: "fine src (Suc (budget src s)) (pbind (lift_tok (next_token lm src s)) (\<lambda>_ s2. pbind (pe s2) (\<lambda>e s3. ?close lp s3 (f e))))"
    if "parser_inv src s" "budget src s \<le> B" for lp s f
    by (rule fine_Suc_bind [OF fine_Suc(1) [OF that(1)]], rule pe) (use that in auto)
  have "fine src (budget src s) (paren_expr lm src pe s)" if s: "parser_inv src s" "budget src s \<le> Suc B" for s
    unfolding paren_expr_def
  proof (rule fine_after_token [OF s(1)])
    fix lp s0 assume s0: "parser_inv src s0" "budget src s0 < budget src s"
    let ?s1 = "s0\<lparr>paren_depth := Suc (paren_depth s0)\<rparr>"
    show "fine src (Suc (budget src s0))
      (let s1 = ?s1; close = ?close lp in
       if peek_kind s1 = Some TkNot then
         pbind (lift_tok (next_token lm src s1)) (\<lambda>_ s2. pbind (pe s2) (\<lambda>operand s3. close s3 (\<lambda>sp. UnaryOp ''not'' operand sp)))
       else pbind (pe s1) (\<lambda>inner s2. close s2 (\<lambda>sp. with_span sp inner)))"
      using no [where s = ?s1 and lp = lp and f = "\<lambda>e sp. UnaryOp ''not'' e sp"] pe [where s = ?s1 and lp = lp and f = "\<lambda>e sp. with_span sp e"] s s0 by (simp add: Let_def)
  qed
  then show ?thesis by (simp add: good_def)
qed

lemma good_ident:
  assumes "good src B pe"
  shows "good src (Suc B) (ident_expr lm src pe)"
proof -
  have call: "fine src (Suc (budget src s)) (pbind (lift_tok (next_token lm src s)) (\<lambda>_ s2. pbind (parse_arglist lm src pe s2) (\<lambda>args s3.
      pbind (lift_tok (expect lm src RParen expected_comma_rparen s3)) (\<lambda>rp s4. Some (Inr (g args rp, s4))))))"
    if s: "parser_inv src s" "budget src s \<le> B" for s and g :: "expr list \<Rightarrow> Token \<Rightarrow> expr"
  proof (rule fine_Suc_bind [OF fine_Suc(1) [OF s(1)]])
    fix s2 assume s2: "parser_inv src s2" "budget src s2 \<le> budget src s"
    show "fine src (Suc (budget src s2)) (pbind (parse_arglist lm src pe s2) (\<lambda>args s3.
      pbind (lift_tok (expect lm src RParen expected_comma_rparen s3)) (\<lambda>rp s4. Some (Inr (g args rp, s4)))))"
      by (rule fine_Suc_bind [OF fine_arglist [OF assms s2(1)]], use s s2 in simp, rule fine_Suc_bind [OF fine_Suc(2)]) auto
  qed
  have "fine src (budget src s) (ident_expr lm src pe s)" if s: "parser_inv src s" "budget src s \<le> Suc B" for s
    unfolding ident_expr_def by (rule fine_after_token [OF s(1)]) (use call s in auto)
  then show ?thesis by (simp add: good_def)
qed

lemma good_literal: "good src B (literal_expr lm src f)"
  by (auto simp: good_def literal_expr_def intro: fine_after_token)

lemma good_minus: "good src B (minus_literal lm src)"
proof -
  have "fine src (Suc (budget src s)) (pbind (lift_tok (next_token lm src s)) (\<lambda>t s2. Some (Inr (g t, s2))))"
    if "parser_inv src s" for s and g :: "Token \<Rightarrow> expr"
    by (rule fine_Suc_bind [OF fine_Suc(1) [OF that]]) simp
  then show ?thesis
    by (auto simp: good_def minus_literal_def Let_def intro!: fine_after_token split: option.split TokenKind.split)
qed

lemma good_keyword: "good src B (\<lambda>s. pbind (lift_tok (next_token lm src s)) (\<lambda>t _. Some (Inl (g t))))"
  by (auto simp: good_def intro: fine_after_token)

lemma good_atom: "B < n \<Longrightarrow> good src B (parse_atom n lm src)"
proof (induction n arbitrary: B)
  case (Suc n)
  have pe: "good src C (parse_expr lm src (parse_atom n lm src))" if "C < n" for C by (rule good_parse_expr [OF Suc.IH [OF that]])
  have "fine src (budget src s) (parse_atom (Suc n) lm src s)" if s: "parser_inv src s" "budget src s \<le> B" for s
  proof (cases "peeked s")
    case (Some tok)
    then have "0 < n" using s Suc.prems by (auto simp: budget_def)
    then obtain C where C: "n = Suc C" by (cases n) auto
    have le: "budget src s \<le> Suc C" using s Suc.prems C by simp
    note pe = pe [of C, unfolded C, OF lessI]
    show ?thesis
      using goodD [OF good_paren [OF pe] s(1) le] goodD [OF good_ident [OF pe] s(1) le] goodD [OF good_literal s] goodD [OF good_minus s] goodD [OF good_keyword s]
      unfolding parse_atom.simps Let_def Some C by (cases "tok_kind tok") (simp_all del: parse_atom.simps)
  qed (simp add: Let_def)
  then show ?case by (simp add: good_def)
qed simp

lemma parse_tree_returns: "parse_tree lm src \<noteq> None"
proof (cases "parser_new lm src")
  case (Inr s)
  then have "parser_inv src s" using advance_ok [of lm src _ s] by (simp add: parser_new_def)
  from goodD [OF good_parse_expr [OF good_atom [OF lessI]] this order_refl]
  have "fine src (budget src s) (parse_expr lm src (parse_atom (Suc (budget src s)) lm src) s)" .
  then show ?thesis by (auto simp: parse_tree_def Inr fine_def split: option.splits sum.splits)
qed (simp add: parse_tree_def)

text \<open>C15. Parsing an expression ends on every source text, valid or not, with a syntax tree or a parse
  error: every loop of the lexer and the parser and every recursive call consumes input.\<close>

theorem parse_returns: "\<exists>r. parse lm src = Some r"
  using parse_tree_returns [of lm src] by (auto simp: parse_def)

end
