(* ===== verification/SchemaProp.thy ===== *)
theory SchemaProp
  imports ExprParser OpChain
begin

text \<open>
  Register-time typing of op chains: \<open>crates/beava-core/src/schema_propagate.rs\<close>, the
  compilation of chains (\<open>OpChain::compile\<close> of \<open>op_chain.rs\<close>), and the check of pushed rows
  against an event's schema (\<open>crates/beava-server/src/apply_shard.rs\<close>). A function that pushes
  onto the caller's error list returns the errors it pushes. A \<open>BTreeMap\<close> is an association
  list sorted by key.

  The lemmas show that the types are sound for the evaluator and for compiled chains: a row
  that fits the input schema leaves a compiled chain as a row that fits the propagated one, when the chain
  meets conditions that registration does not test.
\<close>

section \<open>Schemas and errors\<close>

definition schema_new :: Schema where
  "schema_new = \<lparr>sch_fields = [], sch_optional_fields = []\<rparr>"

definition from_event :: "EventSchema \<Rightarrow> Schema" where
  "from_event s = \<lparr>sch_fields = es_fields s, sch_optional_fields = es_optional_fields s\<rparr>"

definition from_table :: "TableSchema \<Rightarrow> Schema" where
  "from_table s = \<lparr>sch_fields = ts_fields s, sch_optional_fields = ts_optional_fields s\<rparr>"

definition from_derived :: "DerivedSchema \<Rightarrow> Schema" where
  "from_derived s = \<lparr>sch_fields = ds_fields s, sch_optional_fields = ds_optional_fields s\<rparr>"

definition into_derived :: "Schema \<Rightarrow> DerivedSchema" where
  "into_derived s = \<lparr>ds_fields = sch_fields s, ds_optional_fields = sch_optional_fields s\<rparr>"

datatype InferredType = Known FieldType | NullLiteral

text \<open>The reasons of a \<open>TypeMismatch\<close>, which the code formats as text.\<close>

datatype mismatch =
    NotNeedsBool InferredType
  | UnknownUnary string
  | NotComparable string InferredType InferredType
  | BoolOpNeedsBool string InferredType InferredType
  | UnknownBinary string
  | NotNumeric string InferredType InferredType
  | UnknownFunction string
  | BadArity string nat nat
  | CastArg expr
  | UnknownCastTarget string
  | UnhandledBuiltin string
  | CannotCast string FieldType FieldType

datatype PropagationError =
    FieldMissing nat string
  | TypeMismatch nat mismatch
  | RenameCollision nat string
  | InvalidExpr nat ParseError
  | UnsupportedOp nat string

section \<open>Type inference\<close>

definition parse_cast_target :: "string \<Rightarrow> FieldType option" where
  "parse_cast_target s =
     (if s = ''str'' then Some TStr else if s = ''int'' then Some TI64
      else if s = ''float'' then Some TF64 else if s = ''bool'' then Some TBool else None)"

definition is_cast_legal :: "FieldType \<Rightarrow> FieldType \<Rightarrow> bool" where
  "is_cast_legal source target \<longleftrightarrow> source \<noteq> TBytes \<and> (target = TStr \<or> target = TI64 \<or> target = TF64 \<or> target = TBool)"

definition is_bool_compatible :: "InferredType \<Rightarrow> bool" where
  "is_bool_compatible it \<longleftrightarrow> it = Known TBool \<or> it = NullLiteral"

definition is_numeric_ft :: "FieldType \<Rightarrow> bool" where
  "is_numeric_ft ft \<longleftrightarrow> ft = TI64 \<or> ft = TF64"

fun types_are_comparable :: "InferredType \<Rightarrow> InferredType \<Rightarrow> bool" where
  "types_are_comparable (Known l) (Known r) = (l = r \<or> is_numeric_ft l \<and> is_numeric_ft r)"
| "types_are_comparable _ _ = True"

type_synonym inference = "InferredType option \<times> PropagationError list"

definition resolve_null_arithmetic :: "string \<Rightarrow> InferredType \<Rightarrow> InferredType option" where
  "resolve_null_arithmetic op other =
     (if op = ''/'' then
        (case other of
           NullLiteral \<Rightarrow> Some NullLiteral
         | Known ft \<Rightarrow> if ft = TF64 \<or> ft = TI64 then Some (Known ft) else None)
      else Some other)"

definition infer_arithmetic_type :: "nat \<Rightarrow> string \<Rightarrow> InferredType \<Rightarrow> InferredType \<Rightarrow> inference" where
  "infer_arithmetic_type op_index op lt rt =
     (case (lt, rt) of
        (NullLiteral, _) \<Rightarrow> (resolve_null_arithmetic op rt, [])
      | (_, NullLiteral) \<Rightarrow> (resolve_null_arithmetic op lt, [])
      | (Known l, Known r) \<Rightarrow>
          if \<not> is_numeric_ft l \<or> \<not> is_numeric_ft r then (None, [TypeMismatch op_index (NotNumeric op lt rt)])
          else if l = TF64 \<or> r = TF64 then (Some (Known TF64), []) else (Some (Known TI64), []))"

definition infer_binop_type :: "nat \<Rightarrow> string \<Rightarrow> InferredType \<Rightarrow> InferredType \<Rightarrow> inference" where
  "infer_binop_type op_index op lt rt =
     (if op \<in> {''>'', ''>='', ''<'', ''<='', ''=='', ''!=''} then
        (if types_are_comparable lt rt then (Some (Known TBool), []) else (None, [TypeMismatch op_index (NotComparable op lt rt)]))
      else if op = ''and'' \<or> op = ''or'' then
        (if is_bool_compatible lt \<and> is_bool_compatible rt then (Some (Known TBool), [])
         else (None, [TypeMismatch op_index (BoolOpNeedsBool op lt rt)]))
      else if op \<in> {''+'', ''-'', ''*'', ''/''} then infer_arithmetic_type op_index op lt rt
      else (None, [TypeMismatch op_index (UnknownBinary op)]))"

fun literal_type :: "literal \<Rightarrow> InferredType" where
  "literal_type LNull = NullLiteral"
| "literal_type (LBool _) = Known TBool"
| "literal_type (LInt _) = Known TI64"
| "literal_type (LFloat _) = Known TF64"
| "literal_type (LStr _) = Known TStr"
| "literal_type (LBareIdent _) = Known TStr"

text \<open>The target of \<open>cast\<close> from its second argument.\<close>

definition infer_cast_target :: "nat \<Rightarrow> expr \<Rightarrow> inference" where
  "infer_cast_target op_index arg =
     (let target = (\<lambda>s. case parse_cast_target s of
            Some ft \<Rightarrow> (Some (Known ft), [])
          | None \<Rightarrow> (None, [TypeMismatch op_index (UnknownCastTarget s)])) in
      case arg of
        Lit (LBareIdent s) _ \<Rightarrow> target s
      | Lit (LStr s) _ \<Rightarrow> target s
      | _ \<Rightarrow> (None, [TypeMismatch op_index (CastArg arg)]))"

text \<open>\<open>infer_call_type\<close>, given the errors of its first argument, which it infers only for them.
  The table's arities rule out an empty argument list behind the arity check.\<close>

definition infer_call_type :: "libm \<Rightarrow> nat \<Rightarrow> string \<Rightarrow> expr list \<Rightarrow> PropagationError list \<Rightarrow> inference" where
  "infer_call_type lm op_index fn args arg_errors =
     (case lookup_builtin lm fn of
        None \<Rightarrow> (None, [TypeMismatch op_index (UnknownFunction fn)])
      | Some (n, _) \<Rightarrow>
          if length args \<noteq> n then (None, [TypeMismatch op_index (BadArity fn n (length args))])
          else if fn = ''isnull'' then (Some (Known TBool), arg_errors)
          else if fn = ''cast'' then apsnd (\<lambda>es. arg_errors @ es) (infer_cast_target op_index (args ! 1))
          else (None, [TypeMismatch op_index (UnhandledBuiltin fn)]))"

text \<open>\<open>infer_expr_type_inner\<close>, with the inference of its operands in place of \<open>infer_binop_type\<close>'s.\<close>

fun infer_expr_type_inner :: "libm \<Rightarrow> nat \<Rightarrow> expr \<Rightarrow> Schema \<Rightarrow> inference" where
  "infer_expr_type_inner lm op_index (Field name _) schema = (map_option Known (map_of (sch_fields schema) name), [])"
| "infer_expr_type_inner lm op_index (Lit l _) schema = (Some (literal_type l), [])"
| "infer_expr_type_inner lm op_index (UnaryOp op e _) schema =
     (case infer_expr_type_inner lm op_index e schema of
        (None, es) \<Rightarrow> (None, es)
      | (Some ot, es) \<Rightarrow>
          if op = ''not'' then
            (if is_bool_compatible ot then (Some (Known TBool), es) else (None, es @ [TypeMismatch op_index (NotNeedsBool ot)]))
          else (None, es @ [TypeMismatch op_index (UnknownUnary op)]))"
| "infer_expr_type_inner lm op_index (BinOp op l r _) schema =
     (case infer_expr_type_inner lm op_index l schema of
        (None, es) \<Rightarrow> (None, es)
      | (Some lt, es) \<Rightarrow>
          (case infer_expr_type_inner lm op_index r schema of
             (None, es') \<Rightarrow> (None, es @ es')
           | (Some rt, es') \<Rightarrow> apsnd (\<lambda>es''. es @ es' @ es'') (infer_binop_type op_index op lt rt)))"
| "infer_expr_type_inner lm op_index (Call fn args _) schema =
     infer_call_type lm op_index fn args (case args of [] \<Rightarrow> [] | a # _ \<Rightarrow> snd (infer_expr_type_inner lm op_index a schema))"

definition check_referenced_fields :: "nat \<Rightarrow> expr \<Rightarrow> Schema \<Rightarrow> PropagationError list" where
  "check_referenced_fields op_index ast schema =
     map (FieldMissing op_index) (filter (\<lambda>f. map_of (sch_fields schema) f = None) (sorted_list_of_set (referenced_fields ast)))"

section \<open>Per-operator schema logic\<close>

text \<open>\<open>expr::parse\<close> as the total function it is.\<close>

definition expr_parse :: "libm \<Rightarrow> string \<Rightarrow> ParseError + expr" where
  "expr_parse lm src = (case parse lm src of Some r \<Rightarrow> r | None \<Rightarrow> Inl (err 0 UnexpectedEnd))"

type_synonym schema_step = "Schema \<times> PropagationError list"

definition apply_filter_schema :: "libm \<Rightarrow> nat \<Rightarrow> string \<Rightarrow> Schema \<Rightarrow> PropagationError list" where
  "apply_filter_schema lm op_index src schema =
     (case expr_parse lm src of
        Inl pe \<Rightarrow> [InvalidExpr op_index pe]
      | Inr ast \<Rightarrow> check_referenced_fields op_index ast schema @ snd (infer_expr_type_inner lm op_index ast schema))"

fun select_schema_loop :: "nat \<Rightarrow> string list \<Rightarrow> Schema \<Rightarrow> Schema \<Rightarrow> schema_step" where
  "select_schema_loop op_index [] current new = (new, [])"
| "select_schema_loop op_index (f # fs) current new =
     (case map_of (sch_fields current) f of
        Some ft \<Rightarrow>
          select_schema_loop op_index fs current
            \<lparr>sch_fields = btree_insert f ft (sch_fields new),
             sch_optional_fields = sch_optional_fields new @ (if f \<in> set (sch_optional_fields current) then [f] else [])\<rparr>
      | None \<Rightarrow> apsnd ((#) (FieldMissing op_index f)) (select_schema_loop op_index fs current new))"

definition apply_select_schema :: "nat \<Rightarrow> string list \<Rightarrow> Schema \<Rightarrow> schema_step" where
  "apply_select_schema op_index fs current = select_schema_loop op_index fs current schema_new"

fun apply_drop_schema :: "nat \<Rightarrow> string list \<Rightarrow> Schema \<Rightarrow> schema_step" where
  "apply_drop_schema op_index [] current = (current, [])"
| "apply_drop_schema op_index (f # fs) current =
     (if map_of (sch_fields current) f \<noteq> None then
        apply_drop_schema op_index fs
          \<lparr>sch_fields = filter (\<lambda>(k, _). k \<noteq> f) (sch_fields current), sch_optional_fields = filter (\<lambda>x. x \<noteq> f) (sch_optional_fields current)\<rparr>
      else apsnd ((#) (FieldMissing op_index f)) (apply_drop_schema op_index fs current))"

definition rename_errors :: "nat \<Rightarrow> (string \<times> string) list \<Rightarrow> Schema \<Rightarrow> PropagationError list" where
  "rename_errors op_index mapping current =
     concat (map (\<lambda>(old, new).
       (if map_of (sch_fields current) old = None then [FieldMissing op_index old] else []) @
       (if map_of (sch_fields current) new \<noteq> None \<and> new \<notin> fst ` set mapping then [RenameCollision op_index new] else [])) mapping)"

fun rename_schema_loop :: "(string \<times> string) list \<Rightarrow> string list \<Rightarrow> (string \<times> FieldType) list \<Rightarrow> Schema \<Rightarrow> Schema" where
  "rename_schema_loop mapping optional [] new = new"
| "rename_schema_loop mapping optional ((k, v) # rest) new =
     (let k' = (case map_of mapping k of Some new_name \<Rightarrow> new_name | None \<Rightarrow> k) in
      rename_schema_loop mapping optional rest
        \<lparr>sch_fields = btree_insert k' v (sch_fields new),
         sch_optional_fields = sch_optional_fields new @ (if k \<in> set optional then [k'] else [])\<rparr>)"

definition apply_rename_schema :: "nat \<Rightarrow> (string \<times> string) list \<Rightarrow> Schema \<Rightarrow> schema_step" where
  "apply_rename_schema op_index mapping current =
     (rename_schema_loop mapping (sch_optional_fields current) (sch_fields current) schema_new, rename_errors op_index mapping current)"

text \<open>One column: a typed expression replaces the field, an untyped null literal becomes a string
  field, and a failed inference leaves the schema as it is.\<close>

definition apply_column_schema :: "libm \<Rightarrow> nat \<Rightarrow> string \<Rightarrow> string \<Rightarrow> Schema \<Rightarrow> schema_step" where
  "apply_column_schema lm op_index name src current =
     (case expr_parse lm src of
        Inl pe \<Rightarrow> (current, [InvalidExpr op_index pe])
      | Inr ast \<Rightarrow>
          (let errs = check_referenced_fields op_index ast current;
               (ty, local_errors) = infer_expr_type_inner lm op_index ast current in
           (case ty of
              Some (Known ft) \<Rightarrow>
                \<lparr>sch_fields = btree_insert name ft (sch_fields current), sch_optional_fields = filter (\<lambda>x. x \<noteq> name) (sch_optional_fields current)\<rparr>
            | Some NullLiteral \<Rightarrow> current\<lparr>sch_fields := btree_insert name TStr (sch_fields current)\<rparr>
            | None \<Rightarrow> current,
            errs @ local_errors)))"

fun apply_with_columns_schema :: "libm \<Rightarrow> nat \<Rightarrow> (string \<times> string) list \<Rightarrow> Schema \<Rightarrow> schema_step" where
  "apply_with_columns_schema lm op_index [] current = (current, [])"
| "apply_with_columns_schema lm op_index ((name, src) # exprs) current =
     (let (current', es) = apply_column_schema lm op_index name src current in
      apsnd (\<lambda>es'. es @ es') (apply_with_columns_schema lm op_index exprs current'))"

fun apply_cast_schema :: "nat \<Rightarrow> (string \<times> string) list \<Rightarrow> Schema \<Rightarrow> schema_step" where
  "apply_cast_schema op_index [] current = (current, [])"
| "apply_cast_schema op_index ((field, target_str) # type_map) current =
     (case map_of (sch_fields current) field of
        None \<Rightarrow> apsnd ((#) (FieldMissing op_index field)) (apply_cast_schema op_index type_map current)
      | Some source_type \<Rightarrow>
          (case parse_cast_target target_str of
             None \<Rightarrow> apsnd ((#) (TypeMismatch op_index (UnknownCastTarget target_str))) (apply_cast_schema op_index type_map current)
           | Some target_type \<Rightarrow>
               if \<not> is_cast_legal source_type target_type then
                 apsnd ((#) (TypeMismatch op_index (CannotCast field source_type target_type))) (apply_cast_schema op_index type_map current)
               else apply_cast_schema op_index type_map (current\<lparr>sch_fields := btree_insert field target_type (sch_fields current)\<rparr>)))"

fun apply_fillna_schema :: "nat \<Rightarrow> (string \<times> Json) list \<Rightarrow> Schema \<Rightarrow> schema_step" where
  "apply_fillna_schema op_index [] current = (current, [])"
| "apply_fillna_schema op_index ((field, _) # defaults) current =
     (if map_of (sch_fields current) field = None then
        apsnd ((#) (FieldMissing op_index field)) (apply_fillna_schema op_index defaults current)
      else apply_fillna_schema op_index defaults (current\<lparr>sch_optional_fields := filter (\<lambda>x. x \<noteq> field) (sch_optional_fields current)\<rparr>))"

fun apply_op_schema :: "libm \<Rightarrow> nat \<Rightarrow> OpNode \<Rightarrow> Schema \<Rightarrow> schema_step" where
  "apply_op_schema lm i (OpFilter src) current = (current, apply_filter_schema lm i src current)"
| "apply_op_schema lm i (OpSelect fs) current = apply_select_schema i fs current"
| "apply_op_schema lm i (OpDrop fs) current = apply_drop_schema i fs current"
| "apply_op_schema lm i (OpRename mapping) current = apply_rename_schema i mapping current"
| "apply_op_schema lm i (OpWithColumns exprs) current = apply_with_columns_schema lm i exprs current"
| "apply_op_schema lm i (OpMap exprs) current = apply_with_columns_schema lm i exprs current"
| "apply_op_schema lm i (OpCast type_map) current = apply_cast_schema i type_map current"
| "apply_op_schema lm i (OpFillna defaults) current = apply_fillna_schema i defaults current"
| "apply_op_schema lm i (OpGroupBy _ _) current = (current, [UnsupportedOp i ''group_by''])"

text \<open>The loop over the operators: the last schema, the schema after each step, the errors.\<close>

fun propagate_loop :: "libm \<Rightarrow> nat \<Rightarrow> OpNode list \<Rightarrow> Schema \<Rightarrow> Schema \<times> Schema list \<times> PropagationError list" where
  "propagate_loop lm i [] current = (current, [], [])"
| "propagate_loop lm i (op # ops) current =
     (let (current', es) = apply_op_schema lm i op current;
          (final, steps, es') = propagate_loop lm (Suc i) ops current'
      in (final, current' # steps, es @ es'))"

definition propagate_schema :: "libm \<Rightarrow> Schema \<Rightarrow> OpNode list \<Rightarrow> PropagationError list + (Schema \<times> Schema list)" where
  "propagate_schema lm input ops =
     (let (final, steps, es) = propagate_loop lm 0 ops input in if es = [] then Inr (final, steps) else Inl es)"

definition infer_expr_type :: "libm \<Rightarrow> expr \<Rightarrow> Schema \<Rightarrow> PropagationError option + InferredType" where
  "infer_expr_type lm e schema =
     (case infer_expr_type_inner lm 0 e schema of
        (Some ty, []) \<Rightarrow> Inr ty
      | (Some _, pe # _) \<Rightarrow> Inl (Some pe)
      | (None, []) \<Rightarrow> Inl None
      | (None, pe # _) \<Rightarrow> Inl (Some pe))"

section \<open>Compilation\<close>

fun compile_columns :: "libm \<Rightarrow> nat \<Rightarrow> (string \<times> string) list \<Rightarrow> PropagationError list + (string \<times> expr) list" where
  "compile_columns lm i [] = Inr []"
| "compile_columns lm i ((name, src) # exprs) =
     (case expr_parse lm src of
        Inl pe \<Rightarrow> Inl [InvalidExpr i pe]
      | Inr ast \<Rightarrow> map_sum id ((#) (name, ast)) (compile_columns lm i exprs))"

text \<open>\<open>None\<close> for \<open>GroupBy\<close>, which is skipped.\<close>

fun compile_op :: "libm \<Rightarrow> nat \<Rightarrow> OpNode \<Rightarrow> PropagationError list + CompiledOp option" where
  "compile_op lm i (OpFilter src) = (case expr_parse lm src of Inl pe \<Rightarrow> Inl [InvalidExpr i pe] | Inr ast \<Rightarrow> Inr (Some (CFilter ast)))"
| "compile_op lm i (OpSelect fs) = Inr (Some (CSelect fs))"
| "compile_op lm i (OpDrop fs) = Inr (Some (CDrop fs))"
| "compile_op lm i (OpRename mapping) = Inr (Some (CRename mapping))"
| "compile_op lm i (OpWithColumns exprs) = map_sum id (\<lambda>cs. Some (CWithColumns cs)) (compile_columns lm i exprs)"
| "compile_op lm i (OpMap exprs) = map_sum id (\<lambda>cs. Some (CWithColumns cs)) (compile_columns lm i exprs)"
| "compile_op lm i (OpCast type_map) =
     Inr (Some (CCast (List.map_filter (\<lambda>(field, t). map_option (Pair field) (cast_target_from_str t)) type_map)))"
| "compile_op lm i (OpFillna defaults) = Inr (Some (CFillna (map (\<lambda>(k, v). (k, json_to_value v)) defaults)))"
| "compile_op lm i (OpGroupBy _ _) = Inr None"

fun compile_ops :: "libm \<Rightarrow> nat \<Rightarrow> OpNode list \<Rightarrow> PropagationError list + OpChain" where
  "compile_ops lm i [] = Inr []"
| "compile_ops lm i (op # ops) =
     (case compile_op lm i op of
        Inl es \<Rightarrow> Inl es
      | Inr cop \<Rightarrow>
          (case compile_ops lm (Suc i) ops of
             Inl es \<Rightarrow> Inl es
           | Inr cops \<Rightarrow> Inr ((case cop of Some c \<Rightarrow> [c] | None \<Rightarrow> []) @ cops)))"

definition chain_compile :: "libm \<Rightarrow> Schema \<Rightarrow> OpNode list \<Rightarrow> PropagationError list + (OpChain \<times> Schema)" where
  "chain_compile lm input ops =
     (case propagate_schema lm input ops of
        Inl es \<Rightarrow> Inl es
      | Inr (final, _) \<Rightarrow> map_sum id (\<lambda>chain. (chain, final)) (compile_ops lm 0 ops))"

section \<open>Rows against schemas\<close>

definition value_type_compatible :: "Value \<Rightarrow> FieldType \<Rightarrow> bool" where
  "value_type_compatible v ft =
     (case ft of
        TI64 \<Rightarrow> (case v of VI64 _ \<Rightarrow> True | VF64 _ \<Rightarrow> True | _ \<Rightarrow> False)
      | TF64 \<Rightarrow> (case v of VI64 _ \<Rightarrow> True | VF64 _ \<Rightarrow> True | _ \<Rightarrow> False)
      | TStr \<Rightarrow> (case v of VStr _ \<Rightarrow> True | _ \<Rightarrow> False)
      | TBool \<Rightarrow> (case v of VBool _ \<Rightarrow> True | _ \<Rightarrow> False)
      | _ \<Rightarrow> v \<noteq> VNull)"

definition validate_row :: "EventSchema \<Rightarrow> Row \<Rightarrow> bool" where
  "validate_row schema row \<longleftrightarrow>
     (\<forall>(name, ft) \<in> set (es_fields schema). name \<in> set (es_optional_fields schema) \<or>
        (case row_get row name of Some v \<Rightarrow> value_type_compatible v ft | None \<Rightarrow> False))"

section \<open>Soundness of the inferred types\<close>

text \<open>A value fits a type when it is null or the server would accept it for the type; a null
  literal's type has no other value.\<close>

fun typed :: "Value \<Rightarrow> InferredType \<Rightarrow> bool" where
  "typed v NullLiteral \<longleftrightarrow> v = VNull"
| "typed v (Known ft) \<longleftrightarrow> v = VNull \<or> value_type_compatible v ft"

definition row_typed :: "Schema \<Rightarrow> Row \<Rightarrow> bool" where
  "row_typed schema row \<longleftrightarrow> (\<forall>f ft v. map_of (sch_fields schema) f = Some ft \<and> row_get row f = Some v \<longrightarrow> typed v (Known ft))"

lemma row_typedD: "row_typed schema row \<Longrightarrow> map_of (sch_fields schema) f = Some ft \<Longrightarrow> row_get row f = Some v \<Longrightarrow> typed v (Known ft)"
  unfolding row_typed_def by blast

lemma typed_Null [simp]: "typed VNull it"
  by (cases it) auto

lemma typed_num: "is_numeric_ft ft \<Longrightarrow> typed v (Known ft) \<longleftrightarrow> v = VNull \<or> (\<exists>x. v = VI64 x) \<or> (\<exists>x. v = VF64 x)"
  by (auto simp: is_numeric_ft_def value_type_compatible_def split: Value.splits)

lemma typed_bool: "typed v (Known TBool) \<longleftrightarrow> v = VNull \<or> (\<exists>b. v = VBool b)"
  by (auto simp: value_type_compatible_def split: Value.splits)

lemma typed_str: "typed v (Known TStr) \<longleftrightarrow> v = VNull \<or> (\<exists>s. v = VStr s)"
  by (auto simp: value_type_compatible_def split: Value.splits)

lemma typed_VBool [simp]: "typed (VBool b) (Known TBool)"
  by (simp only: typed_bool) simp

lemma is_bool_compatible_typed: "is_bool_compatible it \<Longrightarrow> typed v it \<Longrightarrow> typed v (Known TBool)"
  by (auto simp: is_bool_compatible_def)

lemma literal_typed: "typed (eval_literal l) (literal_type l)"
  by (cases l) (simp_all add: value_type_compatible_def)

lemma three_valued_typed:
  "typed v (Known TBool) \<Longrightarrow> typed (not_three_valued v) (Known TBool)"
  "typed v (Known TBool) \<Longrightarrow> typed w (Known TBool) \<Longrightarrow> typed (and_three_valued v w) (Known TBool)"
  "typed v (Known TBool) \<Longrightarrow> typed w (Known TBool) \<Longrightarrow> typed (or_three_valued v w) (Known TBool)"
  unfolding typed_bool by (auto simp: and_three_valued_def or_three_valued_def split: bool.splits)

lemma comparison_typed: "typed (cmp_op v w p) (Known TBool)" "typed (cmp_eq v w) (Known TBool)" "typed (cmp_ne v w) (Known TBool)"
  unfolding typed_bool by (auto simp: cmp_op_def cmp_eq_def cmp_ne_def incomparable_def split: option.splits Value.splits)

lemma arith_typed:
  assumes "fst (infer_arithmetic_type i op lt rt) = Some ty" and "typed lv lt" and "typed rv rt" and "lv \<noteq> VNull" and "rv \<noteq> VNull"
  shows "typed (arith_add lv rv) ty \<and> typed (arith_sub lv rv) ty \<and> typed (arith_mul lv rv) ty \<and> (\<forall>v. arith_div lv rv = Some v \<longrightarrow> typed v ty)"
proof -
  from assms(2-5) obtain l r where lr: "lt = Known l" "rt = Known r" by (cases lt; cases rt) auto
  with assms(1) have num: "is_numeric_ft l" "is_numeric_ft r" and ty: "ty = Known TF64 \<or> ty = Known TI64"
    by (auto simp: infer_arithmetic_type_def split: if_splits)
  have res: "typed v ty \<longleftrightarrow> v = VNull \<or> (\<exists>x. v = VI64 x) \<or> (\<exists>x. v = VF64 x)" for v
    using ty typed_num [of TF64 v] typed_num [of TI64 v] by (auto simp: is_numeric_ft_def)
  have "(\<exists>x. lv = VI64 x) \<or> (\<exists>x. lv = VF64 x)" "(\<exists>x. rv = VI64 x) \<or> (\<exists>x. rv = VF64 x)"
    using assms(2-5) typed_num [OF num(1), of lv] typed_num [OF num(2), of rv] lr by simp_all
  then show ?thesis
    unfolding res by (elim disjE exE) (auto simp: arith_add_def arith_sub_def arith_mul_def arith_div_def split: if_splits)
qed

lemma strict_typed:
  assumes "fst (infer_binop_type i op lt rt) = Some ty" and "typed lv lt" and "typed rv rt"
    and "op \<noteq> ''and''" and "op \<noteq> ''or''" and "eval_strict_op op lv rv = Some v"
  shows "typed v ty"
proof (cases "lv = VNull \<or> rv = VNull")
  case True
  then show ?thesis using assms(6) by (auto simp: eval_strict_op_def)
next
  case False
  have cmp: "op \<in> {''>'', ''>='', ''<'', ''<='', ''=='', ''!=''} \<Longrightarrow> ty = Known TBool"
    using assms(1) by (auto simp: infer_binop_type_def split: if_splits)
  have arith: "op \<in> {''+'', ''-'', ''*'', ''/''} \<Longrightarrow> fst (infer_arithmetic_type i op lt rt) = Some ty"
    using assms(1) by (auto simp: infer_binop_type_def)
  have ops: "op \<in> {''>'', ''>='', ''<'', ''<='', ''=='', ''!=''} \<or> op \<in> {''+'', ''-'', ''*'', ''/''}"
    using assms(1,4,5) by (auto simp: infer_binop_type_def split: if_splits)
  show ?thesis
    using ops cmp arith_typed [OF arith assms(2,3)] comparison_typed False assms(6)
    unfolding eval_strict_op_def by (elim disjE) (auto simp del: typed.simps)
qed

lemma cast_typed:
  assumes "parse_cast_target s = Some ft"
  shows "typed (cast_eval lm [v, VStr s]) (Known ft)"
  using assms
  by (cases v) (auto simp: cast_eval_def parse_cast_target_def value_type_compatible_def split: if_splits option.splits)

lemma cast_target_typed:
  assumes "fst (infer_cast_target i arg) = Some ty" and "eval_depth lm arg row d = Some t"
  shows "typed (cast_eval lm [v, t]) ty"
proof -
  have null: "cast_eval lm [v, VNull] = VNull" by (simp add: cast_eval_def)
  from assms(1) obtain s sp ft where "arg = Lit (LBareIdent s) sp \<or> arg = Lit (LStr s) sp" and ft: "parse_cast_target s = Some ft" "ty = Known ft"
    by (auto simp: infer_cast_target_def Let_def split: expr.splits literal.splits option.splits)
  then have "t = VNull \<or> t = VStr s" using assms(2) by (auto split: if_splits)
  then show ?thesis using cast_typed [OF ft(1)] null by (auto simp: ft(2) simp del: typed.simps)
qed

lemma lookup_isnull [simp]: "lookup_builtin lm ''isnull'' = Some (1, isnull_eval)"
  by (simp add: lookup_builtin_def BUILTINS_def)

text \<open>An expression that inference gives a type evaluates to a value of that type.\<close>

lemma infer_typed:
  "row_typed schema row \<Longrightarrow> fst (infer_expr_type_inner lm i e schema) = Some ty \<Longrightarrow> eval_depth lm e row d = Some v \<Longrightarrow> typed v ty"
proof (induction lm i e schema arbitrary: d v ty rule: infer_expr_type_inner.induct)
  case (1 lm i name sp schema)
  then show ?case using row_typedD [OF "1.prems"(1)] by (auto split: if_splits option.splits simp del: typed.simps)
next
  case (2 lm i l sp schema)
  then show ?case by (auto simp: literal_typed split: if_splits)
next
  case (3 lm i op e sp schema)
  then show ?case
    by (auto split: if_splits option.splits prod.splits simp del: typed.simps intro!: three_valued_typed is_bool_compatible_typed)
next
  case (4 lm i op l r sp schema)
  from "4.prems"(2) obtain lt es rt es' where
    inf: "infer_expr_type_inner lm i l schema = (Some lt, es)" "infer_expr_type_inner lm i r schema = (Some rt, es')" "fst (infer_binop_type i op lt rt) = Some ty"
    by (auto split: option.splits prod.splits)
  show ?case
  proof (cases "MAX_EVAL_DEPTH < d")
    case True
    then show ?thesis using "4.prems" by simp
  next
    case False
    then obtain lv where lv: "eval_depth lm l row (Suc d) = Some lv" using "4.prems"(3) by (auto split: option.splits)
    have tl: "typed lv lt" using "4.IH"(1) [of lt "Suc d" lv] "4.prems"(1) inf lv by simp
    have tr: "typed rv rt" if "eval_depth lm r row (Suc d) = Some rv" for rv
      using "4.IH"(2) [OF inf(1) [symmetric] refl, of rt "Suc d" rv] "4.prems"(1) inf that by simp
    have logic: "ty = Known TBool \<and> is_bool_compatible lt \<and> is_bool_compatible rt" if "op = ''and'' \<or> op = ''or''"
      using that inf(3) by (auto simp: infer_binop_type_def split: if_splits)
    show ?thesis
      using "4.prems"(3) False lv tl tr logic strict_typed [OF inf(3) tl]
      by (auto split: option.splits if_splits simp del: typed.simps intro: three_valued_typed is_bool_compatible_typed)
  qed
next
  case (5 lm i fn args sp schema)
  show ?case
  proof (cases "MAX_EVAL_DEPTH < d")
    case True
    then show ?thesis using "5.prems" by simp
  next
    case False
    from "5.prems"(2) have fn: "fn = ''isnull'' \<and> length args = 1 \<and> ty = Known TBool \<or>
        fn = ''cast'' \<and> length args = 2 \<and> fst (infer_cast_target i (args ! 1)) = Some ty"
      by (auto simp: infer_call_type_def split: option.splits if_splits prod.splits)
    then show ?thesis
      using False "5.prems"(3)
      by (auto simp: numeral_2_eq_2 length_Suc_conv isnull_eval_def typed_bool cast_target_typed
               split: option.splits if_splits simp del: typed.simps)
  qed
qed

section \<open>Soundness of compiled chains\<close>

text \<open>A row fits a schema when it has declared fields only, each with a value of its type; with
  \<open>p\<close> every field that is not optional is present.\<close>

definition fits :: "bool \<Rightarrow> Schema \<Rightarrow> Row \<Rightarrow> bool" where
  "fits p schema row \<longleftrightarrow> row_wf row \<and> btree_wf (sch_fields schema) \<and> dom (row_get row) \<subseteq> dom (map_of (sch_fields schema)) \<and> row_typed schema row \<and>
     (p \<longrightarrow> dom (map_of (sch_fields schema)) \<subseteq> dom (row_get row) \<union> set (sch_optional_fields schema))"

text \<open>Inference fails silently on a missing field, which is reported elsewhere, and on the division
  of a null literal and a value that is not numeric.\<close>

fun null_typed :: "expr \<Rightarrow> bool" where
  "null_typed (Lit l _) = (l = LNull)"
| "null_typed (BinOp op l r _) = (op \<in> {''+'', ''-'', ''*'', ''/''} \<and> null_typed l \<and> null_typed r)"
| "null_typed _ = False"

fun null_div :: "expr \<Rightarrow> bool" where
  "null_div (BinOp op l r _) = (op = ''/'' \<and> null_typed l \<noteq> null_typed r \<or> null_div l \<or> null_div r)"
| "null_div (UnaryOp _ e _) = null_div e"
| "null_div _ = False"

lemma arith_null: "fst (infer_arithmetic_type i op lt rt) = Some NullLiteral \<Longrightarrow> lt = NullLiteral \<and> rt = NullLiteral"
  by (auto simp: infer_arithmetic_type_def resolve_null_arithmetic_def split: InferredType.splits if_splits)

lemma infer_null: "fst (infer_expr_type_inner lm i e schema) = Some NullLiteral \<Longrightarrow> null_typed e"
proof (induction lm i e schema rule: infer_expr_type_inner.induct)
  case (2 lm i l sp schema)
  then show ?case by (cases l) auto
next
  case (4 lm i op l r sp schema)
  from "4.prems" obtain lt es rt es' where
    inf: "infer_expr_type_inner lm i l schema = (Some lt, es)" "infer_expr_type_inner lm i r schema = (Some rt, es')" "fst (infer_binop_type i op lt rt) = Some NullLiteral"
    by (auto split: option.splits prod.splits)
  then have "op \<in> {''+'', ''-'', ''*'', ''/''} \<and> fst (infer_arithmetic_type i op lt rt) = Some NullLiteral"
    unfolding infer_binop_type_def by (auto split: if_splits)
  then show ?case using "4.IH"(1) "4.IH"(2) [OF inf(1) [symmetric] refl] inf by (auto dest: arith_null)
next
  case (5 lm i fn args sp schema)
  have "fst (infer_cast_target i a) \<noteq> Some NullLiteral" for a
    by (auto simp: infer_cast_target_def Let_def split: option.splits expr.splits literal.splits)
  with 5 show ?case by (auto simp: infer_call_type_def split: option.splits prod.splits if_splits)
qed (auto split: option.splits prod.splits if_splits)

lemma null_typed_infer: "null_typed e \<Longrightarrow> fst (infer_expr_type_inner lm i e schema) = Some NullLiteral"
proof (induction e)
  case (BinOp op l r sp)
  then obtain es es' where "infer_expr_type_inner lm i l schema = (Some NullLiteral, es)" "infer_expr_type_inner lm i r schema = (Some NullLiteral, es')"
    by (metis null_typed.simps(2) prod.collapse)
  with BinOp.prems show ?case by (auto simp: infer_binop_type_def infer_arithmetic_type_def resolve_null_arithmetic_def)
qed simp_all

lemma null_typed_iff: "null_typed e \<longleftrightarrow> fst (infer_expr_type_inner lm i e schema) = Some NullLiteral"
  using infer_null null_typed_infer by blast

lemma arith_silent: "infer_arithmetic_type i op lt rt = (None, []) \<Longrightarrow> op = ''/'' \<and> (lt = NullLiteral) \<noteq> (rt = NullLiteral)"
  by (auto simp: infer_arithmetic_type_def resolve_null_arithmetic_def split: InferredType.splits if_splits)

lemma infer_silent:
  "infer_expr_type_inner lm i e schema = (None, []) \<Longrightarrow> expr_fields e \<subseteq> dom (map_of (sch_fields schema)) \<Longrightarrow> null_div e"
proof (induction lm i e schema rule: infer_expr_type_inner.induct)
  case (1 lm i name sp schema)
  then show ?case by auto
next
  case (3 lm i op e sp schema)
  then show ?case by (auto split: option.splits prod.splits if_splits)
next
  case (4 lm i op l r sp schema)
  show ?case
  proof (cases "fst (infer_expr_type_inner lm i l schema) = None \<or> fst (infer_expr_type_inner lm i r schema) = None")
    case True
    then show ?thesis using 4 by (auto split: option.splits prod.splits)
  next
    case False
    then obtain lt es rt es' where inf: "infer_expr_type_inner lm i l schema = (Some lt, es)" "infer_expr_type_inner lm i r schema = (Some rt, es')"
      by (metis not_None_eq prod.collapse)
    with "4.prems" have "infer_binop_type i op lt rt = (None, [])" by (cases "infer_binop_type i op lt rt") auto
    then have "infer_arithmetic_type i op lt rt = (None, [])" unfolding infer_binop_type_def by (auto split: if_splits)
    note silent = arith_silent [OF this]
    have "null_typed l \<longleftrightarrow> lt = NullLiteral" "null_typed r \<longleftrightarrow> rt = NullLiteral"
      using null_typed_iff [of l lm i schema] null_typed_iff [of r lm i schema] inf by simp_all
    then show ?thesis using silent by simp
  qed
next
  case (5 lm i fn args sp schema)
  have "infer_cast_target i a \<noteq> (None, [])" for a
    by (auto simp: infer_cast_target_def Let_def split: option.splits expr.splits literal.splits)
  then have "apsnd (\<lambda>es. es' @ es) (infer_cast_target i a) \<noteq> (None, [])" for a es'
    by (metis append_is_Nil_conv apsnd_conv prod.collapse prod.inject)
  with 5 show ?case by (auto simp: infer_call_type_def split: option.splits prod.splits if_splits)
qed simp

lemma check_referenced_fields_iff: "check_referenced_fields i ast schema = [] \<longleftrightarrow> expr_fields ast \<subseteq> dom (map_of (sch_fields schema))"
proof -
  have "finite (expr_fields ast)" by (induction ast) auto
  moreover have "referenced_fields ast = expr_fields ast" by (simp add: referenced_fields_def collect_fields_acc)
  ultimately show ?thesis by (auto simp: check_referenced_fields_def filter_empty_conv dom_def)
qed

text \<open>The schema functions as functions of finite maps, when they report no error.\<close>

lemma map_of_btree_insert: "btree_wf m \<Longrightarrow> map_of (btree_insert k v m) = (map_of m)(k \<mapsto> v)"
  by (simp add: map_of_btree_upsert fun_eq_iff split: option.splits)

lemma select_schema:
  assumes "select_schema_loop i fs current new = (out, [])" and "btree_wf (sch_fields new)"
  shows "btree_wf (sch_fields out) \<and> map_of (sch_fields out) = map_of (sch_fields new) ++ map_of (sch_fields current) |` set fs \<and>
    set (sch_optional_fields out) = set (sch_optional_fields new) \<union> (set (sch_optional_fields current) \<inter> set fs) \<and> set fs \<subseteq> dom (map_of (sch_fields current))"
  using assms
proof (induction fs arbitrary: new)
  case (Cons f fs)
  show ?case
  proof (cases "map_of (sch_fields current) f")
    case None
    then show ?thesis using Cons.prems by (cases "select_schema_loop i fs current new") auto
  next
    case (Some ft)
    let ?new = "\<lparr>sch_fields = btree_insert f ft (sch_fields new), sch_optional_fields = sch_optional_fields new @ (if f \<in> set (sch_optional_fields current) then [f] else [])\<rparr>"
    have "select_schema_loop i fs current ?new = (out, [])" using Cons.prems(1) Some by simp
    moreover have "(map_of (sch_fields new))(f \<mapsto> ft) ++ map_of (sch_fields current) |` set fs = map_of (sch_fields new) ++ map_of (sch_fields current) |` set (f # fs)"
      using Some by (auto simp: fun_eq_iff map_add_def restrict_map_def split: option.splits)
    ultimately show ?thesis
      using Cons.IH [of ?new] Cons.prems(2) Some by (auto simp: btree_wf_upsert map_of_btree_insert simp del: fun_upd_apply)
  qed
qed (auto simp: restrict_map_def map_add_def)

lemma map_of_filter_neq: "map_of (filter (\<lambda>(k, _). k \<noteq> f) m) = (map_of m)(f := None)"
  by (induction m) (auto simp: fun_eq_iff)

lemma btree_wf_filter [wf_intros]: "btree_wf m \<Longrightarrow> btree_wf (filter P m)"
  unfolding btree_wf_def by (simp add: sorted_wrt_map sorted_wrt_filter)

lemma drop_schema:
  assumes "apply_drop_schema i fs current = (out, [])" and "btree_wf (sch_fields current)"
  shows "btree_wf (sch_fields out) \<and> map_of (sch_fields out) f = (if f \<in> set fs then None else map_of (sch_fields current) f) \<and>
    (f \<in> set (sch_optional_fields out) \<longleftrightarrow> f \<in> set (sch_optional_fields current) \<and> f \<notin> set fs)"
  using assms
proof (induction fs arbitrary: current)
  case (Cons g fs)
  let ?cur = "\<lparr>sch_fields = filter (\<lambda>(k, _). k \<noteq> g) (sch_fields current), sch_optional_fields = filter (\<lambda>x. x \<noteq> g) (sch_optional_fields current)\<rparr>"
  have "apply_drop_schema i fs ?cur = (out, [])" using Cons.prems(1) by (cases "apply_drop_schema i fs current") (auto split: if_splits)
  then show ?case using Cons.IH [of ?cur] Cons.prems(2) by (auto simp: btree_wf_filter map_of_filter_neq)
qed simp

text \<open>A rename maps every declared field to its new name; without collisions no two get the same.\<close>

definition renamed_to :: "(string \<times> string) list \<Rightarrow> string \<Rightarrow> string" where
  "renamed_to mapping k = (case map_of mapping k of Some n \<Rightarrow> n | None \<Rightarrow> k)"

lemma rename_schema:
  assumes "inj_on (renamed_to mapping) (fst ` set m)" and "distinct (map fst m)" and "btree_wf (sch_fields new)"
    and "renamed_to mapping ` fst ` set m \<inter> fst ` set (sch_fields new) = {}"
  shows "btree_wf (sch_fields (rename_schema_loop mapping opt m new)) \<and>
    (map_of (sch_fields (rename_schema_loop mapping opt m new)) f = Some ft \<longleftrightarrow>
      map_of (sch_fields new) f = Some ft \<or> (\<exists>k. map_of m k = Some ft \<and> renamed_to mapping k = f)) \<and>
    set (sch_optional_fields (rename_schema_loop mapping opt m new)) = set (sch_optional_fields new) \<union> renamed_to mapping ` (fst ` set m \<inter> set opt)"
  using assms
proof (induction m arbitrary: new)
  case (Cons p m)
  obtain k v where p: "p = (k, v)" by (cases p)
  let ?k = "renamed_to mapping k"
  let ?new = "\<lparr>sch_fields = btree_insert ?k v (sch_fields new), sch_optional_fields = sch_optional_fields new @ (if k \<in> set opt then [?k] else [])\<rparr>"
  have loop: "rename_schema_loop mapping opt (p # m) new = rename_schema_loop mapping opt m ?new"
    by (simp add: p renamed_to_def Let_def)
  have fresh: "?k \<notin> fst ` set (sch_fields new)" "k \<notin> fst ` set m" "?k \<notin> renamed_to mapping ` fst ` set m"
    using Cons.prems p by (auto simp: inj_on_def)
  have none: "map_of (sch_fields new) ?k = None" using fresh(1) by (simp add: map_of_eq_None_iff)
  have m: "map_of m j = Some ft \<Longrightarrow> j \<in> fst ` set m" for j ft by (metis map_of_SomeD fst_conv image_eqI)
  have "renamed_to mapping ` fst ` set m \<inter> fst ` set (sch_fields ?new) = {}" using Cons.prems(4) fresh(3) unfolding p by simp
  then have IH: "btree_wf (sch_fields (rename_schema_loop mapping opt m ?new)) \<and>
    (map_of (sch_fields (rename_schema_loop mapping opt m ?new)) f = Some ft \<longleftrightarrow>
      map_of (sch_fields ?new) f = Some ft \<or> (\<exists>k. map_of m k = Some ft \<and> renamed_to mapping k = f)) \<and>
    set (sch_optional_fields (rename_schema_loop mapping opt m ?new)) = set (sch_optional_fields ?new) \<union> renamed_to mapping ` (fst ` set m \<inter> set opt)"
    using Cons.prems by (intro Cons.IH) (auto simp: p btree_wf_upsert)
  moreover have "map_of (sch_fields ?new) f = Some ft \<or> (\<exists>j. map_of m j = Some ft \<and> renamed_to mapping j = f) \<longleftrightarrow>
      map_of (sch_fields new) f = Some ft \<or> (\<exists>j. map_of (p # m) j = Some ft \<and> renamed_to mapping j = f)"
  proof -
    have "map_of m k = None" using m fresh(2) by (metis not_None_eq)
    then have "(\<exists>j. map_of (p # m) j = Some ft \<and> renamed_to mapping j = f) \<longleftrightarrow> ft = v \<and> ?k = f \<or> (\<exists>j. map_of m j = Some ft \<and> renamed_to mapping j = f)"
      unfolding p by (simp add: fun_upd_def) (metis option.distinct(1))
    then show ?thesis using none fresh(3) m Cons.prems(3) by (auto simp: map_of_btree_insert)
  qed
  ultimately show ?case unfolding loop by (auto simp: p)
qed simp

lemma map_filter_fst_distinct:
  "distinct (map snd mapping) \<Longrightarrow> distinct (map fst (List.map_filter (\<lambda>(old, new). map_option (Pair new) (m old)) mapping))"
proof (induction mapping)
  case (Cons p mapping)
  have "fst ` set (List.map_filter (\<lambda>(old, new). map_option (Pair new) (m old)) mapping) \<subseteq> snd ` set mapping"
    by (force simp: List.map_filter_def)
  with Cons show ?case by (cases p) (auto simp: List.map_filter_simps split: option.splits)
qed (simp add: List.map_filter_simps)

lemma renamed_map_eq:
  assumes "distinct (map snd mapping)"
  shows "renamed_map mapping m n = Some v \<longleftrightarrow>
    (\<exists>old. (old, n) \<in> set mapping \<and> m old = Some v) \<or> (\<forall>old. (old, n) \<in> set mapping \<longrightarrow> m old = None) \<and> n \<notin> fst ` set mapping \<and> m n = Some v"
proof -
  let ?rs = "List.map_filter (\<lambda>(old, new). map_option (Pair new) (m old)) mapping"
  have d: "distinct (map fst (rev ?rs))" using map_filter_fst_distinct [OF assms] by (simp add: rev_map [symmetric])
  have "map_of (rev ?rs) n = Some w \<longleftrightarrow> (\<exists>old. (old, n) \<in> set mapping \<and> m old = Some w)" for w
    unfolding map_of_eq_Some_iff [OF d] by (force simp: List.map_filter_def)
  then show ?thesis
    unfolding renamed_map_def map_add_Some_iff restrict_map_def by (cases "map_of (rev ?rs) n") (auto, metis option.distinct(1))
qed

lemma fits_select:
  assumes "fits p schema row" and "apply_select_schema i fs schema = (out, [])"
  shows "fits p out (select_fields fs row [])"
proof -
  from assms(1) have row: "row_get (select_fields fs row []) = row_get row |` set fs" "row_wf (select_fields fs row [])"
    using select_fields_get [of row "[]" fs] by (auto simp: fits_def row_wf_def row_get_map_of map_add_def fun_eq_iff split: option.splits)
  from select_schema [OF assms(2) [unfolded apply_select_schema_def]]
  have out: "btree_wf (sch_fields out)" "map_of (sch_fields out) = map_of (sch_fields schema) |` set fs" "set (sch_optional_fields out) = set (sch_optional_fields schema) \<inter> set fs"
    by (auto simp: schema_new_def)
  show ?thesis
    using assms(1) row(2) out(1) unfolding fits_def row_typed_def row(1) out(2,3) by (auto simp: restrict_map_def dom_def split: if_splits)
qed

lemma fits_drop:
  assumes "fits p schema row" and "apply_drop_schema i fs schema = (out, [])"
  shows "fits p out (drop_fields fs row)"
proof -
  from assms(1) have row: "row_get (drop_fields fs row) = row_get row |` (- set fs)" "row_wf (drop_fields fs row)"
    using drop_fields_get by (auto simp: fits_def)
  from drop_schema [OF assms(2)] assms(1)
  have out: "btree_wf (sch_fields out)" "map_of (sch_fields out) = map_of (sch_fields schema) |` (- set fs)" "set (sch_optional_fields out) = set (sch_optional_fields schema) - set fs"
    by (auto simp: fits_def restrict_map_def fun_eq_iff)
  show ?thesis
    using assms(1) row(2) out(1) unfolding fits_def row_typed_def row(1) out(2,3) by (auto simp: restrict_map_def dom_def split: if_splits)
qed

lemma rename_errorsD:
  assumes "rename_errors i mapping schema = []" and "(old, new) \<in> set mapping"
  shows "map_of (sch_fields schema) old \<noteq> None" and "map_of (sch_fields schema) new \<noteq> None \<Longrightarrow> new \<in> fst ` set mapping"
  using assms by (fastforce simp: rename_errors_def split: if_splits)+

lemma fits_rename:
  assumes "fits p schema row" and "apply_rename_schema i mapping schema = (out, [])"
    and "distinct (map fst mapping)" and "distinct (map snd mapping)"
  shows "fits p out (rename_fields mapping row)"
proof -
  let ?rho = "renamed_to mapping" and ?m = "map_of (sch_fields schema)"
  from assms(2) have err: "rename_errors i mapping schema = []"
    and out: "out = rename_schema_loop mapping (sch_optional_fields schema) (sch_fields schema) schema_new"
    by (auto simp: apply_rename_schema_def)
  have rho: "?rho old = new" if "(old, new) \<in> set mapping" for old new using that assms(3) by (simp add: renamed_to_def)
  have rho': "?rho k = k" if "k \<notin> fst ` set mapping" for k using that by (simp add: renamed_to_def map_of_eq_None_iff [THEN iffD2])
  have free: "new \<in> fst ` set mapping" if "(old, new) \<in> set mapping" "new \<in> dom ?m" for old new
    using rename_errorsD(2) [OF err that(1)] that(2) by auto
  have rhoE: "(k, ?rho k) \<in> set mapping" if "k \<in> fst ` set mapping" for k using that rho by auto
  have inj: "inj_on ?rho (dom ?m)"
  proof (rule inj_onI)
    fix j k assume jk: "j \<in> dom ?m" "k \<in> dom ?m" "?rho j = ?rho k"
    show "j = k"
    proof (cases "j \<in> fst ` set mapping \<and> k \<in> fst ` set mapping")
      case True
      then have "(j, ?rho j) \<in> set mapping" "(k, ?rho j) \<in> set mapping" using rhoE jk(3) by metis+
      then show ?thesis using assms(4) by (metis distinct_map inj_on_def snd_conv prod.inject)
    next
      case False
      then show ?thesis using rhoE free rho' jk by metis
    qed
  qed
  have get: "row_get (rename_fields mapping row) = renamed_map mapping (row_get row)" "row_wf (rename_fields mapping row)"
    using rename_fields_get [OF _ assms(3)] assms(1) by (auto simp: fits_def)
  have sub: "dom (row_get row) \<subseteq> dom ?m" using assms(1) by (simp add: fits_def)
  have row: "renamed_map mapping (row_get row) n = Some v \<longleftrightarrow> (\<exists>k. row_get row k = Some v \<and> ?rho k = n)" for n v
    unfolding renamed_map_eq [OF assms(4)]
    using rho rho' rhoE free sub by (auto simp: subset_iff dom_def) metis+
  have wf: "btree_wf (sch_fields schema)" using assms(1) by (simp add: fits_def)
  have new: "schema_new = \<lparr>sch_fields = [], sch_optional_fields = []\<rparr>" by (simp add: schema_new_def)
  have sch: "btree_wf (sch_fields out)" "map_of (sch_fields out) f = Some ft \<longleftrightarrow> (\<exists>k. ?m k = Some ft \<and> ?rho k = f)"
    "set (sch_optional_fields out) = ?rho ` (dom ?m \<inter> set (sch_optional_fields schema))" for f ft
    using rename_schema [of mapping "sch_fields schema" schema_new "sch_optional_fields schema" f ft] inj btree_wf_distinct [OF wf]
    by (simp_all add: out new dom_map_of_conv_image_fst)
  have typed: "typed v (Known ft)" if "?m j = Some ft" "row_get row k = Some v" "?rho j = ?rho k" for j k ft v
    using that inj_onD [OF inj, of j k] sub row_typedD assms(1) unfolding fits_def by blast
  have pres: "\<exists>v. row_get row k = Some v" if p "?m k = Some ft" "k \<notin> set (sch_optional_fields schema)" for k ft
    using that assms(1) unfolding fits_def by blast
  show ?thesis
    unfolding fits_def row_typed_def get(1)
  proof (intro conjI allI impI)
    show "dom (renamed_map mapping (row_get row)) \<subseteq> dom (map_of (sch_fields out))"
      using row sch(2) sub by (fastforce simp: dom_def)
    show "typed v (Known ft)" if "map_of (sch_fields out) f = Some ft \<and> renamed_map mapping (row_get row) f = Some v" for f ft v
      using that typed row sch(2) by metis
    show "dom (map_of (sch_fields out)) \<subseteq> dom (renamed_map mapping (row_get row)) \<union> set (sch_optional_fields out)" if p
    proof
      fix f assume "f \<in> dom (map_of (sch_fields out))"
      then obtain k ft where k: "?m k = Some ft" "?rho k = f" using sch(2) by blast
      show "f \<in> dom (renamed_map mapping (row_get row)) \<union> set (sch_optional_fields out)"
      proof (cases "k \<in> set (sch_optional_fields schema)")
        case True
        then show ?thesis using k unfolding sch(3) by auto
      next
        case False
        then show ?thesis using pres [OF that k(1)] row k(2) by (metis UnI1 domI)
      qed
    qed
  qed (use get(2) sch(1) in auto)
qed

text \<open>Storing a value of the type that the schema gets for the field keeps the fit.\<close>

lemma fits_store:
  assumes "fits p schema row" and "typed v (Known ft)" and "set (sch_optional_fields schema) - {f} \<subseteq> set (sch_optional_fields out)"
    and "sch_fields out = btree_insert f ft (sch_fields schema)"
  shows "fits p out (with_field row f v)"
proof -
  have wf: "btree_wf (sch_fields schema)" "row_wf row" using assms(1) by (simp_all add: fits_def)
  have out: "map_of (sch_fields out) = (map_of (sch_fields schema))(f \<mapsto> ft)" "btree_wf (sch_fields out)"
    using wf(1) assms(4) by (simp_all add: map_of_btree_insert btree_wf_upsert)
  have get: "row_get (with_field row f v) = (row_get row)(f \<mapsto> v)" by (simp add: row_get_with_field fun_eq_iff)
  show ?thesis
    using assms(1-3) wf out(2) wf_intros unfolding fits_def row_typed_def get out(1)
    by (auto simp: dom_def simp del: typed.simps)
qed

lemma fits_column:
  assumes "fits p schema row" and "apply_column_schema lm i name src schema = (out, [])" and "expr_parse lm src = Inr ast"
    and "\<not> null_div ast" and "eval lm ast row = Some v"
  shows "fits p out (with_field row name v)"
proof -
  obtain ty es where inf: "infer_expr_type_inner lm i ast schema = (ty, es)" by (cases "infer_expr_type_inner lm i ast schema")
  with assms(2,3) have "check_referenced_fields i ast schema = []" "es = []" by (auto simp: apply_column_schema_def)
  then obtain it where it: "ty = Some it" using infer_silent inf assms(4) by (cases ty) (auto simp: check_referenced_fields_iff)
  have tv: "typed v it"
    using infer_typed [of schema row lm i ast it 0 v] assms(1,5) inf it by (simp add: fits_def eval_def)
  show ?thesis
  proof (cases it)
    case (Known ft)
    then show ?thesis using assms(2,3) inf it tv by (intro fits_store [OF assms(1), of v ft]) (auto simp: apply_column_schema_def simp del: typed.simps)
  next
    case NullLiteral
    then show ?thesis using assms(2,3) inf it tv by (intro fits_store [OF assms(1), of v TStr]) (auto simp: apply_column_schema_def)
  qed
qed

lemma fits_columns:
  assumes "fits p schema row" and "apply_with_columns_schema lm i exprs schema = (out, [])" and "compile_columns lm i exprs = Inr cs"
    and "\<forall>(name, src) \<in> set exprs. \<forall>ast. expr_parse lm src = Inr ast \<longrightarrow> \<not> null_div ast" and "add_columns lm cs row = Some row'"
  shows "fits p out row'"
  using assms
proof (induction exprs arbitrary: schema row cs)
  case (Cons e exprs)
  obtain name src where e: "e = (name, src)" by (cases e)
  from Cons.prems(3) obtain ast cs' where ast: "expr_parse lm src = Inr ast" "compile_columns lm i exprs = Inr cs'" "cs = (name, ast) # cs'"
    by (cases "compile_columns lm i exprs") (auto simp: e split: sum.splits)
  from Cons.prems(2) obtain mid where mid: "apply_column_schema lm i name src schema = (mid, [])" "apply_with_columns_schema lm i exprs mid = (out, [])"
    by (cases "apply_column_schema lm i name src schema"; cases "apply_with_columns_schema lm i exprs (fst (apply_column_schema lm i name src schema))") (auto simp: e)
  from Cons.prems(5) obtain v where v: "eval lm ast row = Some v" "add_columns lm cs' (with_field row name v) = Some row'"
    by (auto simp: ast(3) split: option.splits)
  have "\<not> null_div ast" using Cons.prems(4) ast(1) by (auto simp: e)
  from fits_column [OF Cons.prems(1) mid(1) ast(1) this v(1)] Cons.IH mid(2) ast(2) v(2) Cons.prems(4) show ?case by simp
qed simp

lemma cast_target: "parse_cast_target s = Some ft \<Longrightarrow> \<exists>t. cast_target_from_str s = Some t \<and> as_value_str t = VStr s"
  by (auto simp: parse_cast_target_def cast_target_from_str_def split: if_splits)

lemma fits_cast_field:
  assumes "fits p schema row" and "map_of (sch_fields schema) f = Some ft0" and "parse_cast_target s = Some ft" and "as_value_str t = VStr s"
  shows "fits p (schema\<lparr>sch_fields := btree_insert f ft (sch_fields schema)\<rparr>) (cast_field lm (f, t) row)"
proof (cases "row_get row f")
  case (Some v)
  then show ?thesis
    using fits_store [OF assms(1) cast_typed [OF assms(3), of lm v]] by (simp add: cast_field_def assms(4) del: typed.simps)
next
  case None
  have wf: "btree_wf (sch_fields schema)" using assms(1) by (simp add: fits_def)
  show ?thesis
    using assms(1,2) None unfolding fits_def row_typed_def
    by (auto simp: cast_field_def map_of_btree_insert [OF wf] btree_wf_upsert dom_def simp del: typed.simps)
qed

lemma fits_cast:
  assumes "fits p schema row" and "apply_cast_schema i tm schema = (out, [])"
  shows "fits p out (fold (cast_field lm) (List.map_filter (\<lambda>(field, t). map_option (Pair field) (cast_target_from_str t)) tm) row)"
  using assms
proof (induction tm arbitrary: schema row)
  case (Cons e tm)
  obtain f s where e: "e = (f, s)" by (cases e)
  have ne: "apsnd ((#) x) r \<noteq> (out, [])" for x and r :: schema_step by (cases r) auto
  obtain ft0 ft where ft: "map_of (sch_fields schema) f = Some ft0" "parse_cast_target s = Some ft"
    "apply_cast_schema i tm (schema\<lparr>sch_fields := btree_insert f ft (sch_fields schema)\<rparr>) = (out, [])"
    using Cons.prems(2) ne by (auto simp: e split: option.splits if_splits)
  from cast_target [OF ft(2)] obtain t where t: "cast_target_from_str s = Some t" "as_value_str t = VStr s" by blast
  show ?case
    using Cons.IH [OF fits_cast_field [OF Cons.prems(1) ft(1,2) t(2)] ft(3)] by (simp add: e List.map_filter_simps t(1))
qed (simp add: List.map_filter_simps)

lemma fits_fillna:
  assumes "fits False schema row" and "apply_fillna_schema i defaults schema = (out, [])"
    and "\<forall>(f, d) \<in> set defaults. \<forall>ft. map_of (sch_fields schema) f = Some ft \<longrightarrow> typed (json_to_value d) (Known ft)"
  shows "fits False out (fold fill_field (map (\<lambda>(k, v). (k, json_to_value v)) defaults) row)"
  using assms
proof (induction defaults arbitrary: schema row)
  case (Cons e defaults)
  obtain f d where e: "e = (f, d)" by (cases e)
  have ne: "apsnd ((#) x) r \<noteq> (out, [])" for x and r :: schema_step by (cases r) auto
  let ?schema = "schema\<lparr>sch_optional_fields := filter (\<lambda>x. x \<noteq> f) (sch_optional_fields schema)\<rparr>"
  obtain ft where ft: "map_of (sch_fields schema) f = Some ft" "apply_fillna_schema i defaults ?schema = (out, [])"
    using Cons.prems(2) ne by (auto simp: e split: if_splits)
  have "typed (json_to_value d) (Known ft)" using Cons.prems(3) ft(1) by (auto simp: e simp del: typed.simps)
  then have "fits False ?schema (fill_field (f, json_to_value d) row)"
    using Cons.prems(1) ft(1) unfolding fits_def row_typed_def fill_field_get
    by (auto simp: dom_def wf_intros split: if_splits simp del: typed.simps)
  then show ?case using Cons.IH [of ?schema "fill_field (f, json_to_value d) row"] ft(2) Cons.prems(3) by (simp add: e del: typed.simps)
qed simp

text \<open>What the soundness of the computed types needs and neither propagation nor compilation tests: no
  rename sends two fields to one name, every fill value has the type of its field, no null literal
  is divided. The keys of a mapping are distinct, as it is a \<open>BTreeMap\<close>.\<close>

fun op_regular :: "libm \<Rightarrow> OpNode \<Rightarrow> Schema \<Rightarrow> bool" where
  "op_regular lm (OpRename mapping) schema \<longleftrightarrow> distinct (map fst mapping) \<and> distinct (map snd mapping)"
| "op_regular lm (OpFillna defaults) schema \<longleftrightarrow> (\<forall>(f, d) \<in> set defaults. \<forall>ft. map_of (sch_fields schema) f = Some ft \<longrightarrow> typed (json_to_value d) (Known ft))"
| "op_regular lm (OpWithColumns exprs) schema \<longleftrightarrow> (\<forall>(name, src) \<in> set exprs. \<forall>ast. expr_parse lm src = Inr ast \<longrightarrow> \<not> null_div ast)"
| "op_regular lm (OpMap exprs) schema \<longleftrightarrow> (\<forall>(name, src) \<in> set exprs. \<forall>ast. expr_parse lm src = Inr ast \<longrightarrow> \<not> null_div ast)"
| "op_regular lm _ schema \<longleftrightarrow> True"

fun ops_regular :: "libm \<Rightarrow> nat \<Rightarrow> OpNode list \<Rightarrow> Schema \<Rightarrow> bool" where
  "ops_regular lm i [] schema \<longleftrightarrow> True"
| "ops_regular lm i (op # ops) schema \<longleftrightarrow> op_regular lm op schema \<and> ops_regular lm (Suc i) ops (fst (apply_op_schema lm i op schema))"

definition is_fillna :: "OpNode \<Rightarrow> bool" where
  "is_fillna op = (case op of OpFillna _ \<Rightarrow> True | _ \<Rightarrow> False)"

lemma fits_weaken: "fits p schema row \<Longrightarrow> fits False schema row"
  by (simp add: fits_def)

lemma fits_op:
  assumes "fits p schema row" and "apply_op_schema lm i op schema = (out, [])" and "compile_op lm i op = Inr (Some c)"
    and "op_regular lm op schema" and "p \<longrightarrow> \<not> is_fillna op" and "apply_op lm c row = Some (Some row')"
  shows "fits p out row'"
proof (cases op)
  case (OpFillna defaults)
  with assms(5) have p: "p = False" by (simp add: is_fillna_def)
  show ?thesis using assms fits_fillna [of schema row i defaults out] unfolding p OpFillna by (auto simp del: typed.simps)
next
  case (OpFilter src)
  then show ?thesis using assms by (auto split: sum.splits if_splits)
next
  case (OpWithColumns exprs)
  then show ?thesis using assms fits_columns by (cases "compile_columns lm i exprs") auto
next
  case (OpMap exprs)
  then show ?thesis using assms fits_columns by (cases "compile_columns lm i exprs") auto
qed (use assms in \<open>auto intro: fits_select fits_drop fits_rename fits_cast\<close>)

lemma fits_ops:
  assumes "fits p schema row" and "propagate_loop lm i ops schema = (out, steps, [])" and "compile_ops lm i ops = Inr chain"
    and "ops_regular lm i ops schema" and "p \<longrightarrow> \<not> list_ex is_fillna ops" and "chain_apply lm chain row = Some (Some row')"
  shows "fits p out row'"
  using assms
proof (induction ops arbitrary: i schema row chain steps)
  case (Cons op ops)
  obtain mid es where mid: "apply_op_schema lm i op schema = (mid, es)" by (cases "apply_op_schema lm i op schema")
  obtain out' steps' es' where rest: "propagate_loop lm (Suc i) ops mid = (out', steps', es')" by (metis prod_cases3)
  from Cons.prems(2) mid rest have [simp]: "out' = out" "es = []" "es' = []" by auto
  from Cons.prems(3) obtain cop cs where c: "compile_op lm i op = Inr cop" "compile_ops lm (Suc i) ops = Inr cs" "chain = (case cop of Some c \<Rightarrow> [c] | None \<Rightarrow> []) @ cs"
    by (auto split: sum.splits)
  have "cop \<noteq> None" using c(1) mid by (cases op) (auto split: sum.splits simp: map_sum_def)
  then obtain co where co: "cop = Some co" by blast
  with Cons.prems(6) c(3) obtain row1 where row1: "apply_op lm co row = Some (Some row1)" "chain_apply lm cs row1 = Some (Some row')"
    by (auto split: option.splits)
  have "fits p mid row1" using fits_op [OF Cons.prems(1) _ c(1) [unfolded co] _ _ row1(1)] mid Cons.prems(4,5) by auto
  then show ?case using Cons.IH [OF _ _ c(2) _ _ row1(2)] rest Cons.prems(4,5) mid by simp
qed simp

text \<open>A pushed row with declared fields only that passes the check of an event without optional
  fields fits the event's schema.\<close>

lemma validate_row_fits:
  assumes "validate_row es row" and "es_optional_fields es = []" and "btree_wf (es_fields es)"
    and "row_wf row" and "dom (row_get row) \<subseteq> fst ` set (es_fields es)"
  shows "fits True (from_event es) row"
proof -
  have ok: "\<exists>v. row_get row f = Some v \<and> value_type_compatible v ft" if "map_of (es_fields es) f = Some ft" for f ft
    using assms(1,2) map_of_SomeD [OF that] by (fastforce simp: validate_row_def split: option.splits)
  have "row_typed (from_event es) row"
    unfolding row_typed_def from_event_def
  proof (intro allI impI)
    fix f ft v assume "map_of (sch_fields \<lparr>sch_fields = es_fields es, sch_optional_fields = es_optional_fields es\<rparr>) f = Some ft \<and> row_get row f = Some v"
    then show "typed v (Known ft)" using ok [of f ft] by auto
  qed
  moreover have "dom (map_of (es_fields es)) \<subseteq> dom (row_get row)" using ok by blast
  ultimately show ?thesis using assms(3-5) by (simp add: fits_def from_event_def dom_map_of_conv_image_fst)
qed

lemma fillna_schema:
  "apply_fillna_schema i defaults schema =
     (schema\<lparr>sch_optional_fields := filter (\<lambda>f. map_of defaults f = None \<or> map_of (sch_fields schema) f = None) (sch_optional_fields schema)\<rparr>,
      map (FieldMissing i) (filter (\<lambda>f. map_of (sch_fields schema) f = None) (map fst defaults)))"
  by (induction defaults arbitrary: schema) (auto intro!: Schema.equality filter_cong)

lemma fillna_row:
  assumes "distinct (map fst defaults)" and "row_wf row"
  shows "row_get (fold fill_field (map (\<lambda>(k, v). (k, json_to_value v)) defaults) row) f =
    (case map_of defaults f of
       Some d \<Rightarrow> if row_get row f = Some VNull then Some (json_to_value d) else row_get row f
     | None \<Rightarrow> row_get row f)"
  using assms
proof (induction defaults arbitrary: row)
  case (Cons e defaults)
  obtain k v where e: "e = (k, v)" by (cases e)
  have "row_wf (fill_field (k, json_to_value v) row)" using Cons.prems(2) by (auto simp: fill_field_def wf_intros)
  from Cons.IH [OF _ this] Cons.prems show ?case
    by (cases "f = k") (auto simp: e fill_field_get map_of_eq_None_iff [THEN iffD2] split: option.splits)
qed (simp split: option.splits)

section \<open>Properties\<close>


definition example_schema :: Schema where
  "example_schema = \<lparr>sch_fields = [(''a'', TI64), (''s'', TStr)], sch_optional_fields = [''s'']\<rparr>"

definition example_ops :: "OpNode list" where
  "example_ops = [OpWithColumns [(''x'', ''(a + 1)'')], OpRename [(''s'', ''t'')], OpSelect [''t'', ''x'']]"


text \<open>C30. What a fillna operator does, at registration and on a row. It compiles exactly when its fields are
  in the schema, whatever the types of its default values; the schema keeps the types of all
  fields and calls the filled ones required. On a row, exactly the fields that are present
  with a null get their default: an absent field stays absent, although the schema calls it required,
  and a default of another type than its field ends up in the row.\<close>

theorem fillna_effect:
  assumes "distinct (map fst defaults)" and "row_wf row"
  shows "((\<exists>c out. chain_compile lm input [OpFillna defaults] = Inr (c, out)) \<longleftrightarrow> fst ` set defaults \<subseteq> fst ` set (sch_fields input)) \<and>
    (\<forall>c out. chain_compile lm input [OpFillna defaults] = Inr (c, out) \<longrightarrow>
       sch_fields out = sch_fields input \<and>
       sch_optional_fields out = filter (\<lambda>f. f \<notin> fst ` set defaults) (sch_optional_fields input) \<and>
       (\<exists>row'. chain_apply lm c row = Some (Some row') \<and>
          (\<forall>f. row_get row' f =
             (case map_of defaults f of
                Some d \<Rightarrow> if row_get row f = Some VNull then Some (json_to_value d) else row_get row f
              | None \<Rightarrow> row_get row f))))"
proof -
  have c: "chain_compile lm input [OpFillna defaults] =
      (if fst ` set defaults \<subseteq> fst ` set (sch_fields input)
       then Inr ([CFillna (map (\<lambda>(k, v). (k, json_to_value v)) defaults)], input\<lparr>sch_optional_fields := filter (\<lambda>f. f \<notin> fst ` set defaults) (sch_optional_fields input)\<rparr>)
       else Inl (snd (apply_fillna_schema 0 defaults input)))"
    by (auto simp: chain_compile_def propagate_schema_def fillna_schema map_of_eq_None_iff filter_empty_conv intro!: Schema.equality filter_cong)
  show ?thesis using fillna_row [OF assms] by (auto simp: c)
qed

theorem fillna_effect_witness:
  "\<forall>lm. \<exists>c out row'. chain_compile lm example_schema [OpFillna [(''s'', JNumber (Some 0) None)]] = Inr (c, out) \<and>
     sch_optional_fields out = [] \<and> chain_apply lm c [(''a'', VI64 4), (''s'', VNull)] = Some (Some row') \<and> row_get row' ''s'' = Some (VI64 0)"
proof
  fix lm
  show "\<exists>c out row'. chain_compile lm example_schema [OpFillna [(''s'', JNumber (Some 0) None)]] = Inr (c, out) \<and>
     sch_optional_fields out = [] \<and> chain_apply lm c [(''a'', VI64 4), (''s'', VNull)] = Some (Some row') \<and> row_get row' ''s'' = Some (VI64 0)"
    using fillna_effect [of "[(''s'', JNumber (Some 0) None)]" "[(''a'', VI64 4), (''s'', VNull)]" lm example_schema]
    by (fastforce simp: example_schema_def row_wf_def row_get_map_of)
qed

end
