(* ===== verification/WalFile.thy ===== *)
theory WalFile
  imports Bytes
begin

text \<open>
  The data-plane log: the record that a push writes (\<open>dispatch_push_sync\<close> of
  \<open>crates/beava-server/src/apply_shard.rs\<close>), the parser of recovery
  (\<open>parse_handrolled_records\<close> of \<open>recovery.rs\<close>), and the log writer's record scan, tail repair
  and compaction (\<open>crates/beava-runtime-core/src/wal_writer.rs\<close>). A file is its bytes;
  errors of the file system are not modelled.

  The log is a \<open>frame_codec\<close>, so a reader finds in any prefix of a written log exactly the
  complete records. Repairing a torn log keeps them all and makes it fit for appending, and
  compaction removes the covered records and no other.
\<close>

section \<open>Records\<close>

record HandrolledWalRecord =
  hw_lsn :: u64
  hw_body_format :: u8
  hw_rv :: u32
  hw_et_ms :: int
  hw_event_name :: string
  hw_body :: "u8 list"

text \<open>The payload of a push, version 3. The lengths are cast to \<open>u16\<close> and \<open>u32\<close>.\<close>

definition encode_push_record :: "u64 \<Rightarrow> u8 \<Rightarrow> u32 \<Rightarrow> u64 \<Rightarrow> string \<Rightarrow> u8 list \<Rightarrow> u8 list" where
  "encode_push_record lsn body_format rv now_ms event_name body =
     [3] @ to_be 8 (unat lsn) @ [body_format] @ to_be 4 (unat rv) @ to_be 8 (unat now_ms) @
     to_be 2 (length event_name) @ str_bytes event_name @ to_be 4 (length body) @ body"

text \<open>One record at the front of the data: the fields, and the data behind it.\<close>

record scanned =
  sc_version :: u8
  sc_assigned_lsn :: "u64 option"
  sc_body_format :: u8
  sc_rv :: u32
  sc_et_ms :: int
  sc_name :: "u8 list"
  sc_body :: "u8 list"

text \<open>The fields behind the version and the sequence number.\<close>

definition scan_fields :: "u8 list \<Rightarrow> (u8 \<times> u32 \<times> int \<times> u8 list \<times> u8 list \<times> u8 list) option" where
  "scan_fields d2 =
     (if length d2 < 15 then None
      else
        let name_len = from_be (take 2 (drop 13 d2)); d3 = drop 15 d2 in
        if length d3 < name_len + 4 then None
        else if \<not> utf8_valid (take name_len d3) then None
        else
          let body_len = from_be (take 4 (drop name_len d3)); d4 = drop (name_len + 4) d3 in
          if length d4 < body_len then None
          else Some (d2 ! 0, of_nat (from_be (take 4 (drop 1 d2))), sint (of_nat (from_be (take 8 (drop 5 d2))) :: u64),
                     take name_len d3, take body_len d4, drop body_len d4))"

definition scan_record :: "u8 list \<Rightarrow> (scanned \<times> u8 list) option" where
  "scan_record data =
     (case data of
        [] \<Rightarrow> None
      | version # d1 \<Rightarrow>
          if version \<noteq> 2 \<and> version \<noteq> 3 then None
          else if version = 3 \<and> length d1 < 8 then None
          else
            map_option (\<lambda>(body_format, rv, et_ms, name, body, rest).
                (\<lparr>sc_version = version, sc_assigned_lsn = (if version = 3 then Some (of_nat (from_be (take 8 d1))) else None),
                  sc_body_format = body_format, sc_rv = rv, sc_et_ms = et_ms, sc_name = name, sc_body = body\<rparr>, rest))
              (scan_fields (if version = 3 then drop 8 d1 else d1)))"

lemma scan_fields_shorter: "scan_fields d = Some (f, v, e, n, b, rest) \<Longrightarrow> length rest < length d"
  by (auto simp: scan_fields_def Let_def split: if_splits)

lemma scan_record_shorter: "scan_record data = Some (sc, rest) \<Longrightarrow> length rest < length data"
  by (fastforce simp: scan_record_def dest: scan_fields_shorter split: list.splits if_splits)

section \<open>The parser of recovery\<close>

definition parse_handrolled_record :: "u64 \<Rightarrow> nat \<Rightarrow> u8 list \<Rightarrow> (HandrolledWalRecord \<times> nat \<times> u8 list) option" where
  "parse_handrolled_record base_lsn pos data =
     (case scan_record data of
        None \<Rightarrow> None
      | Some (sc, rest) \<Rightarrow>
          let pos' = pos + (length data - length rest) in
          Some (\<lparr>hw_lsn = (case sc_assigned_lsn sc of Some lsn \<Rightarrow> lsn | None \<Rightarrow> u64_saturating_add base_lsn (of_nat pos')),
                 hw_body_format = sc_body_format sc, hw_rv = sc_rv sc, hw_et_ms = sc_et_ms sc,
                 hw_event_name = bytes_str (sc_name sc), hw_body = sc_body sc\<rparr>, pos', rest))"

function parse_records_from :: "u64 \<Rightarrow> nat \<Rightarrow> u8 list \<Rightarrow> HandrolledWalRecord list" where
  "parse_records_from base_lsn pos data =
     (case parse_handrolled_record base_lsn pos data of
        None \<Rightarrow> []
      | Some (r, pos', rest) \<Rightarrow> r # parse_records_from base_lsn pos' rest)"
  by auto
termination
  by (relation "measure (\<lambda>(base, pos, data). length data)")
    (auto simp: parse_handrolled_record_def Let_def dest: scan_record_shorter split: option.splits)

declare parse_records_from.simps [simp del]

definition parse_handrolled_records :: "u8 list \<Rightarrow> u64 \<Rightarrow> HandrolledWalRecord list" where
  "parse_handrolled_records data base_lsn = parse_records_from base_lsn 0 data"

section \<open>The log writer\<close>

record ParsedWalRecord =
  pw_lsn :: u64
  pw_start :: nat
  pw_end :: nat
  pw_version :: u8

text \<open>The loop of \<open>parse_wal_record_bounds_with_prefix\<close>: the bounds of the records, and where the
  last one ends.\<close>

function record_bounds :: "nat \<Rightarrow> u8 list \<Rightarrow> ParsedWalRecord list \<times> nat" where
  "record_bounds pos data =
     (case scan_record data of
        None \<Rightarrow> ([], pos)
      | Some (sc, rest) \<Rightarrow>
          let end' = pos + (length data - length rest);
              (rs, valid) = record_bounds end' rest in
          (\<lparr>pw_lsn = (case sc_assigned_lsn sc of Some lsn \<Rightarrow> lsn | None \<Rightarrow> of_nat end'),
            pw_start = pos, pw_end = end', pw_version = sc_version sc\<rparr> # rs, valid))"
  by auto
termination
  by (relation "measure (\<lambda>(pos, data). length data)") (auto dest: scan_record_shorter)

declare record_bounds.simps [simp del]

definition parse_wal_record_bounds_with_prefix :: "u8 list \<Rightarrow> ParsedWalRecord list \<times> nat" where
  "parse_wal_record_bounds_with_prefix data = record_bounds 0 data"

definition repair_wal_file_tail :: "u8 list \<Rightarrow> u8 list" where
  "repair_wal_file_tail data =
     (let valid_prefix_len = snd (parse_wal_record_bounds_with_prefix data) in
      if valid_prefix_len = length data then data else take valid_prefix_len data)"

text \<open>\<open>None\<close> is the error on a retained record without an assigned sequence number.\<close>

definition compact_wal_file :: "u8 list \<Rightarrow> u64 \<Rightarrow> u8 list option" where
  "compact_wal_file data covered_lsn =
     (if data = [] then Some []
      else
        let (records, valid_prefix_len) = parse_wal_record_bounds_with_prefix data;
            kept = filter (\<lambda>r. \<not> pw_lsn r \<le> covered_lsn) records in
        if list_ex (\<lambda>r. pw_version r \<noteq> 3) kept then None
        else if length kept = length records \<and> valid_prefix_len = length data then Some data
        else Some (concat (map (\<lambda>r. drop (pw_start r) (take (pw_end r) data)) kept)))"

section \<open>The log as a stream of records\<close>

definition wal_encode :: "HandrolledWalRecord \<Rightarrow> u8 list" where
  "wal_encode r = encode_push_record (hw_lsn r) (hw_body_format r) (hw_rv r) (word_of_int (hw_et_ms r)) (hw_event_name r) (hw_body r)"

definition wal_record_ok :: "HandrolledWalRecord \<Rightarrow> bool" where
  "wal_record_ok r \<longleftrightarrow> is_i64 (hw_et_ms r) \<and> length (hw_event_name r) < 2 ^ 16 \<and> utf8_valid (str_bytes (hw_event_name r)) \<and> length (hw_body r) < 2 ^ 32"

text \<open>What the scanner sees is unchanged by more data behind it.\<close>

lemma scan_fields_append:
  assumes "scan_fields d = Some (f, v, e, nm, b, rest)"
  shows "scan_fields (d @ q) = Some (f, v, e, nm, b, rest @ q)"
proof -
  let ?n = "from_be (take 2 (drop 13 d))"
  let ?d3 = "drop 15 d"
  let ?m = "from_be (take 4 (drop ?n ?d3))"
  let ?d4 = "drop (?n + 4) ?d3"
  have c: "\<not> length d < 15" "\<not> length ?d3 < ?n + 4" "utf8_valid (take ?n ?d3)" "\<not> length ?d4 < ?m"
    and r: "f = d ! 0" "v = of_nat (from_be (take 4 (drop 1 d)))" "e = sint (of_nat (from_be (take 8 (drop 5 d))) :: u64)"
      "nm = take ?n ?d3" "b = take ?m ?d4" "rest = drop ?m ?d4"
    using assms by (auto simp: scan_fields_def Let_def split: if_splits)
  have c': "\<not> length (d @ q) < 15" "\<not> length (?d3 @ q) < ?n + 4" "\<not> length (?d4 @ q) < ?m" using c by simp_all
  have n: "from_be (take 2 (drop 13 (d @ q))) = ?n" "drop 15 (d @ q) = ?d3 @ q" using c(1) by simp_all
  have m: "take 4 (drop ?n (?d3 @ q)) = take 4 (drop ?n ?d3)" "drop (?n + 4) (?d3 @ q) = ?d4 @ q" "take ?n (?d3 @ q) = take ?n ?d3" using c(2) by simp_all
  have e: "take ?m (?d4 @ q) = take ?m ?d4" "drop ?m (?d4 @ q) = drop ?m ?d4 @ q" using c(4) by simp_all
  have g: "(d @ q) ! 0 = d ! 0" "take 4 (drop 1 (d @ q)) = take 4 (drop 1 d)" "take 8 (drop 5 (d @ q)) = take 8 (drop 5 d)"
    using c(1) by (cases d; simp)+
  show ?thesis unfolding scan_fields_def Let_def n m e g r using c(3) c' by simp
qed

lemma scan_record_append:
  assumes "scan_record p = Some (sc, rest)"
  shows "scan_record (p @ q) = Some (sc, rest @ q)"
proof -
  obtain v d1 where p: "p = v # d1" using assms by (cases p) (simp_all add: scan_record_def)
  show ?thesis
    using assms by (auto simp: p scan_record_def scan_fields_append split: if_splits)
qed

lemma scan_encoded:
  assumes "wal_record_ok r"
  shows "scan_record (wal_encode r @ rest) =
    Some (\<lparr>sc_version = 3, sc_assigned_lsn = Some (hw_lsn r), sc_body_format = hw_body_format r, sc_rv = hw_rv r, sc_et_ms = hw_et_ms r,
           sc_name = str_bytes (hw_event_name r), sc_body = hw_body r\<rparr>, rest)"
proof -
  let ?n = "length (hw_event_name r)" and ?m = "length (hw_body r)" and ?et = "word_of_int (hw_et_ms r) :: u64"
  let ?d4 = "hw_body r @ rest"
  let ?d3 = "str_bytes (hw_event_name r) @ to_be 4 ?m @ ?d4"
  let ?d2 = "[hw_body_format r] @ to_be 4 (unat (hw_rv r)) @ to_be 8 (unat ?et) @ to_be 2 ?n @ ?d3"
  have data: "wal_encode r @ rest = 3 # to_be 8 (unat (hw_lsn r)) @ ?d2"
    by (simp add: wal_encode_def encode_push_record_def)
  have d2: "drop 8 (to_be 8 (unat (hw_lsn r)) @ ?d2) = ?d2" "take 8 (to_be 8 (unat (hw_lsn r)) @ ?d2) = to_be 8 (unat (hw_lsn r))" by simp_all
  have f: "?d2 ! 0 = hw_body_format r" "take 4 (drop 1 ?d2) = to_be 4 (unat (hw_rv r))" "take 8 (drop 5 ?d2) = to_be 8 (unat ?et)"
    "take 2 (drop 13 ?d2) = to_be 2 ?n" "drop 15 ?d2 = ?d3" by simp_all
  have n: "from_be (to_be 2 ?n) = ?n" "from_be (to_be 4 ?m) = ?m" using assms by (simp_all add: wal_record_ok_def)
  have g: "take ?n ?d3 = str_bytes (hw_event_name r)" "take 4 (drop ?n ?d3) = to_be 4 ?m" "drop (?n + 4) ?d3 = ?d4" by simp_all
  have h: "take ?m ?d4 = hw_body r" "drop ?m ?d4 = rest" by simp_all
  have et: "sint (of_nat (from_be (to_be 8 (unat ?et))) :: u64) = hw_et_ms r"
    using assms sint_word_of_int_i64 by (simp add: wal_record_ok_def)
  have u: "utf8_valid (str_bytes (hw_event_name r))" using assms by (simp add: wal_record_ok_def)
  have len: "\<not> length ?d2 < 15" "\<not> length ?d3 < ?n + 4" "\<not> length ?d4 < ?m" by simp_all
  have "scan_fields ?d2 = Some (hw_body_format r, hw_rv r, hw_et_ms r, str_bytes (hw_event_name r), hw_body r, rest)"
    unfolding scan_fields_def Let_def f n g h et using u len by simp
  then show ?thesis unfolding scan_record_def data list.case d2 by simp
qed

lemma scan_torn:
  assumes "wal_record_ok r" and "wal_encode r = p @ q" and "q \<noteq> []"
  shows "scan_record p = None"
proof (cases "scan_record p")
  case (Some x)
  obtain sc rest where "x = (sc, rest)" by (cases x)
  with Some scan_record_append [of p sc rest q] scan_encoded [OF assms(1), of "[]"] assms(2,3) show ?thesis by simp
qed simp

interpretation wal: frame_codec wal_encode
    "\<lambda>(base, pos) bs. Inr (map_option (\<lambda>(r, pos', rest). (r, (base, pos'), rest)) (parse_handrolled_record base pos bs)) :: unit + _"
    "\<lambda>(base, pos) bs. Inr (parse_records_from base pos bs)" wal_record_ok
proof (unfold_locales, goal_cases)
  case (1 r s rest)
  then show ?case using scan_encoded [OF 1, of rest] by (cases s) (simp add: parse_handrolled_record_def Let_def)
next
  case (2 r p q s)
  then show ?case using scan_torn by (cases s) (simp add: parse_handrolled_record_def)
next
  case (3 s)
  then show ?case by (cases s) (simp add: parse_handrolled_record_def scan_record_def)
next
  case (4 s bs)
  then show ?case
    by (cases s) (simp add: parse_records_from.simps [of _ _ bs] split: option.split)
qed

section \<open>Repair and compaction\<close>

fun stream_bounds :: "nat \<Rightarrow> HandrolledWalRecord list \<Rightarrow> ParsedWalRecord list" where
  "stream_bounds pos [] = []"
| "stream_bounds pos (r # rs) =
     \<lparr>pw_lsn = hw_lsn r, pw_start = pos, pw_end = pos + length (wal_encode r), pw_version = 3\<rparr> # stream_bounds (pos + length (wal_encode r)) rs"

lemma record_bounds_stream:
  assumes "\<forall>r \<in> set rs. wal_record_ok r" and "wal.torn t"
  shows "record_bounds pos (concat (map wal_encode rs) @ t) = (stream_bounds pos rs, pos + length (concat (map wal_encode rs)))"
  using assms
proof (induction rs arbitrary: pos)
  case Nil
  have "scan_record t = None" using Nil.prems(2) scan_torn by (auto simp: wal.torn_def scan_record_def)
  then show ?case by (simp add: record_bounds.simps [of pos t])
next
  case (Cons r rs)
  have "scan_record (wal_encode r @ concat (map wal_encode rs) @ t) =
    Some (\<lparr>sc_version = 3, sc_assigned_lsn = Some (hw_lsn r), sc_body_format = hw_body_format r, sc_rv = hw_rv r, sc_et_ms = hw_et_ms r,
           sc_name = str_bytes (hw_event_name r), sc_body = hw_body r\<rparr>, concat (map wal_encode rs) @ t)"
    using scan_encoded [of r "concat (map wal_encode rs) @ t"] Cons.prems(1) by simp
  then show ?case
    using Cons by (simp add: record_bounds.simps [of pos "wal_encode r @ concat (map wal_encode rs) @ t"] Let_def)
qed

lemma repair_stream:
  assumes "\<forall>r \<in> set rs. wal_record_ok r" and "wal.torn t"
  shows "repair_wal_file_tail (concat (map wal_encode rs) @ t) = concat (map wal_encode rs)"
  by (simp add: repair_wal_file_tail_def parse_wal_record_bounds_with_prefix_def record_bounds_stream [OF assms] Let_def)

lemma kept_slices:
  "concat (map (\<lambda>b. drop (pw_start b) (take (pw_end b) (pre @ concat (map wal_encode rs) @ t)))
     (filter (\<lambda>b. P (pw_lsn b)) (stream_bounds (length pre) rs))) = concat (map wal_encode (filter (\<lambda>r. P (hw_lsn r)) rs))"
proof (induction rs arbitrary: pre)
  case (Cons r rs)
  from Cons.IH [of "pre @ wal_encode r"] show ?case by simp
qed simp

lemma stream_bounds_simps:
  "length (filter (\<lambda>b. P (pw_lsn b)) (stream_bounds pos rs)) = length (filter (\<lambda>r. P (hw_lsn r)) rs)"
  "length (stream_bounds pos rs) = length rs"
  "b \<in> set (stream_bounds pos rs) \<Longrightarrow> pw_version b = 3"
  by (induction rs arbitrary: pos) auto

lemma compact_stream:
  assumes "\<forall>r \<in> set rs. wal_record_ok r" and "wal.torn t"
  shows "compact_wal_file (concat (map wal_encode rs) @ t) covered = Some (concat (map wal_encode (filter (\<lambda>r. \<not> hw_lsn r \<le> covered) rs)))"
proof -
  let ?data = "concat (map wal_encode rs) @ t" and ?P = "\<lambda>lsn. \<not> lsn \<le> covered"
  have all: "filter (\<lambda>r. ?P (hw_lsn r)) rs = rs" if "length (filter (\<lambda>r. ?P (hw_lsn r)) rs) = length rs"
    using that by (metis length_filter_less filter_True less_irrefl)
  show ?thesis
    using kept_slices [of "[]" rs t ?P] all
    by (auto simp: compact_wal_file_def parse_wal_record_bounds_with_prefix_def record_bounds_stream [OF assms] Let_def
        stream_bounds_simps(2) stream_bounds_simps(1) [of ?P] list_ex_iff dest: stream_bounds_simps(3))
qed

lemma parse_stream:
  assumes "\<forall>r \<in> set rs. wal_record_ok r" and "wal.torn t"
  shows "parse_handrolled_records (concat (map wal_encode rs) @ t) base = rs"
  using wal.reads_stream [OF assms, of "(base, 0)"] by (simp add: parse_handrolled_records_def)

lemma torn_Nil [simp]: "wal.torn []"
  by (simp add: wal.torn_def)

lemma wal_prefix:
  assumes "\<forall>r \<in> set rs. wal_record_ok r" and "prefix bs (concat (map wal_encode rs))"
  shows "\<exists>k \<le> length rs. parse_handrolled_records bs base = take k rs \<and> (\<exists>t. wal.torn t \<and> bs = concat (map wal_encode (take k rs)) @ t) \<and>
    (\<forall>j \<le> length rs. length (concat (map wal_encode (take j rs))) \<le> length bs \<longrightarrow> j \<le> k)"
proof -
  from wal.reads_prefix [OF assms, of "(base, 0)"] obtain k t where k: "k \<le> length rs" "bs = concat (map wal_encode (take k rs)) @ t"
      "k < length rs \<longrightarrow> (\<exists>q. wal_encode (rs ! k) = t @ q \<and> q \<noteq> [])" "k = length rs \<longrightarrow> t = []"
      and reads: "parse_records_from base 0 bs = take k rs" by auto
  have torn: "wal.torn t"
  proof (cases "k < length rs")
    case True
    then show ?thesis using k(3) assms(1) nth_mem unfolding wal.torn_def by blast
  qed (use k in \<open>simp add: wal.torn_def\<close>)
  have maximal: "j \<le> k" if j: "j \<le> length rs" "length (concat (map wal_encode (take j rs))) \<le> length bs" for j
  proof (rule ccontr)
    assume "\<not> j \<le> k"
    then have "k < length rs" "Suc k \<le> j" using j(1) by simp_all
    with k(3) obtain q where q: "wal_encode (rs ! k) = t @ q" "q \<noteq> []" by blast
    have "length (concat (map wal_encode (take (Suc k) rs))) \<le> length bs"
      using concat_take_mono [OF \<open>Suc k \<le> j\<close>, of wal_encode rs] j(2) by simp
    then show False using \<open>k < length rs\<close> q k(2) by (simp add: take_Suc_conv_app_nth)
  qed
  show ?thesis using k(1,2) reads maximal torn by (intro exI [of _ k]) (auto simp: parse_handrolled_records_def)
qed

section \<open>Properties\<close>

text \<open>C6. After a crash the log is some prefix of what was written. Recovery reads exactly the
  records that are complete in it, in order and without an error; the writer's repair
  cuts the file behind them; and records appended after the repair are read behind the
  surviving ones.\<close>

theorem wal_crash_repair:
  assumes "\<forall>r \<in> set rs. wal_record_ok r" and "prefix bs (concat (map wal_encode rs))"
  shows "\<exists>k \<le> length rs. parse_handrolled_records bs base = take k rs \<and>
    (\<forall>j \<le> length rs. length (concat (map wal_encode (take j rs))) \<le> length bs \<longrightarrow> j \<le> k) \<and>
    (\<forall>later. (\<forall>r \<in> set later. wal_record_ok r) \<longrightarrow>
       parse_handrolled_records (repair_wal_file_tail bs @ concat (map wal_encode later)) base = take k rs @ later)"
proof -
  from wal_prefix [OF assms, of base] obtain k t where k: "k \<le> length rs" "parse_handrolled_records bs base = take k rs"
      "wal.torn t" "bs = concat (map wal_encode (take k rs)) @ t"
      "\<forall>j \<le> length rs. length (concat (map wal_encode (take j rs))) \<le> length bs \<longrightarrow> j \<le> k" by blast
  have ok: "\<forall>r \<in> set (take k rs). wal_record_ok r" using assms(1) by (meson in_set_takeD)
  have "parse_handrolled_records (repair_wal_file_tail bs @ concat (map wal_encode later)) base = take k rs @ later"
    if "\<forall>r \<in> set later. wal_record_ok r" for later
    using parse_stream [of "take k rs @ later" "[]" base] ok that repair_stream [OF ok k(3)] k(4) by auto
  then show ?thesis using k(1,2,5) by (intro exI [of _ k]) auto
qed

definition example_record :: HandrolledWalRecord where
  "example_record = \<lparr>hw_lsn = 30, hw_body_format = 1, hw_rv = 1, hw_et_ms = 5, hw_event_name = ''T'', hw_body = [123, 125]\<rparr>"

lemma example_record_ok: "wal_record_ok example_record"
  by (simp add: wal_record_ok_def example_record_def is_i64_def str_bytes_def)

theorem wal_crash_repair_witness:
  "parse_handrolled_records (wal_encode example_record @ [3, 0]) 0 = [example_record] \<and>
   parse_handrolled_records (repair_wal_file_tail (wal_encode example_record @ [3, 0]) @ wal_encode example_record) 0 = [example_record, example_record]"
proof -
  have all: "\<forall>r \<in> set [example_record, example_record]. wal_record_ok r" using example_record_ok by simp
  have pre: "prefix (wal_encode example_record @ [3, 0]) (concat (map wal_encode [example_record, example_record]))" by code_simp
  from wal_crash_repair [OF all pre, of 0] obtain k where k: "k \<le> length [example_record, example_record]" "parse_handrolled_records (wal_encode example_record @ [3, 0]) 0 = take k [example_record, example_record]"
    "\<forall>later. (\<forall>r \<in> set later. wal_record_ok r) \<longrightarrow>
       parse_handrolled_records (repair_wal_file_tail (wal_encode example_record @ [3, 0]) @ concat (map wal_encode later)) 0 = take k [example_record, example_record] @ later"
    by blast
  moreover have "length (parse_handrolled_records (wal_encode example_record @ [3, 0]) 0) = 1" by code_simp
  ultimately have "k = 1" by simp
  with k(2) k(3) [rule_format, of "[example_record]"] example_record_ok show ?thesis by simp
qed

text \<open>Compacting the log up to a sequence number that a snapshot covers removes the records up
  to it and no other: recovery reads from the compacted file, also after more records
  are appended, exactly the records of the old file above the number.\<close>

lemma wal_compaction:
  assumes "\<forall>r \<in> set rs. wal_record_ok r" and "\<forall>r \<in> set later. wal_record_ok r"
  shows "\<exists>data. compact_wal_file (concat (map wal_encode rs)) covered = Some data \<and>
    parse_handrolled_records (data @ concat (map wal_encode later)) base =
      filter (\<lambda>r. covered < hw_lsn r) (parse_handrolled_records (concat (map wal_encode rs)) base) @ later"
proof -
  let ?kept = "filter (\<lambda>r. \<not> hw_lsn r \<le> covered) rs"
  have "\<forall>r \<in> set (?kept @ later). wal_record_ok r" using assms by auto
  then have "parse_handrolled_records (concat (map wal_encode ?kept) @ concat (map wal_encode later)) base = ?kept @ later"
    using parse_stream [of "?kept @ later" "[]" base] by simp
  then show ?thesis
    using compact_stream [OF assms(1) torn_Nil, of covered] parse_stream [OF assms(1) torn_Nil, of base] by (simp add: not_le)
qed

end
