(* ===== verification/Persistence.thy ===== *)
theory Persistence
  imports Bytes
begin

text \<open>
  The persistence crate (\<open>crates/beava-persistence/src\<close>): log records (\<open>record.rs\<close>), segment
  headers (\<open>segment.rs\<close>), the segment reader (\<open>reader.rs\<close>) and writer (\<open>writer.rs\<close>),
  rotation and truncation (\<open>rotation.rs\<close>), snapshot headers and files
  (\<open>snapshot_header.rs\<close>, \<open>snapshot.rs\<close>). A file is its bytes and a directory the list of its
  files; the CRC-32C of the crc32c package is a parameter. Of the errors of the operating
  system only the end of a file and an existing file are modelled; synchronisation to
  disk has no effect on the contents.

  A segment is a \<open>frame_codec\<close>, so a torn segment reads as its complete records. The
  lemmas also show that snapshot files survive the round trip and are rejected when they
  are cut short, that a snapshot write that stops anywhere leaves every other file as it was, and
  that truncation removes only records a snapshot covers.
\<close>

section \<open>Errors\<close>

datatype io_error = UnexpectedEof | AlreadyExists | NotFound

datatype SnapshotError =
    SnapBadMagic "u8 list"
  | SnapUnsupportedVersion u16
  | HeaderCrcMismatch u32 u32
  | BodyCrcMismatch u32 u32
  | Truncated u64 nat

datatype PersistError =
    Io io_error
  | CrcMismatch nat u32 u32
  | BadMagic "u8 list"
  | UnsupportedVersion u32
  | UnknownRecordType u8
  | TornRecord nat nat
  | Snapshot SnapshotError

section \<open>Log records\<close>

datatype RecordType = RtEvent | RtRegistryBump

definition record_type_from_u8 :: "u8 \<Rightarrow> PersistError + RecordType" where
  "record_type_from_u8 b = (if b = 1 then Inr RtEvent else if b = 2 then Inr RtRegistryBump else Inl (UnknownRecordType b))"

fun record_type_to_u8 :: "RecordType \<Rightarrow> u8" where
  "record_type_to_u8 RtEvent = 1"
| "record_type_to_u8 RtRegistryBump = 2"

record WalRecord =
  wr_lsn :: u64
  wr_record_type :: RecordType
  wr_payload :: "u8 list"

definition FORMAT_VERSION :: u32 where
  "FORMAT_VERSION = 1"

definition MAGIC :: "u8 list" where
  "MAGIC = str_bytes ''BEAVAWAL''"

definition record_body :: "WalRecord \<Rightarrow> u8 list" where
  "record_body rec = to_le 8 (unat (wr_lsn rec)) @ [record_type_to_u8 (wr_record_type rec)] @ wr_payload rec"

definition encode_record :: "(u8 list \<Rightarrow> u32) \<Rightarrow> WalRecord \<Rightarrow> u8 list" where
  "encode_record crc rec =
     (let body = record_body rec in to_le 4 (4 + length body) @ to_le 4 (unat (crc body)) @ body)"

text \<open>\<open>Inr None\<close> is a clean end or a torn tail.\<close>

definition decode_record :: "(u8 list \<Rightarrow> u32) \<Rightarrow> nat \<Rightarrow> u8 list \<Rightarrow> PersistError + (WalRecord \<times> u8 list) option" where
  "decode_record crc current_offset r =
     (if length r < 4 then Inr None
      else
        let len = from_le (take 4 r) in
        if len < 13 then Inl (TornRecord current_offset len)
        else if length (drop 4 r) < len then Inr None
        else
          let body = take len (drop 4 r);
              crc_expected = of_nat (from_le (take 4 body)) :: u32;
              crc_payload = drop 4 body;
              crc_got = crc crc_payload in
          if crc_expected \<noteq> crc_got then Inl (CrcMismatch current_offset crc_expected crc_got)
          else case record_type_from_u8 (crc_payload ! 8) of
                 Inl e \<Rightarrow> Inl e
               | Inr t \<Rightarrow>
                   Inr (Some (\<lparr>wr_lsn = of_nat (from_le (take 8 crc_payload)), wr_record_type = t, wr_payload = drop 9 crc_payload\<rparr>,
                              drop len (drop 4 r))))"

section \<open>Segments\<close>

definition HEADER_SIZE :: nat where
  "HEADER_SIZE = 24"

definition hex_digit :: "nat \<Rightarrow> char" where
  "hex_digit d = (if d < 10 then char_of (48 + d) else char_of (87 + d))"

text \<open>\<open>{:016x}\<close> of a \<open>u64\<close>.\<close>

fun hex_digits :: "nat \<Rightarrow> nat \<Rightarrow> string" where
  "hex_digits 0 n = []"
| "hex_digits (Suc k) n = hex_digits k (n div 16) @ [hex_digit (n mod 16)]"

definition hex16 :: "u64 \<Rightarrow> string" where
  "hex16 w = hex_digits 16 (unat w)"

definition hex_val :: "char \<Rightarrow> nat option" where
  "hex_val c =
     (let n = of_char c :: nat in
      if 48 \<le> n \<and> n \<le> 57 then Some (n - 48) else if 97 \<le> n \<and> n \<le> 102 then Some (n - 87)
      else if 65 \<le> n \<and> n \<le> 70 then Some (n - 55) else None)"

fun parse_hex :: "nat \<Rightarrow> string \<Rightarrow> nat option" where
  "parse_hex acc [] = Some acc"
| "parse_hex acc (c # cs) = (case hex_val c of None \<Rightarrow> None | Some d \<Rightarrow> parse_hex (16 * acc + d) cs)"

text \<open>\<open>u64::from_str_radix(s, 16)\<close>: a leading plus sign is accepted, an overflow is an error.\<close>

definition from_str_radix_16 :: "string \<Rightarrow> u64 option" where
  "from_str_radix_16 s =
     (let digits = (case s of c # cs \<Rightarrow> (if c = CHR ''+'' then cs else s) | [] \<Rightarrow> s) in
      if digits = [] then None
      else case parse_hex 0 digits of Some n \<Rightarrow> (if n < 2 ^ 64 then Some (of_nat n) else None) | None \<Rightarrow> None)"

definition segment_filename :: "u64 \<Rightarrow> string" where
  "segment_filename start_lsn = ''wal-'' @ hex16 start_lsn @ ''.log''"

definition write_header :: "u64 \<Rightarrow> u32 \<Rightarrow> u8 list" where
  "write_header start_lsn registry_version = MAGIC @ to_le 4 (unat FORMAT_VERSION) @ to_le 8 (unat start_lsn) @ to_le 4 (unat registry_version)"

definition read_header :: "u8 list \<Rightarrow> PersistError + (u64 \<times> u32 \<times> u8 list)" where
  "read_header r =
     (if length r < 8 then Inl (Io UnexpectedEof)
      else if take 8 r \<noteq> MAGIC then Inl (BadMagic (take 8 r))
      else if length r < 12 then Inl (Io UnexpectedEof)
      else
        let version = of_nat (from_le (take 4 (drop 8 r))) :: u32 in
        if version \<noteq> FORMAT_VERSION then Inl (UnsupportedVersion version)
        else if length r < 24 then Inl (Io UnexpectedEof)
        else Inr (of_nat (from_le (take 8 (drop 12 r))), of_nat (from_le (take 4 (drop 20 r))), drop 24 r))"

section \<open>The segment reader\<close>

lemma decode_record_shorter: "decode_record crc off r = Inr (Some (rec, rest)) \<Longrightarrow> length rest < length r"
  by (auto simp: decode_record_def Let_def split: if_splits sum.splits)

text \<open>The iterator collected: the records up to the end, or the first error.\<close>

function collect_records :: "(u8 list \<Rightarrow> u32) \<Rightarrow> nat \<Rightarrow> u8 list \<Rightarrow> PersistError + WalRecord list" where
  "collect_records crc pos r =
     (case decode_record crc pos r of
        Inl e \<Rightarrow> Inl e
      | Inr None \<Rightarrow> Inr []
      | Inr (Some (rec, rest)) \<Rightarrow>
          map_sum id ((#) rec) (collect_records crc (pos + (4 + 4 + 8 + 1 + length (wr_payload rec))) rest))"
  by auto
termination
  by (relation "measure (\<lambda>(crc, pos, r). length r)") (auto dest: decode_record_shorter)

declare collect_records.simps [simp del]

definition read_segment :: "(u8 list \<Rightarrow> u32) \<Rightarrow> u8 list \<Rightarrow> PersistError + WalRecord list" where
  "read_segment crc file_bytes =
     (case read_header file_bytes of
        Inl e \<Rightarrow> Inl e
      | Inr (_, _, r) \<Rightarrow> collect_records crc HEADER_SIZE r)"

type_synonym directory = "(string \<times> u8 list) list"

definition has_suffix :: "string \<Rightarrow> string \<Rightarrow> bool" where
  "has_suffix suf s \<longleftrightarrow> length suf \<le> length s \<and> drop (length s - length suf) s = suf"

text \<open>\<open>path.extension() == Some(ext)\<close>: a dot and the extension behind a non-empty stem.\<close>

definition has_extension :: "string \<Rightarrow> string \<Rightarrow> bool" where
  "has_extension ext s \<longleftrightarrow> has_suffix (CHR ''.'' # ext) s \<and> Suc (length ext) < length s"

fun read_segments :: "(u8 list \<Rightarrow> u32) \<Rightarrow> u8 list list \<Rightarrow> PersistError + WalRecord list" where
  "read_segments crc [] = Inr []"
| "read_segments crc (f # fs) =
     (case read_segment crc f of
        Inl e \<Rightarrow> Inl e
      | Inr recs \<Rightarrow> map_sum id (\<lambda>rest. recs @ rest) (read_segments crc fs))"

definition read_all :: "(u8 list \<Rightarrow> u32) \<Rightarrow> directory \<Rightarrow> PersistError + WalRecord list" where
  "read_all crc dir = read_segments crc (map snd (sort_key fst (filter (\<lambda>(name, _). has_extension ''log'' name) dir)))"

section \<open>The segment writer\<close>

text \<open>The path of the open segment and the bytes appended to it; the bytes in the file are those of
  the directory.\<close>

record SegmentWriter =
  sw_path :: string
  sw_bytes_since_header :: nat

definition create_new :: "string \<Rightarrow> u64 \<Rightarrow> u32 \<Rightarrow> directory \<Rightarrow> PersistError + (SegmentWriter \<times> directory)" where
  "create_new path start_lsn registry_version dir =
     (if map_of dir path \<noteq> None then Inl (Io AlreadyExists)
      else Inr (\<lparr>sw_path = path, sw_bytes_since_header = 0\<rparr>, (path, write_header start_lsn registry_version) # dir))"

definition reuse_orphan :: "string \<Rightarrow> u64 \<Rightarrow> u32 \<Rightarrow> directory \<Rightarrow> PersistError + (SegmentWriter \<times> directory)" where
  "reuse_orphan path start_lsn registry_version dir =
     (case map_of dir path of
        None \<Rightarrow> Inl (Io NotFound)
      | Some bytes \<Rightarrow>
          if length bytes \<noteq> HEADER_SIZE then Inl (Io AlreadyExists)
          else case read_header bytes of
                 Inl _ \<Rightarrow> Inl (Io AlreadyExists)
               | Inr (existing_start_lsn, existing_registry_version, _) \<Rightarrow>
                   if existing_start_lsn \<noteq> start_lsn \<or> existing_registry_version \<noteq> registry_version then Inl (Io AlreadyExists)
                   else Inr (\<lparr>sw_path = path, sw_bytes_since_header = 0\<rparr>, dir))"

definition writer_open :: "u64 \<Rightarrow> u32 \<Rightarrow> directory \<Rightarrow> PersistError + (SegmentWriter \<times> directory)" where
  "writer_open start_lsn registry_version dir =
     (let path = segment_filename start_lsn in
      case create_new path start_lsn registry_version dir of
        Inr x \<Rightarrow> Inr x
      | Inl e \<Rightarrow> if e = Io AlreadyExists then reuse_orphan path start_lsn registry_version dir else Inl e)"

definition file_append :: "string \<Rightarrow> u8 list \<Rightarrow> directory \<Rightarrow> directory" where
  "file_append path bs dir = map (\<lambda>(n, b). if n = path then (n, b @ bs) else (n, b)) dir"

definition writer_append :: "(u8 list \<Rightarrow> u32) \<Rightarrow> WalRecord \<Rightarrow> SegmentWriter \<times> directory \<Rightarrow> SegmentWriter \<times> directory" where
  "writer_append crc rec st =
     (let buf = encode_record crc rec in
      ((fst st)\<lparr>sw_bytes_since_header := sw_bytes_since_header (fst st) + length buf\<rparr>, file_append (sw_path (fst st)) buf (snd st)))"

definition rotate :: "u64 \<Rightarrow> u32 \<Rightarrow> SegmentWriter \<times> directory \<Rightarrow> PersistError + (SegmentWriter \<times> directory)" where
  "rotate next_start_lsn registry_version st = writer_open next_start_lsn registry_version (snd st)"

section \<open>Truncation\<close>

definition has_prefix :: "string \<Rightarrow> string \<Rightarrow> bool" where
  "has_prefix pre s \<longleftrightarrow> take (length pre) s = pre"

definition segment_lsn :: "string \<Rightarrow> u64 option" where
  "segment_lsn s =
     (if \<not> has_prefix ''wal-'' s \<or> \<not> has_suffix ''.log'' s then None
      else from_str_radix_16 (take (length s - 8) (drop 4 s)))"

definition list_segments :: "directory \<Rightarrow> (u64 \<times> string) list" where
  "list_segments dir = sort_key fst (List.map_filter (\<lambda>(name, _). map_option (\<lambda>lsn. (lsn, name)) (segment_lsn name)) dir)"

fun covered_segments :: "u64 \<Rightarrow> u64 \<Rightarrow> (u64 \<times> string) list \<Rightarrow> string list" where
  "covered_segments current covered ((start_lsn, path) # (next_start, path') # segs) =
     (if start_lsn \<noteq> current \<and> next_start \<le> covered then [path] else []) @ covered_segments current covered ((next_start, path') # segs)"
| "covered_segments current covered _ = []"

definition truncate_up_to :: "u64 \<Rightarrow> u64 \<Rightarrow> directory \<Rightarrow> nat \<times> directory" where
  "truncate_up_to current_start_lsn covered_lsn dir =
     (let gone = covered_segments current_start_lsn covered_lsn (list_segments dir) in
      (length gone, filter (\<lambda>(name, _). name \<notin> set gone) dir))"

section \<open>Snapshots\<close>

definition SNAPSHOT_MAGIC :: "u8 list" where
  "SNAPSHOT_MAGIC = str_bytes ''BEAVASNP''"

definition SNAPSHOT_FORMAT_VERSION :: u16 where
  "SNAPSHOT_FORMAT_VERSION = 1"

definition SNAPSHOT_HEADER_SIZE :: nat where
  "SNAPSHOT_HEADER_SIZE = 52"

definition SNAPSHOT_EXT :: string where
  "SNAPSHOT_EXT = ''bvs''"

record SnapshotHeader =
  sh_format_version :: u16
  sh_flags :: u16
  sh_created_at_ms :: int
  sh_snapshot_lsn :: u64
  sh_registry_version :: u64
  sh_body_len :: u64
  sh_body_crc32c :: u32

definition header_fields :: "SnapshotHeader \<Rightarrow> u8 list" where
  "header_fields h =
     SNAPSHOT_MAGIC @ to_le 2 (unat (sh_format_version h)) @ to_le 2 (unat (sh_flags h)) @
     to_le 8 (unat (word_of_int (sh_created_at_ms h) :: u64)) @ to_le 8 (unat (sh_snapshot_lsn h)) @
     to_le 8 (unat (sh_registry_version h)) @ to_le 8 (unat (sh_body_len h)) @ to_le 4 (unat (sh_body_crc32c h))"

definition header_encode :: "(u8 list \<Rightarrow> u32) \<Rightarrow> SnapshotHeader \<Rightarrow> u8 list" where
  "header_encode crc h = header_fields h @ to_le 4 (unat (crc (header_fields h)))"

definition header_decode :: "(u8 list \<Rightarrow> u32) \<Rightarrow> u8 list \<Rightarrow> SnapshotError + SnapshotHeader" where
  "header_decode crc b =
     (if take 8 b \<noteq> SNAPSHOT_MAGIC then Inl (SnapBadMagic (take 8 b))
      else
        let format_version = of_nat (from_le (take 2 (drop 8 b))) :: u16 in
        if format_version \<noteq> SNAPSHOT_FORMAT_VERSION then Inl (SnapUnsupportedVersion format_version)
        else
          let stored_crc = of_nat (from_le (take 4 (drop 48 b))) :: u32; computed_crc = crc (take 48 b) in
          if stored_crc \<noteq> computed_crc then Inl (HeaderCrcMismatch stored_crc computed_crc)
          else Inr \<lparr>sh_format_version = format_version,
                     sh_flags = of_nat (from_le (take 2 (drop 10 b))),
                     sh_created_at_ms = sint (of_nat (from_le (take 8 (drop 12 b))) :: u64),
                     sh_snapshot_lsn = of_nat (from_le (take 8 (drop 20 b))),
                     sh_registry_version = of_nat (from_le (take 8 (drop 28 b))),
                     sh_body_len = of_nat (from_le (take 8 (drop 36 b))),
                     sh_body_crc32c = of_nat (from_le (take 4 (drop 44 b)))\<rparr>)"

definition snapshot_header :: "(u8 list \<Rightarrow> u32) \<Rightarrow> u64 \<Rightarrow> u64 \<Rightarrow> int \<Rightarrow> u8 list \<Rightarrow> SnapshotHeader" where
  "snapshot_header crc snapshot_lsn registry_version now_ms body =
     \<lparr>sh_format_version = SNAPSHOT_FORMAT_VERSION, sh_flags = 0, sh_created_at_ms = now_ms, sh_snapshot_lsn = snapshot_lsn,
      sh_registry_version = registry_version, sh_body_len = of_nat (length body), sh_body_crc32c = crc body\<rparr>"

definition snapshot_open :: "(u8 list \<Rightarrow> u32) \<Rightarrow> u8 list \<Rightarrow> PersistError + (SnapshotHeader \<times> u8 list)" where
  "snapshot_open crc f =
     (if length f < SNAPSHOT_HEADER_SIZE then Inl (Io UnexpectedEof)
      else case header_decode crc (take SNAPSHOT_HEADER_SIZE f) of
             Inl e \<Rightarrow> Inl (Snapshot e)
           | Inr header \<Rightarrow>
               let rest = drop SNAPSHOT_HEADER_SIZE f in
               if length rest < unat (sh_body_len header) then Inl (Snapshot (Truncated (sh_body_len header) (length rest)))
               else
                 let body = take (unat (sh_body_len header)) rest; computed = crc body in
                 if computed \<noteq> sh_body_crc32c header then Inl (Snapshot (BodyCrcMismatch (sh_body_crc32c header) computed))
                 else Inr (header, body))"

text \<open>The file-system operations of \<open>SnapshotWriter::write\<close>, in order. A crash stops before
  any operation or inside a write.\<close>

datatype fs_op = CreateTruncate string | WriteAll string "u8 list" | Rename string string

definition file_put :: "string \<Rightarrow> u8 list \<Rightarrow> directory \<Rightarrow> directory" where
  "file_put path bs dir = (path, bs) # filter (\<lambda>(n, _). n \<noteq> path) dir"

fun fs_step :: "fs_op \<Rightarrow> directory \<Rightarrow> directory" where
  "fs_step (CreateTruncate path) dir = file_put path [] dir"
| "fs_step (WriteAll path bs) dir = file_append path bs dir"
| "fs_step (Rename a b) dir =
     (case map_of dir a of None \<Rightarrow> dir | Some bs \<Rightarrow> file_put b bs (filter (\<lambda>(n, _). n \<noteq> a) dir))"

definition snapshot_tmp :: "u64 \<Rightarrow> string" where
  "snapshot_tmp lsn = ''snapshot-'' @ hex16 lsn @ ''.tmp''"

definition snapshot_final :: "u64 \<Rightarrow> string" where
  "snapshot_final lsn = ''snapshot-'' @ hex16 lsn @ ''.'' @ SNAPSHOT_EXT"

definition snapshot_write_ops :: "(u8 list \<Rightarrow> u32) \<Rightarrow> u64 \<Rightarrow> u64 \<Rightarrow> int \<Rightarrow> u8 list \<Rightarrow> fs_op list" where
  "snapshot_write_ops crc lsn rv now_ms body =
     [CreateTruncate (snapshot_tmp lsn),
      WriteAll (snapshot_tmp lsn) (header_encode crc (snapshot_header crc lsn rv now_ms body)),
      WriteAll (snapshot_tmp lsn) body,
      Rename (snapshot_tmp lsn) (snapshot_final lsn)]"

definition snapshot_lsn_of :: "string \<Rightarrow> u64 option" where
  "snapshot_lsn_of name =
     (if \<not> has_extension SNAPSHOT_EXT name then None
      else let stem = take (length name - 4) name in
           if has_prefix ''snapshot-'' stem then from_str_radix_16 (drop 9 stem) else None)"

definition list_snapshots :: "directory \<Rightarrow> (u64 \<times> string) list" where
  "list_snapshots dir = rev (sort_key fst (rev (List.map_filter (\<lambda>(name, _). map_option (\<lambda>lsn. (lsn, name)) (snapshot_lsn_of name)) dir)))"

definition prune_old_snapshots :: "nat \<Rightarrow> directory \<Rightarrow> nat \<times> directory" where
  "prune_old_snapshots keep dir =
     (let gone = map snd (drop keep (list_snapshots dir)) in
      (length gone, filter (\<lambda>(name, _). name \<notin> set gone) dir))"

section \<open>Segments as streams of records\<close>

definition wal_rec_ok :: "WalRecord \<Rightarrow> bool" where
  "wal_rec_ok rec \<longleftrightarrow> length (wr_payload rec) + 13 < 2 ^ 32"

lemma length_record_body [simp]: "length (record_body rec) = 9 + length (wr_payload rec)"
  by (simp add: record_body_def)

lemma record_type_round [simp]: "record_type_from_u8 (record_type_to_u8 t) = Inr t"
  by (cases t) (simp_all add: record_type_from_u8_def)

lemma record_body_parts [simp]:
  "take 8 (record_body rec) = to_le 8 (unat (wr_lsn rec))"
  "record_body rec ! 8 = record_type_to_u8 (wr_record_type rec)"
  "drop 9 (record_body rec) = wr_payload rec"
  by (simp_all add: record_body_def nth_append)

lemma decode_encoded:
  assumes "wal_rec_ok rec"
  shows "decode_record crc off (encode_record crc rec @ rest) = Inr (Some (rec, rest))"
proof -
  let ?b = "record_body rec"
  let ?c = "to_le 4 (unat (crc ?b)) @ ?b"
  have enc: "encode_record crc rec @ rest = to_le 4 (4 + length ?b) @ ?c @ rest" by (simp add: encode_record_def Let_def)
  have len: "from_le (to_le 4 (4 + length ?b)) = length ?c" using assms by (simp add: wal_rec_ok_def)
  have c: "take 4 ?c = to_le 4 (unat (crc ?b))" "drop 4 ?c = ?b" "\<not> length ?c < 13" by simp_all
  have d: "take 4 (to_le 4 (4 + length ?b) @ ?c @ rest) = to_le 4 (4 + length ?b)"
    "drop 4 (to_le 4 (4 + length ?b) @ ?c @ rest) = ?c @ rest"
    "\<not> length (to_le 4 (4 + length ?b) @ ?c @ rest) < 4" by simp_all
  have e: "take (length ?c) (?c @ rest) = ?c" "drop (length ?c) (?c @ rest) = rest" "\<not> length (?c @ rest) < length ?c" by simp_all
  show ?thesis unfolding enc decode_record_def Let_def d len e c by simp
qed

lemma decode_torn:
  assumes "wal_rec_ok rec" and "encode_record crc rec = p @ q" and "q \<noteq> []"
  shows "decode_record crc off p = Inr None"
proof (cases "length p < 4")
  case False
  let ?b = "record_body rec"
  have enc: "p @ q = to_le 4 (4 + length ?b) @ to_le 4 (unat (crc ?b)) @ ?b" using assms(2) by (simp add: encode_record_def Let_def)
  then have "take 4 (p @ q) = to_le 4 (4 + length ?b)" by simp
  with False have "take 4 p = to_le 4 (4 + length ?b)" by simp
  then have len: "from_le (take 4 p) = 4 + length ?b" using assms(1) by (simp add: wal_rec_ok_def)
  have "length (p @ q) = 8 + length ?b" unfolding enc by simp
  then have "length (drop 4 p) < 4 + length ?b" using assms(3) by (cases q) auto
  then show ?thesis using False len by (simp add: decode_record_def Let_def)
qed (simp add: decode_record_def)

interpretation segment: frame_codec "encode_record crc"
    "\<lambda>pos bs. map_sum id (map_option (\<lambda>(rec, rest). (rec, pos + (4 + 4 + 8 + 1 + length (wr_payload rec)), rest))) (decode_record crc pos bs)"
    "collect_records crc" wal_rec_ok for crc
proof (unfold_locales, goal_cases)
  case (1 r s rest)
  then show ?case by (simp add: decode_encoded)
next
  case (2 r p q s)
  then show ?case by (simp add: decode_torn)
next
  case (3 s)
  then show ?case by (simp add: decode_record_def)
next
  case (4 s bs)
  then show ?case by (simp add: collect_records.simps [of crc s bs] split: sum.split option.split)
qed

lemma length_MAGIC [simp]: "length MAGIC = 8"
  by (simp add: MAGIC_def)

lemma length_write_header [simp]: "length (write_header lsn rv) = HEADER_SIZE"
  by (simp add: write_header_def HEADER_SIZE_def)

lemma read_write_header [simp]: "read_header (write_header lsn rv @ rest) = Inr (lsn, rv, rest)"
proof -
  let ?h = "MAGIC @ to_le 4 (unat FORMAT_VERSION) @ to_le 8 (unat lsn) @ to_le 4 (unat rv)"
  have "take 8 (?h @ rest) = MAGIC" "take 4 (drop 8 (?h @ rest)) = to_le 4 (unat FORMAT_VERSION)"
    "take 8 (drop 12 (?h @ rest)) = to_le 8 (unat lsn)" "take 4 (drop 20 (?h @ rest)) = to_le 4 (unat rv)" "drop 24 (?h @ rest) = rest"
    "\<not> length (?h @ rest) < 8" "\<not> length (?h @ rest) < 12" "\<not> length (?h @ rest) < 24"
    by simp_all
  then show ?thesis unfolding read_header_def write_header_def Let_def by (simp only: word_bytes if_False simp_thms)
qed

lemma read_header_short:
  assumes "n < HEADER_SIZE"
  shows "read_header (take n (write_header lsn rv @ rest)) = Inl (Io UnexpectedEof)"
proof -
  let ?h = "MAGIC @ to_le 4 (unat FORMAT_VERSION) @ to_le 8 (unat lsn) @ to_le 4 (unat rv)"
  let ?f = "?h @ rest"
  have n: "length (take n ?f) = n" using assms by (simp add: HEADER_SIZE_def)
  have m: "take 8 (take n ?f) = MAGIC" if "\<not> n < 8" using that by (simp add: min_def)
  have v: "take 4 (drop 8 (take n ?f)) = to_le 4 (unat FORMAT_VERSION)" if "\<not> n < 12"
  proof -
    have "take 4 (drop 8 (take n ?f)) = take (min 4 (n - 8)) (drop 8 ?f)" by (simp only: drop_take take_take)
    moreover have "min 4 (n - 8) = 4" using that by simp
    ultimately show ?thesis by simp
  qed
  show ?thesis
    using assms m v unfolding read_header_def write_header_def Let_def n by (cases "n < 8"; cases "n < 12") (simp_all add: HEADER_SIZE_def)
qed

text \<open>Bytes are determined by the number they encode, so an orphan that is reused is the header.\<close>

lemma to_le_from_le: "to_le (length bs) (from_le bs) = bs"
proof (induction bs)
  case (Cons b bs)
  have b: "unat b < 256" using unsigned_less [of b] by simp
  then have "(unat b + 256 * from_le bs) mod 256 = unat b" "(unat b + 256 * from_le bs) div 256 = from_le bs" by simp_all
  then show ?case using Cons by simp
qed simp

lemma to_le_of_word:
  "length bs = 8 \<Longrightarrow> to_le 8 (unat (of_nat (from_le bs) :: u64)) = bs"
  "length bs = 4 \<Longrightarrow> to_le 4 (unat (of_nat (from_le bs) :: u32)) = bs"
  using to_le_from_le [of bs] from_le_bound [of bs] by (auto simp: unat_of_nat take_bit_nat_eq_self)

lemma read_header_exact:
  assumes "read_header bs = Inr (lsn, rv, rest)" and "length bs = HEADER_SIZE"
  shows "bs = write_header lsn rv"
proof -
  let ?v = "take 4 (drop 8 bs)" and ?l = "take 8 (drop 12 bs)" and ?r = "take 4 (drop 20 bs)"
  have len: "length bs = 24" using assms(2) by (simp add: HEADER_SIZE_def)
  have h: "take 8 bs = MAGIC" "of_nat (from_le ?v) = FORMAT_VERSION" "lsn = of_nat (from_le ?l)" "rv = of_nat (from_le ?r)"
    using assms(1) by (auto simp: read_header_def Let_def split: if_splits)
  have "bs = take 8 bs @ drop 8 bs" "drop 8 bs = ?v @ drop 12 bs" "drop 12 bs = ?l @ drop 20 bs" "drop 20 bs = ?r"
    using append_take_drop_id [of 8 bs] append_take_drop_id [of 4 "drop 8 bs"] append_take_drop_id [of 8 "drop 12 bs"] len by simp_all
  then have "bs = take 8 bs @ ?v @ ?l @ ?r" by metis
  moreover have "?v = to_le 4 (unat FORMAT_VERSION)" "?l = to_le 8 (unat lsn)" "?r = to_le 4 (unat rv)"
    using to_le_of_word(2) [of ?v] to_le_of_word(1) [of ?l] to_le_of_word(2) [of ?r] len h by simp_all
  ultimately show ?thesis using h(1) by (simp add: write_header_def)
qed

section \<open>Writing a segment\<close>

lemma map_of_file_append: "map_of (file_append path bs dir) name = map_option (\<lambda>b. if name = path then b @ bs else b) (map_of dir name)"
  by (induction dir) (auto simp: file_append_def)

lemma writer_open_file:
  assumes "writer_open lsn rv dir = Inr (w, dir0)"
  shows "sw_path w = segment_filename lsn" "map_of dir0 (segment_filename lsn) = Some (write_header lsn rv)"
    "name \<noteq> segment_filename lsn \<Longrightarrow> map_of dir0 name = map_of dir name"
  using assms
  by (auto simp: writer_open_def create_new_def reuse_orphan_def Let_def read_header_exact
      split: if_splits option.splits sum.splits)

lemma append_all:
  assumes "map_of (snd st) (sw_path (fst st)) = Some bytes"
  shows "sw_path (fst (fold (writer_append crc) recs st)) = sw_path (fst st) \<and>
    map_of (snd (fold (writer_append crc) recs st)) (sw_path (fst st)) = Some (bytes @ concat (map (encode_record crc) recs)) \<and>
    (\<forall>name. name \<noteq> sw_path (fst st) \<longrightarrow> map_of (snd (fold (writer_append crc) recs st)) name = map_of (snd st) name)"
  using assms
proof (induction recs arbitrary: st bytes)
  case (Cons rec recs)
  let ?st = "writer_append crc rec st"
  have "map_of (snd ?st) (sw_path (fst ?st)) = Some (bytes @ encode_record crc rec)" "sw_path (fst ?st) = sw_path (fst st)"
    "\<forall>name. name \<noteq> sw_path (fst st) \<longrightarrow> map_of (snd ?st) name = map_of (snd st) name"
    using Cons.prems by (simp_all add: writer_append_def Let_def map_of_file_append option.map_ident)
  with Cons.IH [of ?st "bytes @ encode_record crc rec"] show ?case by simp
qed simp

lemma read_written:
  assumes "\<forall>rec \<in> set recs. wal_rec_ok rec"
  shows "read_segment crc (write_header lsn rv @ concat (map (encode_record crc) recs)) = Inr recs"
  using segment.reads_stream [OF assms, where t = "[]" and crc = crc and s = HEADER_SIZE] by (simp add: read_segment_def segment.torn_def)

lemma read_segment_prefix:
  assumes "\<forall>rec \<in> set recs. wal_rec_ok rec" and "HEADER_SIZE \<le> n"
  shows "\<exists>k \<le> length recs. read_segment crc (take n (write_header lsn rv @ concat (map (encode_record crc) recs))) = Inr (take k recs) \<and>
    (\<forall>j \<le> length recs. HEADER_SIZE + length (concat (map (encode_record crc) (take j recs))) \<le> n \<longrightarrow> j \<le> k)"
proof -
  let ?enc = "encode_record crc"
  let ?s = "concat (map ?enc recs)"
  let ?bs = "take (n - HEADER_SIZE) ?s"
  have pre: "prefix ?bs ?s" by (rule take_is_prefix)
  from segment.reads_prefix [OF assms(1) pre, of HEADER_SIZE] obtain k t where k: "k \<le> length recs" "?bs = concat (map ?enc (take k recs)) @ t"
      "collect_records crc HEADER_SIZE ?bs = Inr (take k recs)" "k < length recs \<longrightarrow> (\<exists>q. ?enc (recs ! k) = t @ q \<and> q \<noteq> [])" by blast
  have maximal: "j \<le> k" if j: "j \<le> length recs" "HEADER_SIZE + length (concat (map ?enc (take j recs))) \<le> n" for j
  proof (rule ccontr)
    assume "\<not> j \<le> k"
    then have "k < length recs" "Suc k \<le> j" using j(1) by simp_all
    with k(4) obtain q where q: "?enc (recs ! k) = t @ q" "q \<noteq> []" by blast
    have j': "length (concat (map ?enc (take (Suc k) recs))) \<le> length (concat (map ?enc (take j recs)))" "length (concat (map ?enc (take j recs))) \<le> length ?s"
      using concat_take_mono [OF \<open>Suc k \<le> j\<close>, of ?enc recs] concat_take_mono [OF j(1), of ?enc recs] by simp_all
    then have "length (concat (map ?enc (take (Suc k) recs))) \<le> length ?bs" using j(2) by simp
    then show False using \<open>k < length recs\<close> q unfolding k(2) by (simp add: take_Suc_conv_app_nth)
  qed
  have "read_segment crc (take n (write_header lsn rv @ ?s)) = Inr (take k recs)"
    using assms(2) k(3) by (simp add: read_segment_def)
  with k(1) maximal show ?thesis by blast
qed

section \<open>Properties of segments\<close>

text \<open>C21. A segment that is opened and appended to holds its header and the records, and leaves the
  other files alone; reading it gives the records back. When a crash cuts the file to its
  first \<open>n\<close> bytes, the reader finds exactly the records that are complete, unless the header
  itself is cut, which is an error.\<close>

theorem segment_crash:
  assumes "writer_open lsn rv dir = Inr (w, dir0)" and "\<forall>rec \<in> set recs. wal_rec_ok rec"
  shows "let dir' = snd (fold (writer_append crc) recs (w, dir0)) in
    \<exists>bytes. map_of dir' (segment_filename lsn) = Some bytes \<and>
    (\<forall>name. name \<noteq> segment_filename lsn \<longrightarrow> map_of dir' name = map_of dir name) \<and>
    read_segment crc bytes = Inr recs \<and>
    (\<forall>n < HEADER_SIZE. read_segment crc (take n bytes) = Inl (Io UnexpectedEof)) \<and>
    (\<forall>n \<ge> HEADER_SIZE. \<exists>k \<le> length recs. read_segment crc (take n bytes) = Inr (take k recs) \<and>
       (\<forall>j \<le> length recs. HEADER_SIZE + length (concat (map (encode_record crc) (take j recs))) \<le> n \<longrightarrow> j \<le> k))"
proof -
  let ?bytes = "write_header lsn rv @ concat (map (encode_record crc) recs)"
  let ?dir = "snd (fold (writer_append crc) recs (w, dir0))"
  note opened = writer_open_file [OF assms(1)]
  have wrote: "map_of ?dir (segment_filename lsn) = Some ?bytes" "name \<noteq> segment_filename lsn \<Longrightarrow> map_of ?dir name = map_of dir0 name" for name
    using append_all [of "(w, dir0)" "write_header lsn rv" crc recs] opened(1,2) by simp_all
  have "read_segment crc ?bytes = Inr recs" by (rule read_written [OF assms(2)])
  then show ?thesis
    using wrote opened(3) read_header_short read_segment_prefix [OF assms(2)] by (auto simp: read_segment_def Let_def)
qed

definition example_rec :: WalRecord where
  "example_rec = \<lparr>wr_lsn = 1, wr_record_type = RtEvent, wr_payload = [7]\<rparr>"

theorem segment_crash_witness:
  "\<exists>bytes. map_of (snd (fold (writer_append (\<lambda>_. 0)) [example_rec]
       (\<lparr>sw_path = segment_filename 1, sw_bytes_since_header = 0\<rparr>, [(segment_filename 1, write_header 1 1)]))) (segment_filename 1) = Some bytes \<and>
     read_segment (\<lambda>_. 0) bytes = Inr [example_rec] \<and> read_segment (\<lambda>_. 0) (take 3 bytes) = Inl (Io UnexpectedEof)"
proof -
  have "writer_open 1 1 [] = Inr (\<lparr>sw_path = segment_filename 1, sw_bytes_since_header = 0\<rparr>, [(segment_filename 1, write_header 1 1)])"
    by (simp add: writer_open_def create_new_def Let_def)
  moreover have "\<forall>rec \<in> set [example_rec]. wal_rec_ok rec" by (simp add: example_rec_def wal_rec_ok_def)
  ultimately show ?thesis using segment_crash [of 1 1 "[]" _ _ "[example_rec]" "\<lambda>_. 0"] by (fastforce simp: Let_def HEADER_SIZE_def)
qed

section \<open>Snapshot files\<close>

lemma length_header_fields [simp]: "length (header_fields h) = 48"
  by (simp add: header_fields_def SNAPSHOT_MAGIC_def)

lemma length_header_encode [simp]: "length (header_encode crc h) = SNAPSHOT_HEADER_SIZE"
  by (simp add: header_encode_def SNAPSHOT_HEADER_SIZE_def)

lemma header_round_trip:
  assumes "sh_format_version h = SNAPSHOT_FORMAT_VERSION" and "is_i64 (sh_created_at_ms h)"
  shows "header_decode crc (header_encode crc h) = Inr h"
proof -
  let ?t = "word_of_int (sh_created_at_ms h) :: u64"
  let ?f = "SNAPSHOT_MAGIC @ to_le 2 (unat (sh_format_version h)) @ to_le 2 (unat (sh_flags h)) @
     to_le 8 (unat ?t) @ to_le 8 (unat (sh_snapshot_lsn h)) @
     to_le 8 (unat (sh_registry_version h)) @ to_le 8 (unat (sh_body_len h)) @ to_le 4 (unat (sh_body_crc32c h))"
  let ?b = "?f @ to_le 4 (unat (crc ?f))"
  have len: "length SNAPSHOT_MAGIC = 8" by (simp add: SNAPSHOT_MAGIC_def)
  have b: "header_encode crc h = ?b" by (simp add: header_encode_def header_fields_def)
  have p: "take 8 ?b = SNAPSHOT_MAGIC" "take 2 (drop 8 ?b) = to_le 2 (unat (sh_format_version h))" "take 2 (drop 10 ?b) = to_le 2 (unat (sh_flags h))"
    "take 8 (drop 12 ?b) = to_le 8 (unat ?t)" "take 8 (drop 20 ?b) = to_le 8 (unat (sh_snapshot_lsn h))"
    "take 8 (drop 28 ?b) = to_le 8 (unat (sh_registry_version h))" "take 8 (drop 36 ?b) = to_le 8 (unat (sh_body_len h))"
    "take 4 (drop 44 ?b) = to_le 4 (unat (sh_body_crc32c h))" "take 4 (drop 48 ?b) = to_le 4 (unat (crc ?f))" "take 48 ?b = ?f"
    by (simp_all add: len)
  have "sint ?t = sh_created_at_ms h" using sint_word_of_int_i64 [OF assms(2)] .
  then show ?thesis unfolding b header_decode_def Let_def p word_bytes using assms(1) by simp
qed

lemma snapshot_open_cut:
  assumes "length body < 2 ^ 64" and "is_i64 now_ms"
    and h_def: "h = snapshot_header crc lsn rv now_ms body"
  shows "snapshot_open crc (take n (header_encode crc h @ body)) =
    (if n < SNAPSHOT_HEADER_SIZE then Inl (Io UnexpectedEof)
     else if n < SNAPSHOT_HEADER_SIZE + length body then Inl (Snapshot (Truncated (of_nat (length body)) (n - SNAPSHOT_HEADER_SIZE)))
     else Inr (h, body))"
proof (cases "n < SNAPSHOT_HEADER_SIZE")
  case False
  let ?f = "take n (header_encode crc h @ body)" and ?rest = "take (n - SNAPSHOT_HEADER_SIZE) body"
  have dec: "header_decode crc (header_encode crc h) = Inr h"
    using header_round_trip [of h crc] assms(2) by (simp add: h_def snapshot_header_def)
  have f: "take SNAPSHOT_HEADER_SIZE ?f = header_encode crc h" "drop SNAPSHOT_HEADER_SIZE ?f = ?rest" "\<not> length ?f < SNAPSHOT_HEADER_SIZE"
    using False by (simp_all add: min_def)
  have len: "unat (sh_body_len h) = length body" "sh_body_len h = of_nat (length body)" "sh_body_crc32c h = crc body"
    using assms(1) by (simp_all add: h_def snapshot_header_def unat_of_nat take_bit_nat_eq_self)
  show ?thesis unfolding snapshot_open_def f dec Let_def sum.case unfolding len(1) unfolding len(2,3) using False f(3) by (auto simp: min_def)
qed (simp add: snapshot_open_def)

section \<open>File names\<close>

lemma hex_val_digit: "d < 16 \<Longrightarrow> hex_val (hex_digit d) = Some d"
  by (auto simp: hex_val_def hex_digit_def Let_def)

lemma length_hex_digits [simp]: "length (hex_digits k n) = k"
  by (induction k arbitrary: n) auto

lemma parse_hex_append: "parse_hex acc (a @ b) = (case parse_hex acc a of None \<Rightarrow> None | Some acc' \<Rightarrow> parse_hex acc' b)"
  by (induction a arbitrary: acc) (auto split: option.split)

lemma parse_hex_digits: "parse_hex acc (hex_digits k n) = Some (16 ^ k * acc + n mod 16 ^ k)"
proof (induction k arbitrary: n)
  case (Suc k)
  have "16 * (16 ^ k * acc + n div 16 mod 16 ^ k) + n mod 16 = 16 ^ Suc k * acc + n mod 16 ^ Suc k"
    by (simp add: mod_mult2_eq algebra_simps)
  then show ?case using Suc [of "n div 16"] by (simp add: parse_hex_append hex_val_digit)
qed simp

lemma hex_digits_no_plus: "c \<in> set (hex_digits k n) \<Longrightarrow> c \<noteq> CHR ''+''"
proof (induction k arbitrary: n)
  case (Suc k)
  have "hex_val (hex_digit (n mod 16)) \<noteq> hex_val (CHR ''+'')" by (simp add: hex_val_digit) (simp add: hex_val_def)
  then show ?case using Suc by auto
qed simp

lemma from_str_hex16 [simp]: "from_str_radix_16 (hex16 w) = Some w"
proof -
  obtain c cs where c: "hex16 w = c # cs" by (cases "hex16 w") (auto simp: hex16_def dest: arg_cong [where f = length])
  then have "c \<noteq> CHR ''+''" using hex_digits_no_plus [of c 16 "unat w"] by (simp add: hex16_def)
  moreover have "unat w < 2 ^ 64" using unsigned_less [of w] by simp
  moreover have "parse_hex 0 (c # cs) = Some (unat w mod 16 ^ 16)" using parse_hex_digits [of 0 16 "unat w"] c by (simp add: hex16_def del: hex_digits.simps)
  ultimately show ?thesis by (simp add: from_str_radix_16_def c Let_def del: parse_hex.simps)
qed

lemma length_hex16 [simp]: "length (hex16 w) = 16"
  by (simp add: hex16_def)

lemma segment_lsn_filename: "segment_lsn (segment_filename lsn) = Some lsn"
  by (simp add: segment_lsn_def segment_filename_def has_prefix_def has_suffix_def)

lemma snapshot_file_names:
  "snapshot_lsn_of (snapshot_final lsn) = Some lsn" "snapshot_lsn_of (snapshot_tmp lsn) = None" "snapshot_tmp lsn \<noteq> snapshot_final lsn'"
proof -
  show t: "snapshot_lsn_of (snapshot_tmp lsn) = None"
    by (simp add: snapshot_lsn_of_def snapshot_tmp_def has_extension_def has_suffix_def SNAPSHOT_EXT_def)
  have f: "snapshot_lsn_of (snapshot_final lsn) = Some lsn" for lsn
    by (simp add: snapshot_lsn_of_def snapshot_final_def has_extension_def has_suffix_def has_prefix_def SNAPSHOT_EXT_def Let_def)
  then show "snapshot_lsn_of (snapshot_final lsn) = Some lsn" .
  show "snapshot_tmp lsn \<noteq> snapshot_final lsn'" using t f [of lsn'] by auto
qed

section \<open>Crashes while a snapshot is written\<close>

text \<open>The directories a crash can leave: it stops between two operations or inside a write.\<close>

inductive fs_crash :: "fs_op list \<Rightarrow> directory \<Rightarrow> directory \<Rightarrow> bool" where
  stop: "fs_crash ops dir dir"
| torn_write: "fs_crash (WriteAll path bs # ops) dir (file_append path (take n bs) dir)"
| op_done: "fs_crash ops (fs_step x dir) dir' \<Longrightarrow> fs_crash (x # ops) dir dir'"

inductive_simps fs_crash_simps [simp]:
  "fs_crash [] dir dir'"
  "fs_crash (CreateTruncate path # ops) dir dir'"
  "fs_crash (WriteAll path bs # ops) dir dir'"
  "fs_crash (Rename a b # ops) dir dir'"

lemma map_of_file_put [simp]: "map_of (file_put path bs dir) name = (if name = path then Some bs else map_of dir name)"
  by (induction dir) (auto simp: file_put_def)

lemma map_of_filter_ne [simp]: "map_of (filter (\<lambda>(n, _). n \<noteq> a) dir) name = (if name = a then None else map_of dir name)"
  by (induction dir) auto

lemma snapshot_write_crash_states:
  assumes "fs_crash (snapshot_write_ops crc lsn rv now_ms body) dir dir'"
  shows "name \<noteq> snapshot_tmp lsn \<Longrightarrow> name \<noteq> snapshot_final lsn \<Longrightarrow> map_of dir' name = map_of dir name"
    and "map_of dir' (snapshot_final lsn) = map_of dir (snapshot_final lsn) \<or>
      map_of dir' (snapshot_final lsn) = Some (header_encode crc (snapshot_header crc lsn rv now_ms body) @ body)"
  using assms snapshot_file_names(3) [of lsn lsn]
  by (auto simp: snapshot_write_ops_def map_of_file_append option.map_ident)

lemma set_list_snapshots: "(l, name) \<in> set (list_snapshots dir) \<longleftrightarrow> snapshot_lsn_of name = Some l \<and> name \<in> fst ` set dir"
  by (force simp: list_snapshots_def map_filter_def)

section \<open>Properties of snapshots\<close>

text \<open>C20. A snapshot write may stop anywhere, also inside a write of its bytes: every snapshot that
  recovery then lists is one that was there before, unchanged, or the new one in full, which opens
  to the header and the body that were written. A completed write is listed; and every
  proper prefix of a snapshot file is rejected, so a partial file is never loaded.\<close>

theorem snapshot_write_crash_safe:
  assumes "length body < 2 ^ 64" and "is_i64 now_ms"
    and "fs_crash (snapshot_write_ops crc lsn rv now_ms body) dir dir'"
  shows "(\<forall>(l, name) \<in> set (list_snapshots dir'). map_of dir' name = map_of dir name \<or>
      (\<exists>bytes. name = snapshot_final lsn \<and> map_of dir' name = Some bytes \<and>
         snapshot_open crc bytes = Inr (snapshot_header crc lsn rv now_ms body, body) \<and>
         (\<forall>n < length bytes. \<exists>e. snapshot_open crc (take n bytes) = Inl e)))
    \<and> (lsn, snapshot_final lsn) \<in> set (list_snapshots (fold fs_step (snapshot_write_ops crc lsn rv now_ms body) dir))"
proof -
  let ?h = "snapshot_header crc lsn rv now_ms body"
  let ?bytes = "header_encode crc ?h @ body"
  note cut = snapshot_open_cut [OF assms(1,2) refl, where crc = crc and lsn = lsn and rv = rv]
  have whole: "snapshot_open crc ?bytes = Inr (?h, body)" using cut [where n = "length ?bytes"] by simp
  have part: "\<exists>e. snapshot_open crc (take n ?bytes) = Inl e" if "n < length ?bytes" for n using cut [where n = n] that by simp
  have old: "map_of dir' name = map_of dir name \<or> name = snapshot_final lsn \<and> map_of dir' name = Some ?bytes"
    if "(l, name) \<in> set (list_snapshots dir')" for l name
  proof -
    have "name \<noteq> snapshot_tmp lsn" using that snapshot_file_names(2) [of lsn] by (auto simp: set_list_snapshots)
    then show ?thesis using snapshot_write_crash_states [OF assms(3)] by blast
  qed
  have "map_of (fold fs_step (snapshot_write_ops crc lsn rv now_ms body) dir) (snapshot_final lsn) \<noteq> None"
    using snapshot_file_names(3) [of lsn lsn] by (auto simp: snapshot_write_ops_def map_of_file_append)
  then have "(lsn, snapshot_final lsn) \<in> set (list_snapshots (fold fs_step (snapshot_write_ops crc lsn rv now_ms body) dir))"
    by (simp add: set_list_snapshots snapshot_file_names map_of_eq_None_iff)
  with old whole part show ?thesis by blast
qed

theorem snapshot_write_crash_safe_witness:
  "let dir' = fold fs_step (snapshot_write_ops (\<lambda>_. 0) 5 1 1000 [1, 2]) [] in
   (5, snapshot_final 5) \<in> set (list_snapshots dir') \<and>
   (\<exists>bytes. map_of dir' (snapshot_final 5) = Some bytes \<and> snapshot_open (\<lambda>_. 0) bytes = Inr (snapshot_header (\<lambda>_. 0) 5 1 1000 [1, 2], [1, 2]))"
proof -
  let ?ops = "snapshot_write_ops (\<lambda>_. 0) 5 1 1000 [1, 2]"
  have completed: "fs_crash ops dir (fold fs_step ops dir)" for ops dir
    by (induction ops arbitrary: dir) (auto intro: fs_crash.intros simp del: fs_crash_simps)
  from snapshot_write_crash_safe [of "[1, 2]" 1000 "\<lambda>_. 0" 5 1 "[]", OF _ _ completed] show ?thesis
    by (fastforce simp: is_i64_def set_list_snapshots Let_def dest: weak_map_of_SomeI)
qed

section \<open>Truncation\<close>

text \<open>The records of a segment lie below the start of every later one, as the writer leaves them.\<close>

definition segments_ordered :: "(u8 list \<Rightarrow> u32) \<Rightarrow> directory \<Rightarrow> bool" where
  "segments_ordered crc dir \<longleftrightarrow> distinct (map fst (list_segments dir)) \<and>
     list_all (\<lambda>(n, f). list_all (\<lambda>(n', _). case (segment_lsn n, segment_lsn n', read_segment crc f) of
        (Some a, Some b, Inr rs) \<Rightarrow> a < b \<longrightarrow> list_all (\<lambda>r. wr_lsn r < b) rs | _ \<Rightarrow> True) dir) dir"

lemma set_list_segments: "(l, name) \<in> set (list_segments dir) \<longleftrightarrow> segment_lsn name = Some l \<and> name \<in> fst ` set dir"
  by (force simp: list_segments_def map_filter_def)

lemma covered_segments_next:
  assumes "name \<in> set (covered_segments current covered segs)" and "sorted (map fst segs)" and "distinct (map fst segs)"
  shows "\<exists>a b name'. (a, name) \<in> set segs \<and> (b, name') \<in> set segs \<and> a \<noteq> current \<and> a < b \<and> b \<le> covered"
  using assms
proof (induction current covered segs rule: covered_segments.induct)
  case (1 current covered start_lsn path next_start path' segs)
  show ?case
  proof (cases "name \<in> set (covered_segments current covered ((next_start, path') # segs))")
    case True
    moreover have "sorted (map fst ((next_start, path') # segs))" "distinct (map fst ((next_start, path') # segs))" using 1(3,4) by simp_all
    ultimately show ?thesis using 1(1) by (meson list.set_intros(2))
  next
    case False
    with 1(2) have "name = path" "start_lsn \<noteq> current" "next_start \<le> covered" by (auto split: if_splits)
    moreover from 1(3,4) have "start_lsn < next_start" by (simp add: less_le)
    ultimately show ?thesis by (intro exI [of _ start_lsn] exI [of _ next_start] exI [of _ path']) simp
  qed
qed simp_all

lemma read_segments_drop:
  assumes "\<And>n f rs. (n, f) \<in> set fs \<Longrightarrow> \<not> P (n, f) \<Longrightarrow> read_segment crc f = Inr rs \<Longrightarrow> filter Q rs = []"
    and "read_segments crc (map snd fs) = Inr recs"
  shows "\<exists>recs'. read_segments crc (map snd (filter P fs)) = Inr recs' \<and> filter Q recs' = filter Q recs"
  using assms
proof (induction fs arbitrary: recs)
  case (Cons x fs)
  obtain n f where x: "x = (n, f)" by (cases x)
  from Cons.prems(2) obtain rs recs0 where r: "read_segment crc f = Inr rs" "read_segments crc (map snd fs) = Inr recs0" "recs = rs @ recs0"
    by (cases "read_segment crc f"; cases "read_segments crc (map snd fs)") (auto simp: x)
  have "\<exists>recs'. read_segments crc (map snd (filter P fs)) = Inr recs' \<and> filter Q recs' = filter Q recs0"
    by (rule Cons.IH [OF _ r(2)], rule Cons.prems(1)) auto
  then obtain recs' where "read_segments crc (map snd (filter P fs)) = Inr recs'" "filter Q recs' = filter Q recs0" by blast
  then show ?case using r Cons.prems(1) [of n f rs] by (cases "P x") (simp_all add: x)
qed simp

text \<open>C22. Truncating up to a sequence number loses no record at or above it: what the reader
  finds in the directory at or above the number is the same before and after, in order.
  The segment that is being written stays.\<close>

theorem truncate_keeps_uncovered:
  assumes "segments_ordered crc dir" and "read_all crc dir = Inr recs"
  shows "\<exists>recs'. read_all crc (snd (truncate_up_to current covered dir)) = Inr recs' \<and>
      filter (\<lambda>r. covered \<le> wr_lsn r) recs' = filter (\<lambda>r. covered \<le> wr_lsn r) recs
    \<and> (\<forall>(name, f) \<in> set dir. segment_lsn name = Some current \<longrightarrow> (name, f) \<in> set (snd (truncate_up_to current covered dir)))"
proof -
  let ?segs = "list_segments dir"
  let ?gone = "set (covered_segments current covered ?segs)"
  let ?logs = "sort_key fst (filter (\<lambda>(name, _). has_extension ''log'' name) dir)"
  have sorted: "sorted (map fst ?segs)" "distinct (map fst ?segs)" using assms(1) by (simp_all add: list_segments_def segments_ordered_def)
  have gone: "\<exists>a b name' f'. segment_lsn name = Some a \<and> (name', f') \<in> set dir \<and> segment_lsn name' = Some b \<and> a \<noteq> current \<and> a < b \<and> b \<le> covered"
    if "name \<in> ?gone" for name
    using covered_segments_next [OF that sorted] by (fastforce simp: set_list_segments)
  have below: "filter (\<lambda>r. covered \<le> wr_lsn r) rs = []"
    if f: "(name, f) \<in> set ?logs" "\<not> (case (name, f) of (name, _) \<Rightarrow> name \<notin> ?gone)" "read_segment crc f = Inr rs" for name f rs
  proof -
    from f(2) have "name \<in> ?gone" by simp
    from gone [OF this] obtain a b name' f' where g: "segment_lsn name = Some a" "(name', f') \<in> set dir" "segment_lsn name' = Some b" "a < b" "b \<le> covered" by blast
    have "list_all (\<lambda>r. wr_lsn r < b) rs"
      using assms(1) f(1,3) g by (fastforce simp: segments_ordered_def list_all_iff)
    with g(5) show ?thesis by (fastforce simp: list_all_iff filter_empty_conv)
  qed
  have read: "read_segments crc (map snd ?logs) = Inr recs" using assms(2) by (simp add: read_all_def)
  have comm: "sort_key fst (filter (\<lambda>(name, _). has_extension ''log'' name) (filter (\<lambda>(name, _). name \<notin> ?gone) dir)) = filter (\<lambda>(name, _). name \<notin> ?gone) ?logs"
    by (simp add: filter_sort conj_commute case_prod_unfold)
  have kept: "(name, f) \<in> set (snd (truncate_up_to current covered dir))" if "(name, f) \<in> set dir" "segment_lsn name = Some current" for name f
  proof -
    have "name \<notin> ?gone" using gone [of name] that(2) by auto
    with that(1) show ?thesis by (simp add: truncate_up_to_def Let_def)
  qed
  have "read_all crc (snd (truncate_up_to current covered dir)) = read_segments crc (map snd (filter (\<lambda>(name, _). name \<notin> ?gone) ?logs))"
    by (simp add: truncate_up_to_def read_all_def Let_def comm del: filter_filter)
  moreover have "\<exists>recs'. read_segments crc (map snd (filter (\<lambda>(name, _). name \<notin> ?gone) ?logs)) = Inr recs' \<and>
    filter (\<lambda>r. covered \<le> wr_lsn r) recs' = filter (\<lambda>r. covered \<le> wr_lsn r) recs"
    by (rule read_segments_drop [OF _ read], rule below)
  ultimately show ?thesis using kept by auto
qed

definition example_dir :: directory where
  "example_dir =
     [(segment_filename 1, write_header 1 1 @ encode_record (\<lambda>_. 0) example_rec),
      (segment_filename 2, write_header 2 1 @ encode_record (\<lambda>_. 0) (example_rec\<lparr>wr_lsn := 2\<rparr>))]"

theorem truncate_keeps_uncovered_witness:
  "\<exists>recs'. read_all (\<lambda>_. 0) (snd (truncate_up_to 2 2 example_dir)) = Inr recs' \<and> filter (\<lambda>r. 2 \<le> wr_lsn r) recs' = [example_rec\<lparr>wr_lsn := 2\<rparr>] \<and>
     fst (truncate_up_to 2 2 example_dir) = 1"
proof -
  have "wal_rec_ok example_rec" "wal_rec_ok (example_rec\<lparr>wr_lsn := 2\<rparr>)" by (simp_all add: wal_rec_ok_def example_rec_def)
  then have r: "read_segment (\<lambda>_. 0) (write_header l 1 @ encode_record (\<lambda>_. 0) example_rec) = Inr [example_rec]"
    "read_segment (\<lambda>_. 0) (write_header l 1 @ encode_record (\<lambda>_. 0) (example_rec\<lparr>wr_lsn := 2\<rparr>)) = Inr [example_rec\<lparr>wr_lsn := 2\<rparr>]" for l
    using read_written [of "[example_rec]"] read_written [of "[example_rec\<lparr>wr_lsn := 2\<rparr>]"] by simp_all
  have segs: "list_segments example_dir = [(1, segment_filename 1), (2, segment_filename 2)]"
    by (simp add: list_segments_def example_dir_def map_filter_def segment_lsn_filename)
  have log: "has_extension ''log'' (segment_filename l)" for l
    by (simp add: has_extension_def has_suffix_def segment_filename_def)
  have le: "segment_filename 1 < segment_filename 2" by code_simp
  have "segments_ordered (\<lambda>_. 0) example_dir"
    by (simp add: segments_ordered_def segs) (simp add: example_dir_def segment_lsn_filename r, simp add: example_rec_def)
  moreover have "read_all (\<lambda>_. 0) example_dir = Inr [example_rec, example_rec\<lparr>wr_lsn := 2\<rparr>]"
    using le by (simp add: read_all_def example_dir_def log r)
  moreover have "fst (truncate_up_to 2 2 example_dir) = 1" by (simp add: truncate_up_to_def segs Let_def)
  moreover have "\<not> (2 :: u64) \<le> 1" by code_simp
  ultimately show ?thesis using truncate_keeps_uncovered [of "\<lambda>_. 0" example_dir _ 2 2] by (auto simp: example_rec_def)
qed

end
