(* ===== verification/PushPath.thy ===== *)
theory PushPath
  imports AggApply SchemaProp WalFile Persistence Wire
begin

text \<open>
  The push path and its recovery: the idempotency cache
  (\<open>crates/beava-server/src/idem_cache.rs\<close>), the handler of a push (\<open>dispatch_push_sync\<close> of
  \<open>apply_shard.rs\<close>), the rendering of its responses on both transports
  (\<open>encode_glue_response_tcp\<close> and \<open>encode_glue_response_http\<close> of \<open>server.rs\<close>) and the replay of the
  data-plane log (\<open>replay_handrolled_wal_dir\<close> of \<open>recovery.rs\<close>). The row parsers of sonic_rs, serde_json and rmp_serde and the debug
  rendering of composite values are the fields of \<open>push_env\<close>. Clock readings and the durable
  sequence number of the registry's log are inputs of a push. The log buffers are the list of the
  records appended to them, which is what \<open>WalRing\<close> shows of them; the option result
  is \<open>None\<close> for a panic. Timing traces, log messages and the resident-entity gauge are not modelled.

  The lemmas show that replaying what a crash left of the log rebuilds the state that the
  pushes in it had produced, that a push is applied once within its deduplication window, and
  that a refused push changes nothing.
\<close>

section \<open>The idempotency cache\<close>

record CachedEntry =
  response_bytes :: "u8 list"
  ce_ack_lsn :: u64
  inserted_at_ms :: u64
  expires_at_ms :: u64

text \<open>A \<open>HashMap\<close> whose iteration order is never observed.\<close>

type_synonym IdemCache = "((string \<times> string) \<times> CachedEntry) list"

definition idem_get :: "IdemCache \<Rightarrow> string \<Rightarrow> string \<Rightarrow> u64 \<Rightarrow> u8 list option" where
  "idem_get c stream key now_ms =
     (case map_of c (stream, key) of
        None \<Rightarrow> None
      | Some entry \<Rightarrow> if expires_at_ms entry \<le> now_ms then None else Some (response_bytes entry))"

definition get_with_ack_lsn :: "IdemCache \<Rightarrow> string \<Rightarrow> string \<Rightarrow> u64 \<Rightarrow> (u64 \<times> u8 list) option" where
  "get_with_ack_lsn c stream key now_ms =
     (case map_of c (stream, key) of
        None \<Rightarrow> None
      | Some entry \<Rightarrow> if expires_at_ms entry \<le> now_ms then None else Some (ce_ack_lsn entry, response_bytes entry))"

definition idem_put :: "string \<Rightarrow> string \<Rightarrow> CachedEntry \<Rightarrow> IdemCache \<Rightarrow> IdemCache" where
  "idem_put stream key entry c = AList.update (stream, key) entry c"

definition sweep_expired :: "u64 \<Rightarrow> IdemCache \<Rightarrow> nat \<times> IdemCache" where
  "sweep_expired now_ms c =
     (let c' = filter (\<lambda>(_, e). expires_at_ms e > now_ms) c in (length c - length c', c'))"

section \<open>Server state\<close>

record push_env =
  pe_fx :: "string \<Rightarrow> u64"
  pe_agg :: agg_env
  sonic_row :: "u8 list \<Rightarrow> Row option"
  serde_json_row :: "u8 list \<Rightarrow> Row option"
  rmp_row :: "u8 list \<Rightarrow> Row option"
  debug_value :: "Value \<Rightarrow> string"

record DevAggState =
  da_registry :: RegistryInner
  da_tables :: StateTables
  next_event_id :: u64
  query_time_ms :: u64

record AppState =
  dev_agg :: DevAggState
  idem_cache :: IdemCache
  wal_committed :: u64
  wal_records :: "u8 list list"

definition CT_MSGPACK :: u8 where
  "CT_MSGPACK = 2"

definition DEFAULT_DEDUPE_WINDOW_MS :: u64 where
  "DEFAULT_DEDUPE_WINDOW_MS = 86400000"

section \<open>Checks on a pushed row\<close>

text \<open>\<open>char::is_control\<close> on a string of UTF-8 bytes: the two blocks C0 and C1 and the delete
  character. The bytes of C1 follow the lead byte 194.\<close>

fun has_control :: "nat list \<Rightarrow> bool" where
  "has_control [] = False"
| "has_control (a # bs) \<longleftrightarrow>
     a < 32 \<or> a = 127 \<or> (case bs of b # _ \<Rightarrow> a = 194 \<and> 128 \<le> b \<and> b \<le> 159 | [] \<Rightarrow> False) \<or> has_control bs"

definition string_has_control_chars :: "string \<Rightarrow> bool" where
  "string_has_control_chars s = has_control (map of_char s)"

fun json_value_has_control_chars :: "Json \<Rightarrow> bool" where
  "json_value_has_control_chars (JString s) = string_has_control_chars s"
| "json_value_has_control_chars (JArray vs) = list_ex json_value_has_control_chars vs"
| "json_value_has_control_chars (JObject m) = list_ex (\<lambda>(k, v). string_has_control_chars k \<or> json_value_has_control_chars v) m"
| "json_value_has_control_chars _ = False"

fun value_has_control_chars :: "Value \<Rightarrow> bool" where
  "value_has_control_chars (VStr s) = string_has_control_chars s"
| "value_has_control_chars (VJson j) = json_value_has_control_chars j"
| "value_has_control_chars (VList vs) = list_ex value_has_control_chars vs"
| "value_has_control_chars (VMap m) = list_ex (\<lambda>(k, v). string_has_control_chars k \<or> value_has_control_chars v) m"
| "value_has_control_chars _ = False"

definition row_has_control_chars :: "Row \<Rightarrow> bool" where
  "row_has_control_chars row = list_ex (\<lambda>(field, v). string_has_control_chars field \<or> value_has_control_chars v) row"

definition extract_dedupe_str_from_row :: "push_env \<Rightarrow> Row \<Rightarrow> string \<Rightarrow> string option" where
  "extract_dedupe_str_from_row env row key =
     map_option (\<lambda>v. case v of
         VStr s \<Rightarrow> s
       | VI64 i \<Rightarrow> i64_to_string i
       | VF64 f \<Rightarrow> f64_to_string (env_libm (pe_agg env)) f
       | VBool b \<Rightarrow> (if b then ''true'' else ''false'')
       | VNull \<Rightarrow> ''null''
       | VDatetime i \<Rightarrow> i64_to_string i
       | _ \<Rightarrow> debug_value env v) (row_get row key)"

section \<open>A push\<close>

datatype GlueResponse =
    PushError string u32
  | PushReplay u32 "u64 option" "u8 list option"
  | PushAck u64 u32

record push =
  p_event_name :: string
  p_body :: "u8 list"
  p_body_format :: u8
  p_pre_parsed_row :: "Row option"
  p_now_ms :: u64
  p_sink_durable_lsn :: u64

definition parse_row :: "push_env \<Rightarrow> push \<Rightarrow> Row option" where
  "parse_row env p =
     (case p_pre_parsed_row p of
        Some r \<Rightarrow> Some r
      | None \<Rightarrow> if p_body_format p = CT_MSGPACK then rmp_row env (p_body p) else sonic_row env (p_body p))"

text \<open>The rendering of the acknowledgement by serde_json.\<close>

definition ack_json :: "u64 \<Rightarrow> u32 \<Rightarrow> u8 list" where
  "ack_json lsn rv =
     str_bytes (''{\"ack_lsn\":'' @ i64_to_string (uint lsn) @ '',\"idempotent_replay\":false,\"registry_version\":'' @
       i64_to_string (uint rv) @ ''}'')"

section \<open>Responses on the wire\<close>

text \<open>The push responses as \<open>server.rs\<close> renders them. An object is rendered with its keys in
  alphabetical order; the error codes are identifiers, which need no escapes.\<close>

definition encode_tcp_frame_bytes :: "u16 \<Rightarrow> u8 \<Rightarrow> u8 list \<Rightarrow> u8 list" where
  "encode_tcp_frame_bytes op content_type payload =
     to_be 4 ((2 + 1 + length payload) mod 2 ^ 32) @ to_be 2 (unat op) @ [content_type] @ payload"

definition replay_json :: "u64 option \<Rightarrow> u32 \<Rightarrow> u8 list" where
  "replay_json lsn rv =
     str_bytes (''{'' @ (case lsn of Some l \<Rightarrow> ''\"ack_lsn\":'' @ i64_to_string (uint l) @ '','' | None \<Rightarrow> '''') @
       ''\"idempotent_replay\":true,\"registry_version\":'' @ i64_to_string (uint rv) @ ''}'')"

fun encode_glue_response_tcp :: "GlueResponse \<Rightarrow> u8 list" where
  "encode_glue_response_tcp (PushAck ack_lsn rv) = encode_tcp_frame_bytes OP_PUSH WIRE_CT_JSON (ack_json ack_lsn rv)"
| "encode_glue_response_tcp (PushReplay rv ack_lsn cached_body) = encode_tcp_frame_bytes OP_PUSH WIRE_CT_JSON (replay_json ack_lsn rv)"
| "encode_glue_response_tcp (PushError code rv) = encode_tcp_frame_bytes OP_ERROR_RESPONSE WIRE_CT_JSON
     (str_bytes (''{\"error\":{\"code\":\"'' @ code @ ''\"},\"registry_version\":'' @ i64_to_string (uint rv) @ ''}''))"

text \<open>Status, body and extra headers of an HTTP response.\<close>

fun http_parts :: "GlueResponse \<Rightarrow> nat \<times> u8 list \<times> string" where
  "http_parts (PushAck ack_lsn rv) = (200, ack_json ack_lsn rv, '''')"
| "http_parts (PushReplay rv ack_lsn cached_body) =
     (200, (case cached_body of Some cached \<Rightarrow> cached | None \<Rightarrow> replay_json None rv), ''X-Beava-Idempotent-Replay: 1'' @ [CHR 0x0D, CHR 0x0A])"
| "http_parts (PushError code rv) =
     (if code = ''event_not_found'' then 404 else 400, str_bytes (''{\"error\":{\"code\":\"'' @ code @ ''\"}}''), '''')"

definition status_text :: "nat \<Rightarrow> string" where
  "status_text status =
     (if status = 400 then ''Bad Request''
      else if status = 403 then ''Forbidden''
      else if status = 404 then ''Not Found''
      else if status = 405 then ''Method Not Allowed''
      else if status = 409 then ''Conflict''
      else if status = 415 then ''Unsupported Media Type''
      else if status = 500 then ''Internal Server Error''
      else if status = 501 then ''Not Implemented''
      else if status = 503 then ''Service Unavailable''
      else ''OK'')"

definition encode_glue_response_http :: "GlueResponse \<Rightarrow> u8 list" where
  "encode_glue_response_http resp =
     (let (status, body_bytes, extra_headers) = http_parts resp;
          crlf = [CHR 0x0D, CHR 0x0A]
      in str_bytes (''HTTP/1.1 '' @ i64_to_string (int status) @ '' '' @ status_text status @ crlf @
           ''Content-Type: application/json'' @ crlf @ ''Content-Length: '' @ i64_to_string (int (length body_bytes)) @ crlf @
           ''X-Runtime: hand-rolled'' @ crlf @ ''Connection: keep-alive'' @ crlf @ extra_headers @ crlf) @ body_bytes)"

section \<open>The handler\<close>

definition apply_counters :: "u64 \<Rightarrow> u64 \<Rightarrow> DevAggState \<Rightarrow> DevAggState" where
  "apply_counters lsn now_ms d =
     d\<lparr>next_event_id := max (next_event_id d) lsn,
       query_time_ms := (if now_ms > 0 then max (query_time_ms d) now_ms else query_time_ms d)\<rparr>"

definition push_accepted :: "push_env \<Rightarrow> push \<Rightarrow> Row \<Rightarrow> EventDescriptor \<Rightarrow> string option \<Rightarrow> AppState \<Rightarrow> (GlueResponse \<times> AppState) option" where
  "push_accepted env p row desc dedupe_str st =
     (let d = dev_agg st;
          rv = of_nat (reg_version (da_registry d)) :: u32;
          name = p_event_name p;
          now_ms = p_now_ms p;
          payload_len = 1 + 8 + 1 + 4 + 8 + 2 + length name + 4 + length (p_body p);
          committed0 = max (wal_committed st) (p_sink_durable_lsn p);
          expected_ack_lsn = u64_saturating_add committed0 (of_nat payload_len);
          payload = encode_push_record expected_ack_lsn (p_body_format p) rv now_ms name (p_body p);
          ack_lsn = committed0 + of_nat (length payload) in
      case apply_event_to_aggregations (pe_fx env) (pe_agg env) name row (sint now_ms) (da_registry d) (cold_after_ms desc) (da_tables d) of
        None \<Rightarrow> None
      | Some ts \<Rightarrow>
          Some (PushAck ack_lsn rv,
            st\<lparr>dev_agg := apply_counters ack_lsn now_ms (d\<lparr>da_tables := ts\<rparr>),
               wal_committed := ack_lsn,
               wal_records := wal_records st @ [payload],
               idem_cache :=
                 (case dedupe_str of
                    None \<Rightarrow> idem_cache st
                  | Some key_str \<Rightarrow>
                      idem_put name key_str
                        \<lparr>response_bytes = ack_json ack_lsn rv, ce_ack_lsn = ack_lsn, inserted_at_ms = now_ms,
                         expires_at_ms = u64_saturating_add now_ms
                           (case dedupe_window_ms desc of Some w \<Rightarrow> w | None \<Rightarrow> DEFAULT_DEDUPE_WINDOW_MS)\<rparr>
                        (idem_cache st))\<rparr>))"

definition dispatch_push_sync :: "push_env \<Rightarrow> push \<Rightarrow> AppState \<Rightarrow> (GlueResponse \<times> AppState) option" where
  "dispatch_push_sync env p st =
     (let w = da_registry (dev_agg st);
          rv = of_nat (reg_version w) :: u32 in
      case parse_row env p of
        None \<Rightarrow> Some (PushError ''invalid_event'' rv, st)
      | Some row \<Rightarrow>
          if string_has_control_chars (p_event_name p) \<or> row_has_control_chars row
          then Some (PushError ''control_character_in_string'' rv, st)
          else case get_event_descriptor w (p_event_name p) of
                 None \<Rightarrow> Some (PushError ''event_not_found'' rv, st)
               | Some desc \<Rightarrow>
                   (case List.find (\<lambda>(f, _). f \<notin> fst ` set (es_fields (ev_schema desc)) \<and> f \<notin> set (es_optional_fields (ev_schema desc))) row of
                      Some (f, _) \<Rightarrow>
                        Some (PushError (if f = ''event_time'' \<or> f = ''event_time_ms'' then ''unknown_field_event_time_v0'' else ''unknown_field_v0'') rv, st)
                    | None \<Rightarrow>
                        if \<not> validate_row (ev_schema desc) row then Some (PushError ''invalid_event'' rv, st)
                        else
                          let dedupe_str = (case dedupe_key desc of None \<Rightarrow> None | Some k \<Rightarrow> extract_dedupe_str_from_row env row k) in
                          case (case dedupe_str of None \<Rightarrow> None | Some s \<Rightarrow> get_with_ack_lsn (idem_cache st) (p_event_name p) s (p_now_ms p)) of
                            Some (cached_ack_lsn, cached_body) \<Rightarrow> Some (PushReplay rv (Some cached_ack_lsn) (Some cached_body), st)
                          | None \<Rightarrow> push_accepted env p row desc dedupe_str st))"

section \<open>Replay\<close>

datatype WalQuarantineKind = HandrolledJsonBody | HandrolledMsgpackBody | PersistenceEventPayload

record RecoveryOutcome =
  snapshot_lsn :: u64
  replay_event_count :: nat
  quarantined_records :: nat
  last_lsn :: u64

text \<open>The state of a replay: the server's, the quarantine markers of the log directory, and the outcome
  so far.\<close>

type_synonym replay_state = "DevAggState \<times> (u64 \<times> WalQuarantineKind) list \<times> RecoveryOutcome"

definition replay_event :: "push_env \<Rightarrow> HandrolledWalRecord \<Rightarrow> Row \<Rightarrow> DevAggState \<Rightarrow> DevAggState option" where
  "replay_event env rec row d =
     (let cold = (case get_event_descriptor (da_registry d) (hw_event_name rec) of None \<Rightarrow> None | Some desc \<Rightarrow> cold_after_ms desc) in
      map_option (\<lambda>ts.
          d\<lparr>da_tables := ts, next_event_id := max (next_event_id d) (hw_lsn rec),
            query_time_ms := (if hw_et_ms rec > 0 then max (query_time_ms d) (word_of_int (hw_et_ms rec)) else query_time_ms d)\<rparr>)
        (apply_event_to_aggregations_replay (pe_fx env) (pe_agg env) (hw_event_name rec) row (hw_et_ms rec) (unat (hw_rv rec))
           (da_registry d) cold (da_tables d)))"

definition replay_record :: "push_env \<Rightarrow> u64 \<Rightarrow> HandrolledWalRecord \<Rightarrow> replay_state \<Rightarrow> replay_state option" where
  "replay_record env from_lsn_exclusive rec s =
     (let (d, quarantine, outcome0) = s in
      if hw_lsn rec \<le> from_lsn_exclusive then Some s
      else
        let outcome = outcome0\<lparr>last_lsn := max (last_lsn outcome0) (hw_lsn rec)\<rparr>;
            kind = (if hw_body_format rec = CT_MSGPACK then HandrolledMsgpackBody else HandrolledJsonBody) in
        if (hw_lsn rec, kind) \<in> set quarantine then Some (d, quarantine, outcome\<lparr>quarantined_records := Suc (quarantined_records outcome)\<rparr>)
        else case (if hw_body_format rec = CT_MSGPACK then rmp_row env (hw_body rec) else serde_json_row env (hw_body rec)) of
               None \<Rightarrow> Some (d, (hw_lsn rec, kind) # quarantine, outcome\<lparr>quarantined_records := Suc (quarantined_records outcome)\<rparr>)
             | Some row \<Rightarrow>
                 map_option (\<lambda>d'. (d', quarantine, outcome\<lparr>replay_event_count := Suc (replay_event_count outcome)\<rparr>)) (replay_event env rec row d))"

definition replay_file :: "push_env \<Rightarrow> u64 \<Rightarrow> u8 list \<Rightarrow> u64 \<times> replay_state \<Rightarrow> (u64 \<times> replay_state) option" where
  "replay_file env from_lsn_exclusive data s =
     map_option (\<lambda>s'. (u64_saturating_add (fst s) (of_nat (length data)), s'))
       (fold_opt (replay_record env from_lsn_exclusive) (parse_handrolled_records data (fst s)) (snd s))"

definition replay_handrolled_wal_dir ::
    "push_env \<Rightarrow> directory \<Rightarrow> (u64 \<times> WalQuarantineKind) list \<Rightarrow> u64 \<Rightarrow> DevAggState \<Rightarrow> replay_state option" where
  "replay_handrolled_wal_dir env wal_dir quarantine from_lsn_exclusive d =
     map_option snd (fold_opt (replay_file env from_lsn_exclusive)
       (map snd (sort_key fst (filter (\<lambda>(name, _). has_extension ''wal'' name) wal_dir)))
       (0, (d, quarantine, \<lparr>snapshot_lsn = from_lsn_exclusive, replay_event_count = 0, quarantined_records = 0, last_lsn = 0\<rparr>)))"

section \<open>Registry versions\<close>

text \<open>A derivation is stamped with the version of the registration that installed it, which the
  registry's own version reaches.\<close>

definition versions_ok :: "RegistryInner \<Rightarrow> bool" where
  "versions_ok w \<longleftrightarrow> (\<forall>d \<in> snd ` set (derivations w). der_version d \<le> reg_version w)"

lemma replay_sees_all:
  assumes "core_ok sig w" and "versions_ok w" and "reg_version w \<le> rv"
  shows "compiled_aggregations_for_source_at_rv w source rv = compiled_aggregations_for_source w source"
proof -
  have "case map_of (derivations w) (node_name a) of None \<Rightarrow> False | Some d \<Rightarrow> der_version d \<le> rv"
    if "a \<in> set (compiled_aggregations_for_source w source)" for a
  proof -
    have "\<forall>n a. map_of (compiled_aggregations w) n = Some a \<longrightarrow>
        node_name a = n \<and> a \<in> set (compiled_aggregations_for_source w (source_node_name a)) \<and> agg_id a < next_agg_id w \<and>
        map_of (cluster_id_by_signature w) (sig (group_keys a)) = Some (cluster_id a) \<and> map_of (derivations w) n \<noteq> None"
      using assms(1) unfolding core_ok_def by (elim conjE)
    moreover have "\<forall>s. distinct (map node_name (compiled_aggregations_for_source w s)) \<and>
        (\<forall>a \<in> set (compiled_aggregations_for_source w s). source_node_name a = s \<and> map_of (compiled_aggregations w) (node_name a) = Some a)"
      using assms(1) unfolding core_ok_def by (elim conjE)
    ultimately have "map_of (derivations w) (node_name a) \<noteq> None" using that by blast
    then obtain d where d: "map_of (derivations w) (node_name a) = Some d" by blast
    then have "d \<in> snd ` set (derivations w)" by (force dest: map_of_SomeD)
    with d assms(2,3) show ?thesis by (fastforce simp: versions_ok_def)
  qed
  then show ?thesis
    by (auto simp: compiled_aggregations_for_source_at_rv_def compiled_aggregations_for_source_def filter_id_conv split: option.split)
qed

text \<open>Registration keeps it so.\<close>

abbreviation versions_upto :: "nat \<Rightarrow> RegistryInner \<Rightarrow> bool" where
  "versions_upto v w \<equiv> \<forall>x \<in> set (derivations w). der_version (snd x) \<le> v"

lemma in_btree_insert: "y \<in> set (btree_insert k x m) \<Longrightarrow> snd y = x \<or> y \<in> set m"
  by (induction m) (auto split: if_splits)

lemma frame_derivations:
  "derivations (install_event v aggs e w) = derivations w" "derivations (install_table v t w) = derivations w"
  "derivations (install_aggregation sig n a w) = derivations w" "derivations (refresh_source source w) = derivations w"
  "derivations (index_features newly w) = derivations w"
  by (simp_all add: install_event_def install_table_def install_aggregation_def assign_cluster_def refresh_source_def index_features_def Let_def
      split: option.split)

lemma install_node_versions:
  assumes "versions_upto v (fst s)"
  shows "versions_upto v (fst (install_node sig v chs schemas aggs n s))"
proof (cases n)
  case (NDerivation d)
  obtain w newly where s: "s = (w, newly)" by (cases s)
  show ?thesis
    using assms by (auto simp: NDerivation s install_node_def install_derivation_def frame_derivations Let_def dest!: in_btree_insert split: option.split)
qed (use assms in \<open>simp_all add: install_node_def frame_derivations\<close>)

lemma registration_versions:
  assumes "versions_ok w"
  shows "versions_ok (snd (apply_registration sig nodes chs schemas aggs w))"
proof -
  let ?v = "Suc (reg_version w)"
  let ?step = "install_node sig ?v chs schemas aggs"
  obtain w1 newly where f: "fold ?step nodes (w, []) = (w1, newly)" by (cases "fold ?step nodes (w, [])")
  have keep: "versions_upto ?v (fst s) \<Longrightarrow> versions_upto ?v (fst (fold ?step ns s))" for ns s
  proof (induction ns arbitrary: s)
    case (Cons n ns)
    show ?case using Cons.IH [OF install_node_versions [OF Cons.prems]] by simp
  qed simp
  have "versions_upto ?v w" using assms unfolding versions_ok_def by (auto intro: le_SucI)
  then have w1: "versions_upto ?v w1" using keep [of "(w, [])" nodes] by (simp add: f)
  have refresh: "derivations (fold refresh_source sources w2) = derivations w2" for sources w2
    by (induction sources arbitrary: w2) (simp_all add: frame_derivations)
  show ?thesis using w1 by (auto simp: apply_registration_def f versions_ok_def frame_derivations refresh Let_def)
qed

section \<open>One push and its replay\<close>

definition replay_row :: "push_env \<Rightarrow> u8 \<Rightarrow> u8 list \<Rightarrow> Row option" where
  "replay_row env fmt body = (if fmt = CT_MSGPACK then rmp_row env body else serde_json_row env body)"

text \<open>What a push needs for its record to be read back: lengths and sequence numbers that fit their
  fields, a clock before the year 292 million, a row parsed from the body, and JSON parsers
  that agree on it.\<close>

definition push_fits :: "push_env \<Rightarrow> push \<Rightarrow> AppState \<Rightarrow> bool" where
  "push_fits env p st \<longleftrightarrow>
     length (p_event_name p) < 2 ^ 16 \<and> utf8_valid (str_bytes (p_event_name p)) \<and> length (p_body p) < 2 ^ 32 \<and>
     unat (p_now_ms p) < 2 ^ 63 \<and>
     unat (max (wal_committed st) (p_sink_durable_lsn p)) + length (p_event_name p) + length (p_body p) + 28 < 2 ^ 64 \<and>
     (\<forall>row. p_pre_parsed_row p = Some row \<longrightarrow> parse_row env (p\<lparr>p_pre_parsed_row := None\<rparr>) = Some row) \<and>
     sonic_row env (p_body p) = serde_json_row env (p_body p)"

definition push_record :: "push \<Rightarrow> AppState \<Rightarrow> HandrolledWalRecord" where
  "push_record p st =
     \<lparr>hw_lsn = max (wal_committed st) (p_sink_durable_lsn p) + of_nat (length (p_event_name p) + length (p_body p) + 28),
      hw_body_format = p_body_format p, hw_rv = of_nat (reg_version (da_registry (dev_agg st))), hw_et_ms = sint (p_now_ms p),
      hw_event_name = p_event_name p, hw_body = p_body p\<rparr>"

lemma sint_of_nat_small: "unat (x :: u64) < 2 ^ 63 \<Longrightarrow> sint x = int (unat x)"
  using sint_of_nat_u64 [of "unat x"] by simp

lemma dispatch_cases:
  assumes "dispatch_push_sync env p st = Some (resp, st')"
  obtains (refused) "st' = st" "\<And>lsn rv. resp \<noteq> PushAck lsn rv"
  | (accepted) row desc key where "parse_row env p = Some row" "get_event_descriptor (da_registry (dev_agg st)) (p_event_name p) = Some desc"
      "push_accepted env p row desc key st = Some (resp, st')"
      "key = (case dedupe_key desc of None \<Rightarrow> None | Some k \<Rightarrow> extract_dedupe_str_from_row env row k)"
      "\<And>s. key = Some s \<Longrightarrow> get_with_ack_lsn (idem_cache st) (p_event_name p) s (p_now_ms p) = None"
proof (cases "st' = st \<and> (\<forall>lsn rv. resp \<noteq> PushAck lsn rv)")
  case False
  let ?w = "da_registry (dev_agg st)"
  let ?key = "\<lambda>row desc. case dedupe_key desc of None \<Rightarrow> None | Some k \<Rightarrow> extract_dedupe_str_from_row env row k"
  let ?hit = "\<lambda>row desc. case ?key row desc of None \<Rightarrow> None | Some s \<Rightarrow> get_with_ack_lsn (idem_cache st) (p_event_name p) s (p_now_ms p)"
  obtain row desc where f: "parse_row env p = Some row" "get_event_descriptor ?w (p_event_name p) = Some desc"
      "(case ?hit row desc of
          Some (lsn, body) \<Rightarrow> Some (PushReplay (of_nat (reg_version ?w)) (Some lsn) (Some body), st)
        | None \<Rightarrow> push_accepted env p row desc (?key row desc) st) = Some (resp, st')"
    using assms False unfolding dispatch_push_sync_def Let_def by (auto split: option.splits if_splits prod.splits)
  then have hit: "?hit row desc = None" using False by (cases "?hit row desc") auto
  with f(3) have acc: "push_accepted env p row desc (?key row desc) st = Some (resp, st')" by simp
  show ?thesis
  proof (rule that(2) [OF f(1,2) acc refl])
    fix s assume "?key row desc = Some s"
    with hit show "get_with_ack_lsn (idem_cache st) (p_event_name p) s (p_now_ms p) = None" by simp
  qed
qed (use that(1) in blast)

lemma committed_add:
  assumes "unat c + n < 2 ^ 64"
  shows "u64_saturating_add c (of_nat n) = c + of_nat n" "unat (c + of_nat n) = unat c + n"
  using assms by (simp_all add: u64_saturating_add_def unat_word_ariths unat_of_nat take_bit_nat_eq_self)

lemma push_record_ok:
  assumes "push_fits env p st"
  shows "wal_record_ok (push_record p st)" "unat (wal_committed st) < unat (hw_lsn (push_record p st))"
proof -
  show "wal_record_ok (push_record p st)" using assms by (simp add: wal_record_ok_def push_record_def push_fits_def)
  let ?c = "max (wal_committed st) (p_sink_durable_lsn p)" and ?n = "length (p_event_name p) + length (p_body p) + 28"
  have "unat (?c + of_nat ?n) = unat ?c + ?n" using assms committed_add(2) [of ?c ?n] by (simp add: push_fits_def)
  moreover have "wal_committed st \<le> ?c" by simp
  then have "unat (wal_committed st) \<le> unat ?c" unfolding word_le_nat_alt .
  ultimately show "unat (wal_committed st) < unat (hw_lsn (push_record p st))" unfolding push_record_def by simp
qed

lemma push_accepted_record:
  assumes "push_fits env p st" and "push_accepted env p row desc key st = Some (resp, st')"
  shows "wal_records st' = wal_records st @ [wal_encode (push_record p st)]" "wal_committed st' = hw_lsn (push_record p st)"
    "resp = PushAck (hw_lsn (push_record p st)) (of_nat (reg_version (da_registry (dev_agg st))))"
    "da_registry (dev_agg st') = da_registry (dev_agg st)"
    "\<exists>ts. apply_event_to_aggregations (pe_fx env) (pe_agg env) (p_event_name p) row (sint (p_now_ms p)) (da_registry (dev_agg st))
        (cold_after_ms desc) (da_tables (dev_agg st)) = Some ts \<and>
      dev_agg st' = apply_counters (hw_lsn (push_record p st)) (p_now_ms p) ((dev_agg st)\<lparr>da_tables := ts\<rparr>)"
proof -
  let ?c = "max (wal_committed st) (p_sink_durable_lsn p)" and ?n = "length (p_event_name p) + length (p_body p) + 28"
  have lsn: "u64_saturating_add ?c (of_nat (1 + 8 + 1 + 4 + 8 + 2 + length (p_event_name p) + 4 + length (p_body p))) = hw_lsn (push_record p st)"
    using assms(1) committed_add(1) [of ?c ?n] by (simp add: push_fits_def push_record_def add.commute add.left_commute)
  have enc: "encode_push_record (hw_lsn (push_record p st)) (p_body_format p) (of_nat (reg_version (da_registry (dev_agg st)))) (p_now_ms p) (p_event_name p) (p_body p)
      = wal_encode (push_record p st)"
    by (simp add: wal_encode_def push_record_def)
  have len: "?c + of_nat (length (wal_encode (push_record p st))) = hw_lsn (push_record p st)"
    by (simp add: wal_encode_def encode_push_record_def push_record_def add.commute add.left_commute)
  note res = assms(2) [unfolded push_accepted_def Let_def lsn enc len]
  show "wal_records st' = wal_records st @ [wal_encode (push_record p st)]" "wal_committed st' = hw_lsn (push_record p st)"
    "resp = PushAck (hw_lsn (push_record p st)) (of_nat (reg_version (da_registry (dev_agg st))))"
    "da_registry (dev_agg st') = da_registry (dev_agg st)"
    "\<exists>ts. apply_event_to_aggregations (pe_fx env) (pe_agg env) (p_event_name p) row (sint (p_now_ms p)) (da_registry (dev_agg st))
        (cold_after_ms desc) (da_tables (dev_agg st)) = Some ts \<and>
      dev_agg st' = apply_counters (hw_lsn (push_record p st)) (p_now_ms p) ((dev_agg st)\<lparr>da_tables := ts\<rparr>)"
    using res by (auto simp: apply_counters_def split: option.splits)
qed

text \<open>Replaying the record of a push has the effect of the push.\<close>

lemma replay_push:
  assumes "push_fits env p st" and "core_ok sig (da_registry (dev_agg st))" and "versions_ok (da_registry (dev_agg st))"
    and "reg_version (da_registry (dev_agg st)) < 2 ^ 32"
    and "parse_row env p = Some row" and "get_event_descriptor (da_registry (dev_agg st)) (p_event_name p) = Some desc"
    and "push_accepted env p row desc key st = Some (resp, st')"
  shows "replay_row env (p_body_format p) (p_body p) = Some row" "replay_event env (push_record p st) row (dev_agg st) = Some (dev_agg st')"
proof -
  let ?d = "dev_agg st" and ?r = "push_record p st"
  let ?w = "da_registry ?d"
  show "replay_row env (p_body_format p) (p_body p) = Some row"
    using assms(1,5) by (auto simp: push_fits_def parse_row_def replay_row_def split: option.splits if_splits)
  have rv: "unat (hw_rv ?r) = reg_version ?w"
    using assms(4) by (simp add: push_record_def unat_of_nat take_bit_nat_eq_self)
  have now: "sint (p_now_ms p) = int (unat (p_now_ms p))" using sint_of_nat_small assms(1) by (simp add: push_fits_def)
  have pos: "0 < sint (p_now_ms p) \<longleftrightarrow> p_now_ms p > 0" unfolding now by (auto simp only: of_nat_0_less_iff unat_gt_0 word_gt_0)
  have same: "apply_event_to_aggregations_replay (pe_fx env) (pe_agg env) (p_event_name p) row (sint (p_now_ms p)) (reg_version ?w) ?w (cold_after_ms desc) (da_tables ?d)
      = apply_event_to_aggregations (pe_fx env) (pe_agg env) (p_event_name p) row (sint (p_now_ms p)) ?w (cold_after_ms desc) (da_tables ?d)"
    by (simp add: apply_event_to_aggregations_replay_def apply_event_to_aggregations_def replay_sees_all [OF assms(2,3) order_refl])
  have f: "hw_event_name ?r = p_event_name p" "hw_et_ms ?r = sint (p_now_ms p)" by (simp_all add: push_record_def)
  from push_accepted_record(5) [OF assms(1,7)] obtain ts where
    "apply_event_to_aggregations (pe_fx env) (pe_agg env) (p_event_name p) row (sint (p_now_ms p)) ?w (cold_after_ms desc) (da_tables ?d) = Some ts"
    "dev_agg st' = apply_counters (hw_lsn ?r) (p_now_ms p) (?d\<lparr>da_tables := ts\<rparr>)" by blast
  then show "replay_event env ?r row ?d = Some (dev_agg st')"
    unfolding replay_event_def Let_def f rv using same assms(6) by (simp add: pos apply_counters_def)
qed

section \<open>Runs of pushes\<close>

text \<open>A run of the server: pushes handled one after the other, none of which panics.\<close>

inductive pushes :: "push_env \<Rightarrow> AppState \<Rightarrow> push list \<Rightarrow> AppState \<Rightarrow> bool" for env where
  none: "pushes env st [] st"
| snoc: "pushes env st ps st1 \<Longrightarrow> push_fits env p st1 \<Longrightarrow> dispatch_push_sync env p st1 = Some (resp, st2) \<Longrightarrow> pushes env st (ps @ [p]) st2"

inductive_cases pushes_NilE: "pushes env st [] st'"

abbreviation outcome_after :: "u64 \<Rightarrow> HandrolledWalRecord list \<Rightarrow> RecoveryOutcome" where
  "outcome_after from_lsn recs \<equiv>
     \<lparr>snapshot_lsn = from_lsn, replay_event_count = length recs, quarantined_records = 0, last_lsn = fold max (map hw_lsn recs) 0\<rparr>"

text \<open>The records \<open>recs\<close> of a run from \<open>st0\<close> to \<open>st\<close>: the log grew by them, and replaying them
  on the first state gives the last one.\<close>

definition run_records :: "push_env \<Rightarrow> u64 \<Rightarrow> AppState \<Rightarrow> AppState \<Rightarrow> HandrolledWalRecord list \<Rightarrow> bool" where
  "run_records env from_lsn st0 st recs \<longleftrightarrow>
     wal_records st = wal_records st0 @ map wal_encode recs \<and> (\<forall>r \<in> set recs. wal_record_ok r) \<and>
     from_lsn \<le> wal_committed st \<and> da_registry (dev_agg st) = da_registry (dev_agg st0) \<and>
     fold_opt (replay_record env from_lsn) recs (dev_agg st0, [], outcome_after from_lsn []) = Some (dev_agg st, [], outcome_after from_lsn recs)"

lemma run_records_start: "from_lsn \<le> wal_committed st \<Longrightarrow> run_records env from_lsn st st []"
  by (simp add: run_records_def)

lemma run_records_step:
  assumes "run_records env from_lsn st0 st recs" and "push_fits env p st" and "dispatch_push_sync env p st = Some (resp, st')"
    and "core_ok sig (da_registry (dev_agg st0))" and "versions_ok (da_registry (dev_agg st0))" and "reg_version (da_registry (dev_agg st0)) < 2 ^ 32"
  shows "st' = st \<or> run_records env from_lsn st0 st' (recs @ [push_record p st])"
  using assms(3)
proof (cases rule: dispatch_cases)
  case (accepted row desc key)
  let ?r = "push_record p st"
  have reg: "da_registry (dev_agg st) = da_registry (dev_agg st0)" using assms(1) by (simp add: run_records_def)
  note ok = push_record_ok [OF assms(2)]
  note wal = push_accepted_record [OF assms(2) accepted(3)]
  note rep = replay_push [OF assms(2) _ _ _ accepted(1-3), of sig, unfolded reg, OF assms(4-6)]
  have "from_lsn < hw_lsn ?r" using ok(2) assms(1) by (simp add: run_records_def word_le_nat_alt word_less_nat_alt)
  moreover have f: "hw_body_format ?r = p_body_format p" "hw_body ?r = p_body p" by (simp_all add: push_record_def)
  ultimately have "replay_record env from_lsn ?r (dev_agg st, [], outcome_after from_lsn recs) = Some (dev_agg st', [], outcome_after from_lsn (recs @ [?r]))"
    using rep unfolding replay_record_def f by (simp add: replay_row_def Let_def max.commute)
  moreover have "from_lsn \<le> wal_committed st'" using \<open>from_lsn < hw_lsn ?r\<close> wal(2) by simp
  ultimately show ?thesis using assms(1) ok(1) wal(1,4) reg by (auto simp: run_records_def fold_opt_append)
qed simp

lemma pushes_records:
  assumes "pushes env st0 ps st" and "from_lsn \<le> wal_committed st0"
    and "core_ok sig (da_registry (dev_agg st0))" and "versions_ok (da_registry (dev_agg st0))" and "reg_version (da_registry (dev_agg st0)) < 2 ^ 32"
  shows "\<exists>recs. run_records env from_lsn st0 st recs \<and>
    (\<forall>k \<le> length recs. \<exists>ps1 st1. prefix ps1 ps \<and> pushes env st0 ps1 st1 \<and> run_records env from_lsn st0 st1 (take k recs))"
  using assms
proof (induction rule: pushes.induct)
  case (none st)
  have "run_records env from_lsn st st (take k [])" for k using run_records_start none.prems(1) by simp
  then show ?case using pushes.none [of env st] by (intro exI [of _ "[]"]) (auto intro: run_records_start none.prems(1))
next
  case (snoc st0 ps st p resp st')
  let ?reaches = "\<lambda>ps recs k. \<exists>ps1 st1. prefix ps1 ps \<and> pushes env st0 ps1 st1 \<and> run_records env from_lsn st0 st1 (take k recs)"
  from snoc obtain recs where recs: "run_records env from_lsn st0 st recs" and sub: "\<forall>k \<le> length recs. ?reaches ps recs k" by blast
  have sub': "?reaches (ps @ [p]) recs k" if "k \<le> length recs" for k using sub that by (meson prefix_order.trans prefixI)
  have run: "pushes env st0 (ps @ [p]) st'" using pushes.snoc snoc.hyps by blast
  show ?case
  proof (cases "st' = st")
    case True
    with recs sub' show ?thesis by blast
  next
    case False
    let ?recs = "recs @ [push_record p st]"
    have step: "run_records env from_lsn st0 st' ?recs"
      using run_records_step [OF recs snoc.hyps(2,3) snoc.prems(2-4)] False by blast
    have "?reaches (ps @ [p]) ?recs k" if "k \<le> length ?recs" for k
    proof (cases "k \<le> length recs")
      case True
      with sub' show ?thesis by simp
    next
      case False
      with that have "take k ?recs = ?recs" by simp
      with run step show ?thesis by (intro exI [of _ "ps @ [p]"] exI [of _ st']) simp
    qed
    with step show ?thesis by blast
  qed
qed

lemma replay_one_file:
  assumes "has_extension ''wal'' name"
  shows "replay_handrolled_wal_dir env [(name, bs)] q from_lsn d =
    fold_opt (replay_record env from_lsn) (parse_handrolled_records bs 0) (d, q, outcome_after from_lsn [])"
  using assms by (simp add: replay_handrolled_wal_dir_def replay_file_def option.map_comp split: option.split)

section \<open>Deduplication\<close>

text \<open>The checks of a push that do not depend on the cache: the row, the event's descriptor and the
  deduplication key, or \<open>None\<close> where the push is refused.\<close>

definition push_checked :: "push_env \<Rightarrow> push \<Rightarrow> RegistryInner \<Rightarrow> (Row \<times> EventDescriptor \<times> string option) option" where
  "push_checked env p w =
     (case (parse_row env p, get_event_descriptor w (p_event_name p)) of
        (Some row, Some desc) \<Rightarrow>
          if string_has_control_chars (p_event_name p) \<or> row_has_control_chars row then None
          else if \<exists>(f, _) \<in> set row. f \<notin> fst ` set (es_fields (ev_schema desc)) \<and> f \<notin> set (es_optional_fields (ev_schema desc)) then None
          else if \<not> validate_row (ev_schema desc) row then None
          else Some (row, desc, case dedupe_key desc of None \<Rightarrow> None | Some k \<Rightarrow> extract_dedupe_str_from_row env row k)
      | _ \<Rightarrow> None)"

lemma dispatch_checked:
  assumes "push_checked env p (da_registry (dev_agg st)) = Some (row, desc, key)"
  shows "dispatch_push_sync env p st =
    (case (case key of None \<Rightarrow> None | Some s \<Rightarrow> get_with_ack_lsn (idem_cache st) (p_event_name p) s (p_now_ms p)) of
       Some (lsn, body) \<Rightarrow> Some (PushReplay (of_nat (reg_version (da_registry (dev_agg st)))) (Some lsn) (Some body), st)
     | None \<Rightarrow> push_accepted env p row desc key st)"
proof -
  let ?w = "da_registry (dev_agg st)" and ?bad = "\<lambda>(f, _). f \<notin> fst ` set (es_fields (ev_schema desc)) \<and> f \<notin> set (es_optional_fields (ev_schema desc))"
  have f: "parse_row env p = Some row" "get_event_descriptor ?w (p_event_name p) = Some desc"
    "\<not> (string_has_control_chars (p_event_name p) \<or> row_has_control_chars row)" "\<not> (\<exists>x \<in> set row. ?bad x)" "validate_row (ev_schema desc) row"
    "key = (case dedupe_key desc of None \<Rightarrow> None | Some k \<Rightarrow> extract_dedupe_str_from_row env row k)"
    using assms unfolding push_checked_def by (simp_all split: option.splits if_splits)
  have "List.find ?bad row = None" using f(4) by (auto simp: find_None_iff)
  then show ?thesis unfolding dispatch_push_sync_def Let_def f(1,2) option.case if_not_P [OF f(3)] f(6) using f(5) by simp
qed

lemma dispatch_unchecked:
  assumes "push_checked env p (da_registry (dev_agg st)) = None"
  shows "\<exists>code rv. dispatch_push_sync env p st = Some (PushError code rv, st)"
proof -
  let ?bad = "\<lambda>desc (f, _). f \<notin> fst ` set (es_fields (ev_schema desc)) \<and> f \<notin> set (es_optional_fields (ev_schema desc))"
  show ?thesis
  proof (cases "parse_row env p")
    case (Some row)
    show ?thesis
    proof (cases "get_event_descriptor (da_registry (dev_agg st)) (p_event_name p)")
      case (Some desc)
      show ?thesis
      proof (cases "List.find (?bad desc) row")
        case None
        then have "\<not> (\<exists>x \<in> set row. ?bad desc x)" by (auto simp: find_None_iff)
        then show ?thesis using assms None Some \<open>parse_row env p = Some row\<close>
          unfolding dispatch_push_sync_def push_checked_def Let_def by (auto split: if_splits)
      qed (use Some \<open>parse_row env p = Some row\<close> in \<open>auto simp: dispatch_push_sync_def Let_def split: prod.splits\<close>)
    qed (use Some in \<open>auto simp: dispatch_push_sync_def Let_def\<close>)
  qed (auto simp: dispatch_push_sync_def Let_def)
qed

lemma accepted_cache:
  assumes "push_accepted env p row desc key st = Some (resp, st')"
  shows "resp = PushAck (wal_committed st') (of_nat (reg_version (da_registry (dev_agg st))))" "da_registry (dev_agg st') = da_registry (dev_agg st)"
    "idem_cache st' = (case key of None \<Rightarrow> idem_cache st
       | Some k \<Rightarrow> idem_put (p_event_name p) k
           \<lparr>response_bytes = ack_json (wal_committed st') (of_nat (reg_version (da_registry (dev_agg st)))), ce_ack_lsn = wal_committed st', inserted_at_ms = p_now_ms p,
            expires_at_ms = u64_saturating_add (p_now_ms p) (case dedupe_window_ms desc of Some w \<Rightarrow> w | None \<Rightarrow> DEFAULT_DEDUPE_WINDOW_MS)\<rparr> (idem_cache st))"
  using assms by (auto simp: push_accepted_def apply_counters_def Let_def split: option.splits)

text \<open>A live entry outlasts every push before its expiry.\<close>

lemma entry_stays:
  assumes "pushes env st ps st'" and "map_of (idem_cache st) (stream, key) = Some entry" and "\<forall>q \<in> set ps. p_now_ms q < expires_at_ms entry"
  shows "map_of (idem_cache st') (stream, key) = Some entry \<and> da_registry (dev_agg st') = da_registry (dev_agg st)"
  using assms
proof (induction rule: pushes.induct)
  case (snoc st0 ps st p resp st')
  then have IH: "map_of (idem_cache st) (stream, key) = Some entry" "da_registry (dev_agg st) = da_registry (dev_agg st0)" by simp_all
  from snoc.hyps(3) show ?case
  proof (cases rule: dispatch_cases)
    case (accepted row desc k)
    note c = accepted_cache [OF accepted(3)]
    have "(p_event_name p, s) \<noteq> (stream, key)" if "k = Some s" for s
      using accepted(5) [OF that] IH(1) snoc.prems(2) by (auto simp: get_with_ack_lsn_def split: if_splits)
    then show ?thesis using IH c(2,3) by (cases k) (auto simp: idem_put_def update_conv')
  qed (use IH in simp)
qed simp

section \<open>Example run\<close>

definition example_env :: "agg_env \<Rightarrow> push_env" where
  "example_env ae = \<lparr>pe_fx = (\<lambda>_. 0), pe_agg = ae, sonic_row = (\<lambda>_. Some [(''u'', VStr ''a''), (''x'', VI64 3)]),
     serde_json_row = (\<lambda>_. Some [(''u'', VStr ''a''), (''x'', VI64 3)]), rmp_row = (\<lambda>_. None), debug_value = (\<lambda>_. [])\<rparr>"

definition example_state :: "RegistryInner \<Rightarrow> AppState" where
  "example_state w = \<lparr>dev_agg = \<lparr>da_registry = w, da_tables = [], next_event_id = 0, query_time_ms = 0\<rparr>,
     idem_cache = [], wal_committed = 0, wal_records = []\<rparr>"

definition example_push :: "u64 \<Rightarrow> push" where
  "example_push now = \<lparr>p_event_name = ''E'', p_body = [123, 125], p_body_format = 1, p_pre_parsed_row = None, p_now_ms = now, p_sink_durable_lsn = 0\<rparr>"

lemma example_versions: "versions_ok example_registry" "reg_version example_registry = 1"
  by code_simp+

lemma example_event_in_registry:
  "get_event_descriptor example_registry ''E'' = Some (example_event\<lparr>ev_version := 1, name_arc := ''E'', apply_field_names := [''x'']\<rparr>)"
  by code_simp

lemma example_resolved:
  "compiled_aggregations_for_source example_registry ''E'' =
     [example_agg\<lparr>features := [\<lparr>feature_name = ''s'', descriptor = default_descriptor\<lparr>desc_kind := KSum, desc_field := Some ''x'',
        field_idx := 0, field_idx_into_event_extracted := [0]\<rparr>\<rparr>], field_names := [''x'']\<rparr>]"
  by code_simp

lemma example_applies:
  "\<exists>ts. apply_event_to_aggregations fx env ''E'' [(''u'', VStr ''a''), (''x'', VI64 3)] now example_registry None [] = Some ts"
  by (simp add: apply_event_to_aggregations_def apply_event_to_aggregations_with_descs_def example_resolved event_extracted_def example_event_in_registry
      apply_desc_def chain_row_def compiled_chain_def example_no_chain example_agg_def row_get_def cluster_shape_def shape_from_row_def
      shape_of_value_def ensure_capacity_for_def get_or_init_by_shape_def init_row_def agg_new_def default_descriptor_def
      new_lifetime_full_def evict_if_cold_def stamp_last_seen_def remember_group_keys_def row_at_def set_row_def update_feature_def
      pre_value_def FIELD_IDX_NONE_def slot_def agg_update_with_extracted_def where_matched_def agg_update_with_extracted_no_where_def
      sum_update_pre_def numeric_from_value_def table_new_def Let_def)

lemma example_checked:
  assumes "get_event_descriptor w ''E'' = Some desc" and "ev_schema desc = ev_schema example_event"
  shows "push_checked (example_env ae) (example_push now) w =
    Some ([(''u'', VStr ''a''), (''x'', VI64 3)], desc, case dedupe_key desc of None \<Rightarrow> None | Some k \<Rightarrow> extract_dedupe_str_from_row (example_env ae) [(''u'', VStr ''a''), (''x'', VI64 3)] k)"
proof -
  have "parse_row (example_env ae) (example_push now) = Some [(''u'', VStr ''a''), (''x'', VI64 3)]"
    by (simp add: parse_row_def example_push_def example_env_def CT_MSGPACK_def)
  moreover have "p_event_name (example_push now) = ''E''" by (simp add: example_push_def)
  ultimately show ?thesis using assms
    by (simp add: push_checked_def example_event_def string_has_control_chars_def row_has_control_chars_def validate_row_def value_type_compatible_def row_get_def)
qed

lemma example_fits: "unat now < 2 ^ 63 \<Longrightarrow> unat (wal_committed st) < 2 ^ 32 \<Longrightarrow> push_fits (example_env ae) (example_push now) st"
  by (simp add: push_fits_def example_push_def example_env_def str_bytes_def)

lemma example_dispatch:
  "\<exists>lsn rv st. dispatch_push_sync (example_env ae) (example_push 5) (example_state example_registry) = Some (PushAck lsn rv, st) \<and> length (wal_records st) = 1"
proof -
  let ?st = "example_state example_registry" and ?e = "example_event\<lparr>ev_version := 1, name_arc := ''E'', apply_field_names := [''x'']\<rparr>"
  have ev: "get_event_descriptor (da_registry (dev_agg ?st)) ''E'' = Some ?e" by (simp add: example_state_def example_event_in_registry)
  have "push_checked (example_env ae) (example_push 5) (da_registry (dev_agg ?st)) = Some ([(''u'', VStr ''a''), (''x'', VI64 3)], ?e, None)"
    by (subst example_checked [OF ev]) (simp_all add: example_event_def)
  from dispatch_checked [OF this] show ?thesis
    using example_applies [of "\<lambda>_. 0" ae 5]
    by (auto simp: push_accepted_def Let_def example_state_def example_push_def example_env_def example_event_def)
qed

section \<open>Properties\<close>

text \<open>C4. Recovery rebuilds what the server had. The server handles any sequence of pushes, refused
  and duplicate ones among them, and a crash leaves any prefix of the log's bytes. Replaying
  that prefix on the state the run started from, with a consistent registry, does not panic and
  puts nothing into quarantine; it gives the aggregation tables and counters that the server had after some
  initial part of the pushes, namely after the last push whose record is complete in what was left.\<close>

theorem recovery_rebuilds_state:
  assumes "pushes env st0 ps st" and "wal_records st0 = []" and "from_lsn \<le> wal_committed st0"
    and "registry_ok sig (da_registry (dev_agg st0))" and "versions_ok (da_registry (dev_agg st0))" and "reg_version (da_registry (dev_agg st0)) < 2 ^ 32"
    and "has_extension ''wal'' name" and "prefix bs (concat (wal_records st))"
  shows "\<exists>ps1 st1 outcome. prefix ps1 ps \<and> pushes env st0 ps1 st1 \<and>
    replay_handrolled_wal_dir env [(name, bs)] [] from_lsn (dev_agg st0) = Some (dev_agg st1, [], outcome) \<and>
    replay_event_count outcome = length (wal_records st1) \<and> prefix (wal_records st1) (wal_records st) \<and>
    (\<forall>j \<le> length (wal_records st). length (concat (take j (wal_records st))) \<le> length bs \<longrightarrow> j \<le> length (wal_records st1))"
proof -
  have core: "core_ok sig (da_registry (dev_agg st0))" using assms(4) by (simp add: registry_ok_def)
  from pushes_records [OF assms(1,3) core assms(5,6)] obtain recs where recs: "run_records env from_lsn st0 st recs"
    and sub: "\<forall>k \<le> length recs. \<exists>ps1 st1. prefix ps1 ps \<and> pushes env st0 ps1 st1 \<and> run_records env from_lsn st0 st1 (take k recs)" by blast
  have log: "wal_records st = map wal_encode recs" and ok: "\<forall>r \<in> set recs. wal_record_ok r"
    using recs assms(2) by (simp_all add: run_records_def)
  have pre: "prefix bs (concat (map wal_encode recs))" using assms(8) log by simp
  from wal_prefix [OF ok pre, of 0] obtain k where k: "k \<le> length recs" "parse_handrolled_records bs 0 = take k recs"
    "\<forall>j \<le> length recs. length (concat (map wal_encode (take j recs))) \<le> length bs \<longrightarrow> j \<le> k" by blast
  from sub k(1) obtain ps1 st1 where st1: "prefix ps1 ps" "pushes env st0 ps1 st1" "run_records env from_lsn st0 st1 (take k recs)" by blast
  have "replay_handrolled_wal_dir env [(name, bs)] [] from_lsn (dev_agg st0) = Some (dev_agg st1, [], outcome_after from_lsn (take k recs))"
    using st1(3) by (simp add: replay_one_file [OF assms(7)] k(2) run_records_def)
  moreover have "wal_records st1 = take k (wal_records st)" using st1(3) log assms(2) by (simp add: run_records_def take_map)
  moreover from this have "prefix (wal_records st1) (wal_records st)" by (simp add: take_is_prefix)
  ultimately show ?thesis
    using st1(1,2) k(1,3) log by (intro exI [of _ ps1] exI [of _ st1] exI [of _ "outcome_after from_lsn (take k recs)"]) (simp add: take_map)
qed

theorem recovery_rebuilds_state_witness:
  "\<forall>ae. \<exists>st d outcome. pushes (example_env ae) (example_state example_registry) [example_push 5] st \<and>
     replay_handrolled_wal_dir (example_env ae) [(''0.wal'', concat (wal_records st))] [] 0 (dev_agg (example_state example_registry)) = Some (d, [], outcome) \<and>
     replay_event_count outcome = 1"
proof
  fix ae
  let ?env = "example_env ae" and ?st0 = "example_state example_registry"
  obtain lsn rv st where d: "dispatch_push_sync ?env (example_push 5) ?st0 = Some (PushAck lsn rv, st)" "length (wal_records st) = 1"
    using example_dispatch by blast
  have run: "pushes ?env ?st0 [example_push 5] st"
    using pushes.snoc [OF pushes.none, of ?env "example_push 5" ?st0] d(1) example_fits by (simp add: example_state_def)
  have reg: "registry_ok (\<lambda>_. 0) (da_registry (dev_agg ?st0))" "versions_ok (da_registry (dev_agg ?st0))" "reg_version (da_registry (dev_agg ?st0)) < 2 ^ 32"
    using example_registry_ok example_versions by (simp_all add: example_state_def)
  have ext: "has_extension ''wal'' ''0.wal''" by (simp add: has_extension_def has_suffix_def)
  have start: "wal_records ?st0 = []" "0 \<le> wal_committed ?st0" by (simp_all add: example_state_def)
  from recovery_rebuilds_state [OF run start reg ext prefix_order.refl] obtain ps1 st1 outcome where
    o: "prefix ps1 [example_push 5]" "pushes ?env ?st0 ps1 st1"
      "replay_handrolled_wal_dir ?env [(''0.wal'', concat (wal_records st))] [] 0 (dev_agg ?st0) = Some (dev_agg st1, [], outcome)"
      "replay_event_count outcome = length (wal_records st1)" "prefix (wal_records st1) (wal_records st)"
      "\<forall>j \<le> length (wal_records st). length (concat (take j (wal_records st))) \<le> length (concat (wal_records st)) \<longrightarrow> j \<le> length (wal_records st1)"
    by (elim exE conjE) (rule that)
  have "length (wal_records st1) = 1" using o(5) [THEN prefix_length_le] o(6) [rule_format, of 1] d(2) by simp
  with run o(3,4) show "\<exists>st d outcome. pushes ?env ?st0 [example_push 5] st \<and>
     replay_handrolled_wal_dir ?env [(''0.wal'', concat (wal_records st))] [] 0 (dev_agg ?st0) = Some (d, [], outcome) \<and> replay_event_count outcome = 1"
    by (intro exI [of _ st] exI [of _ "dev_agg st1"] exI [of _ outcome]) simp
qed

text \<open>C8. Within its deduplication window an event is applied once. After a push with a deduplication key
  is acknowledged and any number of other pushes is handled before the entry expires, a
  push of the same event with the same key, valid but with whatever else in its body, changes
  nothing: no record, no table, no counter. Its answer carries the first push's sequence number. Over TCP
  it is a push frame whose body holds the first push's sequence number and registry version with
  \<open>idempotent_replay\<close> true; over HTTP it is byte for byte the body of the first push's answer, so with
  \<open>idempotent_replay\<close> false, and differs from that answer only in the replay header.\<close>

theorem dedupe_applies_once:
  assumes "push_checked env p (da_registry (dev_agg st)) = Some (row, desc, Some key)"
    and "dispatch_push_sync env p st = Some (PushAck lsn rv, st1)"
    and "pushes env st1 ps st2"
    and "expiry = u64_saturating_add (p_now_ms p) (case dedupe_window_ms desc of Some w \<Rightarrow> w | None \<Rightarrow> DEFAULT_DEDUPE_WINDOW_MS)"
    and "\<forall>q \<in> set ps. p_now_ms q < expiry" and "p_now_ms p' < expiry"
    and "p_event_name p' = p_event_name p" and "push_checked env p' (da_registry (dev_agg st)) = Some (row', desc, Some key)"
  shows "\<exists>resp. dispatch_push_sync env p' st2 = Some (resp, st2) \<and>
      encode_glue_response_tcp resp = encode_tcp_frame_bytes OP_PUSH WIRE_CT_JSON (replay_json (Some lsn) rv) \<and>
      (\<exists>status body. http_parts (PushAck lsn rv) = (status, body, '''') \<and> body = ack_json lsn rv \<and>
         http_parts resp = (status, body, ''X-Beava-Idempotent-Replay: 1'' @ [CHR 0x0D, CHR 0x0A]))"
proof -
  have acc: "push_accepted env p row desc (Some key) st = Some (PushAck lsn rv, st1)"
    using assms(2) dispatch_checked [OF assms(1)] by (auto split: option.splits prod.splits)
  let ?e = "\<lparr>response_bytes = ack_json lsn rv, ce_ack_lsn = lsn, inserted_at_ms = p_now_ms p, expires_at_ms = expiry\<rparr>"
  note c = accepted_cache [OF acc]
  have lsn: "lsn = wal_committed st1" "rv = of_nat (reg_version (da_registry (dev_agg st)))" using c(1) by simp_all
  have "map_of (idem_cache st1) (p_event_name p, key) = Some ?e"
    using c(3) by (simp add: idem_put_def update_conv' lsn assms(4))
  from entry_stays [OF assms(3) this] assms(5) have e: "map_of (idem_cache st2) (p_event_name p, key) = Some ?e"
    "da_registry (dev_agg st2) = da_registry (dev_agg st)" using c(2) by simp_all
  then have "get_with_ack_lsn (idem_cache st2) (p_event_name p') key (p_now_ms p') = Some (lsn, ack_json lsn rv)"
    using assms(6,7) by (simp add: get_with_ack_lsn_def not_le)
  then have "dispatch_push_sync env p' st2 = Some (PushReplay rv (Some lsn) (Some (ack_json lsn rv)), st2)"
    using dispatch_checked [of env p' st2 row' desc "Some key"] assms(8) e(2) lsn(2) by simp
  then show ?thesis by simp
qed

definition dedupe_registry :: RegistryInner where
  "dedupe_registry = registry_default\<lparr>reg_events := [(''E'', example_event\<lparr>dedupe_key := Some ''u''\<rparr>)]\<rparr>"

theorem dedupe_applies_once_witness:
  "\<forall>ae. \<exists>lsn rv st resp. dispatch_push_sync (example_env ae) (example_push 5) (example_state dedupe_registry) = Some (PushAck lsn rv, st) \<and>
     dispatch_push_sync (example_env ae) (example_push 9) st = Some (resp, st) \<and> fst (snd (http_parts resp)) = ack_json lsn rv \<and>
     encode_glue_response_tcp resp = encode_tcp_frame_bytes OP_PUSH WIRE_CT_JSON (replay_json (Some lsn) rv)"
proof
  fix ae
  let ?env = "example_env ae" and ?st0 = "example_state dedupe_registry" and ?e = "example_event\<lparr>dedupe_key := Some ''u''\<rparr>"
  let ?row = "[(''u'', VStr ''a''), (''x'', VI64 3)]"
  have ev: "get_event_descriptor (da_registry (dev_agg ?st0)) ''E'' = Some ?e"
    by (simp add: example_state_def dedupe_registry_def get_event_descriptor_def)
  have chk: "push_checked ?env (example_push now) (da_registry (dev_agg ?st0)) = Some (?row, ?e, Some ''a'')" for now
    by (subst example_checked [OF ev]) (simp_all add: extract_dedupe_str_from_row_def row_get_def)
  have "apply_event_to_aggregations fx ae ''E'' ?row now dedupe_registry cold [] = Some []" for fx now cold
    by (simp add: apply_event_to_aggregations_def apply_event_to_aggregations_with_descs_def compiled_aggregations_for_source_def dedupe_registry_def registry_default_def)
  then obtain lsn rv st where d: "dispatch_push_sync ?env (example_push 5) ?st0 = Some (PushAck lsn rv, st)"
    unfolding dispatch_checked [OF chk]
    by (auto simp: get_with_ack_lsn_def push_accepted_def Let_def example_state_def example_push_def example_env_def)
  have exp: "(9 :: u64) < u64_saturating_add 5 86400000" by (simp add: u64_saturating_add_def)
  have "\<exists>resp. dispatch_push_sync ?env (example_push 9) st = Some (resp, st) \<and>
      encode_glue_response_tcp resp = encode_tcp_frame_bytes OP_PUSH WIRE_CT_JSON (replay_json (Some lsn) rv) \<and>
      (\<exists>status body. http_parts (PushAck lsn rv) = (status, body, '''') \<and> body = ack_json lsn rv \<and>
         http_parts resp = (status, body, ''X-Beava-Idempotent-Replay: 1'' @ [CHR 0x0D, CHR 0x0A]))"
    by (rule dedupe_applies_once [OF chk d pushes.none refl _ _ _ chk])
      (use exp in \<open>simp_all add: example_push_def example_event_def DEFAULT_DEDUPE_WINDOW_MS_def\<close>)
  with d show "\<exists>lsn rv st resp. dispatch_push_sync ?env (example_push 5) ?st0 = Some (PushAck lsn rv, st) \<and>
     dispatch_push_sync ?env (example_push 9) st = Some (resp, st) \<and> fst (snd (http_parts resp)) = ack_json lsn rv \<and>
     encode_glue_response_tcp resp = encode_tcp_frame_bytes OP_PUSH WIRE_CT_JSON (replay_json (Some lsn) rv)" by fastforce
qed

end
