(* ===== verification/RegisterRules.thy ===== *)
theory RegisterRules
  imports Registry SchemaProp
begin

text \<open>
  The structural rules of \<open>crates/beava-core/src/register_validate.rs\<close>: the checks on the raw
  request, rules 1 to 9 on the payload, and the search for a cycle of derivations. The texts of
  the reasons are not modelled. The order in which the code iterates a \<open>HashMap\<close> is the
  parameter \<open>hash_order\<close>. The recursion of \<open>dfs_cycle\<close> has a budget of one more than the number of
  derivations, which is enough (\<open>dfs_returns\<close>).

  The lemmas show that the search finds a cycle exactly when there is one, whatever the
  iteration order, and that a payload passes the rules exactly when its nodes can be
  installed in their order.
\<close>

section \<open>Errors\<close>

datatype ErrorCode =
    InvalidRegistration | NameDuplicate | NameReservedPrefix | NameBadPattern | NameEmptyCode | NameTooLong
  | EventTimeFieldMissing | EventTimeFieldWrongType | EventSchemaEmpty | TablePrimaryKeyEmpty | TablePrimaryKeyTooLong
  | TablePrimaryKeyUnknownField | DerivationUpstreamUnknown | DerivationSchemaEmpty | RegistrationCycle
  | TopologicalOrderViolation | DedupeKeyUnknownField | DedupeWindowNonPositive | DerivationOutputKindTableMissingPrimaryKey
  | InvalidExpression | UnknownFieldReference | SchemaPropagationFailure | InvalidCastTarget | UnsupportedOpInPhase4
  | AggregationOnTableNotSupported | AggregationUnknownField | AggregationInvalidWhere | AggregationInvalidWindow
  | AggregationUnknownOp | AggregationDuplicateFeatureName | AggregationGroupKeyCollidesWithFeature
  | AggregationFeatureNameCollisionAcrossAggregations | AggregationInvalidHalfLife | AggregationInvalidSubWindow
  | WindowNotSupported | InvalidPercentileQ | InvalidTopKK | InvalidBloomFpr

record ValidationError =
  ve_code :: ErrorCode
  ve_path :: string

abbreviation verr :: "ErrorCode \<Rightarrow> string \<Rightarrow> ValidationError" where
  "verr c p \<equiv> \<lparr>ve_code = c, ve_path = p\<rparr>"

definition path_node :: "nat \<Rightarrow> string" where
  "path_node i = ''nodes['' @ nat_to_string i @ '']''"

definition path_field :: "nat \<Rightarrow> string \<Rightarrow> string" where
  "path_field i suffix = ''nodes['' @ nat_to_string i @ ''].'' @ suffix"

definition path_elem :: "string \<Rightarrow> nat \<Rightarrow> string" where
  "path_elem name j = name @ ''['' @ nat_to_string j @ '']''"

section \<open>Checks of the raw request\<close>

text \<open>Access to a JSON value, as serde_json has it. No number above the largest i64 is represented.\<close>

definition json_get :: "string \<Rightarrow> Json \<Rightarrow> Json option" where
  "json_get k j = (case j of JObject kvs \<Rightarrow> map_of kvs k | _ \<Rightarrow> None)"

definition json_str :: "Json \<Rightarrow> string option" where
  "json_str j = (case j of JString s \<Rightarrow> Some s | _ \<Rightarrow> None)"

definition json_array :: "Json \<Rightarrow> Json list option" where
  "json_array j = (case j of JArray xs \<Rightarrow> Some xs | _ \<Rightarrow> None)"

definition json_object :: "Json \<Rightarrow> (string \<times> Json) list option" where
  "json_object j = (case j of JObject kvs \<Rightarrow> Some kvs | _ \<Rightarrow> None)"

definition json_as_u64 :: "Json \<Rightarrow> nat option" where
  "json_as_u64 j = (case j of JNumber (Some i) _ \<Rightarrow> if 0 \<le> i then Some (nat i) else None | _ \<Rightarrow> None)"

definition json_f64 :: "Json \<Rightarrow> f64 option" where
  "json_f64 j = (case j of JNumber _ x \<Rightarrow> x | _ \<Rightarrow> None)"

definition json_bool :: "Json \<Rightarrow> bool option" where
  "json_bool j = (case j of JBool b \<Rightarrow> Some b | _ \<Rightarrow> None)"

definition str_at :: "string \<Rightarrow> Json \<Rightarrow> string" where
  "str_at k j = (case Option.bind (json_get k j) json_str of Some s \<Rightarrow> s | None \<Rightarrow> '''')"

record FeatureRemovedError =
  fre_code :: string
  fre_op_label :: string
  fre_path :: string

text \<open>The path of a node of the request, with its name where it has one.\<close>

definition node_prefix :: "nat \<Rightarrow> Json \<Rightarrow> string" where
  "node_prefix i node = (if str_at ''name'' node = '''' then path_node i else path_node i @ ''.'' @ str_at ''name'' node)"

definition op_prefix :: "nat \<Rightarrow> Json \<Rightarrow> nat \<Rightarrow> string" where
  "op_prefix i node j = node_prefix i node @ ''.ops['' @ nat_to_string j @ '']''"

definition first_some :: "('a \<Rightarrow> 'b option) \<Rightarrow> 'a list \<Rightarrow> 'b option" where
  "first_some f xs = (case List.map_filter f xs of [] \<Rightarrow> None | y # _ \<Rightarrow> Some y)"

definition request_nodes :: "Json \<Rightarrow> Json list" where
  "request_nodes body = (case Option.bind (json_get ''nodes'' body) json_array of Some ns \<Rightarrow> ns | None \<Rightarrow> [])"

definition derivation_ops :: "Json \<Rightarrow> Json list" where
  "derivation_ops node =
     (if str_at ''kind'' node \<noteq> ''derivation'' then []
      else case Option.bind (json_get ''ops'' node) json_array of Some ops \<Rightarrow> ops | None \<Rightarrow> [])"

definition removed_op :: "nat \<Rightarrow> Json \<Rightarrow> nat \<times> Json \<Rightarrow> FeatureRemovedError option" where
  "removed_op i node jop =
     (let (j, op_value) = jop; op_str = str_at ''op'' op_value in
      if op_str = ''join'' then Some \<lparr>fre_code = ''feature_removed_no_joins_v0'', fre_op_label = ''join'', fre_path = op_prefix i node j\<rparr>
      else if op_str = ''union'' then Some \<lparr>fre_code = ''feature_removed_no_unions_v0'', fre_op_label = ''union'', fre_path = op_prefix i node j\<rparr>
      else None)"

definition pre_check_removed_ops :: "Json \<Rightarrow> FeatureRemovedError option" where
  "pre_check_removed_ops body =
     first_some (\<lambda>(i, node). first_some (removed_op i node) (enumerate 0 (derivation_ops node))) (enumerate 0 (request_nodes body))"

definition pre_check_legacy_event_time_keys :: "Json \<Rightarrow> FeatureRemovedError option" where
  "pre_check_legacy_event_time_keys body =
     first_some (\<lambda>(i, node).
       if json_get ''event_time_field'' node \<noteq> None then
         Some \<lparr>fre_code = ''unknown_field_event_time_v0'', fre_op_label = ''event_time_field'', fre_path = node_prefix i node @ ''.event_time_field''\<rparr>
       else if json_get ''tolerate_delay_ms'' node \<noteq> None then
         Some \<lparr>fre_code = ''unknown_field_tolerate_delay_v0'', fre_op_label = ''tolerate_delay_ms'', fre_path = node_prefix i node @ ''.tolerate_delay_ms''\<rparr>
       else None) (enumerate 0 (request_nodes body))"

definition pre_check_unsupported_node_kind :: "Json \<Rightarrow> FeatureRemovedError option" where
  "pre_check_unsupported_node_kind body =
     first_some (\<lambda>(i, node).
       let kind = str_at ''kind'' node in
       if kind \<in> {''event'', ''derivation'', ''''} then None
       else Some \<lparr>fre_code = ''unsupported_node_kind'', fre_op_label = kind, fre_path = node_prefix i node @ ''.kind''\<rparr>)
       (enumerate 0 (request_nodes body))"

datatype OpLifetimeBound = O1 | BoundedSketch | BoundedByRequiredKwarg string | BoundedByConfig string nat | Unbounded

definition lifetime_bound_for_op_str :: "string \<Rightarrow> OpLifetimeBound" where
  "lifetime_bound_for_op_str s =
     (if s \<in> {''count'', ''sum'', ''mean'', ''min'', ''max'', ''var'', ''std'', ''ratio''} then O1
      else if s \<in> {''first'', ''last''} then O1
      else if s \<in> {''first_n'', ''last_n'', ''lag'', ''time_since_last_n''} then BoundedByRequiredKwarg ''n''
      else if s \<in> {''first_seen'', ''last_seen'', ''age'', ''has_seen'', ''time_since''} then O1
      else if s \<in> {''streak'', ''max_streak'', ''negative_streak''} then O1
      else if s = ''first_seen_in_window'' then O1
      else if s \<in> {''ewma'', ''ema'', ''ewvar'', ''ew_zscore'', ''decayed_sum'', ''decayed_count'', ''twa''} then O1
      else if s \<in> {''rate_of_change'', ''inter_arrival_stats'', ''burst_count'', ''delta_from_prev'', ''trend'', ''trend_residual'',
                   ''outlier_count'', ''value_change_count''} then O1
      else if s = ''z_score'' then O1
      else if s \<in> {''n_unique'', ''quantile'', ''bloom_member''} then BoundedSketch
      else if s = ''entropy'' then BoundedByConfig ''max_categories'' 256
      else if s = ''top_k'' then BoundedByConfig ''k'' 10
      else if s = ''histogram'' then BoundedByRequiredKwarg ''buckets''
      else if s \<in> {''hour_of_day_histogram'', ''dow_hour_histogram'', ''seasonal_deviation''} then O1
      else if s = ''event_type_mix'' then BoundedByConfig ''max_categories'' 256
      else if s = ''most_recent_n'' then BoundedByRequiredKwarg ''n''
      else if s = ''reservoir_sample'' then BoundedByRequiredKwarg ''samples''
      else if s \<in> {''geo_velocity'', ''geo_distance'', ''geo_spread''} then O1
      else if s = ''distance_from_home'' then BoundedByConfig ''samples'' 100
      else Unbounded)"

text \<open>Whether a feature without a window has its memory bounded: the required parameter is a positive
  integer or a non-empty array.\<close>

definition kwarg_valid :: "Json option \<Rightarrow> string \<Rightarrow> bool" where
  "kwarg_valid params kwarg =
     (let v = Option.bind params (json_get kwarg) in
      (case Option.bind v json_as_u64 of Some n \<Rightarrow> n > 0 | None \<Rightarrow> False) \<or>
      (case Option.bind v json_array of Some a \<Rightarrow> a \<noteq> [] | None \<Rightarrow> False))"

definition lifetime_bounded :: "Json \<Rightarrow> bool" where
  "lifetime_bounded feature =
     (let params = json_get ''params'' feature in
      if Option.bind (Option.bind params (json_get ''window'')) json_str \<noteq> None then True
      else case lifetime_bound_for_op_str (str_at ''op'' feature) of
             BoundedByRequiredKwarg kwarg \<Rightarrow> kwarg_valid params kwarg
           | Unbounded \<Rightarrow> False
           | _ \<Rightarrow> True)"

definition agg_map_of :: "Json \<Rightarrow> (string \<times> Json) list" where
  "agg_map_of op_value = (case Option.bind (json_get ''agg'' op_value) json_object of Some m \<Rightarrow> m | None \<Rightarrow> [])"

definition pre_check_unbounded_op_in_lifetime_mode :: "Json \<Rightarrow> FeatureRemovedError option" where
  "pre_check_unbounded_op_in_lifetime_mode body =
     first_some (\<lambda>(i, node). first_some (\<lambda>(j, op_value). first_some (\<lambda>(name, feature).
       if lifetime_bounded feature then None
       else Some \<lparr>fre_code = ''unbounded_op_in_lifetime_mode'', fre_op_label = str_at ''op'' feature,
                  fre_path = op_prefix i node j @ ''.agg.'' @ name\<rparr>)
         (agg_map_of op_value)) (enumerate 0 (derivation_ops node))) (enumerate 0 (request_nodes body))"

section \<open>Rules on single nodes\<close>

text \<open>Rule 1.\<close>

fun uniqueness_loop :: "nat \<Rightarrow> string list \<Rightarrow> PayloadNode list \<Rightarrow> ValidationError list" where
  "uniqueness_loop i seen [] = []"
| "uniqueness_loop i seen (node # nodes) =
     (let name = payload_name node in
      if name \<in> set seen then verr NameDuplicate (path_field i ''name'') # uniqueness_loop (Suc i) seen nodes
      else uniqueness_loop (Suc i) (name # seen) nodes)"

definition validate_uniqueness_within_payload :: "PayloadNode list \<Rightarrow> ValidationError list" where
  "validate_uniqueness_within_payload payload = uniqueness_loop 0 [] payload"

text \<open>Rule 2.\<close>

definition validate_node_name :: "nat \<Rightarrow> PayloadNode \<Rightarrow> ValidationError list" where
  "validate_node_name i node =
     (case validate_descriptor_name (payload_name node) of
        Inr _ \<Rightarrow> []
      | Inl NameEmpty \<Rightarrow> [verr NameEmptyCode (path_field i ''name'')]
      | Inl (BadPattern _) \<Rightarrow> [verr NameBadPattern (path_field i ''name'')]
      | Inl (ReservedPrefix _) \<Rightarrow> [verr NameReservedPrefix (path_field i ''name'')]
      | Inl (TooLong _) \<Rightarrow> [verr NameTooLong (path_field i ''name'')])"

text \<open>Rules 3 and 9.\<close>

definition validate_event :: "nat \<Rightarrow> EventDescriptor \<Rightarrow> ValidationError list" where
  "validate_event i e =
     (if es_fields (ev_schema e) = [] then [verr EventSchemaEmpty (path_field i ''schema.fields'')] else []) @
     (case dedupe_key e of
        Some key \<Rightarrow> if key \<notin> fst ` set (es_fields (ev_schema e)) then [verr DedupeKeyUnknownField (path_field i ''dedupe_key'')] else []
      | None \<Rightarrow> []) @
     (case dedupe_window_ms e of
        Some ttl \<Rightarrow> if ttl = 0 then [verr DedupeWindowNonPositive (path_field i ''dedupe_window_ms'')] else []
      | None \<Rightarrow> [])"

text \<open>Rule 4.\<close>

definition validate_table :: "nat \<Rightarrow> TableDescriptor \<Rightarrow> ValidationError list" where
  "validate_table i t =
     (if primary_key t = [] then [verr TablePrimaryKeyEmpty (path_field i ''primary_key'')]
      else
        (if length (primary_key t) > 4 then [verr TablePrimaryKeyTooLong (path_field i ''primary_key'')] else []) @
        concat (map (\<lambda>(j, key_field).
          if key_field \<notin> fst ` set (ts_fields (tab_schema t))
          then [verr TablePrimaryKeyUnknownField (path_field i (path_elem ''primary_key'' j))] else []) (enumerate 0 (primary_key t))))"

text \<open>Rule 6.\<close>

definition validate_derivation_struct :: "nat \<Rightarrow> DerivationDescriptor \<Rightarrow> ValidationError list" where
  "validate_derivation_struct i d =
     (if ds_fields (der_schema d) = [] \<and> der_ops d = [] then [verr DerivationSchemaEmpty (path_field i ''schema.fields'')] else []) @
     (if output_kind d = OutTable \<and> table_primary_key d = None
      then [verr DerivationOutputKindTableMissingPrimaryKey (path_field i ''table_primary_key'')] else [])"

definition validate_node :: "nat \<Rightarrow> PayloadNode \<Rightarrow> ValidationError list" where
  "validate_node i node =
     validate_node_name i node @
     (case node of NEvent e \<Rightarrow> validate_event i e | NTable t \<Rightarrow> validate_table i t | NDerivation d \<Rightarrow> validate_derivation_struct i d)"

section \<open>Rules on the graph\<close>

fun node_upstreams :: "PayloadNode \<Rightarrow> string list" where
  "node_upstreams (NDerivation d) = upstreams d"
| "node_upstreams _ = []"

definition known_in_current :: "RegistryInner \<Rightarrow> string \<Rightarrow> bool" where
  "known_in_current current name \<longleftrightarrow>
     map_of (reg_events current) name \<noteq> None \<or> map_of (reg_tables current) name \<noteq> None \<or> map_of (derivations current) name \<noteq> None"

text \<open>Rule 5.\<close>

definition validate_upstreams :: "RegistryInner \<Rightarrow> PayloadNode list \<Rightarrow> ValidationError list" where
  "validate_upstreams current payload =
     concat (map (\<lambda>(i, node). concat (map (\<lambda>(j, upstream).
       if upstream \<notin> set (map payload_name payload) \<and> \<not> known_in_current current upstream
       then [verr DerivationUpstreamUnknown (path_field i (path_elem ''upstreams'' j))] else [])
         (enumerate 0 (node_upstreams node)))) (enumerate 0 payload))"

text \<open>The position of a name in the payload; of equal names the last.\<close>

definition payload_index :: "PayloadNode list \<Rightarrow> string \<Rightarrow> nat option" where
  "payload_index payload = map_of (rev (zip (map payload_name payload) [0..<length payload]))"

text \<open>Rule 8.\<close>

definition validate_topological_order :: "PayloadNode list \<Rightarrow> ValidationError list" where
  "validate_topological_order payload =
     concat (map (\<lambda>(i, node). concat (map (\<lambda>(j, upstream).
       case payload_index payload upstream of
         Some upstream_idx \<Rightarrow>
           if upstream_idx > i then [verr TopologicalOrderViolation (path_field i (path_elem ''upstreams'' j))] else []
       | None \<Rightarrow> []) (enumerate 0 (node_upstreams node)))) (enumerate 0 payload))"

text \<open>Rule 7: the map from a derivation to its upstreams, with the payload over the registry.\<close>

type_synonym adjacency = "(string \<times> string list) list"

fun add_edges :: "PayloadNode \<Rightarrow> adjacency \<Rightarrow> adjacency" where
  "add_edges (NDerivation d) adj = AList.update (der_name d) (upstreams d) adj"
| "add_edges _ adj = adj"

definition adjacency_of :: "RegistryInner \<Rightarrow> PayloadNode list \<Rightarrow> adjacency" where
  "adjacency_of current payload = fold add_edges payload (map (\<lambda>(name, d). (name, upstreams d)) (derivations current))"

definition neighbors :: "adjacency \<Rightarrow> string \<Rightarrow> string list" where
  "neighbors adj node = (case map_of adj node of Some ns \<Rightarrow> ns | None \<Rightarrow> [])"

text \<open>The colours (white 0, grey 1, black 2) and the stack; the result is the cycle found, and \<open>None\<close>
  outside it says that the budget ran out.\<close>

type_synonym dfs_state = "(string \<Rightarrow> nat) \<times> string list"

definition stack_cycle :: "string \<Rightarrow> string list \<Rightarrow> string list" where
  "stack_cycle n stack = drop (case position (\<lambda>m. m = n) stack of Some i \<Rightarrow> i | None \<Rightarrow> 0) stack @ [n]"

fun dfs_cycle :: "nat \<Rightarrow> adjacency \<Rightarrow> string \<Rightarrow> dfs_state \<Rightarrow> (string list option \<times> dfs_state) option"
  and dfs_loop :: "nat \<Rightarrow> adjacency \<Rightarrow> string list \<Rightarrow> dfs_state \<Rightarrow> (string list option \<times> dfs_state) option" where
  "dfs_cycle 0 adj node s = None"
| "dfs_cycle (Suc fuel) adj node s =
     (case dfs_loop fuel adj (neighbors adj node) ((fst s)(node := 1), snd s @ [node]) of
        None \<Rightarrow> None
      | Some (Some cycle, s') \<Rightarrow> Some (Some cycle, s')
      | Some (None, color, stack) \<Rightarrow> Some (None, color(node := 2), butlast stack))"
| "dfs_loop fuel adj [] s = Some (None, s)"
| "dfs_loop fuel adj (n # ns) s =
     (if fst s n = 1 then Some (Some (stack_cycle n (snd s)), s)
      else if fst s n = 0 then
        (case dfs_cycle fuel adj n s of
           None \<Rightarrow> None
         | Some (Some cycle, s') \<Rightarrow> Some (Some cycle, s')
         | Some (None, s') \<Rightarrow> dfs_loop fuel adj ns s')
      else dfs_loop fuel adj ns s)"

text \<open>The loop over the starting points.\<close>

fun start_loop :: "nat \<Rightarrow> adjacency \<Rightarrow> string list \<Rightarrow> dfs_state \<Rightarrow> string list option option" where
  "start_loop fuel adj [] s = Some None"
| "start_loop fuel adj (start # names) s =
     (if fst s start = 0 then
        (case dfs_cycle fuel adj start s of
           None \<Rightarrow> None
         | Some (Some cycle, _) \<Rightarrow> Some (Some cycle)
         | Some (None, s') \<Rightarrow> start_loop fuel adj names s')
      else start_loop fuel adj names s)"

definition find_cycle :: "adjacency \<Rightarrow> string list \<Rightarrow> string list option" where
  "find_cycle adj names = (case start_loop (Suc (length adj)) adj names (\<lambda>_. 0, []) of Some cycle \<Rightarrow> cycle | None \<Rightarrow> None)"

definition validate_acyclicity :: "(string list \<Rightarrow> string list) \<Rightarrow> RegistryInner \<Rightarrow> PayloadNode list \<Rightarrow> ValidationError list" where
  "validate_acyclicity hash_order current payload =
     (let adj = adjacency_of current payload in
      case find_cycle adj (hash_order (map fst adj)) of
        None \<Rightarrow> []
      | Some cycle \<Rightarrow>
          [verr RegistrationCycle (case List.map_filter (payload_index payload) cycle of i # _ \<Rightarrow> path_node i | [] \<Rightarrow> ''nodes'')])"

definition structural_errors :: "(string list \<Rightarrow> string list) \<Rightarrow> RegistryInner \<Rightarrow> PayloadNode list \<Rightarrow> ValidationError list" where
  "structural_errors hash_order current payload =
     validate_uniqueness_within_payload payload @
     concat (map (\<lambda>(i, node). validate_node i node) (enumerate 0 payload)) @
     validate_upstreams current payload @
     validate_topological_order payload @
     validate_acyclicity hash_order current payload"

section \<open>The search\<close>

definition edges :: "adjacency \<Rightarrow> (string \<times> string) set" where
  "edges adj = {(u, v). v \<in> set (neighbors adj u)}"

text \<open>A closed walk of at least one edge.\<close>

definition is_walk :: "adjacency \<Rightarrow> string list \<Rightarrow> bool" where
  "is_walk adj ns \<longleftrightarrow> (\<forall>i. Suc i < length ns \<longrightarrow> (ns ! i, ns ! Suc i) \<in> edges adj)"

definition is_cycle :: "adjacency \<Rightarrow> string list \<Rightarrow> bool" where
  "is_cycle adj ns \<longleftrightarrow> 2 \<le> length ns \<and> hd ns = List.last ns \<and> is_walk adj ns"

abbreviation black :: "(string \<Rightarrow> nat) \<Rightarrow> string set" where
  "black c \<equiv> {n. c n = 2}"

definition dfs_inv :: "adjacency \<Rightarrow> dfs_state \<Rightarrow> bool" where
  "dfs_inv adj s \<longleftrightarrow>
     (let (c, stack) = s in
      distinct stack \<and> set stack = {n. c n = 1} \<and> is_walk adj stack \<and> (\<forall>n. c n \<le> 2) \<and>
      (\<forall>n \<in> black c. set (neighbors adj n) \<subseteq> black c) \<and> (\<forall>n \<in> black c. (n, n) \<notin> (edges adj)\<^sup>+))"

lemma is_walk_snoc: "is_walk adj (ns @ [n]) \<longleftrightarrow> is_walk adj ns \<and> (ns = [] \<or> (List.last ns, n) \<in> edges adj)"
proof (cases ns rule: rev_cases)
  case (snoc ms m)
  have "Suc i < length (ms @ [m, n]) \<longleftrightarrow> Suc i < length (ms @ [m]) \<or> i = length ms" for i by auto
  then show ?thesis by (auto simp: snoc is_walk_def nth_append less_Suc_eq)
qed (simp add: is_walk_def)

lemma is_walk_drop: "is_walk adj ns \<Longrightarrow> is_walk adj (drop k ns)"
  by (simp add: is_walk_def)

lemma stack_cycle_ok:
  assumes "is_walk adj stack" and "n \<in> set stack" and "(List.last stack, n) \<in> edges adj"
  shows "is_cycle adj (stack_cycle n stack)"
proof -
  obtain i where i: "position (\<lambda>m. m = n) stack = Some i" using assms(2) position_None_iff [of "\<lambda>m. m = n" stack]
    by (cases "position (\<lambda>m. m = n) stack") auto
  then have "i < length stack" "stack ! i = n" using position_SomeD [OF i] by auto
  then have "drop i stack \<noteq> []" "hd (drop i stack) = n" "List.last (drop i stack) = List.last stack" by (auto simp: hd_drop_conv_nth)
  then show ?thesis
    using is_walk_drop [OF assms(1), of i] assms(3) by (auto simp: stack_cycle_def i is_cycle_def is_walk_snoc Suc_le_eq)
qed

text \<open>A node whose neighbors are black can become black.\<close>

lemma blacken_acyclic:
  assumes closed: "\<forall>m \<in> B. set (neighbors adj m) \<subseteq> B" and acyclic: "\<forall>m \<in> B. (m, m) \<notin> (edges adj)\<^sup>+"
    and n: "n \<notin> B" "set (neighbors adj n) \<subseteq> B"
  shows "(n, n) \<notin> (edges adj)\<^sup>+"
proof
  have reach: "m \<in> B" if "(k, m) \<in> (edges adj)\<^sup>+" "k \<in> B" for k m
    using that by (induction rule: trancl_induct) (use closed in \<open>auto simp: edges_def\<close>)
  assume "(n, n) \<in> (edges adj)\<^sup>+"
  then obtain m where m: "(n, m) \<in> edges adj" "m = n \<or> (m, n) \<in> (edges adj)\<^sup>+" by (meson tranclD rtranclD)
  then have "m \<in> B" using n(2) by (auto simp: edges_def)
  then show False using m(2) n(1) reach by blast
qed

definition dfs_post :: "adjacency \<Rightarrow> dfs_state \<Rightarrow> string set \<Rightarrow> string list option \<times> dfs_state \<Rightarrow> bool" where
  "dfs_post adj s N r \<longleftrightarrow>
     (case fst r of
        Some cycle \<Rightarrow> is_cycle adj cycle
      | None \<Rightarrow> snd (snd r) = snd s \<and> dfs_inv adj (snd r) \<and> black (fst s) \<subseteq> black (fst (snd r)) \<and> N \<subseteq> black (fst (snd r)))"

lemma dfs_correct:
  "dfs_cycle fuel adj node s = Some r \<Longrightarrow> dfs_inv adj s \<Longrightarrow> fst s node = 0 \<Longrightarrow> (snd s = [] \<or> (List.last (snd s), node) \<in> edges adj) \<Longrightarrow>
     dfs_post adj s {node} r"
  "dfs_loop fuel adj ns s = Some r \<Longrightarrow> dfs_inv adj s \<Longrightarrow> snd s \<noteq> [] \<Longrightarrow> \<forall>n \<in> set ns. (List.last (snd s), n) \<in> edges adj \<Longrightarrow>
     dfs_post adj s (set ns) r"
proof (induction fuel adj node s and fuel adj ns s arbitrary: r and r rule: dfs_cycle_dfs_loop.induct)
  case (2 fuel adj node s)
  obtain c stack where s: "s = (c, stack)" by (cases s)
  let ?s1 = "(c(node := 1), stack @ [node])"
  have "black (c(node := 1)) = black c" "{n. (c(node := 1)) n = 1} = insert node {n. c n = 1}" using "2.prems"(3) by (auto simp: s)
  then have inv1: "dfs_inv adj ?s1"
    using "2.prems"(2-4) unfolding dfs_inv_def s by (auto simp: is_walk_snoc simp del: fun_upd_apply) (auto simp: fun_upd_apply)
  obtain r1 where r1: "dfs_loop fuel adj (neighbors adj node) ?s1 = Some r1" using "2.prems"(1) by (auto simp: s split: option.splits)
  have post: "dfs_post adj ?s1 (set (neighbors adj node)) r1"
    using "2.IH" [of r1] r1 inv1 by (simp add: s edges_def)
  show ?case
  proof (cases "fst r1")
    case (Some cycle)
    then show ?thesis using "2.prems"(1) r1 post by (cases r1) (auto simp: s dfs_post_def)
  next
    case None
    then obtain c' where r1': "r1 = (None, c', stack @ [node])" using post by (cases r1) (auto simp: dfs_post_def)
    then have P: "dfs_inv adj (c', stack @ [node])" "black (c(node := 1)) \<subseteq> black c'" "set (neighbors adj node) \<subseteq> black c'"
      using post by (auto simp: dfs_post_def)
    have r: "r = (None, c'(node := 2), stack)" using "2.prems"(1) r1 r1' by (simp add: s)
    have grey: "c' node = 1" using P(1) by (auto simp: dfs_inv_def)
    then have "node \<notin> black c'" by simp
    have acyc: "(node, node) \<notin> (edges adj)\<^sup>+"
      by (rule blacken_acyclic [of "black c'"]) (use P(1,3) grey in \<open>auto simp: dfs_inv_def\<close>)
    have "dfs_inv adj (c'(node := 2), stack)"
      using P(1,3) acyc by (auto simp: dfs_inv_def is_walk_snoc)
    moreover have "black c \<subseteq> black (c'(node := 2))" using P(2) by (auto split: if_splits)
    ultimately show ?thesis by (simp add: dfs_post_def r s)
  qed
next
  case (4 fuel adj n ns s)
  obtain c stack where s: "s = (c, stack)" by (cases s)
  have edge: "(List.last stack, n) \<in> edges adj" using "4.prems"(4) by (simp add: s)
  consider "c n = 1" | "c n = 0" | "c n = 2" using "4.prems"(2) by (force simp: dfs_inv_def s le_Suc_eq numeral_2_eq_2)
  then show ?case
  proof cases
    case 1
    then have "n \<in> set stack" "is_walk adj stack" using "4.prems"(2) by (auto simp: dfs_inv_def s)
    then show ?thesis using "4.prems"(1) 1 stack_cycle_ok edge by (auto simp: s dfs_post_def)
  next
    case 2
    obtain r1 where r1: "dfs_cycle fuel adj n s = Some r1" using "4.prems"(1) 2 by (auto simp: s split: option.splits)
    have post: "dfs_post adj s {n} r1" using "4.IH"(1) [of r1] r1 2 "4.prems"(2) edge by (simp add: s)
    show ?thesis
    proof (cases "fst r1")
      case (Some cycle)
      then show ?thesis using "4.prems"(1) r1 post 2 by (cases r1) (auto simp: s dfs_post_def)
    next
      case None
      then obtain s1 where r1': "r1 = (None, s1)" by (cases r1) auto
      then have "snd s1 = stack" "dfs_inv adj s1" "black c \<subseteq> black (fst s1)" "n \<in> black (fst s1)" using post by (auto simp: dfs_post_def s)
      moreover have call: "dfs_cycle fuel adj n s = Some (None, s1)" using r1 r1' by simp
      have loop: "dfs_loop fuel adj ns s1 = Some r" using "4.prems"(1) call 2 by (simp add: s)
      have white: "fst s n \<noteq> 1" "fst s n = 0" using 2 by (simp_all add: s)
      have "dfs_post adj s1 (set ns) r"
        by (rule "4.IH"(2) [OF white call refl refl loop]) (use calculation "4.prems"(3,4) in \<open>auto simp: s\<close>)
      ultimately show ?thesis by (auto simp: dfs_post_def s split: option.splits)
    qed
  next
    case 3
    then have "dfs_post adj s (set ns) r" using "4.IH"(3) [of r] "4.prems" by (simp add: s)
    then show ?thesis using 3 by (auto simp: dfs_post_def s split: option.splits)
  qed
qed (auto simp: dfs_post_def)

text \<open>The search returns.\<close>

definition white :: "adjacency \<Rightarrow> (string \<Rightarrow> nat) \<Rightarrow> string set" where
  "white adj c = {n \<in> fst ` set adj. c n = 0}"

lemma finite_white [simp]: "finite (white adj c)"
  by (simp add: white_def)

lemma white_mono: "(\<And>n. c n \<noteq> 0 \<Longrightarrow> c' n \<noteq> 0) \<Longrightarrow> card (white adj c') \<le> card (white adj c)"
  by (rule card_mono) (simp, unfold white_def, blast)

lemma dfs_colored:
  "dfs_cycle fuel adj node s = Some r \<Longrightarrow> fst s n \<noteq> 0 \<Longrightarrow> fst (snd r) n \<noteq> 0"
  "dfs_loop fuel adj ns s = Some r \<Longrightarrow> fst s n \<noteq> 0 \<Longrightarrow> fst (snd r) n \<noteq> 0"
  by (induction fuel adj node s and fuel adj ns s arbitrary: r and r rule: dfs_cycle_dfs_loop.induct)
    (auto split: option.splits prod.splits if_splits)

lemma white_gray:
  assumes "c node = 0" and "neighbors adj node \<noteq> []"
  shows "card (white adj (c(node := 1))) < card (white adj c)"
proof (rule psubset_card_mono)
  have "map_of adj node \<noteq> None" using assms(2) by (cases "map_of adj node") (auto simp: neighbors_def)
  then have "node \<in> fst ` set adj" by (simp add: map_of_eq_None_iff)
  then show "white adj (c(node := 1)) \<subset> white adj c" using assms(1) by (auto simp: white_def)
qed simp

lemma dfs_returns:
  "fst s node = 0 \<Longrightarrow> card (white adj (fst s)) < fuel \<Longrightarrow> \<exists>r. dfs_cycle fuel adj node s = Some r"
  "ns = [] \<or> card (white adj (fst s)) < fuel \<Longrightarrow> \<exists>r. dfs_loop fuel adj ns s = Some r"
proof (induction fuel adj node s and fuel adj ns s rule: dfs_cycle_dfs_loop.induct)
  case (2 fuel adj node s)
  have "neighbors adj node = [] \<or> card (white adj ((fst s)(node := 1))) < fuel"
    using white_gray [of "fst s" node adj] "2.prems" by fastforce
  then show ?case using "2.IH" by (fastforce split: option.split)
next
  case (4 fuel adj n ns s)
  show ?case
  proof (cases "fst s n = 0")
    case True
    then obtain c s' where r: "dfs_cycle fuel adj n s = Some (c, s')" using "4.IH"(1) "4.prems" by auto
    show ?thesis
    proof (cases c)
      case None
      have "card (white adj (fst s')) < fuel"
        using white_mono [of "fst s" "fst s'" adj] dfs_colored(1) [OF r] "4.prems" by fastforce
      then show ?thesis using "4.IH"(2) [OF _ True r refl None] True r None by simp
    qed (simp add: True r)
  qed (use 4 in auto)
qed auto

lemma start_loop_correct:
  assumes "length adj < fuel"
  shows "dfs_inv adj (c, []) \<Longrightarrow>
    \<exists>r. start_loop fuel adj names (c, []) = Some r \<and>
      (case r of Some cycle \<Rightarrow> is_cycle adj cycle | None \<Rightarrow> \<forall>n \<in> set names. (n, n) \<notin> (edges adj)\<^sup>+)"
proof (induction names arbitrary: c)
  case (Cons n names)
  have card: "card (white adj c) < fuel" for c
  proof -
    have "card (white adj c) \<le> card (fst ` set adj)" by (rule card_mono) (auto simp: white_def)
    also have "\<dots> \<le> length adj" using card_image_le card_length by (meson finite_set le_trans)
    finally show ?thesis using assms by simp
  qed
  show ?case
  proof (cases "c n = 0")
    case True
    then obtain r where r: "dfs_cycle fuel adj n (c, []) = Some r" using dfs_returns(1) [of "(c, [])" n adj fuel] card by auto
    then have post: "dfs_post adj (c, []) {n} r" using dfs_correct(1) [OF r Cons.prems] True by simp
    show ?thesis
    proof (cases "fst r")
      case None
      then obtain c' where r': "r = (None, c', [])" using post by (cases r) (auto simp: dfs_post_def)
      then have inv: "dfs_inv adj (c', [])" "n \<in> black c'" using post by (auto simp: dfs_post_def)
      then have "(n, n) \<notin> (edges adj)\<^sup>+" by (auto simp: dfs_inv_def)
      then show ?thesis using Cons.IH [OF inv(1)] True r r' by (auto split: option.splits)
    qed (use r post True in \<open>cases r; auto simp: dfs_post_def\<close>)
  next
    case False
    have "c n \<noteq> 1" "c n \<le> 2" using Cons.prems by (auto simp: dfs_inv_def)
    with False have "c n = 2" by linarith
    then have "(n, n) \<notin> (edges adj)\<^sup>+" using Cons.prems by (auto simp: dfs_inv_def)
    then show ?thesis using Cons.IH [OF Cons.prems] False by (auto split: option.splits)
  qed
qed simp

lemma walk_reaches: "is_walk adj ns \<Longrightarrow> k < length ns \<Longrightarrow> (ns ! 0, ns ! k) \<in> (edges adj)\<^sup>*"
  by (induction k) (auto simp: is_walk_def intro: rtrancl_into_rtrancl)

lemma cycle_trancl:
  assumes "is_cycle adj ns"
  shows "(hd ns, hd ns) \<in> (edges adj)\<^sup>+"
proof -
  have ns: "2 \<le> length ns" "hd ns = List.last ns" "is_walk adj ns" using assms by (simp_all add: is_cycle_def)
  let ?k = "length ns - 2"
  have "(ns ! 0, ns ! ?k) \<in> (edges adj)\<^sup>*" using walk_reaches [OF ns(3), of ?k] ns(1) by simp
  moreover have "(ns ! ?k, ns ! Suc ?k) \<in> edges adj" using ns(1,3) by (simp add: is_walk_def)
  moreover have "ns ! 0 = hd ns" "ns ! Suc ?k = hd ns" using ns(1) hd_conv_nth [of ns] last_conv_nth [of ns] ns(2)
    by (cases "ns = []"; simp add: Suc_diff_Suc numeral_2_eq_2)+
  ultimately show ?thesis by (metis rtrancl_into_trancl1)
qed

lemma find_cycle_correct:
  assumes "set names = fst ` set adj"
  shows "find_cycle adj names = None \<longleftrightarrow> acyclic (edges adj)" and "find_cycle adj names = Some cycle \<Longrightarrow> is_cycle adj cycle"
proof -
  have "dfs_inv adj (\<lambda>_. 0, [])" by (simp add: dfs_inv_def is_walk_def)
  from start_loop_correct [OF _ this, of "Suc (length adj)" names] obtain r where
    r: "start_loop (Suc (length adj)) adj names (\<lambda>_. 0, []) = Some r" and
    ok: "case r of Some cycle \<Rightarrow> is_cycle adj cycle | None \<Rightarrow> \<forall>n \<in> set names. (n, n) \<notin> (edges adj)\<^sup>+" by blast
  have find: "find_cycle adj names = r" by (simp add: find_cycle_def r)
  have dom: "n \<in> set names" if "(n, m) \<in> edges adj" for n m
    using that assms map_of_eq_None_iff [of adj n] by (cases "map_of adj n") (auto simp: edges_def neighbors_def)
  show "find_cycle adj names = None \<longleftrightarrow> acyclic (edges adj)"
  proof
    assume "find_cycle adj names = None"
    then have "\<forall>n \<in> set names. (n, n) \<notin> (edges adj)\<^sup>+" using ok find by simp
    then show "acyclic (edges adj)" using dom unfolding acyclic_def by (blast dest: tranclD)
  next
    assume "acyclic (edges adj)"
    then show "find_cycle adj names = None" using ok find cycle_trancl by (cases r) (auto simp: acyclic_def)
  qed
  show "find_cycle adj names = Some cycle \<Longrightarrow> is_cycle adj cycle" using ok find by simp
qed

section \<open>Payloads that can be installed in order\<close>

definition event_ok :: "EventDescriptor \<Rightarrow> bool" where
  "event_ok e \<longleftrightarrow>
     es_fields (ev_schema e) \<noteq> [] \<and> (\<forall>key. dedupe_key e = Some key \<longrightarrow> key \<in> fst ` set (es_fields (ev_schema e))) \<and> dedupe_window_ms e \<noteq> Some 0"

definition table_ok :: "TableDescriptor \<Rightarrow> bool" where
  "table_ok t \<longleftrightarrow> primary_key t \<noteq> [] \<and> length (primary_key t) \<le> 4 \<and> set (primary_key t) \<subseteq> fst ` set (ts_fields (tab_schema t))"

definition derivation_ok :: "DerivationDescriptor \<Rightarrow> bool" where
  "derivation_ok d \<longleftrightarrow>
     (ds_fields (der_schema d) \<noteq> [] \<or> der_ops d \<noteq> []) \<and> (output_kind d = OutTable \<longrightarrow> table_primary_key d \<noteq> None)"

fun node_ok :: "PayloadNode \<Rightarrow> bool" where
  "node_ok (NEvent e) = event_ok e"
| "node_ok (NTable t) = table_ok t"
| "node_ok (NDerivation d) = derivation_ok d"

text \<open>A derivation of the payload hides one of the registry.\<close>

definition depends :: "RegistryInner \<Rightarrow> PayloadNode list \<Rightarrow> (string \<times> string) set" where
  "depends current payload =
     {(u, v). (\<exists>d. NDerivation d \<in> set payload \<and> der_name d = u \<and> v \<in> set (upstreams d)) \<or>
        (\<forall>d. NDerivation d \<in> set payload \<longrightarrow> der_name d \<noteq> u) \<and> (\<exists>d. map_of (derivations current) u = Some d \<and> v \<in> set (upstreams d))}"

definition structure_ok :: "RegistryInner \<Rightarrow> PayloadNode list \<Rightarrow> bool" where
  "structure_ok current payload \<longleftrightarrow>
     distinct (map payload_name payload) \<and>
     (\<forall>node \<in> set payload. descriptor_name_ok (payload_name node) \<and> node_ok node) \<and>
     (\<forall>i < length payload. \<forall>u \<in> set (node_upstreams (payload ! i)).
        u \<in> set (map payload_name (take i payload)) \<or> u \<notin> set (map payload_name payload) \<and> known_in_current current u) \<and>
     acyclic (depends current payload)"

lemma concat_enumerate_Nil: "concat (map (\<lambda>(i, x). f i x) (enumerate n xs)) = [] \<longleftrightarrow> (\<forall>i < length xs. f (n + i) (xs ! i) = [])"
proof (induction xs arbitrary: n)
  case (Cons x xs)
  have "(\<forall>i < length (x # xs). f (n + i) ((x # xs) ! i) = []) \<longleftrightarrow> f n x = [] \<and> (\<forall>i < length xs. f (Suc n + i) (xs ! i) = [])"
    by (auto simp: less_Suc_eq_0_disj)
  then show ?case using Cons.IH [of "Suc n"] by simp
qed simp

lemma concat_enumerate_all: "concat (map (\<lambda>(j, u). if P u then [e j u] else []) (enumerate 0 us)) = [] \<longleftrightarrow> (\<forall>u \<in> set us. \<not> P u)"
  unfolding concat_enumerate_Nil by (auto simp: all_set_conv_all_nth)

lemma uniqueness_loop_Nil: "uniqueness_loop i seen nodes = [] \<longleftrightarrow> distinct (map payload_name nodes) \<and> set seen \<inter> payload_name ` set nodes = {}"
  by (induction nodes arbitrary: i seen) (auto simp: Let_def)

lemma validate_node_Nil: "validate_node i node = [] \<longleftrightarrow> descriptor_name_ok (payload_name node) \<and> node_ok node"
proof -
  have "validate_node_name i node = [] \<longleftrightarrow> validate_descriptor_name (payload_name node) = Inr ()"
    by (auto simp: validate_node_name_def split: sum.splits DescriptorNameError.splits)
  moreover have "validate_table i t = [] \<longleftrightarrow> table_ok t" for t
    using concat_enumerate_all [of "\<lambda>k. k \<notin> fst ` set (ts_fields (tab_schema t))"
        "\<lambda>j _. verr TablePrimaryKeyUnknownField (path_field i (path_elem ''primary_key'' j))" "primary_key t"]
    unfolding validate_table_def table_ok_def by (auto simp del: concat_eq_Nil_conv)
  moreover have "validate_event i e = [] \<longleftrightarrow> event_ok e" for e
    by (auto simp: validate_event_def event_ok_def split: option.splits)
  moreover have "validate_derivation_struct i d = [] \<longleftrightarrow> derivation_ok d" for d
    by (auto simp: validate_derivation_struct_def derivation_ok_def)
  ultimately show ?thesis by (cases node) (simp_all add: validate_node_def validate_descriptor_name_iff)
qed

lemma validate_upstreams_Nil:
  "validate_upstreams current payload = [] \<longleftrightarrow>
   (\<forall>i < length payload. \<forall>u \<in> set (node_upstreams (payload ! i)). u \<in> set (map payload_name payload) \<or> known_in_current current u)"
  unfolding validate_upstreams_def concat_enumerate_Nil by (auto simp: all_set_conv_all_nth)

lemma payload_index_distinct:
  assumes "distinct (map payload_name payload)"
  shows "payload_index payload u = Some k \<longleftrightarrow> k < length payload \<and> payload_name (payload ! k) = u"
proof -
  let ?z = "zip (map payload_name payload) [0..<length payload]"
  have "distinct (map fst (rev ?z))" using assms by (simp add: rev_map [symmetric])
  then have "payload_index payload u = Some k \<longleftrightarrow> (u, k) \<in> set ?z" unfolding payload_index_def by (subst map_of_eq_Some_iff) simp_all
  also have "\<dots> \<longleftrightarrow> (\<exists>i < length payload. payload_name (payload ! i) = u \<and> i = k)" by (force simp: set_zip)
  finally show ?thesis by blast
qed

lemma validate_topological_order_Nil:
  assumes "distinct (map payload_name payload)"
  shows "validate_topological_order payload = [] \<longleftrightarrow>
    (\<forall>i < length payload. \<forall>u \<in> set (node_upstreams (payload ! i)). \<forall>k < length payload. payload_name (payload ! k) = u \<longrightarrow> k \<le> i)"
proof -
  have "(case payload_index payload u of Some k \<Rightarrow> if i < k then [x] else [] | None \<Rightarrow> []) = [] \<longleftrightarrow>
      (\<forall>k < length payload. payload_name (payload ! k) = u \<longrightarrow> k \<le> i)" for i u and x :: ValidationError
  proof (cases "payload_index payload u")
    case None
    then have "\<not> (k < length payload \<and> payload_name (payload ! k) = u)" for k using payload_index_distinct [OF assms, of u k] by simp
    then show ?thesis using None by auto
  next
    case (Some k)
    have "k' < length payload \<and> payload_name (payload ! k') = u \<longleftrightarrow> k' = k" for k'
      using payload_index_distinct [OF assms, of u k', symmetric] by (simp only: Some option.inject eq_commute)
    then have "(\<forall>k'. k' < length payload \<and> payload_name (payload ! k') = u \<longrightarrow> k' \<le> i) \<longleftrightarrow> k \<le> i" by simp
    then show ?thesis by (simp add: Some not_less imp_conjL)
  qed
  then show ?thesis unfolding validate_topological_order_def concat_enumerate_Nil by (simp add: all_set_conv_all_nth)
qed

lemma adjacency_other:
  "\<forall>d. NDerivation d \<in> set payload \<longrightarrow> der_name d \<noteq> u \<Longrightarrow> map_of (fold add_edges payload adj) u = map_of adj u"
proof (induction payload arbitrary: adj)
  case (Cons node payload)
  then have "map_of (add_edges node adj) u = map_of adj u" by (cases node) (auto simp: update_conv')
  then show ?case using Cons by simp
qed simp

lemma adjacency_payload:
  "distinct (map payload_name payload) \<Longrightarrow> NDerivation d \<in> set payload \<Longrightarrow> map_of (fold add_edges payload adj) (der_name d) = Some (upstreams d)"
proof (induction payload arbitrary: adj)
  case (Cons node payload)
  show ?case
  proof (cases "node = NDerivation d")
    case True
    then have "\<forall>e. NDerivation e \<in> set payload \<longrightarrow> der_name e \<noteq> der_name d" using Cons.prems(1) by (force simp: image_iff)
    then show ?thesis using adjacency_other [of payload "der_name d"] True by (simp add: update_conv')
  next
    case False
    then show ?thesis using Cons by simp
  qed
qed simp

lemma edges_depends:
  assumes "distinct (map payload_name payload)"
  shows "edges (adjacency_of current payload) = depends current payload"
proof -
  have "map_of (map (\<lambda>(name, d). (name, upstreams d)) (derivations current)) u = map_option upstreams (map_of (derivations current) u)" for u
    by (simp add: map_of_map)
  then have other: "map_of (adjacency_of current payload) u = map_option upstreams (map_of (derivations current) u)"
    if "\<forall>d. NDerivation d \<in> set payload \<longrightarrow> der_name d \<noteq> u" for u
    using adjacency_other [OF that] by (simp add: adjacency_of_def)
  have mine: "map_of (adjacency_of current payload) (der_name d) = Some (upstreams d)" if "NDerivation d \<in> set payload" for d
    using adjacency_payload [OF assms that] by (simp add: adjacency_of_def)
  have "v \<in> set (neighbors (adjacency_of current payload) u) \<longleftrightarrow> (u, v) \<in> depends current payload" for u v
  proof (cases "\<exists>d. NDerivation d \<in> set payload \<and> der_name d = u")
    case True
    then obtain d where d: "NDerivation d \<in> set payload" "der_name d = u" by blast
    then have "neighbors (adjacency_of current payload) u = upstreams d" using mine [OF d(1)] by (simp add: neighbors_def)
    moreover have "upstreams e = upstreams d" if "NDerivation e \<in> set payload" "der_name e = u" for e
      using mine [OF that(1)] mine [OF d(1)] d(2) that(2) by simp
    moreover have "(u, v) \<in> depends current payload \<longleftrightarrow> (\<exists>e. NDerivation e \<in> set payload \<and> der_name e = u \<and> v \<in> set (upstreams e))"
      using d by (auto simp: depends_def)
    ultimately show ?thesis using d by metis
  next
    case False
    then show ?thesis using other [of u] by (cases "map_of (derivations current) u") (auto simp: depends_def neighbors_def)
  qed
  then show ?thesis by (auto simp: edges_def)
qed

lemma hash_order_edges:
  assumes "\<And>ks. set (hash_order ks) = set ks"
  shows "validate_acyclicity hash_order current payload = [] \<longleftrightarrow> acyclic (edges (adjacency_of current payload))"
  using find_cycle_correct(1) [of "hash_order (map fst (adjacency_of current payload))" "adjacency_of current payload"] assms
  by (auto simp: validate_acyclicity_def Let_def split: option.splits)

text \<open>In an acyclic payload without duplicate names, rules 5 and 8 of a node say that its upstreams come before it or
  are descriptors of the registry that the payload does not replace.\<close>

lemma upstream_position:
  assumes "distinct (map payload_name payload)" and "acyclic (depends current payload)" and "i < length payload" and "u \<in> set (node_upstreams (payload ! i))"
  shows "(u \<in> set (map payload_name payload) \<or> known_in_current current u) \<and> (\<forall>k < length payload. payload_name (payload ! k) = u \<longrightarrow> k \<le> i) \<longleftrightarrow>
      u \<in> set (map payload_name (take i payload)) \<or> u \<notin> set (map payload_name payload) \<and> known_in_current current u"
proof (cases "u \<in> set (map payload_name payload)")
  case True
  have pos: "u \<in> set (map payload_name (take i payload)) \<longleftrightarrow> (\<exists>k < i. k < length payload \<and> payload_name (payload ! k) = u)"
    by (force simp: in_set_conv_nth)
  obtain k where k: "k < length payload" "payload_name (payload ! k) = u" using True by (auto simp: in_set_conv_nth)
  have uniq: "j = k" if "j < length payload" "payload_name (payload ! j) = u" for j
    using assms(1) nth_eq_iff_index_eq [of "map payload_name payload" j k] that k by simp
  have "k \<noteq> i"
    using assms(2-4) k(2) nth_mem [OF assms(3)] unfolding acyclic_def depends_def by (cases "payload ! i") (fastforce dest: r_into_trancl')+
  with uniq show ?thesis using True k unfolding pos by (metis le_neq_implies_less less_imp_le)
next
  case False
  then have "payload_name (payload ! k) \<noteq> u" if "k < length payload" for k using that by auto
  then show ?thesis using False by (auto dest: in_set_takeD)
qed

lemma structural_errors_ok:
  assumes "\<And>ks. set (hash_order ks) = set ks"
  shows "structural_errors hash_order current payload = [] \<longleftrightarrow> structure_ok current payload"
proof (cases "distinct (map payload_name payload)")
  case False
  then show ?thesis using uniqueness_loop_Nil [of 0 "[]" payload]
    by (simp add: structural_errors_def structure_ok_def validate_uniqueness_within_payload_def)
next
  case True
  have nodes: "concat (map (\<lambda>(i, node). validate_node i node) (enumerate 0 payload)) = [] \<longleftrightarrow>
      (\<forall>node \<in> set payload. descriptor_name_ok (payload_name node) \<and> node_ok node)"
    unfolding concat_enumerate_Nil validate_node_Nil by (simp add: all_set_conv_all_nth)
  have "structural_errors hash_order current payload = [] \<longleftrightarrow>
      (\<forall>node \<in> set payload. descriptor_name_ok (payload_name node) \<and> node_ok node) \<and>
      (\<forall>i < length payload. \<forall>u \<in> set (node_upstreams (payload ! i)).
         (u \<in> set (map payload_name payload) \<or> known_in_current current u) \<and> (\<forall>k < length payload. payload_name (payload ! k) = u \<longrightarrow> k \<le> i)) \<and>
      acyclic (depends current payload)"
    unfolding structural_errors_def append_is_Nil_conv nodes validate_upstreams_Nil validate_topological_order_Nil [OF True]
      hash_order_edges [OF assms] edges_depends [OF True]
    using True uniqueness_loop_Nil [of 0 "[]" payload] by (simp add: validate_uniqueness_within_payload_def) blast
  moreover have "(\<forall>i < length payload. \<forall>u \<in> set (node_upstreams (payload ! i)).
         (u \<in> set (map payload_name payload) \<or> known_in_current current u) \<and> (\<forall>k < length payload. payload_name (payload ! k) = u \<longrightarrow> k \<le> i)) \<longleftrightarrow>
      (\<forall>i < length payload. \<forall>u \<in> set (node_upstreams (payload ! i)).
         u \<in> set (map payload_name (take i payload)) \<or> u \<notin> set (map payload_name payload) \<and> known_in_current current u)"
    if "acyclic (depends current payload)"
    by (intro all_cong ball_cong refl upstream_position [OF True that])
  ultimately show ?thesis using True unfolding structure_ok_def by argo
qed

section \<open>Properties\<close>

text \<open>C35. The search for a cycle ends, and whatever order the hash map is iterated in, it reports
  an error exactly when the derivations of the registry and the payload depend on each other in
  a cycle; what it finds is such a cycle.\<close>

theorem acyclicity_check:
  assumes "\<And>ks. set (hash_order ks) = set ks" and "distinct (map payload_name payload)"
  shows "(validate_acyclicity hash_order current payload = [] \<longleftrightarrow> acyclic (depends current payload)) \<and>
    (\<forall>cycle. find_cycle (adjacency_of current payload) (hash_order (map fst (adjacency_of current payload))) = Some cycle \<longrightarrow>
       2 \<le> length cycle \<and> hd cycle = List.last cycle \<and>
       (\<forall>i. Suc i < length cycle \<longrightarrow> (cycle ! i, cycle ! Suc i) \<in> depends current payload))"
proof -
  have "is_cycle (adjacency_of current payload) cycle"
    if "find_cycle (adjacency_of current payload) (hash_order (map fst (adjacency_of current payload))) = Some cycle" for cycle
    using find_cycle_correct(2) [OF _ that] assms(1) by simp
  then show ?thesis
    using hash_order_edges [of hash_order current payload] assms(1) unfolding edges_depends [OF assms(2), of current] is_cycle_def is_walk_def by blast
qed

definition plain_derivation :: "string \<Rightarrow> string \<Rightarrow> PayloadNode" where
  "plain_derivation name upstream = NDerivation
     \<lparr>der_name = name, output_kind = OutEvent, upstreams = [upstream], der_ops = [],
      der_schema = \<lparr>ds_fields = [(''x'', TI64)], ds_optional_fields = []\<rparr>, table_primary_key = None, der_version = 0\<rparr>"

definition cyclic_payload :: "PayloadNode list" where
  "cyclic_payload = [plain_derivation ''A'' ''B'', plain_derivation ''B'' ''A'']"

theorem acyclicity_check_witness:
  "validate_acyclicity rev registry_default cyclic_payload = [verr RegistrationCycle ''nodes[1]''] \<and> \<not> acyclic (depends registry_default cyclic_payload)"
proof -
  have err: "validate_acyclicity rev registry_default cyclic_payload = [verr RegistrationCycle ''nodes[1]'']" by code_simp
  have "distinct (map payload_name cyclic_payload)" by code_simp
  from acyclicity_check [of rev, OF _ this, of registry_default] err show ?thesis by simp
qed

text \<open>C34. A payload passes rules 1 to 9 exactly when its names are valid and distinct, every event, table and
  derivation is well formed by itself, every upstream of a node is an earlier node of the payload or a
  descriptor of the registry that the payload does not replace, and no derivation depends on itself: installing
  the nodes in their order never meets an unknown upstream.\<close>

theorem structural_rules:
  assumes "\<And>ks. set (hash_order ks) = set ks"
  shows "structural_errors hash_order current payload = [] \<longleftrightarrow> structure_ok current payload"
  by (rule structural_errors_ok [OF assms])

definition ordered_payload :: "PayloadNode list" where
  "ordered_payload = [NEvent example_event, plain_derivation ''D'' ''E'']"

theorem structural_rules_witness:
  "structural_errors rev registry_default ordered_payload = [] \<and> structure_ok registry_default ordered_payload \<and>
   \<not> structure_ok registry_default (rev ordered_payload)"
proof -
  have "structural_errors rev registry_default ordered_payload = []" "structural_errors rev registry_default (rev ordered_payload) \<noteq> []" by code_simp+
  then show ?thesis using structural_rules [of rev registry_default] by simp
qed

end
