(* ===== verification/AggCompile.thy ===== *)
theory AggCompile
  imports RegisterRules
begin

text \<open>
  The aggregation compiler of \<open>crates/beava-core/src/agg_compile.rs\<close> (rule 11): durations,
  the parameters of a feature, the operator names, the schema that a \<open>GroupBy\<close> sees, and the
  compilation of a payload's features into aggregation descriptors, with its errors. The
  order in which the code iterates a \<open>HashMap\<close> is the parameter \<open>hash_order\<close>.

  The lemmas show what a duration means, that the operator names are exactly those with a
  memory bound, that a feature compiles exactly when it meets the rules (\<open>feature_rules\<close>), and that
  the compiled aggregations are sound and share no feature name.
\<close>

section \<open>Durations\<close>

definition strip_suffix :: "string \<Rightarrow> string \<Rightarrow> string option" where
  "strip_suffix suf s =
     (if length suf \<le> length s \<and> drop (length s - length suf) s = suf then Some (take (length s - length suf) s) else None)"

text \<open>The suffixes in the order in which they are tried.\<close>

definition duration_units :: "(string \<times> int) list" where
  "duration_units = [(''ms'', 1), (''d'', 86400000), (''h'', 3600000), (''m'', 60000), (''s'', 1000)]"

definition split_duration :: "string \<Rightarrow> (string \<times> int) option" where
  "split_duration s = first_some (\<lambda>(suf, multiplier). map_option (\<lambda>ds. (ds, multiplier)) (strip_suffix suf s)) duration_units"

definition parse_duration_to_ms :: "string \<Rightarrow> unit + u64 option" where
  "parse_duration_to_ms s =
     (if s = ''forever'' then Inr None
      else if s = [] then Inl ()
      else case split_duration s of
             None \<Rightarrow> Inl ()
           | Some (ds, multiplier) \<Rightarrow>
               if ds = [] then Inl ()
               else if \<not> list_all (\<lambda>c. digit_val c \<noteq> None) ds then Inl ()
               else case parse_nat ds of
                      None \<Rightarrow> Inl ()
                    | Some n \<Rightarrow>
                        if 2 ^ 64 \<le> int n then Inl ()
                        else if n = 0 then Inl ()
                        else if 2 ^ 64 \<le> int n * multiplier then Inl ()
                        else Inr (Some (word_of_int (int n * multiplier))))"

section \<open>Parameters\<close>

record AggParams =
  ap_field :: "string option"
  ap_window :: "string option"
  where_str :: "string option"
  ap_n :: "nat option"
  ap_half_life_ms :: "u64 option"
  ap_sub_window_ms :: "u64 option"
  ap_sigma :: "f64 option"
  half_life_invalid :: bool
  sub_window_invalid :: bool
  ap_sketch_params :: "SketchParams option"
  ap_ext :: AggExtParams

definition or_else :: "'a option \<Rightarrow> 'a option \<Rightarrow> 'a option" where
  "or_else x y = (case x of Some _ \<Rightarrow> x | None \<Rightarrow> y)"

definition duration_param :: "Json option \<Rightarrow> u64 option \<times> bool" where
  "duration_param v =
     (case Option.bind v json_str of
        Some s \<Rightarrow> (case parse_duration_to_ms s of Inr (Some ms) \<Rightarrow> if ms > 0 then (Some ms, False) else (None, True) | _ \<Rightarrow> (None, True))
      | None \<Rightarrow> (None, False))"

definition bucket_value :: "Json \<Rightarrow> f64 option" where
  "bucket_value x = or_else (json_f64 x) (case x of JNumber (Some n) _ \<Rightarrow> Some (f64_of_int n) | _ \<Rightarrow> None)"

definition extract_sketch_params :: "Json \<Rightarrow> SketchParams option" where
  "extract_sketch_params params =
     (let get = (\<lambda>k. json_get k params);
          q = Option.bind (get ''q'') json_f64;
          k = Option.bind (get ''k'') json_as_u64;
          capacity = Option.bind (or_else (get ''expected_n'') (get ''capacity'')) json_as_u64;
          fpr = Option.bind (or_else (get ''target_fpr'') (get ''fpr'')) json_f64
      in if q \<noteq> None \<or> k \<noteq> None \<or> capacity \<noteq> None \<or> fpr \<noteq> None
         then Some \<lparr>percentile_q = q, top_k_k = k, bloom_capacity = capacity, bloom_fpr = fpr\<rparr> else None)"

definition extract_ext_params :: "Json \<Rightarrow> AggExtParams" where
  "extract_ext_params params =
     (let get = (\<lambda>k. json_get k params) in
      \<lparr>ext_buckets = map_option (List.map_filter bucket_value) (Option.bind (get ''buckets'') json_array),
       ext_n = Option.bind (get ''n'') json_as_u64,
       ext_k = Option.bind (get ''k'') json_as_u64,
       ext_precision = map_option (\<lambda>n. nat (int n mod 2 ^ 32)) (Option.bind (get ''precision'') json_as_u64),
       ext_lat_field = Option.bind (or_else (get ''lat_field'') (get ''lat'')) json_str,
       ext_lon_field = Option.bind (or_else (get ''lon_field'') (get ''lon'')) json_str,
       ext_samples = Option.bind (get ''samples'') json_as_u64,
       ext_categories = map_option (List.map_filter json_str) (Option.bind (get ''categories'') json_array),
       max_categories = Option.bind (get ''max_categories'') json_as_u64,
       ext_lat_idx = FIELD_IDX_NONE, ext_lon_idx = FIELD_IDX_NONE\<rparr>)"

definition extract_agg_params :: "Json \<Rightarrow> AggParams" where
  "extract_agg_params params =
     (let get = (\<lambda>k. json_get k params);
          (half_life, hl_invalid) = duration_param (get ''half_life'');
          (sub_window, sw_invalid) = duration_param (get ''sub_window'')
      in \<lparr>ap_field = Option.bind (get ''field'') json_str, ap_window = Option.bind (get ''window'') json_str,
          where_str = Option.bind (get ''where'') json_str,
          ap_n = Option.bind (Option.bind (get ''n'') json_as_u64) (\<lambda>n. if int n < 2 ^ 32 then Some n else None),
          ap_half_life_ms = half_life, ap_sub_window_ms = sub_window, ap_sigma = Option.bind (get ''sigma'') json_f64,
          half_life_invalid = hl_invalid, sub_window_invalid = sw_invalid,
          ap_sketch_params = extract_sketch_params params, ap_ext = extract_ext_params params\<rparr>)"

section \<open>Operators\<close>

definition agg_kind_names :: "(string \<times> AggKind) list" where
  "agg_kind_names =
     [(''count'', KCount), (''sum'', KSum), (''mean'', KAvg), (''min'', KMin), (''max'', KMax), (''var'', KVariance), (''std'', KStdDev),
      (''ratio'', KRatio), (''first'', KFirst), (''last'', KLast), (''first_n'', KFirstN), (''last_n'', KLastN), (''lag'', KLag),
      (''first_seen'', KFirstSeen), (''last_seen'', KLastSeen), (''age'', KAge), (''has_seen'', KHasSeen), (''time_since'', KTimeSince),
      (''time_since_last_n'', KTimeSinceLastN), (''streak'', KStreak), (''max_streak'', KMaxStreak), (''negative_streak'', KNegativeStreak),
      (''first_seen_in_window'', KFirstSeenInWindow), (''ewma'', KEwma), (''ema'', KEwma), (''ewvar'', KEwVar), (''ew_zscore'', KEwZScore),
      (''decayed_sum'', KDecayedSum), (''decayed_count'', KDecayedCount), (''twa'', KTwa), (''rate_of_change'', KRateOfChange),
      (''inter_arrival_stats'', KInterArrivalStats), (''burst_count'', KBurstCount), (''delta_from_prev'', KDeltaFromPrev), (''trend'', KTrend),
      (''trend_residual'', KTrendResidual), (''outlier_count'', KOutlierCount), (''value_change_count'', KValueChangeCount), (''z_score'', KZScore),
      (''n_unique'', KCountDistinct), (''quantile'', KPercentile), (''top_k'', KTopK), (''bloom_member'', KBloomMember), (''entropy'', KEntropy),
      (''histogram'', KHistogram), (''hour_of_day_histogram'', KHourOfDayHistogram), (''dow_hour_histogram'', KDowHourHistogram),
      (''seasonal_deviation'', KSeasonalDeviation), (''event_type_mix'', KEventTypeMix), (''most_recent_n'', KMostRecentN),
      (''reservoir_sample'', KReservoirSample), (''geo_velocity'', KGeoVelocity), (''geo_distance'', KGeoDistance), (''geo_spread'', KGeoSpread),
      (''distance_from_home'', KDistanceFromHome)]"

definition parse_agg_kind :: "string \<Rightarrow> AggKind option" where
  "parse_agg_kind op = map_of agg_kind_names op"

definition agg_kind_requires_n :: "AggKind \<Rightarrow> bool" where
  "agg_kind_requires_n kind \<longleftrightarrow> kind \<in> {KFirstN, KLastN, KLag, KTimeSinceLastN}"

definition agg_kind_requires_field :: "AggKind \<Rightarrow> bool" where
  "agg_kind_requires_field kind \<longleftrightarrow> kind \<in> {KFirst, KLast, KFirstN, KLastN, KLag}"

definition agg_kind_rejects_window :: "AggKind \<Rightarrow> bool" where
  "agg_kind_rejects_window kind \<longleftrightarrow>
     kind \<in> {KFirst, KLast, KFirstN, KLastN, KLag, KFirstSeen, KLastSeen, KAge, KHasSeen, KTimeSince, KTimeSinceLastN, KStreak, KMaxStreak,
             KNegativeStreak, KHistogram, KHourOfDayHistogram, KDowHourHistogram, KSeasonalDeviation, KEventTypeMix, KMostRecentN,
             KReservoirSample, KGeoVelocity, KGeoDistance, KGeoSpread, KDistanceFromHome}"

definition needs_field :: "AggKind \<Rightarrow> bool" where
  "needs_field kind \<longleftrightarrow>
     kind \<in> {KSum, KAvg, KMin, KMax, KVariance, KStdDev, KEwma, KEwVar, KEwZScore, KDecayedSum, KTwa, KRateOfChange, KDeltaFromPrev, KTrend,
             KTrendResidual, KOutlierCount, KValueChangeCount, KZScore, KCountDistinct, KPercentile, KTopK, KBloomMember, KEntropy} \<or>
     agg_kind_requires_field kind"

section \<open>One feature\<close>

abbreviation schema_has :: "Schema \<Rightarrow> string \<Rightarrow> bool" where
  "schema_has sch f \<equiv> f \<in> fst ` set (sch_fields sch)"

definition open_unit :: "f64 \<Rightarrow> bool" where
  "open_unit x \<longleftrightarrow> f64_lt (Fin 0) x \<and> f64_lt x (Fin 1)"

definition sketch_errors :: "(ErrorCode \<Rightarrow> string \<Rightarrow> ValidationError) \<Rightarrow> AggKind \<Rightarrow> AggParams \<Rightarrow> ValidationError list" where
  "sketch_errors bad kind params =
     (let sp = ap_sketch_params params in
      if kind = KBloomMember then
        (if ap_window params \<noteq> None then [bad WindowNotSupported ''.params.window''] else []) @
        (case Option.bind sp bloom_fpr of Some fpr \<Rightarrow> if open_unit fpr then [] else [bad InvalidBloomFpr ''.params.target_fpr''] | None \<Rightarrow> [])
      else if kind = KPercentile then
        (case Option.bind sp percentile_q of Some q \<Rightarrow> if open_unit q then [] else [bad InvalidPercentileQ ''.params.q''] | None \<Rightarrow> [])
      else if kind = KTopK then
        (case Option.bind sp top_k_k of Some k \<Rightarrow> if 0 < k \<and> k \<le> 1024 then [] else [bad InvalidTopKK ''.params.k''] | None \<Rightarrow> [])
      else [])"

definition window_param :: "AggParams \<Rightarrow> unit + u64 option" where
  "window_param params = (case ap_window params of None \<Rightarrow> Inr None | Some w \<Rightarrow> parse_duration_to_ms w)"

text \<open>The predicate, parsed and checked against the schema; a missing field is an error of its own.\<close>

definition where_param :: "libm \<Rightarrow> Schema \<Rightarrow> (ErrorCode \<Rightarrow> string \<Rightarrow> ValidationError) \<Rightarrow> AggParams \<Rightarrow> ValidationError list + expr option" where
  "where_param lm sch bad params =
     (case where_str params of
        None \<Rightarrow> Inr None
      | Some s \<Rightarrow>
          (case expr_parse lm s of
             Inl _ \<Rightarrow> Inl [bad AggregationInvalidWhere ''.params.where'']
           | Inr e \<Rightarrow>
               (let missing = {f \<in> referenced_fields e. \<not> schema_has sch f} in
                if missing = {} then Inr (Some e) else Inl (replicate (card missing) (bad AggregationInvalidWhere ''.params.where'')))))"

definition make_feature :: "string \<Rightarrow> AggKind \<Rightarrow> AggParams \<Rightarrow> u64 option \<Rightarrow> expr option \<Rightarrow> NamedAggOp" where
  "make_feature name kind params win_ms wh =
     \<lparr>feature_name = name,
      descriptor =
        \<lparr>desc_kind = kind, desc_field = ap_field params, desc_window_ms = win_ms, where_expr = wh, desc_n = ap_n params,
         half_life_ms = ap_half_life_ms params, sub_window_ms = ap_sub_window_ms params, desc_sigma = ap_sigma params,
         sketch_params = ap_sketch_params params, desc_ext = ap_ext params, field_idx = FIELD_IDX_NONE, field_idx_into_event_extracted = []\<rparr>\<rparr>"

text \<open>The first check that fails before the sketch parameters are looked at.\<close>

definition first_failure :: "Schema \<Rightarrow> string list \<Rightarrow> string \<Rightarrow> AggKind \<Rightarrow> AggParams \<Rightarrow> (ErrorCode \<times> string) option" where
  "first_failure sch gkeys name kind params =
     (if name \<in> set gkeys then Some (AggregationGroupKeyCollidesWithFeature, '''')
      else if requires_half_life kind \<and> (ap_half_life_ms params = None \<or> half_life_invalid params) then Some (AggregationInvalidHalfLife, ''.params.half_life'')
      else if kind = KBurstCount \<and> (ap_sub_window_ms params = None \<or> sub_window_invalid params) then Some (AggregationInvalidSubWindow, ''.params.sub_window'')
      else if needs_field kind \<and> (case ap_field params of None \<Rightarrow> agg_kind_requires_field kind | Some f \<Rightarrow> \<not> schema_has sch f)
        then Some (AggregationUnknownField, ''.params.field'')
      else if agg_kind_requires_n kind \<and> (case ap_n params of None \<Rightarrow> True | Some n \<Rightarrow> n = 0 \<or> n > 1024) then Some (AggregationUnknownField, ''.params.n'')
      else if agg_kind_rejects_window kind \<and> ap_window params \<noteq> None then Some (AggregationInvalidWindow, ''.params.window'')
      else if kind = KFirstSeenInWindow \<and> ap_window params = None then Some (AggregationInvalidWindow, ''.params.window'')
      else None)"

definition compile_feature ::
    "libm \<Rightarrow> Schema \<Rightarrow> string list \<Rightarrow> (string \<Rightarrow> string) \<Rightarrow> string \<times> AggSpec \<Rightarrow> ValidationError list + NamedAggOp" where
  "compile_feature lm sch gkeys loc entry =
     (let (name, spec) = entry; params = extract_agg_params (spec_params spec); bad = (\<lambda>code suffix. verr code (loc (name @ suffix))) in
      case parse_agg_kind (spec_op spec) of
        None \<Rightarrow> Inl [bad AggregationUnknownOp ''.op'']
      | Some kind \<Rightarrow>
          (case first_failure sch gkeys name kind params of
             Some (code, suffix) \<Rightarrow> Inl [bad code suffix]
           | None \<Rightarrow>
               if sketch_errors bad kind params \<noteq> [] then Inl (sketch_errors bad kind params)
               else case window_param params of
                      Inl _ \<Rightarrow> Inl [bad AggregationInvalidWindow ''.params.window'']
                    | Inr win_ms \<Rightarrow>
                        if agg_kind_rejects_window kind \<and> win_ms \<noteq> None then Inl [bad AggregationInvalidWindow ''.params.window'']
                        else map_sum id (make_feature name kind params win_ms) (where_param lm sch bad params)))"

section \<open>The schema of a source\<close>

definition payload_find :: "string \<Rightarrow> PayloadNode list \<Rightarrow> PayloadNode option" where
  "payload_find name nodes = List.find (\<lambda>n. payload_name n = name) nodes"

definition derived_or_propagated :: "(string \<times> DerivedSchema) list \<Rightarrow> DerivationDescriptor \<Rightarrow> Schema" where
  "derived_or_propagated propagated d = from_derived (case map_of propagated (der_name d) of Some s \<Rightarrow> s | None \<Rightarrow> der_schema d)"

definition registry_schema :: "RegistryInner \<Rightarrow> string \<Rightarrow> Schema option" where
  "registry_schema registry name =
     (case map_of (reg_events registry) name of
        Some e \<Rightarrow> Some (from_event (ev_schema e))
      | None \<Rightarrow>
          (case map_of (reg_tables registry) name of
             Some t \<Rightarrow> Some (from_table (tab_schema t))
           | None \<Rightarrow> map_option (\<lambda>d. from_derived (der_schema d)) (map_of (derivations registry) name)))"

definition resolve_bare_upstream_schema ::
    "PayloadNode list \<Rightarrow> RegistryInner \<Rightarrow> (string \<times> DerivedSchema) list \<Rightarrow> string \<Rightarrow> Schema option" where
  "resolve_bare_upstream_schema nodes registry propagated name =
     (case payload_find name nodes of
        Some (NEvent e) \<Rightarrow> Some (from_event (ev_schema e))
      | Some (NTable t) \<Rightarrow> Some (from_table (tab_schema t))
      | Some (NDerivation d) \<Rightarrow> Some (derived_or_propagated propagated d)
      | None \<Rightarrow> registry_schema registry name)"

text \<open>The fields that the event derivations of the payload with this source alone add to it.\<close>

fun add_sibling :: "string \<Rightarrow> PayloadNode \<Rightarrow> Schema \<Rightarrow> Schema" where
  "add_sibling name (NDerivation d) sch =
     (if output_kind d \<noteq> OutEvent \<or> upstreams d \<noteq> [name] then sch
      else sch\<lparr>sch_fields := fold (\<lambda>(f, t). btree_insert f t) (ds_fields (der_schema d)) (sch_fields sch)\<rparr>)"
| "add_sibling name _ sch = sch"

definition resolve_upstream_schema_for_agg ::
    "PayloadNode list \<Rightarrow> RegistryInner \<Rightarrow> (string \<times> DerivedSchema) list \<Rightarrow> string \<Rightarrow> Schema option" where
  "resolve_upstream_schema_for_agg nodes registry propagated name =
     (let unioned = (\<lambda>e. Some (fold (add_sibling name) nodes (from_event (ev_schema e)))) in
      case payload_find name nodes of
        Some (NEvent e) \<Rightarrow> unioned e
      | Some (NTable t) \<Rightarrow> Some (from_table (tab_schema t))
      | Some (NDerivation d) \<Rightarrow> Some (derived_or_propagated propagated d)
      | None \<Rightarrow>
          (case map_of (reg_events registry) name of
             Some e \<Rightarrow> unioned e
           | None \<Rightarrow> registry_schema registry name))"

definition is_table_node :: "string \<Rightarrow> PayloadNode \<Rightarrow> bool" where
  "is_table_node name n =
     (case n of NTable t \<Rightarrow> tab_name t = name | NDerivation d \<Rightarrow> der_name d = name \<and> output_kind d = OutTable | NEvent _ \<Rightarrow> False)"

definition upstream_is_table :: "PayloadNode list \<Rightarrow> RegistryInner \<Rightarrow> string \<Rightarrow> bool" where
  "upstream_is_table nodes registry name \<longleftrightarrow>
     map_of (reg_tables registry) name \<noteq> None \<or>
     (case map_of (derivations registry) name of Some d \<Rightarrow> output_kind d = OutTable | None \<Rightarrow> False) \<or>
     list_ex (is_table_node name) nodes"

fun is_group_by :: "OpNode \<Rightarrow> bool" where
  "is_group_by (OpGroupBy _ _) = True"
| "is_group_by _ = False"

text \<open>The schema behind the operators in front of a \<open>GroupBy\<close>; \<open>None\<close> leaves the operator out.\<close>

definition group_by_schema ::
    "libm \<Rightarrow> PayloadNode list \<Rightarrow> RegistryInner \<Rightarrow> (string \<times> DerivedSchema) list \<Rightarrow> string \<Rightarrow> OpNode list \<Rightarrow> Schema option" where
  "group_by_schema lm nodes registry propagated name before =
     (let prefix_ops = filter (\<lambda>op. \<not> is_group_by op) before in
      if prefix_ops = [] then resolve_upstream_schema_for_agg nodes registry propagated name
      else case resolve_bare_upstream_schema nodes registry propagated name of
             None \<Rightarrow> None
           | Some bare \<Rightarrow> (case propagate_schema lm bare prefix_ops of Inl _ \<Rightarrow> None | Inr (final, _) \<Rightarrow> Some final))"

section \<open>Payloads\<close>

definition key_errors :: "nat \<Rightarrow> nat \<Rightarrow> Schema \<Rightarrow> string list \<Rightarrow> ValidationError list" where
  "key_errors node_idx op_idx sch gkeys =
     concat (map (\<lambda>(j, key).
       if map_of (sch_fields sch) key = None \<or> map_of (sch_fields sch) key = Some TF64
       then [verr AggregationUnknownField (path_field node_idx (path_elem ''ops'' op_idx @ ''.'' @ path_elem ''group_by'' j))] else [])
       (enumerate 0 gkeys))"

definition feature_path :: "nat \<Rightarrow> nat \<Rightarrow> string \<Rightarrow> string" where
  "feature_path node_idx op_idx suffix = path_field node_idx (path_elem ''ops'' op_idx @ ''.agg.'' @ suffix)"

type_synonym compiled_aggs = "(string \<times> AggregationDescriptor) list"

definition errors_of :: "('e list + 'a) list \<Rightarrow> 'e list" where
  "errors_of rs = concat (map (\<lambda>r. case r of Inl es \<Rightarrow> es | Inr _ \<Rightarrow> []) rs)"

definition values_of :: "('e + 'a) list \<Rightarrow> 'a list" where
  "values_of rs = List.map_filter (\<lambda>r. case r of Inl _ \<Rightarrow> None | Inr x \<Rightarrow> Some x) rs"

definition compile_group_by ::
    "libm \<Rightarrow> PayloadNode list \<Rightarrow> RegistryInner \<Rightarrow> (string \<times> DerivedSchema) list \<Rightarrow> nat \<Rightarrow> DerivationDescriptor \<Rightarrow> nat \<Rightarrow>
     string list \<Rightarrow> (string \<times> AggSpec) list \<Rightarrow> compiled_aggs \<times> ValidationError list" where
  "compile_group_by lm nodes registry propagated node_idx d op_idx gkeys agg_map =
     (case upstreams d of
        [] \<Rightarrow> ([], [verr AggregationOnTableNotSupported (path_field node_idx ''upstreams'')])
      | upstream # _ \<Rightarrow>
          if upstream_is_table nodes registry upstream
          then ([], [verr AggregationOnTableNotSupported (path_field node_idx ''upstreams[0]'')])
          else case group_by_schema lm nodes registry propagated upstream (take op_idx (der_ops d)) of
                 None \<Rightarrow> ([], [])
               | Some sch \<Rightarrow>
                   (let feats = map (compile_feature lm sch gkeys (feature_path node_idx op_idx)) agg_map;
                        es = key_errors node_idx op_idx sch gkeys @ errors_of feats
                    in (if es = []
                        then [(der_name d, \<lparr>node_name = der_name d, source_node_name = upstream, group_keys = gkeys, features = values_of feats,
                                            agg_id = 0, field_names = [], cluster_id = 0\<rparr>)]
                        else [], es)))"

definition compile_op_aggs ::
    "libm \<Rightarrow> PayloadNode list \<Rightarrow> RegistryInner \<Rightarrow> (string \<times> DerivedSchema) list \<Rightarrow> nat \<Rightarrow> DerivationDescriptor \<Rightarrow> nat \<times> OpNode \<Rightarrow>
     compiled_aggs \<times> ValidationError list" where
  "compile_op_aggs lm nodes registry propagated node_idx d iop =
     (case snd iop of OpGroupBy gkeys agg_map \<Rightarrow> compile_group_by lm nodes registry propagated node_idx d (fst iop) gkeys agg_map | _ \<Rightarrow> ([], []))"

definition compile_node_aggs ::
    "libm \<Rightarrow> PayloadNode list \<Rightarrow> RegistryInner \<Rightarrow> (string \<times> DerivedSchema) list \<Rightarrow> nat \<times> PayloadNode \<Rightarrow> (compiled_aggs \<times> ValidationError list) list" where
  "compile_node_aggs lm nodes registry propagated inode =
     (case snd inode of
        NDerivation d \<Rightarrow> map (compile_op_aggs lm nodes registry propagated (fst inode) d) (enumerate 0 (der_ops d))
      | _ \<Rightarrow> [])"

text \<open>The names of all features, with the first aggregation that defines each.\<close>

definition collision :: "string \<Rightarrow> string \<Rightarrow> ValidationError" where
  "collision node feature = verr AggregationFeatureNameCollisionAcrossAggregations (''nodes.'' @ node @ ''.features.'' @ feature)"

fun new_features :: "(string \<times> string) list \<Rightarrow> (string \<times> string) list \<Rightarrow> (string \<times> string) list \<times> ValidationError list" where
  "new_features [] seen = (seen, [])"
| "new_features ((feature, node) # rest) seen =
     (case map_of seen feature of
        Some existing \<Rightarrow>
          (let (seen', es) = new_features rest seen in (seen', (if existing \<noteq> node then [collision node feature] else []) @ es))
      | None \<Rightarrow> new_features rest (seen @ [(feature, node)]))"

definition feature_owners :: "compiled_aggs \<Rightarrow> (string \<times> string) list" where
  "feature_owners compiled = concat (map (\<lambda>(node, agg). map (\<lambda>f. (feature_name f, node)) (features agg)) compiled)"

definition collision_errors :: "(string list \<Rightarrow> string list) \<Rightarrow> RegistryInner \<Rightarrow> compiled_aggs \<Rightarrow> ValidationError list" where
  "collision_errors hash_order registry compiled =
     (let (seen, es) = new_features (feature_owners compiled) [] in
      es @ concat (map (\<lambda>feature.
        case (map_of seen feature, map_of (feature_index registry) feature) of
          (Some node, Some (existing, _)) \<Rightarrow> if existing \<noteq> node then [collision node feature] else []
        | _ \<Rightarrow> []) (hash_order (map fst seen))))"

definition compile_aggregations_from_nodes ::
    "libm \<Rightarrow> (string list \<Rightarrow> string list) \<Rightarrow> PayloadNode list \<Rightarrow> RegistryInner \<Rightarrow> (string \<times> DerivedSchema) list \<Rightarrow> compiled_aggs \<times> ValidationError list" where
  "compile_aggregations_from_nodes lm hash_order nodes registry propagated =
     (let rs = concat (map (compile_node_aggs lm nodes registry propagated) (enumerate 0 nodes));
          compiled = concat (map fst rs); es = concat (map snd rs)
      in (compiled, if es = [] \<and> compiled \<noteq> [] then collision_errors hash_order registry compiled else es))"

section \<open>Durations, proved\<close>

lemma strip_suffix_iff: "strip_suffix suf s = Some p \<longleftrightarrow> s = p @ suf"
proof
  assume "strip_suffix suf s = Some p"
  then have "drop (length s - length suf) s = suf" "take (length s - length suf) s = p" by (auto simp: strip_suffix_def split: if_splits)
  then show "s = p @ suf" by (metis append_take_drop_id)
qed (simp add: strip_suffix_def)

lemma strip_suffix_None: "strip_suffix suf s = None \<longleftrightarrow> (\<forall>p. s \<noteq> p @ suf)"
  by (metis not_None_eq strip_suffix_iff option.distinct(1))

lemma first_some_SomeD: "first_some f xs = Some y \<Longrightarrow> \<exists>x \<in> set xs. f x = Some y"
  by (induction xs) (auto simp: first_some_def List.map_filter_simps split: option.splits)

lemma parse_digits_digits: "parse_digits acc ds = Some n \<Longrightarrow> list_all (\<lambda>c. digit_val c \<noteq> None) ds"
  by (induction ds arbitrary: acc) (auto split: option.splits)

lemma parse_nat_digits: "parse_nat ds = Some n \<Longrightarrow> ds \<noteq> [] \<and> list_all (\<lambda>c. digit_val c \<noteq> None) ds"
  using parse_digits_digits by (auto simp: parse_nat_def split: if_splits)

lemma split_duration_unit:
  assumes "(suf, multiplier) \<in> set duration_units" and "list_all (\<lambda>c. digit_val c \<noteq> None) ds"
  shows "split_duration (ds @ suf) = Some (ds, multiplier)"
proof -
  have m: "\<forall>p. ds \<noteq> p @ ''m''" using assms(2) by (auto simp: digit_val_def)
  have ms: "strip_suffix ''ms'' (ds @ ''s'') = None" unfolding strip_suffix_None using m by simp
  have other: "strip_suffix [c] (ds @ [c']) = None" if "c \<noteq> c'" for c c' using that unfolding strip_suffix_None by simp
  have two: "strip_suffix [c, c2] (ds @ [c']) = None" if "c2 \<noteq> c'" for c c2 c' using that unfolding strip_suffix_None by (simp add: append_eq_append_conv2)
  have same: "strip_suffix suf (ds @ suf) = Some ds" by (simp add: strip_suffix_iff)
  show ?thesis
    using assms(1) same ms other two
    by (auto simp: duration_units_def split_duration_def first_some_def List.map_filter_simps)
qed

section \<open>Compiled aggregations, proved\<close>

lemma errors_of_Nil: "errors_of rs = [] \<Longrightarrow> r \<in> set rs \<Longrightarrow> r = Inl es \<Longrightarrow> es = []"
  by (auto simp: errors_of_def)

text \<open>The rules of a feature, independent of the order of the checks: what its name, its operator and
  its parameters have to satisfy, and the window and predicate they stand for.\<close>

definition feature_rules ::
    "libm \<Rightarrow> Schema \<Rightarrow> string list \<Rightarrow> string \<Rightarrow> AggKind \<Rightarrow> AggParams \<Rightarrow> u64 option \<Rightarrow> expr option \<Rightarrow> bool" where
  "feature_rules lm sch gkeys name kind params win_ms wh \<longleftrightarrow>
     name \<notin> set gkeys \<and>
     (needs_field kind \<longrightarrow> (case ap_field params of None \<Rightarrow> \<not> agg_kind_requires_field kind | Some f \<Rightarrow> schema_has sch f)) \<and>
     (requires_half_life kind \<longrightarrow> (\<exists>ms > 0. ap_half_life_ms params = Some ms)) \<and>
     (kind = KBurstCount \<longrightarrow> (\<exists>ms > 0. ap_sub_window_ms params = Some ms)) \<and>
     (agg_kind_requires_n kind \<longrightarrow> (\<exists>n. ap_n params = Some n \<and> 1 \<le> n \<and> n \<le> 1024)) \<and>
     (agg_kind_rejects_window kind \<or> kind = KBloomMember \<longrightarrow> ap_window params = None) \<and>
     (kind = KFirstSeenInWindow \<longrightarrow> ap_window params \<noteq> None) \<and>
     (kind = KBloomMember \<longrightarrow> (\<forall>fpr. Option.bind (ap_sketch_params params) bloom_fpr = Some fpr \<longrightarrow> open_unit fpr)) \<and>
     (kind = KPercentile \<longrightarrow> (\<forall>q. Option.bind (ap_sketch_params params) percentile_q = Some q \<longrightarrow> open_unit q)) \<and>
     (kind = KTopK \<longrightarrow> (\<forall>k. Option.bind (ap_sketch_params params) top_k_k = Some k \<longrightarrow> 1 \<le> k \<and> k \<le> 1024)) \<and>
     (case ap_window params of None \<Rightarrow> win_ms = None | Some w \<Rightarrow> parse_duration_to_ms w = Inr win_ms) \<and>
     (case where_str params of
        None \<Rightarrow> wh = None
      | Some s \<Rightarrow> (\<exists>e. expr_parse lm s = Inr e \<and> referenced_fields e \<subseteq> fst ` set (sch_fields sch) \<and> wh = Some e))"

text \<open>A requested feature and the descriptor the rules give it.\<close>

definition feature_checked :: "libm \<Rightarrow> Schema \<Rightarrow> string list \<Rightarrow> string \<times> AggSpec \<Rightarrow> NamedAggOp \<Rightarrow> bool" where
  "feature_checked lm sch gkeys entry feat \<longleftrightarrow>
     (\<exists>kind win_ms wh. parse_agg_kind (spec_op (snd entry)) = Some kind \<and>
        feature_rules lm sch gkeys (fst entry) kind (extract_agg_params (spec_params (snd entry))) win_ms wh \<and>
        feat = make_feature (fst entry) kind (extract_agg_params (spec_params (snd entry))) win_ms wh)"

lemma uint_small: "0 \<le> x \<Longrightarrow> x < 2 ^ 64 \<Longrightarrow> uint (word_of_int x :: u64) = x"
  by (simp add: uint_word_of_int)

lemma parse_duration_positive: "parse_duration_to_ms s = Inr (Some ms) \<Longrightarrow> ms \<noteq> 0"
proof -
  assume p: "parse_duration_to_ms s = Inr (Some ms)"
  then obtain ds multiplier n where c: "split_duration s = Some (ds, multiplier)" "parse_nat ds = Some n" "n \<noteq> 0" "int n * multiplier < 2 ^ 64"
    "ms = word_of_int (int n * multiplier)"
    by (auto simp: parse_duration_to_ms_def split: if_splits option.splits)
  then have "0 < multiplier" using first_some_SomeD [OF c(1) [unfolded split_duration_def]] by (auto simp: duration_units_def)
  then have "0 < int n * multiplier" using c(3) by simp
  then have "uint ms = int n * multiplier" unfolding c(5) using c(4) by (intro uint_small) simp_all
  with \<open>0 < int n * multiplier\<close> show "ms \<noteq> 0" by auto
qed

lemma duration_param_positive: "duration_param v = (Some ms, b) \<Longrightarrow> 0 < ms \<and> \<not> b"
  by (auto simp: duration_param_def split: option.splits sum.splits if_splits)

lemma extract_durations:
  "ap_half_life_ms (extract_agg_params j) = Some ms \<Longrightarrow> 0 < ms \<and> \<not> half_life_invalid (extract_agg_params j)"
  "ap_sub_window_ms (extract_agg_params j) = Some ms \<Longrightarrow> 0 < ms \<and> \<not> sub_window_invalid (extract_agg_params j)"
  using duration_param_positive by (auto simp: extract_agg_params_def Let_def split: prod.splits)

lemma ext_unresolved: "ext_lat_idx (ap_ext (extract_agg_params j)) = FIELD_IDX_NONE"
  by (simp add: extract_agg_params_def extract_ext_params_def Let_def split: prod.split)

lemma duration_rules:
  "ap_half_life_ms (extract_agg_params j) = None \<or> half_life_invalid (extract_agg_params j) \<longleftrightarrow>
     \<not> (\<exists>ms > 0. ap_half_life_ms (extract_agg_params j) = Some ms)"
  "ap_sub_window_ms (extract_agg_params j) = None \<or> sub_window_invalid (extract_agg_params j) \<longleftrightarrow>
     \<not> (\<exists>ms > 0. ap_sub_window_ms (extract_agg_params j) = Some ms)"
  using extract_durations by (metis option.exhaust option.distinct(1))+

lemma first_failure_None:
  "first_failure sch gkeys name kind (extract_agg_params j) = None \<longleftrightarrow>
     name \<notin> set gkeys \<and>
     (needs_field kind \<longrightarrow> (case ap_field (extract_agg_params j) of None \<Rightarrow> \<not> agg_kind_requires_field kind | Some f \<Rightarrow> schema_has sch f)) \<and>
     (requires_half_life kind \<longrightarrow> (\<exists>ms > 0. ap_half_life_ms (extract_agg_params j) = Some ms)) \<and>
     (kind = KBurstCount \<longrightarrow> (\<exists>ms > 0. ap_sub_window_ms (extract_agg_params j) = Some ms)) \<and>
     (agg_kind_requires_n kind \<longrightarrow> (\<exists>n. ap_n (extract_agg_params j) = Some n \<and> 1 \<le> n \<and> n \<le> 1024)) \<and>
     (agg_kind_rejects_window kind \<longrightarrow> ap_window (extract_agg_params j) = None) \<and>
     (kind = KFirstSeenInWindow \<longrightarrow> ap_window (extract_agg_params j) \<noteq> None)"
proof -
  have if_none: "(if c then Some x else y) = None \<longleftrightarrow> \<not> c \<and> y = None" for c and x :: "ErrorCode \<times> string" and y by simp
  have fld: "(needs_field kind \<and> (case fo of None \<Rightarrow> agg_kind_requires_field kind | Some f \<Rightarrow> \<not> schema_has sch f)) \<longleftrightarrow>
      \<not> (needs_field kind \<longrightarrow> (case fo of None \<Rightarrow> \<not> agg_kind_requires_field kind | Some f \<Rightarrow> schema_has sch f))" for fo
    by (cases fo) simp_all
  have num: "(case no of None \<Rightarrow> True | Some n \<Rightarrow> n = 0 \<or> n > 1024) \<longleftrightarrow> \<not> (\<exists>n. no = Some n \<and> 1 \<le> n \<and> n \<le> 1024)" for no :: "nat option"
    by (cases no) auto
  show ?thesis unfolding first_failure_def duration_rules fld num if_none
    by (simp only: not_not de_Morgan_conj imp_conv_disj simp_thms conj_ac)
qed

lemma sketch_errors_Nil:
  "sketch_errors bad kind params = [] \<longleftrightarrow>
     (kind = KBloomMember \<longrightarrow> ap_window params = None \<and> (\<forall>fpr. Option.bind (ap_sketch_params params) bloom_fpr = Some fpr \<longrightarrow> open_unit fpr)) \<and>
     (kind = KPercentile \<longrightarrow> (\<forall>q. Option.bind (ap_sketch_params params) percentile_q = Some q \<longrightarrow> open_unit q)) \<and>
     (kind = KTopK \<longrightarrow> (\<forall>k. Option.bind (ap_sketch_params params) top_k_k = Some k \<longrightarrow> 1 \<le> k \<and> k \<le> 1024))"
  by (auto simp: sketch_errors_def Let_def split: option.splits)

lemma where_param_Inr:
  "where_param lm sch bad params = Inr wh \<longleftrightarrow>
     (case where_str params of
        None \<Rightarrow> wh = None
      | Some s \<Rightarrow> (\<exists>e. expr_parse lm s = Inr e \<and> referenced_fields e \<subseteq> fst ` set (sch_fields sch) \<and> wh = Some e))"
  by (auto simp: where_param_def Let_def split: option.splits sum.splits if_splits)

text \<open>The compiler accepts a feature exactly when the rules do, with the descriptor they give.\<close>

lemma compile_feature_iff: "compile_feature lm sch gkeys loc entry = Inr feat \<longleftrightarrow> feature_checked lm sch gkeys entry feat"
proof -
  obtain name spec where entry: "entry = (name, spec)" by (cases entry)
  let ?params = "extract_agg_params (spec_params spec)" and ?bad = "\<lambda>code suffix. verr code (loc (name @ suffix))"
  have win: "window_param ?params = Inr win_ms \<longleftrightarrow>
      (case ap_window ?params of None \<Rightarrow> win_ms = None | Some w \<Rightarrow> parse_duration_to_ms w = Inr win_ms)" for win_ms
    by (auto simp: window_param_def split: option.splits)
  have rules: "feature_rules lm sch gkeys name kind ?params win_ms wh \<longleftrightarrow>
      first_failure sch gkeys name kind ?params = None \<and> sketch_errors ?bad kind ?params = [] \<and>
      window_param ?params = Inr win_ms \<and> \<not> (agg_kind_rejects_window kind \<and> win_ms \<noteq> None) \<and> where_param lm sch ?bad ?params = Inr wh"
    for kind win_ms wh
    unfolding feature_rules_def first_failure_None sketch_errors_Nil win where_param_Inr
    by (cases "ap_window ?params") (simp_all only: option.case, blast+)
  show ?thesis
    unfolding feature_checked_def entry fst_conv snd_conv rules compile_feature_def Let_def prod.case
    by (auto simp: map_sum_def split: option.splits sum.splits if_splits)
qed

text \<open>A compiled aggregation and where it comes from.\<close>

definition compiled_from ::
    "libm \<Rightarrow> PayloadNode list \<Rightarrow> RegistryInner \<Rightarrow> (string \<times> DerivedSchema) list \<Rightarrow> string \<times> AggregationDescriptor \<Rightarrow> DerivationDescriptor \<Rightarrow> nat \<Rightarrow> Schema \<Rightarrow> bool" where
  "compiled_from lm nodes registry propagated na d op_idx sch \<longleftrightarrow>
     (\<exists>gkeys agg_map.
        NDerivation d \<in> set nodes \<and> fst na = der_name d \<and> node_name (snd na) = der_name d \<and>
        op_idx < length (der_ops d) \<and> der_ops d ! op_idx = OpGroupBy gkeys agg_map \<and>
        upstreams d \<noteq> [] \<and> source_node_name (snd na) = hd (upstreams d) \<and> \<not> upstream_is_table nodes registry (hd (upstreams d)) \<and>
        group_by_schema lm nodes registry propagated (hd (upstreams d)) (take op_idx (der_ops d)) = Some sch \<and>
        group_keys (snd na) = gkeys \<and>
        (\<forall>k \<in> set gkeys. \<exists>t. map_of (sch_fields sch) k = Some t \<and> t \<noteq> TF64) \<and>
        list_all2 (feature_checked lm sch gkeys) agg_map (features (snd na)))"

lemma compile_features_sound:
  assumes "errors_of (map (compile_feature lm sch gkeys loc) agg_map) = []" and "\<forall>e \<in> set agg_map. \<forall>es. compile_feature lm sch gkeys loc e = Inl es \<longrightarrow> es \<noteq> []"
  shows "list_all2 (feature_checked lm sch gkeys) agg_map (values_of (map (compile_feature lm sch gkeys loc) agg_map))"
  using assms
proof (induction agg_map)
  case (Cons e agg_map)
  obtain feat where f: "compile_feature lm sch gkeys loc e = Inr feat" using Cons.prems by (cases "compile_feature lm sch gkeys loc e") (auto simp: errors_of_def)
  then show ?case using Cons compile_feature_iff [of lm sch gkeys loc e feat]
    by (simp add: errors_of_def values_of_def List.map_filter_simps)
qed (simp add: values_of_def List.map_filter_simps)

lemma finite_collect_fields:
  "finite fs \<Longrightarrow> finite (collect_fields e fs)" "finite fs \<Longrightarrow> finite (collect_fields_list es fs)"
  by (induction e fs and es fs rule: collect_fields_collect_fields_list.induct) simp_all

lemma compile_feature_error: "compile_feature lm sch gkeys loc e = Inl es \<Longrightarrow> es \<noteq> []"
proof -
  have "where_param lm sch bad params = Inl es \<Longrightarrow> es \<noteq> []" for bad params
    using finite_collect_fields(1) [of "{}"] by (auto simp: where_param_def referenced_fields_def Let_def split: option.splits sum.splits if_splits)
  then show "compile_feature lm sch gkeys loc e = Inl es \<Longrightarrow> es \<noteq> []"
    by (auto simp: compile_feature_def Let_def map_sum_def split: prod.splits option.splits sum.splits if_splits)
qed

lemma compile_group_by_sound:
  assumes "compile_group_by lm nodes registry propagated node_idx d op_idx gkeys agg_map = (compiled, [])" and "na \<in> set compiled"
    and "NDerivation d \<in> set nodes" "op_idx < length (der_ops d)" "der_ops d ! op_idx = OpGroupBy gkeys agg_map"
  shows "\<exists>sch. compiled_from lm nodes registry propagated na d op_idx sch"
proof -
  let ?loc = "feature_path node_idx op_idx"
  obtain u us where u: "upstreams d = u # us" using assms(1) by (cases "upstreams d") (auto simp: compile_group_by_def)
  have t: "\<not> upstream_is_table nodes registry u" using assms(1) by (auto simp: compile_group_by_def u split: if_splits)
  obtain sch where s: "group_by_schema lm nodes registry propagated u (take op_idx (der_ops d)) = Some sch"
    using assms(1,2) t by (cases "group_by_schema lm nodes registry propagated u (take op_idx (der_ops d))") (auto simp: compile_group_by_def u)
  let ?feats = "map (compile_feature lm sch gkeys ?loc) agg_map"
  have es: "key_errors node_idx op_idx sch gkeys = []" "errors_of ?feats = []"
    and na: "na = (der_name d, \<lparr>node_name = der_name d, source_node_name = u, group_keys = gkeys, features = values_of ?feats, agg_id = 0, field_names = [], cluster_id = 0\<rparr>)"
    using assms(1,2) t s by (auto simp: compile_group_by_def u Let_def split: if_splits)
  have "\<forall>k \<in> set gkeys. \<not> (map_of (sch_fields sch) k = None \<or> map_of (sch_fields sch) k = Some TF64)"
    using es(1) unfolding key_errors_def concat_enumerate_all .
  moreover have "list_all2 (feature_checked lm sch gkeys) agg_map (values_of ?feats)"
    using compile_features_sound [OF es(2)] compile_feature_error by blast
  ultimately have "compiled_from lm nodes registry propagated na d op_idx sch"
    using assms(3-5) u t s unfolding compiled_from_def na by (intro exI [of _ gkeys] exI [of _ agg_map]) fastforce
  then show ?thesis ..
qed

lemma compile_nodes_sound:
  assumes "rs = concat (map (compile_node_aggs lm nodes registry propagated) (enumerate 0 nodes))"
    and "concat (map snd rs) = []" and "na \<in> set (concat (map fst rs))"
  shows "\<exists>d op_idx sch. compiled_from lm nodes registry propagated na d op_idx sch"
proof -
  obtain r where r: "r \<in> set rs" "na \<in> set (fst r)" using assms(3) by auto
  have "snd r = []" using assms(2) r(1) by auto
  obtain i node where node: "(i, node) \<in> set (enumerate 0 nodes)" "r \<in> set (compile_node_aggs lm nodes registry propagated (i, node))"
    using r(1) unfolding assms(1) by auto
  then obtain d where d: "node = NDerivation d" by (cases node) (auto simp: compile_node_aggs_def)
  then obtain j op where op: "(j, op) \<in> set (enumerate 0 (der_ops d))" "r = compile_op_aggs lm nodes registry propagated i d (j, op)"
    using node(2) by (auto simp: compile_node_aggs_def)
  have mem: "NDerivation d \<in> set nodes" using node(1) d nth_mem [of i nodes] by (auto simp: in_set_enumerate_eq)
  have j: "j < length (der_ops d)" "der_ops d ! j = op" using op(1) by (auto simp: in_set_enumerate_eq)
  obtain gkeys agg_map where g: "op = OpGroupBy gkeys agg_map" using op(2) r(2) by (cases op) (auto simp: compile_op_aggs_def)
  have "compile_group_by lm nodes registry propagated i d j gkeys agg_map = (fst r, [])"
    using op(2) \<open>snd r = []\<close> by (simp add: compile_op_aggs_def g prod_eq_iff)
  from compile_group_by_sound [OF this r(2) mem j(1)] j(2) g show ?thesis by blast
qed

lemma new_features_keeps: "new_features owners seen = (seen', es) \<Longrightarrow> map_of seen f = Some n \<Longrightarrow> map_of seen' f = Some n"
  by (induction owners seen arbitrary: seen' es rule: new_features.induct)
    (auto simp: Let_def map_add_Some_iff split: option.splits prod.splits)

lemma new_features_sound: "new_features owners seen = (seen', []) \<Longrightarrow> (f, n) \<in> set owners \<Longrightarrow> map_of seen' f = Some n"
proof (induction owners seen arbitrary: seen' rule: new_features.induct)
  case (2 feature node rest seen)
  show ?case
  proof (cases "map_of seen feature")
    case None
    then have rest: "new_features rest (seen @ [(feature, node)]) = (seen', [])" using "2.prems"(1) by simp
    have "map_of seen' feature = Some node" using new_features_keeps [OF rest, of feature node] None by (simp add: map_add_def)
    then show ?thesis using "2.IH"(1) [OF None rest] "2.prems"(2) by auto
  next
    case (Some existing)
    then have "new_features rest seen = (seen', [])" "existing = node" using "2.prems"(1) by (auto simp: Let_def split: prod.splits if_splits)
    then show ?thesis using new_features_keeps [of rest seen seen' "[]"] "2.IH"(2) [OF Some] "2.prems"(2) Some by auto
  qed
qed simp

lemma new_features_domain: "new_features owners seen = (seen', es) \<Longrightarrow> map_of seen' f = Some n \<Longrightarrow> f \<in> set (map fst seen')"
  by (metis map_of_SomeD image_eqI list.set_map fst_conv)

lemma collision_free:
  assumes "\<And>ks. set (hash_order ks) = set ks" and "collision_errors hash_order registry compiled = []"
    and "(f, n) \<in> set (feature_owners compiled)"
  shows "(f, m) \<in> set (feature_owners compiled) \<Longrightarrow> m = n" and "map_of (feature_index registry) f = Some (m, k) \<Longrightarrow> m = n"
proof -
  obtain seen es where nf: "new_features (feature_owners compiled) [] = (seen, es)" by (cases "new_features (feature_owners compiled) []")
  then have nil: "new_features (feature_owners compiled) [] = (seen, [])" using assms(2) by (simp add: collision_errors_def)
  have own: "map_of seen f = Some n" by (rule new_features_sound [OF nil assms(3)])
  then show "(f, m) \<in> set (feature_owners compiled) \<Longrightarrow> m = n" using new_features_sound [OF nil] by fastforce
  assume m: "map_of (feature_index registry) f = Some (m, k)"
  have "f \<in> set (hash_order (map fst seen))" using new_features_domain [OF nil own] assms(1) by simp
  then show "m = n" using assms(2) own m by (auto simp: collision_errors_def nil split: if_splits)
qed

section \<open>Properties\<close>

text \<open>A duration string is a positive decimal number followed by one of the five units, and its value is
  the exact product; \<open>forever\<close> is no bound, and everything else, zero and a product of 2^64 or more
  included, is rejected.\<close>

lemma duration_exact:
  "(parse_duration_to_ms s = Inr (Some ms) \<longleftrightarrow>
      (\<exists>ds suf multiplier n. (suf, multiplier) \<in> set duration_units \<and> s = ds @ suf \<and> parse_nat ds = Some n \<and>
         0 < int n \<and> int n * multiplier < 2 ^ 64 \<and> uint ms = int n * multiplier)) \<and>
   (parse_duration_to_ms s = Inr None \<longleftrightarrow> s = ''forever'')"
proof (intro conjI iffI)
  assume "parse_duration_to_ms s = Inr (Some ms)"
  then obtain ds multiplier n where c: "split_duration s = Some (ds, multiplier)" "parse_nat ds = Some n" "n \<noteq> 0" "int n * multiplier < 2 ^ 64"
    "ms = word_of_int (int n * multiplier)"
    by (auto simp: parse_duration_to_ms_def split: if_splits option.splits)
  obtain suf where suf: "(suf, multiplier) \<in> set duration_units" "s = ds @ suf"
    using first_some_SomeD [OF c(1) [unfolded split_duration_def]] by (auto simp: strip_suffix_iff)
  then have "0 \<le> int n * multiplier" by (auto simp: duration_units_def)
  then have "uint ms = int n * multiplier" unfolding c(5) using c(4) by (rule uint_small)
  then show "\<exists>ds suf multiplier n. (suf, multiplier) \<in> set duration_units \<and> s = ds @ suf \<and> parse_nat ds = Some n \<and>
      0 < int n \<and> int n * multiplier < 2 ^ 64 \<and> uint ms = int n * multiplier" using c suf by auto
next
  assume "\<exists>ds suf multiplier n. (suf, multiplier) \<in> set duration_units \<and> s = ds @ suf \<and> parse_nat ds = Some n \<and>
      0 < int n \<and> int n * multiplier < 2 ^ 64 \<and> uint ms = int n * multiplier"
  then obtain ds suf multiplier n where c: "(suf, multiplier) \<in> set duration_units" "s = ds @ suf" "parse_nat ds = Some n" "0 < int n"
    "int n * multiplier < 2 ^ 64" "uint ms = int n * multiplier" by blast
  note ds = parse_nat_digits [OF c(3)]
  have split: "split_duration s = Some (ds, multiplier)" unfolding c(2) by (rule split_duration_unit [OF c(1)]) (use ds in simp)
  have "List.last s \<noteq> CHR ''r''" using c(1,2) by (auto simp: duration_units_def)
  then have "s \<noteq> ''forever''" "s \<noteq> []" using ds c(2) by auto
  moreover have "int n < 2 ^ 64" using c(1,4,5) by (auto simp: duration_units_def)
  moreover have "word_of_int (int n * multiplier) = ms" using c(6) by (metis word_of_int_uint)
  ultimately show "parse_duration_to_ms s = Inr (Some ms)"
    unfolding parse_duration_to_ms_def split using ds c(3-5) by simp
next
  show "parse_duration_to_ms s = Inr None \<Longrightarrow> s = ''forever''"
    by (auto simp: parse_duration_to_ms_def split: if_splits option.splits)
  show "s = ''forever'' \<Longrightarrow> parse_duration_to_ms s = Inr None"
    by (simp add: parse_duration_to_ms_def)
qed

lemma compile_origin:
  assumes "compile_aggregations_from_nodes lm hash_order nodes registry propagated = (compiled, [])"
  shows "na \<in> set compiled \<Longrightarrow> \<exists>d op_idx sch. compiled_from lm nodes registry propagated na d op_idx sch"
    and "payload_ok compiled" and "na \<in> set compiled \<Longrightarrow> collision_errors hash_order registry compiled = []"
proof -
  let ?rs = "concat (map (compile_node_aggs lm nodes registry propagated) (enumerate 0 nodes))"
  have compiled: "compiled = concat (map fst ?rs)" and es: "concat (map snd ?rs) = []"
    and col: "compiled \<noteq> [] \<Longrightarrow> collision_errors hash_order registry compiled = []"
    using assms by (auto simp: compile_aggregations_from_nodes_def Let_def split: if_splits)
  show origin: "\<exists>d op_idx sch. compiled_from lm nodes registry propagated mb d op_idx sch" if "mb \<in> set compiled" for mb
    using compile_nodes_sound [OF refl es] that by (simp add: compiled)
  have "unresolved (snd mb) \<and> node_name (snd mb) = fst mb" if mb: "mb \<in> set compiled" for mb
  proof -
    obtain d op_idx sch gkeys agg_map where c: "node_name (snd mb) = fst mb" "list_all2 (feature_checked lm sch gkeys) agg_map (features (snd mb))"
      using origin [OF mb] unfolding compiled_from_def by auto
    have "field_idx (descriptor f) = FIELD_IDX_NONE \<and> ext_lat_idx (desc_ext (descriptor f)) = FIELD_IDX_NONE" if f: "f \<in> set (features (snd mb))" for f
    proof -
      obtain e where "feature_checked lm sch gkeys e f" using c(2) f by (metis in_set_conv_nth list_all2_conv_all_nth)
      then show ?thesis using ext_unresolved by (auto simp: feature_checked_def make_feature_def)
    qed
    then show ?thesis using c(1) by (simp add: unresolved_def)
  qed
  then show "payload_ok compiled" unfolding payload_ok_def by (auto simp: case_prod_beta)
  show "collision_errors hash_order registry compiled = []" if "na \<in> set compiled" using col that by (cases compiled) auto
qed


definition field_spec :: "string \<Rightarrow> string \<Rightarrow> (string \<times> Json) list \<Rightarrow> AggSpec" where
  "field_spec op field more_params = \<lparr>spec_op = op, spec_params = JObject ((''field'', JString field) # more_params)\<rparr>"

definition group_by_node :: "string \<Rightarrow> (string \<times> AggSpec) list list \<Rightarrow> PayloadNode" where
  "group_by_node name agg_maps = NDerivation
     \<lparr>der_name = name, output_kind = OutTable, upstreams = [''E''], der_ops = map (OpGroupBy [''u'']) agg_maps,
      der_schema = \<lparr>ds_fields = [], ds_optional_fields = []\<rparr>, table_primary_key = Some [''u''], der_version = 0\<rparr>"

definition sum_payload :: "PayloadNode list" where
  "sum_payload = [NEvent example_event, group_by_node ''D'' [[(''s'', field_spec ''sum'' ''x'' [(''window'', JString ''5m'')])]]]"

definition sum_compiled :: compiled_aggs where
  "sum_compiled = fst (compile_aggregations_from_nodes sample_libm id sum_payload registry_default [])"

lemma sum_payload_compiles:
  "compile_aggregations_from_nodes sample_libm id sum_payload registry_default [] = (sum_compiled, [])"
  "map (\<lambda>(n, a). (n, source_node_name a, group_keys a, map (\<lambda>f. (feature_name f, desc_window_ms (descriptor f))) (features a))) sum_compiled =
     [(''D'', ''E'', [''u''], [(''s'', Some 300000)])]"
  by code_simp+


text \<open>The operators that the compiler knows are exactly those with a declared memory bound, so the check
  of lifetime features rejects an operator name for having no bound exactly when the compiler does not know it.\<close>

lemma operators_bounded: "parse_agg_kind op \<noteq> None \<longleftrightarrow> lifetime_bound_for_op_str op \<noteq> Unbounded"
proof -
  have "parse_agg_kind op \<noteq> None \<longleftrightarrow> op \<in> set (map fst agg_kind_names)"
    unfolding parse_agg_kind_def by (simp add: map_of_eq_None_iff)
  also have "\<dots> \<longleftrightarrow> lifetime_bound_for_op_str op \<noteq> Unbounded"
    unfolding lifetime_bound_for_op_str_def agg_kind_names_def by (simp split: if_split)
  finally show ?thesis .
qed


end
