(* ===== verification/Register.thy ===== *)
theory Register
  imports AggCompile
begin

text \<open>
  Registration: the validation of a payload with its expressions
  (\<open>crates/beava-core/src/register_validate.rs\<close>), the classification of its changes
  (\<open>registry_diff.rs\<close>), and the handling of a request on the apply thread
  (\<open>crates/beava-server/src/apply_shard.rs\<close>, \<open>register.rs\<close>) with the log record that a
  restart replays. The iteration order of a \<open>HashMap\<close> is the parameter \<open>hash_order\<close>; the
  derived deserializer of the payload is the parameter \<open>deserialize\<close>; whether the append to the log
  succeeds is the parameter \<open>wal_ok\<close>; the debug format of a list of strings, which only a sort
  key uses, is the parameter \<open>fmt_debug\<close>. Log lines and the texts of reasons are not modelled.

  The lemmas show that validation does not depend on the iteration order, and that replaying the
  logged registrations rebuilds the registry.
\<close>

section \<open>Expressions\<close>

definition resolve_upstream_schema :: "PayloadNode list \<Rightarrow> RegistryInner \<Rightarrow> string \<Rightarrow> Schema option" where
  "resolve_upstream_schema payload current name =
     (case payload_find name payload of
        Some (NEvent e) \<Rightarrow> Some (from_event (ev_schema e))
      | Some (NTable t) \<Rightarrow> Some (from_table (tab_schema t))
      | Some (NDerivation d) \<Rightarrow> Some (from_derived (der_schema d))
      | None \<Rightarrow> registry_schema current name)"

definition union_schema :: "Schema \<Rightarrow> Schema \<Rightarrow> Schema" where
  "union_schema s result =
     \<lparr>sch_fields = fold (\<lambda>(k, v). btree_insert k v) (sch_fields s) (sch_fields result),
      sch_optional_fields = fold (\<lambda>opt os. if opt \<in> set os then os else os @ [opt]) (sch_optional_fields s) (sch_optional_fields result)\<rparr>"

definition union_schemas :: "Schema list \<Rightarrow> Schema" where
  "union_schemas schemas = fold union_schema schemas \<lparr>sch_fields = [], sch_optional_fields = []\<rparr>"

definition op_path :: "nat \<Rightarrow> nat \<Rightarrow> string \<Rightarrow> string" where
  "op_path node_idx op_idx suffix = path_field node_idx (path_elem ''ops'' op_idx @ suffix)"

fun propagation_error_to_validation :: "nat \<Rightarrow> PropagationError \<Rightarrow> ValidationError list" where
  "propagation_error_to_validation i (InvalidExpr j _) = [verr InvalidExpression (op_path i j ''.expr'')]"
| "propagation_error_to_validation i (FieldMissing j _) = [verr UnknownFieldReference (op_path i j ''.expr'')]"
| "propagation_error_to_validation i (TypeMismatch j _) = [verr SchemaPropagationFailure (op_path i j '''')]"
| "propagation_error_to_validation i (RenameCollision j _) = [verr SchemaPropagationFailure (op_path i j ''.mapping'')]"
| "propagation_error_to_validation i (UnsupportedOp j _) = []"

record expr_state =
  xs_errors :: "ValidationError list"
  xs_chains :: "(string \<times> OpChain) list"
  xs_schemas :: "(string \<times> DerivedSchema) list"
  xs_batch :: "(string \<times> DerivedSchema) list"

definition upstream_schemas :: "PayloadNode list \<Rightarrow> RegistryInner \<Rightarrow> expr_state \<Rightarrow> DerivationDescriptor \<Rightarrow> Schema list" where
  "upstream_schemas payload current st d =
     List.map_filter (\<lambda>u. case map_of (xs_batch st) u of Some ds \<Rightarrow> Some (from_derived ds) | None \<Rightarrow> resolve_upstream_schema payload current u) (upstreams d)"

text \<open>Record the schema of a derivation in the batch, and in the result.\<close>

definition put_batch :: "string \<Rightarrow> DerivedSchema \<Rightarrow> expr_state \<Rightarrow> expr_state" where
  "put_batch name ds st = st\<lparr>xs_batch := AList.update name ds (xs_batch st)\<rparr>"

definition put_schema :: "string \<Rightarrow> DerivedSchema \<Rightarrow> expr_state \<Rightarrow> expr_state" where
  "put_schema name ds st = put_batch name ds (st\<lparr>xs_schemas := xs_schemas st @ [(name, ds)]\<rparr>)"

definition put_errors :: "nat \<Rightarrow> PropagationError list \<Rightarrow> expr_state \<Rightarrow> expr_state" where
  "put_errors i es st = st\<lparr>xs_errors := xs_errors st @ concat (map (propagation_error_to_validation i) es)\<rparr>"

definition put_chain :: "string \<Rightarrow> OpChain \<Rightarrow> expr_state \<Rightarrow> expr_state" where
  "put_chain name chain st = st\<lparr>xs_chains := xs_chains st @ [(name, chain)]\<rparr>"

definition validate_derivation ::
    "libm \<Rightarrow> PayloadNode list \<Rightarrow> RegistryInner \<Rightarrow> nat \<Rightarrow> DerivationDescriptor \<Rightarrow> expr_state \<Rightarrow> expr_state" where
  "validate_derivation lm payload current i d st =
     (let ups = upstream_schemas payload current st d; name = der_name d in
      if der_ops d = [] then
        put_schema name (into_derived (if ups = [] then from_derived (der_schema d) else union_schemas ups)) st
      else if ups = [] then put_schema name (der_schema d) st
      else if list_ex is_group_by (der_ops d) then
        (let prefix_ops = filter (\<lambda>op. \<not> is_group_by op) (der_ops d);
             st1 = (if prefix_ops = [] then st
                    else case chain_compile lm (union_schemas ups) prefix_ops of
                           Inr (chain, _) \<Rightarrow> put_chain name chain st
                         | Inl es \<Rightarrow> put_errors i es st)
         in put_schema name (der_schema d) st1)
      else case chain_compile lm (union_schemas ups) (der_ops d) of
             Inr (chain, final) \<Rightarrow> put_schema name (into_derived final) (put_chain name chain st)
           | Inl es \<Rightarrow> put_batch name (der_schema d) (put_errors i es st))"

definition validate_expressions :: "libm \<Rightarrow> RegistryInner \<Rightarrow> PayloadNode list \<Rightarrow> expr_state" where
  "validate_expressions lm current payload =
     fold (\<lambda>(i, node) st. case node of NDerivation d \<Rightarrow> validate_derivation lm payload current i d st | _ \<Rightarrow> st) (enumerate 0 payload)
       \<lparr>xs_errors = [], xs_chains = [], xs_schemas = [], xs_batch = []\<rparr>"

section \<open>Payloads\<close>

record ValidatedPayload =
  vp_nodes :: "PayloadNode list"
  vp_chains :: "(string \<times> OpChain) list"
  vp_schemas :: "(string \<times> DerivedSchema) list"
  vp_aggregations :: compiled_aggs

definition validate_payload ::
    "libm \<Rightarrow> (string list \<Rightarrow> string list) \<Rightarrow> RegistryInner \<Rightarrow> PayloadNode list \<Rightarrow> ValidationError list + ValidatedPayload" where
  "validate_payload lm hash_order current payload =
     (if payload = [] then Inr \<lparr>vp_nodes = [], vp_chains = [], vp_schemas = [], vp_aggregations = []\<rparr>
      else
        let es = structural_errors hash_order current payload in
        if es \<noteq> [] then Inl es
        else
          let st = validate_expressions lm current payload in
          if xs_errors st \<noteq> [] then Inl (xs_errors st)
          else
            let (compiled, agg_es) = compile_aggregations_from_nodes lm hash_order payload current (xs_schemas st) in
            if agg_es \<noteq> [] then Inl agg_es
            else Inr \<lparr>vp_nodes = payload, vp_chains = xs_chains st, vp_schemas = xs_schemas st, vp_aggregations = compiled\<rparr>)"

section \<open>Differences\<close>

datatype DiffEntry =
    Rename string string
  | TypeChange string string string
  | OpRemoval string string
  | AggRemoval string string
  | WindowChange string string string
  | KeyColsChange string "string list" "string list"
  | NewDescriptor string string
  | NewAgg string string string
  | NewField string string string

text \<open>The sort key, its tag as a digit; a list of three strings is ordered like the tuple.\<close>

fun diff_sort_key :: "(string list \<Rightarrow> string) \<Rightarrow> DiffEntry \<Rightarrow> string list" where
  "diff_sort_key fmt_debug (Rename a b) = [''0'', a, b]"
| "diff_sort_key fmt_debug (TypeChange field a b) = [''1'', field, a @ ''->'' @ b]"
| "diff_sort_key fmt_debug (OpRemoval table agg) = [''2'', table, agg]"
| "diff_sort_key fmt_debug (AggRemoval table agg) = [''3'', table, agg]"
| "diff_sort_key fmt_debug (WindowChange agg a b) = [''4'', agg, a @ ''->'' @ b]"
| "diff_sort_key fmt_debug (KeyColsChange table a b) = [''5'', table, fmt_debug a @ ''->'' @ fmt_debug b]"
| "diff_sort_key fmt_debug (NewDescriptor kind name) = [''6'', kind, name]"
| "diff_sort_key fmt_debug (NewAgg table agg source) = [''7'', table, agg @ ''@'' @ source]"
| "diff_sort_key fmt_debug (NewField event field ty) = [''8'', event, field @ '':'' @ ty]"

record RegisterDiff =
  additive :: "DiffEntry list"
  destructive :: "DiffEntry list"
  already_present :: "string list"

fun kind_str :: "PayloadNode \<Rightarrow> string" where
  "kind_str (NEvent _) = ''event''"
| "kind_str (NTable _) = ''table''"
| "kind_str (NDerivation _) = ''derivation''"

definition current_descriptor_kind :: "RegistryInner \<Rightarrow> string \<Rightarrow> string" where
  "current_descriptor_kind prev name =
     (if map_of (reg_events prev) name \<noteq> None then ''event''
      else if map_of (reg_tables prev) name \<noteq> None then ''table''
      else if map_of (derivations prev) name \<noteq> None then ''derivation''
      else ''unknown'')"

text \<open>The debug name of a type, in lower case.\<close>

fun type_label :: "FieldType \<Rightarrow> string" where
  "type_label TStr = ''str''"
| "type_label TF64 = ''f64''"
| "type_label TI64 = ''i64''"
| "type_label TBool = ''bool''"
| "type_label TBytes = ''bytes''"
| "type_label TDatetime = ''datetime''"
| "type_label TJson = ''json''"

definition type_changes :: "string \<Rightarrow> (string \<times> FieldType) list \<Rightarrow> (string \<times> FieldType) list \<Rightarrow> DiffEntry list" where
  "type_changes name prev new =
     concat (map (\<lambda>(f, t). case map_of new f of
       None \<Rightarrow> [TypeChange (name @ ''.'' @ f) (type_label t) ''<absent>'']
     | Some t' \<Rightarrow> if t' \<noteq> t then [TypeChange (name @ ''.'' @ f) (type_label t) (type_label t')] else []) prev)"

type_synonym changes = "DiffEntry list \<times> DiffEntry list"

definition classify_event_changes :: "EventDescriptor \<Rightarrow> EventDescriptor \<Rightarrow> changes" where
  "classify_event_changes prev new =
     (let p = es_fields (ev_schema prev); n = es_fields (ev_schema new) in
      (concat (map (\<lambda>(f, t). if map_of p f = None then [NewField (ev_name prev) f (type_label t)] else []) n),
       type_changes (ev_name prev) p n))"

definition classify_table_changes :: "TableDescriptor \<Rightarrow> TableDescriptor \<Rightarrow> changes" where
  "classify_table_changes prev new =
     ([], (if primary_key prev \<noteq> primary_key new then [KeyColsChange (tab_name prev) (primary_key prev) (primary_key new)] else []) @
          type_changes (tab_name prev) (ts_fields (tab_schema prev)) (ts_fields (tab_schema new)))"

fun op_label :: "OpNode \<Rightarrow> nat \<Rightarrow> string" where
  "op_label (OpFilter _) i = path_elem ''filter'' i"
| "op_label (OpSelect _) i = path_elem ''select'' i"
| "op_label (OpDrop _) i = path_elem ''drop'' i"
| "op_label (OpRename _) i = path_elem ''rename'' i"
| "op_label (OpWithColumns _) i = path_elem ''with_columns'' i"
| "op_label (OpMap _) i = path_elem ''map'' i"
| "op_label (OpCast _) i = path_elem ''cast'' i"
| "op_label (OpFillna _) i = path_elem ''fillna'' i"
| "op_label (OpGroupBy _ _) i = path_elem ''group_by'' i"

definition spec_window :: "AggSpec \<Rightarrow> string" where
  "spec_window spec = str_at ''window'' (spec_params spec)"

fun group_by_changes :: "string \<Rightarrow> OpNode \<Rightarrow> OpNode \<Rightarrow> changes" where
  "group_by_changes name (OpGroupBy pk pa) (OpGroupBy nk na) =
     (concat (map (\<lambda>(agg, p). case map_of na agg of Some n \<Rightarrow> if spec_op p \<noteq> spec_op n then [NewAgg name agg (spec_op n)] else [] | None \<Rightarrow> []) pa) @
      concat (map (\<lambda>(agg, n). if map_of pa agg = None then [NewAgg name agg (spec_op n)] else []) na),
      (if pk \<noteq> nk then [KeyColsChange name pk nk] else []) @
      concat (map (\<lambda>(agg, p). case map_of na agg of
        None \<Rightarrow> [AggRemoval name agg]
      | Some n \<Rightarrow>
          (if spec_window p \<noteq> spec_window n then [WindowChange (name @ ''.'' @ agg) (spec_window p) (spec_window n)] else []) @
          (if spec_op p \<noteq> spec_op n then [AggRemoval name agg] else [])) pa))"
| "group_by_changes name _ _ = ([], [])"

definition classify_derivation_changes :: "DerivationDescriptor \<Rightarrow> DerivationDescriptor \<Rightarrow> changes" where
  "classify_derivation_changes prev new =
     (let name = der_name prev;
          removals = map (\<lambda>(i, op). OpRemoval name (op_label op i)) (drop (length (der_ops new)) (enumerate 0 (der_ops prev)));
          pairs = map (\<lambda>(p, n). group_by_changes name p n) (zip (der_ops prev) (der_ops new));
          pk = (if (output_kind prev = OutTable \<or> output_kind new = OutTable) \<and> table_primary_key prev \<noteq> table_primary_key new
                then [KeyColsChange name (opt_or (table_primary_key prev) []) (opt_or (table_primary_key new) [])] else [])
      in (concat (map fst pairs), removals @ concat (map snd pairs) @ pk))"

definition classify_node :: "RegistryInner \<Rightarrow> PayloadNode \<Rightarrow> changes" where
  "classify_node prev node =
     (case node of
        NEvent e \<Rightarrow> (case map_of (reg_events prev) (ev_name e) of Some p \<Rightarrow> classify_event_changes p e | None \<Rightarrow> ([], []))
      | NTable t \<Rightarrow> (case map_of (reg_tables prev) (tab_name t) of Some p \<Rightarrow> classify_table_changes p t | None \<Rightarrow> ([], []))
      | NDerivation d \<Rightarrow> (case map_of (derivations prev) (der_name d) of Some p \<Rightarrow> classify_derivation_changes p d | None \<Rightarrow> ([], [])))"

text \<open>Each removed descriptor is paired with the first added node of its kind that is not paired yet.\<close>

fun pair_renames :: "RegistryInner \<Rightarrow> PayloadNode list \<Rightarrow> string list \<Rightarrow> (string \<times> string) list" where
  "pair_renames prev added [] = []"
| "pair_renames prev added (r # rs) =
     (case List.find (\<lambda>n. kind_str n = current_descriptor_kind prev r) added of
        Some n \<Rightarrow> (r, payload_name n) # pair_renames prev (filter (\<lambda>m. payload_name m \<noteq> payload_name n) added) rs
      | None \<Rightarrow> pair_renames prev added rs)"

definition current_names :: "RegistryInner \<Rightarrow> string list" where
  "current_names prev = remdups (map fst (reg_events prev) @ map fst (reg_tables prev) @ map fst (derivations prev))"

definition classify_register_diff ::
    "(string list \<Rightarrow> string) \<Rightarrow> (string list \<Rightarrow> string list) \<Rightarrow> RegistryInner \<Rightarrow> PayloadNode list \<Rightarrow> RegisterDiff" where
  "classify_register_diff fmt_debug hash_order prev payload =
     (let names = map payload_name payload; cur = current_names prev;
          removed = filter (\<lambda>n. n \<notin> set names) (hash_order cur);
          added = filter (\<lambda>n. payload_name n \<notin> set cur) payload;
          pairs = pair_renames prev added removed;
          existing = filter (\<lambda>n. payload_name n \<in> set cur) payload;
          adds = map (\<lambda>n. NewDescriptor (kind_str n) (payload_name n)) (filter (\<lambda>n. payload_name n \<notin> snd ` set pairs) added) @
                 concat (map (\<lambda>n. fst (classify_node prev n)) existing);
          dels = map (\<lambda>(r, a). Rename r a) pairs @ map (\<lambda>r. AggRemoval r '''') (filter (\<lambda>r. r \<notin> fst ` set pairs) removed) @
                 concat (map (\<lambda>n. snd (classify_node prev n)) existing)
      in \<lparr>additive = sort_key (diff_sort_key fmt_debug) adds, destructive = sort_key (diff_sort_key fmt_debug) dels,
          already_present = sort (map payload_name (filter (\<lambda>n. classify_node prev n = ([], [])) existing))\<rparr>)"

definition register_check_force_required :: "RegisterDiff \<Rightarrow> bool \<Rightarrow> bool" where
  "register_check_force_required diff force \<longleftrightarrow> destructive diff \<noteq> [] \<and> \<not> force"

section \<open>Forced registration\<close>

text \<open>The descriptor of a path \<open>descriptor.field\<close>.\<close>

definition split_once :: "string \<Rightarrow> string list" where
  "split_once path = (if CHR ''.'' \<in> set path then [takeWhile (\<lambda>c. c \<noteq> CHR ''.'') path] else [])"

fun removal_of :: "DiffEntry \<Rightarrow> string list" where
  "removal_of (Rename a _) = [a]"
| "removal_of (TypeChange field _ _) = split_once field"
| "removal_of (OpRemoval table _) = [table]"
| "removal_of (AggRemoval table _) = [table]"
| "removal_of (KeyColsChange table _ _) = [table]"
| "removal_of (WindowChange agg _ _) = split_once agg"
| "removal_of _ = []"

fun removal_of_additive :: "DiffEntry \<Rightarrow> string list" where
  "removal_of_additive (NewField event _ _) = [event]"
| "removal_of_additive (NewAgg table _ _) = [table]"
| "removal_of_additive _ = []"

definition force_targets :: "RegisterDiff \<Rightarrow> string list" where
  "force_targets diff = name_set (concat (map removal_of (destructive diff)) @ concat (map removal_of_additive (additive diff)))"

text \<open>The derivations downstream of what is removed, at most one round per descriptor.\<close>

definition downstream :: "RegistryInner \<Rightarrow> string list \<Rightarrow> string list" where
  "downstream prev rs =
     map fst (filter (\<lambda>(name, d). name \<notin> set rs \<and> list_ex (\<lambda>u. u \<in> set rs) (upstreams d)) (derivations prev))"

fun cascade :: "nat \<Rightarrow> RegistryInner \<Rightarrow> string list \<Rightarrow> string list" where
  "cascade 0 prev rs = rs"
| "cascade (Suc n) prev rs =
     (let additions = downstream prev rs in if additions = [] then rs else cascade n prev (name_set (rs @ additions)))"

definition force_removal :: "RegistryInner \<Rightarrow> RegisterDiff \<Rightarrow> string list" where
  "force_removal prev diff = cascade (node_count prev) prev (force_targets diff)"

section \<open>The log record and its replay\<close>

record RegistryBumpPayload =
  bump_new_version :: nat
  bump_nodes :: "PayloadNode list"
  bump_force_removed :: "string list"

text \<open>The parameters of a process: libm, the iteration order, the signature of group keys, the debug format,
  and whether memory bounds are enforced.\<close>

record reg_env =
  re_libm :: libm
  re_hash_order :: "string list \<Rightarrow> string list"
  re_signature :: "string list \<Rightarrow> u64"
  re_fmt_debug :: "string list \<Rightarrow> string"
  re_enforce :: bool

definition install_validated :: "reg_env \<Rightarrow> ValidatedPayload \<Rightarrow> RegistryInner \<Rightarrow> nat \<times> RegistryInner" where
  "install_validated env v w = apply_registration (re_signature env) (vp_nodes v) (vp_chains v) (vp_schemas v) (vp_aggregations v) w"

text \<open>The second component is the registry, also after an error.\<close>

definition apply_registry_bump :: "reg_env \<Rightarrow> RegistryBumpPayload \<Rightarrow> RegistryInner \<Rightarrow> bool \<times> RegistryInner" where
  "apply_registry_bump env bp w =
     (let w1 = (if bump_force_removed bp \<noteq> [] then snd (force_remove_descriptors (bump_force_removed bp) w) else w) in
      case validate_payload (re_libm env) (re_hash_order env) w1 (bump_nodes bp) of
        Inl _ \<Rightarrow> (False, w1)
      | Inr v \<Rightarrow> (True, snd (install_validated env v w1)))"

section \<open>Requests\<close>

datatype RegisterOutcome =
    Success nat "string list" "string list" "string list"
  | EmptyPayload nat
  | Noop nat "string list" "string list"
  | ValidationFailed nat ErrorCode string nat
  | WalUnavailable nat

record reg_result =
  rr_outcome :: RegisterOutcome
  rr_registry :: RegistryInner
  rr_logged :: "RegistryBumpPayload list"

definition added_names :: "RegisterDiff \<Rightarrow> string list" where
  "added_names diff = List.map_filter (\<lambda>e. case e of NewDescriptor _ name \<Rightarrow> Some name | _ \<Rightarrow> None) (additive diff)"

definition execute_register_inner ::
    "reg_env \<Rightarrow> bool \<Rightarrow> string list \<Rightarrow> PayloadNode list \<Rightarrow> RegistryInner \<Rightarrow> reg_result" where
  "execute_register_inner env wal_ok force_removed payload w =
     (let stop = (\<lambda>out. \<lparr>rr_outcome = out, rr_registry = w, rr_logged = []\<rparr>); version = reg_version w in
      if payload = [] then stop (EmptyPayload version)
      else case validate_payload (re_libm env) (re_hash_order env) w payload of
             Inl es \<Rightarrow> stop (ValidationFailed version (ve_code (hd es)) (ve_path (hd es)) (length es))
           | Inr v \<Rightarrow>
               (let nodes = vp_nodes v; names = map payload_name nodes;
                    diff = classify_register_diff (re_fmt_debug env) (re_hash_order env) w nodes;
                    added = (if force_removed = [] then added_names diff else names);
                    bp = \<lparr>bump_new_version = Suc version, bump_nodes = nodes, bump_force_removed = force_removed\<rparr>
                in if destructive diff \<noteq> [] \<and> force_removed = [] then stop (WalUnavailable version)
                   else if added = [] \<and> force_removed = [] then stop (Noop version names (already_present diff))
                   else if \<not> wal_ok then stop (WalUnavailable version)
                   else if force_removed = [] then
                     (let (new_version, w') = install_validated env v w
                      in \<lparr>rr_outcome = Success new_version names added (already_present diff), rr_registry = w', rr_logged = [bp]\<rparr>)
                   else
                     (let (applied, w') = apply_registry_bump env bp w
                      in \<lparr>rr_outcome = (if applied then Success (reg_version w') names added (already_present diff) else WalUnavailable version),
                          rr_registry = w', rr_logged = [bp]\<rparr>)))"

datatype RegisterResponse =
    FeatureRemoved FeatureRemovedError
  | Malformed
  | DryRun RegisterDiff
  | ForceRequired RegisterDiff
  | Outcome RegisterOutcome

definition pre_checks :: "reg_env \<Rightarrow> Json \<Rightarrow> FeatureRemovedError option" where
  "pre_checks env body =
     first_some id
       [pre_check_removed_ops body, pre_check_legacy_event_time_keys body, pre_check_unsupported_node_kind body,
        if re_enforce env then pre_check_unbounded_op_in_lifetime_mode body else None]"

definition flag :: "string \<Rightarrow> Json \<Rightarrow> bool" where
  "flag name body = opt_or (Option.bind (json_get name body) json_bool) False"

text \<open>A request on the apply thread: the response, the registry, and what was logged.\<close>

definition dispatch_register ::
    "reg_env \<Rightarrow> (Json \<Rightarrow> PayloadNode list option) \<Rightarrow> bool \<Rightarrow> Json \<Rightarrow> RegistryInner \<Rightarrow> RegisterResponse \<times> RegistryInner \<times> RegistryBumpPayload list" where
  "dispatch_register env deserialize wal_ok body w =
     (case pre_checks env body of
        Some e \<Rightarrow> (FeatureRemoved e, w, [])
      | None \<Rightarrow>
          (case deserialize body of
             None \<Rightarrow> (Malformed, w, [])
           | Some payload \<Rightarrow>
               (let force = flag ''force'' body; diff = classify_register_diff (re_fmt_debug env) (re_hash_order env) w payload in
                if flag ''dry_run'' body then (DryRun diff, w, [])
                else if register_check_force_required diff force then (ForceRequired diff, w, [])
                else
                  (let r = execute_register_inner env wal_ok (if force then force_removal w diff else []) payload w
                   in (Outcome (rr_outcome r), rr_registry r, rr_logged r)))))"

definition error_code_to_wire_str :: "ErrorCode \<Rightarrow> string" where
  "error_code_to_wire_str code =
     (case code of
        InvalidExpression \<Rightarrow> ''invalid_expression'' | UnknownFieldReference \<Rightarrow> ''invalid_expression''
      | SchemaPropagationFailure \<Rightarrow> ''invalid_expression'' | InvalidCastTarget \<Rightarrow> ''invalid_expression''
      | AggregationOnTableNotSupported \<Rightarrow> ''aggregation_on_table_not_supported''
      | AggregationUnknownField \<Rightarrow> ''aggregation_unknown_field''
      | AggregationInvalidWhere \<Rightarrow> ''aggregation_invalid_where''
      | AggregationInvalidWindow \<Rightarrow> ''aggregation_invalid_window''
      | AggregationUnknownOp \<Rightarrow> ''aggregation_unknown_op''
      | AggregationDuplicateFeatureName \<Rightarrow> ''aggregation_duplicate_feature_name''
      | AggregationGroupKeyCollidesWithFeature \<Rightarrow> ''aggregation_group_key_collides_with_feature''
      | AggregationFeatureNameCollisionAcrossAggregations \<Rightarrow> ''aggregation_feature_name_collision_across_aggregations''
      | WindowNotSupported \<Rightarrow> ''window_not_supported''
      | InvalidPercentileQ \<Rightarrow> ''invalid_percentile_q''
      | InvalidTopKK \<Rightarrow> ''invalid_top_k_k''
      | InvalidBloomFpr \<Rightarrow> ''invalid_bloom_fpr''
      | _ \<Rightarrow> ''invalid_registration'')"

text \<open>The HTTP status; the opcode of the frame says success exactly for 200.\<close>

fun outcome_status :: "RegisterOutcome \<Rightarrow> nat" where
  "outcome_status (Success _ _ _ _) = 200"
| "outcome_status (EmptyPayload _) = 200"
| "outcome_status (Noop _ _ _) = 200"
| "outcome_status (ValidationFailed _ _ _ _) = 400"
| "outcome_status (WalUnavailable _) = 503"

section \<open>The iteration order does not matter\<close>

definition permutes :: "(string list \<Rightarrow> string list) \<Rightarrow> bool" where
  "permutes hash_order \<longleftrightarrow> (\<forall>ks. set (hash_order ks) = set ks)"

lemma collision_errors_order:
  assumes "permutes ho" and "permutes ho'"
  shows "collision_errors ho registry compiled = [] \<longleftrightarrow> collision_errors ho' registry compiled = []"
  using assms by (auto simp: collision_errors_def permutes_def split: prod.splits)

lemma compile_aggregations_order:
  assumes "permutes ho" and "permutes ho'"
  shows "fst (compile_aggregations_from_nodes lm ho nodes registry propagated) = fst (compile_aggregations_from_nodes lm ho' nodes registry propagated)"
    and "snd (compile_aggregations_from_nodes lm ho nodes registry propagated) = [] \<longleftrightarrow> snd (compile_aggregations_from_nodes lm ho' nodes registry propagated) = []"
  using collision_errors_order [OF assms] by (simp_all add: compile_aggregations_from_nodes_def Let_def)

lemma structural_errors_order:
  "permutes ho \<Longrightarrow> permutes ho' \<Longrightarrow> structural_errors ho current payload = [] \<longleftrightarrow> structural_errors ho' current payload = []"
  using hash_order_edges [of ho current payload] hash_order_edges [of ho' current payload] by (simp add: permutes_def structural_errors_def)

lemma validate_payload_order:
  assumes "permutes ho" and "permutes ho'" and "validate_payload lm ho current payload = Inr v"
  shows "validate_payload lm ho' current payload = Inr v"
proof (cases "payload = []")
  case False
  let ?st = "validate_expressions lm current payload"
  obtain compiled agg_es where c: "compile_aggregations_from_nodes lm ho payload current (xs_schemas ?st) = (compiled, agg_es)" by fastforce
  have ok: "structural_errors ho current payload = []" "xs_errors ?st = []" "agg_es = []"
    "v = \<lparr>vp_nodes = payload, vp_chains = xs_chains ?st, vp_schemas = xs_schemas ?st, vp_aggregations = compiled\<rparr>"
    using assms(3) False c by (auto simp: validate_payload_def Let_def split: if_splits)
  moreover have "compile_aggregations_from_nodes lm ho' payload current (xs_schemas ?st) = (compiled, [])"
    using compile_aggregations_order [OF assms(1,2), of lm payload current "xs_schemas ?st"] c ok(3) by (simp add: prod_eq_iff)
  ultimately show ?thesis
    using structural_errors_order [OF assms(1,2), of current payload] False by (simp add: validate_payload_def Let_def)
qed (use assms(3) in \<open>simp add: validate_payload_def\<close>)

text \<open>Two processes that differ in the iteration order alone.\<close>

definition same_process :: "reg_env \<Rightarrow> reg_env \<Rightarrow> bool" where
  "same_process env env' \<longleftrightarrow>
     re_libm env = re_libm env' \<and> re_signature env = re_signature env' \<and> permutes (re_hash_order env) \<and> permutes (re_hash_order env')"

lemma apply_registry_bump_same: "same_process env env' \<Longrightarrow> apply_registry_bump env bp w = apply_registry_bump env' bp w"
proof -
  assume env: "same_process env env'"
  have "validate_payload (re_libm env) (re_hash_order env) w1 p = Inr v \<longleftrightarrow> validate_payload (re_libm env') (re_hash_order env') w1 p = Inr v" for w1 p v
    using env validate_payload_order unfolding same_process_def by metis
  then show ?thesis
    using env by (auto simp: apply_registry_bump_def Let_def install_validated_def same_process_def split: sum.split)
      (metis Inl_Inr_False)+
qed

end
