(* ===== verification/Wiring.thy ===== *)
theory Wiring
  imports Register
begin

text \<open>
  How registrations wire the registry: every aggregation reads from an upstream of its derivation,
  and every upstream of a derivation is registered. The lemmas show that installing a
  validated payload keeps this, and that so does the removal of what a forced registration
  replaces together with everything downstream of it (\<open>apply_shard.rs\<close>), along with the
  registry's own invariant.
\<close>

section \<open>Wired registries\<close>

definition wired :: "RegistryInner \<Rightarrow> bool" where
  "wired w \<longleftrightarrow>
     (\<forall>(n, a) \<in> set (compiled_aggregations w). \<exists>d. (n, d) \<in> set (derivations w) \<and> source_node_name a \<in> set (upstreams d)) \<and>
     (\<forall>(n, d) \<in> set (derivations w). \<forall>u \<in> set (upstreams d). known_in_current w u)"

lemma known_iff: "known_in_current w u \<longleftrightarrow> u \<in> fst ` set (reg_events w) \<union> fst ` set (reg_tables w) \<union> fst ` set (derivations w)"
  by (auto simp: known_in_current_def map_of_eq_None_iff)

lemma wired_default: "wired registry_default"
  by (simp add: wired_def registry_default_def)

lemma set_btree_insert_new: "k \<notin> fst ` set m \<Longrightarrow> set (btree_insert k v m) = insert (k, v) (set m)"
  by (induction m) (auto split: if_splits)

lemma in_btree_insertD: "y \<in> set (btree_insert k v m) \<Longrightarrow> y = (k, v) \<or> y \<in> set m"
  by (induction m) (auto split: if_splits)

text \<open>What a step of a registration may do to a wired registry.\<close>

lemma wired_grow:
  assumes "wired w" and "\<And>u. known_in_current w u \<Longrightarrow> known_in_current w' u"
    and "set (derivations w) \<subseteq> set (derivations w')"
    and "\<And>n a. (n, a) \<in> set (compiled_aggregations w') \<Longrightarrow> (n, a) \<notin> set (compiled_aggregations w) \<Longrightarrow>
      \<exists>d. (n, d) \<in> set (derivations w') \<and> source_node_name a \<in> set (upstreams d)"
    and "\<And>n d u. (n, d) \<in> set (derivations w') \<Longrightarrow> (n, d) \<notin> set (derivations w) \<Longrightarrow> u \<in> set (upstreams d) \<Longrightarrow> known_in_current w' u"
  shows "wired w'"
  unfolding wired_def
proof (intro conjI ballI; clarify)
  fix n a assume "(n, a) \<in> set (compiled_aggregations w')"
  then show "\<exists>d. (n, d) \<in> set (derivations w') \<and> source_node_name a \<in> set (upstreams d)"
    using assms(1,3,4) unfolding wired_def by (cases "(n, a) \<in> set (compiled_aggregations w)") blast+
next
  fix n d u assume "(n, d) \<in> set (derivations w')" "u \<in> set (upstreams d)"
  then show "known_in_current w' u"
    using assms(1,2,5) unfolding wired_def by (cases "(n, d) \<in> set (derivations w)") blast+
qed

lemma assign_cluster_frame:
  "assign_cluster sig gk w = (cid, w') \<Longrightarrow>
     reg_events w' = reg_events w \<and> reg_tables w' = reg_tables w \<and> derivations w' = derivations w \<and> compiled_aggregations w' = compiled_aggregations w"
  by (auto simp: assign_cluster_def Let_def split: option.splits)

lemma install_aggregation_effect:
  obtains a where "compiled_aggregations (install_aggregation sig n agg w) = btree_insert n a (compiled_aggregations w)"
    and "source_node_name a = source_node_name agg"
    and "reg_events (install_aggregation sig n agg w) = reg_events w" and "reg_tables (install_aggregation sig n agg w) = reg_tables w"
    and "derivations (install_aggregation sig n agg w) = derivations w"
proof -
  obtain cid w2 where c: "assign_cluster sig (group_keys agg) (w\<lparr>next_agg_id := Suc (next_agg_id w)\<rparr>) = (cid, w2)" by fastforce
  define a where "a = (case map_of (reg_events w2) (source_node_name agg) of
      Some e \<Rightarrow> resolve_field_indices_for_agg_mut_inner (agg\<lparr>agg_id := next_agg_id w, cluster_id := cid\<rparr>) (ev_schema e) (apply_field_names e)
    | None \<Rightarrow> agg\<lparr>agg_id := next_agg_id w, cluster_id := cid\<rparr>)"
  have "source_node_name a = source_node_name agg" using resolve_inner_same by (simp add: a_def split: option.split)
  then show thesis using assign_cluster_frame [OF c] by (intro that [of a]) (simp_all add: install_aggregation_def Let_def c a_def)
qed

text \<open>One node: its upstreams are known, and an aggregation of its name reads from one of them.\<close>

definition node_wired :: "compiled_aggs \<Rightarrow> PayloadNode \<Rightarrow> bool" where
  "node_wired aggs n \<longleftrightarrow>
     (\<forall>d agg. n = NDerivation d \<and> map_of (rev aggs) (der_name d) = Some agg \<longrightarrow> source_node_name agg \<in> set (upstreams d))"

lemma install_derivation_effect:
  assumes "map_of (derivations w) (der_name d) = None" and "node_wired aggs (NDerivation d)" and "w' = fst (install_derivation sig v chs schemas aggs d (w, newly))"
  obtains d2 where "derivations w' = btree_insert (der_name d) d2 (derivations w)" and "upstreams d2 = upstreams d"
    and "reg_events w' = reg_events w" and "reg_tables w' = reg_tables w"
    and "compiled_aggregations w' = compiled_aggregations w \<or>
      (\<exists>a. compiled_aggregations w' = btree_insert (der_name d) a (compiled_aggregations w) \<and> source_node_name a \<in> set (upstreams d))"
proof -
  let ?n = "der_name d"
  define d2 where "d2 = (case map_of (rev schemas) ?n of Some sch \<Rightarrow> d\<lparr>der_version := v, der_schema := sch\<rparr> | None \<Rightarrow> d\<lparr>der_version := v\<rparr>)"
  define w1 where "w1 = (case map_of (rev chs) ?n of Some c \<Rightarrow> w\<lparr>compiled_chains := btree_insert ?n c (compiled_chains w)\<rparr> | None \<Rightarrow> w)"
  have w1: "compiled_aggregations w1 = compiled_aggregations w" "reg_events w1 = reg_events w" "reg_tables w1 = reg_tables w" "derivations w1 = derivations w"
    by (simp_all add: w1_def split: option.splits)
  have d2: "upstreams d2 = upstreams d" by (simp add: d2_def split: option.split)
  show thesis
  proof (cases "map_of (rev aggs) ?n")
    case None
    then have "w' = w1\<lparr>derivations := btree_insert ?n d2 (derivations w1)\<rparr>"
      using assms(1) by (simp add: assms(3) install_derivation_def Let_def w1_def d2_def split: option.splits)
    then show thesis using w1 d2 by (intro that [of d2]) simp_all
  next
    case (Some agg)
    let ?w2 = "install_aggregation sig ?n agg w1"
    have w': "w' = ?w2\<lparr>derivations := btree_insert ?n d2 (derivations ?w2)\<rparr>"
      using assms(1) Some by (simp add: assms(3) install_derivation_def Let_def w1_def d2_def split: option.splits)
    obtain a where a: "compiled_aggregations ?w2 = btree_insert ?n a (compiled_aggregations w1)" "source_node_name a = source_node_name agg"
      "reg_events ?w2 = reg_events w1" "reg_tables ?w2 = reg_tables w1" "derivations ?w2 = derivations w1"
      by (rule install_aggregation_effect)
    have "source_node_name agg \<in> set (upstreams d)" using assms(2) Some by (simp add: node_wired_def)
    then show thesis using a w1 d2 by (intro that [of d2]) (auto simp: w')
  qed
qed

lemma install_derivation_wired:
  assumes "wired w" and "node_wired aggs (NDerivation d)" and "\<forall>u \<in> set (upstreams d). known_in_current w u"
    and "w' = fst (install_derivation sig v chs schemas aggs d (w, newly))"
  shows "wired w' \<and> (\<forall>u. known_in_current w u \<or> u = der_name d \<longrightarrow> known_in_current w' u)"
proof (cases "map_of (derivations w) (der_name d)")
  case None
  let ?n = "der_name d"
  have new: "?n \<notin> fst ` set (derivations w)" using None by (simp add: map_of_eq_None_iff)
  obtain d2 where ds: "derivations w' = btree_insert ?n d2 (derivations w)" and d2: "upstreams d2 = upstreams d"
    and f: "reg_events w' = reg_events w" "reg_tables w' = reg_tables w"
    and c: "compiled_aggregations w' = compiled_aggregations w \<or>
      (\<exists>a. compiled_aggregations w' = btree_insert ?n a (compiled_aggregations w) \<and> source_node_name a \<in> set (upstreams d))"
    using install_derivation_effect [OF None assms(2,4)] by blast
  then have ds: "set (derivations w') = insert (?n, d2) (set (derivations w))"
    using new by (simp add: set_btree_insert_new)
  have known: "known_in_current w' u \<longleftrightarrow> known_in_current w u \<or> u = ?n" for u
    using ds by (auto simp: known_iff f)
  have "wired w'"
  proof (rule wired_grow [OF assms(1)])
    show "\<exists>d. (n, d) \<in> set (derivations w') \<and> source_node_name a \<in> set (upstreams d)"
      if "(n, a) \<in> set (compiled_aggregations w')" "(n, a) \<notin> set (compiled_aggregations w)" for n a
      using that c d2 ds by (auto dest!: in_btree_insertD)
  qed (use ds d2 assms(3) known in auto)
  then show ?thesis using known by simp
next
  case (Some d')
  then show ?thesis using assms(1) by (auto simp: assms(4) install_derivation_def known_in_current_def)
qed

lemma install_node_wired:
  assumes "wired (fst s)" and "node_wired aggs n" and "\<forall>u \<in> set (node_upstreams n). known_in_current (fst s) u"
    and "s' = install_node sig v chs schemas aggs n s"
  shows "wired (fst s') \<and> (\<forall>u. known_in_current (fst s) u \<or> u = payload_name n \<longrightarrow> known_in_current (fst s') u)"
proof (cases n)
  case (NDerivation d)
  have "fst s' = fst (install_derivation sig v chs schemas aggs d (fst s, snd s))" by (simp add: assms(4) NDerivation install_node_def)
  from install_derivation_wired [OF assms(1) assms(2) [unfolded NDerivation] _ this] assms(3) show ?thesis by (simp add: NDerivation)
next
  case (NEvent e)
  have k: "known_in_current (fst s') u \<longleftrightarrow> known_in_current (fst s) u \<or> u = ev_name e" for u
    by (auto simp: assms(4) NEvent install_node_def install_event_def known_iff map_of_eq_None_iff Let_def)
  have "wired (fst s')"
    by (rule wired_grow [OF assms(1)]) (use k in \<open>auto simp: assms(4) NEvent install_node_def install_event_def Let_def split: if_splits\<close>)
  then show ?thesis using k by (simp add: NEvent)
next
  case (NTable t)
  have k: "known_in_current (fst s') u \<longleftrightarrow> known_in_current (fst s) u \<or> u = tab_name t" for u
    by (auto simp: assms(4) NTable install_node_def install_table_def known_iff map_of_eq_None_iff)
  have "wired (fst s')"
    by (rule wired_grow [OF assms(1)]) (use k in \<open>auto simp: assms(4) NTable install_node_def install_table_def split: if_splits\<close>)
  then show ?thesis using k by (simp add: NTable)
qed

lemma install_nodes_wired:
  assumes "wired (fst s)" and "\<forall>n \<in> set nodes. node_wired aggs n"
    and "\<forall>i < length nodes. \<forall>u \<in> set (node_upstreams (nodes ! i)). u \<in> set (map payload_name (take i nodes)) \<or> known_in_current (fst s) u"
  shows "wired (fst (fold (install_node sig v chs schemas aggs) nodes s))"
  using assms
proof (induction nodes arbitrary: s)
  case (Cons n nodes)
  let ?s = "install_node sig v chs schemas aggs n s"
  have head: "\<forall>u \<in> set (node_upstreams n). known_in_current (fst s) u" using Cons.prems(3) [rule_format, of 0] by simp
  have step: "wired (fst ?s) \<and> (\<forall>u. known_in_current (fst s) u \<or> u = payload_name n \<longrightarrow> known_in_current (fst ?s) u)"
    by (rule install_node_wired [OF Cons.prems(1) _ head refl]) (use Cons.prems(2) in simp)
  have "u \<in> set (map payload_name (take i nodes)) \<or> known_in_current (fst ?s) u" if "i < length nodes" "u \<in> set (node_upstreams (nodes ! i))" for i u
    using Cons.prems(3) [rule_format, of "Suc i" u] that step by auto
  then show ?case using Cons.IH [of ?s] Cons.prems(2) step by simp
qed simp

lemma fold_replace_in:
  "y \<in> set (fold (\<lambda>a m. if map_of m (node_name a) = None then m else btree_insert (node_name a) a m) as m) \<Longrightarrow>
     y \<in> set m \<or> (\<exists>a \<in> set as. y = (node_name a, a))"
  by (induction as arbitrary: m) (auto split: if_splits dest!: in_btree_insertD meta_spec)

lemma refresh_source_wired:
  assumes "wired w" and "core_ok sig w"
  shows "wired (refresh_source s w)"
proof (cases "map_of (reg_events w) s")
  case None
  then show ?thesis using assms(1) by (simp add: refresh_source_def Let_def)
next
  case (Some e)
  let ?R = "\<lambda>a. resolve_field_indices_for_agg_mut_inner a (ev_schema e) (name_set (concat (map declared_fields (src w s))))"
  have "btree_wf (reg_events w)" using assms(2) by (simp add: core_ok_def)
  then obtain evs where r: "refresh_source s w = (if map_of (aggregations_by_source w) s = None then w\<lparr>reg_events := evs\<rparr> else
      w\<lparr>reg_events := evs, aggregations_by_source := AList.update s (map ?R (src w s)) (aggregations_by_source w),
        compiled_aggregations := fold (\<lambda>a m. if map_of m (node_name a) = None then m else btree_insert (node_name a) a m)
          (map ?R (src w s)) (compiled_aggregations w)\<rparr>)"
    and evs: "map_of evs = (map_of (reg_events w))(s \<mapsto> e\<lparr>apply_field_names := name_set (concat (map declared_fields (src w s)))\<rparr>)"
    by (rule refresh_source_shape [OF _ Some refl refl])
  have d: "derivations (refresh_source s w) = derivations w" by (simp add: r)
  have known: "known_in_current (refresh_source s w) u \<longleftrightarrow> known_in_current w u" for u
    using Some by (simp add: r known_in_current_def evs)
  show ?thesis
  proof (rule wired_grow [OF assms(1)])
    fix n a assume a: "(n, a) \<in> set (compiled_aggregations (refresh_source s w))" "(n, a) \<notin> set (compiled_aggregations w)"
    then obtain b where b: "b \<in> set (src w s)" "n = node_name b" "source_node_name a = source_node_name b"
      using resolve_inner_same by (fastforce simp: r split: if_splits dest!: fold_replace_in)
    then have "(n, b) \<in> set (compiled_aggregations w)" using assms(2) by (auto simp: core_ok_def dest: map_of_SomeD)
    then show "\<exists>d. (n, d) \<in> set (derivations (refresh_source s w)) \<and> source_node_name a \<in> set (upstreams d)"
      using assms(1) b(3) unfolding d wired_def by fastforce
  qed (simp_all add: known d)
qed

lemma refresh_sources_wired:
  "wired w \<Longrightarrow> loop_ok sig S w \<Longrightarrow> wired (fold refresh_source ss w)"
proof (induction ss arbitrary: S w)
  case (Cons s ss)
  have "core_ok sig w" using Cons.prems(2) by (simp add: loop_ok_def)
  from Cons.IH [OF refresh_source_wired [OF Cons.prems(1) this] refresh_source_ok [OF Cons.prems(2)]] show ?case by simp
qed simp

lemma wired_cong:
  "wired w \<Longrightarrow> reg_events w' = reg_events w \<Longrightarrow> reg_tables w' = reg_tables w \<Longrightarrow> derivations w' = derivations w \<Longrightarrow>
     compiled_aggregations w' = compiled_aggregations w \<Longrightarrow> wired w'"
  by (simp add: wired_def known_in_current_def)

lemma apply_registration_wired:
  assumes "registry_ok sig w" and "wired w" and "payload_ok aggs" and "\<forall>n \<in> set nodes. node_wired aggs n"
    and "\<forall>i < length nodes. \<forall>u \<in> set (node_upstreams (nodes ! i)). u \<in> set (map payload_name (take i nodes)) \<or> known_in_current w u"
  shows "wired (snd (apply_registration sig nodes chs schemas aggs w))"
proof -
  obtain w1 newly where f: "fold (install_node sig (Suc (reg_version w)) chs schemas aggs) nodes (w, []) = (w1, newly)"
    by (meson surj_pair)
  have "pass_ok sig (w, [])" using registry_loop [OF assms(1)] by (simp add: pass_ok_def newly_sources_def)
  then have ok: "loop_ok sig (newly_sources newly w1) w1"
    using install_nodes_ok [OF _ assms(3), of sig "(w, [])" "Suc (reg_version w)" chs schemas nodes] by (simp add: f pass_ok_def)
  have "wired w1" using install_nodes_wired [of "(w, [])" nodes aggs sig "Suc (reg_version w)" chs schemas] assms(2,4,5) by (simp add: f)
  from refresh_sources_wired [OF this ok, of "affected_sources newly w1"] show ?thesis
    by (rule wired_cong) (simp_all add: apply_registration_def f Let_def index_features_def)
qed

section \<open>Validated payloads\<close>

lemma validate_payload_nodes: "validate_payload lm ho w payload = Inr v \<Longrightarrow> vp_nodes v = payload"
  by (auto simp: validate_payload_def Let_def split: if_splits prod.splits)

lemma validated_payload:
  assumes "permutes ho" and "validate_payload lm ho w payload = Inr v"
  shows "payload_ok (vp_aggregations v) \<and> (\<forall>n \<in> set payload. node_wired (vp_aggregations v) n) \<and>
    (\<forall>i < length payload. \<forall>u \<in> set (node_upstreams (payload ! i)). u \<in> set (map payload_name (take i payload)) \<or> known_in_current w u)"
proof (cases "payload = []")
  case True
  then show ?thesis using assms(2) by (auto simp: validate_payload_def payload_ok_def node_wired_def)
next
  case False
  obtain schemas where es: "structural_errors ho w payload = []"
    and c: "compile_aggregations_from_nodes lm ho payload w schemas = (vp_aggregations v, [])"
    using assms(2) False by (auto simp: validate_payload_def Let_def split: if_splits prod.splits)
  have st: "structure_ok w payload" using structural_errors_ok [of ho w payload] assms(1) es by (simp add: permutes_def)
  have "source_node_name agg \<in> set (upstreams d)"
    if "NDerivation d \<in> set payload" "map_of (rev (vp_aggregations v)) (der_name d) = Some agg" for d agg
  proof -
    have "(der_name d, agg) \<in> set (vp_aggregations v)" using map_of_SomeD [OF that(2)] by simp
    from compile_origin(1) [OF c this] obtain d' where d': "NDerivation d' \<in> set payload" "der_name d' = der_name d"
      "upstreams d' \<noteq> []" "source_node_name agg = hd (upstreams d')" by (auto simp: compiled_from_def)
    have "inj_on payload_name (set payload)" using st by (simp add: structure_ok_def distinct_map)
    then have "NDerivation d' = NDerivation d" using inj_onD [of payload_name "set payload" "NDerivation d'" "NDerivation d"] d'(1,2) that(1) by simp
    with d' show ?thesis by simp
  qed
  then show ?thesis using compile_origin(2) [OF c] st unfolding node_wired_def structure_ok_def by blast
qed

section \<open>Forced removal\<close>

text \<open>What one removal leaves of a consistent registry.\<close>

lemma core_ok_src: "core_ok sig w \<Longrightarrow> a \<in> set (src w s) \<Longrightarrow> source_node_name a = s \<and> map_of (compiled_aggregations w) (node_name a) = Some a"
  unfolding core_ok_def by (elim conjE) simp

lemma core_ok_compiled: "core_ok sig w \<Longrightarrow> map_of (compiled_aggregations w) n = Some a \<Longrightarrow> node_name a = n \<and> a \<in> set (src w (source_node_name a))"
  unfolding core_ok_def by (elim conjE) simp

lemma force_remove_one_effect:
  assumes "core_ok sig w" and "w' = snd (force_remove_one n (k, w))"
  shows "reg_events w' = AList.delete n (reg_events w)" and "reg_tables w' = AList.delete n (reg_tables w)"
    and "derivations w' = AList.delete n (derivations w)" and "compiled_aggregations w' = AList.delete n (compiled_aggregations w)"
    and "src w' = (\<lambda>s. filter (\<lambda>a. node_name a \<noteq> n) (src w s))"
    and "next_agg_id w' = next_agg_id w" and "cluster_id_by_signature w' = cluster_id_by_signature w" and "next_cluster_id w' = next_cluster_id w"
    and "reg_version w' = reg_version w"
proof -
  have del: "AList.delete n (compiled_aggregations w) = compiled_aggregations w" if "map_of (compiled_aggregations w) n = None"
    using that by (force simp: AList.delete_eq filter_id_conv map_of_eq_None_iff)
  show "reg_events w' = AList.delete n (reg_events w)" "reg_tables w' = AList.delete n (reg_tables w)"
    "derivations w' = AList.delete n (derivations w)" "compiled_aggregations w' = AList.delete n (compiled_aggregations w)"
    "next_agg_id w' = next_agg_id w" "cluster_id_by_signature w' = cluster_id_by_signature w" "next_cluster_id w' = next_cluster_id w"
    "reg_version w' = reg_version w"
    using del by (simp_all add: assms(2) force_remove_one_def Let_def split: option.splits)
  show "src w' = (\<lambda>s. filter (\<lambda>a. node_name a \<noteq> n) (src w s))"
  proof
    fix s
    show "src w' s = filter (\<lambda>a. node_name a \<noteq> n) (src w s)"
    proof (cases "map_of (compiled_aggregations w) n")
      case None
      then have "node_name a \<noteq> n" if "a \<in> set (src w s)" for a using core_ok_src [OF assms(1) that] None by auto
      then show ?thesis using None by (simp add: assms(2) force_remove_one_def compiled_aggregations_for_source_def filter_id_conv [THEN iffD2])
    next
      case (Some b)
      have b: "node_name b = n" "b \<in> set (src w (source_node_name b))" using core_ok_compiled [OF assms(1) Some] by simp_all
      have "filter (\<lambda>a. node_name a \<noteq> n) (src w s) = src w s" if "s \<noteq> source_node_name b"
        using core_ok_src [OF assms(1)] Some that unfolding filter_id_conv by fastforce
      moreover have "map_of (aggregations_by_source w) (source_node_name b) \<noteq> None"
        using b(2) by (cases "map_of (aggregations_by_source w) (source_node_name b)") (simp_all add: compiled_aggregations_for_source_def)
      then obtain aggs where aggs: "map_of (aggregations_by_source w) (source_node_name b) = Some aggs" by blast
      moreover have "src w' s = (if s = source_node_name b then filter (\<lambda>a. node_name a \<noteq> n) aggs else src w s)"
        using Some b(1) aggs by (simp add: assms(2) force_remove_one_def compiled_aggregations_for_source_def update_conv')
      ultimately show ?thesis by (simp add: compiled_aggregations_for_source_def)
    qed
  qed
qed

lemma btree_wf_delete [wf_intros]: "btree_wf m \<Longrightarrow> btree_wf (AList.delete k m)"
  by (simp add: btree_wf_def AList.delete_eq strict_sorted_iff distinct_map_filter sorted_filter)

lemma force_remove_one_core:
  assumes "core_ok sig w" and "w' = snd (force_remove_one n (k, w))"
  shows "core_ok sig w'"
proof -
  note e = force_remove_one_effect [OF assms]
  have m: "map_of (AList.delete n m) = (map_of m)(n := None)" for m :: "(string \<times> 'x) list" by (simp add: AList.delete_conv' fun_eq_iff)
  show ?thesis
    unfolding core_ok_def e m
  proof (intro conjI)
    show "\<forall>s. distinct (map node_name (filter (\<lambda>a. node_name a \<noteq> n) (src w s))) \<and>
        (\<forall>a \<in> set (filter (\<lambda>a. node_name a \<noteq> n) (src w s)). source_node_name a = s \<and> ((map_of (compiled_aggregations w))(n := None)) (node_name a) = Some a)"
      using assms(1) by (auto simp: core_ok_def distinct_map_filter)
    show "\<forall>na a. ((map_of (compiled_aggregations w))(n := None)) na = Some a \<longrightarrow>
        node_name a = na \<and> a \<in> set (filter (\<lambda>a. node_name a \<noteq> n) (src w (source_node_name a))) \<and> agg_id a < next_agg_id w \<and>
        map_of (cluster_id_by_signature w) (sig (group_keys a)) = Some (cluster_id a) \<and> ((map_of (derivations w))(n := None)) na \<noteq> None"
      using assms(1) by (auto simp: core_ok_def split: if_splits)
    show "\<forall>na m a b. ((map_of (compiled_aggregations w))(n := None)) na = Some a \<and> ((map_of (compiled_aggregations w))(n := None)) m = Some b \<and>
        agg_id a = agg_id b \<longrightarrow> na = m"
      using assms(1) by (auto simp: core_ok_def split: if_splits)
  qed (use assms(1) in \<open>simp_all add: core_ok_def wf_intros\<close>)
qed

lemma delete_filter: "AList.delete n m = filter (\<lambda>(k, _). k \<noteq> n) m"
  unfolding AList.delete_eq by (rule filter_cong) auto

lemma force_remove_fold:
  assumes "core_ok sig w" and "w' = snd (fold force_remove_one names (k, w))"
  shows "core_ok sig w' \<and> reg_events w' = filter (\<lambda>(n, _). n \<notin> set names) (reg_events w) \<and>
    reg_tables w' = filter (\<lambda>(n, _). n \<notin> set names) (reg_tables w) \<and> derivations w' = filter (\<lambda>(n, _). n \<notin> set names) (derivations w) \<and>
    compiled_aggregations w' = filter (\<lambda>(n, _). n \<notin> set names) (compiled_aggregations w) \<and>
    (\<forall>s. src w' s = filter (\<lambda>a. node_name a \<notin> set names) (src w s)) \<and> reg_version w' = reg_version w \<and> next_agg_id w' = next_agg_id w"
  using assms
proof (induction names arbitrary: w k)
  case (Cons n names)
  obtain k1 w1 where w1: "force_remove_one n (k, w) = (k1, w1)" by fastforce
  note e = force_remove_one_effect [OF Cons.prems(1), of w1 n k, unfolded w1, OF snd_conv [symmetric]]
  have "core_ok sig w1" using force_remove_one_core [OF Cons.prems(1), of w1 n k] by (simp add: w1)
  from Cons.IH [OF this, of k1] Cons.prems(2) show ?case
    by (simp add: w1 e delete_filter filter_filter case_prod_beta conj_commute)
qed simp

text \<open>A set of names is closed when nothing outside it depends on it.\<close>

lemma downstream_closed: "downstream w rs = [] \<longleftrightarrow> (\<forall>(n, d) \<in> set (derivations w). n \<notin> set rs \<longrightarrow> set (upstreams d) \<inter> set rs = {})"
  by (auto simp: downstream_def filter_empty_conv list_ex_iff)

lemma map_of_filter_others: "s \<notin> S \<Longrightarrow> map_of (filter (\<lambda>(n, _). n \<notin> S) m) s = map_of m s"
  by (induction m) auto

lemma force_remove_keeps:
  assumes "registry_ok sig w" and "wired w" and "downstream w names = []" and "w' = snd (force_remove_descriptors names w)"
  shows "registry_ok sig w' \<and> wired w'"
proof -
  have core: "core_ok sig w" using assms(1) by (simp add: registry_ok_def)
  have f: "core_ok sig w'" "reg_events w' = filter (\<lambda>(n, _). n \<notin> set names) (reg_events w)" "reg_tables w' = filter (\<lambda>(n, _). n \<notin> set names) (reg_tables w)"
    "derivations w' = filter (\<lambda>(n, _). n \<notin> set names) (derivations w)"
    "compiled_aggregations w' = filter (\<lambda>(n, _). n \<notin> set names) (compiled_aggregations w)"
    "src w' s = filter (\<lambda>a. node_name a \<notin> set names) (src w s)" for s
    using force_remove_fold [OF core, of w' names 0, folded force_remove_descriptors_def, OF assms(4)] by blast+
  have closed: "u \<notin> set names" if "(n, d) \<in> set (derivations w)" "n \<notin> set names" "u \<in> set (upstreams d)" for n d u
    using assms(3) that unfolding downstream_closed by blast
  have fed: "\<exists>d. (n, d) \<in> set (derivations w) \<and> source_node_name a \<in> set (upstreams d)" if "(n, a) \<in> set (compiled_aggregations w)" for n a
    using assms(2) that unfolding wired_def by blast
  have "indexed (map_of (reg_events w') s) a" if a: "a \<in> set (src w' s)" for s a
  proof -
    have a': "a \<in> set (src w s)" "node_name a \<notin> set names" using a unfolding f(6) by simp_all
    then have "source_node_name a = s" "(node_name a, a) \<in> set (compiled_aggregations w)"
      using core_ok_src [OF core a'(1)] by (simp_all add: map_of_SomeD)
    then have "s \<notin> set names" using closed [OF _ a'(2)] fed by blast
    then have "map_of (reg_events w') s = map_of (reg_events w) s" unfolding f(2) by (rule map_of_filter_others)
    then show ?thesis using assms(1) a'(1) by (simp add: registry_ok_def)
  qed
  moreover have "wired w'"
    unfolding wired_def
  proof (intro conjI ballI; clarify)
    fix n a assume "(n, a) \<in> set (compiled_aggregations w')"
    then have "(n, a) \<in> set (compiled_aggregations w)" "n \<notin> set names" unfolding f(5) by simp_all
    then show "\<exists>d. (n, d) \<in> set (derivations w') \<and> source_node_name a \<in> set (upstreams d)" using fed unfolding f(4) by simp
  next
    fix n d u assume "(n, d) \<in> set (derivations w')" "u \<in> set (upstreams d)"
    then have d: "(n, d) \<in> set (derivations w)" "n \<notin> set names" "u \<in> set (upstreams d)" unfolding f(4) by simp_all
    then have "known_in_current w u" using assms(2) unfolding wired_def by blast
    then show "known_in_current w' u" using closed [OF d] unfolding known_in_current_def f(2-4) by (simp add: map_of_filter_others)
  qed
  ultimately show ?thesis using f(1) by (simp add: registry_ok_def)
qed

text \<open>The closure of a forced registration is complete within its rounds: a round that is not the last adds a
  derivation.\<close>

lemma downstream_shrinks:
  assumes "downstream w rs \<noteq> []"
  shows "length (filter (\<lambda>(n, _). n \<notin> set (name_set (rs @ downstream w rs))) (derivations w)) < length (filter (\<lambda>(n, _). n \<notin> set rs) (derivations w))"
proof -
  let ?p = "\<lambda>(n, _). n \<notin> set (name_set (rs @ downstream w rs))"
  obtain n d where d: "(n, d) \<in> set (derivations w)" "n \<notin> set rs" "n \<in> set (downstream w rs)"
  proof -
    obtain n where n: "n \<in> set (downstream w rs)" using assms by (cases "downstream w rs") auto
    then obtain d where "(n, d) \<in> set (derivations w)" "n \<notin> set rs" by (auto simp: downstream_def)
    then show thesis using n that by blast
  qed
  have "filter ?p (derivations w) = filter ?p (filter (\<lambda>(n, _). n \<notin> set rs) (derivations w))"
    unfolding filter_filter by (rule filter_cong) auto
  also have "length \<dots> < length (filter (\<lambda>(n, _). n \<notin> set rs) (derivations w))"
    using d by (intro length_filter_less [of "(n, d)"]) auto
  finally show ?thesis .
qed

lemma cascade_closed: "length (filter (\<lambda>(n, _). n \<notin> set rs) (derivations w)) \<le> k \<Longrightarrow> downstream w (cascade k w rs) = []"
proof (induction k arbitrary: rs)
  case 0
  then show ?case by (auto simp: downstream_def filter_empty_conv)
next
  case (Suc k)
  show ?case
  proof (cases "downstream w rs = []")
    case False
    have "length (filter (\<lambda>(n, _). n \<notin> set (name_set (rs @ downstream w rs))) (derivations w)) \<le> k"
      using downstream_shrinks [OF False] Suc.prems by linarith
    from Suc.IH [OF this] False show ?thesis by (simp add: Let_def)
  qed simp
qed

lemma force_removal_closed: "downstream w (force_removal w diff) = []"
  unfolding force_removal_def
  by (rule cascade_closed) (simp add: node_count_def le_trans [OF length_filter_le])

text \<open>Applying a bump keeps a registry consistent and wired, whether the payload passes validation or not.\<close>

lemma apply_registry_bump_keeps:
  assumes "registry_ok (re_signature env) w" and "wired w" and "permutes (re_hash_order env)" and "downstream w (bump_force_removed bp) = []"
    and "apply_registry_bump env bp w = (ok, w')"
  shows "registry_ok (re_signature env) w' \<and> wired w'"
proof -
  define w1 where "w1 = (if bump_force_removed bp \<noteq> [] then snd (force_remove_descriptors (bump_force_removed bp) w) else w)"
  have w1: "registry_ok (re_signature env) w1" "wired w1"
    using force_remove_keeps [OF assms(1,2,4) refl] assms(1,2) by (simp_all add: w1_def)
  show ?thesis
  proof (cases "validate_payload (re_libm env) (re_hash_order env) w1 (bump_nodes bp)")
    case (Inl es)
    then show ?thesis using assms(5) w1 by (simp add: apply_registry_bump_def w1_def [symmetric])
  next
    case (Inr v)
    then have w': "w' = snd (install_validated env v w1)" using assms(5) by (simp add: apply_registry_bump_def w1_def [symmetric])
    note v = validated_payload [OF assms(3) Inr] validate_payload_nodes [OF Inr]
    show ?thesis
      unfolding w' install_validated_def
      using v apply_registration_ok [OF w1(1)] apply_registration_wired [OF w1] by simp
  qed
qed

end
