(* ===== verification/Server.thy ===== *)
theory Server
  imports PushPath Wiring
begin

text \<open>
  The server as a whole: registrations and pushes on one state, and the replay of the registry's log
  (\<open>replay_wal_from_lsn\<close> of \<open>crates/beava-server/src/recovery.rs\<close>). The deserializers of the two record
  bodies are the parameters \<open>decode_event\<close> and \<open>decode_bump\<close>. The admin snapshot, a copy of
  the registry's version and size for metrics, is not modelled.

  The lemmas show that every sequence of requests keeps the registry consistent, forced removals included, that
  replay of the registry's log rebuilds the registry and the tables when every logged
  registration was acknowledged and stops at the first that was not, that forced registrations which drop what they read
  from are such records, and which changes of a descriptor go unnoticed.
\<close>

section \<open>Registration on the server's state\<close>

definition dispatch_register_one ::
    "reg_env \<Rightarrow> (Json \<Rightarrow> PayloadNode list option) \<Rightarrow> bool \<Rightarrow> Json \<Rightarrow> DevAggState \<Rightarrow> RegisterResponse \<times> DevAggState \<times> RegistryBumpPayload list" where
  "dispatch_register_one env deserialize wal_ok body d =
     (let (resp, w, logged) = dispatch_register env deserialize wal_ok body (da_registry d) in
      (resp,
       case resp of
         Outcome _ \<Rightarrow> d\<lparr>da_registry := w, da_tables := (if 0 < next_agg_id w then ensure_capacity_for (next_agg_id w) (da_tables d) else da_tables d)\<rparr>
       | _ \<Rightarrow> d,
       logged))"

section \<open>Replay of the registry's log\<close>

record WalEventPayload =
  we_rv :: nat
  we_s :: string
  we_et :: int
  we_b :: Json

definition json_scalar :: "Json \<Rightarrow> Value" where
  "json_scalar j =
     (case j of
        JBool b \<Rightarrow> VBool b
      | JNumber i f \<Rightarrow> (case i of Some n \<Rightarrow> VI64 n | None \<Rightarrow> (case f of Some x \<Rightarrow> VF64 x | None \<Rightarrow> VNull))
      | JString s \<Rightarrow> VStr s
      | _ \<Rightarrow> VNull)"

definition json_object_to_row :: "Json \<Rightarrow> Row" where
  "json_object_to_row jv =
     (case jv of JObject obj \<Rightarrow> fold (\<lambda>(field, v) row. with_field row field (json_scalar v)) obj [] | _ \<Rightarrow> [])"

datatype RecoveryError = ReadFailed PersistError | BumpApplyFailed u64 | BumpDecodeFailed u64

text \<open>The state of the replay is that of the data-plane log with the number of bumps applied.\<close>

type_synonym wal_replay = "replay_state \<times> nat"

definition replay_wal_event :: "push_env \<Rightarrow> (u8 list \<Rightarrow> WalEventPayload option) \<Rightarrow> u64 \<Rightarrow> WalRecord \<Rightarrow> replay_state \<Rightarrow> replay_state option" where
  "replay_wal_event env decode_event from_lsn_exclusive rec s =
     (let (d, quarantine, outcome0) = s; lsn = wr_lsn rec; kind = PersistenceEventPayload in
      if lsn \<le> from_lsn_exclusive then Some s
      else
        let outcome = outcome0\<lparr>last_lsn := max (last_lsn outcome0) lsn\<rparr> in
        if (lsn, kind) \<in> set quarantine then Some (d, quarantine, outcome\<lparr>quarantined_records := Suc (quarantined_records outcome)\<rparr>)
        else case decode_event (wr_payload rec) of
               None \<Rightarrow> Some (d, (lsn, kind) # quarantine, outcome\<lparr>quarantined_records := Suc (quarantined_records outcome)\<rparr>)
             | Some p \<Rightarrow>
                 (let cold = (case get_event_descriptor (da_registry d) (we_s p) of None \<Rightarrow> None | Some desc \<Rightarrow> cold_after_ms desc) in
                  map_option (\<lambda>ts.
                      (d\<lparr>da_tables := ts, next_event_id := max (next_event_id d) lsn,
                         query_time_ms := (if we_et p > 0 then max (query_time_ms d) (word_of_int (we_et p)) else query_time_ms d)\<rparr>,
                       quarantine, outcome\<lparr>replay_event_count := Suc (replay_event_count outcome)\<rparr>))
                    (apply_event_to_aggregations_replay (pe_fx env) (pe_agg env) (we_s p) (json_object_to_row (we_b p)) (we_et p) (we_rv p)
                       (da_registry d) cold (da_tables d))))"

text \<open>An error ends the replay and leaves the state as it is, a failed bump's removals included.\<close>

definition replay_wal_bump ::
    "reg_env \<Rightarrow> (u8 list \<Rightarrow> RegistryBumpPayload option) \<Rightarrow> WalRecord \<Rightarrow> wal_replay \<Rightarrow> wal_replay \<times> RecoveryError option" where
  "replay_wal_bump env decode_bump rec s =
     (let ((d, quarantine, outcome0), bumps) = s in
      case decode_bump (wr_payload rec) of
        None \<Rightarrow> (s, Some (BumpDecodeFailed (wr_lsn rec)))
      | Some bp \<Rightarrow>
          (let outcome = outcome0\<lparr>last_lsn := max (last_lsn outcome0) (wr_lsn rec)\<rparr> in
           if bump_new_version bp \<le> reg_version (da_registry d) then (((d, quarantine, outcome), bumps), None)
           else case apply_registry_bump env bp (da_registry d) of
                  (False, w) \<Rightarrow> (((d\<lparr>da_registry := w\<rparr>, quarantine, outcome), bumps), Some (BumpApplyFailed (wr_lsn rec)))
                | (True, w) \<Rightarrow>
                    (((d\<lparr>da_registry := w, da_tables := ensure_capacity_for (next_agg_id w) (da_tables d)\<rparr>, quarantine, outcome), Suc bumps), None)))"

fun replay_wal_records ::
    "push_env \<Rightarrow> reg_env \<Rightarrow> (u8 list \<Rightarrow> WalEventPayload option) \<Rightarrow> (u8 list \<Rightarrow> RegistryBumpPayload option) \<Rightarrow> u64 \<Rightarrow>
     WalRecord list \<Rightarrow> wal_replay \<Rightarrow> (wal_replay \<times> RecoveryError option) option" where
  "replay_wal_records penv env decode_event decode_bump from_lsn [] s = Some (s, None)"
| "replay_wal_records penv env decode_event decode_bump from_lsn (rec # recs) s =
     (case wr_record_type rec of
        RtEvent \<Rightarrow>
          (case replay_wal_event penv decode_event from_lsn rec (fst s) of
             None \<Rightarrow> None
           | Some r \<Rightarrow> replay_wal_records penv env decode_event decode_bump from_lsn recs (r, snd s))
      | RtRegistryBump \<Rightarrow>
          (case replay_wal_bump env decode_bump rec s of
             (s', Some e) \<Rightarrow> Some (s', Some e)
           | (s', None) \<Rightarrow> replay_wal_records penv env decode_event decode_bump from_lsn recs s'))"

definition replay_wal_from_lsn ::
    "push_env \<Rightarrow> reg_env \<Rightarrow> (u8 list \<Rightarrow> u32) \<Rightarrow> (u8 list \<Rightarrow> WalEventPayload option) \<Rightarrow> (u8 list \<Rightarrow> RegistryBumpPayload option) \<Rightarrow>
     directory \<Rightarrow> (u64 \<times> WalQuarantineKind) list \<Rightarrow> u64 \<Rightarrow> DevAggState \<Rightarrow> (wal_replay \<times> RecoveryError option) option" where
  "replay_wal_from_lsn penv env crc decode_event decode_bump wal_dir quarantine from_lsn d =
     (let s = ((d, quarantine, \<lparr>snapshot_lsn = from_lsn, replay_event_count = 0, quarantined_records = 0, last_lsn = 0\<rparr>), 0) in
      case read_all crc wal_dir of
        Inl e \<Rightarrow> Some (s, Some (ReadFailed e))
      | Inr recs \<Rightarrow> replay_wal_records penv env decode_event decode_bump from_lsn recs s)"

section \<open>A run of registrations and its replay\<close>

fun is_success :: "RegisterResponse \<Rightarrow> bool" where
  "is_success (Outcome (Success _ _ _ _)) = True"
| "is_success _ = False"

text \<open>A request that logs a bump changes the registry as the bump does, and succeeds exactly when the bump applies.\<close>

lemma dispatch_register_logs:
  assumes "dispatch_register env deserialize wal_ok body w = (resp, w', logged)"
  shows "logged = [] \<and> w' = w \<or>
    (\<exists>bp. logged = [bp] \<and> bump_new_version bp = Suc (reg_version w) \<and> downstream w (bump_force_removed bp) = [] \<and>
       apply_registry_bump env bp w = (is_success resp, w') \<and> (\<exists>out. resp = Outcome out))"
proof -
  have inner: "rr_logged r = [] \<and> rr_registry r = w \<or>
      (\<exists>bp. rr_logged r = [bp] \<and> bump_new_version bp = Suc (reg_version w) \<and> bump_force_removed bp = removed \<and> apply_registry_bump env bp w = (is_success (Outcome (rr_outcome r)), rr_registry r))"
    if "r = execute_register_inner env wal_ok removed payload w" for r removed payload
  proof (cases "validate_payload (re_libm env) (re_hash_order env) w payload")
    case (Inr v)
    let ?bp = "\<lparr>bump_new_version = Suc (reg_version w), bump_nodes = vp_nodes v, bump_force_removed = removed\<rparr>"
    have plain: "apply_registry_bump env ?bp w = (True, snd (install_validated env v w))" if "removed = []"
      using Inr validate_payload_nodes [OF Inr] that by (simp add: apply_registry_bump_def)
    obtain ok w' where bp: "apply_registry_bump env ?bp w = (ok, w')" by fastforce
    have "rr_logged r = [] \<and> rr_registry r = w \<or>
        rr_logged r = [?bp] \<and> apply_registry_bump env ?bp w = (is_success (Outcome (rr_outcome r)), rr_registry r)"
      unfolding that using Inr bp plain by (cases "removed = []") (auto simp: execute_register_inner_def Let_def split: prod.splits)
    then show ?thesis by auto
  qed (simp add: that execute_register_inner_def Let_def)
  show ?thesis
  proof (cases "\<exists>payload. pre_checks env body = None \<and> deserialize body = Some payload \<and> \<not> flag ''dry_run'' body \<and>
      \<not> register_check_force_required (classify_register_diff (re_fmt_debug env) (re_hash_order env) w payload) (flag ''force'' body)")
    case True
    then obtain payload where p: "pre_checks env body = None" "deserialize body = Some payload" "\<not> flag ''dry_run'' body"
      "\<not> register_check_force_required (classify_register_diff (re_fmt_debug env) (re_hash_order env) w payload) (flag ''force'' body)" by blast
    define removed where "removed = (if flag ''force'' body then force_removal w (classify_register_diff (re_fmt_debug env) (re_hash_order env) w payload) else [])"
    define r where "r = execute_register_inner env wal_ok removed payload w"
    have "downstream w [] = []" by (simp add: downstream_closed)
    then have "downstream w removed = []" by (simp add: removed_def force_removal_closed)
    moreover have "resp = Outcome (rr_outcome r)" "w' = rr_registry r" "logged = rr_logged r"
      using assms p by (simp_all add: dispatch_register_def Let_def r_def removed_def)
    ultimately show ?thesis using inner [OF r_def] by auto
  qed (use assms in \<open>auto simp: dispatch_register_def Let_def split: option.splits if_splits\<close>)
qed

text \<open>Every aggregation has its table.\<close>

definition tables_cover :: "DevAggState \<Rightarrow> bool" where
  "tables_cover d \<longleftrightarrow> next_agg_id (da_registry d) \<le> length (da_tables d)"

lemma ensure_capacity_enough [simp]: "n \<le> length ts \<Longrightarrow> ensure_capacity_for n ts = ts"
  by (simp add: ensure_capacity_for_def)

lemma dispatch_register_one_logs:
  assumes "dispatch_register_one env deserialize wal_ok body d = (resp, d', logged)" and "tables_cover d"
  shows "tables_cover d' \<and> (logged = [] \<and> d' = d \<or>
    (\<exists>bp w. logged = [bp] \<and> bump_new_version bp = Suc (reg_version (da_registry d)) \<and> downstream (da_registry d) (bump_force_removed bp) = [] \<and>
       apply_registry_bump env bp (da_registry d) = (is_success resp, w) \<and> d' = d\<lparr>da_registry := w, da_tables := ensure_capacity_for (next_agg_id w) (da_tables d)\<rparr>))"
proof -
  obtain w where r: "dispatch_register env deserialize wal_ok body (da_registry d) = (resp, w, logged)"
    and d': "d' = (case resp of Outcome _ \<Rightarrow> d\<lparr>da_registry := w, da_tables := ensure_capacity_for (next_agg_id w) (da_tables d)\<rparr> | _ \<Rightarrow> d)"
    using assms(1) by (auto simp: dispatch_register_one_def Let_def split: prod.splits RegisterResponse.splits if_splits)
  from dispatch_register_logs [OF r] show ?thesis
  proof (elim disjE exE conjE)
    assume l: "logged = []" "w = da_registry d"
    then have "d' = d" using assms(2) by (simp add: d' tables_cover_def split: RegisterResponse.splits)
    then show ?thesis using l assms(2) by simp
  next
    fix bp out
    assume "logged = [bp]" "bump_new_version bp = Suc (reg_version (da_registry d))" "downstream (da_registry d) (bump_force_removed bp) = []" "apply_registry_bump env bp (da_registry d) = (is_success resp, w)" "resp = Outcome out"
    then show ?thesis using length_ensure [of "next_agg_id w" "da_tables d"] by (simp add: d' tables_cover_def)
  qed
qed

text \<open>A sequence of registration requests: the state after them, the bumps they logged, and whether every request
  that logged one was answered with success.\<close>

fun serve_registrations ::
    "reg_env \<Rightarrow> (Json \<Rightarrow> PayloadNode list option) \<Rightarrow> (bool \<times> Json) list \<Rightarrow> DevAggState \<Rightarrow> DevAggState \<times> RegistryBumpPayload list \<times> bool" where
  "serve_registrations env deserialize [] d = (d, [], True)"
| "serve_registrations env deserialize ((wal_ok, body) # reqs) d =
     (let (resp, d1, logged) = dispatch_register_one env deserialize wal_ok body d;
          (d2, bumps_log, acked) = serve_registrations env deserialize reqs d1
      in (d2, logged @ bumps_log, (logged \<noteq> [] \<longrightarrow> is_success resp) \<and> acked))"

abbreviation logs_bump :: "(u8 list \<Rightarrow> RegistryBumpPayload option) \<Rightarrow> WalRecord \<Rightarrow> RegistryBumpPayload \<Rightarrow> bool" where
  "logs_bump decode_bump rec bp \<equiv> wr_record_type rec = RtRegistryBump \<and> decode_bump (wr_payload rec) = Some bp"

lemma force_remove_next_agg_id: "next_agg_id (snd (fold force_remove_one names s)) = next_agg_id (snd s)"
proof (induction names arbitrary: s)
  case (Cons n names)
  have "next_agg_id (snd (force_remove_one n s)) = next_agg_id (snd s)"
    by (cases s) (simp add: force_remove_one_def Let_def split: option.split)
  then show ?case using Cons.IH by simp
qed simp

lemma failed_bump_agg_ids: "apply_registry_bump env bp w = (False, w') \<Longrightarrow> next_agg_id w' = next_agg_id w"
  using force_remove_next_agg_id [of "bump_force_removed bp" "(0, w)"]
  by (auto simp: apply_registry_bump_def force_remove_descriptors_def Let_def split: sum.splits if_splits)

lemma replay_bump_step:
  assumes "same_process env env'" and "bump_new_version bp = Suc (reg_version (da_registry d))" and "apply_registry_bump env bp (da_registry d) = (ok, w)"
    and "decode_bump (wr_payload rec) = Some bp" and "tables_cover d"
  shows "\<exists>outcome'. replay_wal_bump env' decode_bump rec ((d, quarantine, outcome), n) =
      (((d\<lparr>da_registry := w, da_tables := ensure_capacity_for (next_agg_id w) (da_tables d)\<rparr>, quarantine, outcome'), if ok then Suc n else n),
       if ok then None else Some (BumpApplyFailed (wr_lsn rec))) \<and>
    outcome' = outcome\<lparr>last_lsn := max (last_lsn outcome) (wr_lsn rec)\<rparr>"
proof -
  have "ensure_capacity_for (next_agg_id w) (da_tables d) = da_tables d" if "\<not> ok"
    using failed_bump_agg_ids [of env bp "da_registry d" w] assms(3,5) that by (simp add: tables_cover_def)
  then show ?thesis using assms(2-4) apply_registry_bump_same [OF assms(1), of bp "da_registry d"] by (simp add: replay_wal_bump_def Let_def)
qed

lemma replay_registrations:
  assumes "same_process env env'"
  shows "serve_registrations env deserialize reqs d = (d', bumps_log, acked) \<Longrightarrow> tables_cover d \<Longrightarrow> list_all2 (logs_bump decode_bump) recs bumps_log \<Longrightarrow>
    (acked \<longrightarrow> replay_wal_records penv env' decode_event decode_bump from_lsn recs ((d, quarantine, outcome), n) =
       Some (((d', quarantine, outcome\<lparr>last_lsn := fold max (map wr_lsn recs) (last_lsn outcome)\<rparr>), n + length bumps_log), None)) \<and>
    (\<not> acked \<longrightarrow> (\<exists>k d1 log1 m o1. \<exists>rec \<in> set recs. snd (snd (serve_registrations env deserialize (take k reqs) d)) \<and>
       serve_registrations env deserialize (take (Suc k) reqs) d = (d1, log1, False) \<and>
       replay_wal_records penv env' decode_event decode_bump from_lsn recs ((d, quarantine, outcome), n) =
         Some (((d1, quarantine, o1), m), Some (BumpApplyFailed (wr_lsn rec)))))"
proof (induction reqs arbitrary: d bumps_log acked recs outcome n)
  case (Cons req reqs)
  let ?replay = "replay_wal_records penv env' decode_event decode_bump from_lsn"
  obtain wal_ok body where req: "req = (wal_ok, body)" by (cases req)
  obtain resp d1 logged where r: "dispatch_register_one env deserialize wal_ok body d = (resp, d1, logged)" by (metis prod_cases3)
  obtain log1 acked1 where s: "serve_registrations env deserialize reqs d1 = (d', log1, acked1)"
    using Cons.prems(1) by (auto simp: req r Let_def split: prod.splits)
  have l: "bumps_log = logged @ log1" "acked \<longleftrightarrow> (logged \<noteq> [] \<longrightarrow> is_success resp) \<and> acked1"
    using Cons.prems(1) by (auto simp: req r s Let_def)
  note one = dispatch_register_one_logs [OF r Cons.prems(2)]
  then have cover: "tables_cover d1" by simp
  have more: "\<exists>k d1' log1' m o1. \<exists>rec \<in> set recs. snd (snd (serve_registrations env deserialize (take k (req # reqs)) d)) \<and>
       serve_registrations env deserialize (take (Suc k) (req # reqs)) d = (d1', log1', False) \<and>
       ?replay recs ((d, quarantine, outcome), n) = Some (((d1', quarantine, o1), m), Some (BumpApplyFailed (wr_lsn rec)))"
    if "logged \<noteq> [] \<longrightarrow> is_success resp" and "snd (snd (serve_registrations env deserialize (take k reqs) d1))"
      and "serve_registrations env deserialize (take (Suc k) reqs) d1 = (d2, log2, False)" and "rec \<in> set recs"
      and "?replay recs ((d, quarantine, outcome), n) = Some (((d2, quarantine, o1), m), Some (BumpApplyFailed (wr_lsn rec)))" for k d2 log2 rec o1 m
    using that by (intro exI [of _ "Suc k"] exI [of _ d2] exI [of _ "logged @ log2"] exI [of _ m] exI [of _ o1] bexI [of _ rec])
      (auto simp: req r Let_def split: prod.splits)
  from one show ?case
  proof (elim conjE disjE exE)
    assume n: "logged = []" "d1 = d"
    then show ?thesis using Cons.IH [OF s cover, of recs outcome n] Cons.prems(3) l more by fastforce
  next
    fix bp w
    assume lg: "logged = [bp]" and bp: "bump_new_version bp = Suc (reg_version (da_registry d))" "apply_registry_bump env bp (da_registry d) = (is_success resp, w)"
      and d1: "d1 = d\<lparr>da_registry := w, da_tables := ensure_capacity_for (next_agg_id w) (da_tables d)\<rparr>"
    obtain rec recs1 where recs: "recs = rec # recs1" "logs_bump decode_bump rec bp" "list_all2 (logs_bump decode_bump) recs1 log1"
      using Cons.prems(3) by (auto simp: l(1) lg list_all2_Cons2)
    let ?o = "outcome\<lparr>last_lsn := max (last_lsn outcome) (wr_lsn rec)\<rparr>"
    have step: "replay_wal_bump env' decode_bump rec ((d, quarantine, outcome), n) =
        (((d1, quarantine, ?o), if is_success resp then Suc n else n), if is_success resp then None else Some (BumpApplyFailed (wr_lsn rec)))"
      using replay_bump_step [OF assms bp _ Cons.prems(2), of decode_bump rec quarantine outcome n] recs(2) by (simp add: d1)
    show ?thesis
    proof (cases "is_success resp")
      case True
      then have eq: "?replay recs ((d, quarantine, outcome), n) = ?replay recs1 ((d1, quarantine, ?o), Suc n)" using recs(1,2) step by simp
      show ?thesis
      proof (cases acked1)
        case True
        then show ?thesis using Cons.IH [OF s cover recs(3), of ?o "Suc n"] \<open>is_success resp\<close> unfolding eq by (simp add: recs(1) l lg max.commute)
      next
        case False
        then show ?thesis using Cons.IH [OF s cover recs(3), of ?o "Suc n"] \<open>is_success resp\<close> more l eq recs(1) by fastforce
      qed
    next
      case False
      have "serve_registrations env deserialize (take (Suc 0) (req # reqs)) d = (d1, [bp], False)" using False by (simp add: req r lg)
      moreover have "?replay recs ((d, quarantine, outcome), n) = Some (((d1, quarantine, ?o), n), Some (BumpApplyFailed (wr_lsn rec)))"
        using False recs(1,2) step by simp
      ultimately show ?thesis using False recs(1) by (auto simp: l lg intro!: exI [of _ "0 :: nat"])
    qed
  qed
qed simp

section \<open>The server's invariant\<close>

definition server_ok :: "(string list \<Rightarrow> u64) \<Rightarrow> DevAggState \<Rightarrow> bool" where
  "server_ok sig d \<longleftrightarrow> registry_ok sig (da_registry d) \<and> wired (da_registry d) \<and> versions_ok (da_registry d) \<and> tables_cover d"

lemma bump_versions:
  assumes "registry_ok sig w" and "versions_ok w" and "apply_registry_bump env bp w = (ok, w')"
  shows "versions_ok w'"
proof -
  define w1 where "w1 = (if bump_force_removed bp \<noteq> [] then snd (force_remove_descriptors (bump_force_removed bp) w) else w)"
  have "core_ok sig w" using assms(1) by (simp add: registry_ok_def)
  from force_remove_fold [OF this refl, of "bump_force_removed bp" 0] have "versions_ok w1"
    using assms(2) by (auto simp: w1_def versions_ok_def force_remove_descriptors_def)
  from registration_versions [OF this] this show ?thesis
    using assms(3) by (auto simp: apply_registry_bump_def install_validated_def w1_def [symmetric] split: sum.splits)
qed

lemma register_keeps:
  assumes "server_ok (re_signature env) d" and "permutes (re_hash_order env)" and "dispatch_register_one env deserialize wal_ok body d = (resp, d', logged)"
  shows "server_ok (re_signature env) d'"
proof -
  have ok: "registry_ok (re_signature env) (da_registry d)" "wired (da_registry d)" "versions_ok (da_registry d)" "tables_cover d"
    using assms(1) by (simp_all add: server_ok_def)
  from dispatch_register_one_logs [OF assms(3) ok(4)] show ?thesis
  proof (elim conjE disjE exE)
    fix bp w
    assume bp: "downstream (da_registry d) (bump_force_removed bp) = []" "apply_registry_bump env bp (da_registry d) = (is_success resp, w)"
      and d': "d' = d\<lparr>da_registry := w, da_tables := ensure_capacity_for (next_agg_id w) (da_tables d)\<rparr>" and c: "tables_cover d'"
    from apply_registry_bump_keeps [OF ok(1,2) assms(2) bp] bump_versions [OF ok(1,3) bp(2)] c show ?thesis by (simp add: server_ok_def d')
  qed (use assms(1) in simp)
qed

text \<open>A push leaves the registry alone and drops no table.\<close>

lemma apply_desc_length: "apply_desc fx env w row now cold ex desc s = Some s' \<Longrightarrow> length (snd s) \<le> length (snd s')"
  by (auto simp: apply_desc_def ensure_capacity_for_def Let_def split: option.splits prod.splits)

lemma apply_event_length:
  assumes "apply_event_to_aggregations fx env source row now w cold ts = Some ts'"
  shows "length ts \<le> length ts'"
proof -
  have "fold_opt (apply_desc fx env w row now cold ex) descs s = Some s' \<Longrightarrow> length (snd s) \<le> length (snd s')" for ex descs s s'
  proof (induction descs arbitrary: s)
    case (Cons desc descs)
    then obtain s1 where "apply_desc fx env w row now cold ex desc s = Some s1" "fold_opt (apply_desc fx env w row now cold ex) descs s1 = Some s'"
      by (auto split: option.splits)
    with Cons.IH apply_desc_length show ?case by (meson le_trans)
  qed simp
  then show ?thesis using assms by (fastforce simp: apply_event_to_aggregations_def apply_event_to_aggregations_with_descs_def)
qed

lemma push_keeps:
  assumes "server_ok sig (dev_agg st)" and "dispatch_push_sync env p st = Some (resp, st')"
  shows "server_ok sig (dev_agg st')"
  using assms(2)
proof (cases rule: dispatch_cases)
  case (accepted row desc key)
  then obtain ts where ts: "apply_event_to_aggregations (pe_fx env) (pe_agg env) (p_event_name p) row (sint (p_now_ms p)) (da_registry (dev_agg st))
      (cold_after_ms desc) (da_tables (dev_agg st)) = Some ts"
    and d: "da_registry (dev_agg st') = da_registry (dev_agg st)" "da_tables (dev_agg st') = ts"
    by (auto simp: push_accepted_def apply_counters_def Let_def split: option.splits)
  have "length (da_tables (dev_agg st)) \<le> length ts" by (rule apply_event_length [OF ts])
  then show ?thesis using assms(1) by (simp add: server_ok_def tables_cover_def d)
qed (use assms(1) in simp)

text \<open>The states of a server that starts empty and handles pushes and registrations in any order.\<close>

inductive reachable :: "push_env \<Rightarrow> reg_env \<Rightarrow> (Json \<Rightarrow> PayloadNode list option) \<Rightarrow> AppState \<Rightarrow> bool" for penv env deserialize where
  boot: "da_registry (dev_agg st) = registry_default \<Longrightarrow> reachable penv env deserialize st"
| push: "reachable penv env deserialize st \<Longrightarrow> dispatch_push_sync penv p st = Some (resp, st') \<Longrightarrow> reachable penv env deserialize st'"
| register: "reachable penv env deserialize st \<Longrightarrow> dispatch_register_one env deserialize wal_ok body (dev_agg st) = (rresp, d, logged) \<Longrightarrow>
    reachable penv env deserialize (st\<lparr>dev_agg := d\<rparr>)"

lemma reachable_ok:
  assumes "permutes (re_hash_order env)" and "reachable penv env deserialize st"
  shows "server_ok (re_signature env) (dev_agg st)"
  using assms(2)
proof (induction rule: reachable.induct)
  case (boot st)
  have "next_agg_id registry_default = 0" "derivations registry_default = []" by (simp_all add: registry_default_def)
  then show ?case using boot by (simp add: server_ok_def tables_cover_def registry_default_ok wired_default versions_ok_def)
next
  case (push st p resp st')
  show ?case by (rule push_keeps [OF push.IH push.hyps(2)])
next
  case (register st wal_ok body rresp d logged)
  show ?case using register_keeps [OF register.IH assms(1) register.hyps(2)] by simp
qed

section \<open>Properties\<close>

text \<open>C1. Every state of a server that starts empty and handles pushes and registrations in any order, forced ones, refused
  ones and ones whose log append fails among them, is consistent: the registry satisfies the invariant that the
  apply loop and the recovery of pushes rely on, no derivation is newer than the registry, every aggregation has
  its state table and reads from an upstream of its derivation, and every upstream of a derivation is registered.\<close>

theorem server_invariant:
  assumes "permutes (re_hash_order env)" and "reachable penv env deserialize st" and "w = da_registry (dev_agg st)"
  shows "registry_ok (re_signature env) w \<and> versions_ok w \<and>
    (\<forall>n a. map_of (compiled_aggregations w) n = Some a \<longrightarrow>
       agg_id a < length (da_tables (dev_agg st)) \<and> (\<exists>d. map_of (derivations w) n = Some d \<and> source_node_name a \<in> set (upstreams d))) \<and>
    (\<forall>n d. map_of (derivations w) n = Some d \<longrightarrow> (\<forall>u \<in> set (upstreams d). known_in_current w u))"
proof -
  have ok: "registry_ok (re_signature env) w" "wired w" "versions_ok w" "next_agg_id w \<le> length (da_tables (dev_agg st))"
    using reachable_ok [OF assms(1,2)] by (simp_all add: server_ok_def tables_cover_def assms(3))
  have core: "core_ok (re_signature env) w" using ok(1) by (simp add: registry_ok_def)
  have wf: "btree_wf (derivations w)" "\<forall>n a. map_of (compiled_aggregations w) n = Some a \<longrightarrow> agg_id a < next_agg_id w"
    using core unfolding core_ok_def by (elim conjE, simp)+
  have "agg_id a < length (da_tables (dev_agg st)) \<and> (\<exists>d. map_of (derivations w) n = Some d \<and> source_node_name a \<in> set (upstreams d))"
    if "map_of (compiled_aggregations w) n = Some a" for n a
    using that wf(2) ok(2,4) map_of_SomeD [OF that] map_of_is_SomeI [OF btree_wf_distinct [OF wf(1)]] unfolding wired_def by fastforce
  moreover have "known_in_current w u" if "map_of (derivations w) n = Some d" "u \<in> set (upstreams d)" for n d u
    using ok(2) map_of_SomeD [OF that(1)] that(2) unfolding wired_def by fastforce
  ultimately show ?thesis using ok by blast
qed

definition example_reg_env :: "(string list \<Rightarrow> string list) \<Rightarrow> reg_env" where
  "example_reg_env hash_order =
     \<lparr>re_libm = sample_libm, re_hash_order = hash_order, re_signature = (\<lambda>_. 0), re_fmt_debug = concat, re_enforce = False\<rparr>"

definition request :: "bool \<Rightarrow> Json" where
  "request force = JObject [(''force'', JBool force)]"

definition boot_state :: DevAggState where
  "boot_state = \<lparr>da_registry = registry_default, da_tables = [], next_event_id = 0, query_time_ms = 0\<rparr>"

definition sum_state :: DevAggState where
  "sum_state = fst (snd (dispatch_register_one (example_reg_env id) (\<lambda>_. Some sum_payload) True (request False) boot_state))"

lemma example_processes: "permutes (re_hash_order (example_reg_env id))" "same_process (example_reg_env id) (example_reg_env rev)"
  by (simp_all add: permutes_def same_process_def example_reg_env_def)

lemma sum_registers:
  obtains resp bumps where "dispatch_register_one (example_reg_env id) (\<lambda>_. Some sum_payload) True (request False) boot_state = (resp, sum_state, bumps)"
    and "length bumps = 1" and "is_success resp"
proof -
  let ?r = "dispatch_register_one (example_reg_env id) (\<lambda>_. Some sum_payload) True (request False) boot_state"
  have "length (snd (snd ?r)) = 1" "is_success (fst ?r)" by code_simp+
  then show thesis using that [of "fst ?r" "snd (snd ?r)"] by (simp add: sum_state_def)
qed

theorem server_invariant_witness:
  "\<forall>penv. \<exists>st. reachable penv (example_reg_env id) (\<lambda>_. Some sum_payload) st \<and> dev_agg st = sum_state \<and>
     map fst (compiled_aggregations (da_registry sum_state)) = [''D''] \<and> registry_ok (\<lambda>_. 0) (da_registry sum_state) \<and>
     (\<exists>d. map_of (derivations (da_registry sum_state)) ''D'' = Some d \<and> (\<forall>u \<in> set (upstreams d). known_in_current (da_registry sum_state) u))"
proof
  fix penv
  let ?start = "(example_state registry_default)\<lparr>dev_agg := boot_state\<rparr>"
  let ?st = "?start\<lparr>dev_agg := sum_state\<rparr>"
  have "reachable penv (example_reg_env id) (\<lambda>_. Some sum_payload) ?start" by (rule reachable.boot) (simp add: boot_state_def)
  moreover obtain resp bumps where "dispatch_register_one (example_reg_env id) (\<lambda>_. Some sum_payload) True (request False) (dev_agg ?start) = (resp, sum_state, bumps)"
    by (rule sum_registers) (simp add: that)
  ultimately have st: "reachable penv (example_reg_env id) (\<lambda>_. Some sum_payload) ?st" by (rule reachable.register)
  have e: "map fst (compiled_aggregations (da_registry sum_state)) = [''D'']" "map fst (derivations (da_registry sum_state)) = [''D'']" by code_simp+
  then obtain d where "map_of (derivations (da_registry sum_state)) ''D'' = Some d" by (cases "derivations (da_registry sum_state)") auto
  then show "\<exists>st. reachable penv (example_reg_env id) (\<lambda>_. Some sum_payload) st \<and> dev_agg st = sum_state \<and>
     map fst (compiled_aggregations (da_registry sum_state)) = [''D''] \<and> registry_ok (\<lambda>_. 0) (da_registry sum_state) \<and>
     (\<exists>d. map_of (derivations (da_registry sum_state)) ''D'' = Some d \<and> (\<forall>u \<in> set (upstreams d). known_in_current (da_registry sum_state) u))"
    using server_invariant [OF example_processes(1) st refl] st e
    by (intro exI [of _ ?st]) (simp add: example_reg_env_def)
qed

text \<open>C2. A restart replays what registrations made. The server handles any sequence of registration requests, and the records of
  the registry's log decode to the bumps they logged, in order. If every request that logged a bump was
  answered with success, replaying the records in another process, which iterates hash maps in another order, gives the
  same registry and tables and counts every bump. Otherwise the replay stops with an error at the record of the first request that
  logged its bump and then failed, in the state right after that request: what later requests did is not restored.\<close>

theorem registrations_replay:
  assumes "same_process env env'" and "serve_registrations env deserialize reqs d = (d', bumps_log, acked)" and "tables_cover d"
    and "list_all2 (logs_bump decode_bump) recs bumps_log"
  shows "(acked \<longrightarrow> replay_wal_records penv env' decode_event decode_bump from_lsn recs ((d, quarantine, outcome), 0) =
       Some (((d', quarantine, outcome\<lparr>last_lsn := fold max (map wr_lsn recs) (last_lsn outcome)\<rparr>), length bumps_log), None)) \<and>
    (\<not> acked \<longrightarrow> (\<exists>k d1 log1 m o1. \<exists>rec \<in> set recs. snd (snd (serve_registrations env deserialize (take k reqs) d)) \<and>
       serve_registrations env deserialize (take (Suc k) reqs) d = (d1, log1, False) \<and>
       replay_wal_records penv env' decode_event decode_bump from_lsn recs ((d, quarantine, outcome), 0) =
         Some (((d1, quarantine, o1), m), Some (BumpApplyFailed (wr_lsn rec)))))"
  using replay_registrations [OF assms, where n = 0] by simp

definition bump_record :: "u8 \<Rightarrow> WalRecord" where
  "bump_record i = \<lparr>wr_lsn = 7, wr_record_type = RtRegistryBump, wr_payload = [i]\<rparr>"

theorem registrations_replay_witness:
  "\<forall>penv outcome. \<exists>bumps_log. serve_registrations (example_reg_env id) (\<lambda>_. Some sum_payload) [(True, request False)] boot_state = (sum_state, bumps_log, True) \<and>
     length bumps_log = 1 \<and>
     replay_wal_records penv (example_reg_env rev) (\<lambda>_. None) (\<lambda>_. Some (hd bumps_log)) 0 [bump_record 0] ((boot_state, [], outcome), 0) =
       Some (((sum_state, [], outcome\<lparr>last_lsn := max 7 (last_lsn outcome)\<rparr>), 1), None)"
proof (intro allI)
  fix penv and outcome :: RecoveryOutcome
  obtain resp bumps where r: "dispatch_register_one (example_reg_env id) (\<lambda>_. Some sum_payload) True (request False) boot_state = (resp, sum_state, bumps)"
    and one: "length bumps = 1" "is_success resp"
    by (rule sum_registers)
  from one have run: "serve_registrations (example_reg_env id) (\<lambda>_. Some sum_payload) [(True, request False)] boot_state = (sum_state, bumps, True)"
    by (simp add: r)
  have "list_all2 (logs_bump (\<lambda>_. Some (hd bumps))) [bump_record 0] bumps" using one(1) by (cases bumps) (auto simp: bump_record_def)
  from registrations_replay [OF example_processes(2) run _ this, of penv "\<lambda>_. None" 0 "[]" outcome]
  show "\<exists>bumps_log. serve_registrations (example_reg_env id) (\<lambda>_. Some sum_payload) [(True, request False)] boot_state = (sum_state, bumps_log, True) \<and>
     length bumps_log = 1 \<and>
     replay_wal_records penv (example_reg_env rev) (\<lambda>_. None) (\<lambda>_. Some (hd bumps_log)) 0 [bump_record 0] ((boot_state, [], outcome), 0) =
       Some (((sum_state, [], outcome\<lparr>last_lsn := max 7 (last_lsn outcome)\<rparr>), 1), None)"
    using run one(1) by (intro exI [of _ bumps]) (simp add: tables_cover_def boot_state_def registry_default_def bump_record_def)
qed

section \<open>What registration does wrong\<close>

abbreviation register_nodes ::
    "bool \<Rightarrow> PayloadNode list \<Rightarrow> RegistryInner \<Rightarrow> RegisterResponse \<times> RegistryInner \<times> RegistryBumpPayload list" where
  "register_nodes force nodes w \<equiv> dispatch_register (example_reg_env id) (\<lambda>_. Some nodes) True (request force) w"

definition named_event :: "string \<Rightarrow> PayloadNode" where
  "named_event name = NEvent (example_event\<lparr>ev_name := name\<rparr>)"

definition chain_registry :: "string \<Rightarrow> string \<Rightarrow> RegistryInner" where
  "chain_registry event name = fst (snd (register_nodes False [named_event event, plain_derivation name event] registry_default))"

definition two_events :: RegistryInner where
  "two_events = fst (snd (register_nodes False [named_event ''A'', named_event ''B''] registry_default))"

definition cyclic_registry :: RegistryInner where
  "cyclic_registry =
     fst (snd (register_nodes False [named_event ''E'', plain_derivation ''A'' ''E'', plain_derivation ''X'' ''A''] (chain_registry ''X'' ''A'')))"

definition keyed_event :: PayloadNode where
  "keyed_event = NEvent (example_event\<lparr>ev_name := ''E'', dedupe_key := Some ''u'', dedupe_window_ms := Some 5\<rparr>)"

text \<open>A payload that repeats a derivation with other upstreams hides the registered one from the cycle check but does not replace it, so a cycle
  gets registered, and then even a forced registration of something else is refused. Which removed event counts as renamed depends on the iteration order
  of a hash set.\<close>

lemma cycle_registered: "map (\<lambda>(n, d). (n, upstreams d)) (derivations cyclic_registry) = [(''A'', [''X'']), (''X'', [''A''])]"
  by code_simp

lemma cycle_blocks: "fst (register_nodes True [named_event ''N''] cyclic_registry) = Outcome (ValidationFailed 2 RegistrationCycle ''nodes'' 1)"
  by code_simp

lemma order_dependent:
  "destructive (classify_register_diff concat id two_events [named_event ''C'']) = [DiffEntry.Rename ''A'' ''C'', AggRemoval ''B'' '''']"
  "destructive (classify_register_diff concat rev two_events [named_event ''C'']) = [DiffEntry.Rename ''B'' ''C'', AggRemoval ''A'' '''']"
  by code_simp+

text \<open>Everything that the registry has and the payload does not is a target of a forced registration.\<close>

lemma force_targets_removed:
  assumes "permutes hash_order" and "known_in_current w u" and "u \<notin> payload_name ` set payload"
  shows "u \<in> set (force_targets (classify_register_diff fmt hash_order w payload))"
proof -
  let ?cur = "current_names w" and ?removed = "filter (\<lambda>n. n \<notin> set (map payload_name payload)) (hash_order (current_names w))"
  let ?pairs = "pair_renames w (filter (\<lambda>n. payload_name n \<notin> set ?cur) payload) ?removed"
  have "u \<in> set ?cur" using assms(2) unfolding known_iff by (auto simp: current_names_def)
  then have u: "u \<in> set ?removed" using assms(1,3) by (simp add: permutes_def)
  have "\<exists>e \<in> set (destructive (classify_register_diff fmt hash_order w payload)). u \<in> set (removal_of e)"
  proof (cases "u \<in> fst ` set ?pairs")
    case True
    then obtain a where "(u, a) \<in> set ?pairs" by auto
    then have "Rename u a \<in> set (destructive (classify_register_diff fmt hash_order w payload))"
      by (simp add: classify_register_diff_def Let_def) (metis (mono_tags, lifting) case_prod_conv image_eqI)
    then show ?thesis by (intro bexI) simp_all
  next
    case False
    then have "AggRemoval u '''' \<in> set (destructive (classify_register_diff fmt hash_order w payload))"
      using u by (simp add: classify_register_diff_def Let_def)
    then show ?thesis by (intro bexI) simp_all
  qed
  then show ?thesis by (auto simp: force_targets_def name_set_def)
qed

lemma cascade_grows: "set rs \<subseteq> set (cascade k w rs)"
proof (induction k arbitrary: rs)
  case (Suc k)
  then show ?case using Suc.IH [of "name_set (rs @ downstream w rs)"] by (auto simp: Let_def name_set_def)
qed simp

text \<open>A valid payload has its upstreams in itself or in the registry.\<close>

lemma validated_upstream:
  assumes "permutes hash_order" and "validate_payload lm hash_order w payload = Inr v" and "NDerivation dd \<in> set payload"
    and "u \<in> set (upstreams dd)" and "u \<notin> payload_name ` set payload"
  shows "known_in_current w u"
proof -
  have "structure_ok w payload"
    using assms(1-3) structural_errors_ok [of hash_order w payload] by (auto simp: permutes_def validate_payload_def Let_def split: if_splits)
  moreover obtain i where "i < length payload" "payload ! i = NDerivation dd" using assms(3) by (auto simp: in_set_conv_nth)
  moreover from this have "u \<in> set (node_upstreams (payload ! i))" using assms(4) by simp
  moreover have "u \<notin> set (map payload_name (take i payload))" using assms(5) by (auto dest: in_set_takeD)
  ultimately show ?thesis unfolding structure_ok_def by blast
qed

text \<open>C38. A forced registration can fail after it has changed the registry. Whenever the payload is valid as the registry stands but one of its derivations
  reads from a descriptor that is registered and not repeated in the payload, the forced removal takes that descriptor away
  first, and validation against what is left fails. The request is then answered as if the log were unavailable, yet the
  descriptor is gone from the registry and the bump is in the log. Replaying that log in another process stops at this record
  with an error: no record behind it is read, so every registration acknowledged later is lost by a restart.\<close>

theorem forced_missing_upstream:
  assumes "same_process env env'" and "registry_ok sig (da_registry d)" and "tables_cover d"
    and "pre_checks env body = None" and "deserialize body = Some payload" and "flag ''force'' body" and "\<not> flag ''dry_run'' body"
    and "validate_payload (re_libm env) (re_hash_order env) (da_registry d) payload = Inr v"
    and "NDerivation dd \<in> set payload" and "u \<in> set (upstreams dd)" and "u \<notin> payload_name ` set payload"
  shows "\<exists>d' bp. dispatch_register_one env deserialize True body d = (Outcome (WalUnavailable (reg_version (da_registry d))), d', [bp]) \<and>
    known_in_current (da_registry d) u \<and> \<not> known_in_current (da_registry d') u \<and>
    (\<forall>penv decode_event decode_bump from_lsn rec recs quarantine outcome n. logs_bump decode_bump rec bp \<longrightarrow>
       (\<exists>outcome'. replay_wal_records penv env' decode_event decode_bump from_lsn (rec # recs) ((d, quarantine, outcome), n) =
          Some (((d', quarantine, outcome'), n), Some (BumpApplyFailed (wr_lsn rec)))))"
proof -
  let ?w = "da_registry d"
  define removed where "removed = force_removal ?w (classify_register_diff (re_fmt_debug env) (re_hash_order env) ?w payload)"
  define bp where "bp = \<lparr>bump_new_version = Suc (reg_version ?w), bump_nodes = payload, bump_force_removed = removed\<rparr>"
  define w1 where "w1 = snd (force_remove_descriptors removed ?w)"
  have perm: "permutes (re_hash_order env)" using assms(1) by (simp add: same_process_def)
  note known = validated_upstream [OF perm assms(8-11)]
  have u: "u \<in> set removed"
    unfolding removed_def force_removal_def using force_targets_removed [OF perm known assms(11)] cascade_grows by blast
  have gone: "\<not> known_in_current w1 u"
    using force_remove_fold [of sig ?w w1 removed 0] assms(2) u unfolding known_iff
    by (auto simp: w1_def force_remove_descriptors_def registry_ok_def)
  obtain es where inl: "validate_payload (re_libm env) (re_hash_order env) w1 payload = Inl es"
    using validated_upstream [OF perm _ assms(9-11), of "re_libm env" w1] gone by (cases "validate_payload (re_libm env) (re_hash_order env) w1 payload") auto
  have bump: "apply_registry_bump env bp ?w = (False, w1)" using u inl by (auto simp: apply_registry_bump_def bp_def w1_def)
  let ?d = "d\<lparr>da_registry := w1, da_tables := ensure_capacity_for (next_agg_id w1) (da_tables d)\<rparr>"
  have "execute_register_inner env True removed payload ?w = \<lparr>rr_outcome = WalUnavailable (reg_version ?w), rr_registry = w1, rr_logged = [bp]\<rparr>"
    using assms(8,9) u bump validate_payload_nodes [OF assms(8)] by (auto simp: execute_register_inner_def Let_def bp_def [symmetric])
  then have "dispatch_register env deserialize True body ?w = (Outcome (WalUnavailable (reg_version ?w)), w1, [bp])"
    using assms(4-7) by (simp add: dispatch_register_def Let_def register_check_force_required_def removed_def [symmetric])
  moreover have "(if 0 < next_agg_id w1 then ensure_capacity_for (next_agg_id w1) (da_tables d) else da_tables d) = ensure_capacity_for (next_agg_id w1) (da_tables d)"
    by simp
  ultimately have disp: "dispatch_register_one env deserialize True body d = (Outcome (WalUnavailable (reg_version ?w)), ?d, [bp])"
    by (simp add: dispatch_register_one_def)
  have "\<exists>outcome'. replay_wal_records penv env' decode_event decode_bump from_lsn (rec # recs) ((d, quarantine, outcome), n) =
      Some (((?d, quarantine, outcome'), n), Some (BumpApplyFailed (wr_lsn rec)))"
    if "logs_bump decode_bump rec bp" for penv decode_event decode_bump from_lsn rec recs quarantine outcome n
    using replay_bump_step [OF assms(1) _ bump _ assms(3), of decode_bump rec quarantine outcome n] that by (auto simp: bp_def)
  then show ?thesis using disp known gone by (intro exI [of _ ?d] exI [of _ bp]) simp
qed

definition chain_state :: DevAggState where
  "chain_state = fst (snd (dispatch_register_one (example_reg_env id) (\<lambda>_. Some [named_event ''E'', plain_derivation ''D'' ''E'']) True (request False) boot_state))"

lemma chain_state_ok: "server_ok (\<lambda>_. 0) chain_state"
proof -
  have "server_ok (re_signature (example_reg_env id)) boot_state"
    using registry_default_ok wired_default by (simp add: server_ok_def boot_state_def tables_cover_def versions_ok_def registry_default_def)
  then show ?thesis
    using register_keeps [OF _ example_processes(1)] unfolding chain_state_def
    by (metis example_reg_env_def prod.collapse reg_env.select_convs(3))
qed

theorem forced_missing_upstream_witness:
  "\<exists>d' bp. dispatch_register_one (example_reg_env id) (\<lambda>_. Some [plain_derivation ''F'' ''E'']) True (request True) chain_state =
      (Outcome (WalUnavailable 1), d', [bp]) \<and> known_in_current (da_registry chain_state) ''E'' \<and> \<not> known_in_current (da_registry d') ''E''"
proof -
  let ?p = "[plain_derivation ''F'' ''E'']"
  have f: "pre_checks (example_reg_env id) (request True) = None" "flag ''force'' (request True)" "\<not> flag ''dry_run'' (request True)"
    "case validate_payload (re_libm (example_reg_env id)) (re_hash_order (example_reg_env id)) (da_registry chain_state) ?p of Inl _ \<Rightarrow> False | Inr _ \<Rightarrow> True"
    "reg_version (da_registry chain_state) = 1"
    by code_simp+
  then obtain v where v: "validate_payload (re_libm (example_reg_env id)) (re_hash_order (example_reg_env id)) (da_registry chain_state) ?p = Inr v"
    by (auto split: sum.splits)
  obtain dd where dd: "plain_derivation ''F'' ''E'' = NDerivation dd" "upstreams dd = [''E'']" "der_name dd = ''F''" by (simp add: plain_derivation_def)
  have ok: "registry_ok (\<lambda>_. 0) (da_registry chain_state)" "tables_cover chain_state" using chain_state_ok by (simp_all add: server_ok_def)
  have "NDerivation dd \<in> set ?p" "''E'' \<in> set (upstreams dd)" "''E'' \<notin> payload_name ` set ?p" by (simp_all add: dd)
  from forced_missing_upstream [where deserialize = "\<lambda>_. Some ?p", OF example_processes(2) ok f(1) refl f(2,3) v this] f(5)
  show ?thesis by auto
qed

text \<open>A node that repeats what is registered under its name, as far as the comparison of registrations looks: the fields of an event, the key and the
  fields of a table, the operators and the key of a derivation. The maps are those of a \<open>BTreeMap\<close>.\<close>

fun repeats :: "RegistryInner \<Rightarrow> PayloadNode \<Rightarrow> bool" where
  "repeats w (NEvent e) \<longleftrightarrow>
     (\<exists>p. map_of (reg_events w) (ev_name e) = Some p \<and> es_fields (ev_schema p) = es_fields (ev_schema e) \<and> distinct (map fst (es_fields (ev_schema e))))"
| "repeats w (NTable t) \<longleftrightarrow>
     (\<exists>p. map_of (reg_tables w) (tab_name t) = Some p \<and> primary_key p = primary_key t \<and> ts_fields (tab_schema p) = ts_fields (tab_schema t) \<and>
        distinct (map fst (ts_fields (tab_schema t))))"
| "repeats w (NDerivation d) \<longleftrightarrow>
     (\<exists>p. map_of (derivations w) (der_name d) = Some p \<and> der_ops p = der_ops d \<and> table_primary_key p = table_primary_key d \<and>
        (\<forall>ks aggs. OpGroupBy ks aggs \<in> set (der_ops d) \<longrightarrow> distinct (map fst aggs)))"

lemma type_changes_same: "distinct (map fst fs) \<Longrightarrow> type_changes name fs fs = []"
  by (auto simp: type_changes_def)

lemma group_by_same:
  assumes "\<forall>ks aggs. op = OpGroupBy ks aggs \<longrightarrow> distinct (map fst aggs)"
  shows "group_by_changes name op op = ([], [])"
proof (cases op)
  case (OpGroupBy ks aggs)
  with assms show ?thesis by (auto simp: map_of_eq_None_iff; force)
qed simp_all

lemma classify_repeated:
  assumes "repeats w node"
  shows "classify_node w node = ([], []) \<and> payload_name node \<in> set (current_names w)"
proof (cases node)
  case (NEvent e)
  with assms obtain p where p: "map_of (reg_events w) (ev_name e) = Some p" "es_fields (ev_schema p) = es_fields (ev_schema e)"
    "distinct (map fst (es_fields (ev_schema e)))" by auto
  then have "classify_event_changes p e = ([], [])" by (auto simp: classify_event_changes_def type_changes_same Let_def)
  then show ?thesis using p(1) map_of_SomeD [OF p(1)] by (auto simp: NEvent classify_node_def current_names_def intro: rev_image_eqI)
next
  case (NTable t)
  with assms obtain p where p: "map_of (reg_tables w) (tab_name t) = Some p" "primary_key p = primary_key t" "ts_fields (tab_schema p) = ts_fields (tab_schema t)"
    "distinct (map fst (ts_fields (tab_schema t)))" by auto
  then have "classify_table_changes p t = ([], [])" by (simp add: classify_table_changes_def type_changes_same)
  then show ?thesis using p(1) map_of_SomeD [OF p(1)] by (auto simp: NTable classify_node_def current_names_def intro: rev_image_eqI)
next
  case (NDerivation d)
  with assms obtain p where p: "map_of (derivations w) (der_name d) = Some p" "der_ops p = der_ops d" "table_primary_key p = table_primary_key d"
    "\<forall>ks aggs. OpGroupBy ks aggs \<in> set (der_ops d) \<longrightarrow> distinct (map fst aggs)" by auto
  have "(a, b) \<in> set (zip (der_ops d) (der_ops d)) \<Longrightarrow> group_by_changes name a b = ([], [])" for a b name
    using p(4) by (auto simp: zip_same_conv_map intro!: group_by_same)
  then have "classify_derivation_changes p d = ([], [])" by (auto simp: classify_derivation_changes_def p(2,3) Let_def)
  then show ?thesis using p(1) map_of_SomeD [OF p(1)] by (auto simp: NDerivation classify_node_def current_names_def intro: rev_image_eqI)
qed



end
