(* ===== verification/Restore.thy ===== *)
theory Restore
  imports Server
begin

text \<open>
  Snapshots of the server's state: the body (\<open>crates/beava-core/src/snapshot_body.rs\<close>), its restoration into the
  registry (\<open>install_from_descriptors\<close> of \<open>registry.rs\<close>) and into the state tables
  (\<open>load_snapshot_if_any\<close> of \<open>recovery.rs\<close>). The deserializer of the bincode package is the
  parameter \<open>bincode\<close>; the option result is \<open>None\<close> for a panic. The fields that the serializer skips, which a decoded
  body has at their defaults, are what \<open>body_stored\<close> resets.

  The lemmas show that a restored registry is consistent and that every aggregation gets the entries that were
  saved under its name, and that a snapshot of a registry in which some derivation is named before one of its
  upstream derivations restores no aggregation at all.
\<close>

section \<open>The body\<close>

record RegistryDescriptorsOnly =
  rd_version :: nat
  rd_events :: "(string \<times> EventDescriptor) list"
  rd_tables :: "(string \<times> TableDescriptor) list"
  rd_derivations :: "(string \<times> DerivationDescriptor) list"

definition descriptors_only :: "RegistryInner \<Rightarrow> RegistryDescriptorsOnly" where
  "descriptors_only w = \<lparr>rd_version = reg_version w, rd_events = reg_events w, rd_tables = reg_tables w, rd_derivations = derivations w\<rparr>"

type_synonym SerializedStateTables = "(string \<times> (EntityKey \<times> AggOp list) list) list"

record SnapshotBody =
  body_format_version :: u16
  sb_registry :: RegistryDescriptorsOnly
  sb_state_tables :: SerializedStateTables
  sb_next_event_id :: u64
  sb_query_time_ms :: int

definition SNAPSHOT_BODY_FORMAT_VERSION :: u16 where
  "SNAPSHOT_BODY_FORMAT_VERSION = 1"

text \<open>The aggregations are visited in the order of their names, so the map of the body is the list of what they give.\<close>

definition from_live :: "RegistryInner \<Rightarrow> StateTables \<Rightarrow> u64 \<Rightarrow> int \<Rightarrow> SnapshotBody" where
  "from_live w ts next_id query_ms =
     \<lparr>body_format_version = SNAPSHOT_BODY_FORMAT_VERSION, sb_registry = descriptors_only w,
      sb_state_tables = List.map_filter (\<lambda>(n, a). if agg_id a < length ts then Some (n, iter_sorted (ts ! agg_id a)) else None) (compiled_aggregations w),
      sb_next_event_id = next_id, sb_query_time_ms = query_ms\<rparr>"

text \<open>What a round trip through the serializer leaves of a body: the fields marked \<open>serde(skip)\<close>, caches that are rebuilt on use,
  come back as their defaults (an event's \<open>name_arc\<close> and \<open>apply_field_names\<close>, a heap's index, a mix's allowed set).\<close>

definition event_stored :: "EventDescriptor \<Rightarrow> EventDescriptor" where
  "event_stored e = e\<lparr>name_arc := '''', apply_field_names := []\<rparr>"

definition heap_stored :: "TopKHeap \<Rightarrow> TopKHeap" where
  "heap_stored h = h\<lparr>heap_index := (\<lambda>_. None), index_ready := False\<rparr>"

fun topk_stored :: "TopKState \<Rightarrow> TopKState" where
  "topk_stored (TKHybrid cms h k) = TKHybrid cms (heap_stored h) k"
| "topk_stored st = st"

fun lifetime_stored :: "LifetimeOp \<Rightarrow> LifetimeOp" where
  "lifetime_stored (OTopK s) = OTopK (s\<lparr>topk_inner := topk_stored (topk_inner s)\<rparr>)"
| "lifetime_stored (OEventTypeMix s) = OEventTypeMix (s\<lparr>mix_allowed_set := None\<rparr>)"
| "lifetime_stored op = op"

fun agg_stored :: "AggOp \<Rightarrow> AggOp" where
  "agg_stored (Lifetime s) = Lifetime (lifetime_stored s)"
| "agg_stored (Windowed w) = Windowed (w\<lparr>buckets := map (apsnd lifetime_stored) (buckets w)\<rparr>)"

definition entries_stored :: "(EntityKey \<times> AggOp list) list \<Rightarrow> (EntityKey \<times> AggOp list) list" where
  "entries_stored es = map (apsnd (map agg_stored)) es"

definition body_stored :: "SnapshotBody \<Rightarrow> SnapshotBody" where
  "body_stored b =
     b\<lparr>sb_registry := (sb_registry b)\<lparr>rd_events := map (apsnd event_stored) (rd_events (sb_registry b))\<rparr>,
       sb_state_tables := map (apsnd entries_stored) (sb_state_tables b)\<rparr>"

definition body_decode :: "(u8 list \<Rightarrow> SnapshotBody option) \<Rightarrow> u8 list \<Rightarrow> SnapshotBody option" where
  "body_decode bincode bytes =
     (case bincode bytes of
        None \<Rightarrow> None
      | Some b \<Rightarrow> if body_format_version b \<noteq> SNAPSHOT_BODY_FORMAT_VERSION then None else Some b)"

section \<open>Restoring the registry\<close>

definition restore_payload :: "RegistryDescriptorsOnly \<Rightarrow> PayloadNode list" where
  "restore_payload body =
     map (\<lambda>(_, e). NEvent (e\<lparr>name_arc := '''', apply_field_names := []\<rparr>)) (rd_events body) @
     map (\<lambda>(_, t). NTable t) (rd_tables body) @ map (\<lambda>(_, d). NDerivation d) (rd_derivations body)"

definition install_from_descriptors :: "reg_env \<Rightarrow> RegistryDescriptorsOnly \<Rightarrow> RegistryInner" where
  "install_from_descriptors env body =
     (case validate_payload (re_libm env) (re_hash_order env) registry_default (restore_payload body) of
        Inl _ \<Rightarrow>
          registry_default\<lparr>reg_version := rd_version body, reg_events := map (\<lambda>(k, v). (k, v\<lparr>name_arc := ev_name v\<rparr>)) (rd_events body),
            reg_tables := rd_tables body, derivations := rd_derivations body\<rparr>
      | Inr v \<Rightarrow> (snd (install_validated env v registry_default))\<lparr>reg_version := rd_version body\<rparr>)"

section \<open>Restoring the state\<close>

definition group_key_types :: "RegistryInner \<Rightarrow> AggregationDescriptor \<Rightarrow> FieldType list option" where
  "group_key_types w a =
     map_option (\<lambda>e. List.map_filter (\<lambda>k. map_of (es_fields (ev_schema e)) k) (group_keys a)) (get_event_descriptor w (source_node_name a))"

definition restore_table :: "(string \<Rightarrow> u64) \<Rightarrow> libm \<Rightarrow> RegistryInner \<Rightarrow> string \<times> (EntityKey \<times> AggOp list) list \<Rightarrow> StateTables \<Rightarrow> StateTables option" where
  "restore_table fx lm w ne ts =
     (let (n, entries) = ne in
      case compiled_aggregation w n of
        None \<Rightarrow> Some ts
      | Some a \<Rightarrow>
          if agg_id a < length ts then Some (ts[agg_id a := restore_entries fx lm (group_key_types w a) entries (ts ! agg_id a)]) else None)"

definition restore_body :: "(string \<Rightarrow> u64) \<Rightarrow> reg_env \<Rightarrow> SnapshotBody \<Rightarrow> DevAggState \<Rightarrow> DevAggState option" where
  "restore_body fx env b d =
     (let w = install_from_descriptors env (sb_registry b) in
      map_option (\<lambda>ts. d\<lparr>da_registry := w, da_tables := ts, next_event_id := sb_next_event_id b,
          query_time_ms := (if sb_query_time_ms b > 0 then word_of_int (sb_query_time_ms b) else query_time_ms d)\<rparr>)
        (fold_opt (restore_table fx (re_libm env) w) (sb_state_tables b) (ensure_capacity_for (next_agg_id w) [])))"

fun load_first ::
    "(string \<Rightarrow> u64) \<Rightarrow> reg_env \<Rightarrow> (u8 list \<Rightarrow> u32) \<Rightarrow> (u8 list \<Rightarrow> SnapshotBody option) \<Rightarrow> directory \<Rightarrow> (u64 \<times> string) list \<Rightarrow> DevAggState \<Rightarrow>
     (u64 \<times> u64 \<times> DevAggState) option" where
  "load_first fx env crc bincode dir [] d = Some (0, 0, d)"
| "load_first fx env crc bincode dir ((lsn, path) # snaps) d =
     (case (case map_of dir path of
              None \<Rightarrow> None
            | Some bytes \<Rightarrow> (case snapshot_open crc bytes of Inl _ \<Rightarrow> None | Inr (_, body) \<Rightarrow> body_decode bincode body)) of
        None \<Rightarrow> load_first fx env crc bincode dir snaps d
      | Some b \<Rightarrow> map_option (\<lambda>d'. (lsn, sb_next_event_id b, d')) (restore_body fx env b d))"

definition load_snapshot_if_any ::
    "(string \<Rightarrow> u64) \<Rightarrow> reg_env \<Rightarrow> (u8 list \<Rightarrow> u32) \<Rightarrow> (u8 list \<Rightarrow> SnapshotBody option) \<Rightarrow> directory \<Rightarrow> DevAggState \<Rightarrow> (u64 \<times> u64 \<times> DevAggState) option" where
  "load_snapshot_if_any fx env crc bincode dir d = load_first fx env crc bincode dir (list_snapshots dir) d"

section \<open>Recovery\<close>

text \<open>The sequence of a start: snapshot, registry's log, data-plane log; the errors of the second step are dropped. The first
  component is the sequence number that the new log starts at.\<close>

definition recover_with_dirs ::
    "push_env \<Rightarrow> reg_env \<Rightarrow> (u8 list \<Rightarrow> u32) \<Rightarrow> (u8 list \<Rightarrow> SnapshotBody option) \<Rightarrow> (u8 list \<Rightarrow> WalEventPayload option) \<Rightarrow>
     (u8 list \<Rightarrow> RegistryBumpPayload option) \<Rightarrow> directory \<Rightarrow> directory \<Rightarrow> (u64 \<times> WalQuarantineKind) list \<Rightarrow> DevAggState \<Rightarrow> (u64 \<times> replay_state) option" where
  "recover_with_dirs penv env crc bincode decode_event decode_bump snap_dir wal_dir quarantine d =
     (case load_snapshot_if_any (pe_fx penv) env crc bincode snap_dir d of
        None \<Rightarrow> None
      | Some (snap_lsn, applied_lsn, d1) \<Rightarrow>
          (case replay_wal_from_lsn penv env crc decode_event decode_bump wal_dir quarantine snap_lsn d1 of
             None \<Rightarrow> None
           | Some (((d2, quarantine2, outcome2), _), failure) \<Rightarrow>
               (let persistence_lsn = (case failure of None \<Rightarrow> max (last_lsn outcome2) snap_lsn | Some _ \<Rightarrow> snap_lsn) in
                map_option (\<lambda>(d3, quarantine3, outcome3).
                    (max (max (max (last_lsn outcome3) persistence_lsn) snap_lsn) applied_lsn + 1, d3, quarantine3, outcome3))
                  (replay_handrolled_wal_dir penv wal_dir quarantine2 applied_lsn d2))))"

section \<open>What is restored\<close>

lemma install_from_descriptors_ok:
  assumes "permutes (re_hash_order env)" and "w = install_from_descriptors env body"
  shows "(\<forall>n a. map_of (compiled_aggregations w) n = Some a \<longrightarrow> agg_id a < next_agg_id w) \<and>
    (\<forall>n m a b. map_of (compiled_aggregations w) n = Some a \<and> map_of (compiled_aggregations w) m = Some b \<and> agg_id a = agg_id b \<longrightarrow> n = m) \<and>
    reg_version w = rd_version body \<and>
    (compiled_aggregations w \<noteq> [] \<longrightarrow> registry_ok (re_signature env) w \<and> wired w)"
proof (cases "validate_payload (re_libm env) (re_hash_order env) registry_default (restore_payload body)")
  case (Inl es)
  then show ?thesis by (simp add: assms(2) install_from_descriptors_def registry_default_def)
next
  case (Inr v)
  let ?w = "snd (install_validated env v registry_default)"
  note v = validated_payload [OF assms(1) Inr] validate_payload_nodes [OF Inr]
  have "registry_ok (re_signature env) ?w" "wired ?w"
    unfolding install_validated_def using v apply_registration_ok [OF registry_default_ok] apply_registration_wired [OF registry_default_ok wired_default] by auto
  then have ok: "registry_ok (re_signature env) w" "wired w"
    by (auto simp: assms(2) install_from_descriptors_def Inr registry_ok_def core_ok_def intro: wired_cong)
  then have core: "core_ok (re_signature env) w" by (simp add: registry_ok_def)
  have "\<forall>n a. map_of (compiled_aggregations w) n = Some a \<longrightarrow> agg_id a < next_agg_id w"
    "\<forall>n m a b. map_of (compiled_aggregations w) n = Some a \<and> map_of (compiled_aggregations w) m = Some b \<and> agg_id a = agg_id b \<longrightarrow> n = m"
    using core unfolding core_ok_def by (elim conjE, simp)+
  then show ?thesis using ok by (simp add: assms(2) install_from_descriptors_def Inr)
qed

text \<open>Tables of different aggregations are different tables, so each gets the entries saved under its name.\<close>

lemma restore_tables:
  assumes "\<forall>n a. map_of (compiled_aggregations w) n = Some a \<longrightarrow> agg_id a < length ts"
    and "\<forall>n m a b. map_of (compiled_aggregations w) n = Some a \<and> map_of (compiled_aggregations w) m = Some b \<and> agg_id a = agg_id b \<longrightarrow> n = m"
    and "distinct (map fst saved)"
  shows "\<exists>ts'. fold_opt (restore_table fx lm w) saved ts = Some ts' \<and> length ts' = length ts \<and>
    (\<forall>n a. map_of (compiled_aggregations w) n = Some a \<longrightarrow>
       ts' ! agg_id a = (case map_of saved n of None \<Rightarrow> ts ! agg_id a | Some entries \<Rightarrow> restore_entries fx lm (group_key_types w a) entries (ts ! agg_id a)))"
  using assms(1,3)
proof (induction saved arbitrary: ts)
  case (Cons ne saved)
  obtain m entries where ne: "ne = (m, entries)" by (cases ne)
  have fresh: "map_of saved m = None" using Cons.prems(2) by (simp add: ne map_of_eq_None_iff)
  show ?case
  proof (cases "map_of (compiled_aggregations w) m")
    case None
    then have "restore_table fx lm w ne ts = Some ts" by (simp add: ne restore_table_def compiled_aggregation_def)
    moreover have "n \<noteq> m" if "map_of (compiled_aggregations w) n = Some a" for n a using None that by auto
    ultimately show ?thesis using Cons.IH [of ts] Cons.prems by (auto simp: ne)
  next
    case (Some b)
    let ?ts = "ts[agg_id b := restore_entries fx lm (group_key_types w b) entries (ts ! agg_id b)]"
    have step: "restore_table fx lm w ne ts = Some ?ts" using Some Cons.prems(1) by (simp add: ne restore_table_def compiled_aggregation_def)
    obtain ts' where ts': "fold_opt (restore_table fx lm w) saved ?ts = Some ts'" "length ts' = length ts"
      "\<forall>n a. map_of (compiled_aggregations w) n = Some a \<longrightarrow>
         ts' ! agg_id a = (case map_of saved n of None \<Rightarrow> ?ts ! agg_id a | Some entries \<Rightarrow> restore_entries fx lm (group_key_types w a) entries (?ts ! agg_id a))"
      using Cons.IH [of ?ts] Cons.prems by auto
    have other: "?ts ! agg_id a = ts ! agg_id a" if "map_of (compiled_aggregations w) n = Some a" "n \<noteq> m" for n a
      using assms(2) that Some by (metis nth_list_update_neq)
    have "ts' ! agg_id a = (case map_of (ne # saved) n of None \<Rightarrow> ts ! agg_id a | Some es \<Rightarrow> restore_entries fx lm (group_key_types w a) es (ts ! agg_id a))"
      if "map_of (compiled_aggregations w) n = Some a" for n a
    proof (cases "n = m")
      case True
      then have "a = b" using that Some by simp
      then show ?thesis using ts'(3) [rule_format, OF that] fresh Cons.prems(1) [rule_format, OF Some] True by (simp add: ne)
    next
      case False
      from ts'(3) [rule_format, OF that] show ?thesis unfolding other [OF that False] using False by (simp add: ne)
    qed
    then show ?thesis using step ts' by simp
  qed
qed simp

lemma load_first_skip:
  assumes "\<forall>(lsn, path) \<in> set bad. \<forall>bytes h body. map_of dir path = Some bytes \<and> snapshot_open crc bytes = Inr (h, body) \<longrightarrow> body_decode bincode body = None"
  shows "load_first fx env crc bincode dir (bad @ snaps) d = load_first fx env crc bincode dir snaps d"
  using assms by (induction bad) (auto split: option.splits sum.splits)

lemma map_filter_total: "(\<And>x. x \<in> set xs \<Longrightarrow> f x = Some (g x)) \<Longrightarrow> List.map_filter f xs = map g xs"
  by (induction xs) (simp_all add: List.map_filter_simps)

lemma set_from_live:
  assumes "tables_cover d" and "registry_ok sig (da_registry d)" and "w = da_registry d"
  shows "map_of (sb_state_tables (from_live w (da_tables d) k q)) = (\<lambda>n. map_option (\<lambda>a. iter_sorted (da_tables d ! agg_id a)) (map_of (compiled_aggregations w) n))"
    and "distinct (map fst (sb_state_tables (from_live w (da_tables d) k q)))"
proof -
  have core: "core_ok sig w" using assms(2,3) by (simp add: registry_ok_def)
  have wf: "btree_wf (compiled_aggregations w)" and ids: "\<forall>n a. map_of (compiled_aggregations w) n = Some a \<longrightarrow> agg_id a < next_agg_id w"
    using core unfolding core_ok_def by (elim conjE, simp)+
  have "agg_id a < length (da_tables d)" if "(n, a) \<in> set (compiled_aggregations w)" for n a
    using map_of_is_SomeI [OF btree_wf_distinct [OF wf] that] ids assms(1,3) by (fastforce simp: tables_cover_def)
  then have "List.map_filter (\<lambda>(n, a). if agg_id a < length (da_tables d) then Some (n, iter_sorted (da_tables d ! agg_id a)) else None) (compiled_aggregations w) =
      map (\<lambda>(n, a). (n, iter_sorted (da_tables d ! agg_id a))) (compiled_aggregations w)"
    by (intro map_filter_total) auto
  then show "map_of (sb_state_tables (from_live w (da_tables d) k q)) = (\<lambda>n. map_option (\<lambda>a. iter_sorted (da_tables d ! agg_id a)) (map_of (compiled_aggregations w) n))"
    "distinct (map fst (sb_state_tables (from_live w (da_tables d) k q)))"
    using btree_wf_distinct [OF wf] by (simp_all add: from_live_def map_of_map fun_eq_iff comp_def case_prod_beta)
qed

lemma map_of_apsnd: "map_of (map (apsnd f) xs) k = map_option f (map_of xs k)"
  by (induction xs) auto

lemma body_stored_simps [simp]:
  "body_format_version (body_stored b) = body_format_version b" "sb_next_event_id (body_stored b) = sb_next_event_id b"
  "sb_query_time_ms (body_stored b) = sb_query_time_ms b" "rd_version (sb_registry (body_stored b)) = rd_version (sb_registry b)"
  "rd_tables (sb_registry (body_stored b)) = rd_tables (sb_registry b)"
  "rd_derivations (sb_registry (body_stored b)) = rd_derivations (sb_registry b)"
  by (simp_all add: body_stored_def)

lemma from_live_simps [simp]:
  "rd_tables (sb_registry (from_live w ts next_id query_ms)) = reg_tables w"
  "rd_derivations (sb_registry (from_live w ts next_id query_ms)) = derivations w"
  by (simp_all add: from_live_def descriptors_only_def)

text \<open>The skipped fields are caches: an operator restored from a snapshot answers as before.\<close>

lemma lifetime_stored_query: "op_query env (lifetime_stored s) t = op_query env s t"
proof (cases s)
  case (OTopK x)
  then show ?thesis by (cases "topk_inner x") (simp_all add: topk_query_def topk_top_def heap_top_def heap_stored_def)
qed (simp_all add: mix_query_def)

section \<open>Properties\<close>

text \<open>C39. Loading a snapshot that was taken of a consistent state, where decoding returns the body that was written with the fields that the
  serializer skips reset: newer snapshots that do not open or decode are passed over; the load does not panic and reports the
  snapshot's sequence number and the last applied one, which the counter is set to; the clock for queries is the snapshot's, unless
  that is not positive; the registry gets the snapshot's version; if any
  aggregation is restored the registry is consistent and wired; and each restored aggregation's table holds exactly the entries that
  the old table had under its name, as they were stored, reinserted in their order, even where the identifiers of aggregations have changed.\<close>

theorem snapshot_restore:
  assumes "permutes (re_hash_order env)" and "registry_ok sig (da_registry d)" and "tables_cover d"
    and "list_snapshots dir = bad @ (lsn, path) # rest"
    and "\<forall>(l, p) \<in> set bad. \<forall>bytes h body. map_of dir p = Some bytes \<and> snapshot_open crc bytes = Inr (h, body) \<longrightarrow> body_decode bincode body = None"
    and "map_of dir path = Some bytes" and "snapshot_open crc bytes = Inr (h, body)"
    and "bincode body = Some (body_stored (from_live (da_registry d) (da_tables d) (next_event_id d) query_ms))"
  shows "\<exists>d'. load_snapshot_if_any fx env crc bincode dir d0 = Some (lsn, next_event_id d, d') \<and> next_event_id d' = next_event_id d \<and>
    query_time_ms d' = (if query_ms > 0 then word_of_int query_ms else query_time_ms d0) \<and>
    reg_version (da_registry d') = reg_version (da_registry d) \<and> tables_cover d' \<and>
    (compiled_aggregations (da_registry d') \<noteq> [] \<longrightarrow> registry_ok (re_signature env) (da_registry d') \<and> wired (da_registry d')) \<and>
    (\<forall>n a a'. compiled_aggregation (da_registry d) n = Some a \<and> compiled_aggregation (da_registry d') n = Some a' \<longrightarrow>
       da_tables d' ! agg_id a' =
         restore_entries fx (re_libm env) (group_key_types (da_registry d') a') (entries_stored (iter_sorted (da_tables d ! agg_id a))) table_new)"
proof -
  define b0 where "b0 = from_live (da_registry d) (da_tables d) (next_event_id d) query_ms"
  define b where "b = body_stored b0"
  define w where "w = install_from_descriptors env (sb_registry b)"
  let ?ts = "ensure_capacity_for (next_agg_id w) [] :: StateTables"
  have ts: "length ?ts = next_agg_id w" "?ts ! i = table_new" if "i < next_agg_id w" for i using that by (simp_all add: ensure_capacity_for_def)
  have len: "length ?ts = next_agg_id w" by (simp add: ensure_capacity_for_def)
  note w = install_from_descriptors_ok [OF assms(1) w_def]
  note live = set_from_live [OF assms(3,2) refl, of "next_event_id d" query_ms, folded b0_def]
  have saved: "map_of (sb_state_tables b) n = map_option (\<lambda>a. entries_stored (iter_sorted (da_tables d ! agg_id a))) (map_of (compiled_aggregations (da_registry d)) n)"
    "distinct (map fst (sb_state_tables b))" for n
    using live(2) by (simp_all add: b_def body_stored_def map_of_apsnd live(1) option.map_comp comp_def)
  obtain ts' where ts': "fold_opt (restore_table fx (re_libm env) w) (sb_state_tables b) ?ts = Some ts'" "length ts' = next_agg_id w"
    "\<forall>n a. map_of (compiled_aggregations w) n = Some a \<longrightarrow>
       ts' ! agg_id a = (case map_of (sb_state_tables b) n of None \<Rightarrow> ?ts ! agg_id a
         | Some entries \<Rightarrow> restore_entries fx (re_libm env) (group_key_types w a) entries (?ts ! agg_id a))"
    using restore_tables [of w ?ts "sb_state_tables b" fx "re_libm env"] w saved(2) len by auto
  let ?d = "d0\<lparr>da_registry := w, da_tables := ts', next_event_id := next_event_id d,
      query_time_ms := (if sb_query_time_ms b > 0 then word_of_int (sb_query_time_ms b) else query_time_ms d0)\<rparr>"
  have f: "body_format_version b = SNAPSHOT_BODY_FORMAT_VERSION" "sb_next_event_id b = next_event_id d" "rd_version (sb_registry b) = reg_version (da_registry d)"
    "sb_query_time_ms b = query_ms"
    by (simp_all add: b_def b0_def from_live_def descriptors_only_def)
  have "restore_body fx env b d0 = Some ?d" using ts'(1) by (simp add: restore_body_def w_def [symmetric] f)
  then have "load_snapshot_if_any fx env crc bincode dir d0 = Some (lsn, next_event_id d, ?d)"
    using assms(6-8) f by (simp add: load_snapshot_if_any_def assms(4) load_first_skip [OF assms(5)] b0_def [symmetric] b_def [symmetric] body_decode_def)
  moreover have "ts' ! agg_id a' = restore_entries fx (re_libm env) (group_key_types w a') (entries_stored (iter_sorted (da_tables d ! agg_id a))) table_new"
    if "compiled_aggregation (da_registry d) n = Some a" "compiled_aggregation w n = Some a'" for n a a'
    using that ts'(3) w ts(2) by (simp add: compiled_aggregation_def saved(1))
  ultimately show ?thesis using w ts'(2) f(3,4) by (intro exI [of _ ?d]) (auto simp: tables_cover_def)
qed

definition zero_crc :: "u8 list \<Rightarrow> u32" where
  "zero_crc bs = 0"

definition snapshot_dir :: directory where
  "snapshot_dir = [(snapshot_final 5, header_encode zero_crc (snapshot_header zero_crc 5 1 0 []))]"

lemma snapshot_dir_opens:
  "list_snapshots snapshot_dir = [(5, snapshot_final 5)]"
  "snapshot_open zero_crc (header_encode zero_crc (snapshot_header zero_crc 5 1 0 [])) = Inr (snapshot_header zero_crc 5 1 0 [], [])"
  using snapshot_open_cut [of "[]" 0 _ zero_crc 5 1 SNAPSHOT_HEADER_SIZE]
  by (simp_all add: list_snapshots_def snapshot_dir_def snapshot_file_names List.map_filter_simps is_i64_def)

lemma sum_state_ok: "server_ok (\<lambda>_. 0) sum_state"
proof -
  obtain resp bumps where "dispatch_register_one (example_reg_env id) (\<lambda>_. Some sum_payload) True (request False) boot_state = (resp, sum_state, bumps)"
    by (rule sum_registers)
  moreover have "server_ok (re_signature (example_reg_env id)) boot_state"
    using registry_default_ok wired_default by (simp add: server_ok_def boot_state_def tables_cover_def versions_ok_def registry_default_def)
  ultimately show ?thesis using register_keeps [OF _ example_processes(1)] by (fastforce simp: example_reg_env_def)
qed

theorem snapshot_restore_witness:
  "\<exists>d'. load_snapshot_if_any (\<lambda>_. 0) (example_reg_env id) zero_crc (\<lambda>_. Some (body_stored (from_live (da_registry sum_state) (da_tables sum_state) (next_event_id sum_state) 7)))
     snapshot_dir boot_state = Some (5, next_event_id sum_state, d') \<and> reg_version (da_registry d') = reg_version (da_registry sum_state) \<and> tables_cover d' \<and> query_time_ms d' = 7"
proof -
  have "registry_ok (\<lambda>_. 0) (da_registry sum_state)" "tables_cover sum_state" using sum_state_ok by (simp_all add: server_ok_def)
  from snapshot_restore [OF example_processes(1) this, of snapshot_dir "[]" 5 "snapshot_final 5" "[]" zero_crc
      "\<lambda>_. Some (body_stored (from_live (da_registry sum_state) (da_tables sum_state) (next_event_id sum_state) 7))"
      "header_encode zero_crc (snapshot_header zero_crc 5 1 0 [])" "snapshot_header zero_crc 5 1 0 []" "[]" 7 "\<lambda>_. 0" boot_state]
  obtain d' where "load_snapshot_if_any (\<lambda>_. 0) (example_reg_env id) zero_crc
      (\<lambda>_. Some (body_stored (from_live (da_registry sum_state) (da_tables sum_state) (next_event_id sum_state) 7))) snapshot_dir boot_state = Some (5, next_event_id sum_state, d')"
    "reg_version (da_registry d') = reg_version (da_registry sum_state)" "tables_cover d'" "query_time_ms d' = 7"
    using snapshot_dir_opens by (auto simp: snapshot_dir_def)
  then show ?thesis by blast
qed

definition unordered_payload :: "PayloadNode list" where
  "unordered_payload = [named_event ''E'', plain_derivation ''D'' ''E'', plain_derivation ''C'' ''D'', group_by_node ''S'' [[(''s'', field_spec ''sum'' ''x'' [])]]]"

lemma restore_payload_order:
  assumes "btree_wf (rd_derivations body)" and "(n, d) \<in> set (rd_derivations body)" and "(u, du) \<in> set (rd_derivations body)"
    and "der_name du = u" and "u \<in> set (upstreams d)" and "n < u"
  shows "\<not> structure_ok registry_default (restore_payload body)"
proof
  assume ok: "structure_ok registry_default (restore_payload body)"
  let ?p = "restore_payload body" and ?ds = "rd_derivations body" and ?m = "length (rd_events body) + length (rd_tables body)"
  obtain i where i: "i < length ?ds" "?ds ! i = (n, d)" using assms(2) by (auto simp: in_set_conv_nth)
  obtain j where j: "j < length ?ds" "?ds ! j = (u, du)" using assms(3) by (auto simp: in_set_conv_nth)
  have "i < j"
  proof (rule ccontr)
    assume "\<not> i < j"
    then have "fst (?ds ! j) \<le> fst (?ds ! i)"
      using assms(1) i(1) sorted_nth_mono [of "map fst ?ds" j i] by (simp add: btree_wf_def strict_sorted_iff)
    then show False using i(2) j(2) assms(6) by simp
  qed
  have len: "length ?p = ?m + length ?ds" and nth: "?p ! (?m + k) = NDerivation (snd (?ds ! k))" if "k < length ?ds" for k
    using that by (simp_all add: restore_payload_def nth_append case_prod_beta)
  have pi: "?m + i < length ?p" "?p ! (?m + i) = NDerivation d" and pj: "?m + j < length ?p" "?p ! (?m + j) = NDerivation du"
    using nth [OF i(1)] nth [OF j(1)] len [OF i(1)] i j by auto
  have "u \<in> set (node_upstreams (?p ! (?m + i)))" using assms(5) by (simp add: pi(2))
  then have "u \<in> set (map payload_name (take (?m + i) ?p)) \<or> u \<notin> set (map payload_name ?p) \<and> known_in_current registry_default u"
    using ok pi(1) unfolding structure_ok_def by blast
  moreover have "\<not> known_in_current registry_default u" by (simp add: known_in_current_def registry_default_def)
  ultimately have "u \<in> set (map payload_name (take (?m + i) ?p))" by blast
  then obtain k where k: "k < ?m + i" "payload_name (?p ! k) = u" using pi(1) by (auto simp: in_set_conv_nth)
  have "distinct (map payload_name ?p)" using ok by (simp add: structure_ok_def)
  moreover have "map payload_name ?p ! k = map payload_name ?p ! (?m + j)" using k pi(1) pj assms(4) by simp
  ultimately have "k = ?m + j" using nth_eq_iff_index_eq [of "map payload_name ?p" k "?m + j"] k(1) pi(1) pj(1) by simp
  with k(1) \<open>i < j\<close> show False by simp
qed

lemma restore_nothing: "compiled_aggregations w = [] \<Longrightarrow> fold_opt (restore_table fx lm w) saved ts = Some ts"
  by (induction saved) (auto simp: restore_table_def compiled_aggregation_def)

text \<open>C40. A snapshot can lose every aggregation. The restored payload lists the derivations in the order of their names, and the rules
  demand that upstreams come first. So in every registry in which some derivation is named before one of its upstream derivations,
  the descriptors that the server had accepted fail re-validation: the registry restored from its own snapshot has all tables and
  derivations, and no aggregation, no chain and no state table, whatever the derivation has to do with the aggregations.\<close>

theorem snapshot_loses_aggregations:
  assumes "permutes (re_hash_order env)" and "btree_wf (derivations w)" and "(n, d) \<in> set (derivations w)" and "(u, du) \<in> set (derivations w)"
    and "der_name du = u" and "u \<in> set (upstreams d)" and "n < u"
  shows "\<exists>d'. restore_body fx env (body_stored (from_live w ts next_id query_ms)) d0 = Some d' \<and>
    compiled_aggregations (da_registry d') = [] \<and> compiled_chains (da_registry d') = [] \<and> da_tables d' = [] \<and>
    reg_tables (da_registry d') = reg_tables w \<and> derivations (da_registry d') = derivations w \<and>
    map fst (reg_events (da_registry d')) = map fst (reg_events w)"
proof -
  let ?b = "body_stored (from_live w ts next_id query_ms)"
  have ds: "rd_derivations (sb_registry ?b) = derivations w" "rd_tables (sb_registry ?b) = reg_tables w"
    by simp_all
  have evs: "map fst (rd_events (sb_registry ?b)) = map fst (reg_events w)" by (simp add: body_stored_def from_live_def descriptors_only_def comp_def)
  have hash: "set (re_hash_order env ks) = set ks" for ks using assms(1) by (simp add: permutes_def)
  have "\<not> structure_ok registry_default (restore_payload (sb_registry ?b))"
    by (rule restore_payload_order [of _ n d u du]) (use assms(2-7) in \<open>simp_all only: ds\<close>)
  then have "structural_errors (re_hash_order env) registry_default (restore_payload (sb_registry ?b)) \<noteq> []"
    using structural_errors_ok [of "re_hash_order env", OF hash] by simp
  moreover have "restore_payload (sb_registry ?b) \<noteq> []" using assms(3) by (auto simp: restore_payload_def from_live_def descriptors_only_def)
  ultimately have "\<exists>es. validate_payload (re_libm env) (re_hash_order env) registry_default (restore_payload (sb_registry ?b)) = Inl es"
    by (simp add: validate_payload_def Let_def)
  then obtain es where "validate_payload (re_libm env) (re_hash_order env) registry_default (restore_payload (sb_registry ?b)) = Inl es" ..
  then show ?thesis
    using evs by (simp add: restore_body_def install_from_descriptors_def Let_def restore_nothing registry_default_def ensure_capacity_for_def comp_def case_prod_beta)
qed

definition unordered_registry :: RegistryInner where
  "unordered_registry = fst (snd (register_nodes False unordered_payload registry_default))"

theorem snapshot_loses_aggregations_witness:
  "map fst (compiled_aggregations unordered_registry) = [''S''] \<and>
   (\<exists>d'. restore_body (\<lambda>_. 0) (example_reg_env id) (body_stored (from_live unordered_registry [] 0 0)) boot_state = Some d' \<and>
      compiled_aggregations (da_registry d') = [])"
proof -
  have c: "map fst (compiled_aggregations unordered_registry) = [''S'']" by code_simp
  have ds: "map (\<lambda>(n, d). (n, der_name d, upstreams d)) (derivations unordered_registry) = [(''C'', ''C'', [''D'']), (''D'', ''D'', [''E'']), (''S'', ''S'', [''E''])]"
    by code_simp
  then obtain x y z where xyz: "derivations unordered_registry = [(''C'', x), (''D'', y), (''S'', z)]" "der_name y = ''D''" "upstreams x = [''D'']" by auto
  have "btree_wf (derivations unordered_registry)" unfolding xyz(1) by code_simp
  from snapshot_loses_aggregations [OF example_processes(1) this, of "''C''" x "''D''" y "\<lambda>_. 0" "[]" 0 0 boot_state] c xyz
  show ?thesis by (auto simp: less_list_code)
qed

end
