(* ===== verification/Spec2Isabelle.thy ===== *)
theory Spec2Isabelle
  imports WalProgress Envelope Restore
begin

text \<open>
  Verification of the core of beava, a feature server: clients register events and derivations
  over them, push events, and query per-entity features that the server keeps up to date. This
  development models the crate \<open>beava-core\<close>, which holds that logic, the files of
  \<open>beava-persistence\<close>, the log and the wire protocol of \<open>beava-runtime-core\<close> and the request
  handlers of \<open>beava-server\<close> as executable definitions, and proves what makes them correct.

  \<^bold>\<open>How the program is put together.\<close> A connection's bytes are cut into frames and parsed into
  requests (\<open>wire.rs\<close>, \<open>tcp_listener.rs\<close>, \<open>io_thread_worker.rs\<close>). A registration
  (\<open>apply_shard.rs\<close>, \<open>register.rs\<close>) is validated (\<open>register_validate.rs\<close>), its op chains
  and aggregations are compiled (\<open>schema_propagate.rs\<close>, \<open>op_chain.rs\<close>, \<open>agg_compile.rs\<close>),
  its difference from the registry is classified, and it is logged (\<open>beava-persistence\<close>) before the
  registry changes. Snapshots of the state are written from time to time. A push is checked, appended to the buffers of the data-plane log
  (\<open>wal_buffer.rs\<close>, written by the thread of \<open>wal_writer.rs\<close>) and applied; a restart loads the newest
  snapshot and replays both logs (\<open>recovery.rs\<close>). A push hands a row (\<open>row.rs\<close>) and its source's name to
  the apply loop (\<open>agg_apply.rs\<close>). The loop asks the registry (\<open>registry.rs\<close>) for the
  aggregations on the source, runs each one's op chain on the row (\<open>op_chain.rs\<close>, expressions of
  \<open>expr.rs\<close> evaluated by \<open>eval.rs\<close>), finds the entity's row of operators in the aggregation's
  state table (\<open>agg_state_table.rs\<close>) and updates each operator (\<open>agg_op.rs\<close>), which dispatches
  to one of 54 operator states (\<open>agg_state*.rs\<close>, \<open>agg_buffer.rs\<close>, \<open>agg_geo.rs\<close>,
  \<open>sketches/\<close>), possibly once per time bucket of a window (\<open>agg_windowed.rs\<close>).

  \<^bold>\<open>Theories.\<close>
  \<^item> \<open>Prelude\<close>: collections of rules, lists, machine integers with their saturating, wrapping
    and checked operations, ordered association lists for \<open>BTreeMap\<close>, the option fold.
  \<^item> \<open>F64\<close>, \<open>F64Bits\<close>: IEEE doubles as rationals with rounding, infinities, NaN and the sign
    of zero, and their 64-bit representation. Transcendental functions and decimal printing
    and parsing of doubles are the fields of the record \<open>libm\<close>, an argument of what uses them.
  \<^item> \<open>Rows\<close> (\<open>row.rs\<close>): dynamic values, three-valued logic, rows, JSON conversion and the
    deserializer. The connectives are strong Kleene logic, the row operations are map
    operations, and duplicate keys are resolved as stated.
  \<^item> \<open>Schemas\<close> (\<open>schema.rs\<close>): schema records; name validation accepts the documented pattern.
  \<^item> \<open>Exprs\<close> (\<open>expr.rs\<close>, \<open>eval.rs\<close>, \<open>expr_builtins.rs\<close>, \<open>agg_where.rs\<close>): syntax trees,
    rewriting passes, builtins and the depth-bounded evaluator. Integer expressions and the
    filters over them mean what a reference semantics says, saturating after every operation;
    evaluation reads only the reported fields, and panics only in an integer division.
  \<^item> \<open>OpChain\<close> (\<open>op_node.rs\<close>, \<open>op_chain.rs\<close>): operator nodes and the execution of a
    compiled chain, with its operators as operations on maps.
  \<^item> \<open>RingBuffer\<close>, \<open>AggStates\<close>, \<open>AggDecay\<close>, \<open>AggVelocity\<close>, \<open>AggBuffer\<close>, \<open>AggGeo\<close>
    (\<open>agg_state.rs\<close>, \<open>agg_state_decay.rs\<close>, \<open>agg_state_velocity.rs\<close>, \<open>agg_buffer.rs\<close>,
    \<open>agg_geo.rs\<close>): the operator states, each with its update from a row, its update from a
    pre-extracted value and its query. Sums and extrema over integers are exact, buffers
    hold what their names say, histograms and category counts are right, no slot is out of
    range.
  \<^item> \<open>SketchSpec\<close> states the interface of a mergeable sketch as a locale, and \<open>Hll\<close>,
    \<open>CountDistinct\<close>, \<open>Bloom\<close>, \<open>Entropy\<close>, \<open>UddSketch\<close>, \<open>Cms\<close>, \<open>TopK\<close>
    (\<open>sketches/\<close>) provide it where the code merges. Merging is merging of streams across all
    promotions, filters have no false negatives, the heap keeps its order and index, heavy
    hitters are never undercounted.
  \<^item> \<open>AggOps\<close> (\<open>agg_op.rs\<close>): kinds, descriptors, construction, both update paths, queries and
    output types; \<open>AggWindowed\<close> (\<open>agg_windowed.rs\<close>): 64 recycled buckets. Both update paths
    agree for every kind; a windowed count and distinct count is that of the events in the window.
  \<^item> \<open>StateTable\<close> (\<open>agg_state_table.rs\<close>, \<open>agg_descriptor.rs\<close>): entity keys, their three
    storage shapes, the table, cold eviction, snapshots. Restoring a snapshot restores the table.
  \<^item> \<open>Registry\<close> (\<open>registry.rs\<close>): descriptors, lookups, registration and the resolution of field
    positions. Registration keeps the registry consistent.
  \<^item> \<open>AggApply\<close> (\<open>agg_apply.rs\<close>): the apply loop with its op chains, which implements a plain
    specification for every registered event with at most 255 fields in use.
  \<^item> \<open>ExprParser\<close> (\<open>expr.rs\<close>): lexer and parser; they end on every text.
  \<^item> \<open>SchemaProp\<close> (\<open>schema_propagate.rs\<close>, \<open>op_chain.rs\<close>): type inference and chain
    compilation. Rows that leave a compiled chain have the propagated schema under three conditions that
    registration does not test; what a fillna operator does to schema and row is stated exactly.
  \<^item> \<open>RegisterRules\<close> (\<open>register_validate.rs\<close>): checks on the JSON body and the structural
    rules. The rules hold exactly of well-formed payloads, and the cycle search is exact.
  \<^item> \<open>AggCompile\<close> (\<open>agg_compile.rs\<close>): durations, parameters, features and group-bys. A feature
    compiles exactly when it meets the declarative rules, what compiles without error is sound, durations are exact.
  \<^item> \<open>Register\<close> (\<open>register_validate.rs\<close>, \<open>registry_diff.rs\<close>, \<open>register.rs\<close>,
    \<open>apply_shard.rs\<close>): expression validation, the classified difference, forced removal, the
    request handler and the log record. Validation does not depend on the iteration order of hash maps.
  \<^item> \<open>Wiring\<close>: every aggregation reads from an upstream of its derivation and every upstream is registered, kept by
    validated payloads and by forced removals with what is downstream of them.
  \<^item> \<open>Server\<close> (\<open>apply_shard.rs\<close>, \<open>recovery.rs\<close>): pushes and registrations on one state and the replay of the registry's
    log. Every reachable state is consistent, which the theorems on the apply loop and on the recovery of
    pushes assume; replay rebuilds the registry. Forced registrations that drop what they read from fail after their
    removals and cut the log; changes of attributes that the comparison does not look at are ignored.
  \<^item> \<open>Restore\<close> (\<open>snapshot_body.rs\<close>, \<open>registry.rs\<close>, \<open>recovery.rs\<close>, \<open>server.rs\<close>): the body of a snapshot, its
    restoration and the sequence of a start. Decoding resets the fields that serialization skips. Every restored aggregation gets its saved
    entries; a snapshot in which a derivation is named before an upstream derivation restores no aggregation.
  \<^item> \<open>Bytes\<close>: big- and little-endian numbers and the locale of a framed codec, interpreted by the record
    formats. \<open>WalFile\<close> (\<open>recovery.rs\<close>, \<open>wal_writer.rs\<close>): the data-plane log file, its
    parser, repair of a torn tail and compaction. \<open>WalRing\<close>, \<open>WalProgress\<close>
    (\<open>wal_buffer.rs\<close>, \<open>wal_lsn.rs\<close>, \<open>wal_writer.rs\<close>): the buffer ring as a state machine of the apply
    and the writer thread; the writer sleeps, seals, and drains the queue, and writes and syncs can fail. Durability on
    disciplined runs, three runs that lose it, and progress until the next tick.
  \<^item> \<open>Persistence\<close> (\<open>beava-persistence\<close>): records, segments, truncation and snapshot files, safe
    against a crash at any byte.
  \<^item> \<open>PushPath\<close> (\<open>apply_shard.rs\<close>, \<open>idem_cache.rs\<close>, \<open>recovery.rs\<close>, \<open>server.rs\<close>): the push handler, its responses on
    both transports and the replay of its log. Replay rebuilds the state; an event is applied once in its deduplication window.
  \<^item> \<open>Wire\<close>, \<open>Envelope\<close> (\<open>wire.rs\<close>, \<open>tcp_listener.rs\<close>, \<open>io_thread_worker.rs\<close>): frames, requests and the
    two envelope scanners. Cutting the stream into chunks does not matter; the scanners return exactly
    the bytes of the body.

  \<^bold>\<open>Conventions.\<close> A struct is a record, an enum a datatype, a method a function that returns the
  updated state. A Rust \<open>String\<close> is the list of its UTF-8 bytes. Signed integers are \<open>int\<close> with
  explicit wrapping or saturation and the predicate \<open>is_i64\<close>; counters and bit patterns that
  wrap are words; sizes and indices are \<open>nat\<close>. A panic is \<open>None\<close> of an option result, an error
  is \<open>Inl\<close>. A \<open>BTreeMap\<close> is an association list sorted by key; a \<open>HashMap\<close> whose
  iteration order is observable is passed on only through sorting. Code of other packages (string and value
  hashes of fxhash and ahash, the haversine formula, libm) is a parameter, and hypotheses on it
  are named where used. Four representations are coarser than the code's: a JSON number is an i64 or a double, so
  an unsigned number above the range of an i64 is not in the model; top-k values made from doubles identify the two zeros; entity keys
  compare by equality of their values, also those of null and JSON, which the code's comparison never finds equal; and versions and identifiers are \<open>nat\<close>, so
  they do not overflow. Recursion has no stack limit.

  \<^bold>\<open>Bounds.\<close> Two recursions carry fuel. The parser's fuel is more than the number of tokens
  can use, as \<open>parse_returns\<close> shows; the cycle search starts with one unit per
  derivation and one more, and \<open>acyclicity_check\<close> shows that it never runs out. All other loops are structural
  recursions, folds or functions with a measure. The removal closure of a forced registration
  runs one round per descriptor, as the code does. The two threads of the log come to rest after at most three steps per
  buffer and nine more (\<open>wal_append_completes\<close>). The evaluator's depth limit of 512
  and the 64 buckets, the 1024-entry hash set, the 255-field limit of the positions
  and the other limits are the code's own.

  \<^bold>\<open>Not modelled.\<close> The serializations of other packages (bincode, serde_json, rmp_serde), which are
  parameters; configuration, read from the environment; the group-commit worker
  and the HTTP parser; sockets, threads and tasks over operating system calls, and the start of the server;
  texts of reasons, log lines, metric counters and timing traces, which no operation reads; the benchmark
  harness.
\<close>

end
